(* ===== verification/Nachos_Prelude.thy ===== *)
theory Nachos_Prelude
  imports Main "HOL-Library.Word"
begin

text \<open>
  Shared vocabulary of the development: the machine-integer types of the C++ sources, the
  outcome type of an operation that may abort the simulator, checked array accesses, the
  little-endian byte representation of words, and the list lemmas the components share.

  An operation of the sources either returns or aborts the process: a failed \<open>ASSERT\<close>
  (\<open>lib/assert.cc\<close>) calls \<open>abort\<close>, an access outside an array is undefined behaviour,
  and a trapping host instruction kills the simulator. Each of these is a value of
  \<open>error\<close>, so every such branch of the code is a branch of the model.
\<close>

unbundle bit_operations_syntax

section \<open>Types\<close>

type_synonym u8 = "8 word"
type_synonym u16 = "16 word"
type_synonym u32 = "32 word"
type_synonym u64 = "64 word"

datatype error =
    AssertFail        \<comment> \<open>\<open>ASSERT\<close> of a false condition\<close>
  | OutOfBounds       \<comment> \<open>array access outside the allocated object\<close>
  | NullDeref         \<comment> \<open>dereference of a null pointer\<close>
  | DanglingPtr       \<comment> \<open>dereference of a pointer to a deleted object\<close>
  | OutOfFuel         \<comment> \<open>not a behaviour of the code: the model stopped counting a loop\<close>
  | HostTrap          \<comment> \<open>the host kills the simulator: an arithmetic trap, an allocation that throws\<close>

text \<open>The mode of the simulated machine (\<open>machine/interrupt.hh\<close>), set by the CPU and the
  interrupt hardware.\<close>

datatype MachineStatus = IDLE_MODE | SYSTEM_MODE | USER_MODE

type_synonym 'a res = "error + 'a"

named_theorems res_simps \<open>rewriting of outcomes\<close>

section \<open>Outcomes\<close>

definition bindR :: "'a res \<Rightarrow> ('a \<Rightarrow> 'b res) \<Rightarrow> 'b res" where
  "bindR m f = (case m of Inl e \<Rightarrow> Inl e | Inr x \<Rightarrow> f x)"

definition ASSERT :: "bool \<Rightarrow> 'a res \<Rightarrow> 'a res" where
  "ASSERT condition k = (if condition then k else Inl AssertFail)"

definition aget :: "'a list \<Rightarrow> nat \<Rightarrow> 'a res" where
  "aget xs i = (if i < length xs then Inr (xs ! i) else Inl OutOfBounds)"

definition aset :: "'a list \<Rightarrow> nat \<Rightarrow> 'a \<Rightarrow> 'a list res" where
  "aset xs i v = (if i < length xs then Inr (xs[i := v]) else Inl OutOfBounds)"

definition need :: "'a option \<Rightarrow> 'a res" where
  "need p = (case p of None \<Rightarrow> Inl NullDeref | Some x \<Rightarrow> Inr x)"

lemma need_simps [simp]: "need None = Inl NullDeref" "need (Some x) = Inr x"
  by (simp_all add: need_def)

lemma need_eq_Inr_iff [res_simps]: "need p = Inr x \<longleftrightarrow> p = Some x"
  by (cases p) simp_all

lemma bindR_Inr [simp]: "bindR (Inr x) f = f x"
  and bindR_Inl [simp]: "bindR (Inl e) f = Inl e"
  by (simp_all add: bindR_def)

lemma bindR_eq_Inr_iff [res_simps]: "bindR m f = Inr y \<longleftrightarrow> (\<exists>x. m = Inr x \<and> f x = Inr y)"
  by (cases m) simp_all

lemma bindR_eq_Inl_iff [res_simps]:
  "bindR m f = Inl e \<longleftrightarrow> m = Inl e \<or> (\<exists>x. m = Inr x \<and> f x = Inl e)"
  by (cases m) simp_all

lemma bindR_assoc: "bindR (bindR m f) g = bindR m (\<lambda>x. bindR (f x) g)"
  by (cases m) simp_all

lemma ASSERT_True [simp]: "ASSERT True k = k"
  and ASSERT_False [simp]: "ASSERT False k = Inl AssertFail"
  by (simp_all add: ASSERT_def)

lemma ASSERT_eq_Inr_iff [res_simps]: "ASSERT b k = Inr y \<longleftrightarrow> b \<and> k = Inr y"
  by (simp add: ASSERT_def)

lemma ASSERT_eq_Inl_iff [res_simps]:
  "ASSERT b k = Inl e \<longleftrightarrow> (\<not> b \<and> e = AssertFail) \<or> (b \<and> k = Inl e)"
  by (auto simp add: ASSERT_def)

lemma aget_in [simp]: "i < length xs \<Longrightarrow> aget xs i = Inr (xs ! i)"
  by (simp add: aget_def)

lemma aset_in [simp]: "i < length xs \<Longrightarrow> aset xs i v = Inr (xs[i := v])"
  by (simp add: aset_def)

lemma aget_eq_Inr_iff [res_simps]: "aget xs i = Inr v \<longleftrightarrow> i < length xs \<and> v = xs ! i"
  by (auto simp add: aget_def)

lemma aset_eq_Inr_iff [res_simps]: "aset xs i v = Inr ys \<longleftrightarrow> i < length xs \<and> ys = xs[i := v]"
  by (auto simp add: aset_def)

definition res_ok :: "(error \<Rightarrow> bool) \<Rightarrow> ('a \<Rightarrow> bool) \<Rightarrow> 'a res \<Rightarrow> bool" where
  "res_ok Q P r \<longleftrightarrow> (case r of Inl e \<Rightarrow> Q e | Inr x \<Rightarrow> P x)"

lemma res_ok_simps [simp]: "res_ok Q P (Inl e) = Q e" "res_ok Q P (Inr x) = P x"
  by (simp_all add: res_ok_def)

lemma res_ok_bind: "res_ok Q P r \<Longrightarrow> (\<And>x. P x \<Longrightarrow> res_ok Q P' (f x)) \<Longrightarrow> res_ok Q P' (bindR r f)"
  by (cases r) simp_all

section \<open>Lists\<close>

lemma upt_split: "k < n \<Longrightarrow> [0..<n] = [0..<k] @ k # [Suc k..<n]"
  using upt_add_eq_append [of 0 k "n - k"] by (simp add: upt_conv_Cons)

section \<open>Byte representation of integers\<close>

text \<open>
  The bytes of a 16- or 32-bit integer, least significant first, and the order in which the
  host stores them: \<open>be\<close> is the build's \<open>HOST_IS_BIG_ENDIAN\<close>. \<open>blit\<close> is a
  \<open>memcpy\<close> into an array at an offset that the caller has checked.
\<close>

definition bytes16 :: "u16 \<Rightarrow> u8 list" where
  "bytes16 w = [ucast w, ucast (drop_bit 8 w)]"

definition bytes32 :: "u32 \<Rightarrow> u8 list" where
  "bytes32 w = [ucast w, ucast (drop_bit 8 w), ucast (drop_bit 16 w), ucast (drop_bit 24 w)]"

fun word_of_bytes :: "u8 list \<Rightarrow> 'a::len word" where
  "word_of_bytes [] = 0"
| "word_of_bytes (b # bs) = ucast b OR push_bit 8 (word_of_bytes bs)"

definition host_order :: "bool \<Rightarrow> 'a list \<Rightarrow> 'a list" where
  "host_order be xs = (if be then rev xs else xs)"

definition blit :: "'a list \<Rightarrow> nat \<Rightarrow> 'a list \<Rightarrow> 'a list" where
  "blit xs i ys = take i xs @ ys @ drop (i + length ys) xs"

definition slice :: "nat \<Rightarrow> nat \<Rightarrow> 'a list \<Rightarrow> 'a list" where
  "slice i n xs = take n (drop i xs)"

lemma length_bytes [simp]: "length (bytes16 w) = 2" "length (bytes32 v) = 4"
  by (simp_all add: bytes16_def bytes32_def)

lemma bit_word_of_bytes:
  "bit (word_of_bytes bs :: 'a::len word) n \<longleftrightarrow>
     n < LENGTH('a) \<and> n div 8 < length bs \<and> bit (bs ! (n div 8)) (n mod 8)"
proof (induction bs arbitrary: n)
  case Nil
  then show ?case by simp
next
  case (Cons b bs)
  show ?case
  proof (cases "n < 8")
    case True
    then show ?thesis by (auto simp add: bit_simps)
  next
    case False
    then have d: "n div 8 = Suc ((n - 8) div 8)" "(n - 8) mod 8 = n mod 8"
      by (simp_all add: le_div_geq le_mod_geq)
    have "\<not> bit (ucast b :: 'a word) n"
      using False bit_imp_le_length [of b n] by (auto simp add: bit_simps)
    with False show ?thesis by (auto simp add: bit_simps Cons.IH d)
  qed
qed

lemma bit_bytes16: "k < 2 \<Longrightarrow> r < 8 \<Longrightarrow> bit (bytes16 w ! k) r \<longleftrightarrow> bit w (8 * k + r)"
  by (auto simp add: bytes16_def bit_simps less_Suc_eq numeral_2_eq_2)

lemma bytes32_nth:
  "bytes32 w ! 0 = ucast w" "bytes32 w ! Suc 0 = ucast (drop_bit 8 w)"
  "bytes32 w ! 2 = ucast (drop_bit 16 w)" "bytes32 w ! 3 = ucast (drop_bit 24 w)"
  by (simp_all add: bytes32_def numeral_2_eq_2 numeral_3_eq_3)

lemma bit_bytes32:
  assumes "k < 4" and "r < 8"
  shows "bit (bytes32 w ! k) r \<longleftrightarrow> bit w (8 * k + r)"
proof -
  from assms(1) consider "k = 0" | "k = Suc 0" | "k = 2" | "k = 3" by linarith
  then show ?thesis using assms(2) by cases (simp_all add: bytes32_nth bit_simps)
qed

lemma word_of_bytes16 [simp]: "word_of_bytes (bytes16 w) = w"
  by (rule bit_eqI) (simp add: bit_word_of_bytes bit_bytes16 less_mult_imp_div_less)

lemma word_of_bytes32 [simp]: "word_of_bytes (bytes32 w) = w"
  by (rule bit_eqI) (simp add: bit_word_of_bytes bit_bytes32 less_mult_imp_div_less)

lemma unat_less32: "unat (a :: u32) < 4294967296"
  using unsigned_less [of a, where 'a = nat] by simp

lemma unat_add32: "unat (a + b :: u32) = (unat a + unat b) mod 4294967296"
  and unat_mult32: "unat (a * b :: u32) = (unat a * unat b) mod 4294967296"
  by (simp_all add: unat_word_ariths)

lemma sign_bit_iff: "(w :: u32) AND 0x80000000 \<noteq> 0 \<longleftrightarrow> 2147483648 \<le> unat w"
proof -
  have "w AND 0x80000000 \<noteq> 0 \<longleftrightarrow> bit w 31"
    using and_exp_eq_0_iff_not_bit [of w 31] by simp
  also have "\<dots> \<longleftrightarrow> bit (unat w) 31" by (simp add: bit_unsigned_iff)
  also have "\<dots> \<longleftrightarrow> odd (unat w div 2147483648)" by (simp add: bit_iff_odd)
  also have "\<dots> \<longleftrightarrow> 2147483648 \<le> unat w"
  proof -
    have "unat w div 2147483648 < 2" using unat_less32 [of w] by (simp add: less_mult_imp_div_less)
    moreover have "unat w div 2147483648 = 0 \<longleftrightarrow> \<not> 2147483648 \<le> unat w" by (simp add: div_eq_0_iff not_le)
    ultimately show ?thesis by (cases "unat w div 2147483648 = 0") (auto simp add: less_2_cases_iff)
  qed
  finally show ?thesis .
qed

lemma sint_cases32:
  "sint (a :: u32) = (if unat a < 2147483648 then int (unat a) else int (unat a) - 4294967296)"
proof -
  have "bit (uint a) 31 \<longleftrightarrow> \<not> unat a < 2147483648"
    using sign_bit_iff [of a] and_exp_eq_0_iff_not_bit [of a 31] by (simp add: bit_unsigned_iff not_less)
  then show ?thesis
    using take_bit_length_eq [of a]
    by (simp add: sint_uint signed_take_bit_eq_take_bit_minus flip: unsigned_take_bit_eq)
qed

lemma scast_small: "unat (w :: u32) < 2147483648 \<Longrightarrow> (scast w :: u64) = ucast w"
  unfolding scast_eq ucast_eq sint_cases32 by simp

lemma uint_bounds32: "0 \<le> uint (x :: u32)" "uint x < 4294967296"
  using unsigned_less [of x, where 'a = int] by simp_all

lemma sint_uint32: "sint (x :: u32) = (if uint x < 2147483648 then uint x else uint x - 4294967296)"
proof -
  have "unat x < 2147483648 \<longleftrightarrow> uint x < 2147483648"
    unfolding of_nat_less_iff [of "unat x", where 'a = int, symmetric] by simp
  then show ?thesis by (simp add: sint_cases32)
qed

lemma sign_bit_neg: "(x :: u32) AND 0x80000000 \<noteq> 0 \<longleftrightarrow> sint x < 0"
proof -
  have "2147483648 \<le> unat x \<longleftrightarrow> 2147483648 \<le> uint x"
    unfolding of_nat_le_iff [of _ "unat x", where 'a = int, symmetric] by simp
  then show ?thesis using uint_bounds32 [of x] unfolding sign_bit_iff sint_uint32 by auto
qed

definition in_range :: "int \<Rightarrow> bool" where
  "in_range k \<longleftrightarrow> - 2147483648 \<le> k \<and> k < 2147483648"

lemma sint_bounds32: "- 2147483648 \<le> sint (x :: u32)" "sint x < 2147483648"
  using uint_bounds32 [of x] unfolding sint_uint32 by (simp_all only: split: if_split) linarith+

lemma signed_wrap:
  assumes "- 4294967296 \<le> k" and "k < 4294967296"
  shows "sint (of_int k :: u32) =
    (if in_range k then k else if k < 0 then k + 4294967296 else k - 4294967296)"
proof -
  have u: "uint (of_int k :: u32) = k mod 4294967296" by (simp add: uint_word_of_int)
  have "k mod 4294967296 = (if 0 \<le> k then k else k + 4294967296)"
  proof (cases "0 \<le> k")
    case False
    have "k mod 4294967296 = (k + 4294967296) mod 4294967296" by simp
    also have "\<dots> = k + 4294967296" using False assms(1) by (intro mod_pos_pos_trivial) linarith+
    finally show ?thesis using False by simp
  qed (use assms in simp)
  with u show ?thesis
    using assms unfolding sint_uint32 in_range_def by (simp split: if_splits)
qed

lemma sint_add32: "sint (x + y :: u32) =
   (if in_range (sint x + sint y) then sint x + sint y
    else if sint x + sint y < 0 then sint x + sint y + 4294967296 else sint x + sint y - 4294967296)"
proof -
  have "x + y = of_int (sint x + sint y)" by simp
  moreover note signed_wrap [of "sint x + sint y"]
  ultimately show ?thesis
    using sint_bounds32 [of x] sint_bounds32 [of y] by (simp only:)
qed

lemma sint_sub32: "sint (x - y :: u32) =
   (if in_range (sint x - sint y) then sint x - sint y
    else if sint x - sint y < 0 then sint x - sint y + 4294967296 else sint x - sint y - 4294967296)"
proof -
  have "x - y = of_int (sint x - sint y)" by simp
  moreover note signed_wrap [of "sint x - sint y"]
  ultimately show ?thesis
    using sint_bounds32 [of x] sint_bounds32 [of y] by (simp only:)
qed

lemma host_order_twice [simp]: "host_order be (host_order be xs) = xs"
  and length_host_order [simp]: "length (host_order be xs) = length xs"
  by (simp_all add: host_order_def)

lemma length_blit [simp]: "i + length ys \<le> length xs \<Longrightarrow> length (blit xs i ys) = length xs"
  by (simp add: blit_def)

lemma length_slice [simp]: "i + n \<le> length xs \<Longrightarrow> length (slice i n xs) = n"
  by (simp add: slice_def)

lemma nth_blit:
  "i + length ys \<le> length xs \<Longrightarrow> k < length xs \<Longrightarrow>
     blit xs i ys ! k = (if i \<le> k \<and> k < i + length ys then ys ! (k - i) else xs ! k)"
  by (auto simp add: blit_def nth_append min_def)

lemma nth_slice [simp]: "i + n \<le> length xs \<Longrightarrow> k < n \<Longrightarrow> slice i n xs ! k = xs ! (i + k)"
  by (simp add: slice_def)

lemma slice_blit_same [simp]:
  "i + length ys \<le> length xs \<Longrightarrow> n = length ys \<Longrightarrow> slice i n (blit xs i ys) = ys"
  by (simp add: slice_def blit_def)

lemma slice_blit_disjoint:
  assumes "i + length ys \<le> length xs" and "j + n \<le> length xs"
    and "j + n \<le> i \<or> i + length ys \<le> j"
  shows "slice j n (blit xs i ys) = slice j n xs"
  using assms by (intro nth_equalityI) (auto simp add: nth_blit)

section \<open>Rounding division (\<open>lib/utility.hh\<close>)\<close>

definition DivRoundDown :: "nat \<Rightarrow> nat \<Rightarrow> nat" where
  "DivRoundDown n s = n div s"

definition DivRoundUp :: "nat \<Rightarrow> nat \<Rightarrow> nat" where
  "DivRoundUp n s = n div s + (if n mod s > 0 then 1 else 0)"

lemma DivRoundUp_le_iff: "0 < s \<Longrightarrow> DivRoundUp n s \<le> k \<longleftrightarrow> n \<le> k * s"
proof -
  assume s: "0 < s"
  have "n \<le> k * s \<longleftrightarrow> n div s + (if n mod s > 0 then 1 else 0) \<le> k"
  proof (cases "n mod s = 0")
    case True
    then obtain q where "n = s * q" by auto
    with s show ?thesis by (simp add: mult.commute)
  next
    case False
    with s have "n \<le> k * s \<longleftrightarrow> n div s < k"
      by (metis div_less_iff_less_mult le_eq_less_or_eq mod_mult_self2_is_0)
    with False show ?thesis by auto
  qed
  then show ?thesis by (simp add: DivRoundUp_def)
qed

lemma DivRoundUp_ge: "0 < s \<Longrightarrow> n \<le> DivRoundUp n s * s"
  using DivRoundUp_le_iff [of s n "DivRoundUp n s"] by simp

lemma div_less_DivRoundUp: "0 < s \<Longrightarrow> i < n \<Longrightarrow> i div s < DivRoundUp n s"
  using DivRoundUp_ge [of s n] by (simp add: div_less_iff_less_mult)

section \<open>Invariants of step relations\<close>

text \<open>What every step preserves holds in every run.\<close>

locale step_invariant =
  fixes step :: "'a \<Rightarrow> 'a \<Rightarrow> bool"
    and inv :: "'a \<Rightarrow> bool"
  assumes preserved: "inv a \<Longrightarrow> step a b \<Longrightarrow> inv b"
begin

lemma run_inv: "step\<^sup>*\<^sup>* a b \<Longrightarrow> inv a \<Longrightarrow> inv b"
  by (induction rule: rtranclp_induct) (auto intro: preserved)

end

end
