(* ===== verification/Lib_List.thy ===== *)
theory Lib_List
  imports Nachos_Prelude
begin

text \<open>
  \<open>lib/list.hh\<close>: the singly linked list every queue of the kernel uses (ready lists, semaphore
  queues, pending interrupts, freed table slots). Here a list is the sequence of its elements,
  from \<open>first\<close> to \<open>last\<close>, each with its sort key, together with the \<open>size\<close> field the code
  maintains by hand. \<open>Lib_ListHeap\<close> proves that the pointer code implements these operations.
\<close>

section \<open>Data and operations\<close>

record 'a nlist =
  elems :: "(int \<times> 'a) list"
  nsize :: int

definition List_new :: "'a nlist" where
  "List_new = \<lparr>elems = [], nsize = 0\<rparr>"

definition List_IsEmpty :: "'a nlist \<Rightarrow> bool" where
  "List_IsEmpty l \<longleftrightarrow> elems l = []"

definition List_Append :: "'a nlist \<Rightarrow> 'a \<Rightarrow> 'a nlist" where
  "List_Append l item = \<lparr>elems = elems l @ [(0, item)], nsize = nsize l + 1\<rparr>"

definition List_Prepend :: "'a nlist \<Rightarrow> 'a \<Rightarrow> 'a nlist" where
  "List_Prepend l item = \<lparr>elems = (0, item) # elems l, nsize = nsize l + 1\<rparr>"

definition List_Head :: "'a nlist \<Rightarrow> 'a res" where
  "List_Head l = ASSERT (\<not> List_IsEmpty l) (Inr (snd (hd (elems l))))"

text \<open>
  \<open>SortedPop\<close> returns \<open>Item()\<close> and leaves \<open>*keyPtr\<close> alone when the list is empty: the
  result is \<open>None\<close> there and otherwise the key stored through \<open>keyPtr\<close> and the item.
\<close>

definition List_SortedPop :: "'a nlist \<Rightarrow> (int \<times> 'a) option \<times> 'a nlist" where
  "List_SortedPop l =
     (case elems l of
        [] \<Rightarrow> (None, l)
      | e # es \<Rightarrow> (Some e, \<lparr>elems = es, nsize = nsize l - 1\<rparr>))"

definition List_Pop :: "'a nlist \<Rightarrow> 'a option \<times> 'a nlist" where
  "List_Pop l = (case List_SortedPop l of (r, l') \<Rightarrow> (map_option snd r, l'))"

fun remove_first :: "'a \<Rightarrow> (int \<times> 'a) list \<Rightarrow> ((int \<times> 'a) list) option" where
  "remove_first item [] = None"
| "remove_first item (e # es) =
     (if item = snd e then Some es else map_option (\<lambda>r. e # r) (remove_first item es))"

definition List_Remove :: "'a nlist \<Rightarrow> 'a \<Rightarrow> 'a nlist" where
  "List_Remove l item =
     (case remove_first item (elems l) of
        None \<Rightarrow> l
      | Some es \<Rightarrow> \<lparr>elems = es, nsize = nsize l - 1\<rparr>)"

definition List_Apply :: "('a \<Rightarrow> 's \<Rightarrow> 's) \<Rightarrow> 'a nlist \<Rightarrow> 's \<Rightarrow> 's" where
  "List_Apply func l = fold func (map snd (elems l))"

definition List_Has :: "'a nlist \<Rightarrow> 'a \<Rightarrow> bool" where
  "List_Has l item \<longleftrightarrow> (\<exists>e\<in>set (elems l). item = snd e)"

text \<open>
  The search loop of \<open>SortedInsert\<close>, from the node \<open>ptr\<close> on. It returns the list and whether
  control falls through to \<open>size++\<close>: the branch that links the new node before \<open>ptr->next\<close>
  returns from the function before the counter is incremented.
\<close>

fun insert_loop :: "int \<Rightarrow> 'a \<Rightarrow> (int \<times> 'a) list \<Rightarrow> (int \<times> 'a) list \<times> bool" where
  "insert_loop key item [] = ([(key, item)], True)"
| "insert_loop key item [p] = ([p, (key, item)], True)"
| "insert_loop key item (p # q # rest) =
     (if key < fst q then (p # (key, item) # q # rest, False)
      else (case insert_loop key item (q # rest) of (r, counted) \<Rightarrow> (p # r, counted)))"

definition List_SortedInsert :: "'a nlist \<Rightarrow> 'a \<Rightarrow> int \<Rightarrow> 'a nlist" where
  "List_SortedInsert l item sortKey =
     (if List_IsEmpty l then \<lparr>elems = [(sortKey, item)], nsize = nsize l + 1\<rparr>
      else if sortKey < fst (hd (elems l))
        then \<lparr>elems = (sortKey, item) # elems l, nsize = nsize l + 1\<rparr>
      else (case insert_loop sortKey item (elems l) of
              (es, counted) \<Rightarrow> \<lparr>elems = es, nsize = (if counted then nsize l + 1 else nsize l)\<rparr>))"

definition List_GetSize :: "'a nlist \<Rightarrow> int" where
  "List_GetSize l = nsize l"

section \<open>Items, keys and order\<close>

definition items :: "'a nlist \<Rightarrow> 'a list" where
  "items l = map snd (elems l)"

definition keys :: "'a nlist \<Rightarrow> int list" where
  "keys l = map fst (elems l)"

definition key_sorted :: "'a nlist \<Rightarrow> bool" where
  "key_sorted l \<longleftrightarrow> sorted (keys l)"

lemma items_new [simp]: "items List_new = []"
  and items_Append [simp]: "items (List_Append l x) = items l @ [x]"
  and items_Prepend [simp]: "items (List_Prepend l x) = x # items l"
  by (simp_all add: items_def List_new_def List_Append_def List_Prepend_def)

lemma IsEmpty_iff: "List_IsEmpty l \<longleftrightarrow> items l = []"
  by (simp add: List_IsEmpty_def items_def)

lemma Has_iff: "List_Has l x \<longleftrightarrow> x \<in> set (items l)"
  by (auto simp add: List_Has_def items_def)

lemma Pop_cases:
  "List_Pop l = (case items l of [] \<Rightarrow> (None, l) | x # xs \<Rightarrow> (Some x, snd (List_SortedPop l)))"
  by (auto simp add: List_Pop_def List_SortedPop_def items_def split: list.splits)

lemma items_Pop: "items (snd (List_Pop l)) = tl (items l)"
  by (auto simp add: List_Pop_def List_SortedPop_def items_def split: list.splits)

lemma Pop_result: "fst (List_Pop l) = (if items l = [] then None else Some (hd (items l)))"
  by (auto simp add: List_Pop_def List_SortedPop_def items_def split: list.splits)

lemma remove_first_items:
  "map_option (map snd) (remove_first x es) =
     (if x \<in> snd ` set es then Some (remove1 x (map snd es)) else None)"
  by (induction es) (auto simp add: option.map_comp comp_def split: if_splits option.splits)

lemma items_Remove: "items (List_Remove l x) = remove1 x (items l)"
proof (cases "remove_first x (elems l)")
  case None
  then have "x \<notin> set (items l)"
    using remove_first_items [of x "elems l"] by (auto simp add: items_def split: if_splits)
  with None show ?thesis by (simp add: List_Remove_def remove1_idem)
next
  case (Some es)
  then have "map snd es = remove1 x (map snd (elems l))"
    using remove_first_items [of x "elems l"] by (auto split: if_splits)
  with Some show ?thesis by (simp add: List_Remove_def items_def)
qed

lemma insert_loop_elems:
  "es \<noteq> [] \<Longrightarrow> fst (insert_loop k x es) =
     hd es # takeWhile (\<lambda>e. fst e \<le> k) (tl es) @ (k, x) # dropWhile (\<lambda>e. fst e \<le> k) (tl es)"
  by (induction k x es rule: insert_loop.induct) (auto split: prod.splits)

lemma insert_loop_counted:
  "snd (insert_loop k x es) \<longleftrightarrow> (\<forall>e\<in>set (tl es). fst e \<le> k)"
  by (induction k x es rule: insert_loop.induct) (auto simp add: case_prod_beta)

text \<open>Where the new element goes: after every element whose key is at most the new one.\<close>

lemma elems_SortedInsert:
  "elems (List_SortedInsert l x k) =
     takeWhile (\<lambda>e. fst e \<le> k) (elems l) @ (k, x) # dropWhile (\<lambda>e. fst e \<le> k) (elems l)"
proof (cases "elems l")
  case Nil
  then show ?thesis by (simp add: List_SortedInsert_def List_IsEmpty_def)
next
  case (Cons e es)
  then show ?thesis
    using insert_loop_elems [of "e # es" k x]
    by (auto simp add: List_SortedInsert_def List_IsEmpty_def split: prod.splits)
qed

lemma sorted_takeWhile_dropWhile_insert:
  "sorted (map fst es) \<Longrightarrow>
   sorted (map fst (takeWhile (\<lambda>e. fst e \<le> (k::int)) es @ (k, x) # dropWhile (\<lambda>e. fst e \<le> k) es))"
  by (induction es) (force dest: set_takeWhileD set_dropWhileD)+

lemma SortedInsert_sorted: "key_sorted l \<Longrightarrow> key_sorted (List_SortedInsert l x k)"
  unfolding key_sorted_def keys_def elems_SortedInsert
  by (rule sorted_takeWhile_dropWhile_insert)

lemma SortedPop_sorted: "key_sorted l \<Longrightarrow> key_sorted (snd (List_SortedPop l))"
  by (auto simp add: key_sorted_def keys_def List_SortedPop_def split: list.splits)

lemma set_elems_SortedInsert: "set (elems (List_SortedInsert l x k)) = insert (k, x) (set (elems l))"
proof -
  have "set (takeWhile (\<lambda>e. fst e \<le> k) (elems l)) \<union> set (dropWhile (\<lambda>e. fst e \<le> k) (elems l))
      = set (elems l)"
    by (metis set_append takeWhile_dropWhile_id)
  then show ?thesis by (auto simp add: elems_SortedInsert)
qed

lemma filter_SortedInsert:
  assumes "\<not> P (k, x)"
  shows "filter P (elems (List_SortedInsert l x k)) = filter P (elems l)"
proof -
  have "filter P (takeWhile (\<lambda>e. fst e \<le> k) (elems l)) @ filter P (dropWhile (\<lambda>e. fst e \<le> k) (elems l))
      = filter P (elems l)"
    by (simp flip: filter_append)
  with assms show ?thesis by (simp add: elems_SortedInsert)
qed

lemma length_elems_SortedInsert:
  "length (elems (List_SortedInsert l x k)) = Suc (length (elems l))"
proof -
  have "length (takeWhile (\<lambda>e. fst e \<le> k) (elems l)) + length (dropWhile (\<lambda>e. fst e \<le> k) (elems l))
      = length (elems l)"
    by (metis length_append takeWhile_dropWhile_id)
  then show ?thesis by (simp add: elems_SortedInsert)
qed

text \<open>The element \<open>SortedPop\<close> returns has the least key of a sorted list.\<close>

lemma SortedPop_least:
  assumes "key_sorted l" "List_SortedPop l = (Some (k, x), l')"
  shows "(k, x) \<in> set (elems l) \<and> (\<forall>e\<in>set (elems l). k \<le> fst e)
       \<and> elems l = (k, x) # elems l'"
  using assms by (auto simp add: key_sorted_def keys_def List_SortedPop_def split: list.splits)

section \<open>The size field\<close>

definition size_ok :: "'a nlist \<Rightarrow> bool" where
  "size_ok l \<longleftrightarrow> nsize l = int (length (elems l))"

lemma size_ok_new: "size_ok List_new"
  and size_ok_Append: "size_ok l \<Longrightarrow> size_ok (List_Append l x)"
  and size_ok_Prepend: "size_ok l \<Longrightarrow> size_ok (List_Prepend l x)"
  and size_ok_SortedPop: "size_ok l \<Longrightarrow> size_ok (snd (List_SortedPop l))"
  by (auto simp add: size_ok_def List_new_def List_Append_def List_Prepend_def List_SortedPop_def
      split: list.splits)

lemma remove_first_length: "remove_first x es = Some es' \<Longrightarrow> length es = Suc (length es')"
  by (induction es arbitrary: es') (auto split: if_splits)

lemma size_ok_Remove: "size_ok l \<Longrightarrow> size_ok (List_Remove l x)"
  by (auto simp add: size_ok_def List_Remove_def dest: remove_first_length split: option.splits)

text \<open>
  \<open>SortedInsert\<close> counts the new element unless it is linked strictly inside the list.
\<close>

lemma size_SortedInsert:
  "nsize (List_SortedInsert l x k) = nsize l +
     (if elems l = [] \<or> k < fst (hd (elems l)) \<or> (\<forall>e\<in>set (tl (elems l)). fst e \<le> k)
      then 1 else 0)"
proof (cases "elems l")
  case Nil
  then show ?thesis by (simp add: List_SortedInsert_def List_IsEmpty_def)
next
  case (Cons e es)
  then show ?thesis
    using insert_loop_counted [of k x "e # es"]
    by (auto simp add: List_SortedInsert_def List_IsEmpty_def split: prod.splits)
qed

end
