(* ===== verification/Lib_ListHeap.thy ===== *)
theory Lib_ListHeap
  imports Lib_List
begin

text \<open>
  The pointer code of \<open>lib/list.hh\<close>, on an explicit store of \<open>ListElement\<close> objects. Every
  \<open>->\<close> is a checked dereference, \<open>new\<close> takes a fresh address and \<open>delete\<close> removes the
  object from the store, so null and dangling dereferences are visible. The walks over the
  nodes carry fuel; the refinement lemmas show that the number of nodes is enough fuel and that
  each operation implements the one of \<open>Lib_List\<close>, leaving every other object alone.
\<close>

section \<open>Nodes and stores\<close>

type_synonym addr = nat

record 'a lnode =
  ln_next :: "addr option"
  ln_key :: int
  ln_item :: 'a

type_synonym 'a heap = "addr \<rightharpoonup> 'a lnode"

record hlist =
  h_first :: "addr option"
  h_last :: "addr option"
  h_size :: int

definition deref :: "'a heap \<Rightarrow> addr option \<Rightarrow> 'a lnode res" where
  "deref h p = (case p of None \<Rightarrow> Inl NullDeref
     | Some a \<Rightarrow> (case h a of None \<Rightarrow> Inl DanglingPtr | Some n \<Rightarrow> Inr n))"

definition set_next :: "'a heap \<Rightarrow> addr option \<Rightarrow> addr option \<Rightarrow> 'a heap res" where
  "set_next h p q = bindR (deref h p) (\<lambda>n. Inr (h(the p \<mapsto> n\<lparr>ln_next := q\<rparr>)))"

definition ListElement_new :: "'a \<Rightarrow> int \<Rightarrow> 'a lnode" where
  "ListElement_new anItem sortKey = \<lparr>ln_next = None, ln_key = sortKey, ln_item = anItem\<rparr>"

section \<open>The operations\<close>

definition ListH_IsEmpty :: "hlist \<Rightarrow> bool" where
  "ListH_IsEmpty l \<longleftrightarrow> h_first l = None"

definition ListH_Append :: "'a heap \<Rightarrow> hlist \<Rightarrow> addr \<Rightarrow> 'a \<Rightarrow> ('a heap \<times> hlist) res" where
  "ListH_Append h l element item =
     (let h1 = h(element \<mapsto> ListElement_new item 0) in
      if ListH_IsEmpty l
      then Inr (h1, \<lparr>h_first = Some element, h_last = Some element, h_size = h_size l + 1\<rparr>)
      else bindR (set_next h1 (h_last l) (Some element)) (\<lambda>h2.
           Inr (h2, \<lparr>h_first = h_first l, h_last = Some element, h_size = h_size l + 1\<rparr>)))"

definition ListH_Prepend :: "'a heap \<Rightarrow> hlist \<Rightarrow> addr \<Rightarrow> 'a \<Rightarrow> ('a heap \<times> hlist) res" where
  "ListH_Prepend h l element item =
     (let h1 = h(element \<mapsto> ListElement_new item 0) in
      if ListH_IsEmpty l
      then Inr (h1, \<lparr>h_first = Some element, h_last = Some element, h_size = h_size l + 1\<rparr>)
      else bindR (set_next h1 (Some element) (h_first l)) (\<lambda>h2.
           Inr (h2, \<lparr>h_first = Some element, h_last = h_last l, h_size = h_size l + 1\<rparr>)))"

definition ListH_SortedPop ::
    "'a heap \<Rightarrow> hlist \<Rightarrow> ((int \<times> 'a) option \<times> 'a heap \<times> hlist) res" where
  "ListH_SortedPop h l =
     (case h_first l of
        None \<Rightarrow> Inr (None, h, l)
      | Some element \<Rightarrow>
          bindR (deref h (Some element)) (\<lambda>n.
          Inr (Some (ln_key n, ln_item n), h(element := None),
               (if h_first l = h_last l
                then \<lparr>h_first = None, h_last = None, h_size = h_size l - 1\<rparr>
                else \<lparr>h_first = ln_next n, h_last = h_last l, h_size = h_size l - 1\<rparr>))))"

fun ListH_Remove_loop ::
    "nat \<Rightarrow> 'a heap \<Rightarrow> hlist \<Rightarrow> 'a \<Rightarrow> addr option \<Rightarrow> addr option \<Rightarrow> ('a heap \<times> hlist) res" where
  "ListH_Remove_loop fuel h l item None prev = Inr (h, l)"
| "ListH_Remove_loop 0 h l item (Some a) prev = Inl OutOfFuel"
| "ListH_Remove_loop (Suc fuel) h l item (Some a) prev =
     bindR (deref h (Some a)) (\<lambda>n.
       if item = ln_item n
       then bindR (case prev of None \<Rightarrow> Inr h | Some _ \<Rightarrow> set_next h prev (ln_next n)) (\<lambda>h1.
            Inr (h1(a := None),
                 \<lparr>h_first = (if h_first l = Some a then ln_next n else h_first l),
                  h_last = (if h_last l = Some a then prev else h_last l),
                  h_size = h_size l - 1\<rparr>))
       else ListH_Remove_loop fuel h l item (ln_next n) (Some a))"

definition ListH_Remove :: "nat \<Rightarrow> 'a heap \<Rightarrow> hlist \<Rightarrow> 'a \<Rightarrow> ('a heap \<times> hlist) res" where
  "ListH_Remove fuel h l item = ListH_Remove_loop fuel h l item (h_first l) None"

fun ListH_Has_loop :: "nat \<Rightarrow> 'a heap \<Rightarrow> 'a \<Rightarrow> addr option \<Rightarrow> bool res" where
  "ListH_Has_loop fuel h item None = Inr False"
| "ListH_Has_loop 0 h item (Some a) = Inl OutOfFuel"
| "ListH_Has_loop (Suc fuel) h item (Some a) =
     bindR (deref h (Some a)) (\<lambda>n.
       if item = ln_item n then Inr True else ListH_Has_loop fuel h item (ln_next n))"

definition ListH_Has :: "nat \<Rightarrow> 'a heap \<Rightarrow> hlist \<Rightarrow> 'a \<Rightarrow> bool res" where
  "ListH_Has fuel h l item = ListH_Has_loop fuel h item (h_first l)"

text \<open>
  The loop of \<open>SortedInsert\<close>: \<open>Inr (Some h')\<close> when it links the element and returns from the
  function, \<open>Inr None\<close> when it reaches the last node.
\<close>

fun ListH_insert_loop ::
    "nat \<Rightarrow> 'a heap \<Rightarrow> addr option \<Rightarrow> int \<Rightarrow> addr \<Rightarrow> ('a heap option) res" where
  "ListH_insert_loop 0 h ptr sortKey element = Inl OutOfFuel"
| "ListH_insert_loop (Suc fuel) h ptr sortKey element =
     bindR (deref h ptr) (\<lambda>n.
       if ln_next n = None then Inr None
       else bindR (deref h (ln_next n)) (\<lambda>m.
         if sortKey < ln_key m
         then bindR (set_next h (Some element) (ln_next n)) (\<lambda>h1.
              bindR (set_next h1 ptr (Some element)) (\<lambda>h2. Inr (Some h2)))
         else ListH_insert_loop fuel h (ln_next n) sortKey element))"

definition ListH_SortedInsert ::
    "nat \<Rightarrow> 'a heap \<Rightarrow> hlist \<Rightarrow> addr \<Rightarrow> 'a \<Rightarrow> int \<Rightarrow> ('a heap \<times> hlist) res" where
  "ListH_SortedInsert fuel h l element item sortKey =
     (let h1 = h(element \<mapsto> ListElement_new item sortKey) in
      if ListH_IsEmpty l
      then Inr (h1, \<lparr>h_first = Some element, h_last = Some element, h_size = h_size l + 1\<rparr>)
      else bindR (deref h1 (h_first l)) (\<lambda>f.
        if sortKey < ln_key f
        then bindR (set_next h1 (Some element) (h_first l)) (\<lambda>h2.
             Inr (h2, \<lparr>h_first = Some element, h_last = h_last l, h_size = h_size l + 1\<rparr>))
        else bindR (ListH_insert_loop fuel h1 (h_first l) sortKey element) (\<lambda>r.
          case r of
            Some h2 \<Rightarrow> Inr (h2, l)
          | None \<Rightarrow> bindR (set_next h1 (h_last l) (Some element)) (\<lambda>h2.
              Inr (h2, \<lparr>h_first = h_first l, h_last = Some element, h_size = h_size l + 1\<rparr>)))))"

section \<open>Representation\<close>

fun lpath :: "'a heap \<Rightarrow> addr option \<Rightarrow> addr list \<Rightarrow> (int \<times> 'a) list \<Rightarrow> addr option \<Rightarrow> bool" where
  "lpath h p [] [] q \<longleftrightarrow> p = q"
| "lpath h p (a # as) (e # es) q \<longleftrightarrow>
     p = Some a \<and> (\<exists>n. h a = Some n \<and> ln_key n = fst e \<and> ln_item n = snd e
       \<and> lpath h (ln_next n) as es q)"
| "lpath h p _ _ q \<longleftrightarrow> False"

definition list_rep :: "'a heap \<Rightarrow> hlist \<Rightarrow> addr list \<Rightarrow> 'a nlist \<Rightarrow> bool" where
  "list_rep h hl as l \<longleftrightarrow> lpath h (h_first hl) as (elems l) None \<and> distinct as
     \<and> h_last hl = (if as = [] then None else Some (last as)) \<and> h_size hl = nsize l"

definition only_changes :: "'a heap \<Rightarrow> 'a heap \<Rightarrow> addr set \<Rightarrow> bool" where
  "only_changes h h' A \<longleftrightarrow> (\<forall>b. b \<notin> A \<longrightarrow> h' b = h b)"

lemma lpath_length: "lpath h p as es q \<Longrightarrow> length as = length es"
  by (induction h p as es q rule: lpath.induct) auto

lemma lpath_dom: "lpath h p as es q \<Longrightarrow> a \<in> set as \<Longrightarrow> h a \<noteq> None"
  by (induction h p as es q rule: lpath.induct) auto

lemma lpath_upd [simp]: "a \<notin> set as \<Longrightarrow> lpath (h(a := v)) p as es q = lpath h p as es q"
  by (induction h p as es q rule: lpath.induct) auto

lemma lpath_append:
  "length as = length es \<Longrightarrow>
   lpath h p (as @ bs) (es @ fs) q \<longleftrightarrow> (\<exists>r. lpath h p as es r \<and> lpath h r bs fs q)"
  by (induction as es arbitrary: p rule: list_induct2) auto

lemma lpath_Nil1 [simp]: "lpath h p [] es q \<longleftrightarrow> es = [] \<and> p = q"
  by (cases es) auto

lemma lpath_None [simp]: "lpath h None as es None \<longleftrightarrow> as = [] \<and> es = []"
  by (cases as; cases es) auto

lemma lpath_Some_None: "lpath h (Some a) as es None \<Longrightarrow> \<exists>as' e es'. as = a # as' \<and> es = e # es'"
  by (cases as; cases es) auto

text \<open>Redirecting the last node's link moves the end of a path.\<close>

lemma lpath_snoc_upd:
  assumes "lpath h p (as @ [b]) (es @ [e]) q" "distinct (as @ [b])" "h b = Some n"
    "length as = length es"
  shows "lpath (h(b \<mapsto> n\<lparr>ln_next := r\<rparr>)) p (as @ [b]) (es @ [e]) r"
  using assms by (auto simp add: lpath_append)

section \<open>Refinement\<close>

lemma deref_Some [simp]: "h a = Some n \<Longrightarrow> deref h (Some a) = Inr n"
  by (simp add: deref_def)

lemma set_next_Some [simp]:
  "h a = Some n \<Longrightarrow> set_next h (Some a) q = Inr (h(a \<mapsto> n\<lparr>ln_next := q\<rparr>))"
  by (simp add: set_next_def)

lemma ListElement_new_sel [simp]:
  "ln_next (ListElement_new x k) = None" "ln_key (ListElement_new x k) = k"
  "ln_item (ListElement_new x k) = x"
  by (simp_all add: ListElement_new_def)

lemma list_rep_fresh: "list_rep h hl as l \<Longrightarrow> h a = None \<Longrightarrow> a \<notin> set as"
  unfolding list_rep_def using lpath_dom by fastforce

lemma list_rep_IsEmpty: "list_rep h hl as l \<Longrightarrow> ListH_IsEmpty hl \<longleftrightarrow> List_IsEmpty l"
  by (cases as; cases "elems l") (auto simp add: list_rep_def ListH_IsEmpty_def List_IsEmpty_def)

lemma list_rep_Nil_iff: "list_rep h hl as l \<Longrightarrow> as = [] \<longleftrightarrow> elems l = []"
  unfolding list_rep_def by (metis length_0_conv lpath_length)

lemma list_rep_first: "list_rep h hl as l \<Longrightarrow> h_first hl = None \<longleftrightarrow> as = []"
  by (cases as; cases "elems l") (auto simp add: list_rep_def)

text \<open>Linking a fresh node after \<open>last\<close>, as \<open>Append\<close> and the end of \<open>SortedInsert\<close> do.\<close>

lemma link_last:
  assumes rep: "list_rep h hl as l" and a: "h a = None" and ne: "as \<noteq> []"
    and nd: "ln_next nd = None"
  shows "\<exists>n. (h(a \<mapsto> nd)) (last as) = Some n \<and>
    lpath (h(a \<mapsto> nd, last as \<mapsto> n\<lparr>ln_next := Some a\<rparr>)) (h_first hl) (as @ [a])
      (elems l @ [(ln_key nd, ln_item nd)]) None"
proof -
  obtain bs b where as: "as = bs @ [b]" using ne by (cases as rule: rev_cases) auto
  have path: "lpath h (h_first hl) (bs @ [b]) (elems l) None" and d: "distinct (bs @ [b])"
    using rep by (simp_all add: list_rep_def as)
  have a': "a \<notin> set (bs @ [b])" using list_rep_fresh [OF rep a] by (simp add: as)
  obtain es e where es: "elems l = es @ [e]" "length bs = length es"
    using lpath_length [OF path] by (cases "elems l" rule: rev_cases) auto
  let ?h1 = "h(a \<mapsto> nd)"
  have path1: "lpath ?h1 (h_first hl) (bs @ [b]) (es @ [e]) None"
    using path a' es(1) by (metis lpath_upd)
  obtain n where n: "?h1 b = Some n" using lpath_dom [OF path1, of b] by auto
  let ?h2 = "?h1(b \<mapsto> n\<lparr>ln_next := Some a\<rparr>)"
  have "lpath ?h2 (h_first hl) (bs @ [b]) (es @ [e]) (Some a)"
    by (rule lpath_snoc_upd [OF path1 d n es(2)])
  moreover have "lpath ?h2 (Some a) [a] [(ln_key nd, ln_item nd)] None"
    using a' nd by auto
  ultimately have "lpath ?h2 (h_first hl) ((bs @ [b]) @ [a])
      ((es @ [e]) @ [(ln_key nd, ln_item nd)]) None"
    by (subst lpath_append) (auto simp add: es(2))
  then show ?thesis using n by (auto simp add: as es(1))
qed

lemma ListH_Append_refines:
  assumes rep: "list_rep h hl as l" and a: "h a = None"
  shows "\<exists>h' hl'. ListH_Append h hl a x = Inr (h', hl')
    \<and> list_rep h' hl' (as @ [a]) (List_Append l x) \<and> only_changes h h' (insert a (set as))"
proof (cases "as = []")
  case True
  then have "h_first hl = None" "elems l = []" using rep by (auto simp add: list_rep_def)
  then show ?thesis using rep True
    by (auto simp add: ListH_Append_def ListH_IsEmpty_def list_rep_def List_Append_def
        only_changes_def Let_def)
next
  case False
  have ne: "h_first hl \<noteq> None" using list_rep_first [OF rep] False by simp
  obtain n where n: "(h(a \<mapsto> ListElement_new x 0)) (last as) = Some n"
    "lpath (h(a \<mapsto> ListElement_new x 0, last as \<mapsto> n\<lparr>ln_next := Some a\<rparr>)) (h_first hl) (as @ [a])
      (elems l @ [(0, x)]) None"
    using link_last [OF rep a False, of "ListElement_new x 0"] by auto
  have "h_last hl = Some (last as)" using rep False by (simp add: list_rep_def)
  moreover have "a \<notin> set as" using list_rep_fresh [OF rep a] .
  ultimately show ?thesis using n rep False ne
    by (auto simp add: ListH_Append_def ListH_IsEmpty_def list_rep_def List_Append_def
        only_changes_def Let_def simp del: fun_upd_apply)
       (auto simp add: fun_upd_def)
qed

lemma ListH_Prepend_refines:
  assumes rep: "list_rep h hl as l" and a: "h a = None"
  shows "\<exists>h' hl'. ListH_Prepend h hl a x = Inr (h', hl')
    \<and> list_rep h' hl' (a # as) (List_Prepend l x) \<and> only_changes h h' (insert a (set as))"
proof -
  have "a \<notin> set as" using list_rep_fresh [OF rep a] .
  then show ?thesis using rep list_rep_first [OF rep]
    by (auto simp add: ListH_Prepend_def ListH_IsEmpty_def list_rep_def List_Prepend_def
        only_changes_def Let_def)
qed

lemma ListH_SortedPop_refines:
  assumes rep: "list_rep h hl as l"
  shows "\<exists>h' hl'. ListH_SortedPop h hl = Inr (fst (List_SortedPop l), h', hl')
    \<and> list_rep h' hl' (tl as) (snd (List_SortedPop l)) \<and> only_changes h h' (set as)"
proof (cases as)
  case Nil
  then have "elems l = []" "h_first hl = None" using rep by (auto simp add: list_rep_def)
  with rep Nil show ?thesis
    by (auto simp add: ListH_SortedPop_def List_SortedPop_def only_changes_def)
next
  case (Cons a bs)
  then obtain e es where es: "elems l = e # es" using rep
    by (cases "elems l") (auto simp add: list_rep_def)
  obtain n where n: "h a = Some n" "ln_key n = fst e" "ln_item n = snd e"
    "lpath h (ln_next n) bs es None" "h_first hl = Some a"
    using rep by (auto simp add: list_rep_def Cons es)
  have a: "a \<notin> set bs" "distinct bs" using rep by (auto simp add: list_rep_def Cons)
  have last: "h_first hl = h_last hl \<longleftrightarrow> bs = []"
    using rep a n(5) by (auto simp add: list_rep_def Cons)
  show ?thesis
    using n a rep last
    by (auto simp add: ListH_SortedPop_def List_SortedPop_def Cons es list_rep_def only_changes_def)
qed

lemma ListH_Has_loop_ok:
  "lpath h p as es None \<Longrightarrow> length as \<le> fuel \<Longrightarrow>
   ListH_Has_loop fuel h x p = Inr (\<exists>e\<in>set es. x = snd e)"
proof (induction fuel h x p arbitrary: as es rule: ListH_Has_loop.induct)
  case (3 fuel h x a)
  then obtain bs e es' where "as = a # bs" "es = e # es'" using lpath_Some_None by blast
  with 3 show ?case by auto
qed (auto dest: lpath_Some_None)

lemma ListH_Has_refines:
  "list_rep h hl as l \<Longrightarrow> length as \<le> fuel \<Longrightarrow> ListH_Has fuel h hl x = Inr (List_Has l x)"
  by (auto simp add: ListH_Has_def list_rep_def List_Has_def ListH_Has_loop_ok)

lemma ListH_Remove_loop_ok:
  assumes path: "lpath h p bs es None" and fuel: "length bs \<le> fuel"
    and d: "distinct (as @ bs)"
    and pre: "lpath h (h_first hl) as fs p" and prev: "prev = (if as = [] then None else Some (last as))"
    and lst: "h_last hl = (if as @ bs = [] then None else Some (last (as @ bs)))"
  shows "case remove_first x es of
      None \<Rightarrow> ListH_Remove_loop fuel h hl x p prev = Inr (h, hl)
    | Some es' \<Rightarrow> \<exists>h' hl' cs. ListH_Remove_loop fuel h hl x p prev = Inr (h', hl')
        \<and> lpath h' (h_first hl') cs (fs @ es') None \<and> distinct cs \<and> set cs \<subseteq> set (as @ bs)
        \<and> h_last hl' = (if cs = [] then None else Some (last cs))
        \<and> h_size hl' = h_size hl - 1 \<and> only_changes h h' (set (as @ bs))"
  using assms
proof (induction fuel h hl x p prev arbitrary: as bs es fs rule: ListH_Remove_loop.induct)
  case (1 fuel h l item prev)
  then show ?case by simp
next
  case (2 h l item a prev)
  then show ?case by (auto dest: lpath_Some_None)
next
  case (3 fuel h hl x a prev)
  from 3(2) obtain cs e es1 where bs: "bs = a # cs" and es: "es = e # es1"
    using lpath_Some_None by blast
  from 3(2) obtain n where n: "h a = Some n" "ln_key n = fst e" "ln_item n = snd e"
    "lpath h (ln_next n) cs es1 None" by (auto simp add: bs es)
  have len: "length as = length fs" using lpath_length [OF 3(5)] .
  show ?case
  proof (cases "x = snd e")
    case False
    have pre': "lpath h (h_first hl) (as @ [a]) (fs @ [e]) (ln_next n)"
      using 3(5) n by (auto simp add: lpath_append len)
    have "case remove_first x es1 of
        None \<Rightarrow> ListH_Remove_loop fuel h hl x (ln_next n) (Some a) = Inr (h, hl)
      | Some es' \<Rightarrow> \<exists>h' hl' ds. ListH_Remove_loop fuel h hl x (ln_next n) (Some a) = Inr (h', hl')
          \<and> lpath h' (h_first hl') ds ((fs @ [e]) @ es') None \<and> distinct ds
          \<and> set ds \<subseteq> set ((as @ [a]) @ cs)
          \<and> h_last hl' = (if ds = [] then None else Some (last ds))
          \<and> h_size hl' = h_size hl - 1 \<and> only_changes h h' (set ((as @ [a]) @ cs))"
      using 3(3,4,7) n False
      by (intro 3(1) [of n cs es1 "as @ [a]" "fs @ [e]"]) (auto simp add: bs pre' simp del: append_assoc)
    with False n show ?thesis
      by (auto simp add: es bs split: option.splits split del: if_split)
  next
    case True
    then have rem: "remove_first x es = Some es1" by (simp add: es)
    show ?thesis
    proof (cases as rule: rev_cases)
      case Nil
      have "lpath (h(a := None)) (ln_next n) cs es1 None" using n(4) 3(4) by (simp add: bs)
      moreover have "h_first hl = Some a" "fs = []" using 3(5) Nil by auto
      moreover have "h_last hl = Some a \<longleftrightarrow> cs = []" using 3(7) 3(4) by (auto simp add: bs Nil)
      ultimately show ?thesis using True n 3(4,6,7) rem
        by (auto simp add: Nil bs only_changes_def intro!: exI [of _ cs])
    next
      case (snoc as1 b)
      obtain fs1 f where fs: "fs = fs1 @ [f]" "length as1 = length fs1"
        using len snoc by (cases fs rule: rev_cases) auto
      have prev: "prev = Some b" using 3(6) snoc by simp
      obtain m where m: "h b = Some m" using lpath_dom [OF 3(5), of b] snoc by auto
      let ?h1 = "h(b \<mapsto> m\<lparr>ln_next := ln_next n\<rparr>)"
      have ab: "a \<noteq> b" "a \<notin> set as" "b \<notin> set cs" "a \<notin> set cs" using 3(4) by (auto simp add: snoc bs)
      have "lpath ?h1 (h_first hl) as fs (ln_next n)"
        using lpath_snoc_upd [of h "h_first hl" as1 b fs1 f "Some a" m] 3(4,5) m snoc fs by simp
      then have "lpath ?h1 (h_first hl) (as @ cs) (fs @ es1) None"
        using n(4) ab len by (auto simp add: lpath_append)
      then have path': "lpath (?h1(a := None)) (h_first hl) (as @ cs) (fs @ es1) None"
        using ab by simp
      have first: "h_first hl \<noteq> Some a"
        using 3(5) ab by (cases as; cases fs) (auto simp add: snoc)
      have last': "h_last hl = Some a \<longleftrightarrow> cs = []" using 3(7) 3(4) by (auto simp add: bs)
      show ?thesis using True n m prev rem path' first last' 3(4,7) ab
        by (auto simp add: bs only_changes_def snoc intro!: exI [of _ "as @ cs"] split: if_splits)
    qed
  qed
qed

lemma ListH_Remove_refines:
  assumes rep: "list_rep h hl as l" and fuel: "length as \<le> fuel"
  shows "\<exists>h' hl' cs. ListH_Remove fuel h hl x = Inr (h', hl')
    \<and> list_rep h' hl' cs (List_Remove l x) \<and> set cs \<subseteq> set as \<and> only_changes h h' (set as)"
proof -
  have "case remove_first x (elems l) of
      None \<Rightarrow> ListH_Remove_loop fuel h hl x (h_first hl) None = Inr (h, hl)
    | Some es' \<Rightarrow> \<exists>h' hl' cs. ListH_Remove_loop fuel h hl x (h_first hl) None = Inr (h', hl')
        \<and> lpath h' (h_first hl') cs ([] @ es') None \<and> distinct cs \<and> set cs \<subseteq> set ([] @ as)
        \<and> h_last hl' = (if cs = [] then None else Some (last cs))
        \<and> h_size hl' = h_size hl - 1 \<and> only_changes h h' (set ([] @ as))"
    using rep fuel by (intro ListH_Remove_loop_ok) (auto simp add: list_rep_def)
  then show ?thesis using rep
    by (auto simp add: ListH_Remove_def List_Remove_def list_rep_def only_changes_def
        split: option.splits split del: if_split)
qed

text \<open>The search loop of \<open>SortedInsert\<close>, from the node \<open>a\<close> on: when no key after the head is
  greater it finds no place, otherwise it links the new node before the first greater key.\<close>

lemma ListH_insert_loop_end:
  assumes "lpath h (Some a) (a # as) (e # es) None" "length as < fuel"
    and "insert_loop k x (e # es) = (es', True)"
  shows "ListH_insert_loop fuel h (Some a) k c = Inr None"
  using assms
proof (induction fuel arbitrary: a as e es es')
  case (Suc fuel)
  from Suc.prems(1) obtain n where n: "h a = Some n" "lpath h (ln_next n) as es None" by auto
  show ?case
  proof (cases as)
    case Nil
    then show ?thesis using n by simp
  next
    case (Cons b bs)
    then obtain q rest where es: "es = q # rest" using n(2) by (cases es) auto
    from n(2) obtain m where m: "h b = Some m" "ln_key m = fst q" "ln_next n = Some b"
      by (auto simp add: Cons es)
    have "\<not> k < fst q" using Suc.prems(3) by (auto simp add: es)
    moreover from this obtain rs where "insert_loop k x (q # rest) = (rs, True)"
      using Suc.prems(3) by (auto simp add: es split: prod.splits)
    moreover have "lpath h (Some b) (b # bs) (q # rest) None" using n(2) by (simp add: Cons es m(3))
    ultimately show ?thesis using n m Suc.prems(2) Suc.IH [of b bs q rest rs] by (simp add: Cons)
  qed
qed simp

lemma ListH_insert_loop_link:
  assumes "lpath h (Some a) (a # as) (e # es) None" "length as < fuel" "distinct (a # as)"
    and "c \<notin> set (a # as)" "h c = Some (ListElement_new x k)"
    and "insert_loop k x (e # es) = (es', False)"
  shows "\<exists>h' cs. ListH_insert_loop fuel h (Some a) k c = Inr (Some h')
        \<and> lpath h' (Some a) (a # cs) es' None \<and> distinct (a # cs) \<and> cs \<noteq> []
        \<and> set (a # cs) = insert c (set (a # as)) \<and> last cs = last as
        \<and> only_changes h h' (insert c (set (a # as)))"
  using assms
proof (induction fuel arbitrary: a as e es es')
  case (Suc fuel)
  from Suc.prems(1) obtain n where n: "h a = Some n" "ln_key n = fst e" "ln_item n = snd e"
    "lpath h (ln_next n) as es None" by auto
  obtain q rest where es: "es = q # rest" using Suc.prems(6) by (cases es) auto
  with n(4) obtain b bs m where as: "as = b # bs" and m: "h b = Some m" "ln_key m = fst q"
    "ln_item m = snd q" "lpath h (ln_next m) bs rest None" "ln_next n = Some b"
    by (cases as) auto
  show ?case
  proof (cases "k < fst q")
    case True
    let ?h2 = "h(c \<mapsto> (ListElement_new x k)\<lparr>ln_next := Some b\<rparr>, a \<mapsto> n\<lparr>ln_next := Some c\<rparr>)"
    have "ListH_insert_loop (Suc fuel) h (Some a) k c = Inr (Some ?h2)"
      using n m True Suc.prems by simp
    moreover have "lpath ?h2 (Some a) (a # c # as) (e # (k, x) # es) None"
      using n m Suc.prems by (auto simp add: as es)
    ultimately show ?thesis using True Suc.prems
      by (auto simp add: es as only_changes_def intro!: exI [of _ "c # as"])
  next
    case False
    then obtain rs where rs: "insert_loop k x (q # rest) = (rs, False)" "es' = e # rs"
      using Suc.prems(6) by (auto simp add: es split: prod.splits)
    have "lpath h (Some b) (b # bs) (q # rest) None" using n(4) by (simp add: as es m(5))
    with Suc.IH [OF this _ _ _ Suc.prems(5) rs(1)] Suc.prems(2,3,4) obtain h' cs where h':
      "ListH_insert_loop fuel h (Some b) k c = Inr (Some h')" "lpath h' (Some b) (b # cs) rs None"
      "distinct (b # cs)" "cs \<noteq> []" "set (b # cs) = insert c (set (b # bs))" "last cs = last bs"
      "only_changes h h' (insert c (set (b # bs)))" by (auto simp add: as)
    have ne: "bs \<noteq> []" using rs(1) m(4) by (cases rest) auto
    have a: "a \<notin> insert c (set (b # bs))" using Suc.prems by (auto simp add: as)
    then have "h' a = Some n" using h'(7) n(1) by (simp add: only_changes_def)
    then have "lpath h' (Some a) (a # b # cs) es' None" using n m h'(2) by (auto simp add: rs(2))
    moreover have "only_changes h h' (insert c (set (a # as)))"
      using h'(7) by (auto simp add: only_changes_def as)
    moreover have "distinct (a # b # cs)" using h'(3) a unfolding h'(5) [symmetric] by simp
    moreover have "set (a # b # cs) = insert c (set (a # as))"
      unfolding as list.set(2) [of a] h'(5) by (simp add: insert_commute)
    moreover have "last (b # cs) = last as" using h'(4,6) ne by (simp add: as)
    moreover have "ListH_insert_loop (Suc fuel) h (Some a) k c = Inr (Some h')"
      using n m False h'(1) by simp
    ultimately show ?thesis by blast
  qed
qed simp

text \<open>The two ways \<open>SortedInsert\<close> leaves its loop on a list whose first key is not greater: the new
  node becomes the last one and is counted, or it is linked inside and the size stays.\<close>

lemma ListH_SortedInsert_end:
  assumes rep: "list_rep h hl (a # bs) l" and c: "h c = None" and fuel: "length bs < fuel"
    and es: "elems l = e # es" "\<not> k < fst e" "insert_loop k x (e # es) = (es', True)"
  shows "\<exists>h' hl'. ListH_SortedInsert fuel h hl c x k = Inr (h', hl')
    \<and> list_rep h' hl' (a # bs @ [c]) (List_SortedInsert l x k)
    \<and> only_changes h h' (insert c (set (a # bs)))"
proof -
  let ?h1 = "h(c \<mapsto> ListElement_new x k)" and ?z = "last (a # bs)"
  have c': "c \<notin> set (a # bs)" using list_rep_fresh [OF rep c] .
  have path: "lpath ?h1 (Some a) (a # bs) (e # es) None" and first: "h_first hl = Some a"
    using rep c' unfolding list_rep_def es(1) by (simp_all add: lpath_upd)
  have last: "h_last hl = Some ?z" "distinct (a # bs)" using rep by (simp_all add: list_rep_def)
  obtain n where n: "?h1 a = Some n" "ln_key n = fst e" using path by auto
  have "\<forall>e\<in>set es. fst e \<le> k" using insert_loop_counted [of k x "e # es"] es(3) by simp
  then have "es' = elems l @ [(k, x)]" using insert_loop_elems [of "e # es" k x] es by simp
  then have abs: "List_SortedInsert l x k = \<lparr>elems = elems l @ [(k, x)], nsize = nsize l + 1\<rparr>"
    using es by (auto simp add: List_SortedInsert_def List_IsEmpty_def)
  obtain m where m: "?h1 ?z = Some m" "lpath (?h1(?z \<mapsto> m\<lparr>ln_next := Some c\<rparr>)) (h_first hl)
      ((a # bs) @ [c]) (elems l @ [(k, x)]) None"
    using link_last [OF rep c, of "ListElement_new x k"] by auto
  let ?h2 = "?h1(?z \<mapsto> m\<lparr>ln_next := Some c\<rparr>)"
  let ?hl2 = "\<lparr>h_first = h_first hl, h_last = Some c, h_size = h_size hl + 1\<rparr>"
  have "ListH_SortedInsert fuel h hl c x k = Inr (?h2, ?hl2)"
    using ListH_insert_loop_end [OF path fuel es(3), of c] es(2) n m(1) first last
    by (auto simp add: ListH_SortedInsert_def ListH_IsEmpty_def Let_def simp del: fun_upd_apply)
  moreover have "list_rep ?h2 ?hl2 (a # bs @ [c]) (List_SortedInsert l x k)"
    using m(2) last c' rep by (simp add: list_rep_def abs)
  moreover have "only_changes h ?h2 (insert c (set (a # bs)))"
    by (auto simp add: only_changes_def)
  ultimately show ?thesis by blast
qed

lemma ListH_SortedInsert_link:
  assumes rep: "list_rep h hl (a # bs) l" and c: "h c = None" and fuel: "length bs < fuel"
    and es: "elems l = e # es" "\<not> k < fst e" "insert_loop k x (e # es) = (es', False)"
  shows "\<exists>h' cs. ListH_SortedInsert fuel h hl c x k = Inr (h', hl)
    \<and> list_rep h' hl cs (List_SortedInsert l x k) \<and> set cs = insert c (set (a # bs))
    \<and> only_changes h h' (insert c (set (a # bs)))"
proof -
  let ?h1 = "h(c \<mapsto> ListElement_new x k)"
  have c': "c \<notin> set (a # bs)" using list_rep_fresh [OF rep c] .
  have path: "lpath ?h1 (Some a) (a # bs) (e # es) None" and first: "h_first hl = Some a"
    using rep c' unfolding list_rep_def es(1) by (simp_all add: lpath_upd)
  have last: "h_last hl = Some (last (a # bs))" "distinct (a # bs)"
    using rep by (simp_all add: list_rep_def)
  obtain n where n: "?h1 a = Some n" "ln_key n = fst e" using path by auto
  from ListH_insert_loop_link [OF path fuel last(2) c' _ es(3)] obtain h' cs where
    h': "ListH_insert_loop fuel ?h1 (Some a) k c = Inr (Some h')" "lpath h' (Some a) (a # cs) es' None"
      "distinct (a # cs)" "cs \<noteq> []" "set (a # cs) = insert c (set (a # bs))" "last cs = last bs"
      "only_changes ?h1 h' (insert c (set (a # bs)))" by auto
  have ne: "bs \<noteq> []" using es(3) path by (cases es) auto
  have "List_SortedInsert l x k = \<lparr>elems = es', nsize = nsize l\<rparr>"
    using es by (simp add: List_SortedInsert_def List_IsEmpty_def)
  then have "list_rep h' hl (a # cs) (List_SortedInsert l x k)"
    using h' first last ne rep by (simp add: list_rep_def)
  moreover have "ListH_SortedInsert fuel h hl c x k = Inr (h', hl)"
    using h'(1) es(2) n first
    by (simp add: ListH_SortedInsert_def ListH_IsEmpty_def Let_def del: fun_upd_apply)
  moreover have "only_changes h h' (insert c (set (a # bs)))"
    using h'(7) by (auto simp add: only_changes_def)
  ultimately show ?thesis using h'(5) by blast
qed

text \<open>C38: The pointer code of \<open>SortedInsert\<close> implements sorted insertion into the sequence of
  elements: on a well-linked list it ends within as many steps as there are nodes, links the new
  node at its place by key (after its equals), keeps first, last and the links consistent, and
  touches no node outside the list.\<close>

theorem ListH_SortedInsert_refines:
  assumes rep: "list_rep h hl as l" and c: "h c = None" and fuel: "length as \<le> fuel"
  shows "\<exists>h' hl' cs. ListH_SortedInsert fuel h hl c x k = Inr (h', hl')
    \<and> list_rep h' hl' cs (List_SortedInsert l x k) \<and> set cs = insert c (set as)
    \<and> only_changes h h' (insert c (set as))"
proof (cases as)
  case Nil
  then have "h_first hl = None" "elems l = []" using rep by (auto simp add: list_rep_def)
  then show ?thesis using rep Nil
    by (auto simp add: ListH_SortedInsert_def ListH_IsEmpty_def list_rep_def List_SortedInsert_def
        List_IsEmpty_def only_changes_def Let_def intro!: exI [of _ "[c]"])
next
  case (Cons a bs)
  have c': "c \<notin> set as" using list_rep_fresh [OF rep c] .
  obtain e es where es: "elems l = e # es" using rep Cons
    by (cases "elems l") (auto simp add: list_rep_def)
  obtain es' counted where loop: "insert_loop k x (e # es) = (es', counted)" by fastforce
  note at = rep [unfolded Cons] c _ es
  show ?thesis
  proof (cases "k < fst e")
    case True
    moreover have "lpath (h(c \<mapsto> ListElement_new x k)) (Some a) (a # bs) (e # es) None"
      "h_first hl = Some a"
      using rep c' unfolding list_rep_def Cons es by (simp_all add: lpath_upd)
    ultimately show ?thesis using rep c'
      by (auto simp add: ListH_SortedInsert_def ListH_IsEmpty_def list_rep_def es Cons
          List_SortedInsert_def List_IsEmpty_def only_changes_def Let_def intro!: exI [of _ "c # as"])
  next
    case False
    show ?thesis
    proof (cases counted)
      case True
      then have "insert_loop k x (e # es) = (es', True)" using loop by simp
      from ListH_SortedInsert_end [OF at False this, of fuel] fuel Cons show ?thesis by fastforce
    next
      case uncounted: False
      then have "insert_loop k x (e # es) = (es', False)" using loop by simp
      from ListH_SortedInsert_link [OF at False this, of fuel] fuel Cons show ?thesis by fastforce
    qed
  qed
qed

text \<open>A list that is only filled by \<open>SortedInsert\<close> is a priority queue: \<open>SortedPop\<close> on the
  linked nodes returns an element of least key and leaves a well-linked sorted list with exactly
  the other elements.\<close>

theorem ListH_SortedPop_least:
  assumes "list_rep h hl as l" and "key_sorted l" and "elems l \<noteq> []"
  shows "\<exists>k x h' hl' l'. ListH_SortedPop h hl = Inr (Some (k, x), h', hl') \<and>
     list_rep h' hl' (tl as) l' \<and> key_sorted l' \<and> elems l = (k, x) # elems l' \<and>
     (\<forall>e\<in>set (elems l). k \<le> fst e)"
proof -
  obtain k x l' where p: "List_SortedPop l = (Some (k, x), l')"
    using assms(3) by (cases "elems l") (auto simp add: List_SortedPop_def)
  from ListH_SortedPop_refines [OF assms(1)] p obtain h' hl' where
    "ListH_SortedPop h hl = Inr (Some (k, x), h', hl')" "list_rep h' hl' (tl as) l'" by auto
  moreover have "key_sorted l'" using SortedPop_sorted [OF assms(2)] p by simp
  ultimately show ?thesis using SortedPop_least [OF assms(2) p] by blast
qed

definition demo_heap :: "char heap" where
  "demo_heap = [0 \<mapsto> \<lparr>ln_next = Some 1, ln_key = 3, ln_item = CHR ''a''\<rparr>,
     1 \<mapsto> \<lparr>ln_next = None, ln_key = 8, ln_item = CHR ''b''\<rparr>]"

lemma demo_rep:
  "list_rep demo_heap \<lparr>h_first = Some 0, h_last = Some 1, h_size = 2\<rparr> [0, 1]
     \<lparr>elems = [(3, CHR ''a''), (8, CHR ''b'')], nsize = 2\<rparr>"
  by (simp add: list_rep_def demo_heap_def)

theorem ListH_SortedInsert_refines_witness:
  "\<exists>h' hl' cs. ListH_SortedInsert 2 demo_heap \<lparr>h_first = Some 0, h_last = Some 1, h_size = 2\<rparr> 2 (CHR ''c'') 5
       = Inr (h', hl') \<and>
     list_rep h' hl' cs (List_SortedInsert \<lparr>elems = [(3, CHR ''a''), (8, CHR ''b'')], nsize = 2\<rparr> (CHR ''c'') 5)"
  using ListH_SortedInsert_refines [OF demo_rep, of 2 2 "CHR ''c''" 5] by (auto simp add: demo_heap_def)

theorem ListH_SortedPop_least_witness:
  "\<exists>k x h' hl'. ListH_SortedPop demo_heap \<lparr>h_first = Some 0, h_last = Some 1, h_size = 2\<rparr>
     = Inr (Some (k, x), h', hl') \<and> k = 3"
  using ListH_SortedPop_least [OF demo_rep] by (auto simp add: key_sorted_def keys_def)

end
