(* ===== verification/Machine_Encoding.thy ===== *)
theory Machine_Encoding
  imports Nachos_Prelude
begin

text \<open>
  \<open>machine/encoding.hh\<close>, \<open>machine/encoding.cc\<close>, \<open>machine/instruction.hh\<close> and
  \<open>machine/instruction.cc\<close>: the operation codes of the simulated MIPS processor, the decoding
  tables and the decoder. The tables are transcribed entry by entry.
\<close>

section \<open>Operation codes and tables\<close>

datatype opcode =
    OP_ADD | OP_ADDI | OP_ADDIU | OP_ADDU | OP_AND | OP_ANDI
  | OP_BEQ | OP_BGEZ | OP_BGEZAL | OP_BGTZ | OP_BLEZ | OP_BLTZ
  | OP_BLTZAL | OP_BNE | OP_DIV | OP_DIVU | OP_J | OP_JAL
  | OP_JALR | OP_JR | OP_LB | OP_LBU | OP_LH | OP_LHU
  | OP_LUI | OP_LW | OP_LWL | OP_LWR | OP_MFHI | OP_MFLO
  | OP_MTHI | OP_MTLO | OP_MULT | OP_MULTU | OP_NOR | OP_OR
  | OP_ORI | OP_RFE | OP_SB | OP_SH | OP_SLL | OP_SLLV
  | OP_SLT | OP_SLTI | OP_SLTIU | OP_SLTU | OP_SRA | OP_SRAV
  | OP_SRL | OP_SRLV | OP_SUB | OP_SUBU | OP_SW | OP_SWL
  | OP_SWR | OP_XOR | OP_XORI | OP_SYSCALL | OP_UNIMP | OP_RES
  | SPECIAL | BCOND

text \<open>The numbers the enumerations give the operation codes.\<close>

fun opcode_num :: "opcode \<Rightarrow> nat" where
  "opcode_num OP_ADD = 1"
| "opcode_num OP_ADDI = 2"
| "opcode_num OP_ADDIU = 3"
| "opcode_num OP_ADDU = 4"
| "opcode_num OP_AND = 5"
| "opcode_num OP_ANDI = 6"
| "opcode_num OP_BEQ = 7"
| "opcode_num OP_BGEZ = 8"
| "opcode_num OP_BGEZAL = 9"
| "opcode_num OP_BGTZ = 10"
| "opcode_num OP_BLEZ = 11"
| "opcode_num OP_BLTZ = 12"
| "opcode_num OP_BLTZAL = 13"
| "opcode_num OP_BNE = 14"
| "opcode_num OP_DIV = 16"
| "opcode_num OP_DIVU = 17"
| "opcode_num OP_J = 18"
| "opcode_num OP_JAL = 19"
| "opcode_num OP_JALR = 20"
| "opcode_num OP_JR = 21"
| "opcode_num OP_LB = 22"
| "opcode_num OP_LBU = 23"
| "opcode_num OP_LH = 24"
| "opcode_num OP_LHU = 25"
| "opcode_num OP_LUI = 26"
| "opcode_num OP_LW = 27"
| "opcode_num OP_LWL = 28"
| "opcode_num OP_LWR = 29"
| "opcode_num OP_MFHI = 31"
| "opcode_num OP_MFLO = 32"
| "opcode_num OP_MTHI = 34"
| "opcode_num OP_MTLO = 35"
| "opcode_num OP_MULT = 36"
| "opcode_num OP_MULTU = 37"
| "opcode_num OP_NOR = 38"
| "opcode_num OP_OR = 39"
| "opcode_num OP_ORI = 40"
| "opcode_num OP_RFE = 41"
| "opcode_num OP_SB = 42"
| "opcode_num OP_SH = 43"
| "opcode_num OP_SLL = 44"
| "opcode_num OP_SLLV = 45"
| "opcode_num OP_SLT = 46"
| "opcode_num OP_SLTI = 47"
| "opcode_num OP_SLTIU = 48"
| "opcode_num OP_SLTU = 49"
| "opcode_num OP_SRA = 50"
| "opcode_num OP_SRAV = 51"
| "opcode_num OP_SRL = 52"
| "opcode_num OP_SRLV = 53"
| "opcode_num OP_SUB = 54"
| "opcode_num OP_SUBU = 55"
| "opcode_num OP_SW = 56"
| "opcode_num OP_SWL = 57"
| "opcode_num OP_SWR = 58"
| "opcode_num OP_XOR = 59"
| "opcode_num OP_XORI = 60"
| "opcode_num OP_SYSCALL = 61"
| "opcode_num OP_UNIMP = 62"
| "opcode_num OP_RES = 63"
| "opcode_num SPECIAL = 100"
| "opcode_num BCOND = 101"

definition MAX_OPCODE :: nat where
  "MAX_OPCODE = 63"

datatype format = IFMT | JFMT | RFMT

datatype RegType = NONE | RS | RT | RD | EXTRA

definition SIGN_BIT :: u32 where
  "SIGN_BIT = 0x80000000"

definition IndexToAddr :: "u32 \<Rightarrow> u32" where
  "IndexToAddr x = push_bit 2 x"

definition OP_TABLE :: "(opcode \<times> format) list" where
  "OP_TABLE = [
     (SPECIAL, RFMT), (BCOND, IFMT), (OP_J, JFMT), (OP_JAL, JFMT),
     (OP_BEQ, IFMT), (OP_BNE, IFMT), (OP_BLEZ, IFMT), (OP_BGTZ, IFMT),
     (OP_ADDI, IFMT), (OP_ADDIU, IFMT), (OP_SLTI, IFMT), (OP_SLTIU, IFMT),
     (OP_ANDI, IFMT), (OP_ORI, IFMT), (OP_XORI, IFMT), (OP_LUI, IFMT),
     (OP_UNIMP, IFMT), (OP_UNIMP, IFMT), (OP_UNIMP, IFMT), (OP_UNIMP, IFMT),
     (OP_RES, IFMT), (OP_RES, IFMT), (OP_RES, IFMT), (OP_RES, IFMT),
     (OP_RES, IFMT), (OP_RES, IFMT), (OP_RES, IFMT), (OP_RES, IFMT),
     (OP_RES, IFMT), (OP_RES, IFMT), (OP_RES, IFMT), (OP_RES, IFMT),
     (OP_LB, IFMT), (OP_LH, IFMT), (OP_LWL, IFMT), (OP_LW, IFMT),
     (OP_LBU, IFMT), (OP_LHU, IFMT), (OP_LWR, IFMT), (OP_RES, IFMT),
     (OP_SB, IFMT), (OP_SH, IFMT), (OP_SWL, IFMT), (OP_SW, IFMT),
     (OP_RES, IFMT), (OP_RES, IFMT), (OP_SWR, IFMT), (OP_RES, IFMT),
     (OP_UNIMP, IFMT), (OP_UNIMP, IFMT), (OP_UNIMP, IFMT), (OP_UNIMP, IFMT),
     (OP_RES, IFMT), (OP_RES, IFMT), (OP_RES, IFMT), (OP_RES, IFMT),
     (OP_UNIMP, IFMT), (OP_UNIMP, IFMT), (OP_UNIMP, IFMT), (OP_UNIMP, IFMT),
     (OP_RES, IFMT), (OP_RES, IFMT), (OP_RES, IFMT), (OP_RES, IFMT)]"

definition SPECIAL_TABLE :: "opcode list" where
  "SPECIAL_TABLE = [
     OP_SLL, OP_RES, OP_SRL, OP_SRA,
     OP_SLLV, OP_RES, OP_SRLV, OP_SRAV,
     OP_JR, OP_JALR, OP_RES, OP_RES,
     OP_SYSCALL, OP_UNIMP, OP_RES, OP_RES,
     OP_MFHI, OP_MTHI, OP_MFLO, OP_MTLO,
     OP_RES, OP_RES, OP_RES, OP_RES,
     OP_MULT, OP_MULTU, OP_DIV, OP_DIVU,
     OP_RES, OP_RES, OP_RES, OP_RES,
     OP_ADD, OP_ADDU, OP_SUB, OP_SUBU,
     OP_AND, OP_OR, OP_XOR, OP_NOR,
     OP_RES, OP_RES, OP_SLT, OP_SLTU,
     OP_RES, OP_RES, OP_RES, OP_RES,
     OP_RES, OP_RES, OP_RES, OP_RES,
     OP_RES, OP_RES, OP_RES, OP_RES,
     OP_RES, OP_RES, OP_RES, OP_RES,
     OP_RES, OP_RES, OP_RES, OP_RES]"

definition OP_STRINGS :: "(string \<times> RegType list) list" where
  "OP_STRINGS = [
     (''Should not happen'', [NONE, NONE, NONE]),
     (''ADD r%d,r%d,r%d'', [RD, RS, RT]),
     (''ADDI r%d,r%d,%d'', [RT, RS, EXTRA]),
     (''ADDIU r%d,r%d,%d'', [RT, RS, EXTRA]),
     (''ADDU r%d,r%d,r%d'', [RD, RS, RT]),
     (''AND r%d,r%d,r%d'', [RD, RS, RT]),
     (''ANDI r%d,r%d,%d'', [RT, RS, EXTRA]),
     (''BEQ r%d,r%d,%d'', [RS, RT, EXTRA]),
     (''BGEZ r%d,%d'', [RS, EXTRA, NONE]),
     (''BGEZAL r%d,%d'', [RS, EXTRA, NONE]),
     (''BGTZ r%d,%d'', [RS, EXTRA, NONE]),
     (''BLEZ r%d,%d'', [RS, EXTRA, NONE]),
     (''BLTZ r%d,%d'', [RS, EXTRA, NONE]),
     (''BLTZAL r%d,%d'', [RS, EXTRA, NONE]),
     (''BNE r%d,r%d,%d'', [RS, RT, EXTRA]),
     (''Should not happen'', [NONE, NONE, NONE]),
     (''DIV r%d,r%d'', [RS, RT, NONE]),
     (''DIVU r%d,r%d'', [RS, RT, NONE]),
     (''J %d'', [EXTRA, NONE, NONE]),
     (''JAL %d'', [EXTRA, NONE, NONE]),
     (''JALR r%d,r%d'', [RD, RS, NONE]),
     (''JR r%d,r%d'', [RD, RS, NONE]),
     (''LB r%d,%d(r%d)'', [RT, EXTRA, RS]),
     (''LBU r%d,%d(r%d)'', [RT, EXTRA, RS]),
     (''LH r%d,%d(r%d)'', [RT, EXTRA, RS]),
     (''LHU r%d,%d(r%d)'', [RT, EXTRA, RS]),
     (''LUI r%d,%d'', [RT, EXTRA, NONE]),
     (''LW r%d,%d(r%d)'', [RT, EXTRA, RS]),
     (''LWL r%d,%d(r%d)'', [RT, EXTRA, RS]),
     (''LWR r%d,%d(r%d)'', [RT, EXTRA, RS]),
     (''Should not happen'', [NONE, NONE, NONE]),
     (''MFHI r%d'', [RD, NONE, NONE]),
     (''MFLO r%d'', [RD, NONE, NONE]),
     (''Should not happen'', [NONE, NONE, NONE]),
     (''MTHI r%d'', [RS, NONE, NONE]),
     (''MTLO r%d'', [RS, NONE, NONE]),
     (''MULT r%d,r%d'', [RS, RT, NONE]),
     (''MULTU r%d,r%d'', [RS, RT, NONE]),
     (''NOR r%d,r%d,r%d'', [RD, RS, RT]),
     (''OR r%d,r%d,r%d'', [RD, RS, RT]),
     (''ORI r%d,r%d,%d'', [RT, RS, EXTRA]),
     (''RFE'', [NONE, NONE, NONE]),
     (''SB r%d,%d(r%d)'', [RT, EXTRA, RS]),
     (''SH r%d,%d(r%d)'', [RT, EXTRA, RS]),
     (''SLL r%d,r%d,%d'', [RD, RT, EXTRA]),
     (''SLLV r%d,r%d,r%d'', [RD, RT, RS]),
     (''SLT r%d,r%d,r%d'', [RD, RS, RT]),
     (''SLTI r%d,r%d,%d'', [RT, RS, EXTRA]),
     (''SLTIU r%d,r%d,%d'', [RT, RS, EXTRA]),
     (''SLTU r%d,r%d,r%d'', [RD, RS, RT]),
     (''SRA r%d,r%d,%d'', [RD, RT, EXTRA]),
     (''SRAV r%d,r%d,r%d'', [RD, RT, RS]),
     (''SRL r%d,r%d,%d'', [RD, RT, EXTRA]),
     (''SRLV r%d,r%d,r%d'', [RD, RT, RS]),
     (''SUB r%d,r%d,r%d'', [RD, RS, RT]),
     (''SUBU r%d,r%d,r%d'', [RD, RS, RT]),
     (''SW r%d,%d(r%d)'', [RT, EXTRA, RS]),
     (''SWL r%d,%d(r%d)'', [RT, EXTRA, RS]),
     (''SWR r%d,%d(r%d)'', [RT, EXTRA, RS]),
     (''XOR r%d,r%d,r%d'', [RD, RS, RT]),
     (''XORI r%d,r%d,%d'', [RT, RS, EXTRA]),
     (''SYSCALL'', [NONE, NONE, NONE]),
     (''Unimplemented'', [NONE, NONE, NONE]),
     (''Reserved'', [NONE, NONE, NONE])]"

section \<open>Instructions\<close>

record Instruction =
  i_value :: u32
  i_opCode :: opcode
  i_rs :: nat
  i_rt :: nat
  i_rd :: nat
  i_extra :: u32

definition field5 :: "u32 \<Rightarrow> nat \<Rightarrow> nat" where
  "field5 v n = unat (drop_bit n v AND 0x1F)"

definition Instruction_Decode :: "u32 \<Rightarrow> Instruction" where
  "Instruction_Decode v =
     (let (op, fmt) = OP_TABLE ! unat (drop_bit 26 v AND 0x3F);
          extra = (case fmt of
                     IFMT \<Rightarrow> (let e = v AND 0xFFFF in
                              if e AND 0x8000 \<noteq> 0 then e OR 0xFFFF0000 else e)
                   | RFMT \<Rightarrow> drop_bit 6 v AND 0x1F
                   | JFMT \<Rightarrow> v AND 0x3FFFFFF);
          op' = (if op = SPECIAL then SPECIAL_TABLE ! unat (v AND 0x3F)
                 else if op = BCOND then
                   (let i = v AND 0x1F0000 in
                    if i = 0 then OP_BLTZ
                    else if i = 0x10000 then OP_BGEZ
                    else if i = 0x100000 then OP_BLTZAL
                    else if i = 0x110000 then OP_BGEZAL
                    else OP_UNIMP)
                 else op)
      in \<lparr>i_value = v, i_opCode = op', i_rs = field5 v 21, i_rt = field5 v 16,
          i_rd = field5 v 11, i_extra = extra\<rparr>)"

definition Instruction_RegFromType :: "Instruction \<Rightarrow> RegType \<Rightarrow> u32" where
  "Instruction_RegFromType instr t =
     (case t of RS \<Rightarrow> of_nat (i_rs instr) | RT \<Rightarrow> of_nat (i_rt instr) | RD \<Rightarrow> of_nat (i_rd instr)
      | EXTRA \<Rightarrow> i_extra instr | NONE \<Rightarrow> 0)"

section \<open>What the decoder can produce\<close>

definition executable_op :: "opcode \<Rightarrow> bool" where
  "executable_op op \<longleftrightarrow> op \<noteq> SPECIAL \<and> op \<noteq> BCOND \<and> op \<noteq> OP_RFE"

definition instr_wf :: "Instruction \<Rightarrow> bool" where
  "instr_wf i \<longleftrightarrow> i_rs i < 32 \<and> i_rt i < 32 \<and> i_rd i < 32"

lemma length_tables [simp]:
  "length OP_TABLE = 64" "length SPECIAL_TABLE = 64" "length OP_STRINGS = 64"
  by (simp_all add: OP_TABLE_def SPECIAL_TABLE_def OP_STRINGS_def)

lemma and_mask_less: "unat ((v :: u32) AND 0x1F) < 32" "unat (v AND 0x3F) < 64"
proof -
  have "v AND mask 5 < 2 ^ 5" "v AND mask 6 < 2 ^ 6" by (rule and_mask_less'; simp)+
  then show "unat (v AND 0x1F) < 32" "unat (v AND 0x3F) < 64"
    by (simp_all add: mask_eq_exp_minus_1 word_less_nat_alt)
qed

lemma field5_less [simp]: "field5 v n < 32"
  by (simp add: field5_def and_mask_less)

lemma Decode_wf: "instr_wf (Instruction_Decode v)"
  by (simp add: instr_wf_def Instruction_Decode_def Let_def case_prod_beta)

lemma SPECIAL_TABLE_ops: "\<forall>op\<in>set SPECIAL_TABLE. executable_op op"
  by (simp add: SPECIAL_TABLE_def executable_op_def)

lemma OP_TABLE_ops: "\<forall>e\<in>set OP_TABLE. fst e \<noteq> OP_RFE"
  by (simp add: OP_TABLE_def)

lemma Decode_executable: "executable_op (i_opCode (Instruction_Decode v))"
proof -
  have "SPECIAL_TABLE ! unat (v AND 0x3F) \<in> set SPECIAL_TABLE"
    "OP_TABLE ! unat (drop_bit 26 v AND 0x3F) \<in> set OP_TABLE"
    by (simp_all add: and_mask_less)
  with SPECIAL_TABLE_ops OP_TABLE_ops show ?thesis
    by (auto simp add: Instruction_Decode_def Let_def case_prod_beta executable_op_def)
qed

lemma opcode_num_bound: "executable_op op \<Longrightarrow> 1 \<le> opcode_num op \<and> opcode_num op \<le> MAX_OPCODE"
  by (cases op) (simp_all add: executable_op_def MAX_OPCODE_def)

lemma bit15: "(v AND 0xFFFF) AND 0x8000 \<noteq> 0 \<longleftrightarrow> bit (v :: u32) 15"
proof -
  have e: "0xFFFF AND 0x8000 = (2 ^ 15 :: u32)" by simp
  show ?thesis unfolding and.assoc e by (simp only: and_exp_eq_0_iff_not_bit not_not)
qed

lemma sign_extended:
  "(let e = v AND 0xFFFF in if e AND 0x8000 \<noteq> 0 then e OR 0xFFFF0000 else e) = (scast (ucast (v :: u32) :: u16) :: u32)"
proof -
  have h: "0xFFFF0000 = (push_bit 16 (mask 16) :: u32)" "0xFFFF = (mask 16 :: u32)" by (simp_all add: mask_eq_exp_minus_1)
  have b: "(v AND mask 16) AND 0x8000 \<noteq> 0 \<longleftrightarrow> bit v 15" using bit15 [of v] unfolding h .
  have n: "15 \<le> n \<Longrightarrow> n < 16 \<Longrightarrow> n = 15" for n :: nat by simp
  show ?thesis unfolding h Let_def b
    by (rule bit_word_eqI) (auto simp add: bit_simps min_def not_less not_le dest: n)
qed

text \<open>C40: Every word decodes to an instruction of the processor. Its register fields are below 32, its operation is one the
  simulator executes, with an entry in the table of names, and its immediate operand has the width of its format: the
  sign-extended low half, a shift count below 32, or a jump target of 26 bits.\<close>

theorem Decode_typed:
  "let i = Instruction_Decode v in
     i_rs i < 32 \<and> i_rt i < 32 \<and> i_rd i < 32 \<and> executable_op (i_opCode i) \<and> 1 \<le> opcode_num (i_opCode i) \<and> opcode_num (i_opCode i) \<le> MAX_OPCODE \<and>
     (case snd (OP_TABLE ! unat (drop_bit 26 v)) of
        IFMT \<Rightarrow> i_extra i = scast (ucast v :: u16) | RFMT \<Rightarrow> i_extra i < 32 | JFMT \<Rightarrow> i_extra i < 2 ^ 26)"
proof -
  have w: "drop_bit 26 v AND 0x3F = drop_bit 26 v"
  proof -
    have m: "0x3F = (mask 6 :: u32)" by (simp add: mask_eq_exp_minus_1)
    show ?thesis unfolding m by (rule bit_word_eqI) (auto simp add: bit_simps dest: bit_imp_le_length)
  qed
  have j: "v AND 0x3FFFFFF < 2 ^ 26" using and_mask_less' [of 26 v] by (simp add: mask_eq_exp_minus_1)
  have r: "drop_bit 6 v AND 0x1F < 32" using and_mask_less(1) [of "drop_bit 6 v"] by (simp add: word_less_nat_alt)
  have "i_extra (Instruction_Decode v) = (case snd (OP_TABLE ! unat (drop_bit 26 v)) of
        IFMT \<Rightarrow> scast (ucast v :: u16) | RFMT \<Rightarrow> drop_bit 6 v AND 0x1F | JFMT \<Rightarrow> v AND 0x3FFFFFF)"
    by (simp only: Instruction_Decode_def Let_def case_prod_beta Instruction.select_convs w sign_extended [unfolded Let_def])
  with j r have "case snd (OP_TABLE ! unat (drop_bit 26 v)) of
        IFMT \<Rightarrow> i_extra (Instruction_Decode v) = scast (ucast v :: u16) | RFMT \<Rightarrow> i_extra (Instruction_Decode v) < 32 | JFMT \<Rightarrow> i_extra (Instruction_Decode v) < 2 ^ 26"
    by (cases "snd (OP_TABLE ! unat (drop_bit 26 v))") simp_all
  with Decode_wf [of v] Decode_executable [of v] opcode_num_bound [OF Decode_executable] show ?thesis by (simp add: instr_wf_def)
qed
end
