(* ===== verification/Machine_Mmu.thy ===== *)
theory Machine_Mmu
  imports Nachos_Prelude
begin

text \<open>
  The memory management unit: \<open>machine/mmu.cc\<close>, \<open>machine/mmu.hh\<close>,
  \<open>machine/translation_entry.hh\<close>, \<open>machine/endianness.cc\<close> and
  \<open>machine/exception_type.hh\<close>.

  Addresses, sizes, page numbers and the \<open>int\<close> values moved in and out are 32-bit words, so
  the address arithmetic wraps as in C++. Physical memory is the list of its bytes. The host's
  byte order is the argument \<open>be\<close> (\<open>HOST_IS_BIG_ENDIAN\<close>), and \<open>char\<close> is signed, as
  on the hosts the build supports. A pointer to a translation entry is the index of the entry
  in the table the MMU is using; the table itself is part of the MMU's state.
\<close>

section \<open>Exceptions and endianness\<close>

datatype ExceptionType =
    NO_EXCEPTION
  | SYSCALL_EXCEPTION
  | PAGE_FAULT_EXCEPTION
  | READ_ONLY_EXCEPTION
  | BUS_ERROR_EXCEPTION
  | ADDRESS_ERROR_EXCEPTION
  | OVERFLOW_EXCEPTION
  | ILLEGAL_INSTR_EXCEPTION

fun ExceptionTypeToString :: "ExceptionType \<Rightarrow> string" where
  "ExceptionTypeToString NO_EXCEPTION = ''no exception''"
| "ExceptionTypeToString SYSCALL_EXCEPTION = ''system call''"
| "ExceptionTypeToString PAGE_FAULT_EXCEPTION = ''page/TLB entry fault''"
| "ExceptionTypeToString READ_ONLY_EXCEPTION = ''read-only page''"
| "ExceptionTypeToString BUS_ERROR_EXCEPTION = ''memory bus error''"
| "ExceptionTypeToString ADDRESS_ERROR_EXCEPTION = ''address error''"
| "ExceptionTypeToString OVERFLOW_EXCEPTION = ''overflow''"
| "ExceptionTypeToString ILLEGAL_INSTR_EXCEPTION = ''illegal instruction''"

definition WordToHost :: "bool \<Rightarrow> u32 \<Rightarrow> u32" where
  "WordToHost be word = (if be then
      ((drop_bit 24 word AND 0x000000FF) OR (drop_bit 8 word AND 0x0000FF00))
      OR (push_bit 8 word AND 0x00FF0000) OR (push_bit 24 word AND 0xFF000000)
    else word)"

definition ShortToHost :: "bool \<Rightarrow> u16 \<Rightarrow> u16" where
  "ShortToHost be shortword = (if be then
      (push_bit 8 shortword AND 0xFF00) OR (drop_bit 8 shortword AND 0x00FF)
    else shortword)"

definition WordToMachine :: "bool \<Rightarrow> u32 \<Rightarrow> u32" where
  "WordToMachine be word = WordToHost be word"

definition ShortToMachine :: "bool \<Rightarrow> u16 \<Rightarrow> u16" where
  "ShortToMachine be shortword = ShortToHost be shortword"

text \<open>Loads and stores of the host through a cast pointer into a byte array.\<close>

definition host_load16 :: "bool \<Rightarrow> u8 list \<Rightarrow> nat \<Rightarrow> u16 res" where
  "host_load16 be mem a = (if a + 2 \<le> length mem
     then Inr (word_of_bytes (host_order be (slice a 2 mem))) else Inl OutOfBounds)"

definition host_load32 :: "bool \<Rightarrow> u8 list \<Rightarrow> nat \<Rightarrow> u32 res" where
  "host_load32 be mem a = (if a + 4 \<le> length mem
     then Inr (word_of_bytes (host_order be (slice a 4 mem))) else Inl OutOfBounds)"

definition host_store16 :: "bool \<Rightarrow> u8 list \<Rightarrow> nat \<Rightarrow> u16 \<Rightarrow> u8 list res" where
  "host_store16 be mem a v = (if a + 2 \<le> length mem
     then Inr (blit mem a (host_order be (bytes16 v))) else Inl OutOfBounds)"

definition host_store32 :: "bool \<Rightarrow> u8 list \<Rightarrow> nat \<Rightarrow> u32 \<Rightarrow> u8 list res" where
  "host_store32 be mem a v = (if a + 4 \<le> length mem
     then Inr (blit mem a (host_order be (bytes32 v))) else Inl OutOfBounds)"

section \<open>State\<close>

definition PAGE_SIZE :: u32 where "PAGE_SIZE = 128"
definition NUM_PHYS_PAGES :: u32 where "NUM_PHYS_PAGES = 128"
definition MEMORY_SIZE :: u32 where "MEMORY_SIZE = NUM_PHYS_PAGES * PAGE_SIZE"
definition TLB_SIZE :: nat where "TLB_SIZE = 4"

lemmas mmu_sizes = PAGE_SIZE_def NUM_PHYS_PAGES_def MEMORY_SIZE_def TLB_SIZE_def

record TranslationEntry =
  virtualPage :: u32
  physicalPage :: u32
  valid :: bool
  readOnly :: bool
  "use" :: bool
  dirty :: bool

record mmu =
  mainMemory :: "u8 list"
  tlb :: "TranslationEntry list option"
  pageTable :: "TranslationEntry list option"
  pageTableSize :: u32

section \<open>Operations\<close>

definition MMU_new :: "TranslationEntry list option \<Rightarrow> u32 \<Rightarrow> mmu" where
  "MMU_new tlb_raw ptszraw =
     \<lparr>mainMemory = replicate (unat MEMORY_SIZE) 0,
      tlb = (case tlb_raw of None \<Rightarrow> None
             | Some raw \<Rightarrow> Some (map (\<lambda>e. e\<lparr>valid := False\<rparr>) (take TLB_SIZE raw))),
      pageTable = None, pageTableSize = ptszraw\<rparr>"

fun tlb_loop :: "TranslationEntry list \<Rightarrow> u32 \<Rightarrow> nat list \<Rightarrow> (ExceptionType \<times> nat option) res" where
  "tlb_loop t vpn [] = Inr (PAGE_FAULT_EXCEPTION, None)"
| "tlb_loop t vpn (i # is') = bindR (aget t i) (\<lambda>e.
     if valid e \<and> virtualPage e = vpn then Inr (NO_EXCEPTION, Some i) else tlb_loop t vpn is')"

definition RetrievePageEntry :: "mmu \<Rightarrow> u32 \<Rightarrow> (ExceptionType \<times> nat option) res" where
  "RetrievePageEntry m vpn = (case tlb m of
     None \<Rightarrow>
       if vpn \<ge> pageTableSize m then Inr (ADDRESS_ERROR_EXCEPTION, None)
       else (case pageTable m of
           None \<Rightarrow> Inl NullDeref
         | Some pt \<Rightarrow> bindR (aget pt (unat vpn)) (\<lambda>e.
             if \<not> valid e then Inr (PAGE_FAULT_EXCEPTION, None)
             else Inr (NO_EXCEPTION, Some (unat vpn))))
   | Some t \<Rightarrow> tlb_loop t vpn [0..<TLB_SIZE])"

definition cur_table :: "mmu \<Rightarrow> TranslationEntry list" where
  "cur_table m = (case tlb m of Some t \<Rightarrow> t | None \<Rightarrow> (case pageTable m of Some pt \<Rightarrow> pt | None \<Rightarrow> []))"

definition set_entry :: "mmu \<Rightarrow> nat \<Rightarrow> TranslationEntry \<Rightarrow> mmu" where
  "set_entry m i e = (case tlb m of
     Some t \<Rightarrow> m\<lparr>tlb := Some (t[i := e])\<rparr>
   | None \<Rightarrow> m\<lparr>pageTable := map_option (\<lambda>pt. pt[i := e]) (pageTable m)\<rparr>)"

definition Translate :: "mmu \<Rightarrow> u32 \<Rightarrow> u32 \<Rightarrow> bool \<Rightarrow> (ExceptionType \<times> u32 option \<times> mmu) res" where
  "Translate m virtAddr sz writing =
    ASSERT ((tlb m = None) \<noteq> (pageTable m = None)) (
    if (sz = 4 \<and> virtAddr AND 0x3 \<noteq> 0) \<or> (sz = 2 \<and> virtAddr AND 0x1 \<noteq> 0)
    then Inr (ADDRESS_ERROR_EXCEPTION, None, m)
    else
      let vpn = virtAddr div PAGE_SIZE; offset = virtAddr mod PAGE_SIZE in
      bindR (RetrievePageEntry m vpn) (\<lambda>(exception, entry).
        if exception \<noteq> NO_EXCEPTION then Inr (exception, None, m) else
        bindR (need entry) (\<lambda>i. bindR (aget (cur_table m) i) (\<lambda>e.
          if readOnly e \<and> writing then Inr (READ_ONLY_EXCEPTION, None, m)
          else
            let pageFrame = physicalPage e in
            if pageFrame \<ge> NUM_PHYS_PAGES then Inr (BUS_ERROR_EXCEPTION, None, m)
            else
              let m' = set_entry m i (e\<lparr>use := True, dirty := (if writing then True else dirty e)\<rparr>);
                  physAddr = pageFrame * PAGE_SIZE + offset in
              ASSERT (physAddr \<ge> 0 \<and> physAddr + sz \<le> MEMORY_SIZE)
                (Inr (NO_EXCEPTION, Some physAddr, m'))))))"

definition ReadMem :: "bool \<Rightarrow> mmu \<Rightarrow> u32 \<Rightarrow> u32 \<Rightarrow> (ExceptionType \<times> u32 option \<times> mmu) res" where
  "ReadMem be m addr sz =
    bindR (Translate m addr sz False) (\<lambda>(e, pa, m').
      if e \<noteq> NO_EXCEPTION then Inr (e, None, m') else bindR (need pa) (\<lambda>physicalAddress.
      if sz = 1 then
        bindR (aget (mainMemory m') (unat physicalAddress)) (\<lambda>data.
          Inr (NO_EXCEPTION, Some (scast data), m'))
      else if sz = 2 then
        bindR (host_load16 be (mainMemory m') (unat physicalAddress)) (\<lambda>data.
          Inr (NO_EXCEPTION, Some (ucast (ShortToHost be data)), m'))
      else if sz = 4 then
        bindR (host_load32 be (mainMemory m') (unat physicalAddress)) (\<lambda>data.
          Inr (NO_EXCEPTION, Some (WordToHost be data), m'))
      else Inl AssertFail))"

definition WriteMem :: "bool \<Rightarrow> mmu \<Rightarrow> u32 \<Rightarrow> u32 \<Rightarrow> u32 \<Rightarrow> (ExceptionType \<times> mmu) res" where
  "WriteMem be m addr sz val =
    bindR (Translate m addr sz True) (\<lambda>(e, pa, m').
      if e \<noteq> NO_EXCEPTION then Inr (e, m') else bindR (need pa) (\<lambda>physicalAddress.
      if sz = 1 then
        bindR (aset (mainMemory m') (unat physicalAddress) (ucast (val AND 0xFF))) (\<lambda>mem.
          Inr (NO_EXCEPTION, m'\<lparr>mainMemory := mem\<rparr>))
      else if sz = 2 then
        bindR (host_store16 be (mainMemory m') (unat physicalAddress)
                 (ShortToMachine be (ucast (val AND 0xFFFF)))) (\<lambda>mem.
          Inr (NO_EXCEPTION, m'\<lparr>mainMemory := mem\<rparr>))
      else if sz = 4 then
        bindR (host_store32 be (mainMemory m') (unat physicalAddress) (WordToMachine be val)) (\<lambda>mem.
          Inr (NO_EXCEPTION, m'\<lparr>mainMemory := mem\<rparr>))
      else Inl AssertFail))"

section \<open>Well-formed MMU states and the virtual memory they present\<close>

definition mmu_ok :: "mmu \<Rightarrow> bool" where
  "mmu_ok m \<longleftrightarrow> length (mainMemory m) = unat MEMORY_SIZE \<and>
     (tlb m = None) \<noteq> (pageTable m = None) \<and>
     (\<forall>t. tlb m = Some t \<longrightarrow> length t = TLB_SIZE) \<and>
     (\<forall>pt. pageTable m = Some pt \<longrightarrow> unat (pageTableSize m) \<le> length pt)"

definition aligned :: "u32 \<Rightarrow> u32 \<Rightarrow> bool" where
  "aligned a sz \<longleftrightarrow> unat a mod unat sz = 0"

definition page_entry :: "mmu \<Rightarrow> u32 \<Rightarrow> TranslationEntry option" where
  "page_entry m vpn = (case tlb m of
     Some t \<Rightarrow> List.find (\<lambda>e. valid e \<and> virtualPage e = vpn) t
   | None \<Rightarrow> (case pageTable m of None \<Rightarrow> None | Some pt \<Rightarrow>
       if vpn < pageTableSize m \<and> valid (pt ! unat vpn) then Some (pt ! unat vpn) else None))"

definition phys :: "mmu \<Rightarrow> u32 \<Rightarrow> nat option" where
  "phys m a = (case page_entry m (a div PAGE_SIZE) of
     None \<Rightarrow> None
   | Some e \<Rightarrow> if physicalPage e < NUM_PHYS_PAGES
       then Some (unat (physicalPage e) * 128 + unat a mod 128) else None)"

definition vmem :: "mmu \<Rightarrow> u32 \<rightharpoonup> u8" where
  "vmem m a = map_option (\<lambda>p. mainMemory m ! p) (phys m a)"

definition writable :: "mmu \<Rightarrow> u32 \<Rightarrow> bool" where
  "writable m a \<longleftrightarrow> (case page_entry m (a div PAGE_SIZE) of None \<Rightarrow> False | Some e \<Rightarrow> \<not> readOnly e)"

definition same_map :: "TranslationEntry list \<Rightarrow> TranslationEntry list \<Rightarrow> bool" where
  "same_map = list_all2 (\<lambda>e e'. valid e = valid e' \<and> virtualPage e = virtualPage e' \<and>
     physicalPage e = physicalPage e' \<and> readOnly e = readOnly e')"

lemma unat_MEMORY_SIZE [simp]: "unat MEMORY_SIZE = 16384"
  by (simp add: mmu_sizes)

lemma misaligned_iff:
  assumes "sz \<in> {1, 2, 4}"
  shows "((sz = 4 \<and> a AND 0x3 \<noteq> 0) \<or> (sz = 2 \<and> a AND 0x1 \<noteq> 0)) \<longleftrightarrow> \<not> aligned a sz"
proof -
  have "a AND 0x3 = a mod 4" "a AND 0x1 = a mod (2::u32)"
    using take_bit_eq_mask [of 2 a] take_bit_eq_mod [of 2 a]
      take_bit_eq_mask [of 1 a] take_bit_eq_mod [of 1 a]
    by (simp_all add: mask_eq_exp_minus_1)
  then have "a AND 0x3 = 0 \<longleftrightarrow> unat a mod 4 = 0" "a AND 0x1 = 0 \<longleftrightarrow> unat a mod 2 = 0"
    by (simp_all add: unat_mod unat_eq_0 [symmetric] del: unat_eq_0)
  with assms show ?thesis by (auto simp add: aligned_def)
qed

lemma aligned_span:
  assumes "sz \<in> {1, 2, 4}" and "aligned a sz" and "k < unat sz"
  shows "unat (a + of_nat k) = unat a + k"
    and "(unat a + k) div 128 = unat a div 128"
    and "(unat a + k) mod 128 = unat a mod 128 + k"
proof -
  have "unat a < 4294967296" by (rule unat_less32)
  moreover have "unat (of_nat k :: u32) = k"
    using assms by (auto simp add: unat_of_nat)
  moreover from assms have al: "unat sz \<in> {1, 2, 4}" "unat a mod unat sz = 0"
    by (auto simp add: aligned_def)
  moreover have "unat a + k < 4294967296"
    using al assms(3) calculation(1) by (auto; presburger)
  ultimately show "unat (a + of_nat k) = unat a + k"
    by (simp add: unat_add32)
  define q where "q = unat a mod 128"
  have "q mod unat sz = 0"
    using al by (auto simp add: q_def mod_mod_cancel)
  then have q: "q + k < 128"
    using al(1) assms(3) mod_less_divisor [of 128 "unat a"] unfolding q_def [symmetric]
    by (auto; presburger)
  have "unat a + k = (q + k) + 128 * (unat a div 128)"
    by (simp add: q_def)
  with q show "(unat a + k) div 128 = unat a div 128" "(unat a + k) mod 128 = unat a mod 128 + k"
    by (simp_all only: div_mult_self2 mod_mult_self2 q_def [symmetric]) simp_all
qed

lemma unat_phys:
  assumes "f < NUM_PHYS_PAGES"
  shows "unat (f * PAGE_SIZE + a mod PAGE_SIZE) = unat f * 128 + unat a mod 128"
proof -
  have f: "unat f < 128" using assms by (simp add: word_less_nat_alt mmu_sizes)
  have m: "unat a mod 128 < 128" by simp
  have "unat f * 128 + unat a mod 128 < 16384" using f m by linarith
  with f show ?thesis
    by (simp add: unat_add32 unat_mult32 mmu_sizes unat_mod)
qed

section \<open>Page lookup\<close>

lemma same_map_refl [simp]: "same_map t t"
  by (simp add: same_map_def list_all2_refl)

lemma tlb_loop_find:
  assumes "set js \<subseteq> {..<length t}"
  shows "tlb_loop t vpn js = Inr (case List.find (\<lambda>i. valid (t ! i) \<and> virtualPage (t ! i) = vpn) js of
     None \<Rightarrow> (PAGE_FAULT_EXCEPTION, None) | Some i \<Rightarrow> (NO_EXCEPTION, Some i))"
  using assms by (induction js) auto

lemma find_map_option: "List.find P (map f is') = map_option f (List.find (\<lambda>i. P (f i)) is')"
  by (induction is') simp_all

lemma find_upt_nth:
  "List.find P xs = map_option (\<lambda>i. xs ! i) (List.find (\<lambda>i. P (xs ! i)) [0..<length xs])"
proof -
  have "List.find P xs = List.find P (map (\<lambda>i. xs ! i) [0..<length xs])"
    by (simp add: map_nth)
  also have "\<dots> = map_option (\<lambda>i. xs ! i) (List.find (\<lambda>i. P (xs ! i)) [0..<length xs])"
    by (rule find_map_option)
  finally show ?thesis .
qed

lemma Retrieve_cases:
  assumes "mmu_ok m"
  obtains (miss) e where "RetrievePageEntry m vpn = Inr (e, None)" "e \<noteq> NO_EXCEPTION"
      "page_entry m vpn = None"
      "e = (if tlb m = None \<and> pageTableSize m \<le> vpn then ADDRESS_ERROR_EXCEPTION
            else PAGE_FAULT_EXCEPTION)"
  | (hit) i where "RetrievePageEntry m vpn = Inr (NO_EXCEPTION, Some i)"
      "i < length (cur_table m)" "page_entry m vpn = Some (cur_table m ! i)"
proof (cases "tlb m")
  case None
  with assms obtain pt where pt: "pageTable m = Some pt" "unat (pageTableSize m) \<le> length pt"
    by (auto simp add: mmu_ok_def)
  show thesis
  proof (cases "vpn < pageTableSize m")
    case True
    then have v: "unat vpn < length pt" using pt by (simp add: word_less_nat_alt)
    show thesis
    proof (cases "valid (pt ! unat vpn)")
      case v': True
      show thesis
        using None pt True v v'
        by (intro hit) (simp_all add: RetrievePageEntry_def page_entry_def cur_table_def)
    next
      case False
      show thesis
        using None pt True v False
        by (intro miss) (simp_all add: RetrievePageEntry_def page_entry_def)
    qed
  next
    case False
    show thesis using None pt False
      by (intro miss) (simp_all add: RetrievePageEntry_def page_entry_def not_less)
  qed
next
  case (Some t)
  with assms have l: "length t = TLB_SIZE" by (simp add: mmu_ok_def)
  let ?f = "List.find (\<lambda>i. valid (t ! i) \<and> virtualPage (t ! i) = vpn) [0..<TLB_SIZE]"
  have r: "RetrievePageEntry m vpn = Inr (case ?f of
     None \<Rightarrow> (PAGE_FAULT_EXCEPTION, None) | Some i \<Rightarrow> (NO_EXCEPTION, Some i))"
    using Some l tlb_loop_find [of "[0..<TLB_SIZE]" t vpn]
    by (simp add: RetrievePageEntry_def atLeast0LessThan)
  have p: "page_entry m vpn = map_option (\<lambda>i. t ! i) ?f"
    using Some l find_upt_nth [of _ t] by (simp add: page_entry_def)
  show thesis
  proof (cases ?f)
    case None
    then show thesis using r p Some by (intro miss) simp_all
  next
    case (Some i)
    then have "i < TLB_SIZE" by (auto simp add: find_Some_iff)
    with Some l r p \<open>tlb m = Some t\<close> show thesis
      by (intro hit) (simp_all add: cur_table_def)
  qed
qed

lemma find_list_all2:
  "list_all2 R xs ys \<Longrightarrow> (\<And>x y. R x y \<Longrightarrow> P x = P y) \<Longrightarrow>
     rel_option R (List.find P xs) (List.find P ys)"
  by (induction rule: list_all2_induct) auto

lemma same_map_update:
  "i < length t \<Longrightarrow> same_map t (t[i := (t ! i)\<lparr>use := u, dirty := d\<rparr>])"
  by (auto simp add: same_map_def list_all2_conv_all_nth nth_list_update)

lemma page_entry_set_entry:
  assumes "mmu_ok m" and "i < length (cur_table m)"
  shows "rel_option (\<lambda>e e'. physicalPage e = physicalPage e' \<and> readOnly e = readOnly e')
     (page_entry m vpn) (page_entry (set_entry m i ((cur_table m ! i)\<lparr>use := u, dirty := d\<rparr>)) vpn)"
proof (cases "tlb m")
  case None
  then show ?thesis using assms
    by (auto simp add: page_entry_def set_entry_def cur_table_def mmu_ok_def nth_list_update
        split: option.splits if_splits)
next
  case (Some t)
  then have "i < length t" using assms by (simp add: cur_table_def)
  from find_list_all2 [OF same_map_update [OF this, where u = u and d = d, unfolded same_map_def],
      where P = "\<lambda>e. valid e \<and> virtualPage e = vpn"]
  show ?thesis using Some
    by (auto simp add: page_entry_def set_entry_def cur_table_def elim!: option.rel_mono_strong)
qed

lemma mmu_ok_set_entry [simp]: "mmu_ok (set_entry m i e) = mmu_ok m"
  by (auto simp add: mmu_ok_def set_entry_def split: option.splits)

lemma mainMemory_set_entry [simp]: "mainMemory (set_entry m i e) = mainMemory m"
  by (simp add: set_entry_def split: option.splits)

lemma tlb_set_entry [simp]: "(tlb (set_entry m i e) = None) = (tlb m = None)"
  by (simp add: set_entry_def split: option.splits)

lemma phys_set_entry:
  assumes "mmu_ok m" and "i < length (cur_table m)"
  shows "phys (set_entry m i ((cur_table m ! i)\<lparr>use := u, dirty := d\<rparr>)) = phys m"
    and "writable (set_entry m i ((cur_table m ! i)\<lparr>use := u, dirty := d\<rparr>)) = writable m"
proof -
  have "phys (set_entry m i ((cur_table m ! i)\<lparr>use := u, dirty := d\<rparr>)) x = phys m x \<and>
    writable (set_entry m i ((cur_table m ! i)\<lparr>use := u, dirty := d\<rparr>)) x = writable m x" for x
    using page_entry_set_entry [OF assms, where vpn = "x div PAGE_SIZE" and u = u and d = d]
    by (auto simp add: phys_def writable_def split: option.splits elim!: option.rel_cases)
  then show "phys (set_entry m i ((cur_table m ! i)\<lparr>use := u, dirty := d\<rparr>)) = phys m"
    and "writable (set_entry m i ((cur_table m ! i)\<lparr>use := u, dirty := d\<rparr>)) = writable m"
    by blast+
qed

section \<open>Translation\<close>

definition translate_exception :: "mmu \<Rightarrow> u32 \<Rightarrow> u32 \<Rightarrow> bool \<Rightarrow> ExceptionType" where
  "translate_exception m a sz writing =
    (if \<not> aligned a sz then ADDRESS_ERROR_EXCEPTION
     else case page_entry m (a div PAGE_SIZE) of
       None \<Rightarrow> if tlb m = None \<and> pageTableSize m \<le> a div PAGE_SIZE
               then ADDRESS_ERROR_EXCEPTION else PAGE_FAULT_EXCEPTION
     | Some e \<Rightarrow> if readOnly e \<and> writing then READ_ONLY_EXCEPTION
               else if NUM_PHYS_PAGES \<le> physicalPage e then BUS_ERROR_EXCEPTION
               else NO_EXCEPTION)"

lemma translate_exception_no:
  "translate_exception m a sz writing = NO_EXCEPTION \<longleftrightarrow>
     aligned a sz \<and> phys m a \<noteq> None \<and> (writing \<longrightarrow> writable m a)"
  by (auto simp add: translate_exception_def phys_def writable_def split: option.splits)

lemma phys_bound:
  assumes "sz \<in> {1, 2, 4}" and "aligned a sz" and "phys m a = Some p"
  shows "p + unat sz \<le> 16384"
proof -
  from assms(1) have "unat sz - 1 < unat sz" "0 < unat sz" by auto
  from aligned_span(3) [OF assms(1,2) this(1)] this(2)
  have "unat a mod 128 + unat sz \<le> 128"
    by (metis Suc_diff_1 Suc_leI add_Suc_right mod_less_divisor zero_less_numeral)
  with assms(3) show ?thesis
    by (auto simp add: phys_def word_less_nat_alt mmu_sizes split: option.splits if_splits)
qed

lemma Translate_ok:
  assumes "mmu_ok m" and "sz \<in> {1, 2, 4}"
  obtains (exn) "Translate m a sz w = Inr (translate_exception m a sz w, None, m)"
      "translate_exception m a sz w \<noteq> NO_EXCEPTION"
  | (ok) p m' where "Translate m a sz w = Inr (NO_EXCEPTION, Some p, m')"
      "translate_exception m a sz w = NO_EXCEPTION"
      "phys m a = Some (unat p)" "mmu_ok m'" "mainMemory m' = mainMemory m"
      "phys m' = phys m" "writable m' = writable m" "(tlb m' = None) = (tlb m = None)"
proof -
  have tp: "(tlb m = None) \<noteq> (pageTable m = None)" using assms(1) by (simp add: mmu_ok_def)
  show thesis
  proof (cases "aligned a sz")
    case False
    then show thesis using tp misaligned_iff [OF assms(2), of a]
      by (intro exn) (simp_all add: Translate_def translate_exception_def)
  next
    case al: True
    note T = Translate_def misaligned_iff [OF assms(2), of a] Let_def translate_exception_def
    show thesis
    proof (rule Retrieve_cases [OF assms(1), of "a div PAGE_SIZE"])
      fix e
      assume "RetrievePageEntry m (a div PAGE_SIZE) = Inr (e, None)" "e \<noteq> NO_EXCEPTION"
        "page_entry m (a div PAGE_SIZE) = None"
        "e = (if tlb m = None \<and> pageTableSize m \<le> a div PAGE_SIZE then ADDRESS_ERROR_EXCEPTION
            else PAGE_FAULT_EXCEPTION)"
      then show thesis using al tp by (intro exn) (simp_all add: T)
    next
      fix i
      assume h: "RetrievePageEntry m (a div PAGE_SIZE) = Inr (NO_EXCEPTION, Some i)"
        "i < length (cur_table m)" "page_entry m (a div PAGE_SIZE) = Some (cur_table m ! i)"
      let ?e = "cur_table m ! i"
      show thesis
      proof (cases "(readOnly ?e \<and> w) \<or> NUM_PHYS_PAGES \<le> physicalPage ?e")
        case True
        then show thesis using al tp h by (intro exn) (auto simp add: T)
      next
        case False
        then have f: "physicalPage ?e < NUM_PHYS_PAGES" by (simp add: not_le)
        let ?p = "physicalPage ?e * PAGE_SIZE + a mod PAGE_SIZE"
        have ph: "phys m a = Some (unat ?p)"
          using h f by (simp add: phys_def unat_phys)
        have "unat ?p + unat sz \<le> 16384" by (rule phys_bound [OF assms(2) al ph])
        then have "?p + sz \<le> MEMORY_SIZE"
          by (simp add: word_le_nat_alt unat_add32)
        then have t: "Translate m a sz w = Inr (NO_EXCEPTION, Some ?p,
            set_entry m i (?e\<lparr>use := True, dirty := (if w then True else dirty ?e)\<rparr>))"
          using al tp h False by (auto simp add: T)
        have "translate_exception m a sz w = NO_EXCEPTION"
          using al h False by (auto simp add: translate_exception_def)
        from ok [OF t this ph] show thesis
          by (simp only: mmu_ok_set_entry mainMemory_set_entry tlb_set_entry assms(1)
              phys_set_entry [OF assms(1) h(2)])
      qed
    qed
  qed
qed

section \<open>Reads and writes in terms of the virtual memory\<close>

definition vbytes :: "mmu \<Rightarrow> u32 \<Rightarrow> u32 \<Rightarrow> u8 list" where
  "vbytes m a sz = map (\<lambda>k. the (vmem m (a + of_nat k))) [0..<unat sz]"

definition load_value :: "u32 \<Rightarrow> u8 list \<Rightarrow> u32" where
  "load_value sz bs = (if sz = 1 then scast (hd bs)
     else if sz = 2 then ucast (word_of_bytes bs :: u16) else word_of_bytes bs)"

definition low_bytes :: "u32 \<Rightarrow> u32 \<Rightarrow> u8 list" where
  "low_bytes sz v = take (unat sz) (bytes32 v)"

lemma byte_masks:
  "(0xFF :: u32) = push_bit 0 (mask 8)" "(0xFF00 :: u32) = push_bit 8 (mask 8)"
  "(0xFF0000 :: u32) = push_bit 16 (mask 8)" "(0xFF000000 :: u32) = push_bit 24 (mask 8)"
  "(0xFF00 :: u16) = push_bit 8 (mask 8)" "(0xFF :: u16) = push_bit 0 (mask 8)"
  by (simp_all add: mask_eq_exp_minus_1 push_bit_eq_mult)

lemma bit_WordToHost:
  assumes "q < 4" and "r < 8"
  shows "bit (WordToHost True w) (8 * q + r) \<longleftrightarrow> bit w (8 * (3 - q) + r)"
proof -
  from assms(1) consider "q = 0" | "q = 1" | "q = 2" | "q = 3" by linarith
  then show ?thesis
    using assms(2) by cases (simp_all add: WordToHost_def byte_masks bit_simps)
qed

lemma bit_ShortToHost:
  assumes "q < 2" and "r < 8"
  shows "bit (ShortToHost True w) (8 * q + r) \<longleftrightarrow> bit w (8 * (1 - q) + r)"
proof -
  from assms(1) consider "q = 0" | "q = 1" by linarith
  then show ?thesis
    using assms(2) by cases (simp_all add: ShortToHost_def byte_masks bit_simps)
qed

lemma div_mod_8: "n = 8 * (n div 8) + (n mod 8 :: nat)"
  by simp

lemma WordToHost_host_order:
  assumes "length bs = 4"
  shows "WordToHost be (word_of_bytes (host_order be bs)) = word_of_bytes bs"
proof (cases be)
  case True
  have "WordToHost True (word_of_bytes (rev bs)) = (word_of_bytes bs :: u32)"
  proof (rule bit_word_eqI)
    fix n
    assume "n < LENGTH(32)"
    then have q: "n div 8 < 4" "3 - n div 8 < 4" by auto
    have b: "8 * (3 - n div 8) + n mod 8 < 32"
      using mod_less_divisor [of 8 n] by linarith
    have "bit (WordToHost True (word_of_bytes (rev bs))) n \<longleftrightarrow>
        bit (word_of_bytes (rev bs) :: u32) (8 * (3 - n div 8) + n mod 8)"
      using bit_WordToHost [OF q(1), of "n mod 8"] div_mod_8 [of n] by simp
    also have "\<dots> \<longleftrightarrow> bit (bs ! (n div 8)) (n mod 8)"
      using q b assms by (simp add: bit_word_of_bytes rev_nth)
    finally show "bit (WordToHost True (word_of_bytes (rev bs))) n = bit (word_of_bytes bs :: u32) n"
      using q assms \<open>n < LENGTH(32)\<close> by (simp add: bit_word_of_bytes)
  qed
  with True show ?thesis by (simp add: host_order_def)
qed (simp add: host_order_def WordToHost_def)

lemma ShortToHost_host_order:
  assumes "length bs = 2"
  shows "ShortToHost be (word_of_bytes (host_order be bs)) = word_of_bytes bs"
proof (cases be)
  case True
  have "ShortToHost True (word_of_bytes (rev bs)) = (word_of_bytes bs :: u16)"
  proof (rule bit_word_eqI)
    fix n
    assume "n < LENGTH(16)"
    then have q: "n div 8 < 2" "1 - n div 8 < 2" by auto
    have b: "8 * (1 - n div 8) + n mod 8 < 16"
      using mod_less_divisor [of 8 n] by linarith
    have "bit (ShortToHost True (word_of_bytes (rev bs))) n \<longleftrightarrow>
        bit (word_of_bytes (rev bs) :: u16) (8 * (1 - n div 8) + n mod 8)"
      using bit_ShortToHost [OF q(1), of "n mod 8"] div_mod_8 [of n] by simp
    also have "\<dots> \<longleftrightarrow> bit (bs ! (n div 8)) (n mod 8)"
      using q b assms by (simp add: bit_word_of_bytes rev_nth)
    finally show "bit (ShortToHost True (word_of_bytes (rev bs))) n = bit (word_of_bytes bs :: u16) n"
      using q assms \<open>n < LENGTH(16)\<close> by (simp add: bit_word_of_bytes)
  qed
  with True show ?thesis by (simp add: host_order_def)
qed (simp add: host_order_def ShortToHost_def)

lemma WordToHost_twice [simp]: "WordToHost be (WordToHost be w) = w"
proof (cases be)
  case True
  have "bit (WordToHost True (WordToHost True w)) (8 * (n div 8) + n mod 8) \<longleftrightarrow>
      bit w (8 * (n div 8) + n mod 8)" if "n < 32" for n
    using that by (subst bit_WordToHost, simp, simp, subst bit_WordToHost) auto
  then show ?thesis using True by (intro bit_word_eqI) simp
qed (simp add: WordToHost_def)

lemma ShortToHost_twice [simp]: "ShortToHost be (ShortToHost be w) = w"
proof (cases be)
  case True
  have "bit (ShortToHost True (ShortToHost True w)) (8 * (n div 8) + n mod 8) \<longleftrightarrow>
      bit w (8 * (n div 8) + n mod 8)" if "n < 16" for n
    using that by (subst bit_ShortToHost, simp, simp, subst bit_ShortToHost) auto
  then show ?thesis using True by (intro bit_word_eqI) simp
qed (simp add: ShortToHost_def)

lemma bytes_inverse:
  "length bs = 4 \<Longrightarrow> bytes32 (word_of_bytes bs) = bs"
  "length bs = 2 \<Longrightarrow> bytes16 (word_of_bytes bs) = bs"
  by (auto intro!: nth_equalityI bit_word_eqI simp add: bit_bytes32 bit_bytes16 bit_word_of_bytes)

lemma host_order_WordToMachine:
  "host_order be (bytes32 (WordToMachine be w)) = bytes32 w"
proof -
  let ?bs = "host_order be (bytes32 (WordToMachine be w))"
  have "word_of_bytes ?bs = WordToHost be (word_of_bytes (host_order be ?bs))"
    by (rule WordToHost_host_order [symmetric]) simp
  also have "\<dots> = w" by (simp add: WordToMachine_def)
  finally show ?thesis by (metis bytes_inverse(1) length_bytes(2) length_host_order)
qed

lemma host_order_ShortToMachine:
  "host_order be (bytes16 (ShortToMachine be w)) = bytes16 w"
proof -
  let ?bs = "host_order be (bytes16 (ShortToMachine be w))"
  have "word_of_bytes ?bs = ShortToHost be (word_of_bytes (host_order be ?bs))"
    by (rule ShortToHost_host_order [symmetric]) simp
  also have "\<dots> = w" by (simp add: ShortToMachine_def)
  finally show ?thesis by (metis bytes_inverse(2) length_bytes(1) length_host_order)
qed

lemma low_bytes_cases:
  "low_bytes 1 v = [ucast (v AND 0xFF)]"
  "low_bytes 2 v = bytes16 (ucast (v AND 0xFFFF))"
  "low_bytes 4 v = bytes32 v"
proof -
  have "ucast v = (ucast (v AND 0xFF) :: u8)"
    by (rule bit_word_eqI) (simp add: byte_masks bit_simps)
  then show "low_bytes 1 v = [ucast (v AND 0xFF)]"
    by (simp add: low_bytes_def bytes32_def)
  have m: "(0xFFFF :: u32) = mask 16" by (simp add: mask_eq_exp_minus_1)
  have "ucast v = (ucast (ucast (v AND 0xFFFF) :: u16) :: u8)"
    "ucast (drop_bit 8 v) = (ucast (drop_bit 8 (ucast (v AND 0xFFFF) :: u16)) :: u8)"
    unfolding m by (rule bit_word_eqI; simp add: bit_simps)+
  then show "low_bytes 2 v = bytes16 (ucast (v AND 0xFFFF))"
    by (simp add: low_bytes_def bytes32_def bytes16_def)
qed (simp add: low_bytes_def)

lemma length_low_bytes [simp]: "sz \<in> {1, 2, 4} \<Longrightarrow> length (low_bytes sz v) = unat sz"
  by (auto simp add: low_bytes_def)

lemma page_entry_mem: "page_entry (m\<lparr>mainMemory := x\<rparr>) vpn = page_entry m vpn"
  by (cases "tlb m"; cases "pageTable m") (simp_all add: page_entry_def)

lemma phys_span:
  assumes "sz \<in> {1, 2, 4}" and "aligned a sz" and "phys m a = Some p" and "k < unat sz"
  shows "phys m (a + of_nat k) = Some (p + k)"
proof -
  note s = aligned_span [OF assms(1,2,4)]
  have "(a + of_nat k) div PAGE_SIZE = a div PAGE_SIZE"
    by (simp add: word_unat_eq_iff unat_div mmu_sizes s)
  with assms(3) s show ?thesis
    by (auto simp add: phys_def split: option.splits if_splits)
qed

lemma vbytes_slice:
  assumes "mmu_ok m" and "sz \<in> {1, 2, 4}" and "aligned a sz" and "phys m a = Some p"
  shows "vbytes m a sz = slice p (unat sz) (mainMemory m)"
proof (rule nth_equalityI)
  have b: "p + unat sz \<le> length (mainMemory m)"
    using phys_bound [OF assms(2-4)] assms(1) by (simp add: mmu_ok_def)
  then show "length (vbytes m a sz) = length (slice p (unat sz) (mainMemory m))"
    by (simp add: vbytes_def)
  fix k
  assume "k < length (vbytes m a sz)"
  then have "k < unat sz" by (simp add: vbytes_def)
  with b show "vbytes m a sz ! k = slice p (unat sz) (mainMemory m) ! k"
    by (simp add: vbytes_def vmem_def phys_span [OF assms(2-4)])
qed

lemma ReadMem_ok:
  assumes "mmu_ok m" and "sz \<in> {1, 2, 4}" and "translate_exception m a sz False = NO_EXCEPTION"
  obtains m' where "ReadMem be m a sz = Inr (NO_EXCEPTION, Some (load_value sz (vbytes m a sz)), m')"
    and "mmu_ok m'" and "mainMemory m' = mainMemory m" and "phys m' = phys m"
    and "writable m' = writable m"
proof (rule Translate_ok [OF assms(1,2), of a False])
  assume "translate_exception m a sz False \<noteq> NO_EXCEPTION"
  with assms(3) show thesis by simp
next
  fix p m'
  assume t: "Translate m a sz False = Inr (NO_EXCEPTION, Some p, m')" "phys m a = Some (unat p)"
    and m': "mmu_ok m'" "mainMemory m' = mainMemory m" "phys m' = phys m" "writable m' = writable m"
  have al: "aligned a sz" using assms(3) by (simp add: translate_exception_no)
  have b: "unat p + unat sz \<le> length (mainMemory m)"
    using phys_bound [OF assms(2) al t(2)] assms(1) by (simp add: mmu_ok_def)
  note v = vbytes_slice [OF assms(1,2) al t(2)]
  have "ReadMem be m a sz = Inr (NO_EXCEPTION, Some (load_value sz (slice (unat p) (unat sz) (mainMemory m))), m')"
    using assms(2) b m'(2) WordToHost_host_order [of "slice (unat p) 4 (mainMemory m)" be]
      ShortToHost_host_order [of "slice (unat p) 2 (mainMemory m)" be]
    by (auto simp add: ReadMem_def t load_value_def host_load16_def host_load32_def hd_conv_nth slice_def)
  with m' show thesis by (intro that [of m']) (simp_all add: v)
qed

lemma ReadMem_exn:
  assumes "mmu_ok m" and "sz \<in> {1, 2, 4}" and "translate_exception m a sz False \<noteq> NO_EXCEPTION"
  shows "ReadMem be m a sz = Inr (translate_exception m a sz False, None, m)"
  using assms(3) by (cases rule: Translate_ok [OF assms(1,2), of a False]) (auto simp add: ReadMem_def)

lemma WriteMem_exn:
  assumes "mmu_ok m" and "sz \<in> {1, 2, 4}" and "translate_exception m a sz True \<noteq> NO_EXCEPTION"
  shows "WriteMem be m a sz v = Inr (translate_exception m a sz True, m)"
  using assms(3) by (cases rule: Translate_ok [OF assms(1,2), of a True]) (auto simp add: WriteMem_def)

lemma WriteMem_ok:
  assumes "mmu_ok m" and "sz \<in> {1, 2, 4}" and "translate_exception m a sz True = NO_EXCEPTION"
  obtains m' where "WriteMem be m a sz v = Inr (NO_EXCEPTION, m')"
    and "mmu_ok m'" and "mainMemory m' = blit (mainMemory m) (the (phys m a)) (low_bytes sz v)"
    and "phys m' = phys m" and "writable m' = writable m" and "(tlb m' = None) = (tlb m = None)"
proof (rule Translate_ok [OF assms(1,2), of a True])
  assume "translate_exception m a sz True \<noteq> NO_EXCEPTION"
  with assms(3) show thesis by simp
next
  fix p m'
  assume t: "Translate m a sz True = Inr (NO_EXCEPTION, Some p, m')" "phys m a = Some (unat p)"
    and m': "mmu_ok m'" "mainMemory m' = mainMemory m" "phys m' = phys m" "writable m' = writable m"
      "(tlb m' = None) = (tlb m = None)"
  have al: "aligned a sz" using assms(3) by (simp add: translate_exception_no)
  have b: "unat p + unat sz \<le> length (mainMemory m)"
    using phys_bound [OF assms(2) al t(2)] assms(1) by (simp add: mmu_ok_def)
  let ?m = "m'\<lparr>mainMemory := blit (mainMemory m) (unat p) (low_bytes sz v)\<rparr>"
  have one: "(mainMemory m)[unat p := x] = blit (mainMemory m) (unat p) [x]"
    if "unat p < length (mainMemory m)" for x
    using that by (simp add: blit_def upd_conv_take_nth_drop)
  have w: "WriteMem be m a sz v = Inr (NO_EXCEPTION, ?m)"
    using assms(2) b m'(2)
    by (auto simp add: WriteMem_def t host_store16_def host_store32_def low_bytes_cases
        host_order_WordToMachine host_order_ShortToMachine one)
  have pe: "phys ?m = phys m'" "writable ?m = writable m'"
    by (simp_all add: fun_eq_iff phys_def writable_def page_entry_mem)
  show thesis
    using m' b assms(2) by (intro that [OF w]) (simp_all add: pe t mmu_ok_def)
qed

definition frames_distinct :: "mmu \<Rightarrow> bool" where
  "frames_distinct m \<longleftrightarrow> (\<forall>x y p. phys m x = Some p \<longrightarrow> phys m y = Some p \<longrightarrow> x = y)"

definition with_space :: "mmu \<Rightarrow> TranslationEntry list \<Rightarrow> u32 \<Rightarrow> mmu" where
  "with_space m pt n = m\<lparr>pageTable := Some pt, pageTableSize := n\<rparr>"

lemma mainMemory_with_space [simp]: "mainMemory (with_space m pt n) = mainMemory m"
  by (simp add: with_space_def)

lemma in_span_iff:
  assumes "sz \<in> {1, 2, 4}" and "aligned a sz" and "phys m a = Some p" and "frames_distinct m"
    and "phys m x = Some q"
  shows "unat (x - a) < unat sz \<and> q = p + unat (x - a) \<or>
         \<not> unat (x - a) < unat sz \<and> \<not> (p \<le> q \<and> q < p + unat sz)"
proof (cases "unat (x - a) < unat sz")
  case True
  have "a + of_nat (unat (x - a)) = x" by simp
  with phys_span [OF assms(1-3) True] assms(5) True show ?thesis by simp
next
  case False
  have "\<not> (p \<le> q \<and> q < p + unat sz)"
  proof
    assume "p \<le> q \<and> q < p + unat sz"
    then obtain k where k: "k < unat sz" "q = p + k" by (metis add_less_cancel_left le_Suc_ex)
    with phys_span [OF assms(1-3), of k] assms(4,5) have "x = a + of_nat k"
      by (auto simp add: frames_distinct_def)
    then have "unat (x - a) = unat (of_nat k :: u32)" by simp
    also have "\<dots> = k" using k(1) assms(1) by (auto simp add: unat_of_nat)
    finally show False using False k by simp
  qed
  with False show ?thesis by simp
qed

lemma vmem_after_blit:
  assumes "mmu_ok m" and "sz \<in> {1, 2, 4}" and "aligned a sz" and "phys m a = Some p"
    and "frames_distinct m" and "phys m' = phys m"
    and "mainMemory m' = blit (mainMemory m) p bs" and "length bs = unat sz"
  shows "vmem m' = (\<lambda>x. if unat (x - a) < unat sz then Some (bs ! unat (x - a)) else vmem m x)"
proof
  fix x
  have b: "p + length bs \<le> length (mainMemory m)"
    using phys_bound [OF assms(2-4)] assms(1,8) by (simp add: mmu_ok_def)
  show "vmem m' x = (if unat (x - a) < unat sz then Some (bs ! unat (x - a)) else vmem m x)"
  proof (cases "phys m x")
    case None
    have "\<not> unat (x - a) < unat sz"
    proof
      assume k: "unat (x - a) < unat sz"
      have "a + of_nat (unat (x - a)) = x" by simp
      with phys_span [OF assms(2-4) k] None show False by simp
    qed
    with None assms(6) show ?thesis by (simp add: vmem_def)
  next
    case (Some q)
    have "q + 1 \<le> length (mainMemory m)"
      using phys_bound [of 1 x m q] Some assms(1) by (simp add: aligned_def mmu_ok_def)
    then have "mainMemory m' ! q = (if p \<le> q \<and> q < p + length bs then bs ! (q - p) else mainMemory m ! q)"
      using b by (simp add: assms(7) nth_blit)
    with in_span_iff [OF assms(2-5) Some] Some assms(6,8) show ?thesis
      by (auto simp add: vmem_def)
  qed
qed

lemma WriteMem_vmem:
  assumes "mmu_ok m" and "sz \<in> {1, 2, 4}" and "frames_distinct m" and "translate_exception m a sz True = NO_EXCEPTION"
  obtains m' where "WriteMem be m a sz v = Inr (NO_EXCEPTION, m')" and "mmu_ok m'" and "phys m' = phys m" and "writable m' = writable m"
    and "vmem m' = (\<lambda>x. if unat (x - a) < unat sz then Some (low_bytes sz v ! unat (x - a)) else vmem m x)"
proof -
  obtain m' where m': "WriteMem be m a sz v = Inr (NO_EXCEPTION, m')" "mmu_ok m'"
    "mainMemory m' = blit (mainMemory m) (the (phys m a)) (low_bytes sz v)" "phys m' = phys m" "writable m' = writable m"
    using WriteMem_ok [OF assms(1,2,4)] by metis
  from assms(4) obtain p where p: "aligned a sz" "phys m a = Some p"
    by (auto simp add: translate_exception_no)
  have "vmem m' = (\<lambda>x. if unat (x - a) < unat sz then Some (low_bytes sz v ! unat (x - a)) else vmem m x)"
    using m'(3) p assms(2) by (intro vmem_after_blit [OF assms(1,2) p assms(3) m'(4)]) simp_all
  with m' show thesis by (intro that) simp_all
qed

section \<open>Properties of the MMU\<close>

text \<open>C9: On a well-formed MMU, address translation of an access of 1, 2 or 4 bytes never fails
  one of its assertions or leaves a table: it yields exactly the exception the tables call for
  and then leaves the MMU untouched, or the physical address of the page's frame, whose whole
  access lies inside physical memory, with the translation and the protection of every page
  unchanged (only the use and dirty bits move).\<close>

theorem Translate_total:
  assumes "mmu_ok m" and "sz \<in> {1, 2, 4}"
  shows "(translate_exception m a sz w \<noteq> NO_EXCEPTION \<and>
            Translate m a sz w = Inr (translate_exception m a sz w, None, m)) \<or>
         (translate_exception m a sz w = NO_EXCEPTION \<and>
           (\<exists>p m'. Translate m a sz w = Inr (NO_EXCEPTION, Some p, m') \<and>
              phys m a = Some (unat p) \<and> unat p + unat sz \<le> unat MEMORY_SIZE \<and>
              mmu_ok m' \<and> mainMemory m' = mainMemory m \<and> phys m' = phys m \<and> writable m' = writable m))"
proof (cases rule: Translate_ok [OF assms, of a w, case_names exn ok])
  case (ok p m')
  then have "aligned a sz" by (simp add: translate_exception_no)
  from phys_bound [OF assms(2) this ok(3)] ok show ?thesis by simp
qed simp

text \<open>A successful read returns the bytes of the virtual memory at the address, least
  significant first, sign-extended for one byte and zero-extended for two, whatever the byte
  order of the host, and leaves the virtual memory unchanged; a failing one reports the
  translation's exception and changes nothing.\<close>

theorem ReadMem_refines:
  assumes "mmu_ok m" and "sz \<in> {1, 2, 4}"
  shows "if translate_exception m a sz False = NO_EXCEPTION
     then \<exists>m'. ReadMem be m a sz = Inr (NO_EXCEPTION, Some (load_value sz (vbytes m a sz)), m') \<and>
            mmu_ok m' \<and> vmem m' = vmem m
     else ReadMem be m a sz = Inr (translate_exception m a sz False, None, m)"
proof (cases "translate_exception m a sz False = NO_EXCEPTION")
  case True
  obtain m' where "ReadMem be m a sz = Inr (NO_EXCEPTION, Some (load_value sz (vbytes m a sz)), m')"
    "mmu_ok m'" "mainMemory m' = mainMemory m" "phys m' = phys m"
    using ReadMem_ok [OF assms True] by metis
  moreover from this have "vmem m' = vmem m" by (simp add: fun_eq_iff vmem_def)
  ultimately show ?thesis using True by auto
qed (simp add: ReadMem_exn [OF assms])

text \<open>C37: When no two virtual addresses share a physical byte, a successful write changes the
  virtual memory at exactly the bytes it names, to the low-order bytes of the value, whatever
  the byte order of the host.\<close>

theorem WriteMem_refines:
  assumes "mmu_ok m" and "sz \<in> {1, 2, 4}" and "frames_distinct m"
    and "translate_exception m a sz True = NO_EXCEPTION"
  shows "\<exists>m'. WriteMem be m a sz v = Inr (NO_EXCEPTION, m') \<and> mmu_ok m' \<and> phys m' = phys m \<and>
     vmem m' = (\<lambda>x. if unat (x - a) < unat sz then Some (low_bytes sz v ! unat (x - a)) else vmem m x)"
  by (rule WriteMem_vmem [OF assms, of be v], intro exI conjI)

text \<open>C10: Address spaces are isolated. A user write through one page table, successful or not,
  leaves every byte of any other page table whose frames are disjoint from it as it was.\<close>

theorem WriteMem_isolated:
  assumes "mmu_ok m" and "tlb m = None" and "sz \<in> {1, 2, 4}"
    and "\<forall>x y p. phys m x = Some p \<longrightarrow> phys (with_space m pt n) y \<noteq> Some p"
  shows "\<exists>e m'. WriteMem be m a sz v = Inr (e, m') \<and> vmem (with_space m' pt n) = vmem (with_space m pt n)"
proof (cases "translate_exception m a sz True = NO_EXCEPTION")
  case False
  from WriteMem_exn [OF assms(1,3) this] show ?thesis by blast
next
  case True
  obtain m' where m': "WriteMem be m a sz v = Inr (NO_EXCEPTION, m')"
    "mainMemory m' = blit (mainMemory m) (the (phys m a)) (low_bytes sz v)" "tlb m' = None"
    using WriteMem_ok [OF assms(1,3) True] assms(2) by metis
  from True obtain p where p: "aligned a sz" "phys m a = Some p"
    by (auto simp add: translate_exception_no)
  have ph: "phys (with_space m' pt n) = phys (with_space m pt n)"
    using m'(3) assms(2) by (simp add: fun_eq_iff phys_def page_entry_def with_space_def)
  have "vmem (with_space m' pt n) y = vmem (with_space m pt n) y" for y
  proof (cases "phys (with_space m pt n) y")
    case None
    then show ?thesis by (simp add: vmem_def ph)
  next
    case (Some q)
    have q: "q + 1 \<le> length (mainMemory m)" "p + length (low_bytes sz v) \<le> length (mainMemory m)"
      using phys_bound [of 1 y "with_space m pt n" q] Some assms(1,3) phys_bound [OF assms(3) p]
      by (simp_all add: aligned_def mmu_ok_def)
    have "\<not> (p \<le> q \<and> q < p + unat sz)"
      using phys_span [OF assms(3) p, of "q - p"] assms(4) Some
      by (metis add_diff_inverse_nat less_diff_conv2 add.commute not_less)
    with q Some assms(3) show ?thesis
      by (auto simp add: vmem_def ph m'(2) p nth_blit)
  qed
  with m'(1) show ?thesis by blast
qed

text \<open>What was written is read back: after a successful write of 1, 2 or 4 bytes, a read of
  the same size at the same address succeeds and returns the low-order bytes of the value,
  extended; for 4 bytes this is the value itself. Page tables may map a frame twice, and the
  build may be for either byte order.\<close>

theorem Write_Read_roundtrip:
  assumes "mmu_ok m" and "sz \<in> {1, 2, 4}" and "WriteMem be m a sz v = Inr (NO_EXCEPTION, m')"
  shows "\<exists>m''. ReadMem be m' a sz = Inr (NO_EXCEPTION, Some (load_value sz (low_bytes sz v)), m'') \<and>
    mmu_ok m'' \<and> (sz = 4 \<longrightarrow> load_value sz (low_bytes sz v) = v)"
proof -
  have t: "translate_exception m a sz True = NO_EXCEPTION"
    using WriteMem_exn [OF assms(1,2)] assms(3) by force
  from t obtain p where p: "aligned a sz" "phys m a = Some p"
    by (auto simp add: translate_exception_no)
  have m': "mmu_ok m'" "mainMemory m' = blit (mainMemory m) p (low_bytes sz v)" "phys m' = phys m"
    using WriteMem_ok [OF assms(1,2) t, of be v] assms(3) p by auto
  have b: "p + length (low_bytes sz v) \<le> length (mainMemory m)"
    using phys_bound [OF assms(2) p] assms(1,2) by (simp add: mmu_ok_def)
  have "vbytes m' a sz = low_bytes sz v"
    using vbytes_slice [OF m'(1) assms(2) p(1)] p m' b assms(2) by simp
  moreover have "translate_exception m' a sz False = NO_EXCEPTION"
    using p m'(3) by (simp add: translate_exception_no)
  ultimately obtain m'' where
    "ReadMem be m' a sz = Inr (NO_EXCEPTION, Some (load_value sz (low_bytes sz v)), m'')" "mmu_ok m''"
    using ReadMem_ok [OF m'(1) assms(2)] by metis
  moreover have "sz = 4 \<longrightarrow> load_value sz (low_bytes sz v) = v"
    by (simp add: load_value_def low_bytes_def)
  ultimately show ?thesis by blast
qed

subsection \<open>A concrete machine\<close>

text \<open>A page table of two pages: page 0 in frame 3, writable, and page 1 in frame 5, read-only;
  and a second table for another process, with its only page in frame 7.\<close>

definition demo_entry :: "u32 \<Rightarrow> u32 \<Rightarrow> bool \<Rightarrow> TranslationEntry" where
  "demo_entry v p ro = \<lparr>virtualPage = v, physicalPage = p, valid = True, readOnly = ro,
     use = False, dirty = False\<rparr>"

definition demo_mmu :: mmu where
  "demo_mmu = (MMU_new None 0)\<lparr>pageTable := Some [demo_entry 0 3 False, demo_entry 1 5 True],
     pageTableSize := 2\<rparr>"

lemma demo_mmu_ok [simp]: "mmu_ok demo_mmu"
  by (simp add: mmu_ok_def demo_mmu_def MMU_new_def)

lemma word_less_2: "(x :: u32) < 2 \<longleftrightarrow> x = 0 \<or> x = 1"
  by (auto simp add: word_less_nat_alt word_unat_eq_iff)

lemma demo_phys:
  "phys demo_mmu a = (if a div 128 = 0 then Some (384 + unat a mod 128)
     else if a div 128 = 1 then Some (640 + unat a mod 128) else None)"
  by (auto simp add: phys_def page_entry_def demo_mmu_def MMU_new_def demo_entry_def mmu_sizes
      word_less_2)

lemma demo_phys_other:
  "phys (with_space demo_mmu [demo_entry 0 7 False] 1) a =
     (if a div 128 = 0 then Some (896 + unat a mod 128) else None)"
  by (auto simp add: phys_def page_entry_def demo_mmu_def MMU_new_def demo_entry_def mmu_sizes
      with_space_def word_less_nat_alt word_unat_eq_iff)

lemma demo_frames_distinct [simp]: "frames_distinct demo_mmu"
proof -
  have "x = y" if "x div 128 = y div 128" "unat x mod 128 = unat y mod 128" for x y :: u32
  proof -
    from that(1) have "unat x div 128 = unat y div 128" by (simp add: word_unat_eq_iff unat_div)
    with that(2) have "unat x = unat y" by (metis div_mod_decomp)
    then show ?thesis by (simp add: word_unat_eq_iff)
  qed
  moreover have "x div 128 = (if p < 512 then 0 else 1) \<and> unat x mod 128 = (if p < 512 then p - 384 else p - 640)"
    if "phys demo_mmu x = Some p" for x p
  proof (cases "x div 128 = 0")
    case True
    then have "p = 384 + unat x mod 128" using that by (simp add: demo_phys)
    moreover have "unat x mod 128 < 128" by simp
    ultimately show ?thesis using True by auto
  next
    case False
    then have "x div 128 = 1" "p = 640 + unat x mod 128"
      using that by (simp_all add: demo_phys split: if_splits)
    then show ?thesis by simp
  qed
  ultimately show ?thesis unfolding frames_distinct_def by metis
qed

lemma demo_writable: "writable demo_mmu 8"
  by (simp add: writable_def page_entry_def demo_mmu_def MMU_new_def demo_entry_def mmu_sizes)

lemma demo_tlb [simp]: "tlb demo_mmu = None"
  by (simp add: demo_mmu_def MMU_new_def)

lemma demo_write_ok: "translate_exception demo_mmu 8 4 True = NO_EXCEPTION"
  by (simp add: translate_exception_no demo_phys aligned_def demo_writable)

theorem Translate_total_witness:
  "\<exists>p m'. Translate demo_mmu 8 4 True = Inr (NO_EXCEPTION, Some p, m') \<and> unat p = 392"
  using Translate_total [of demo_mmu 4 8 True] by (auto simp add: demo_write_ok demo_phys)

theorem WriteMem_refines_witness:
  "\<exists>m'. WriteMem True demo_mmu 8 4 0xA1B2C3D4 = Inr (NO_EXCEPTION, m') \<and> vmem m' 9 = Some 0xC3"
  using WriteMem_refines [of demo_mmu 4 8 True "0xA1B2C3D4"] demo_write_ok
  by (auto simp add: low_bytes_def bytes32_def)

theorem WriteMem_isolated_witness:
  "\<exists>e m'. WriteMem False demo_mmu 8 4 7 = Inr (e, m') \<and>
     vmem (with_space m' [demo_entry 0 7 False] 1) = vmem (with_space demo_mmu [demo_entry 0 7 False] 1)"
proof (rule WriteMem_isolated)
  have "384 + unat x mod 128 \<noteq> 896 + unat y mod 128" "640 + unat x mod 128 \<noteq> 896 + unat y mod 128"
    for x y :: u32
    using mod_less_divisor [of 128 "unat x"] by linarith+
  then show "\<forall>x y p. phys demo_mmu x = Some p \<longrightarrow>
      phys (with_space demo_mmu [demo_entry 0 7 False] 1) y \<noteq> Some p"
    by (auto simp add: demo_phys demo_phys_other)
qed simp_all

theorem Write_Read_roundtrip_witness:
  "\<exists>m' m''. WriteMem True demo_mmu 8 4 0xA1B2C3D4 = Inr (NO_EXCEPTION, m') \<and>
     ReadMem True m' 8 4 = Inr (NO_EXCEPTION, Some 0xA1B2C3D4, m'')"
proof -
  obtain m' where m': "WriteMem True demo_mmu 8 4 0xA1B2C3D4 = Inr (NO_EXCEPTION, m')"
    using WriteMem_ok [OF demo_mmu_ok _ demo_write_ok, of True "0xA1B2C3D4"] by auto
  from Write_Read_roundtrip [OF demo_mmu_ok _ this] m' show ?thesis by auto
qed

end
