(* ===== verification/Machine_Mult.thy ===== *)
theory Machine_Mult
  imports Nachos_Prelude
begin

text \<open>
  The multiplication routine of the simulated processor, the static function \<open>Mult\<close> of
  \<open>machine/mips_sim.cc\<close>. \<open>mult_loop n\<close> is its \<open>for\<close> loop with \<open>n\<close>
  iterations left; it returns the values of \<open>hi\<close> and \<open>lo\<close>. The signed multiplier
  is shifted right arithmetically, as an \<open>int\<close> is.
\<close>

section \<open>Multiplication\<close>

fun mult_loop :: "nat \<Rightarrow> u32 \<Rightarrow> u32 \<Rightarrow> u32 \<Rightarrow> u32 \<Rightarrow> u32 \<Rightarrow> u32 \<times> u32" where
  "mult_loop 0 a bLo bHi lo hi = (hi, lo)"
| "mult_loop (Suc n) a bLo bHi lo hi =
     (let bit_set = a AND 1 \<noteq> 0;
          lo' = (if bit_set then lo + bLo else lo);
          hi' = (if bit_set then (if lo' < bLo then hi + 1 else hi) + bHi else hi) in
      if bit_set \<and> a AND 0xFFFFFFFE = 0 then (hi', lo')
      else
        let bHi' = push_bit 1 bHi;
            bHi'' = (if bLo AND 0x80000000 \<noteq> 0 then bHi' OR 1 else bHi') in
        mult_loop n (signed_drop_bit 1 a) (push_bit 1 bLo) bHi'' lo' hi')"

definition Mult :: "u32 \<Rightarrow> u32 \<Rightarrow> bool \<Rightarrow> u32 \<times> u32" where
  "Mult a b signedArith =
    (if a = 0 \<or> b = 0 then (0, 0)
     else
       let nega = (signedArith \<and> sint a < 0); negb = (signedArith \<and> sint b < 0);
           negative = (nega \<noteq> negb);
           a' = (if nega then - a else a); b' = (if negb then - b else b);
           (hi, lo) = mult_loop 32 a' b' 0 0 0 in
       if negative then
         let hi' = NOT hi; lo' = NOT lo + 1 in (if lo' = 0 then hi' + 1 else hi', lo')
       else (hi, lo))"

definition dword :: "u32 \<Rightarrow> u32 \<Rightarrow> u64" where
  "dword hi lo = of_nat (unat hi) * 4294967296 + of_nat (unat lo)"

lemma hi_mod: "of_nat (x mod 4294967296) * 4294967296 = (of_nat x * 4294967296 :: u64)"
proof -
  define q r where "q = x div 4294967296" and "r = x mod 4294967296"
  have x: "x = 4294967296 * q + r" by (simp add: q_def r_def)
  have "of_nat x * 4294967296 = (of_nat q * (4294967296 * 4294967296) + of_nat r * 4294967296 :: u64)"
    by (simp add: x algebra_simps)
  also have "(4294967296 * 4294967296 :: u64) = 2 ^ LENGTH(64)" by simp
  also have "of_nat q * 2 ^ LENGTH(64) + of_nat r * 4294967296 = (of_nat r * 4294967296 :: u64)"
    by (simp only: word_pow_0 mult_zero_right add_0_left)
  finally show ?thesis by (simp add: r_def)
qed

lemma dword_add:
  "dword ((if lo + bLo < bLo then hi + 1 else hi) + bHi) (lo + bLo) = dword hi lo + dword bHi bLo"
proof -
  let ?c = "(if lo + bLo < bLo then 1 else 0) :: nat"
  have lo: "unat (lo + bLo) = (unat lo + unat bLo) mod 4294967296" by (rule unat_add32)
  have b: "unat lo < 4294967296" "unat bLo < 4294967296" by (rule unat_less32)+
  have c: "unat (lo + bLo) + ?c * 4294967296 = unat lo + unat bLo"
    using b by (auto simp add: word_less_nat_alt lo mod_if)
  have hi: "unat ((if lo + bLo < bLo then hi + 1 else hi) + bHi) = (unat hi + ?c + unat bHi) mod 4294967296"
    by (simp add: unat_add32 mod_simps)
  have "dword ((if lo + bLo < bLo then hi + 1 else hi) + bHi) (lo + bLo)
      = of_nat (unat hi + ?c + unat bHi) * 4294967296 + of_nat (unat (lo + bLo))"
    by (simp only: dword_def hi hi_mod)
  also have "\<dots> = of_nat (unat hi + unat bHi) * 4294967296 + of_nat (unat (lo + bLo) + ?c * 4294967296)"
    by (simp add: algebra_simps)
  also have "\<dots> = dword hi lo + dword bHi bLo"
    by (simp only: c) (simp add: dword_def algebra_simps)
  finally show ?thesis .
qed

lemma push_or_1: "push_bit 1 (w :: u32) OR 1 = 2 * w + 1"
  by (simp add: or_one_eq push_bit_eq_mult mult.commute)

lemma dword_double:
  "dword (if bLo AND 0x80000000 \<noteq> 0 then push_bit 1 bHi OR 1 else push_bit 1 bHi) (push_bit 1 bLo)
     = 2 * dword bHi bLo"
proof -
  let ?c = "(if bLo AND 0x80000000 \<noteq> 0 then 1 else 0) :: nat"
  have b: "unat bLo < 4294967296" by (rule unat_less32)
  have p: "push_bit 1 w = 2 * w" for w :: u32 by (simp add: push_bit_eq_mult mult.commute)
  have c: "unat (push_bit 1 bLo) + ?c * 4294967296 = 2 * unat bLo"
    using b by (auto simp add: p unat_mult32 mod_if sign_bit_iff)
  have hi: "unat (if bLo AND 0x80000000 \<noteq> 0 then push_bit 1 bHi OR 1 else push_bit 1 bHi)
      = (2 * unat bHi + ?c) mod 4294967296"
    unfolding push_or_1 unfolding p by (simp add: unat_add32 unat_mult32 mod_simps)
  have "dword (if bLo AND 0x80000000 \<noteq> 0 then push_bit 1 bHi OR 1 else push_bit 1 bHi) (push_bit 1 bLo)
      = of_nat (2 * unat bHi + ?c) * 4294967296 + of_nat (unat (push_bit 1 bLo))"
    by (simp only: dword_def hi hi_mod)
  also have "\<dots> = of_nat (2 * unat bHi) * 4294967296 + of_nat (unat (push_bit 1 bLo) + ?c * 4294967296)"
    by (simp add: algebra_simps)
  also have "\<dots> = 2 * dword bHi bLo"
    by (simp only: c) (simp add: dword_def algebra_simps)
  finally show ?thesis .
qed

lemma take_signed_drop: "n \<le> 31 \<Longrightarrow> take_bit n (signed_drop_bit 1 a) = take_bit n (drop_bit 1 (a :: u32))"
  by (rule bit_word_eqI) (auto simp add: bit_simps)

definition low_num :: "nat \<Rightarrow> u32 \<Rightarrow> nat" where
  "low_num n a = unat a mod 2 ^ n"

lemma odd_iff: "(a :: u32) AND 1 \<noteq> 0 \<longleftrightarrow> odd (unat a)"
proof -
  have "odd a \<longleftrightarrow> odd (unat a)" by (simp add: bit_unsigned_iff flip: bit_0)
  then show ?thesis by (simp add: and_one_eq mod_2_eq_odd)
qed

lemma low_num_Suc:
  assumes "n \<le> 31"
  shows "low_num (Suc n) a = (if a AND 1 \<noteq> 0 then 1 else 0) + 2 * low_num n (signed_drop_bit 1 a)"
proof -
  have "unat (signed_drop_bit 1 a) mod 2 ^ n = unat (take_bit n (signed_drop_bit 1 a))"
    unfolding unsigned_take_bit_eq by (rule take_bit_eq_mod [symmetric])
  also have "\<dots> = unat a div 2 mod 2 ^ n"
    unfolding take_signed_drop [OF assms] unsigned_take_bit_eq
    by (simp add: take_bit_eq_mod unat_drop_bit_eq drop_bit_eq_div unat_div)
  finally show ?thesis
    by (simp add: low_num_def odd_iff mod_mult2_eq odd_iff_mod_2_eq_one)
qed

lemma low_num_last:
  assumes "a AND 1 \<noteq> 0" and "a AND 0xFFFFFFFE = 0"
  shows "low_num (Suc n) a = 1"
proof -
  have "(0xFFFFFFFE :: u32) OR 1 = - 1" by simp
  then have "a = (a AND 0xFFFFFFFE) OR (a AND 1)"
    by (simp only: bit.conj_disj_distrib [symmetric] and.right_neutral)
  with assms(2) have "a = a AND 1" by simp
  with assms(1) have "a = 1" by (simp add: and_one_eq split: if_splits)
  then show ?thesis by (simp add: low_num_def)
qed

lemma mult_loop_product:
  "n \<le> 32 \<Longrightarrow> (case mult_loop n a bLo bHi lo hi of (h, l) \<Rightarrow> dword h l) =
     dword hi lo + of_nat (low_num n a) * dword bHi bLo"
proof (induction n arbitrary: a bLo bHi lo hi)
  case 0
  then show ?case by (simp add: low_num_def)
next
  case (Suc n)
  let ?set = "a AND 1 \<noteq> 0"
  define lo' where "lo' = (if ?set then lo + bLo else lo)"
  define hi' where "hi' = (if ?set then (if lo' < bLo then hi + 1 else hi) + bHi else hi)"
  define bHi' where "bHi' = (if bLo AND 0x80000000 \<noteq> 0 then push_bit 1 bHi OR 1 else push_bit 1 bHi)"
  have acc: "dword hi' lo' = dword hi lo + (if ?set then dword bHi bLo else 0)"
    using dword_add [of lo bLo hi bHi] by (simp add: lo'_def hi'_def)
  show ?case
  proof (cases "?set \<and> a AND 0xFFFFFFFE = 0")
    case True
    then have "mult_loop (Suc n) a bLo bHi lo hi = (hi', lo')"
      by (simp add: Let_def lo'_def hi'_def)
    with True acc show ?thesis by (simp add: low_num_last)
  next
    case False
    then have "mult_loop (Suc n) a bLo bHi lo hi = mult_loop n (signed_drop_bit 1 a) (push_bit 1 bLo) bHi' lo' hi'"
      unfolding mult_loop.simps Let_def lo'_def [symmetric] hi'_def [symmetric] bHi'_def [symmetric]
      by (simp only: if_False)
    then have "(case mult_loop (Suc n) a bLo bHi lo hi of (h, l) \<Rightarrow> dword h l) =
        dword hi' lo' + of_nat (low_num n (signed_drop_bit 1 a)) * dword bHi' (push_bit 1 bLo)"
      using Suc by simp
    also have "dword bHi' (push_bit 1 bLo) = 2 * dword bHi bLo"
      unfolding bHi'_def by (rule dword_double)
    also have "dword hi' lo' + of_nat (low_num n (signed_drop_bit 1 a)) * (2 * dword bHi bLo) =
        dword hi lo + of_nat (low_num (Suc n) a) * dword bHi bLo"
      using Suc.prems by (simp only: acc low_num_Suc) (simp add: algebra_simps)
    finally show ?thesis .
  qed
qed

lemma mult_loop_32:
  assumes "mult_loop 32 a b 0 0 0 = (h, l)"
  shows "dword h l = of_nat (unat a * unat b)"
proof -
  have "low_num 32 a = unat a" using unat_less32 [of a] by (simp add: low_num_def)
  with mult_loop_product [of 32 a b 0 0 0] assms show ?thesis by (simp add: dword_def)
qed

lemma dword_0 [simp]: "dword 0 0 = 0"
  by (simp add: dword_def)

lemma dword_neg: "dword (if NOT lo + 1 = 0 then NOT hi + 1 else NOT hi) (NOT lo + 1) = - dword hi lo"
proof -
  have n: "NOT lo + 1 = - lo" "NOT hi + 1 = - hi" by (simp_all only: minus_eq_not_plus_1)
  have "dword (if - lo = 0 then - hi else NOT hi) (- lo) + dword hi lo = 0"
  proof (cases "lo = 0")
    case True
    then show ?thesis using dword_add [of 0 0 "- hi" hi] by simp
  next
    case False
    then have "0 < lo" by (simp add: word_gt_0)
    with False show ?thesis using dword_add [of "- lo" lo "NOT hi" hi] by (simp add: n)
  qed
  then show ?thesis by (simp only: n) (simp add: eq_neg_iff_add_eq_0)
qed

lemma unat_magnitude: "int (unat (if sint a < 0 then - a else a)) = \<bar>sint (a :: u32)\<bar>"
proof (cases "sint a < 0")
  case True
  then have a: "unat a \<noteq> 0" by (auto simp add: sint_cases32 split: if_splits)
  have "(unat a + unat (- a)) mod 4294967296 = 0"
    by (simp flip: unat_add32)
  moreover have "unat a + unat (- a) < 2 * 4294967296"
    using unat_less32 [of a] unat_less32 [of "- a"] by linarith
  ultimately have "unat a + unat (- a) = 4294967296"
    using a by (auto simp add: mod_eq_0_iff_dvd elim!: dvdE)
  then have "int (unat (- a)) = 4294967296 - int (unat a)" by linarith
  with True show ?thesis by (auto simp add: sint_cases32 split: if_splits)
next
  case False
  have "unat a < 2147483648"
  proof (rule ccontr)
    assume "\<not> unat a < 2147483648"
    then have "sint a = int (unat a) - 4294967296" by (simp add: sint_cases32)
    with False unat_less32 [of a] show False by linarith
  qed
  then have "sint a = int (unat a)" by (simp add: sint_cases32)
  with False show ?thesis by simp
qed

lemma unat_dword: "unat (dword hi lo) = unat hi * 4294967296 + unat lo"
proof -
  have "unat hi * 4294967296 + unat lo < 2 ^ 64"
    using unat_less32 [of hi] unat_less32 [of lo] by simp
  then have "unat (of_nat (unat hi * 4294967296 + unat lo) :: u64) = unat hi * 4294967296 + unat lo"
    by (subst unat_of_nat) simp
  then show ?thesis by (simp add: dword_def)
qed

section \<open>Correctness\<close>

text \<open>C35: The shift-and-add multiplication computes the exact double-word product: in signed mode
  the pair of words is the two's-complement 64-bit product of the operands, the most negative
  one included, although its early exit and its arithmetic shift of the multiplier look at a
  negated operand.\<close>

theorem Mult_signed:
  "(case Mult a b True of (hi, lo) \<Rightarrow> dword hi lo) = of_int (sint a * sint b)"
proof (cases "a = 0 \<or> b = 0")
  case True
  then show ?thesis by (auto simp add: Mult_def)
next
  case False
  define a' b' where "a' = (if sint a < 0 then - a else a)" and "b' = (if sint b < 0 then - b else b)"
  obtain h l where hl: "mult_loop 32 a' b' 0 0 0 = (h, l)" by (metis surj_pair)
  have ab: "int (unat a') = \<bar>sint a\<bar>" "int (unat b') = \<bar>sint b\<bar>"
    unfolding a'_def b'_def by (rule unat_magnitude)+
  have "dword h l = of_int (int (unat a' * unat b'))"
    using mult_loop_32 [OF hl] by simp
  then have d: "dword h l = of_int (\<bar>sint a\<bar> * \<bar>sint b\<bar>)"
    by (simp only: of_nat_mult ab)
  show ?thesis
    using False hl d
    by (simp add: Mult_def Let_def dword_neg a'_def [symmetric] b'_def [symmetric] abs_if)
qed

text \<open>In unsigned mode the pair of words is the exact product of the operands as unsigned
  numbers.\<close>

theorem Mult_unsigned:
  "(case Mult a b False of (hi, lo) \<Rightarrow> unat hi * 2 ^ 32 + unat lo) = unat a * unat b"
proof (cases "a = 0 \<or> b = 0")
  case True
  then show ?thesis by (auto simp add: Mult_def)
next
  case False
  obtain h l where hl: "mult_loop 32 a b 0 0 0 = (h, l)" by (metis surj_pair)
  have "unat a * unat b < 2 ^ 32 * 2 ^ 32"
    using unat_less32 [of a] unat_less32 [of b] by (intro mult_strict_mono) simp_all
  then have "unat (dword h l) = unat a * unat b"
    by (simp add: mult_loop_32 [OF hl] unat_of_nat del: of_nat_mult)
  with False hl show ?thesis by (simp add: Mult_def unat_dword)
qed
end
