(* ===== verification/Machine_Cpu.thy ===== *)
theory Machine_Cpu
  imports Machine_Encoding Machine_Mmu Machine_Mult "HOL-Library.Signed_Division"
begin

text \<open>
  The simulated MIPS processor: \<open>machine/machine.cc\<close>, \<open>machine/machine.hh\<close> and
  \<open>machine/mips_sim.cc\<close>.

  The registers are 32-bit words: C++ \<open>int\<close> arithmetic wraps (the overflow tests of the
  instruction set rely on it) and signed comparisons go through \<open>sint\<close>. The kernel is outside
  the machine: its exception handlers are values of a type \<open>'h\<close>, run by the argument
  \<open>run\<close> on the machine state, whose last field \<open>kernel\<close> is the kernel's own state.
  The field \<open>status\<close> is the one of the interrupt hardware that the CPU sets.
\<close>

section \<open>State\<close>

definition STACK_REG :: nat where "STACK_REG = 29"
definition RET_ADDR_REG :: nat where "RET_ADDR_REG = 31"
definition HI_REG :: nat where "HI_REG = 32"
definition LO_REG :: nat where "LO_REG = 33"
definition PC_REG :: nat where "PC_REG = 34"
definition NEXT_PC_REG :: nat where "NEXT_PC_REG = 35"
definition PREV_PC_REG :: nat where "PREV_PC_REG = 36"
definition LOAD_REG :: nat where "LOAD_REG = 37"
definition LOAD_VALUE_REG :: nat where "LOAD_VALUE_REG = 38"
definition BAD_VADDR_REG :: nat where "BAD_VADDR_REG = 39"
definition NUM_GP_REGS :: nat where "NUM_GP_REGS = 32"
definition NUM_TOTAL_REGS :: nat where "NUM_TOTAL_REGS = 40"
definition NUM_EXCEPTION_TYPES :: nat where "NUM_EXCEPTION_TYPES = 8"

lemmas reg_nums = STACK_REG_def RET_ADDR_REG_def HI_REG_def LO_REG_def PC_REG_def NEXT_PC_REG_def
  PREV_PC_REG_def LOAD_REG_def LOAD_VALUE_REG_def BAD_VADDR_REG_def NUM_GP_REGS_def NUM_TOTAL_REGS_def

record ('h, 'k) machine =
  registers :: "u32 list"
  m_mmu :: mmu
  handlers :: "'h option list"
  status :: MachineStatus
  kernel :: 'k

type_synonym ('h, 'k) run = "'h \<Rightarrow> ExceptionType \<Rightarrow> ('h, 'k) machine \<Rightarrow> ('h, 'k) machine res"

fun exc_num :: "ExceptionType \<Rightarrow> nat" where
  "exc_num NO_EXCEPTION = 0"
| "exc_num SYSCALL_EXCEPTION = 1"
| "exc_num PAGE_FAULT_EXCEPTION = 2"
| "exc_num READ_ONLY_EXCEPTION = 3"
| "exc_num BUS_ERROR_EXCEPTION = 4"
| "exc_num ADDRESS_ERROR_EXCEPTION = 5"
| "exc_num OVERFLOW_EXCEPTION = 6"
| "exc_num ILLEGAL_INSTR_EXCEPTION = 7"

section \<open>Registers and exceptions\<close>

definition CheckEndian :: "bool \<Rightarrow> 'a res \<Rightarrow> 'a res" where
  "CheckEndian be k = (let intWord = word_of_bytes (host_order be [1, 2, 3, 4]) :: u32 in
     if be then ASSERT (intWord = 0x01020304) k else ASSERT (intWord = 0x04030201) k)"

definition Machine_new :: "bool \<Rightarrow> mmu \<Rightarrow> 'k \<Rightarrow> ('h, 'k) machine res" where
  "Machine_new be mu k = CheckEndian be (Inr
     \<lparr>registers = replicate NUM_TOTAL_REGS 0, m_mmu = mu,
      handlers = replicate NUM_EXCEPTION_TYPES None, status = SYSTEM_MODE, kernel = k\<rparr>)"

definition ReadRegister :: "('h, 'k) machine \<Rightarrow> nat \<Rightarrow> u32 res" where
  "ReadRegister m num = ASSERT (num < NUM_TOTAL_REGS) (aget (registers m) num)"

definition WriteRegister :: "('h, 'k) machine \<Rightarrow> nat \<Rightarrow> u32 \<Rightarrow> ('h, 'k) machine res" where
  "WriteRegister m num val = ASSERT (num < NUM_TOTAL_REGS)
     (if num \<noteq> 0 then bindR (aset (registers m) num val) (\<lambda>rs. Inr (m\<lparr>registers := rs\<rparr>)) else Inr m)"

definition DelayedLoad :: "u32 \<Rightarrow> u32 \<Rightarrow> ('h, 'k) machine \<Rightarrow> ('h, 'k) machine res" where
  "DelayedLoad nextReg nextValue m =
     bindR (aget (registers m) LOAD_REG) (\<lambda>lr.
     bindR (aget (registers m) LOAD_VALUE_REG) (\<lambda>lv.
     bindR (aset (registers m) (unat lr) lv) (\<lambda>rs.
       Inr (m\<lparr>registers := rs[LOAD_REG := nextReg, LOAD_VALUE_REG := nextValue, 0 := 0]\<rparr>))))"

definition RaiseException ::
  "('h, 'k) run \<Rightarrow> ExceptionType \<Rightarrow> u32 \<Rightarrow> ('h, 'k) machine \<Rightarrow> ('h, 'k) machine res" where
  "RaiseException run et badVAddr m =
     bindR (aget (handlers m) (exc_num et)) (\<lambda>h.
     case h of None \<Rightarrow> Inl AssertFail | Some handler \<Rightarrow>
     bindR (aset (registers m) BAD_VADDR_REG badVAddr) (\<lambda>rs.
     bindR (DelayedLoad 0 0 (m\<lparr>registers := rs\<rparr>)) (\<lambda>m.
     bindR (run handler et (m\<lparr>status := SYSTEM_MODE\<rparr>)) (\<lambda>m.
       Inr (m\<lparr>status := USER_MODE\<rparr>)))))"

definition SetHandler :: "ExceptionType \<Rightarrow> 'h option \<Rightarrow> ('h, 'k) machine \<Rightarrow> ('h, 'k) machine res" where
  "SetHandler et handler m = ASSERT (handler \<noteq> None)
     (bindR (aset (handlers m) (exc_num et) handler) (\<lambda>hs. Inr (m\<lparr>handlers := hs\<rparr>)))"

definition Machine_ReadMem ::
  "('h, 'k) run \<Rightarrow> bool \<Rightarrow> u32 \<Rightarrow> u32 \<Rightarrow> ('h, 'k) machine \<Rightarrow> (u32 option \<times> ('h, 'k) machine) res" where
  "Machine_ReadMem run be addr sz m =
     bindR (ReadMem be (m_mmu m) addr sz) (\<lambda>(e, v, mu).
       if e \<noteq> NO_EXCEPTION then
         bindR (RaiseException run e addr (m\<lparr>m_mmu := mu\<rparr>)) (\<lambda>m. Inr (None, m))
       else bindR (need v) (\<lambda>v. Inr (Some v, m\<lparr>m_mmu := mu\<rparr>)))"

definition Machine_WriteMem ::
  "('h, 'k) run \<Rightarrow> bool \<Rightarrow> u32 \<Rightarrow> u32 \<Rightarrow> u32 \<Rightarrow> ('h, 'k) machine \<Rightarrow> (bool \<times> ('h, 'k) machine) res" where
  "Machine_WriteMem run be addr sz val m =
     bindR (WriteMem be (m_mmu m) addr sz val) (\<lambda>(e, mu).
       if e \<noteq> NO_EXCEPTION then
         bindR (RaiseException run e addr (m\<lparr>m_mmu := mu\<rparr>)) (\<lambda>m. Inr (False, m))
       else Inr (True, m\<lparr>m_mmu := mu\<rparr>))"

definition FetchInstruction ::
  "('h, 'k) run \<Rightarrow> bool \<Rightarrow> ('h, 'k) machine \<Rightarrow> (Instruction option \<times> ('h, 'k) machine) res" where
  "FetchInstruction run be m =
     bindR (aget (registers m) PC_REG) (\<lambda>pc.
     bindR (Machine_ReadMem run be pc 4 m) (\<lambda>(raw, m).
       case raw of None \<Rightarrow> Inr (None, m)
       | Some raw \<Rightarrow> Inr (Some (Instruction_Decode raw), m)))"

section \<open>Execution of one instruction\<close>

text \<open>
  The body of the \<open>switch\<close> of \<open>ExecInstruction\<close> ends in a \<open>return\<close>, after
  an exception has been raised and handled, or in a \<open>break\<close> with the delayed load and the
  next program counter to install. The register fields of a decoded instruction are 5 bits
  wide, so the guard of \<open>ExecInstruction\<close> never fails on one.
\<close>

datatype ('h, 'k) flow =
    Return "('h, 'k) machine"
  | Break "('h, 'k) machine" u32 u32 u32

definition setR :: "('h, 'k) machine \<Rightarrow> nat \<Rightarrow> u32 \<Rightarrow> ('h, 'k) machine" where
  "setR m i v = m\<lparr>registers := (registers m)[i := v]\<rparr>"

definition raise ::
  "('h, 'k) run \<Rightarrow> ExceptionType \<Rightarrow> u32 \<Rightarrow> ('h, 'k) machine \<Rightarrow> ('h, 'k) flow res" where
  "raise run et bad m = bindR (RaiseException run et bad m) (\<lambda>m. Inr (Return m))"

definition load ::
  "('h, 'k) run \<Rightarrow> bool \<Rightarrow> u32 \<Rightarrow> u32 \<Rightarrow> ('h, 'k) machine \<Rightarrow>
   (u32 \<Rightarrow> ('h, 'k) machine \<Rightarrow> ('h, 'k) flow res) \<Rightarrow> ('h, 'k) flow res" where
  "load run be addr sz m k =
     bindR (Machine_ReadMem run be addr sz m) (\<lambda>(v, m).
       case v of None \<Rightarrow> Inr (Return m) | Some v \<Rightarrow> k v m)"

definition store ::
  "('h, 'k) run \<Rightarrow> bool \<Rightarrow> u32 \<Rightarrow> u32 \<Rightarrow> u32 \<Rightarrow> ('h, 'k) machine \<Rightarrow>
   (('h, 'k) machine \<Rightarrow> ('h, 'k) flow res) \<Rightarrow> ('h, 'k) flow res" where
  "store run be addr sz v m k =
     bindR (Machine_WriteMem run be addr sz v m) (\<lambda>(ok, m).
       if \<not> ok then Inr (Return m) else k m)"

definition lwl_value :: "u32 \<Rightarrow> u32 \<Rightarrow> u32 \<Rightarrow> u32" where
  "lwl_value tmp nlv val =
    (if tmp AND 0x3 = 0 then val
     else if tmp AND 0x3 = 1 then (nlv AND 0xFF) OR push_bit 8 val
     else if tmp AND 0x3 = 2 then (nlv AND 0xFFFF) OR push_bit 16 val
     else (nlv AND 0xFFFFFF) OR push_bit 24 val)"

definition lwr_value :: "u32 \<Rightarrow> u32 \<Rightarrow> u32 \<Rightarrow> u32" where
  "lwr_value tmp nlv val =
    (if tmp AND 0x3 = 0 then (nlv AND 0xFFFFFF00) OR (signed_drop_bit 24 val AND 0xFF)
     else if tmp AND 0x3 = 1 then (nlv AND 0xFFFF0000) OR (signed_drop_bit 16 val AND 0xFFFF)
     else if tmp AND 0x3 = 2 then (nlv AND 0xFF000000) OR (signed_drop_bit 8 val AND 0xFFFFFF)
     else val)"

definition swl_value :: "u32 \<Rightarrow> u32 \<Rightarrow> u32 \<Rightarrow> u32" where
  "swl_value tmp val rt =
    (if tmp AND 0x3 = 0 then rt
     else if tmp AND 0x3 = 1 then (val AND 0xFF000000) OR (signed_drop_bit 8 rt AND 0xFFFFFF)
     else if tmp AND 0x3 = 2 then (val AND 0xFFFF0000) OR (signed_drop_bit 16 rt AND 0xFFFF)
     else (val AND 0xFFFFFF00) OR (signed_drop_bit 24 rt AND 0xFF))"

definition swr_value :: "u32 \<Rightarrow> u32 \<Rightarrow> u32 \<Rightarrow> u32" where
  "swr_value tmp val rt =
    (if tmp AND 0x3 = 0 then (val AND 0xFFFFFF) OR push_bit 24 rt
     else if tmp AND 0x3 = 1 then (val AND 0xFFFF) OR push_bit 16 rt
     else if tmp AND 0x3 = 2 then (val AND 0xFF) OR push_bit 8 rt
     else rt)"

definition exec_switch ::
  "('h, 'k) run \<Rightarrow> bool \<Rightarrow> Instruction \<Rightarrow> ('h, 'k) machine \<Rightarrow> ('h, 'k) flow res" where
  "exec_switch run be instr m =
    (let rs = i_rs instr; rt = i_rt instr; rd = i_rd instr; ext = i_extra instr;
         rsv = registers m ! rs; rtv = registers m ! rt;
         nextPC = registers m ! NEXT_PC_REG; pcAfter = nextPC + 4 in
    case i_opCode instr of
      OP_ADD \<Rightarrow> (let sum = rsv + rtv in if (rsv XOR rtv) AND SIGN_BIT = 0 \<and> (rsv XOR sum) AND SIGN_BIT \<noteq> 0
       then raise run OVERFLOW_EXCEPTION 0 m else Inr (Break (setR m rd (sum)) 0 0 pcAfter))
    | OP_ADDI \<Rightarrow> (let sum = rsv + ext in if (rsv XOR ext) AND SIGN_BIT = 0 \<and> (ext XOR sum) AND SIGN_BIT \<noteq> 0
       then raise run OVERFLOW_EXCEPTION 0 m else Inr (Break (setR m rt (sum)) 0 0 pcAfter))
    | OP_ADDIU \<Rightarrow> Inr (Break (setR m rt (rsv + ext)) 0 0 pcAfter)
    | OP_ADDU \<Rightarrow> Inr (Break (setR m rd (rsv + rtv)) 0 0 pcAfter)
    | OP_AND \<Rightarrow> Inr (Break (setR m rd (rsv AND rtv)) 0 0 pcAfter)
    | OP_ANDI \<Rightarrow> Inr (Break (setR m rt (rsv AND (ext AND 0xFFFF))) 0 0 pcAfter)
    | OP_BEQ \<Rightarrow> Inr (Break m 0 0 (if rsv = rtv then nextPC + IndexToAddr ext else pcAfter))
    | OP_BGEZ \<Rightarrow> Inr (Break m 0 0 (if rsv AND SIGN_BIT = 0 then nextPC + IndexToAddr ext else pcAfter))
    | OP_BGEZAL \<Rightarrow> (let m = setR m RET_ADDR_REG (nextPC + 4) in
       Inr (Break m 0 0 (if registers m ! rs AND SIGN_BIT = 0 then nextPC + IndexToAddr ext else pcAfter)))
    | OP_BGTZ \<Rightarrow> Inr (Break m 0 0 (if sint rsv > 0 then nextPC + IndexToAddr ext else pcAfter))
    | OP_BLEZ \<Rightarrow> Inr (Break m 0 0 (if sint rsv \<le> 0 then nextPC + IndexToAddr ext else pcAfter))
    | OP_BLTZ \<Rightarrow> Inr (Break m 0 0 (if rsv AND SIGN_BIT \<noteq> 0 then nextPC + IndexToAddr ext else pcAfter))
    | OP_BLTZAL \<Rightarrow> (let m = setR m RET_ADDR_REG (nextPC + 4) in
       Inr (Break m 0 0 (if registers m ! rs AND SIGN_BIT \<noteq> 0 then nextPC + IndexToAddr ext else pcAfter)))
    | OP_BNE \<Rightarrow> Inr (Break m 0 0 (if rsv \<noteq> rtv then nextPC + IndexToAddr ext else pcAfter))
    | OP_DIV \<Rightarrow> (if rtv = 0 then Inr (Break (setR (setR m LO_REG 0) HI_REG 0) 0 0 pcAfter)
       else if rsv = 0x80000000 \<and> rtv = 0xFFFFFFFF then Inl HostTrap
       else Inr (Break (setR (setR m LO_REG (word_of_int (sint rsv sdiv sint rtv)))
              HI_REG (word_of_int (sint rsv smod sint rtv))) 0 0 pcAfter))
    | OP_DIVU \<Rightarrow> (if rtv = 0 then Inr (Break (setR (setR m LO_REG 0) HI_REG 0) 0 0 pcAfter)
       else Inr (Break (setR (setR m LO_REG (rsv div rtv)) HI_REG (rsv mod rtv)) 0 0 pcAfter))
    | OP_J \<Rightarrow> Inr (Break m 0 0 ((pcAfter AND 0xF0000000) OR IndexToAddr ext))
    | OP_JAL \<Rightarrow> Inr (Break (setR m RET_ADDR_REG (nextPC + 4)) 0 0
       ((pcAfter AND 0xF0000000) OR IndexToAddr ext))
    | OP_JALR \<Rightarrow> (let m = setR m rd (nextPC + 4) in Inr (Break m 0 0 (registers m ! rs)))
    | OP_JR \<Rightarrow> Inr (Break m 0 0 rsv)
    | OP_LB \<Rightarrow> (let tmp = rsv + ext in load run be tmp 1 m (\<lambda>val m.
       Inr (Break m (of_nat rt) (if val AND 0x80 \<noteq> 0 then val OR 0xFFFFFF00 else val AND 0xFF) pcAfter)))
    | OP_LBU \<Rightarrow> (let tmp = rsv + ext in load run be tmp 1 m (\<lambda>val m.
       Inr (Break m (of_nat rt) (val AND 0xFF) pcAfter)))
    | OP_LH \<Rightarrow> (let tmp = rsv + ext in (if tmp AND 0x1 \<noteq> 0 then raise run ADDRESS_ERROR_EXCEPTION tmp m
       else load run be tmp 2 m (\<lambda>val m.
       Inr (Break m (of_nat rt) (if val AND 0x8000 \<noteq> 0 then val OR 0xFFFF0000 else val AND 0xFFFF) pcAfter))))
    | OP_LHU \<Rightarrow> (let tmp = rsv + ext in (if tmp AND 0x1 \<noteq> 0 then raise run ADDRESS_ERROR_EXCEPTION tmp m
       else load run be tmp 2 m (\<lambda>val m.
       Inr (Break m (of_nat rt) (val AND 0xFFFF) pcAfter))))
    | OP_LUI \<Rightarrow> Inr (Break (setR m rt (push_bit 16 ext)) 0 0 pcAfter)
    | OP_LW \<Rightarrow> (let tmp = rsv + ext in if tmp AND 0x3 \<noteq> 0 then raise run ADDRESS_ERROR_EXCEPTION tmp m
       else load run be tmp 4 m (\<lambda>val m. Inr (Break m (of_nat rt) val pcAfter)))
    | OP_LWL \<Rightarrow> (let tmp = rsv + ext in ASSERT (tmp AND 0x3 = 0) (load run be tmp 4 m (\<lambda>val m.
       let nlv = (if registers m ! LOAD_REG = of_nat rt then registers m ! LOAD_VALUE_REG
                  else registers m ! rt) in
       Inr (Break m (of_nat rt) (lwl_value tmp nlv val) pcAfter))))
    | OP_LWR \<Rightarrow> (let tmp = rsv + ext in ASSERT (tmp AND 0x3 = 0) (load run be tmp 4 m (\<lambda>val m.
       let nlv = (if registers m ! LOAD_REG = of_nat rt then registers m ! LOAD_VALUE_REG
                  else registers m ! rt) in
       Inr (Break m (of_nat rt) (lwr_value tmp nlv val) pcAfter))))
    | OP_MFHI \<Rightarrow> Inr (Break (setR m rd (registers m ! HI_REG)) 0 0 pcAfter)
    | OP_MFLO \<Rightarrow> Inr (Break (setR m rd (registers m ! LO_REG)) 0 0 pcAfter)
    | OP_MTHI \<Rightarrow> Inr (Break (setR m HI_REG (rsv)) 0 0 pcAfter)
    | OP_MTLO \<Rightarrow> Inr (Break (setR m LO_REG (rsv)) 0 0 pcAfter)
    | OP_MULT \<Rightarrow> (let (hi, lo) = Mult rsv rtv True in Inr (Break (setR (setR m HI_REG hi) LO_REG lo) 0 0 pcAfter))
    | OP_MULTU \<Rightarrow> (let (hi, lo) = Mult rsv rtv False in Inr (Break (setR (setR m HI_REG hi) LO_REG lo) 0 0 pcAfter))
    | OP_NOR \<Rightarrow> Inr (Break (setR m rd (NOT (rsv OR rtv))) 0 0 pcAfter)
    | OP_OR \<Rightarrow> Inr (Break (setR m rd (rsv OR rtv)) 0 0 pcAfter)
    | OP_ORI \<Rightarrow> Inr (Break (setR m rt (rsv OR (ext AND 0xFFFF))) 0 0 pcAfter)
    | OP_RFE \<Rightarrow> Inl AssertFail
    | OP_SB \<Rightarrow> store run be (rsv + ext) 1 rtv m (\<lambda>m. Inr (Break m 0 0 pcAfter))
    | OP_SH \<Rightarrow> store run be (rsv + ext) 2 rtv m (\<lambda>m. Inr (Break m 0 0 pcAfter))
    | OP_SLL \<Rightarrow> Inr (Break (setR m rd (push_bit (unat ext) rtv)) 0 0 pcAfter)
    | OP_SLLV \<Rightarrow> Inr (Break (setR m rd (push_bit (unat (rsv AND 0x1F)) rtv)) 0 0 pcAfter)
    | OP_SLT \<Rightarrow> Inr (Break (setR m rd (if sint rsv < sint rtv then 1 else 0)) 0 0 pcAfter)
    | OP_SLTI \<Rightarrow> Inr (Break (setR m rt (if sint rsv < sint ext then 1 else 0)) 0 0 pcAfter)
    | OP_SLTIU \<Rightarrow> Inr (Break (setR m rt (if rsv < ext then 1 else 0)) 0 0 pcAfter)
    | OP_SLTU \<Rightarrow> Inr (Break (setR m rd (if rsv < rtv then 1 else 0)) 0 0 pcAfter)
    | OP_SRA \<Rightarrow> Inr (Break (setR m rd (signed_drop_bit (unat ext) rtv)) 0 0 pcAfter)
    | OP_SRAV \<Rightarrow> Inr (Break (setR m rd (signed_drop_bit (unat (rsv AND 0x1F)) rtv)) 0 0 pcAfter)
    | OP_SRL \<Rightarrow> Inr (Break (setR m rd (signed_drop_bit (unat ext) rtv)) 0 0 pcAfter)
    | OP_SRLV \<Rightarrow> Inr (Break (setR m rd (signed_drop_bit (unat (rsv AND 0x1F)) rtv)) 0 0 pcAfter)
    | OP_SUB \<Rightarrow> (let diff = rsv - rtv in if (rsv XOR rtv) AND SIGN_BIT \<noteq> 0 \<and> (rsv XOR diff) AND SIGN_BIT \<noteq> 0
       then raise run OVERFLOW_EXCEPTION 0 m else Inr (Break (setR m rd (diff)) 0 0 pcAfter))
    | OP_SUBU \<Rightarrow> Inr (Break (setR m rd (rsv - rtv)) 0 0 pcAfter)
    | OP_SW \<Rightarrow> store run be (rsv + ext) 4 rtv m (\<lambda>m. Inr (Break m 0 0 pcAfter))
    | OP_SWL \<Rightarrow> (let tmp = rsv + ext in ASSERT (tmp AND 0x3 = 0) (
       load run be (tmp AND NOT 0x3) 4 m (\<lambda>val m.
       store run be (tmp AND NOT 0x3) 4 (swl_value tmp val (registers m ! rt)) m (\<lambda>m.
       Inr (Break m 0 0 pcAfter)))))
    | OP_SWR \<Rightarrow> (let tmp = rsv + ext in ASSERT (tmp AND 0x3 = 0) (
       load run be (tmp AND NOT 0x3) 4 m (\<lambda>val m.
       store run be (tmp AND NOT 0x3) 4 (swr_value tmp val (registers m ! rt)) m (\<lambda>m.
       Inr (Break m 0 0 pcAfter)))))
    | OP_XOR \<Rightarrow> Inr (Break (setR m rd (rsv XOR rtv)) 0 0 pcAfter)
    | OP_XORI \<Rightarrow> Inr (Break (setR m rt (rsv XOR (ext AND 0xFFFF))) 0 0 pcAfter)
    | OP_SYSCALL \<Rightarrow> raise run SYSCALL_EXCEPTION 0 m
    | OP_UNIMP \<Rightarrow> raise run ILLEGAL_INSTR_EXCEPTION 0 m
    | OP_RES \<Rightarrow> raise run ILLEGAL_INSTR_EXCEPTION 0 m
    | SPECIAL \<Rightarrow> Inl AssertFail
    | BCOND \<Rightarrow> Inl AssertFail)"

definition finish_exec :: "('h, 'k) flow \<Rightarrow> ('h, 'k) machine res" where
  "finish_exec f = (case f of
      Return m \<Rightarrow> Inr m
    | Break m nextLoadReg nextLoadValue pcAfter \<Rightarrow>
        bindR (DelayedLoad nextLoadReg nextLoadValue m) (\<lambda>m.
          let m = setR m PREV_PC_REG (registers m ! PC_REG);
              m = setR m PC_REG (registers m ! NEXT_PC_REG) in
          Inr (setR m NEXT_PC_REG pcAfter)))"

definition ExecInstruction ::
  "('h, 'k) run \<Rightarrow> bool \<Rightarrow> Instruction \<Rightarrow> ('h, 'k) machine \<Rightarrow> ('h, 'k) machine res" where
  "ExecInstruction run be instr m =
    (if \<not> (i_rs instr < NUM_GP_REGS \<and> i_rt instr < NUM_GP_REGS \<and> i_rd instr < NUM_GP_REGS \<and>
            length (registers m) = NUM_TOTAL_REGS) then Inl OutOfBounds
     else bindR (exec_switch run be instr m) finish_exec)"

definition Run_step ::
  "('h, 'k) run \<Rightarrow> (('h, 'k) machine \<Rightarrow> ('h, 'k) machine res) \<Rightarrow> bool \<Rightarrow> ('h, 'k) machine \<Rightarrow> ('h, 'k) machine res" where
  "Run_step run OneTick be m =
    bindR (FetchInstruction run be m) (\<lambda>(instr, m).
    bindR (case instr of None \<Rightarrow> Inr m | Some i \<Rightarrow> ExecInstruction run be i m) OneTick)"

section \<open>Well-formed processor states\<close>

definition machine_ok :: "('h, 'k) machine \<Rightarrow> bool" where
  "machine_ok m \<longleftrightarrow> length (registers m) = NUM_TOTAL_REGS \<and> unat (registers m ! LOAD_REG) < NUM_GP_REGS \<and>
     mmu_ok (m_mmu m) \<and> length (handlers m) = NUM_EXCEPTION_TYPES \<and> None \<notin> set (handlers m)"

definition cpu_ok :: "('h, 'k) machine \<Rightarrow> bool" where
  "cpu_ok m \<longleftrightarrow> machine_ok m \<and> registers m ! 0 = 0"

definition kernel_keeps :: "('h, 'k) run \<Rightarrow> bool" where
  "kernel_keeps run \<longleftrightarrow> (\<forall>h et m m'. cpu_ok m \<longrightarrow> run h et m = Inr m' \<longrightarrow> cpu_ok m')"

definition kernel_fails :: "('h, 'k) run \<Rightarrow> error \<Rightarrow> bool" where
  "kernel_fails run e \<longleftrightarrow> (\<exists>h et m. cpu_ok m \<and> run h et m = Inl e)"

definition flow_ok :: "('h, 'k) flow \<Rightarrow> bool" where
  "flow_ok f \<longleftrightarrow> (case f of Return m \<Rightarrow> cpu_ok m | Break m r v pc \<Rightarrow> machine_ok m \<and> unat r < 32)"

lemma flow_ok_simps [simp]:
  "flow_ok (Return m) = cpu_ok m" "flow_ok (Break m r v pc) = (machine_ok m \<and> unat r < 32)"
  by (simp_all add: flow_ok_def)

lemma machine_ok_setR: "machine_ok m \<Longrightarrow> i \<noteq> 37 \<Longrightarrow> machine_ok (setR m i v)"
  by (simp add: machine_ok_def setR_def reg_nums)

lemma machine_ok_mmu: "machine_ok m \<Longrightarrow> mmu_ok mu \<Longrightarrow> machine_ok (m\<lparr>m_mmu := mu\<rparr>)"
  by (simp add: machine_ok_def)

lemma machine_ok_status: "machine_ok (m\<lparr>status := s\<rparr>) = machine_ok m" "cpu_ok (m\<lparr>status := s\<rparr>) = cpu_ok m"
  by (simp_all add: machine_ok_def cpu_ok_def)

lemma DelayedLoad_ok:
  assumes "machine_ok m" and "unat r < 32"
  shows "\<exists>m'. DelayedLoad r v m = Inr m' \<and> cpu_ok m'"
  using assms by (simp add: DelayedLoad_def machine_ok_def cpu_ok_def reg_nums nth_list_update)

lemma RaiseException_ok:
  assumes "kernel_keeps run" and "machine_ok m"
  shows "res_ok (kernel_fails run) cpu_ok (RaiseException run et bad m)"
proof -
  have n: "exc_num et < length (handlers m)" using assms(2)
    by (cases et) (simp_all add: machine_ok_def NUM_EXCEPTION_TYPES_def)
  then have "handlers m ! exc_num et \<noteq> None" using assms(2)
    by (metis machine_ok_def nth_mem)
  then obtain h where h: "handlers m ! exc_num et = Some h" by blast
  let ?m = "m\<lparr>registers := (registers m)[BAD_VADDR_REG := bad]\<rparr>"
  have "machine_ok ?m" using assms(2) by (simp add: machine_ok_def reg_nums)
  from DelayedLoad_ok [OF this, of 0 0] obtain m' where m': "DelayedLoad 0 0 ?m = Inr m'" "cpu_ok m'"
    by auto
  have "BAD_VADDR_REG < length (registers m)" using assms(2) by (simp add: machine_ok_def reg_nums)
  with n h m'(1) have r: "RaiseException run et bad m =
      bindR (run h et (m'\<lparr>status := SYSTEM_MODE\<rparr>)) (\<lambda>m. Inr (m\<lparr>status := USER_MODE\<rparr>))"
    by (simp add: RaiseException_def)
  have c: "cpu_ok (m'\<lparr>status := SYSTEM_MODE\<rparr>)" using m'(2) by (simp add: machine_ok_status)
  show ?thesis
  proof (cases "run h et (m'\<lparr>status := SYSTEM_MODE\<rparr>)")
    case (Inl e)
    with c have "kernel_fails run e" unfolding kernel_fails_def by blast
    with Inl r show ?thesis by simp
  next
    case (Inr m'')
    with c assms(1) have "cpu_ok m''" unfolding kernel_keeps_def by blast
    with Inr r show ?thesis by (simp add: machine_ok_status)
  qed
qed

lemma raise_ok: "kernel_keeps run \<Longrightarrow> machine_ok m \<Longrightarrow>
    res_ok (kernel_fails run) flow_ok (raise run et bad m)"
  unfolding raise_def by (rule res_ok_bind [OF RaiseException_ok]) simp_all

lemma load_ok:
  assumes "kernel_keeps run" and "machine_ok m" and "sz \<in> {1, 2, 4}"
    and "\<And>v m'. machine_ok m' \<Longrightarrow> registers m' = registers m \<Longrightarrow> res_ok (kernel_fails run) flow_ok (k v m')"
  shows "res_ok (kernel_fails run) flow_ok (load run be addr sz m k)"
proof -
  have mm: "mmu_ok (m_mmu m)" using assms(2) by (simp add: machine_ok_def)
  show ?thesis
  proof (cases "translate_exception (m_mmu m) addr sz False = NO_EXCEPTION")
    case True
    obtain mu where "ReadMem be (m_mmu m) addr sz =
        Inr (NO_EXCEPTION, Some (load_value sz (vbytes (m_mmu m) addr sz)), mu)" "mmu_ok mu"
      using ReadMem_ok [OF mm assms(3) True] by metis
    then show ?thesis
      using assms(2,4) by (simp add: load_def Machine_ReadMem_def machine_ok_mmu)
  next
    case False
    with ReadMem_exn [OF mm assms(3) False, of be] RaiseException_ok [OF assms(1,2)] show ?thesis
      by (auto simp add: load_def Machine_ReadMem_def bindR_assoc intro!: res_ok_bind)
  qed
qed

lemma store_ok:
  assumes "kernel_keeps run" and "machine_ok m" and "sz \<in> {1, 2, 4}"
    and "\<And>m'. machine_ok m' \<Longrightarrow> registers m' = registers m \<Longrightarrow> res_ok (kernel_fails run) flow_ok (k m')"
  shows "res_ok (kernel_fails run) flow_ok (store run be addr sz v m k)"
proof -
  have mm: "mmu_ok (m_mmu m)" using assms(2) by (simp add: machine_ok_def)
  show ?thesis
  proof (cases "translate_exception (m_mmu m) addr sz True = NO_EXCEPTION")
    case True
    obtain mu where "WriteMem be (m_mmu m) addr sz v = Inr (NO_EXCEPTION, mu)" "mmu_ok mu"
      using WriteMem_ok [OF mm assms(3) True] by metis
    then show ?thesis
      using assms(2,4) by (simp add: store_def Machine_WriteMem_def machine_ok_mmu)
  next
    case False
    with WriteMem_exn [OF mm assms(3) False, of be] RaiseException_ok [OF assms(1,2)] show ?thesis
      by (auto simp add: store_def Machine_WriteMem_def bindR_assoc intro!: res_ok_bind)
  qed
qed

definition crashes :: "Instruction \<Rightarrow> ('h, 'k) machine \<Rightarrow> bool" where
  "crashes i m \<longleftrightarrow>
     (i_opCode i \<in> {OP_LWL, OP_LWR, OP_SWL, OP_SWR} \<and> (registers m ! i_rs i + i_extra i) AND 0x3 \<noteq> 0) \<or>
     (i_opCode i = OP_DIV \<and> registers m ! i_rs i = 0x80000000 \<and> registers m ! i_rt i = 0xFFFFFFFF)"

lemma unat_reg: "n < 32 \<Longrightarrow> unat (of_nat n :: u32) < 32"
  by (simp add: unat_of_nat)

lemma exec_switch_ok:
  assumes "kernel_keeps run" and "machine_ok m" and "instr_wf i" and "executable_op (i_opCode i)"
    and "\<not> crashes i m"
  shows "res_ok (kernel_fails run) flow_ok (exec_switch run be i m)"
  using assms(2-)
  by (cases "i_opCode i")
    (simp_all add: exec_switch_def Let_def machine_ok_setR raise_ok [OF assms(1)] instr_wf_def
      executable_op_def crashes_def reg_nums load_ok [OF assms(1)] store_ok [OF assms(1)] unat_reg case_prod_beta, blast)

lemma finish_exec_ok: "flow_ok f \<Longrightarrow> res_ok Q cpu_ok (finish_exec f)"
proof (cases f)
  case (Break m r v pc)
  assume "flow_ok f"
  with Break DelayedLoad_ok [of m r v] obtain m' where "DelayedLoad r v m = Inr m'" "cpu_ok m'" by auto
  then show ?thesis
    by (simp add: finish_exec_def Break Let_def cpu_ok_def machine_ok_def setR_def reg_nums)
qed (simp add: finish_exec_def)

lemma ExecInstruction_eq:
  "machine_ok m \<Longrightarrow> instr_wf i \<Longrightarrow>
     ExecInstruction run be i m = bindR (exec_switch run be i m) finish_exec"
  by (simp add: ExecInstruction_def machine_ok_def instr_wf_def reg_nums)

lemma ExecInstruction_ok:
  assumes "kernel_keeps run" and "machine_ok m" and "instr_wf i" and "executable_op (i_opCode i)"
    and "\<not> crashes i m"
  shows "res_ok (kernel_fails run) cpu_ok (ExecInstruction run be i m)"
  unfolding ExecInstruction_eq [OF assms(2,3)]
  by (rule res_ok_bind [OF exec_switch_ok [OF assms] finish_exec_ok])

lemma FetchInstruction_ok:
  assumes "kernel_keeps run" and "cpu_ok m"
  shows "res_ok (kernel_fails run)
    (\<lambda>(i, m'). cpu_ok m' \<and> (\<forall>i'. i = Some i' \<longrightarrow> instr_wf i' \<and> executable_op (i_opCode i')))
    (FetchInstruction run be m)"
proof -
  have mo: "machine_ok m" and mm: "mmu_ok (m_mmu m)" and pc: "PC_REG < length (registers m)"
    using assms(2) by (simp_all add: cpu_ok_def machine_ok_def reg_nums)
  let ?pc = "registers m ! PC_REG"
  have s: "(4 :: u32) \<in> {1, 2, 4}" by simp
  show ?thesis
  proof (cases "translate_exception (m_mmu m) ?pc 4 False = NO_EXCEPTION")
    case True
    obtain mu v where "ReadMem be (m_mmu m) ?pc 4 = Inr (NO_EXCEPTION, Some v, mu)" "mmu_ok mu"
      using ReadMem_ok [OF mm s True] by metis
    then show ?thesis
      using assms(2) pc Decode_wf Decode_executable
      by (simp add: FetchInstruction_def Machine_ReadMem_def cpu_ok_def machine_ok_mmu)
  next
    case False
    from ReadMem_exn [OF mm s False, of be] RaiseException_ok [OF assms(1) mo] False pc show ?thesis
      by (auto simp add: FetchInstruction_def Machine_ReadMem_def bindR_assoc intro!: res_ok_bind)
  qed
qed

lemma crash_ops:
  assumes "crashes i m" and "machine_ok m" and "instr_wf i"
  shows "ExecInstruction run be i m \<in> {Inl AssertFail, Inl HostTrap}"
proof -
  have "exec_switch run be i m \<in> {Inl AssertFail, Inl HostTrap}"
    using assms(1) unfolding crashes_def
    by (elim disjE conjE insertE emptyE) (simp_all add: exec_switch_def)
  then show ?thesis using ExecInstruction_eq [OF assms(2,3)] by auto
qed

lemma SIGN_BIT_xor: "((x :: u32) XOR y) AND SIGN_BIT = 0 \<longleftrightarrow> ((sint x < 0) = (sint y < 0))"
proof -
  have "(z :: u32) AND 0x80000000 \<noteq> 0 \<longleftrightarrow> bit z 31" for z
    using and_exp_eq_0_iff_not_bit [of z 31] by simp
  from this [of x] this [of y] this [of "x XOR y"] sign_bit_neg [of x] sign_bit_neg [of y]
  show ?thesis unfolding SIGN_BIT_def by (simp only: bit_xor_iff) blast
qed

lemma add_overflow_iff:
  "((x :: u32) XOR y) AND SIGN_BIT = 0 \<and> (x XOR (x + y)) AND SIGN_BIT \<noteq> 0 \<longleftrightarrow> \<not> in_range (sint x + sint y)"
  "((x :: u32) XOR y) AND SIGN_BIT = 0 \<and> (y XOR (x + y)) AND SIGN_BIT \<noteq> 0 \<longleftrightarrow> \<not> in_range (sint x + sint y)"
  using sint_bounds32 [of x] sint_bounds32 [of y]
  unfolding SIGN_BIT_xor sint_add32 in_range_def by (simp_all split: if_splits) linarith+

lemma sub_overflow_iff:
  "((x :: u32) XOR y) AND SIGN_BIT \<noteq> 0 \<and> (x XOR (x - y)) AND SIGN_BIT \<noteq> 0 \<longleftrightarrow> \<not> in_range (sint x - sint y)"
  using sint_bounds32 [of x] sint_bounds32 [of y]
  unfolding SIGN_BIT_xor sint_sub32 in_range_def by (simp split: if_splits) linarith+

section \<open>Properties of the processor\<close>

text \<open>C3: Whatever word the user program executes, a well-formed processor stays well formed: the
  register file keeps its size, register 0 reads as zero, the pending load names a general
  register and the MMU stays well formed. No array access leaves its bounds and no instruction
  reaches the \<open>switch\<close>'s failing default. The simulator itself is brought down exactly by an
  instruction that \<open>crashes\<close> names (a misaligned LWL, LWR, SWL or SWR, or the overflowing
  signed division) or by a failure of the kernel's own handler.\<close>

theorem ExecInstruction_safe:
  assumes "kernel_keeps run" and "cpu_ok m"
  shows "if crashes (Instruction_Decode w) m
     then ExecInstruction run be (Instruction_Decode w) m \<in> {Inl AssertFail, Inl HostTrap}
     else case ExecInstruction run be (Instruction_Decode w) m of
         Inr m' \<Rightarrow> cpu_ok m'
       | Inl e \<Rightarrow> kernel_fails run e"
proof -
  have m: "machine_ok m" using assms(2) by (simp add: cpu_ok_def)
  show ?thesis
    using crash_ops [OF _ m Decode_wf]
      ExecInstruction_ok [OF assms(1) m Decode_wf Decode_executable, of w be]
    by (simp add: res_ok_def)
qed

text \<open>The trapping arithmetic instructions raise the overflow exception exactly when the true
  signed result does not fit in 32 bits, and write the true result otherwise.\<close>

theorem overflow_traps:
  fixes m :: "('h, 'k) machine"
  defines "a \<equiv> \<lambda>i. sint (registers m ! i_rs i)" and "b \<equiv> \<lambda>i. sint (registers m ! i_rt i)"
    and "next \<equiv> registers m ! NEXT_PC_REG + 4"
  shows "(i_opCode i = OP_ADD \<longrightarrow> exec_switch run be i m =
      (if in_range (a i + b i) then Inr (Break (setR m (i_rd i) (of_int (a i + b i))) 0 0 next)
       else raise run OVERFLOW_EXCEPTION 0 m)) \<and>
    (i_opCode i = OP_ADDI \<longrightarrow> exec_switch run be i m =
      (if in_range (a i + sint (i_extra i))
       then Inr (Break (setR m (i_rt i) (of_int (a i + sint (i_extra i)))) 0 0 next)
       else raise run OVERFLOW_EXCEPTION 0 m)) \<and>
    (i_opCode i = OP_SUB \<longrightarrow> exec_switch run be i m =
      (if in_range (a i - b i) then Inr (Break (setR m (i_rd i) (of_int (a i - b i))) 0 0 next)
       else raise run OVERFLOW_EXCEPTION 0 m))"
  by (simp add: exec_switch_def a_def b_def next_def add_overflow_iff sub_overflow_iff)

text \<open>The logical right shifts of the instruction set behave as the arithmetic ones: the code
  shifts an \<open>int\<close>, so a negative operand is filled with ones, which no logical shift is.\<close>

lemma SRL_is_arithmetic:
  "exec_switch run be (i\<lparr>i_opCode := OP_SRL\<rparr>) m = exec_switch run be (i\<lparr>i_opCode := OP_SRA\<rparr>) m"
  by (simp add: exec_switch_def)

lemma signed_drop_bit_not_logical:
  assumes "sint (v :: u32) < 0" and "0 < k" and "k < 32"
  shows "signed_drop_bit k v \<noteq> drop_bit k v"
proof
  assume "signed_drop_bit k v = drop_bit k v"
  then have "bit (signed_drop_bit k v) 31 = bit (drop_bit k v) 31" by simp
  moreover have "bit v 31"
    using assms(1) sign_bit_neg [of v] and_exp_eq_0_iff_not_bit [of v 31] by simp
  moreover have "\<not> bit (drop_bit k v) 31"
    using assms(2) bit_imp_le_length [of v "k + 31"] by (auto simp add: bit_simps)
  moreover have "32 - k \<le> 31" using assms(2) by simp
  ultimately show False by (simp add: bit_signed_drop_bit_iff)
qed

subsection \<open>A concrete processor\<close>

definition demo_cpu :: "(unit, unit) machine" where
  "demo_cpu = \<lparr>registers = (replicate 40 0)[1 := 0x7FFFFFFF, 2 := 1], m_mmu = demo_mmu,
     handlers = replicate 8 (Some ()), status = USER_MODE, kernel = ()\<rparr>"

lemma demo_cpu_ok: "cpu_ok demo_cpu"
  by (simp add: cpu_ok_def machine_ok_def demo_cpu_def reg_nums NUM_EXCEPTION_TYPES_def eval_nat_numeral)

definition add_123 :: Instruction where
  "add_123 = \<lparr>i_value = 0x00221820, i_opCode = OP_ADD, i_rs = 1, i_rt = 2, i_rd = 3, i_extra = 0\<rparr>"

lemma Decode_add_123: "Instruction_Decode 0x00221820 = add_123"
  by (simp add: Instruction_Decode_def add_123_def OP_TABLE_def SPECIAL_TABLE_def field5_def)

theorem ExecInstruction_safe_witness:
  "case ExecInstruction (\<lambda>h et m. Inr m) False (Instruction_Decode 0x00221820) demo_cpu of
     Inr m' \<Rightarrow> cpu_ok m' | Inl e \<Rightarrow> kernel_fails (\<lambda>(h :: unit) et (m :: (unit, unit) machine). Inr m) e"
  using ExecInstruction_safe [of "\<lambda>h et m. Inr m" demo_cpu "0x00221820" False] demo_cpu_ok
  by (simp add: kernel_keeps_def crashes_def Decode_add_123 add_123_def)

theorem overflow_traps_witness:
  "exec_switch (\<lambda>h et m. Inr m) False add_123 demo_cpu =
     raise (\<lambda>h et m. Inr m) OVERFLOW_EXCEPTION 0 demo_cpu"
  using overflow_traps [of add_123 "\<lambda>h et m. Inr m" False demo_cpu]
  by (simp add: add_123_def demo_cpu_def in_range_def)

end
