(* ===== verification/Threads_Kernel.thy ===== *)
theory Threads_Kernel
  imports Lib_List "HOL-Library.Multiset"
begin

text \<open>
  Threads, scheduling and synchronisation: \<open>threads/thread.cc\<close>, \<open>scheduler.cc\<close>, \<open>semaphore.cc\<close>,
  \<open>lock.cc\<close>, \<open>condition.cc\<close>, \<open>channel.cc\<close> and \<open>synch_list.hh\<close>.

  The kernel runs one thread at a time and switches only inside \<open>Sleep\<close> and \<open>Yield\<close>, so a state has
  one current thread and every thread has the statements it has still to run, its continuation. A
  step runs the next statement of the current thread. A call of a synchronisation operation
  unfolds to the statements of its body in the order of the source; the parts that run with
  interrupts disabled (\<open>P\<close>, \<open>V\<close>, \<open>Yield\<close>, the end of \<open>Finish\<close>) are one step. Between two
  steps the timer may make the current thread yield, and a device's handler may call \<open>V\<close>.

  Objects are numbered: threads, semaphores, locks, conditions, channels and synchronised lists are
  indices into the tables of the state. A deleted thread stays in the table with \<open>t_deleted\<close>
  set, and using it is an error.
\<close>

section \<open>State\<close>

definition PRIORITY_SIZE :: nat where "PRIORITY_SIZE = 5"

datatype ThreadStatus = JUST_CREATED | RUNNING | READY | BLOCKED | NUM_THREAD_STATUS | FINISHED

definition IsThreadStatus :: "ThreadStatus \<Rightarrow> bool" where
  "IsThreadStatus s \<longleftrightarrow> s \<noteq> NUM_THREAD_STATUS \<and> s \<noteq> FINISHED"

text \<open>Statements. \<open>SemP\<close> and \<open>SemV\<close> are the whole bodies of the semaphore operations; \<open>Acquire\<close> to
  \<open>LPop\<close> and \<open>Fork\<close> to \<open>Finish\<close> are calls; the others are the statements of their bodies.\<close>

datatype op =
    SemP nat | SemV nat
  | Acquire nat | Release nat | LockCheck nat | LockOwn nat | LockLeave nat
  | Wait nat | Signal nat | Broadcast nat | CondEnter nat | CondWake nat | CondLower nat
  | Send nat int | Receive nat | ChanPut nat int | ChanGet nat
  | LAppend nat int | LPop nat | ListPut nat int | ListWait nat | ListTake nat
  | Yield | Fork nat "op list" | Join nat | Finish int | Exit

record thread =
  t_status :: ThreadStatus
  t_prog :: "op list"
  priority :: int
  priorityTemp :: int
  joinable :: bool
  t_channel :: nat
  t_started :: bool
  t_deleted :: bool
  t_got :: int

record semaphore =
  s_value :: int
  s_queue :: "nat nlist"

record lock =
  l_sem :: nat
  lockerThread :: "nat option"

record condition =
  c_lock :: nat
  c_sem :: nat
  countWaiters :: int

record channel =
  lockSender :: nat
  semReceiver :: nat
  semFinish :: nat
  myMessage :: int

record synchlist =
  sl_list :: "int nlist"
  sl_lock :: nat
  sl_cond :: nat

record kernel =
  current :: nat
  idling :: bool
  threads :: "thread list"
  ready :: "nat nlist list"
  sems :: "semaphore list"
  locks :: "lock list"
  conds :: "condition list"
  chans :: "channel list"
  slists :: "synchlist list"
  toBeDestroyed :: "nat option"

definition get_thread :: "kernel \<Rightarrow> nat \<Rightarrow> thread res" where
  "get_thread k t = bindR (aget (threads k) t) (\<lambda>T. if t_deleted T then Inl DanglingPtr else Inr T)"

definition put_thread :: "kernel \<Rightarrow> nat \<Rightarrow> thread \<Rightarrow> kernel" where
  "put_thread k t T = k\<lparr>threads := (threads k)[t := T]\<rparr>"

definition upd_thread :: "kernel \<Rightarrow> nat \<Rightarrow> (thread \<Rightarrow> thread) \<Rightarrow> kernel res" where
  "upd_thread k t f = bindR (get_thread k t) (\<lambda>T. Inr (put_thread k t (f T)))"

text \<open>An index \<open>readyLists[priority]\<close> with an \<open>int\<close> priority.\<close>

definition rget :: "kernel \<Rightarrow> int \<Rightarrow> nat nlist res" where
  "rget k p = (if p < 0 then Inl OutOfBounds else aget (ready k) (nat p))"

definition rset :: "kernel \<Rightarrow> int \<Rightarrow> nat nlist \<Rightarrow> kernel res" where
  "rset k p l = (if p < 0 then Inl OutOfBounds
     else bindR (aset (ready k) (nat p) l) (\<lambda>r. Inr (k\<lparr>ready := r\<rparr>)))"

section \<open>Scheduler\<close>

definition Scheduler_new :: "nat nlist list" where
  "Scheduler_new = replicate PRIORITY_SIZE List_new"

definition isReady :: "kernel \<Rightarrow> nat \<Rightarrow> int \<Rightarrow> bool res" where
  "isReady k t p = bindR (rget k p) (\<lambda>l. Inr (List_Has l t))"

definition removeFromPriorityList :: "kernel \<Rightarrow> nat \<Rightarrow> int \<Rightarrow> kernel res" where
  "removeFromPriorityList k t p = bindR (rget k p) (\<lambda>l. rset k p (List_Remove l t))"

definition addToPriorityList :: "kernel \<Rightarrow> nat \<Rightarrow> int \<Rightarrow> kernel res" where
  "addToPriorityList k t p = bindR (rget k p) (\<lambda>l. rset k p (List_Append l t))"

definition Thread_SetStatus :: "kernel \<Rightarrow> nat \<Rightarrow> ThreadStatus \<Rightarrow> kernel res" where
  "Thread_SetStatus k t st = ASSERT (IsThreadStatus st) (upd_thread k t (\<lambda>T. T\<lparr>t_status := st\<rparr>))"

definition ReadyToRun :: "kernel \<Rightarrow> nat \<Rightarrow> kernel res" where
  "ReadyToRun k t =
     bindR (Thread_SetStatus k t READY) (\<lambda>k.
     bindR (get_thread k t) (\<lambda>T.
     addToPriorityList k t (priority T)))"

fun find_loop :: "kernel \<Rightarrow> nat list \<Rightarrow> (nat option \<times> kernel) res" where
  "find_loop k [] = Inr (None, k)"
| "find_loop k (i # is) = bindR (aget (ready k) i) (\<lambda>l.
     if \<not> List_IsEmpty l
     then (case List_Pop l of (r, l') \<Rightarrow> Inr (r, k\<lparr>ready := (ready k)[i := l']\<rparr>))
     else find_loop k is)"

definition FindNextToRun :: "kernel \<Rightarrow> (nat option \<times> kernel) res" where
  "FindNextToRun k = find_loop k (rev [0..<PRIORITY_SIZE])"

text \<open>\<open>delete threadToBeDestroyed\<close> with the assertion of the destructor.\<close>

definition delete_carcass :: "kernel \<Rightarrow> kernel res" where
  "delete_carcass k = (case toBeDestroyed k of
      None \<Rightarrow> Inr k
    | Some z \<Rightarrow> ASSERT (z \<noteq> current k) (
        bindR (upd_thread k z (\<lambda>T. T\<lparr>t_deleted := True\<rparr>)) (\<lambda>k. Inr (k\<lparr>toBeDestroyed := None\<rparr>))))"

text \<open>A thread that runs for the first time starts at \<open>ThreadRoot\<close>; one that was switched out before
  returns from \<open>SWITCH\<close> and runs the end of \<open>Run\<close>.\<close>

definition Run :: "kernel \<Rightarrow> nat \<Rightarrow> kernel res" where
  "Run k nextThread =
     bindR (get_thread k nextThread) (\<lambda>T.
     bindR (Thread_SetStatus (k\<lparr>current := nextThread, idling := False\<rparr>) nextThread RUNNING) (\<lambda>k.
     if t_started T then delete_carcass k
     else upd_thread k nextThread (\<lambda>T. T\<lparr>t_started := True\<rparr>)))"

section \<open>Threads\<close>

definition Thread_new :: "kernel \<Rightarrow> bool \<Rightarrow> nat \<Rightarrow> int \<Rightarrow> nat \<times> kernel" where
  "Thread_new k isJoinable ch thePriority =
     (length (threads k), k\<lparr>threads := threads k @ [\<lparr>t_status = JUST_CREATED, t_prog = [], priority = thePriority,
        priorityTemp = -1, joinable = isJoinable, t_channel = ch, t_started = False, t_deleted = False, t_got = 0\<rparr>]\<rparr>)"

definition getPriority :: "thread \<Rightarrow> int" where
  "getPriority T = priority T"

definition setPriority :: "int \<Rightarrow> thread \<Rightarrow> thread" where
  "setPriority p T =
    (if p > int PRIORITY_SIZE then T\<lparr>priority := int PRIORITY_SIZE\<rparr>
     else if p < 0 then T\<lparr>priority := 0\<rparr>
     else T\<lparr>priority := p\<rparr>)"

definition getPriorityTemp :: "thread \<Rightarrow> int" where
  "getPriorityTemp T = priorityTemp T"

definition setPriorityTemp :: "int \<Rightarrow> thread \<Rightarrow> thread" where
  "setPriorityTemp p T =
    (let T = (if priorityTemp T = -1 then T\<lparr>priorityTemp := priority T\<rparr> else T) in T\<lparr>priority := p\<rparr>)"

definition Thread_Sleep :: "kernel \<Rightarrow> kernel res" where
  "Thread_Sleep k =
     bindR (upd_thread k (current k) (\<lambda>T. T\<lparr>t_status := BLOCKED\<rparr>)) (\<lambda>k.
     bindR (FindNextToRun k) (\<lambda>(nextThread, k).
     case nextThread of None \<Rightarrow> Inr (k\<lparr>idling := True\<rparr>) | Some t \<Rightarrow> Run k t))"

definition Thread_Yield :: "kernel \<Rightarrow> kernel res" where
  "Thread_Yield k =
     bindR (FindNextToRun k) (\<lambda>(nextThread, k').
     case nextThread of None \<Rightarrow> Inr k'
     | Some t \<Rightarrow> bindR (ReadyToRun k' (current k')) (\<lambda>k'. Run k' t))"

text \<open>The loop of \<open>Sleep\<close> tests the ready lists again after each idle period.\<close>

definition Sleep_wake :: "kernel \<Rightarrow> kernel res" where
  "Sleep_wake k =
     bindR (FindNextToRun k) (\<lambda>(nextThread, k).
     case nextThread of None \<Rightarrow> Inr k | Some t \<Rightarrow> Run k t)"

section \<open>Semaphores\<close>

definition Semaphore_new :: "int \<Rightarrow> semaphore" where
  "Semaphore_new initialValue = \<lparr>s_value = initialValue, s_queue = List_new\<rparr>"

text \<open>Continuations: \<open>call\<close> puts statements in front of what the current thread has still to do.\<close>

definition call :: "kernel \<Rightarrow> op list \<Rightarrow> kernel res" where
  "call k ops = upd_thread k (current k) (\<lambda>T. T\<lparr>t_prog := ops @ t_prog T\<rparr>)"

definition Semaphore_P :: "kernel \<Rightarrow> nat \<Rightarrow> kernel res" where
  "Semaphore_P k s =
     bindR (aget (sems k) s) (\<lambda>S.
     if s_value S = 0 then
       bindR (call (k\<lparr>sems := (sems k)[s := S\<lparr>s_queue := List_Append (s_queue S) (current k)\<rparr>]\<rparr>) [SemP s]) Thread_Sleep
     else Inr (k\<lparr>sems := (sems k)[s := S\<lparr>s_value := s_value S - 1\<rparr>]\<rparr>))"

definition Semaphore_V :: "kernel \<Rightarrow> nat \<Rightarrow> kernel res" where
  "Semaphore_V k s =
     bindR (aget (sems k) s) (\<lambda>S.
     case List_Pop (s_queue S) of (r, q) \<Rightarrow>
       let k = k\<lparr>sems := (sems k)[s := S\<lparr>s_queue := q\<rparr>]\<rparr> in
       bindR (case r of None \<Rightarrow> Inr k | Some t \<Rightarrow> ReadyToRun k t) (\<lambda>k.
       Inr (k\<lparr>sems := (sems k)[s := S\<lparr>s_queue := q, s_value := s_value S + 1\<rparr>]\<rparr>)))"

section \<open>Locks\<close>

definition Lock_new :: "nat \<Rightarrow> lock" where
  "Lock_new s = \<lparr>l_sem = s, lockerThread = None\<rparr>"

definition IsHeldByCurrentThread :: "kernel \<Rightarrow> lock \<Rightarrow> bool" where
  "IsHeldByCurrentThread k L \<longleftrightarrow> lockerThread L = Some (current k)"

text \<open>\<open>Acquire\<close> up to its \<open>s->P()\<close>: the owner inherits the priority of a caller above it.\<close>

definition Lock_check :: "kernel \<Rightarrow> nat \<Rightarrow> kernel res" where
  "Lock_check k l =
     bindR (aget (locks k) l) (\<lambda>L. ASSERT (\<not> IsHeldByCurrentThread k L) (
     case lockerThread L of None \<Rightarrow> Inr k
     | Some t \<Rightarrow>
       bindR (get_thread k t) (\<lambda>T.
       bindR (get_thread k (current k)) (\<lambda>C.
       if getPriority C > getPriority T then
         bindR (upd_thread k t (setPriorityTemp (getPriority C))) (\<lambda>k.
         bindR (isReady k t (getPriority T)) (\<lambda>r.
         if r then bindR (removeFromPriorityList k t (getPriority T)) (\<lambda>k. addToPriorityList k t (getPriority C))
         else Inr k))
       else Inr k))))"

definition Lock_own :: "kernel \<Rightarrow> nat \<Rightarrow> kernel res" where
  "Lock_own k l = bindR (aget (locks k) l) (\<lambda>L.
     Inr (k\<lparr>locks := (locks k)[l := L\<lparr>lockerThread := Some (current k)\<rparr>]\<rparr>))"

text \<open>\<open>Release\<close> up to its \<open>s->V()\<close>.\<close>

definition Lock_leave :: "kernel \<Rightarrow> nat \<Rightarrow> kernel res" where
  "Lock_leave k l =
     bindR (aget (locks k) l) (\<lambda>L. ASSERT (IsHeldByCurrentThread k L) (
     bindR (get_thread k (current k)) (\<lambda>T.
     bindR (if getPriorityTemp T \<noteq> -1
            then upd_thread k (current k) (\<lambda>T. setPriorityTemp (-1) (setPriority (getPriorityTemp T) T))
            else Inr k) (\<lambda>k.
     Inr (k\<lparr>locks := (locks k)[l := L\<lparr>lockerThread := None\<rparr>]\<rparr>)))))"

definition Lock_Acquire :: "kernel \<Rightarrow> nat \<Rightarrow> kernel res" where
  "Lock_Acquire k l = bindR (aget (locks k) l) (\<lambda>L. call k [LockCheck l, SemP (l_sem L), LockOwn l])"

definition Lock_Release :: "kernel \<Rightarrow> nat \<Rightarrow> kernel res" where
  "Lock_Release k l = bindR (aget (locks k) l) (\<lambda>L. call k [LockLeave l, SemV (l_sem L)])"

section \<open>Conditions\<close>

definition Condition_new :: "nat \<Rightarrow> nat \<Rightarrow> condition" where
  "Condition_new cl s = \<lparr>c_lock = cl, c_sem = s, countWaiters = 0\<rparr>"

definition Condition_Wait :: "kernel \<Rightarrow> nat \<Rightarrow> kernel res" where
  "Condition_Wait k c = bindR (aget (conds k) c) (\<lambda>C.
     call k [CondEnter c, Release (c_lock C), SemP (c_sem C), Acquire (c_lock C)])"

definition Cond_enter :: "kernel \<Rightarrow> nat \<Rightarrow> kernel res" where
  "Cond_enter k c = bindR (aget (conds k) c) (\<lambda>C.
     Inr (k\<lparr>conds := (conds k)[c := C\<lparr>countWaiters := countWaiters C + 1\<rparr>]\<rparr>))"

definition Cond_lower :: "kernel \<Rightarrow> nat \<Rightarrow> kernel res" where
  "Cond_lower k c = bindR (aget (conds k) c) (\<lambda>C.
     Inr (k\<lparr>conds := (conds k)[c := C\<lparr>countWaiters := countWaiters C - 1\<rparr>]\<rparr>))"

definition Condition_Signal :: "kernel \<Rightarrow> nat \<Rightarrow> kernel res" where
  "Condition_Signal k c = bindR (aget (conds k) c) (\<lambda>C. bindR (aget (locks k) (c_lock C)) (\<lambda>L.
     ASSERT (IsHeldByCurrentThread k L) (
     if countWaiters C > 0 then call k [SemV (c_sem C), CondLower c] else Inr k)))"

definition Condition_Broadcast :: "kernel \<Rightarrow> nat \<Rightarrow> kernel res" where
  "Condition_Broadcast k c = bindR (aget (conds k) c) (\<lambda>C. bindR (aget (locks k) (c_lock C)) (\<lambda>L.
     ASSERT (IsHeldByCurrentThread k L) (call k [CondWake c])))"

definition Cond_wake :: "kernel \<Rightarrow> nat \<Rightarrow> kernel res" where
  "Cond_wake k c = bindR (aget (conds k) c) (\<lambda>C.
     if countWaiters C > 0 then call k [SemV (c_sem C), CondLower c, CondWake c] else Inr k)"

section \<open>Channels\<close>

definition Channel_new :: "nat \<Rightarrow> nat \<Rightarrow> nat \<Rightarrow> channel" where
  "Channel_new l r f = \<lparr>lockSender = l, semReceiver = r, semFinish = f, myMessage = 0\<rparr>"

definition Channel_Send :: "kernel \<Rightarrow> nat \<Rightarrow> int \<Rightarrow> kernel res" where
  "Channel_Send k ch message = bindR (aget (chans k) ch) (\<lambda>C.
     call k [Acquire (lockSender C), ChanPut ch message, SemV (semReceiver C), SemP (semFinish C), Release (lockSender C)])"

definition Channel_Receive :: "kernel \<Rightarrow> nat \<Rightarrow> kernel res" where
  "Channel_Receive k ch = bindR (aget (chans k) ch) (\<lambda>C.
     call k [SemP (semReceiver C), ChanGet ch, SemV (semFinish C)])"

definition Chan_put :: "kernel \<Rightarrow> nat \<Rightarrow> int \<Rightarrow> kernel res" where
  "Chan_put k ch message = bindR (aget (chans k) ch) (\<lambda>C.
     Inr (k\<lparr>chans := (chans k)[ch := C\<lparr>myMessage := message\<rparr>]\<rparr>))"

definition Chan_get :: "kernel \<Rightarrow> nat \<Rightarrow> kernel res" where
  "Chan_get k ch = bindR (aget (chans k) ch) (\<lambda>C.
     upd_thread k (current k) (\<lambda>T. T\<lparr>t_got := myMessage C\<rparr>))"

section \<open>Synchronised lists\<close>

definition SynchList_Append :: "kernel \<Rightarrow> nat \<Rightarrow> int \<Rightarrow> kernel res" where
  "SynchList_Append k sl item = bindR (aget (slists k) sl) (\<lambda>S.
     call k [Acquire (sl_lock S), ListPut sl item, Signal (sl_cond S), Release (sl_lock S)])"

definition SynchList_Pop :: "kernel \<Rightarrow> nat \<Rightarrow> kernel res" where
  "SynchList_Pop k sl = bindR (aget (slists k) sl) (\<lambda>S.
     call k [Acquire (sl_lock S), ListWait sl, ListTake sl, Release (sl_lock S)])"

definition List_put :: "kernel \<Rightarrow> nat \<Rightarrow> int \<Rightarrow> kernel res" where
  "List_put k sl item = bindR (aget (slists k) sl) (\<lambda>S.
     Inr (k\<lparr>slists := (slists k)[sl := S\<lparr>sl_list := List_Append (sl_list S) item\<rparr>]\<rparr>))"

definition List_wait :: "kernel \<Rightarrow> nat \<Rightarrow> kernel res" where
  "List_wait k sl = bindR (aget (slists k) sl) (\<lambda>S.
     if List_IsEmpty (sl_list S) then call k [Wait (sl_cond S), ListWait sl] else Inr k)"

definition List_take :: "kernel \<Rightarrow> nat \<Rightarrow> kernel res" where
  "List_take k sl = bindR (aget (slists k) sl) (\<lambda>S.
     case List_Pop (sl_list S) of (r, l) \<Rightarrow>
       upd_thread (k\<lparr>slists := (slists k)[sl := S\<lparr>sl_list := l\<rparr>]\<rparr>) (current k)
         (\<lambda>T. T\<lparr>t_got := (case r of None \<Rightarrow> 0 | Some x \<Rightarrow> x)\<rparr>))"

section \<open>Forking, joining and finishing\<close>

definition Thread_Fork :: "kernel \<Rightarrow> nat \<Rightarrow> op list \<Rightarrow> kernel res" where
  "Thread_Fork k t func =
     bindR (upd_thread k t (\<lambda>T. T\<lparr>t_prog := func\<rparr>)) (\<lambda>k.
     bindR (ReadyToRun k t) (\<lambda>k.
     bindR (get_thread k t) (\<lambda>T. if joinable T then call k [Join t] else Inr k)))"

definition Thread_Join :: "kernel \<Rightarrow> nat \<Rightarrow> kernel res" where
  "Thread_Join k t = bindR (get_thread k t) (\<lambda>T. ASSERT (joinable T) (call k [Receive (t_channel T)]))"

definition Thread_Finish :: "kernel \<Rightarrow> int \<Rightarrow> kernel res" where
  "Thread_Finish k returnValue = bindR (get_thread k (current k)) (\<lambda>T.
     call k (if joinable T then [Send (t_channel T) returnValue, Exit] else [Exit]))"

definition Finish_exit :: "kernel \<Rightarrow> kernel res" where
  "Finish_exit k = Thread_Sleep (k\<lparr>toBeDestroyed := Some (current k)\<rparr>)"

section \<open>Steps\<close>

fun exec :: "op \<Rightarrow> kernel \<Rightarrow> kernel res" where
  "exec (SemP s) k = Semaphore_P k s"
| "exec (SemV s) k = Semaphore_V k s"
| "exec (Acquire l) k = Lock_Acquire k l"
| "exec (Release l) k = Lock_Release k l"
| "exec (LockCheck l) k = Lock_check k l"
| "exec (LockOwn l) k = Lock_own k l"
| "exec (LockLeave l) k = Lock_leave k l"
| "exec (Wait c) k = Condition_Wait k c"
| "exec (Signal c) k = Condition_Signal k c"
| "exec (Broadcast c) k = Condition_Broadcast k c"
| "exec (CondEnter c) k = Cond_enter k c"
| "exec (CondWake c) k = Cond_wake k c"
| "exec (CondLower c) k = Cond_lower k c"
| "exec (Send ch m) k = Channel_Send k ch m"
| "exec (Receive ch) k = Channel_Receive k ch"
| "exec (ChanPut ch m) k = Chan_put k ch m"
| "exec (ChanGet ch) k = Chan_get k ch"
| "exec (LAppend sl x) k = SynchList_Append k sl x"
| "exec (LPop sl) k = SynchList_Pop k sl"
| "exec (ListPut sl x) k = List_put k sl x"
| "exec (ListWait sl) k = List_wait k sl"
| "exec (ListTake sl) k = List_take k sl"
| "exec Yield k = Thread_Yield k"
| "exec (Fork t func) k = Thread_Fork k t func"
| "exec (Join t) k = Thread_Join k t"
| "exec (Finish v) k = Thread_Finish k v"
| "exec Exit k = Finish_exit k"

text \<open>When the forked procedure returns, \<open>ThreadRoot\<close> calls \<open>ThreadFinish\<close>. An idle kernel waits in
  the loop of \<open>Sleep\<close>.\<close>

definition kstep :: "kernel \<Rightarrow> kernel res" where
  "kstep k =
    (if idling k then Sleep_wake k
     else bindR (get_thread k (current k)) (\<lambda>T.
       case t_prog T of
         [] \<Rightarrow> exec (Finish 0) k
       | op # ops \<Rightarrow> exec op (put_thread k (current k) (T\<lparr>t_prog := ops\<rparr>))))"

text \<open>The transitions: a statement of the current thread, a time slice that ends, a \<open>V\<close> from the
  handler of a device, on one of the semaphores \<open>D\<close> that devices signal. The source runs \<open>Finish\<close>
  and the return from \<open>Sleep\<close> with interrupts off, where the model lets a slice end; the runs of
  the source are among those of the model.\<close>

inductive kernel_step :: "nat set \<Rightarrow> kernel \<Rightarrow> kernel \<Rightarrow> bool" for D where
  run: "kstep k = Inr k' \<Longrightarrow> kernel_step D k k'"
| slice: "\<not> idling k \<Longrightarrow> Thread_Yield k = Inr k' \<Longrightarrow> kernel_step D k k'"
| device: "s \<in> D \<Longrightarrow> Semaphore_V k s = Inr k' \<Longrightarrow> kernel_step D k k'"


section \<open>Where threads are\<close>

text \<open>The threads in the ready lists and in the queues of the semaphores, with multiplicity.\<close>

definition ready_ms :: "kernel \<Rightarrow> nat multiset" where
  "ready_ms k = mset (concat (map items (ready k)))"

definition wait_ms :: "kernel \<Rightarrow> nat multiset" where
  "wait_ms k = mset (concat (map (\<lambda>S. items (s_queue S)) (sems k)))"

definition queued :: "kernel \<Rightarrow> nat multiset" where
  "queued k = ready_ms k + wait_ms k"

definition valid :: "kernel \<Rightarrow> nat \<Rightarrow> bool" where
  "valid k t \<longleftrightarrow> t < length (threads k) \<and> \<not> t_deleted (threads k ! t)"

text \<open>Between two threads: no thread is queued twice, and the status of a queued thread says where
  it is. With a current thread: that one is in no queue.\<close>

definition mid_inv :: "kernel \<Rightarrow> bool" where
  "mid_inv k \<longleftrightarrow> length (ready k) = PRIORITY_SIZE \<and> (\<forall>t. count (queued k) t \<le> 1) \<and>
     (\<forall>t\<in>#queued k. valid k t) \<and>
     (\<forall>t\<in>#ready_ms k. t_status (threads k ! t) = READY) \<and>
     (\<forall>t\<in>#wait_ms k. t_status (threads k ! t) = BLOCKED) \<and>
     (\<forall>z. toBeDestroyed k = Some z \<longrightarrow> z \<notin># queued k \<and> valid k z \<and> t_status (threads k ! z) = BLOCKED)"

definition running :: "kernel \<Rightarrow> nat \<Rightarrow> bool" where
  "running k t \<longleftrightarrow> t \<notin># queued k \<and> valid k t \<and> t_status (threads k ! t) = RUNNING"

definition kernel_inv :: "kernel \<Rightarrow> bool" where
  "kernel_inv k \<longleftrightarrow> mid_inv k \<and> (idling k \<or> running k (current k))"

definition places :: "kernel \<Rightarrow> nat multiset" where
  "places k = queued k + (if idling k then {#} else {#current k#})"

lemma mset_concat_update:
  "i < length xss \<Longrightarrow> mset (concat (xss[i := ys])) + mset (xss ! i) = mset (concat xss) + mset ys"
proof (induction xss arbitrary: i)
  case (Cons xs xss)
  show ?case
  proof (cases i)
    case 0
    then show ?thesis by (simp add: ac_simps)
  next
    case (Suc j)
    with Cons have "mset (concat (xss[j := ys])) + mset (xss ! j) = mset (concat xss) + mset ys" by simp
    with Suc show ?thesis by (simp add: add.assoc)
  qed
qed simp

lemma ready_ms_update:
  assumes "i < length (ready k)"
  shows "ready_ms (k\<lparr>ready := (ready k)[i := l]\<rparr>) + mset (items (ready k ! i)) = ready_ms k + mset (items l)"
  using mset_concat_update [of i "map items (ready k)" "items l"] assms
  by (simp add: ready_ms_def map_update)

lemma wait_ms_update:
  assumes "s < length (sems k)"
  shows "wait_ms (k\<lparr>sems := (sems k)[s := S]\<rparr>) + mset (items (s_queue (sems k ! s))) = wait_ms k + mset (items (s_queue S))"
  using mset_concat_update [of s "map (\<lambda>S. items (s_queue S)) (sems k)" "items (s_queue S)"] assms
  by (simp add: wait_ms_def map_update)

lemma get_thread_eq [res_simps]: "get_thread k t = Inr T \<longleftrightarrow> valid k t \<and> T = threads k ! t"
  by (auto simp add: get_thread_def res_simps valid_def aget_def split: if_splits)

lemma upd_thread_eq [res_simps]:
  "upd_thread k t f = Inr k' \<longleftrightarrow> valid k t \<and> k' = put_thread k t (f (threads k ! t))"
  by (auto simp add: upd_thread_def res_simps)

lemma rset_eq [res_simps]: "rset k p l = Inr k' \<longleftrightarrow>
    0 \<le> p \<and> nat p < length (ready k) \<and> k' = k\<lparr>ready := (ready k)[nat p := l]\<rparr>"
  by (auto simp add: rset_def res_simps)

lemma rget_eq [res_simps]: "rget k p = Inr l \<longleftrightarrow> 0 \<le> p \<and> nat p < length (ready k) \<and> l = ready k ! nat p"
  by (auto simp add: rget_def res_simps)

lemma Thread_SetStatus_eq [res_simps]: "Thread_SetStatus k t st = Inr k' \<longleftrightarrow> IsThreadStatus st \<and> valid k t \<and>
    k' = put_thread k t ((threads k ! t)\<lparr>t_status := st\<rparr>)"
  by (auto simp add: Thread_SetStatus_def res_simps)

lemma ReadyToRun_eq:
  "ReadyToRun k t = Inr k' \<longleftrightarrow> (let p = priority (threads k ! t) in valid k t \<and> 0 \<le> p \<and> nat p < length (ready k) \<and>
     k' = k\<lparr>threads := (threads k)[t := (threads k ! t)\<lparr>t_status := READY\<rparr>],
            ready := (ready k)[nat p := List_Append (ready k ! nat p) t]\<rparr>)"
  by (auto simp add: ReadyToRun_def res_simps addToPriorityList_def put_thread_def IsThreadStatus_def valid_def Let_def)

text \<open>The state outside the thread table and the queues.\<close>

definition same_objects :: "kernel \<Rightarrow> kernel \<Rightarrow> bool" where
  "same_objects k k' \<longleftrightarrow> locks k' = locks k \<and> conds k' = conds k \<and> chans k' = chans k \<and> slists k' = slists k"

text \<open>What a thread has still to do and its priorities, as opposed to its status.\<close>

definition same_threads :: "kernel \<Rightarrow> kernel \<Rightarrow> bool" where
  "same_threads k k' \<longleftrightarrow> length (threads k') = length (threads k) \<and>
     (\<forall>t<length (threads k). t_prog (threads k' ! t) = t_prog (threads k ! t) \<and>
        priority (threads k' ! t) = priority (threads k ! t) \<and> priorityTemp (threads k' ! t) = priorityTemp (threads k ! t))"

lemma ReadyToRun_mid:
  assumes inv: "mid_inv k" and t: "t \<notin># queued k" "toBeDestroyed k \<noteq> Some t" and r: "ReadyToRun k t = Inr k'"
  shows "mid_inv k'" and "queued k' = add_mset t (queued k)" and "ready_ms k' = add_mset t (ready_ms k)"
    and "current k' = current k" and "idling k' = idling k" and "sems k' = sems k" and "toBeDestroyed k' = toBeDestroyed k"
    and "same_objects k k'" and "same_threads k k'"
proof -
  let ?p = "nat (priority (threads k ! t))"
  from r have v: "valid k t" "?p < length (ready k)"
    and k': "k' = k\<lparr>threads := (threads k)[t := (threads k ! t)\<lparr>t_status := READY\<rparr>],
            ready := (ready k)[?p := List_Append (ready k ! ?p) t]\<rparr>"
    by (auto simp add: ReadyToRun_eq Let_def)
  have "ready_ms (k\<lparr>ready := (ready k)[?p := List_Append (ready k ! ?p) t]\<rparr>) = add_mset t (ready_ms k)"
    using ready_ms_update [OF v(2), of "List_Append (ready k ! ?p) t"] by simp
  then show rm: "ready_ms k' = add_mset t (ready_ms k)" by (simp add: k' ready_ms_def)
  have wm: "wait_ms k' = wait_ms k" by (simp add: k' wait_ms_def)
  show q: "queued k' = add_mset t (queued k)" by (simp add: queued_def rm wm)
  show "current k' = current k" "idling k' = idling k" "sems k' = sems k" "toBeDestroyed k' = toBeDestroyed k"
    "same_objects k k'" by (simp_all add: k' same_objects_def)
  show "same_threads k k'" using v(1) by (auto simp add: k' same_threads_def nth_list_update valid_def)
  have vk: "valid k' u = valid k u" for u using v(1) by (auto simp add: k' valid_def nth_list_update)
  have st: "t_status (threads k' ! u) = (if u = t then READY else t_status (threads k ! u))" for u
    using v(1) by (simp add: k' valid_def)
  have tw: "t \<notin># wait_ms k" "t \<notin># ready_ms k" using t(1) by (simp_all add: queued_def)
  have lz: "length (ready k') = length (ready k)" "toBeDestroyed k' = toBeDestroyed k" by (simp_all add: k')
  show "mid_inv k'"
    using inv t tw v(1) unfolding mid_inv_def
    by (auto simp add: q rm wm vk st lz count_eq_zero_iff)
qed

lemma find_loop_none:
  "find_loop k is = Inr (None, k') \<Longrightarrow> k' = k \<and> (\<forall>i\<in>set is. i < length (ready k) \<and> items (ready k ! i) = [])"
  by (induction "is") (auto simp add: res_simps IsEmpty_iff Pop_cases split: if_splits list.splits)

lemma find_loop_some:
  "find_loop k is = Inr (Some t, k') \<Longrightarrow> \<exists>pre i post l'. is = pre @ i # post \<and> i < length (ready k) \<and>
     (\<forall>j\<in>set pre. items (ready k ! j) = []) \<and> items (ready k ! i) = t # items l' \<and> k' = k\<lparr>ready := (ready k)[i := l']\<rparr>"
proof (induction "is")
  case (Cons i "is")
  show ?case
  proof (cases "items (ready k ! i) = []")
    case True
    with Cons obtain pre j post l' where "is = pre @ j # post" "j < length (ready k)"
      "\<forall>j\<in>set pre. items (ready k ! j) = []" "items (ready k ! j) = t # items l'" "k' = k\<lparr>ready := (ready k)[j := l']\<rparr>"
      by (auto simp add: res_simps IsEmpty_iff)
    with True show ?thesis by (intro exI [of _ "i # pre"] exI [of _ j] exI [of _ post] exI [of _ l']) simp
  next
    case False
    let ?l = "ready k ! i"
    from Cons.prems False have i: "i < length (ready k)" "fst (List_Pop ?l) = Some t"
      "k' = k\<lparr>ready := (ready k)[i := snd (List_Pop ?l)]\<rparr>"
      by (auto simp add: res_simps IsEmpty_iff split: prod.splits)
    from False i(2) have "items ?l = t # items (snd (List_Pop ?l))"
      by (cases "items ?l") (simp_all add: Pop_result items_Pop)
    with i show ?thesis
      by (intro exI [of _ "[]"] exI [of _ i] exI [of _ "is"] exI [of _ "snd (List_Pop ?l)"]) simp
  qed
qed simp

lemma FindNext_mid:
  assumes inv: "mid_inv k" and f: "FindNextToRun k = Inr (Some t, k')"
  shows "mid_inv k'" and "queued k = add_mset t (queued k')" and "t \<notin># queued k'" and "valid k' t"
    and "toBeDestroyed k' \<noteq> Some t" and "k' = k\<lparr>ready := ready k'\<rparr>" and "t \<in># ready_ms k"
proof -
  from find_loop_some [OF f [unfolded FindNextToRun_def]] obtain i l' where
    i: "i < length (ready k)" "items (ready k ! i) = t # items l'" "k' = k\<lparr>ready := (ready k)[i := l']\<rparr>" by blast
  have rm: "ready_ms k = add_mset t (ready_ms k')"
    using ready_ms_update [OF i(1), of l'] by (simp add: i(2,3))
  then show "t \<in># ready_ms k" by simp
  have wm: "wait_ms k' = wait_ms k" by (simp add: i(3) wait_ms_def)
  show q: "queued k = add_mset t (queued k')" by (simp add: queued_def rm wm)
  show k': "k' = k\<lparr>ready := ready k'\<rparr>" by (simp add: i(3))
  have c: "count (queued k) u \<le> 1" for u using inv by (simp add: mid_inv_def)
  have "count (queued k') t = 0" using c [of t] by (simp add: q)
  then show tq: "t \<notin># queued k'" by (simp add: count_eq_zero_iff)
  have vk: "valid k' u = valid k u" for u by (simp add: i(3) valid_def)
  show "valid k' t" using inv q by (simp add: mid_inv_def vk)
  show "toBeDestroyed k' \<noteq> Some t" using inv q by (auto simp add: mid_inv_def i(3))
  have "count (queued k') u \<le> 1" for u using c [of u] by (simp add: q split: if_splits)
  moreover have "threads k' = threads k" "toBeDestroyed k' = toBeDestroyed k" "length (ready k') = length (ready k)"
    by (simp_all add: i(3))
  ultimately show "mid_inv k'" using inv unfolding mid_inv_def by (auto simp add: q rm wm vk)
qed

lemma FindNext_none: "FindNextToRun k = Inr (None, k') \<Longrightarrow> k' = k"
  unfolding FindNextToRun_def using find_loop_none by blast

section \<open>Switching threads\<close>

lemma same_objects_refl [simp]: "same_objects k k"
  and same_objects_trans: "same_objects k k1 \<Longrightarrow> same_objects k1 k2 \<Longrightarrow> same_objects k k2"
  by (simp_all add: same_objects_def)

lemma same_threads_refl [simp]: "same_threads k k"
  and same_threads_trans: "same_threads k k1 \<Longrightarrow> same_threads k1 k2 \<Longrightarrow> same_threads k k2"
  by (simp_all add: same_threads_def)

definition frame :: "kernel \<Rightarrow> kernel \<Rightarrow> bool" where
  "frame k k' \<longleftrightarrow> same_objects k k' \<and> same_threads k k' \<and> sems k' = sems k"

lemma frame_refl [simp]: "frame k k"
  and frame_trans: "frame k k1 \<Longrightarrow> frame k1 k2 \<Longrightarrow> frame k k2"
  by (auto simp add: frame_def intro: same_objects_trans same_threads_trans)

lemma frame_simps:
  "frame (k\<lparr>current := c, idling := i\<rparr>) k' = frame k k'" "frame (k\<lparr>toBeDestroyed := z\<rparr>) k' = frame k k'"
  "frame k (k'\<lparr>idling := i\<rparr>) = frame k k'" "frame k (k'\<lparr>toBeDestroyed := z\<rparr>) = frame k k'"
  "frame k (k'\<lparr>ready := r\<rparr>) = frame k k'"
  by (simp_all add: frame_def same_objects_def same_threads_def)

lemma frame_put:
  assumes "t_prog T = t_prog (threads k ! t)" "priority T = priority (threads k ! t)" "priorityTemp T = priorityTemp (threads k ! t)"
  shows "frame k (put_thread k t T)"
  using assms by (cases "t < length (threads k)")
    (auto simp add: frame_def same_objects_def same_threads_def put_thread_def nth_list_update)

lemma queued_simps [simp]:
  "queued (put_thread k t T) = queued k" "ready_ms (put_thread k t T) = ready_ms k" "wait_ms (put_thread k t T) = wait_ms k"
  "queued (k\<lparr>current := c, idling := i\<rparr>) = queued k" "queued (k\<lparr>toBeDestroyed := z\<rparr>) = queued k"
  "queued (k\<lparr>idling := i\<rparr>) = queued k" "queued (k\<lparr>current := c\<rparr>) = queued k"
  "ready_ms (k\<lparr>current := c\<rparr>) = ready_ms k" "wait_ms (k\<lparr>current := c\<rparr>) = wait_ms k"
  "ready_ms (k\<lparr>current := c, idling := i\<rparr>) = ready_ms k" "wait_ms (k\<lparr>current := c, idling := i\<rparr>) = wait_ms k"
  "ready_ms (k\<lparr>toBeDestroyed := z\<rparr>) = ready_ms k" "wait_ms (k\<lparr>toBeDestroyed := z\<rparr>) = wait_ms k"
  "ready_ms (k\<lparr>idling := i\<rparr>) = ready_ms k" "wait_ms (k\<lparr>idling := i\<rparr>) = wait_ms k"
  by (simp_all add: queued_def ready_ms_def wait_ms_def put_thread_def)

lemma put_thread_simps [simp]:
  "current (put_thread k t T) = current k" "idling (put_thread k t T) = idling k" "ready (put_thread k t T) = ready k"
  "sems (put_thread k t T) = sems k" "locks (put_thread k t T) = locks k" "conds (put_thread k t T) = conds k"
  "chans (put_thread k t T) = chans k" "slists (put_thread k t T) = slists k"
  "toBeDestroyed (put_thread k t T) = toBeDestroyed k" "length (threads (put_thread k t T)) = length (threads k)"
  by (simp_all add: put_thread_def)

lemma put_thread_nth:
  "threads (put_thread k t T) ! u = (if u = t \<and> t < length (threads k) then T else threads k ! u)"
  by (cases "t < length (threads k)") (simp_all add: put_thread_def nth_list_update list_update_beyond)

lemma valid_put: "t_deleted T = t_deleted (threads k ! t) \<Longrightarrow> valid (put_thread k t T) u = valid k u"
  by (auto simp add: valid_def put_thread_nth)

lemma delete_carcass_mid:
  assumes inv: "mid_inv k" and r: "running k (current k)" and d: "delete_carcass k = Inr k'"
  shows "mid_inv k'" and "running k' (current k)" and "queued k' = queued k" and "current k' = current k"
    and "idling k' = idling k" and "frame k k'"
proof -
  show "queued k' = queued k" "current k' = current k" "idling k' = idling k" "frame k k'"
    using d by (auto simp add: delete_carcass_def res_simps frame_simps intro!: frame_put split: option.splits)
  have "mid_inv k' \<and> running k' (current k)"
  proof (cases "toBeDestroyed k")
    case None
    with d inv r show ?thesis by (simp add: delete_carcass_def)
  next
    case (Some z)
    let ?T = "(threads k ! z)\<lparr>t_deleted := True\<rparr>"
    from d Some have z: "z \<noteq> current k" "valid k z" "k' = (put_thread k z ?T)\<lparr>toBeDestroyed := None\<rparr>"
      by (auto simp add: delete_carcass_def res_simps)
    have zq: "z \<notin># queued k" using inv Some by (simp add: mid_inv_def)
    have v: "valid k' u = (u \<noteq> z \<and> valid k u)" for u by (auto simp add: z(3) valid_def put_thread_nth)
    have st: "t_status (threads k' ! u) = t_status (threads k ! u)" for u by (simp add: z(3) put_thread_nth)
    have q: "queued k' = queued k" "ready_ms k' = ready_ms k" "wait_ms k' = wait_ms k" "ready k' = ready k" "toBeDestroyed k' = None"
      by (simp_all add: z(3))
    show ?thesis using inv r z(1) zq unfolding mid_inv_def running_def by (auto simp add: v st q)
  qed
  then show "mid_inv k'" "running k' (current k)" by simp_all
qed

lemma Run_mid:
  assumes inv: "mid_inv k" and t: "t \<notin># queued k" "valid k t" "toBeDestroyed k \<noteq> Some t" and r: "Run k t = Inr k'"
  shows "kernel_inv k'" and "current k' = t" and "\<not> idling k'" and "queued k' = queued k" and "frame k k'"
proof -
  let ?k = "put_thread (k\<lparr>current := t, idling := False\<rparr>) t ((threads k ! t)\<lparr>t_status := RUNNING\<rparr>)"
  have st: "t_status (threads ?k ! u) = (if u = t then RUNNING else t_status (threads k ! u))" for u
    using t(2) by (simp add: put_thread_nth valid_def)
  have v: "valid ?k u = valid k u" for u by (auto simp add: valid_def put_thread_nth)
  have tq: "t \<notin># ready_ms k" "t \<notin># wait_ms k" using t(1) by (simp_all add: queued_def)
  have m: "mid_inv ?k" using inv t tq unfolding mid_inv_def by (auto simp add: st v)
  have rn: "running ?k (current ?k)" using t by (simp add: running_def st v)
  have fr: "frame k ?k" by (rule frame_trans [OF _ frame_put]) (simp_all add: frame_simps frame_def same_objects_def same_threads_def)
  consider (started) "delete_carcass ?k = Inr k'" | (fresh) "k' = put_thread ?k t ((threads ?k ! t)\<lparr>t_started := True\<rparr>)"
    using r by (auto simp add: Run_def res_simps split: if_splits)
  then have "kernel_inv k' \<and> current k' = t \<and> \<not> idling k' \<and> queued k' = queued k \<and> frame k k'"
  proof cases
    case started
    note d = delete_carcass_mid [OF m rn started]
    from d(6) fr have "frame k k'" by (rule frame_trans [rotated])
    with d show ?thesis by (simp add: kernel_inv_def)
  next
    case fresh
    let ?T = "(threads ?k ! t)\<lparr>t_started := True\<rparr>"
    have st': "t_status (threads k' ! u) = t_status (threads ?k ! u)" for u unfolding fresh by (simp add: put_thread_nth)
    have v': "valid k' u = valid ?k u" for u unfolding fresh by (rule valid_put) simp
    have q': "queued k' = queued ?k" "ready_ms k' = ready_ms ?k" "wait_ms k' = wait_ms ?k" "ready k' = ready ?k"
      "toBeDestroyed k' = toBeDestroyed ?k" "current k' = current ?k" "idling k' = idling ?k"
      unfolding fresh by simp_all
    have "mid_inv k'" using m unfolding mid_inv_def q' v' st' .
    moreover have "running k' (current k')" using rn unfolding running_def q' v' st' .
    moreover have "frame ?k k'" unfolding fresh by (rule frame_put) simp_all
    with fr have "frame k k'" by (rule frame_trans)
    ultimately show ?thesis using q' by (simp add: kernel_inv_def)
  qed
  then show "kernel_inv k'" "current k' = t" "\<not> idling k'" "queued k' = queued k" "frame k k'" by simp_all
qed

lemma pick_next:
  assumes inv: "mid_inv k" and f: "FindNextToRun k = Inr (Some t, k1)" and r: "Run k1 t = Inr k'"
  shows "kernel_inv k'" and "places k' = queued k" and "frame k k'" and "\<not> idling k'" and "current k' = t"
proof -
  note n = FindNext_mid [OF inv f]
  note u = Run_mid [OF n(1,3,4,5) r]
  have "frame k k1" by (subst n(6)) (simp add: frame_simps)
  with u(5) show "frame k k'" using frame_trans by blast
  show "kernel_inv k'" "\<not> idling k'" "current k' = t" using u by simp_all
  show "places k' = queued k" using u n(2) by (simp add: places_def)
qed

lemma Sleep_mid:
  assumes m: "mid_inv (put_thread k (current k) ((threads k ! current k)\<lparr>t_status := BLOCKED\<rparr>))"
    and s: "Thread_Sleep k = Inr k'"
  shows "kernel_inv k'" and "places k' = queued k" and "frame k k'"
proof -
  let ?k = "put_thread k (current k) ((threads k ! current k)\<lparr>t_status := BLOCKED\<rparr>)"
  have fr: "frame k ?k" by (rule frame_put) simp_all
  from s obtain r k1 where f: "FindNextToRun ?k = Inr (r, k1)"
    and c: "case r of None \<Rightarrow> k' = k1\<lparr>idling := True\<rparr> | Some t \<Rightarrow> Run k1 t = Inr k'"
    by (auto simp add: Thread_Sleep_def res_simps split: option.splits)
  have "kernel_inv k' \<and> places k' = queued k \<and> frame k k'"
  proof (cases r)
    case None
    with f c FindNext_none have k': "k' = ?k\<lparr>idling := True\<rparr>" by auto
    have "mid_inv k'" using m unfolding k' mid_inv_def by (simp add: valid_def)
    with fr show ?thesis by (simp add: kernel_inv_def k' places_def frame_simps)
  next
    case (Some t)
    note p = pick_next [OF m f [unfolded Some]]
    from c Some have "Run k1 t = Inr k'" by simp
    from p [OF this] fr frame_trans show ?thesis by auto
  qed
  then show "kernel_inv k'" "places k' = queued k" "frame k k'" by simp_all
qed

section \<open>Statements and the places of threads\<close>

text \<open>A statement that leaves the queues, the statuses and the current thread alone.\<close>

definition quiet :: "kernel \<Rightarrow> kernel \<Rightarrow> bool" where
  "quiet k k' \<longleftrightarrow> length (ready k') = length (ready k) \<and> ready_ms k' = ready_ms k \<and> wait_ms k' = wait_ms k \<and>
     current k' = current k \<and> idling k' = idling k \<and> toBeDestroyed k' = toBeDestroyed k \<and>
     length (threads k') = length (threads k) \<and>
     (\<forall>u. t_status (threads k' ! u) = t_status (threads k ! u) \<and> t_deleted (threads k' ! u) = t_deleted (threads k ! u))"

lemma quiet_refl [simp]: "quiet k k" and quiet_trans: "quiet k k1 \<Longrightarrow> quiet k1 k2 \<Longrightarrow> quiet k k2"
  by (simp_all add: quiet_def)

lemma quiet_inv:
  assumes "quiet k k'"
  shows "kernel_inv k' = kernel_inv k" and "places k' = places k" and "valid k' u = valid k u"
    and "mid_inv k' = mid_inv k" and "queued k' = queued k" and "running k' u = running k u"
proof -
  have q: "queued k' = queued k" "ready_ms k' = ready_ms k" "wait_ms k' = wait_ms k" "idling k' = idling k"
    "current k' = current k" "toBeDestroyed k' = toBeDestroyed k" "length (ready k') = length (ready k)"
    "\<And>u. t_status (threads k' ! u) = t_status (threads k ! u)"
    using assms by (simp_all add: quiet_def queued_def)
  show v: "valid k' u = valid k u" for u using assms by (simp add: quiet_def valid_def)
  show m: "mid_inv k' = mid_inv k" by (simp add: mid_inv_def q v)
  show r: "running k' u = running k u" for u by (simp add: running_def q v)
  show "kernel_inv k' = kernel_inv k" by (simp add: kernel_inv_def q m r)
  show "places k' = places k" "queued k' = queued k" by (simp_all add: places_def q)
qed

lemma quiet_put:
  "t_status T = t_status (threads k ! t) \<Longrightarrow> t_deleted T = t_deleted (threads k ! t) \<Longrightarrow> quiet k (put_thread k t T)"
  by (simp add: quiet_def put_thread_nth)

lemma quiet_objects [simp]:
  "quiet k (k\<lparr>locks := a\<rparr>)" "quiet k (k\<lparr>conds := b\<rparr>)" "quiet k (k\<lparr>chans := c\<rparr>)" "quiet k (k\<lparr>slists := d\<rparr>)"
  by (simp_all add: quiet_def ready_ms_def wait_ms_def)

lemma quiet_sems: "s < length (sems k) \<Longrightarrow> s_queue S = s_queue (sems k ! s) \<Longrightarrow> quiet k (k\<lparr>sems := (sems k)[s := S]\<rparr>)"
  using wait_ms_update [of s k S] by (simp add: quiet_def ready_ms_def)

lemma quiet_call: "call k ops = Inr k' \<Longrightarrow> quiet k k'"
  by (auto simp add: call_def res_simps intro!: quiet_put)

lemma priorities_thread [simp]:
  "t_status (setPriorityTemp p T) = t_status T" "t_deleted (setPriorityTemp p T) = t_deleted T" "t_prog (setPriorityTemp p T) = t_prog T"
  "t_status (setPriority p T) = t_status T" "t_deleted (setPriority p T) = t_deleted T" "t_prog (setPriority p T) = t_prog T"
  by (simp_all add: setPriorityTemp_def setPriority_def Let_def)

lemma move_ready:
  assumes "List_Has (ready k ! nat p) t" and "removeFromPriorityList k t p = Inr k1" and "addToPriorityList k1 t p' = Inr k'"
  shows "quiet k k'"
proof -
  from assms(2) have p: "nat p < length (ready k)" "k1 = k\<lparr>ready := (ready k)[nat p := List_Remove (ready k ! nat p) t]\<rparr>"
    by (auto simp add: removeFromPriorityList_def res_simps)
  from assms(3) have p': "nat p' < length (ready k1)" "k' = k1\<lparr>ready := (ready k1)[nat p' := List_Append (ready k1 ! nat p') t]\<rparr>"
    by (auto simp add: addToPriorityList_def res_simps)
  have "t \<in> set (items (ready k ! nat p))" using assms(1) by (simp add: Has_iff)
  then have R: "mset (items (ready k ! nat p)) = add_mset t (mset (remove1 t (items (ready k ! nat p))))" by simp
  have "ready_ms k1 + mset (items (ready k ! nat p)) = ready_ms k + mset (remove1 t (items (ready k ! nat p)))"
    using ready_ms_update [OF p(1), of "List_Remove (ready k ! nat p) t"] unfolding p(2) items_Remove .
  then have "add_mset t (ready_ms k1) + mset (remove1 t (items (ready k ! nat p))) =
      ready_ms k + mset (remove1 t (items (ready k ! nat p)))"
    by (subst (asm) R) simp
  then have "add_mset t (ready_ms k1) = ready_ms k" by (simp only: add_right_cancel)
  moreover have "ready_ms k' = add_mset t (ready_ms k1)"
    using ready_ms_update [OF p'(1), of "List_Append (ready k1 ! nat p') t"] unfolding p'(2) by simp
  ultimately show ?thesis using p(1) p'(1) by (simp add: quiet_def p(2) p'(2) wait_ms_def)
qed

lemma Lock_check_quiet:
  assumes "Lock_check k l = Inr k'"
  shows "quiet k k'"
proof (cases "lockerThread (locks k ! l)")
  case None
  with assms show ?thesis by (auto simp add: Lock_check_def res_simps)
next
  case (Some t)
  let ?T = "threads k ! t" and ?p = "priority (threads k ! current k)"
  show ?thesis
  proof (cases "?p > priority ?T")
    case False
    with assms Some show ?thesis by (auto simp add: Lock_check_def res_simps getPriority_def)
  next
    case True
    let ?k = "put_thread k t (setPriorityTemp ?p ?T)"
    have q: "quiet k ?k" by (rule quiet_put) simp_all
    from assms Some True obtain r where r: "isReady ?k t (priority ?T) = Inr r"
      and c: "if r then \<exists>k1. removeFromPriorityList ?k t (priority ?T) = Inr k1 \<and> addToPriorityList k1 t ?p = Inr k' else k' = ?k"
      by (auto simp add: Lock_check_def res_simps getPriority_def split: if_splits)
    show ?thesis
    proof (cases r)
      case True
      with r have "List_Has (ready ?k ! nat (priority ?T)) t" by (auto simp add: isReady_def res_simps)
      with c True move_ready [of ?k "priority ?T" t] q quiet_trans show ?thesis by metis
    qed (use c q in simp)
  qed
qed

lemma Lock_leave_quiet: "Lock_leave k l = Inr k' \<Longrightarrow> quiet k k'"
  by (auto simp add: Lock_leave_def res_simps split: if_splits intro!: quiet_put quiet_trans [OF quiet_put quiet_objects(1)])

lemma P_inv:
  assumes inv: "kernel_inv k" and c: "\<not> idling k" and p: "Semaphore_P k s = Inr k'"
  shows "kernel_inv k' \<and> places k' = places k"
proof -
  from p have s: "s < length (sems k)" by (auto simp add: Semaphore_P_def res_simps)
  let ?S = "sems k ! s" and ?c = "current k"
  show ?thesis
  proof (cases "s_value ?S = 0")
    case False
    with p s have "k' = k\<lparr>sems := (sems k)[s := ?S\<lparr>s_value := s_value ?S - 1\<rparr>]\<rparr>" by (simp add: Semaphore_P_def)
    then have "quiet k k'" using quiet_sems [OF s, of "?S\<lparr>s_value := s_value ?S - 1\<rparr>"] by simp
    from quiet_inv(1,2) [OF this] inv show ?thesis by simp
  next
    case True
    let ?k1 = "k\<lparr>sems := (sems k)[s := ?S\<lparr>s_queue := List_Append (s_queue ?S) ?c\<rparr>]\<rparr>"
    let ?k2 = "put_thread ?k1 ?c ((threads k ! ?c)\<lparr>t_prog := SemP s # t_prog (threads k ! ?c)\<rparr>)"
    from p s True have k2: "Thread_Sleep ?k2 = Inr k'"
      by (auto simp add: Semaphore_P_def res_simps call_def)
    have rn: "running k ?c" and m: "mid_inv k" using inv c by (simp_all add: kernel_inv_def)
    have wm: "wait_ms ?k1 = add_mset ?c (wait_ms k)"
      using wait_ms_update [OF s, of "?S\<lparr>s_queue := List_Append (s_queue ?S) ?c\<rparr>"] by simp
    have rm: "ready_ms ?k1 = ready_ms k" by (simp add: ready_ms_def)
    have q1: "queued ?k1 = add_mset ?c (queued k)" by (simp add: queued_def wm rm)
    then have qd: "queued ?k2 = add_mset ?c (queued k)" by simp
    let ?k3 = "put_thread ?k2 ?c ((threads ?k2 ! ?c)\<lparr>t_status := BLOCKED\<rparr>)"
    have cl: "?c < length (threads k)" "?c \<notin># queued k" "valid k ?c" using rn by (simp_all add: running_def valid_def)
    have st: "t_status (threads ?k3 ! u) = (if u = ?c then BLOCKED else t_status (threads k ! u))" for u
      using cl(1) by (simp add: put_thread_nth)
    have v: "valid ?k3 u = valid k u" for u by (auto simp add: valid_def put_thread_nth)
    have zc: "toBeDestroyed k \<noteq> Some ?c" using m rn by (auto simp add: mid_inv_def running_def)
    have cq: "?c \<notin># ready_ms k" "?c \<notin># wait_ms k" using cl(2) by (simp_all add: queued_def)
    have m3: "mid_inv ?k3"
      using m cl cq zc unfolding mid_inv_def by (auto simp add: st v wm rm q1 count_eq_zero_iff)
    have cur: "current ?k2 = ?c" by simp
    from Sleep_mid [OF _ k2] m3 have "kernel_inv k' \<and> places k' = queued ?k2" unfolding cur by blast
    then show ?thesis using c unfolding qd by (simp add: places_def [of k])
  qed
qed

lemma V_inv:
  assumes inv: "kernel_inv k" and v: "Semaphore_V k s = Inr k'"
  shows "kernel_inv k' \<and> places k' = places k"
proof -
  from v have s: "s < length (sems k)" by (auto simp add: Semaphore_V_def res_simps)
  let ?S = "sems k ! s"
  let ?q = "snd (List_Pop (s_queue ?S))"
  let ?k1 = "k\<lparr>sems := (sems k)[s := ?S\<lparr>s_queue := ?q\<rparr>]\<rparr>"
  from v s obtain k2 where k2: "case fst (List_Pop (s_queue ?S)) of None \<Rightarrow> k2 = ?k1 | Some t \<Rightarrow> ReadyToRun ?k1 t = Inr k2"
    and k': "k' = k2\<lparr>sems := (sems k2)[s := ?S\<lparr>s_queue := ?q, s_value := s_value ?S + 1\<rparr>]\<rparr>"
    by (auto simp add: Semaphore_V_def res_simps Let_def split: option.splits prod.splits)
  have ms: "mid_inv k" using inv by (simp add: kernel_inv_def)
  show ?thesis
  proof (cases "items (s_queue ?S)")
    case Nil
    then have "fst (List_Pop (s_queue ?S)) = None" "items ?q = []" by (simp_all add: Pop_result items_Pop)
    with k2 k' have e: "k' = k\<lparr>sems := (sems k)[s := ?S\<lparr>s_queue := ?q, s_value := s_value ?S + 1\<rparr>]\<rparr>" by simp
    have "wait_ms k' = wait_ms k"
      using wait_ms_update [OF s, of "?S\<lparr>s_queue := ?q, s_value := s_value ?S + 1\<rparr>"] Nil \<open>items ?q = []\<close> unfolding e by simp
    then have "quiet k k'" by (simp add: quiet_def e ready_ms_def)
    from quiet_inv(1,2) [OF this] inv show ?thesis by simp
  next
    case (Cons t ts)
    then have p: "fst (List_Pop (s_queue ?S)) = Some t" "items ?q = ts" by (simp_all add: Pop_result items_Pop)
    with k2 have r: "ReadyToRun ?k1 t = Inr k2" by simp
    have wm: "add_mset t (wait_ms ?k1) = wait_ms k"
      using wait_ms_update [OF s, of "?S\<lparr>s_queue := ?q\<rparr>"] Cons p(2) by simp
    have rm: "ready_ms ?k1 = ready_ms k" by (simp add: ready_ms_def)
    have q1: "queued k = add_mset t (queued ?k1)" by (simp add: queued_def rm flip: wm)
    have cnt: "count (queued k) u \<le> 1" for u using ms by (simp add: mid_inv_def)
    have "count (queued ?k1) t = 0" using cnt [of t] by (simp add: q1)
    then have tq: "t \<notin># queued ?k1" by (simp add: count_eq_zero_iff)
    have zt: "toBeDestroyed ?k1 \<noteq> Some t" using ms q1 by (auto simp add: mid_inv_def)
    have v1: "valid ?k1 u = valid k u" for u by (simp add: valid_def)
    have "count (queued ?k1) u \<le> 1" for u using cnt [of u] by (simp add: q1 split: if_splits)
    then have m1: "mid_inv ?k1"
      using ms unfolding mid_inv_def by (simp add: q1 rm v1 flip: wm)
    note rr = ReadyToRun_mid [OF m1 tq zt r]
    have s2: "s < length (sems k2)" "s_queue (sems k2 ! s) = ?q" using rr(6) s by simp_all
    have "quiet k2 k'" unfolding k' using s2 by (intro quiet_sems) simp_all
    note q2 = quiet_inv [OF this]
    have qk: "queued k' = queued k" using q2(5) rr(2) q1 by simp
    have cur: "current k' = current k" "idling k' = idling k" using rr(4,5) by (simp_all add: k')
    have "running k' (current k)" if "\<not> idling k"
    proof -
      have rk: "running k (current k)" using inv that by (simp add: kernel_inv_def)
      then have ct: "current k \<noteq> t" using q1 by (auto simp add: running_def)
      from r have "threads k2 = (threads k)[t := (threads k ! t)\<lparr>t_status := READY\<rparr>]"
        by (auto simp add: ReadyToRun_eq Let_def)
      then have "threads k' = (threads k)[t := (threads k ! t)\<lparr>t_status := READY\<rparr>]" by (simp add: k')
      with rk ct show ?thesis by (simp add: running_def qk valid_def)
    qed
    then have "kernel_inv k'" using q2(4) rr(1) by (auto simp add: kernel_inv_def cur)
    then show ?thesis by (simp add: places_def qk cur)
  qed
qed

lemma Yield_inv:
  assumes inv: "kernel_inv k" and c: "\<not> idling k" and y: "Thread_Yield k = Inr k'"
  shows "kernel_inv k' \<and> places k' = places k"
proof -
  have m: "mid_inv k" and rn: "running k (current k)" using inv c by (simp_all add: kernel_inv_def)
  from y obtain r k1 where f: "FindNextToRun k = Inr (r, k1)"
    and d: "case r of None \<Rightarrow> k' = k1 | Some t \<Rightarrow> \<exists>k2. ReadyToRun k1 (current k1) = Inr k2 \<and> Run k2 t = Inr k'"
    by (auto simp add: Thread_Yield_def res_simps split: option.splits)
  show ?thesis
  proof (cases r)
    case None
    with f d FindNext_none inv show ?thesis by auto
  next
    case (Some t)
    note n = FindNext_mid [OF m f [unfolded Some]]
    have k1: "current k1 = current k" "threads k1 = threads k" "toBeDestroyed k1 = toBeDestroyed k"
      by (subst n(6), simp)+
    from d Some obtain k2 where k2: "ReadyToRun k1 (current k) = Inr k2" "Run k2 t = Inr k'" by (auto simp add: k1)
    have ct: "current k \<noteq> t" "current k \<notin># queued k1" using rn n(2) by (auto simp add: running_def)
    have z: "toBeDestroyed k1 \<noteq> Some (current k)" using m rn by (auto simp add: mid_inv_def running_def k1)
    note r2 = ReadyToRun_mid [OF n(1) ct(2) z k2(1)]
    have "valid k2 t"
      using k2(1) n(4) ct(1) by (auto simp add: ReadyToRun_eq Let_def valid_def)
    from Run_mid [OF r2(1) _ this _ k2(2)] r2(2,7) ct n(3,5)
    have "kernel_inv k'" "current k' = t" "\<not> idling k'" "queued k' = queued k2" by auto
    then show ?thesis using c r2(2) n(2) by (simp add: places_def)
  qed
qed

lemma Sleep_wake_inv:
  assumes inv: "kernel_inv k" and c: "idling k" and y: "Sleep_wake k = Inr k'"
  shows "kernel_inv k' \<and> places k' = places k"
proof -
  have m: "mid_inv k" using inv by (simp add: kernel_inv_def)
  from y obtain r k1 where f: "FindNextToRun k = Inr (r, k1)"
    and d: "case r of None \<Rightarrow> k' = k1 | Some t \<Rightarrow> Run k1 t = Inr k'"
    by (auto simp add: Sleep_wake_def res_simps split: option.splits)
  show ?thesis
  proof (cases r)
    case None
    with f d FindNext_none inv show ?thesis by auto
  next
    case (Some t)
    from pick_next [OF m f [unfolded Some]] d Some c show ?thesis by (simp add: places_def)
  qed
qed

lemma Exit_inv:
  assumes inv: "kernel_inv k" and c: "\<not> idling k" and e: "Finish_exit k = Inr k'"
  shows "kernel_inv k' \<and> places k = add_mset (current k) (places k')"
proof -
  let ?k = "k\<lparr>toBeDestroyed := Some (current k)\<rparr>"
  have m: "mid_inv k" and rn: "running k (current k)" using inv c by (simp_all add: kernel_inv_def)
  let ?k1 = "put_thread ?k (current k) ((threads k ! current k)\<lparr>t_status := BLOCKED\<rparr>)"
  have v: "valid ?k1 u = valid k u" for u by (auto simp add: valid_def put_thread_nth)
  have st: "t_status (threads ?k1 ! u) = (if u = current k then BLOCKED else t_status (threads k ! u))" for u
    using rn by (simp add: put_thread_nth running_def valid_def)
  have q: "current k \<notin># ready_ms k" "current k \<notin># wait_ms k" using rn by (simp_all add: running_def queued_def)
  have "mid_inv ?k1"
    using m rn q unfolding mid_inv_def running_def by (auto simp add: v st)
  with Sleep_mid [of ?k k'] e have "kernel_inv k'" "places k' = queued k" by (simp_all add: Finish_exit_def)
  with c show ?thesis by (simp add: places_def)
qed

lemma Fork_inv:
  assumes inv: "kernel_inv k" and f: "Thread_Fork k t func = Inr k'" and new: "t_status (threads k ! t) = JUST_CREATED"
  shows "kernel_inv k' \<and> places k' = add_mset t (places k)"
proof -
  let ?k = "put_thread k t ((threads k ! t)\<lparr>t_prog := func\<rparr>)"
  have q: "quiet k ?k" by (rule quiet_put) simp_all
  note qi = quiet_inv [OF q]
  from f obtain k1 where k1: "ReadyToRun ?k t = Inr k1" and k2: "k' = k1 \<or> call k1 [Join t] = Inr k'"
    by (auto simp add: Thread_Fork_def res_simps split: if_splits)
  have m: "mid_inv ?k" using inv qi(4) by (simp add: kernel_inv_def)
  have tq: "t \<notin># queued ?k" using inv new by (auto simp add: kernel_inv_def mid_inv_def queued_def)
  have z: "toBeDestroyed ?k \<noteq> Some t" using inv new by (auto simp add: kernel_inv_def mid_inv_def)
  note r = ReadyToRun_mid [OF m tq z k1]
  have "running k1 (current k)" if "\<not> idling k"
  proof -
    have rk: "running k (current k)" using inv that by (simp add: kernel_inv_def)
    then have ct: "current k \<noteq> t" using new by (auto simp add: running_def)
    from k1 have "threads k1 = (threads ?k)[t := (threads ?k ! t)\<lparr>t_status := READY\<rparr>]" by (auto simp add: ReadyToRun_eq Let_def)
    moreover have "queued k1 = add_mset t (queued k)" using r(2) by simp
    ultimately show ?thesis using rk ct by (auto simp add: running_def valid_def put_thread_nth)
  qed
  then have "kernel_inv k1" using r(1,4,5) by (auto simp add: kernel_inv_def)
  moreover have "places k1 = add_mset t (places k)" using r(2,4,5) by (simp add: places_def)
  ultimately show ?thesis using k2 quiet_inv(1,2) [OF quiet_call] by auto
qed

text \<open>The statements other than \<open>P\<close>, \<open>V\<close>, \<open>Yield\<close>, \<open>Fork\<close> and the end of \<open>Finish\<close> are quiet.\<close>

lemma exec_quiet:
  assumes "exec op k = Inr k'"
    and "case op of SemP s \<Rightarrow> False | SemV s \<Rightarrow> False | Yield \<Rightarrow> False | Fork t f \<Rightarrow> False | Exit \<Rightarrow> False | _ \<Rightarrow> True"
  shows "quiet k k'"
  using assms
  by (cases op) (auto simp add: Lock_Acquire_def Lock_Release_def Lock_own_def Condition_Wait_def
      Condition_Signal_def Condition_Broadcast_def Cond_enter_def Cond_lower_def Cond_wake_def
      Channel_Send_def Channel_Receive_def Chan_put_def Chan_get_def SynchList_Append_def SynchList_Pop_def
      List_put_def List_wait_def List_take_def Thread_Join_def Thread_Finish_def res_simps
      intro: Lock_check_quiet Lock_leave_quiet quiet_call intro!: quiet_put quiet_trans [OF quiet_objects(4) quiet_put]
      split: if_splits prod.splits)

definition next_op :: "kernel \<Rightarrow> op" where
  "next_op k = (case t_prog (threads k ! current k) of [] \<Rightarrow> Finish 0 | op # _ \<Rightarrow> op)"

lemma exec_inv:
  assumes inv: "kernel_inv k" and c: "\<not> idling k" and e: "exec op k = Inr k'"
    and fresh: "\<And>t f. op = Fork t f \<Longrightarrow> t_status (threads k ! t) = JUST_CREATED"
  shows "kernel_inv k'" and "case op of Fork t f \<Rightarrow> places k' = add_mset t (places k)
     | Exit \<Rightarrow> places k = add_mset (current k) (places k') | _ \<Rightarrow> places k' = places k"
proof -
  have "kernel_inv k' \<and> (case op of Fork t f \<Rightarrow> places k' = add_mset t (places k)
     | Exit \<Rightarrow> places k = add_mset (current k) (places k') | _ \<Rightarrow> places k' = places k)"
  proof (cases "case op of SemP s \<Rightarrow> False | SemV s \<Rightarrow> False | Yield \<Rightarrow> False | Fork t f \<Rightarrow> False | Exit \<Rightarrow> False | _ \<Rightarrow> True")
    case True
    from quiet_inv(1,2) [OF exec_quiet [OF e True]] inv True show ?thesis by (auto split: op.splits)
  next
    case False
    with e P_inv [OF inv c] V_inv [OF inv] Yield_inv [OF inv c] Exit_inv [OF inv c] Fork_inv [OF inv] fresh
    show ?thesis by (cases op) auto
  qed
  then show "kernel_inv k'" "case op of Fork t f \<Rightarrow> places k' = add_mset t (places k)
     | Exit \<Rightarrow> places k = add_mset (current k) (places k') | _ \<Rightarrow> places k' = places k" by simp_all
qed

lemma kstep_inv:
  assumes inv: "kernel_inv k" and c: "\<not> idling k" and e: "kstep k = Inr k'"
    and fresh: "\<And>t f. next_op k = Fork t f \<Longrightarrow> t_status (threads k ! t) = JUST_CREATED"
  shows "kernel_inv k'" and "case next_op k of Fork t f \<Rightarrow> places k' = add_mset t (places k)
     | Exit \<Rightarrow> places k = add_mset (current k) (places k') | _ \<Rightarrow> places k' = places k"
proof -
  let ?T = "threads k ! current k"
  have "kernel_inv k' \<and> (case next_op k of Fork t f \<Rightarrow> places k' = add_mset t (places k)
     | Exit \<Rightarrow> places k = add_mset (current k) (places k') | _ \<Rightarrow> places k' = places k)"
  proof (cases "t_prog ?T")
    case Nil
    with e c have "exec (Finish 0) k = Inr k'" by (auto simp add: kstep_def res_simps)
    from exec_inv [OF inv c this] Nil show ?thesis by (simp add: next_op_def)
  next
    case (Cons op ops)
    let ?k = "put_thread k (current k) (?T\<lparr>t_prog := ops\<rparr>)"
    from e c Cons have x: "exec op ?k = Inr k'" by (auto simp add: kstep_def res_simps)
    have op: "next_op k = op" by (simp add: next_op_def Cons)
    have q: "quiet k ?k" by (rule quiet_put) simp_all
    have st: "t_status (threads ?k ! u) = t_status (threads k ! u)" for u by (simp add: put_thread_nth)
    have "t_status (threads ?k ! t) = JUST_CREATED" if "op = Fork t f" for t f using fresh [of t f] op that st by simp
    from exec_inv [OF _ _ x this] inv c quiet_inv(1,2) [OF q] op show ?thesis by (cases op) simp_all
  qed
  then show "kernel_inv k'" "case next_op k of Fork t f \<Rightarrow> places k' = add_mset t (places k)
     | Exit \<Rightarrow> places k = add_mset (current k) (places k') | _ \<Rightarrow> places k' = places k" by simp_all
qed

section \<open>Properties of scheduling\<close>

text \<open>Runs of the kernel in which a thread is forked at most once.\<close>

definition fork_fresh :: "kernel \<Rightarrow> bool" where
  "fork_fresh k \<longleftrightarrow> (case next_op k of Fork t f \<Rightarrow> \<not> idling k \<longrightarrow> t_status (threads k ! t) = JUST_CREATED | _ \<Rightarrow> True)"

definition fresh_step :: "nat set \<Rightarrow> kernel \<Rightarrow> kernel \<Rightarrow> bool" where
  "fresh_step D k k' \<longleftrightarrow> fork_fresh k \<and> kernel_step D k k'"

definition kernel_run :: "nat set \<Rightarrow> kernel \<Rightarrow> kernel \<Rightarrow> bool" where
  "kernel_run D = (fresh_step D)\<^sup>*\<^sup>*"

lemma kernel_step_inv:
  assumes "kernel_step D k k'" and "kernel_inv k" and "fork_fresh k"
  shows "kernel_inv k'" and "places k' = places k \<or>
      (\<exists>t f. next_op k = Fork t f \<and> places k' = add_mset t (places k)) \<or>
      (next_op k = Exit \<and> places k = add_mset (current k) (places k'))"
proof -
  have "kernel_inv k' \<and> (places k' = places k \<or>
      (\<exists>t f. next_op k = Fork t f \<and> places k' = add_mset t (places k)) \<or>
      (next_op k = Exit \<and> places k = add_mset (current k) (places k')))"
    using assms(1)
  proof cases
    case run
    show ?thesis
    proof (cases "idling k")
      case True
      with run Sleep_wake_inv [OF assms(2) True] show ?thesis by (simp add: kstep_def)
    next
      case False
      have fresh: "\<And>t f. next_op k = Fork t f \<Longrightarrow> t_status (threads k ! t) = JUST_CREATED"
        using assms(3) False by (simp add: fork_fresh_def)
      note i = kstep_inv [OF assms(2) False run fresh]
      have "kernel_inv k'" by (rule i(1))
      moreover from i(2) have "case next_op k of Fork t f \<Rightarrow> places k' = add_mset t (places k)
        | Exit \<Rightarrow> places k = add_mset (current k) (places k') | _ \<Rightarrow> places k' = places k" .
      ultimately show ?thesis by (cases "next_op k") auto
    qed
  next
    case slice
    with Yield_inv [OF assms(2)] show ?thesis by blast
  next
    case (device s)
    with V_inv [OF assms(2)] show ?thesis by blast
  qed
  then show "kernel_inv k'" and "places k' = places k \<or>
      (\<exists>t f. next_op k = Fork t f \<and> places k' = add_mset t (places k)) \<or>
      (next_op k = Exit \<and> places k = add_mset (current k) (places k'))" by blast+
qed

interpretation places: step_invariant "fresh_step D" kernel_inv for D
  by unfold_locales (auto simp add: fresh_step_def intro: kernel_step_inv(1))

lemma kernel_inv_distinct: "kernel_inv k \<Longrightarrow> count (places k) t \<le> 1"
proof -
  assume k: "kernel_inv k"
  then have c: "count (queued k) t \<le> 1" by (simp add: kernel_inv_def mid_inv_def)
  have "t = current k \<Longrightarrow> \<not> idling k \<Longrightarrow> count (queued k) t = 0"
    using k by (simp add: kernel_inv_def running_def count_eq_zero_iff)
  with c show "count (places k) t \<le> 1" by (auto simp add: places_def)
qed

text \<open>A kernel at work: the main thread is about to fork a second one.\<close>

definition demo_thread :: "ThreadStatus \<Rightarrow> op list \<Rightarrow> thread" where
  "demo_thread st ops = \<lparr>t_status = st, t_prog = ops, priority = 3, priorityTemp = -1, joinable = False, t_channel = 0,
     t_started = (st \<noteq> JUST_CREATED), t_deleted = False, t_got = 0\<rparr>"

definition demo :: kernel where
  "demo = \<lparr>current = 0, idling = False,
     threads = [demo_thread RUNNING [Fork 1 [Acquire 0, Release 0], Acquire 0, Release 0], demo_thread JUST_CREATED []],
     ready = Scheduler_new, sems = [Semaphore_new 1], locks = [Lock_new 0], conds = [], chans = [], slists = [],
     toBeDestroyed = None\<rparr>"

definition demo_forked :: kernel where
  "demo_forked = demo\<lparr>threads := [demo_thread RUNNING [Acquire 0, Release 0],
     (demo_thread READY [Acquire 0, Release 0])\<lparr>t_started := False\<rparr>],
     ready := Scheduler_new[3 := List_Append List_new 1]\<rparr>"

lemma demo_inv: "kernel_inv demo"
  by (simp add: kernel_inv_def mid_inv_def running_def queued_def ready_ms_def wait_ms_def valid_def demo_def demo_thread_def
      Scheduler_new_def PRIORITY_SIZE_def Semaphore_new_def)

lemma demo_fork: "kernel_step {} demo demo_forked"
  by (rule kernel_step.run) code_simp

lemma demo_fresh: "fork_fresh demo"
  by code_simp

text \<open>Runs with their accounts: the threads that have been forked and those that have come to the end of \<open>Finish\<close> since the
  start, in order.\<close>

inductive kernel_history :: "nat set \<Rightarrow> kernel \<Rightarrow> nat list \<Rightarrow> nat list \<Rightarrow> kernel \<Rightarrow> bool" for D k0 where
  start: "kernel_history D k0 [] [] k0"
| fork: "kernel_history D k0 F E k \<Longrightarrow> \<not> idling k \<Longrightarrow> next_op k = Fork t f \<Longrightarrow> fork_fresh k \<Longrightarrow> kstep k = Inr k' \<Longrightarrow>
    kernel_history D k0 (F @ [t]) E k'"
| exit: "kernel_history D k0 F E k \<Longrightarrow> \<not> idling k \<Longrightarrow> next_op k = Exit \<Longrightarrow> kstep k = Inr k' \<Longrightarrow>
    kernel_history D k0 F (E @ [current k]) k'"
| other: "kernel_history D k0 F E k \<Longrightarrow> idling k \<or> next_op k \<noteq> Exit \<and> (\<forall>t f. next_op k \<noteq> Fork t f) \<Longrightarrow> kstep k = Inr k' \<Longrightarrow>
    kernel_history D k0 F E k'"
| slice: "kernel_history D k0 F E k \<Longrightarrow> \<not> idling k \<Longrightarrow> Thread_Yield k = Inr k' \<Longrightarrow> kernel_history D k0 F E k'"
| device: "kernel_history D k0 F E k \<Longrightarrow> s \<in> D \<Longrightarrow> Semaphore_V k s = Inr k' \<Longrightarrow> kernel_history D k0 F E k'"

text \<open>Every run has such a history.\<close>

lemma run_history: "kernel_run D k0 k \<Longrightarrow> \<exists>F E. kernel_history D k0 F E k"
  unfolding kernel_run_def
proof (induction rule: rtranclp_induct)
  case base
  show ?case using kernel_history.start by blast
next
  case (step k k')
  then obtain F E where h: "kernel_history D k0 F E k" by blast
  from step(2) have s: "fork_fresh k" "kernel_step D k k'" by (simp_all add: fresh_step_def)
  from s(2) show ?case
  proof cases
    case run
    consider (fork) t f where "\<not> idling k" "next_op k = Fork t f" | (exit) "\<not> idling k" "next_op k = Exit"
      | (other) "idling k \<or> next_op k \<noteq> Exit \<and> (\<forall>t f. next_op k \<noteq> Fork t f)" by blast
    then show ?thesis
    proof cases
      case fork
      then show ?thesis using kernel_history.fork [OF h _ _ s(1) run] by blast
    next
      case exit
      then show ?thesis using kernel_history.exit [OF h _ _ run] by blast
    next
      case other
      then show ?thesis using kernel_history.other [OF h _ run] by blast
    qed
  qed (use h kernel_history.slice kernel_history.device in blast)+
qed

lemma history_places:
  "kernel_history D k0 F E k \<Longrightarrow> kernel_inv k0 \<Longrightarrow> kernel_inv k \<and> places k + mset E = places k0 + mset F"
proof (induction rule: kernel_history.induct)
  case (fork F E k t f k')
  then have "t_status (threads k ! u) = JUST_CREATED" if "next_op k = Fork u g" for u g
    using that by (simp add: fork_fresh_def)
  from kstep_inv [OF _ fork(2) fork(5) this] fork show ?case by simp
next
  case (exit F E k k')
  from kstep_inv [OF _ exit(2) exit(4)] exit show ?case by simp
next
  case (other F E k k')
  show ?case
  proof (cases "idling k")
    case True
    with other Sleep_wake_inv [OF _ True] show ?thesis by (simp add: kstep_def)
  next
    case False
    from kstep_inv [OF _ False other(3)] other False show ?thesis by (cases "next_op k") simp_all
  qed
next
  case (slice F E k k')
  with Yield_inv [of k k'] show ?case by simp
next
  case (device F E k s k')
  with V_inv [of k s k'] show ?case by simp
qed simp

text \<open>C6: No thread is ever lost or duplicated. In every run of the kernel, whatever statements the threads execute, whenever
  time slices end and devices signal, the threads that are the current one, in a ready list or in the queue of a semaphore are
  exactly those that were in such a place at the start or have been forked since, less those that have finished; each of them is in
  exactly one of these places, with the status that says so, and no thread is in two.\<close>

theorem threads_in_one_place:
  assumes "kernel_history D k0 F E k" and "kernel_inv k0"
  shows "kernel_inv k \<and> places k + mset E = places k0 + mset F \<and>
     (\<forall>t. count (places k) t \<le> 1) \<and> (\<forall>t. t \<in># places k0 + mset F \<longrightarrow> t \<notin> set E \<longrightarrow> count (places k) t = 1)"
proof -
  have k: "kernel_inv k" and p: "places k + mset E = places k0 + mset F" using history_places [OF assms] by simp_all
  note one = kernel_inv_distinct [OF k]
  have "count (places k) t = 1" if "t \<in># places k0 + mset F" "t \<notin> set E" for t
  proof -
    have "t \<in># places k + mset E" using that(1) p by simp
    with that(2) have "t \<in># places k" by simp
    then have "0 < count (places k) t" by simp
    with one [of t] show ?thesis by linarith
  qed
  with k p one show ?thesis by blast
qed

theorem threads_in_one_place_witness:
  "kernel_history {} demo [1] [] demo_forked \<and> places demo_forked = places demo + {#1#} \<and> count (places demo_forked) 1 = 1"
proof -
  have op: "next_op demo = Fork 1 [Acquire 0, Release 0]" "\<not> idling demo" by code_simp+
  have "kstep demo = Inr demo_forked" by code_simp
  from kernel_history.fork [OF kernel_history.start op(2,1) demo_fresh this, of "{}"] have h: "kernel_history {} demo [1] [] demo_forked" by simp
  note t = threads_in_one_place [OF h demo_inv, THEN conjunct2]
  have "places demo_forked = places demo + {#1#}" using t [THEN conjunct1] by simp
  moreover from t [THEN conjunct2, THEN conjunct2, THEN spec, of 1] have "count (places demo_forked) 1 = 1" by simp
  ultimately show ?thesis using h by simp
qed

text \<open>A step of the kernel moves threads between these places without changing their multiset; only
  forking adds a thread to it, and only the end of \<open>Finish\<close> takes one, the current thread, away.\<close>

theorem step_conserves_threads:
  assumes "kernel_step D k k'" and "kernel_inv k" and "fork_fresh k"
  shows "places k' = places k \<or> (\<exists>t f. next_op k = Fork t f \<and> places k' = places k + {#t#}) \<or>
     (next_op k = Exit \<and> places k' = places k - {#current k#})"
  using kernel_step_inv(2) [OF assms] by auto

theorem step_conserves_threads_witness:
  "places demo_forked = places demo + {#1#}"
proof -
  have "places demo_forked = places demo \<or> (\<exists>t f. next_op demo = Fork t f \<and> places demo_forked = places demo + {#t#}) \<or>
     (next_op demo = Exit \<and> places demo_forked = places demo - {#current demo#})"
    by (rule step_conserves_threads [OF demo_fork demo_inv demo_fresh])
  moreover have "next_op demo = Fork 1 [Acquire 0, Release 0]" by code_simp
  moreover have "size (places demo_forked) = 2" and "size (places demo) = 1"
    by (simp_all add: places_def queued_def ready_ms_def wait_ms_def demo_forked_def demo_def Scheduler_new_def
        PRIORITY_SIZE_def Semaphore_new_def numeral_eq_Suc)
  ultimately show ?thesis by auto
qed

text \<open>The scheduler serves priorities strictly and each priority in order: it takes the head of the
  non-empty ready list of highest priority, changing nothing else, and finds nothing exactly when
  all the lists are empty.\<close>

theorem FindNextToRun_highest:
  assumes "length (ready k) = PRIORITY_SIZE"
  shows "if \<forall>i<5. items (ready k ! i) = [] then FindNextToRun k = Inr (None, k)
     else \<exists>i<5. \<exists>t l. FindNextToRun k = Inr (Some t, k\<lparr>ready := (ready k)[i := l]\<rparr>) \<and>
        items (ready k ! i) = t # items l \<and> (\<forall>j<5. i < j \<longrightarrow> items (ready k ! j) = [])"
proof -
  have ok: "\<exists>r k'. find_loop k is = Inr (r, k')" if "\<forall>i\<in>set is. i < length (ready k)" for "is"
    using that by (induction "is") (auto split: prod.splits)
  have mem: "\<forall>i\<in>set (rev [0..<PRIORITY_SIZE]). i < length (ready k)" using assms by auto
  from ok [OF this] obtain r k' where r: "FindNextToRun k = Inr (r, k')" unfolding FindNextToRun_def by blast
  show ?thesis
  proof (cases r)
    case None
    from find_loop_none [OF r [unfolded None FindNextToRun_def]] r None show ?thesis by (simp add: PRIORITY_SIZE_def)
  next
    case (Some t)
    from find_loop_some [OF r [unfolded Some FindNextToRun_def]] obtain pre i post l where
      f: "rev [0..<PRIORITY_SIZE] = pre @ i # post" "\<forall>j\<in>set pre. items (ready k ! j) = []"
        "items (ready k ! i) = t # items l" "k' = k\<lparr>ready := (ready k)[i := l]\<rparr>" by blast
    have "[0..<PRIORITY_SIZE] = rev post @ i # rev pre" using arg_cong [OF f(1), of rev] by simp
    then have s: "sorted (rev post @ i # rev pre)" "set (rev post @ i # rev pre) = {0..<PRIORITY_SIZE}" "distinct (rev post @ i # rev pre)"
      by (metis sorted_upt, metis set_upt, metis distinct_upt)
    have i5: "i < 5" using s(2) by (auto simp add: PRIORITY_SIZE_def)
    have "j \<in> set pre" if "j < 5" "i < j" for j
    proof -
      have "j \<in> set (rev post @ i # rev pre)" using s(2) that by (auto simp add: PRIORITY_SIZE_def)
      with s(1) that show ?thesis by (auto simp add: sorted_append)
    qed
    with f(2) have "\<forall>j<5. i < j \<longrightarrow> items (ready k ! j) = []" by blast
    with f(3,4) i5 r Some show ?thesis by auto
  qed
qed

theorem FindNextToRun_highest_witness:
  "length (ready demo_forked) = PRIORITY_SIZE \<and> (\<exists>i<5. \<exists>t l.
     FindNextToRun demo_forked = Inr (Some t, demo_forked\<lparr>ready := (ready demo_forked)[i := l]\<rparr>) \<and>
     items (ready demo_forked ! i) = t # items l \<and> (\<forall>j<5. i < j \<longrightarrow> items (ready demo_forked ! j) = []))"
proof -
  have l: "length (ready demo_forked) = PRIORITY_SIZE" by code_simp
  have "items (ready demo_forked ! 3) \<noteq> []" by code_simp
  then have "\<not> (\<forall>i<5. items (ready demo_forked ! i) = [])" by (meson numeral_less_iff semiring_norm)
  with FindNextToRun_highest [OF l] l show ?thesis by simp
qed

text \<open>Priority inheritance loses the thread's priority. When a thread that inherited a priority
  releases the lock, its priority is left at -1, and its next \<open>Yield\<close> with another thread ready
  indexes \<open>readyLists[-1]\<close>.\<close>

theorem inherited_priority_lost:
  assumes "l < length (locks k)" and "lockerThread (locks k ! l) = Some (current k)" and "valid k (current k)"
    and "priorityTemp (threads k ! current k) \<noteq> -1" and "\<exists>t k1. FindNextToRun k = Inr (Some t, k1)"
  shows "\<exists>k'. Lock_leave k l = Inr k' \<and> priority (threads k' ! current k) = -1 \<and> Thread_Yield k' = Inl OutOfBounds"
proof -
  let ?c = "current k" and ?T = "threads k ! current k"
  let ?T' = "setPriorityTemp (-1) (setPriority (getPriorityTemp ?T) ?T)"
  let ?k = "(put_thread k ?c ?T')\<lparr>locks := (locks k)[l := (locks k ! l)\<lparr>lockerThread := None\<rparr>]\<rparr>"
  have r: "Lock_leave k l = Inr ?k"
    using assms(1-4) by (simp add: Lock_leave_def IsHeldByCurrentThread_def get_thread_def upd_thread_def valid_def getPriorityTemp_def)
  have p: "priority (threads ?k ! ?c) = -1"
    using assms(3) by (simp add: put_thread_nth valid_def setPriorityTemp_def Let_def)
  obtain t k1 where f: "FindNextToRun k = Inr (Some t, k1)" using assms(5) by blast
  from find_loop_some [OF f [unfolded FindNextToRun_def]] obtain i l' where
    i: "i < length (ready k)" "k1 = k\<lparr>ready := (ready k)[i := l']\<rparr>" by blast
  have loop: "find_loop (k2\<lparr>ready := ready k\<rparr>) is = (case find_loop k is of Inl e \<Rightarrow> Inl e | Inr (r, k3) \<Rightarrow> Inr (r, k2\<lparr>ready := ready k3\<rparr>))" for "is" k2
    by (induction "is") (auto simp add: bindR_def split: sum.splits prod.splits)
  have e: "?k\<lparr>ready := ready k\<rparr> = ?k" by (simp add: put_thread_def)
  have "FindNextToRun ?k = Inr (Some t, ?k\<lparr>ready := ready k1\<rparr>)"
    using loop [of ?k "rev [0..<PRIORITY_SIZE]"] f unfolding FindNextToRun_def e by simp
  moreover have "get_thread (put_thread k' ?c T) ?c = Inr T" if "valid k' ?c" "\<not> t_deleted T" for k' T
    using that by (simp add: get_thread_def valid_def put_thread_def)
  ultimately have "Thread_Yield ?k = Inl OutOfBounds"
    using p assms(3)
    by (simp add: Thread_Yield_def ReadyToRun_def Thread_SetStatus_def IsThreadStatus_def upd_thread_def get_thread_def
        addToPriorityList_def rget_def valid_def put_thread_nth put_thread_def)
  with r p show ?thesis by blast
qed

definition demo_inherited :: kernel where
  "demo_inherited = demo_forked\<lparr>
     threads := (threads demo_forked)[0 := (demo_thread RUNNING [])\<lparr>priority := 4, priorityTemp := 3\<rparr>],
     locks := [(Lock_new 0)\<lparr>lockerThread := Some 0\<rparr>]\<rparr>"

theorem inherited_priority_lost_witness:
  "\<exists>k'. Lock_leave demo_inherited 0 = Inr k' \<and> priority (threads k' ! current demo_inherited) = -1 \<and>
     Thread_Yield k' = Inl OutOfBounds"
proof (rule inherited_priority_lost)
  show "0 < length (locks demo_inherited)" by code_simp
  show "lockerThread (locks demo_inherited ! 0) = Some (current demo_inherited)" by code_simp
  show "valid demo_inherited (current demo_inherited)" by code_simp
  show "priorityTemp (threads demo_inherited ! current demo_inherited) \<noteq> -1" by code_simp
  have "FindNextToRun demo_inherited = Inr (Some 1, demo_inherited\<lparr>ready := Scheduler_new\<rparr>)" by code_simp
  then show "\<exists>t k1. FindNextToRun demo_inherited = Inr (Some t, k1)" by blast
qed

end
