(* ===== verification/Threads_Locks.thy ===== *)
theory Threads_Locks
  imports Threads_Kernel
begin

text \<open>
  Mutual exclusion and wake-ups. The first part says what one statement of a thread changes: the
  statements the thread has still to run, the values and queues of the semaphores, the owners of
  the locks. The second part follows one lock. The continuation of a thread determines its phase
  with respect to the lock; the phases of all threads, the value of the lock's semaphore and the
  owner form the state of an abstract lock, whose steps the kernel's steps implement, and whose
  invariant gives mutual exclusion and that no assertion of the lock fails. The third part shows
  that no waiting thread is forgotten while its semaphore is available.
\<close>

section \<open>What a statement changes\<close>

definition prog :: "kernel \<Rightarrow> nat \<Rightarrow> op list" where
  "prog k t = t_prog (threads k ! t)"

definition vals :: "kernel \<Rightarrow> int list" where
  "vals k = map s_value (sems k)"

definition waiters :: "kernel \<Rightarrow> nat list list" where
  "waiters k = map (\<lambda>S. items (s_queue S)) (sems k)"

definition owners :: "kernel \<Rightarrow> nat option list" where
  "owners k = map lockerThread (locks k)"

text \<open>Which objects an object was built with, which never changes.\<close>

record shape =
  sh_locks :: "nat list"
  sh_conds :: "(nat \<times> nat) list"
  sh_chans :: "(nat \<times> nat \<times> nat) list"
  sh_lists :: "(nat \<times> nat) list"

definition shape_of :: "kernel \<Rightarrow> shape" where
  "shape_of k = \<lparr>sh_locks = map l_sem (locks k), sh_conds = map (\<lambda>C. (c_lock C, c_sem C)) (conds k),
     sh_chans = map (\<lambda>C. (lockSender C, semReceiver C, semFinish C)) (chans k),
     sh_lists = map (\<lambda>S. (sl_lock S, sl_cond S)) (slists k)\<rparr>"

text \<open>The statements a call leaves in front of the rest of its thread.\<close>

inductive unfolds :: "shape \<Rightarrow> op \<Rightarrow> op list \<Rightarrow> bool" for sh where
  done_now: "unfolds sh x []"
| blocked: "unfolds sh (SemP s) [SemP s]"
| acquire: "l < length (sh_locks sh) \<Longrightarrow> unfolds sh (Acquire l) [LockCheck l, SemP (sh_locks sh ! l), LockOwn l]"
| release: "l < length (sh_locks sh) \<Longrightarrow> unfolds sh (Release l) [LockLeave l, SemV (sh_locks sh ! l)]"
| wait: "c < length (sh_conds sh) \<Longrightarrow> sh_conds sh ! c = (l, s) \<Longrightarrow>
     unfolds sh (Wait c) [CondEnter c, Release l, SemP s, Acquire l]"
| signal: "c < length (sh_conds sh) \<Longrightarrow> unfolds sh (Signal c) [SemV (snd (sh_conds sh ! c)), CondLower c]"
| broadcast: "c < length (sh_conds sh) \<Longrightarrow> unfolds sh (Broadcast c) [CondWake c]"
| wake: "c < length (sh_conds sh) \<Longrightarrow>
     unfolds sh (CondWake c) [SemV (snd (sh_conds sh ! c)), CondLower c, CondWake c]"
| send: "ch < length (sh_chans sh) \<Longrightarrow> sh_chans sh ! ch = (l, r, e) \<Longrightarrow>
     unfolds sh (Send ch m) [Acquire l, ChanPut ch m, SemV r, SemP e, Release l]"
| receive: "ch < length (sh_chans sh) \<Longrightarrow> sh_chans sh ! ch = (l, r, e) \<Longrightarrow>
     unfolds sh (Receive ch) [SemP r, ChanGet ch, SemV e]"
| lappend: "sl < length (sh_lists sh) \<Longrightarrow> sh_lists sh ! sl = (l, c) \<Longrightarrow>
     unfolds sh (LAppend sl x) [Acquire l, ListPut sl x, Signal c, Release l]"
| lpop: "sl < length (sh_lists sh) \<Longrightarrow> sh_lists sh ! sl = (l, c) \<Longrightarrow>
     unfolds sh (LPop sl) [Acquire l, ListWait sl, ListTake sl, Release l]"
| lwait: "sl < length (sh_lists sh) \<Longrightarrow> sh_lists sh ! sl = (l, c) \<Longrightarrow>
     unfolds sh (ListWait sl) [Wait c, ListWait sl]"
| fork: "unfolds sh (Fork t f) [Join t]"
| join: "unfolds sh (Join t) [Receive ch]"
| finish: "unfolds sh (Finish v) [Exit]"
| finish_join: "unfolds sh (Finish v) [Send ch v, Exit]"

text \<open>\<open>done_now\<close> is for the statements that are no calls and the calls that return at once.\<close>

definition is_call :: "op \<Rightarrow> bool" where
  "is_call x \<longleftrightarrow> (case x of Acquire _ \<Rightarrow> True | Release _ \<Rightarrow> True | Wait _ \<Rightarrow> True | Broadcast _ \<Rightarrow> True | Send _ _ \<Rightarrow> True
     | Receive _ \<Rightarrow> True | LAppend _ _ \<Rightarrow> True | LPop _ \<Rightarrow> True | Join _ \<Rightarrow> True | Finish _ \<Rightarrow> True | _ \<Rightarrow> False)"

text \<open>The operations that only move threads change nothing of this.\<close>

definition same_view :: "kernel \<Rightarrow> kernel \<Rightarrow> bool" where
  "same_view k k' \<longleftrightarrow> shape_of k' = shape_of k \<and> vals k' = vals k \<and> waiters k' = waiters k \<and> owners k' = owners k \<and>
     length (threads k') = length (threads k) \<and> (\<forall>u<length (threads k). prog k' u = prog k u)"

lemma same_view_refl [simp]: "same_view k k" and same_view_trans: "same_view k k1 \<Longrightarrow> same_view k1 k2 \<Longrightarrow> same_view k k2"
  by (simp_all add: same_view_def)

lemma frame_view: "frame k k' \<Longrightarrow> same_view k k'"
  by (auto simp add: frame_def same_objects_def same_threads_def same_view_def shape_of_def vals_def waiters_def owners_def prog_def)

lemma view_simps [simp]:
  "shape_of (k\<lparr>current := c\<rparr>) = shape_of k" "shape_of (k\<lparr>toBeDestroyed := z\<rparr>) = shape_of k"
  "shape_of (k\<lparr>ready := r\<rparr>) = shape_of k" "shape_of (k\<lparr>sems := ss\<rparr>) = shape_of k" "shape_of (put_thread k t T) = shape_of k"
  "vals (k\<lparr>toBeDestroyed := z\<rparr>) = vals k" "vals (k\<lparr>ready := r\<rparr>) = vals k" "vals (put_thread k t T) = vals k"
  "waiters (k\<lparr>toBeDestroyed := z\<rparr>) = waiters k" "waiters (k\<lparr>ready := r\<rparr>) = waiters k" "waiters (put_thread k t T) = waiters k"
  "owners (k\<lparr>toBeDestroyed := z\<rparr>) = owners k" "owners (k\<lparr>ready := r\<rparr>) = owners k" "owners (put_thread k t T) = owners k"
  "owners (k\<lparr>sems := ss\<rparr>) = owners k"
  "prog (k\<lparr>toBeDestroyed := z\<rparr>) = prog k" "prog (k\<lparr>ready := r\<rparr>) = prog k" "prog (k\<lparr>sems := ss\<rparr>) = prog k"
  "prog (k\<lparr>locks := ls\<rparr>) = prog k" "prog (k\<lparr>conds := cs\<rparr>) = prog k" "prog (k\<lparr>chans := hs\<rparr>) = prog k" "prog (k\<lparr>slists := sl\<rparr>) = prog k"
  by (simp_all add: shape_of_def vals_def waiters_def owners_def prog_def fun_eq_iff)

lemma prog_put: "prog (put_thread k t T) u = (if u = t \<and> t < length (threads k) then t_prog T else prog k u)"
  by (simp add: prog_def put_thread_nth)

lemma view_sems:
  "vals (k\<lparr>sems := (sems k)[s := S]\<rparr>) = (vals k)[s := s_value S]"
  "waiters (k\<lparr>sems := (sems k)[s := S]\<rparr>) = (waiters k)[s := items (s_queue S)]"
  "vals (k\<lparr>locks := ls\<rparr>) = vals k" "waiters (k\<lparr>locks := ls\<rparr>) = waiters k"
  "owners (k\<lparr>locks := (locks k)[l := L]\<rparr>) = (owners k)[l := lockerThread L]"
  by (simp_all add: vals_def waiters_def owners_def map_update)

lemma frame_find: "FindNextToRun k = Inr (r, k') \<Longrightarrow> frame k k'"
  using find_loop_some [of k _ _ k'] find_loop_none [of k _ k']
  by (cases r) (fastforce simp add: FindNextToRun_def frame_simps)+

lemma frame_carcass: "delete_carcass k = Inr k' \<Longrightarrow> frame k k'"
  by (auto simp add: delete_carcass_def res_simps frame_simps intro!: frame_put split: option.splits)

lemma frame_run:
  assumes "Run k t = Inr k'"
  shows "frame k k'"
proof -
  let ?k = "put_thread (k\<lparr>current := t, idling := False\<rparr>) t ((threads k ! t)\<lparr>t_status := RUNNING\<rparr>)"
  have "frame k (k\<lparr>current := t, idling := False\<rparr>)" by (simp add: frame_def same_objects_def same_threads_def)
  moreover have "frame (k\<lparr>current := t, idling := False\<rparr>) ?k" by (rule frame_put) simp_all
  ultimately have f: "frame k ?k" by (rule frame_trans)
  have g: "frame ?k (put_thread ?k t ((threads ?k ! t)\<lparr>t_started := True\<rparr>))" by (rule frame_put) simp_all
  from assms have "delete_carcass ?k = Inr k' \<or> k' = put_thread ?k t ((threads ?k ! t)\<lparr>t_started := True\<rparr>)"
    by (auto simp add: Run_def res_simps split: if_splits)
  with f g frame_carcass frame_trans show ?thesis by blast
qed

lemma frame_ready: "ReadyToRun k t = Inr k' \<Longrightarrow> frame k k'"
  by (auto simp add: ReadyToRun_eq Let_def frame_def same_objects_def same_threads_def nth_list_update valid_def)

lemma frame_yield:
  assumes "Thread_Yield k = Inr k'"
  shows "frame k k'"
proof -
  from assms obtain r k1 where f: "FindNextToRun k = Inr (r, k1)"
    and c: "case r of None \<Rightarrow> k' = k1 | Some t \<Rightarrow> \<exists>k2. ReadyToRun k1 (current k1) = Inr k2 \<and> Run k2 t = Inr k'"
    by (auto simp add: Thread_Yield_def res_simps split: option.splits)
  from c show ?thesis
    using frame_find [OF f] by (cases r) (auto, meson frame_trans frame_ready frame_run)
qed

lemma frame_wake:
  assumes "Sleep_wake k = Inr k'"
  shows "frame k k'"
proof -
  from assms obtain r k1 where f: "FindNextToRun k = Inr (r, k1)"
    and c: "case r of None \<Rightarrow> k' = k1 | Some t \<Rightarrow> Run k1 t = Inr k'"
    by (auto simp add: Sleep_wake_def res_simps split: option.splits)
  from c show ?thesis using frame_find [OF f] by (cases r) (auto intro: frame_trans frame_run)
qed

lemma frame_sleep:
  assumes "Thread_Sleep k = Inr k'"
  shows "frame k k'"
proof -
  let ?k = "put_thread k (current k) ((threads k ! current k)\<lparr>t_status := BLOCKED\<rparr>)"
  from assms obtain r k1 where f: "FindNextToRun ?k = Inr (r, k1)"
    and c: "case r of None \<Rightarrow> k' = k1\<lparr>idling := True\<rparr> | Some t \<Rightarrow> Run k1 t = Inr k'"
    by (auto simp add: Thread_Sleep_def res_simps split: option.splits)
  have "frame k ?k" by (rule frame_put) simp_all
  with frame_find [OF f] have "frame k k1" using frame_trans by blast
  with c show ?thesis by (cases r) (auto simp add: frame_simps intro: frame_trans frame_run)
qed

text \<open>The priorities that \<open>Acquire\<close> and \<open>Release\<close> pass on.\<close>

lemma view_put: "t_prog T = prog k t \<Longrightarrow> same_view k (put_thread k t T)"
  by (simp add: same_view_def prog_put)

lemma view_check: "Lock_check k l = Inr k' \<Longrightarrow> same_view k k'"
  by (auto simp add: Lock_check_def res_simps removeFromPriorityList_def addToPriorityList_def isReady_def
      same_view_def put_thread_nth prog_def split: option.splits if_splits)

lemma leave_effect:
  assumes "Lock_leave k l = Inr k'"
  shows "owners k ! l = Some (current k) \<and> l < length (owners k) \<and> owners k' = (owners k)[l := None] \<and> shape_of k' = shape_of k \<and>
    vals k' = vals k \<and> waiters k' = waiters k \<and> length (threads k') = length (threads k) \<and> (\<forall>u. prog k' u = prog k u)"
proof -
  let ?T = "threads k ! current k"
  let ?k1 = "if getPriorityTemp ?T \<noteq> -1
     then put_thread k (current k) (setPriorityTemp (-1) (setPriority (getPriorityTemp ?T) ?T)) else k"
  from assms have l: "l < length (locks k)" "lockerThread (locks k ! l) = Some (current k)"
    and k': "k' = ?k1\<lparr>locks := (locks ?k1)[l := (locks k ! l)\<lparr>lockerThread := None\<rparr>]\<rparr>"
    by (auto simp add: Lock_leave_def res_simps IsHeldByCurrentThread_def split: if_splits)
  have e: "locks ?k1 = locks k" "shape_of ?k1 = shape_of k" "vals ?k1 = vals k" "waiters ?k1 = waiters k" "owners ?k1 = owners k"
    "length (threads ?k1) = length (threads k)" "prog ?k1 u = prog k u" for u
    by (auto simp add: prog_put) (simp add: prog_def)
  have "shape_of k' = shape_of ?k1" using l unfolding k' by (simp add: shape_of_def map_update list_update_same_conv)
  then show ?thesis using l e unfolding k' by (simp add: view_sems owners_def map_update)
qed

lemma own_effect:
  assumes "Lock_own k l = Inr k'"
  shows "l < length (owners k) \<and> owners k' = (owners k)[l := Some (current k)] \<and> shape_of k' = shape_of k \<and>
    vals k' = vals k \<and> waiters k' = waiters k \<and> length (threads k') = length (threads k) \<and> (\<forall>u. prog k' u = prog k u)"
  using assms by (auto simp add: Lock_own_def res_simps view_sems shape_of_def map_update owners_def list_update_same_conv)

lemma P_effect:
  assumes "Semaphore_P k s = Inr k'" and c: "current k < length (threads k)"
  shows "s < length (vals k) \<and> shape_of k' = shape_of k \<and> owners k' = owners k \<and> length (threads k') = length (threads k) \<and>
    (\<forall>u<length (threads k). u \<noteq> current k \<longrightarrow> prog k' u = prog k u) \<and>
    (if vals k ! s = 0
     then prog k' (current k) = SemP s # prog k (current k) \<and> vals k' = vals k \<and>
        waiters k' = (waiters k)[s := waiters k ! s @ [current k]]
     else prog k' (current k) = prog k (current k) \<and> vals k' = (vals k)[s := vals k ! s - 1] \<and> waiters k' = waiters k)"
proof -
  from assms have s: "s < length (sems k)" by (auto simp add: Semaphore_P_def res_simps)
  let ?S = "sems k ! s" and ?c = "current k"
  show ?thesis
  proof (cases "s_value ?S = 0")
    case False
    with assms(1) s have "k' = k\<lparr>sems := (sems k)[s := ?S\<lparr>s_value := s_value ?S - 1\<rparr>]\<rparr>" by (simp add: Semaphore_P_def aget_def)
    with s False show ?thesis by (simp add: view_sems) (simp add: vals_def waiters_def list_update_same_conv)
  next
    case True
    let ?k2 = "put_thread (k\<lparr>sems := (sems k)[s := ?S\<lparr>s_queue := List_Append (s_queue ?S) ?c\<rparr>]\<rparr>) ?c
       ((threads k ! ?c)\<lparr>t_prog := SemP s # t_prog (threads k ! ?c)\<rparr>)"
    from assms s True have "Thread_Sleep ?k2 = Inr k'"
      by (auto simp add: Semaphore_P_def res_simps call_def)
    from frame_view [OF frame_sleep [OF this]] have v: "same_view ?k2 k'" .
    have "vals k ! s = 0" "s < length (vals k)" using True s by (simp_all add: vals_def)
    moreover have "vals ?k2 = vals k" "waiters ?k2 = (waiters k)[s := waiters k ! s @ [?c]]" "prog ?k2 ?c = SemP s # prog k ?c"
      "\<forall>u. u \<noteq> ?c \<longrightarrow> prog ?k2 u = prog k u"
      using s c by (simp_all add: view_sems prog_put) (simp_all add: vals_def waiters_def list_update_same_conv prog_def)
    ultimately show ?thesis using v c by (simp add: same_view_def)
  qed
qed

lemma V_effect:
  assumes "Semaphore_V k s = Inr k'"
  shows "s < length (vals k) \<and> shape_of k' = shape_of k \<and> owners k' = owners k \<and> length (threads k') = length (threads k) \<and>
    (\<forall>u<length (threads k). prog k' u = prog k u) \<and> vals k' = (vals k)[s := vals k ! s + 1] \<and>
    waiters k' = (waiters k)[s := tl (waiters k ! s)]"
proof -
  from assms have s: "s < length (sems k)" by (auto simp add: Semaphore_V_def res_simps)
  let ?S = "sems k ! s"
  let ?q = "snd (List_Pop (s_queue ?S))"
  let ?k1 = "k\<lparr>sems := (sems k)[s := ?S\<lparr>s_queue := ?q\<rparr>]\<rparr>"
  from assms s obtain k2 where k2: "case fst (List_Pop (s_queue ?S)) of None \<Rightarrow> k2 = ?k1 | Some t \<Rightarrow> ReadyToRun ?k1 t = Inr k2"
    and k': "k' = k2\<lparr>sems := (sems k2)[s := ?S\<lparr>s_queue := ?q, s_value := s_value ?S + 1\<rparr>]\<rparr>"
    by (auto simp add: Semaphore_V_def res_simps Let_def split: option.splits prod.splits)
  from k2 have "same_view ?k1 k2"
    by (cases "fst (List_Pop (s_queue ?S))") (auto intro: frame_view frame_ready)
  moreover have "vals ?k1 = vals k" "waiters ?k1 = (waiters k)[s := tl (waiters k ! s)]" "items ?q = tl (waiters k ! s)" "s_value ?S = vals k ! s"
    using s by (simp_all add: view_sems) (simp_all add: vals_def waiters_def list_update_same_conv items_Pop)
  ultimately show ?thesis using s unfolding k' same_view_def by (simp add: view_sems) (simp add: vals_def)
qed

text \<open>Calls put statements in front of the current thread's and change nothing else of the view.\<close>

definition calls :: "kernel \<Rightarrow> kernel \<Rightarrow> op list \<Rightarrow> bool" where
  "calls k k' pre \<longleftrightarrow> shape_of k' = shape_of k \<and> vals k' = vals k \<and> waiters k' = waiters k \<and> owners k' = owners k \<and>
     length (threads k') = length (threads k) \<and>
     (\<forall>u<length (threads k). prog k' u = (if u = current k then pre @ prog k u else prog k u))"

lemma call_calls: "call k ops = Inr k' \<Longrightarrow> calls k k' ops"
  by (auto simp add: call_def res_simps calls_def prog_put) (simp add: prog_def)

lemma view_calls: "same_view k k' \<Longrightarrow> calls k k' []"
  by (simp add: calls_def same_view_def)

lemma objects_view:
  "c < length (conds k) \<Longrightarrow> c_lock C = c_lock (conds k ! c) \<Longrightarrow> c_sem C = c_sem (conds k ! c) \<Longrightarrow>
     same_view k (k\<lparr>conds := (conds k)[c := C]\<rparr>)"
  "ch < length (chans k) \<Longrightarrow> lockSender H = lockSender (chans k ! ch) \<Longrightarrow> semReceiver H = semReceiver (chans k ! ch) \<Longrightarrow>
     semFinish H = semFinish (chans k ! ch) \<Longrightarrow> same_view k (k\<lparr>chans := (chans k)[ch := H]\<rparr>)"
  "sl < length (slists k) \<Longrightarrow> sl_lock L = sl_lock (slists k ! sl) \<Longrightarrow> sl_cond L = sl_cond (slists k ! sl) \<Longrightarrow>
     same_view k (k\<lparr>slists := (slists k)[sl := L]\<rparr>)"
  by (simp_all add: same_view_def shape_of_def vals_def waiters_def owners_def map_update list_update_same_conv)

lemma shape_nth:
  "length (sh_locks (shape_of k)) = length (locks k)" "length (sh_conds (shape_of k)) = length (conds k)"
  "length (sh_chans (shape_of k)) = length (chans k)" "length (sh_lists (shape_of k)) = length (slists k)"
  "l < length (locks k) \<Longrightarrow> sh_locks (shape_of k) ! l = l_sem (locks k ! l)"
  "c < length (conds k) \<Longrightarrow> sh_conds (shape_of k) ! c = (c_lock (conds k ! c), c_sem (conds k ! c))"
  "ch < length (chans k) \<Longrightarrow> sh_chans (shape_of k) ! ch = (lockSender (chans k ! ch), semReceiver (chans k ! ch), semFinish (chans k ! ch))"
  "sl < length (slists k) \<Longrightarrow> sh_lists (shape_of k) ! sl = (sl_lock (slists k ! sl), sl_cond (slists k ! sl))"
  by (simp_all add: shape_of_def)

definition plain :: "op \<Rightarrow> bool" where
  "plain x \<longleftrightarrow> (case x of SemP _ \<Rightarrow> False | SemV _ \<Rightarrow> False | LockOwn _ \<Rightarrow> False | LockLeave _ \<Rightarrow> False | Fork _ _ \<Rightarrow> False | _ \<Rightarrow> True)"

text \<open>The calls, by cases on the statement.\<close>

definition calls_body :: "kernel \<Rightarrow> kernel \<Rightarrow> op \<Rightarrow> bool" where
  "calls_body k k' x \<longleftrightarrow> (\<exists>pre. unfolds (shape_of k) x pre \<and> (is_call x \<longrightarrow> pre \<noteq> []) \<and> calls k k' pre)"

lemma calls_bodyI: "unfolds (shape_of k) x pre \<Longrightarrow> is_call x \<longrightarrow> pre \<noteq> [] \<Longrightarrow> call k pre = Inr k' \<Longrightarrow> calls_body k k' x"
  using call_calls by (auto simp add: calls_body_def)

lemma calls_body_view: "\<not> is_call x \<Longrightarrow> same_view k k' \<Longrightarrow> calls_body k k' x"
  unfolding calls_body_def by (rule exI [of _ "[]"]) (simp add: view_calls unfolds.done_now)

lemma lock_bodies: "Lock_Acquire k l = Inr k' \<Longrightarrow> calls_body k k' (Acquire l)" "Lock_Release k l = Inr k' \<Longrightarrow> calls_body k k' (Release l)"
  using unfolds.acquire [of l "shape_of k"] unfolds.release [of l "shape_of k"]
  by (auto simp add: Lock_Acquire_def Lock_Release_def res_simps shape_nth intro!: calls_bodyI)

lemma cond_bodies:
  "Condition_Wait k c = Inr k' \<Longrightarrow> calls_body k k' (Wait c)" "Condition_Broadcast k c = Inr k' \<Longrightarrow> calls_body k k' (Broadcast c)"
  using unfolds.wait [of c "shape_of k"] unfolds.broadcast [of c "shape_of k"]
  by (auto simp add: Condition_Wait_def Condition_Broadcast_def res_simps shape_nth intro: calls_bodyI)

lemma signal_bodies:
  "Condition_Signal k c = Inr k' \<Longrightarrow> calls_body k k' (Signal c)" "Cond_wake k c = Inr k' \<Longrightarrow> calls_body k k' (CondWake c)"
  using unfolds.signal [of c "shape_of k"] unfolds.wake [of c "shape_of k"] calls_body_view [OF _ same_view_refl, of "Signal c" k]
    calls_body_view [OF _ same_view_refl, of "CondWake c" k]
  by (auto simp add: Condition_Signal_def Cond_wake_def res_simps shape_nth is_call_def intro: calls_bodyI split: if_splits)

lemma statement_bodies:
  "Cond_enter k c = Inr k' \<Longrightarrow> calls_body k k' (CondEnter c)" "Cond_lower k c = Inr k' \<Longrightarrow> calls_body k k' (CondLower c)"
  "Chan_put k ch m = Inr k' \<Longrightarrow> calls_body k k' (ChanPut ch m)" "Chan_get k ch = Inr k' \<Longrightarrow> calls_body k k' (ChanGet ch)"
  "List_put k sl x = Inr k' \<Longrightarrow> calls_body k k' (ListPut sl x)" "Lock_check k l = Inr k' \<Longrightarrow> calls_body k k' (LockCheck l)"
  by (auto simp add: Cond_enter_def Cond_lower_def Chan_put_def Chan_get_def List_put_def prog_def
      res_simps is_call_def intro!: calls_body_view objects_view view_put dest!: view_check)

lemma chan_bodies:
  "Channel_Send k ch m = Inr k' \<Longrightarrow> calls_body k k' (Send ch m)" "Channel_Receive k ch = Inr k' \<Longrightarrow> calls_body k k' (Receive ch)"
  using unfolds.send [of ch "shape_of k"] unfolds.receive [of ch "shape_of k"]
  by (auto simp add: Channel_Send_def Channel_Receive_def res_simps shape_nth intro: calls_bodyI)

lemma list_bodies:
  "SynchList_Append k sl x = Inr k' \<Longrightarrow> calls_body k k' (LAppend sl x)" "SynchList_Pop k sl = Inr k' \<Longrightarrow> calls_body k k' (LPop sl)"
  using unfolds.lappend [of sl "shape_of k"] unfolds.lpop [of sl "shape_of k"]
  by (auto simp add: SynchList_Append_def SynchList_Pop_def res_simps shape_nth intro: calls_bodyI)

lemma List_take_body: "List_take k sl = Inr k' \<Longrightarrow> calls_body k k' (ListTake sl)"
  by (auto simp add: List_take_def res_simps prog_def is_call_def
      intro!: calls_body_view same_view_trans [OF objects_view(3) view_put] split: prod.splits)

lemma List_wait_body: "List_wait k sl = Inr k' \<Longrightarrow> calls_body k k' (ListWait sl)"
  using unfolds.lwait [of sl "shape_of k"] calls_body_view [OF _ same_view_refl, of "ListWait sl" k]
  by (auto simp add: List_wait_def res_simps shape_nth is_call_def intro: calls_bodyI split: if_splits)

lemma thread_bodies:
  "Thread_Join k t = Inr k' \<Longrightarrow> calls_body k k' (Join t)" "Thread_Finish k v = Inr k' \<Longrightarrow> calls_body k k' (Finish v)"
  by (auto simp add: Thread_Join_def Thread_Finish_def res_simps intro: calls_bodyI unfolds.intros split: if_splits)

lemma switch_bodies: "Thread_Yield k = Inr k' \<Longrightarrow> calls_body k k' Yield" "Finish_exit k = Inr k' \<Longrightarrow> calls_body k k' Exit"
  by (auto simp add: Finish_exit_def is_call_def frame_simps
      intro!: calls_body_view intro: frame_view dest!: frame_sleep frame_yield)

lemma plain_effect: "exec x k = Inr k' \<Longrightarrow> plain x \<Longrightarrow> calls_body k k' x"
  by (cases x) (simp_all add: plain_def lock_bodies cond_bodies signal_bodies statement_bodies
      chan_bodies list_bodies List_take_body List_wait_body thread_bodies switch_bodies)

lemma fork_effect:
  assumes "Thread_Fork k t f = Inr k'" and "t \<noteq> current k"
  shows "t < length (threads k) \<and> (\<exists>pre. unfolds (shape_of k) (Fork t f) pre \<and> calls (put_thread k t ((threads k ! t)\<lparr>t_prog := f\<rparr>)) k' pre)"
proof -
  let ?k = "put_thread k t ((threads k ! t)\<lparr>t_prog := f\<rparr>)"
  from assms(1) obtain k1 where k1: "ReadyToRun ?k t = Inr k1" and v: "valid k t" and k2: "k' = k1 \<or> call k1 [Join t] = Inr k'"
    by (auto simp add: Thread_Fork_def res_simps split: if_splits)
  have s: "same_view ?k k1" by (rule frame_view [OF frame_ready [OF k1]])
  have c: "current k1 = current k" using k1 by (auto simp add: ReadyToRun_eq Let_def)
  have "calls ?k k' []" if "k' = k1" using view_calls [OF s] that by simp
  moreover have "calls ?k k' [Join t]" if "call k1 [Join t] = Inr k'"
    using call_calls [OF that] s c by (simp add: calls_def same_view_def)
  ultimately show ?thesis using k2 v unfolds.done_now unfolds.fork unfolding valid_def by blast
qed

section \<open>Mutual exclusion\<close>

text \<open>The phases of a thread with respect to a lock: outside; after the check of \<open>Acquire\<close>; with the
  semaphore taken; owner; after giving up the ownership but before \<open>V\<close>.\<close>

datatype stage = Out | Checked | Got | Inside | Left

definition stable :: "stage \<Rightarrow> stage option" where
  "stable q = (if q = Out \<or> q = Inside then Some q else None)"

definition at :: "stage \<Rightarrow> stage \<Rightarrow> stage \<Rightarrow> stage option" where
  "at after before q = (if q = after then Some before else None)"

text \<open>The phase before a sequence of statements, for a thread that keeps to the discipline of the lock
  \<open>l\<close>: it acquires and releases in turn, calls \<open>Wait\<close>, \<open>Signal\<close> and \<open>Broadcast\<close> of the lock's
  conditions and touches what the lock protects as the owner only, does not fork a thread that
  breaks the discipline, and does not end as the owner. \<open>None\<close> means that it does not.\<close>

fun phase :: "shape \<Rightarrow> nat \<Rightarrow> op list \<Rightarrow> stage option" where
  "phase sh l [] = Some Out"
| "phase sh l (Exit # ops) = Some Out"
| "phase sh l (Finish v # ops) = Some Out"
| "phase sh l (Fork t f # ops) = (if phase sh l f = Some Out then Option.bind (phase sh l ops) stable else None)"
| "phase sh l (x # ops) = Option.bind (phase sh l ops) (case x of
     SemP s \<Rightarrow> if s = sh_locks sh ! l then at Got Checked else stable
   | SemV s \<Rightarrow> if s = sh_locks sh ! l then at Out Left else stable
   | Acquire i \<Rightarrow> if i = l then at Inside Out else stable
   | Release i \<Rightarrow> if i = l then at Out Inside else stable
   | LockCheck i \<Rightarrow> if i = l then at Checked Out else stable
   | LockOwn i \<Rightarrow> if i = l then at Inside Got else stable
   | LockLeave i \<Rightarrow> if i = l then at Left Inside else stable
   | Wait c \<Rightarrow> if fst (sh_conds sh ! c) = l then at Inside Inside else stable
   | Signal c \<Rightarrow> if fst (sh_conds sh ! c) = l then at Inside Inside else stable
   | Broadcast c \<Rightarrow> if fst (sh_conds sh ! c) = l then at Inside Inside else stable
   | Send ch m \<Rightarrow> if fst (sh_chans sh ! ch) = l then at Out Out else stable
   | ChanPut ch m \<Rightarrow> if fst (sh_chans sh ! ch) = l then at Inside Inside else stable
   | LAppend i v \<Rightarrow> if fst (sh_lists sh ! i) = l then at Out Out else stable
   | LPop i \<Rightarrow> if fst (sh_lists sh ! i) = l then at Out Out else stable
   | ListPut i v \<Rightarrow> if fst (sh_lists sh ! i) = l then at Inside Inside else stable
   | ListWait i \<Rightarrow> if fst (sh_lists sh ! i) = l then at Inside Inside else stable
   | ListTake i \<Rightarrow> if fst (sh_lists sh ! i) = l then at Inside Inside else stable
   | _ \<Rightarrow> stable)"

text \<open>The semaphore of the lock is nobody else's, and the condition of a synchronised list is built on
  the list's lock, as the constructors do.\<close>

definition own_sem :: "shape \<Rightarrow> nat \<Rightarrow> bool" where
  "own_sem sh l \<longleftrightarrow> l < length (sh_locks sh) \<and> (\<forall>i<length (sh_locks sh). i \<noteq> l \<longrightarrow> sh_locks sh ! i \<noteq> sh_locks sh ! l) \<and>
     (\<forall>(cl, s)\<in>set (sh_conds sh). s \<noteq> sh_locks sh ! l) \<and>
     (\<forall>(cl, r, e)\<in>set (sh_chans sh). r \<noteq> sh_locks sh ! l \<and> e \<noteq> sh_locks sh ! l) \<and>
     (\<forall>(sl, c)\<in>set (sh_lists sh). c < length (sh_conds sh) \<and> fst (sh_conds sh ! c) = sl)"

lemma own_semD:
  assumes "own_sem sh l"
  shows "i < length (sh_locks sh) \<Longrightarrow> i \<noteq> l \<Longrightarrow> sh_locks sh ! i \<noteq> sh_locks sh ! l"
    and "c < length (sh_conds sh) \<Longrightarrow> sh_conds sh ! c = (cl, s) \<Longrightarrow> s \<noteq> sh_locks sh ! l"
    and "ch < length (sh_chans sh) \<Longrightarrow> sh_chans sh ! ch = (cl, r, e) \<Longrightarrow> r \<noteq> sh_locks sh ! l \<and> e \<noteq> sh_locks sh ! l"
    and "i < length (sh_lists sh) \<Longrightarrow> sh_lists sh ! i = (cl, c) \<Longrightarrow> fst (sh_conds sh ! c) = cl"
  using assms unfolding own_sem_def by (fastforce dest: nth_mem)+

lemma stable_bind [simp]: "Option.bind (Option.bind p stable) stable = Option.bind p stable"
  by (cases p) (simp_all add: stable_def)

lemma bind_stable_Some: "Option.bind p stable = Some q \<longleftrightarrow> p = Some q \<and> (q = Out \<or> q = Inside)"
  by (cases p) (auto simp add: stable_def)

lemma bind_at_Some: "Option.bind p (at a b) = Some q \<longleftrightarrow> p = Some a \<and> q = b"
  by (cases p) (auto simp add: at_def)

lemma stage_simps [simp]: "stable Out = Some Out" "stable Inside = Some Inside" "at a b a = Some b"
  by (simp_all add: stable_def at_def)

lemma phase_unfolds:
  assumes "own_sem sh l" and "unfolds sh x pre" and "pre \<noteq> []" and "phase sh l (x # ops) = Some q"
  shows "phase sh l (pre @ ops) = Some q"
proof -
  have s: "\<And>c. c < length (sh_conds sh) \<Longrightarrow> snd (sh_conds sh ! c) \<noteq> sh_locks sh ! l"
    using own_semD(2) [OF assms(1)] by (metis surjective_pairing)
  show ?thesis
    using assms(2,3,4) own_semD [OF assms(1)] s
    by cases (auto simp add: bind_stable_Some bind_at_Some split: if_splits)
qed

lemma phase_done:
  assumes "phase sh l (x # ops) = Some q" and "\<not> is_call x" and "x \<noteq> Exit"
    and "x \<notin> {LockCheck l, LockOwn l, LockLeave l, SemP (sh_locks sh ! l), SemV (sh_locks sh ! l)}"
  shows "phase sh l ops = Some q"
  using assms by (cases x) (auto simp add: is_call_def bind_stable_Some bind_at_Some split: if_splits)

text \<open>The abstract lock: the stage of every thread, the value of the semaphore, the owner.\<close>

record alock =
  a_stage :: "nat \<rightharpoonup> stage"
  a_val :: int
  a_owner :: "nat option"

inductive lock_step :: "alock \<Rightarrow> alock \<Rightarrow> bool" where
  stutter: "lock_step a a"
| check: "a_stage a t = Some Out \<Longrightarrow> lock_step a (a\<lparr>a_stage := (a_stage a)(t \<mapsto> Checked)\<rparr>)"
| take: "a_stage a t = Some Checked \<Longrightarrow> a_val a \<noteq> 0 \<Longrightarrow>
     lock_step a (a\<lparr>a_stage := (a_stage a)(t \<mapsto> Got), a_val := a_val a - 1\<rparr>)"
| own: "a_stage a t = Some Got \<Longrightarrow> lock_step a (a\<lparr>a_stage := (a_stage a)(t \<mapsto> Inside), a_owner := Some t\<rparr>)"
| leave: "a_stage a t = Some Inside \<Longrightarrow> lock_step a (a\<lparr>a_stage := (a_stage a)(t \<mapsto> Left), a_owner := None\<rparr>)"
| give: "a_stage a t = Some Left \<Longrightarrow> lock_step a (a\<lparr>a_stage := (a_stage a)(t \<mapsto> Out), a_val := a_val a + 1\<rparr>)"
| birth: "a_stage a t = None \<Longrightarrow> lock_step a (a\<lparr>a_stage := (a_stage a)(t \<mapsto> Out)\<rparr>)"
| death: "a_stage a t = Some Out \<Longrightarrow> lock_step a (a\<lparr>a_stage := (a_stage a)(t := None)\<rparr>)"

definition holders :: "alock \<Rightarrow> nat set" where
  "holders a = {t. a_stage a t \<in> {Some Got, Some Inside, Some Left}}"

definition alock_ok :: "alock \<Rightarrow> bool" where
  "alock_ok a \<longleftrightarrow> finite (holders a) \<and> 0 \<le> a_val a \<and> a_val a + int (card (holders a)) = 1 \<and>
     (\<forall>t. a_owner a = Some t \<longleftrightarrow> a_stage a t = Some Inside)"

lemma holders_upd:
  "holders (a\<lparr>a_stage := (a_stage a)(t := q)\<rparr>) =
     (if q \<in> {Some Got, Some Inside, Some Left} then insert t (holders a) else holders a - {t})"
  "holders (a\<lparr>a_val := v\<rparr>) = holders a" "holders (a\<lparr>a_owner := w\<rparr>) = holders a"
  by (auto simp add: holders_def)

lemma alock_ok_unique:
  assumes "alock_ok a" and "t \<in> holders a"
  shows "holders a = {t}" and "a_val a = 0"
proof -
  have "0 < card (holders a)" using assms by (auto simp add: alock_ok_def card_gt_0_iff)
  then have "card (holders a) = 1" and v: "a_val a = 0" using assms(1) by (auto simp add: alock_ok_def)
  then show "holders a = {t}" using assms(2) by (metis card_1_singletonE singletonD)
  show "a_val a = 0" by (rule v)
qed

lemma alock_ok_inside:
  assumes "alock_ok a" and "t \<in> holders a" and "a_stage a u = Some Inside"
  shows "u = t"
proof -
  have "u \<in> holders a" using assms(3) by (simp add: holders_def)
  with alock_ok_unique(1) [OF assms(1,2)] show ?thesis by simp
qed

lemma alock_ok_step:
  assumes "alock_ok a" and "lock_step a b"
  shows "alock_ok b"
  using assms(2)
proof cases
  case stutter
  with assms(1) show ?thesis by simp
next
  case (check t)
  then have "t \<notin> holders a" by (simp add: holders_def)
  with assms(1) check show ?thesis by (auto simp add: alock_ok_def holders_upd)
next
  case (take t)
  then have "t \<notin> holders a" by (simp add: holders_def)
  with assms(1) take show ?thesis by (auto simp add: alock_ok_def holders_upd)
next
  case (own t)
  then have t: "t \<in> holders a" by (simp add: holders_def)
  have "a_stage a u \<noteq> Some Inside" for u using alock_ok_inside [OF assms(1) t] own(2) by fastforce
  with assms(1) own t show ?thesis by (auto simp add: alock_ok_def holders_upd insert_absorb)
next
  case (leave t)
  then have t: "t \<in> holders a" by (simp add: holders_def)
  have "((a_stage a)(t \<mapsto> Left)) u \<noteq> Some Inside" for u using alock_ok_inside [OF assms(1) t, of u] by auto
  with assms(1) leave(1) t show ?thesis by (simp add: alock_ok_def holders_upd insert_absorb)
next
  case (give t)
  then have t: "t \<in> holders a" by (simp add: holders_def)
  with alock_ok_unique [OF assms(1) t] assms(1) give show ?thesis by (auto simp add: alock_ok_def holders_upd)
next
  case (birth t)
  then have "t \<notin> holders a" by (simp add: holders_def)
  with assms(1) birth show ?thesis by (auto simp add: alock_ok_def holders_upd)
next
  case (death t)
  then have "t \<notin> holders a" by (simp add: holders_def)
  with assms(1) death show ?thesis by (auto simp add: alock_ok_def holders_upd)
qed

text \<open>The abstract lock of a kernel, and the kernels whose threads keep to the discipline.\<close>

definition lock_of :: "kernel \<Rightarrow> nat \<Rightarrow> alock" where
  "lock_of k l = \<lparr>a_stage = (\<lambda>t. if t \<in># places k then phase (shape_of k) l (prog k t) else None),
     a_val = vals k ! (sh_locks (shape_of k) ! l), a_owner = owners k ! l\<rparr>"

definition disciplined :: "nat set \<Rightarrow> nat \<Rightarrow> kernel \<Rightarrow> bool" where
  "disciplined D l k \<longleftrightarrow> own_sem (shape_of k) l \<and> sh_locks (shape_of k) ! l \<notin> D \<and>
     (\<forall>t\<in>#places k. phase (shape_of k) l (prog k t) \<noteq> None)"

definition pop :: "kernel \<Rightarrow> kernel" where
  "pop k = put_thread k (current k) ((threads k ! current k)\<lparr>t_prog := tl (t_prog (threads k ! current k))\<rparr>)"

lemma kstep_pop: "\<not> idling k \<Longrightarrow> kstep k = Inr k' \<Longrightarrow> exec (next_op k) (pop k) = Inr k'"
proof -
  assume a: "\<not> idling k" "kstep k = Inr k'"
  show ?thesis
  proof (cases "t_prog (threads k ! current k)")
    case Nil
    then have "(threads k ! current k)\<lparr>t_prog := tl (t_prog (threads k ! current k))\<rparr> = threads k ! current k" by simp
    then have "pop k = k" by (simp add: pop_def put_thread_def)
    with a Nil show ?thesis by (auto simp add: kstep_def res_simps next_op_def)
  next
    case (Cons x ops)
    with a show ?thesis by (auto simp add: kstep_def res_simps next_op_def pop_def)
  qed
qed

lemma pop_view:
  "shape_of (pop k) = shape_of k" "vals (pop k) = vals k" "waiters (pop k) = waiters k" "owners (pop k) = owners k"
  "current (pop k) = current k" "length (threads (pop k)) = length (threads k)" "idling (pop k) = idling k"
  "u \<noteq> current k \<Longrightarrow> prog (pop k) u = prog k u"
  "current k < length (threads k) \<Longrightarrow> prog (pop k) (current k) = tl (prog k (current k))"
  by (simp_all add: pop_def prog_put) (simp add: prog_def)

lemma phase_next: "phase sh l (prog k (current k)) = phase sh l (next_op k # tl (prog k (current k)))"
  by (cases "prog k (current k)") (simp_all add: next_op_def prog_def)

lemma places_valid: "kernel_inv k \<Longrightarrow> t \<in># places k \<Longrightarrow> t < length (threads k)"
  by (auto simp add: kernel_inv_def mid_inv_def running_def valid_def places_def split: if_splits)

text \<open>What a statement of the current thread does, seen from a lock.\<close>

definition seen :: "kernel \<Rightarrow> kernel \<Rightarrow> nat \<Rightarrow> stage option \<Rightarrow> int \<Rightarrow> nat option \<Rightarrow> bool" where
  "seen k k' l q v w \<longleftrightarrow> shape_of k' = shape_of k \<and> phase (shape_of k) l (prog k' (current k)) = q \<and>
     vals k' ! (sh_locks (shape_of k) ! l) = v \<and> owners k' ! l = w \<and>
     (\<forall>u<length (threads k). u \<noteq> current k \<longrightarrow> prog k' u = prog k u)"

lemma seen_calls:
  assumes "own_sem (shape_of k) l" and "current k < length (threads k)" and "calls_body k k' x"
    and "phase (shape_of k) l (x # prog k (current k)) = Some q" and "x \<noteq> Exit" and "plain x" and "x \<noteq> LockCheck l"
  shows "seen k k' l (Some q) (vals k ! (sh_locks (shape_of k) ! l)) (owners k ! l)"
proof -
  obtain pre where pre: "unfolds (shape_of k) x pre" "is_call x \<longrightarrow> pre \<noteq> []" "calls k k' pre"
    using assms(3) by (auto simp add: calls_body_def)
  have "phase (shape_of k) l (pre @ prog k (current k)) = Some q"
  proof (cases "pre = []")
    case True
    with pre(2) have "\<not> is_call x" by simp
    with assms(4-7) True show ?thesis by (auto simp add: plain_def intro: phase_done [of _ _ x])
  next
    case False
    with phase_unfolds [OF assms(1) pre(1) _ assms(4)] show ?thesis by simp
  qed
  with pre(3) assms(2) show ?thesis by (simp add: seen_def calls_def)
qed

lemma seen_other:
  assumes own: "own_sem (shape_of k) l" and c: "current k < length (threads k)" and e: "exec x k = Inr k'"
    and ph: "phase (shape_of k) l (x # prog k (current k)) = Some q"
    and x: "x \<notin> {Exit, LockCheck l, LockOwn l, LockLeave l, SemP (sh_locks (shape_of k) ! l), SemV (sh_locks (shape_of k) ! l)}"
    and nf: "\<And>t f. x \<noteq> Fork t f"
  shows "seen k k' l (Some q) (vals k ! (sh_locks (shape_of k) ! l)) (owners k ! l)"
proof (cases "plain x")
  case True
  with seen_calls [OF own c plain_effect [OF e True] ph] x show ?thesis by simp
next
  case False
  then consider (P) s where "x = SemP s" | (V) s where "x = SemV s" | (own) i where "x = LockOwn i" | (leave) i where "x = LockLeave i"
    using nf by (cases x) (auto simp add: plain_def)
  then show ?thesis
  proof cases
    case P
    with e have "Semaphore_P k s = Inr k'" by simp
    from P_effect [OF this c] ph x P show ?thesis
      by (auto simp add: seen_def bind_stable_Some nth_list_update split: if_splits)
  next
    case V
    with e have "Semaphore_V k s = Inr k'" by simp
    from V_effect [OF this] c ph x V show ?thesis
      by (auto simp add: seen_def bind_stable_Some nth_list_update split: if_splits)
  next
    case own
    with e have "Lock_own k i = Inr k'" by simp
    from own_effect [OF this] ph x own show ?thesis by (auto simp add: seen_def bind_stable_Some split: if_splits)
  next
    case leave
    with e have "Lock_leave k i = Inr k'" by simp
    from leave_effect [OF this] ph x leave show ?thesis by (auto simp add: seen_def bind_stable_Some split: if_splits)
  qed
qed

text \<open>One case per kind of step of the abstract lock.\<close>

lemma seen_lock:
  assumes own: "own_sem (shape_of k) l" and c: "current k < length (threads k)" and e: "exec x k = Inr k'"
    and ph: "phase (shape_of k) l (x # prog k (current k)) = Some q"
  shows "x = LockCheck l \<Longrightarrow> q = Out \<and> seen k k' l (Some Checked) (vals k ! (sh_locks (shape_of k) ! l)) (owners k ! l)"
    and "x = LockOwn l \<Longrightarrow> q = Got \<and> seen k k' l (Some Inside) (vals k ! (sh_locks (shape_of k) ! l)) (Some (current k))"
    and "x = LockLeave l \<Longrightarrow> q = Inside \<and> seen k k' l (Some Left) (vals k ! (sh_locks (shape_of k) ! l)) None"
    and "x = SemP (sh_locks (shape_of k) ! l) \<Longrightarrow> vals k ! (sh_locks (shape_of k) ! l) = 0 \<Longrightarrow>
      seen k k' l (Some q) (vals k ! (sh_locks (shape_of k) ! l)) (owners k ! l)"
    and "x = SemP (sh_locks (shape_of k) ! l) \<Longrightarrow> vals k ! (sh_locks (shape_of k) ! l) \<noteq> 0 \<Longrightarrow>
      q = Checked \<and> seen k k' l (Some Got) (vals k ! (sh_locks (shape_of k) ! l) - 1) (owners k ! l)"
    and "x = SemV (sh_locks (shape_of k) ! l) \<Longrightarrow>
      q = Left \<and> seen k k' l (Some Out) (vals k ! (sh_locks (shape_of k) ! l) + 1) (owners k ! l)"
proof -
  assume x: "x = LockCheck l"
  with e view_check have "same_view k k'" by simp
  with ph x c show "q = Out \<and> seen k k' l (Some Checked) (vals k ! (sh_locks (shape_of k) ! l)) (owners k ! l)"
    by (auto simp add: bind_at_Some seen_def same_view_def)
next
  assume x: "x = LockOwn l"
  with e own_effect [of k l k'] ph show "q = Got \<and> seen k k' l (Some Inside) (vals k ! (sh_locks (shape_of k) ! l)) (Some (current k))"
    by (auto simp add: bind_at_Some seen_def)
next
  assume x: "x = LockLeave l"
  with e leave_effect [of k l k'] ph show "q = Inside \<and> seen k k' l (Some Left) (vals k ! (sh_locks (shape_of k) ! l)) None"
    by (auto simp add: bind_at_Some seen_def)
next
  let ?s = "sh_locks (shape_of k) ! l"
  assume x: "x = SemP ?s" and v: "vals k ! ?s = 0"
  with e P_effect [of k ?s k'] c ph show "seen k k' l (Some q) (vals k ! ?s) (owners k ! l)" by (auto simp add: seen_def)
next
  let ?s = "sh_locks (shape_of k) ! l"
  assume x: "x = SemP ?s" and v: "vals k ! ?s \<noteq> 0"
  with e P_effect [of k ?s k'] c ph show "q = Checked \<and> seen k k' l (Some Got) (vals k ! ?s - 1) (owners k ! l)"
    by (auto simp add: bind_at_Some seen_def)
next
  let ?s = "sh_locks (shape_of k) ! l"
  assume x: "x = SemV ?s"
  with e V_effect [of k ?s k'] c ph show "q = Left \<and> seen k k' l (Some Out) (vals k ! ?s + 1) (owners k ! l)"
    by (auto simp add: bind_at_Some seen_def)
qed

lemma lock_of_seen:
  assumes "seen (pop k) k' l q v w" and "kernel_inv k" and "places k' = places k" and "\<not> idling k"
  shows "lock_of k' l = (lock_of k l)\<lparr>a_stage := (a_stage (lock_of k l))(current k := q), a_val := v, a_owner := w\<rparr>"
    and "shape_of k' = shape_of k"
proof -
  have c: "current k \<in># places k" using assms(4) by (simp add: places_def)
  have "prog k' u = prog k u" if "u \<in># places k" "u \<noteq> current k" for u
    using assms(1) places_valid [OF assms(2) that(1)] that(2) by (simp add: seen_def pop_view)
  then have "a_stage (lock_of k' l) = (a_stage (lock_of k l))(current k := q)"
    using assms(1,3) c by (auto simp add: lock_of_def seen_def pop_view fun_eq_iff)
  then show "lock_of k' l = (lock_of k l)\<lparr>a_stage := (a_stage (lock_of k l))(current k := q), a_val := v, a_owner := w\<rparr>"
    using assms(1) by (simp add: lock_of_def seen_def pop_view)
  show "shape_of k' = shape_of k" using assms(1) by (simp add: seen_def pop_view)
qed

lemma disciplined_stages: "disciplined D l k \<longleftrightarrow> own_sem (shape_of k) l \<and> sh_locks (shape_of k) ! l \<notin> D \<and>
    (\<forall>t\<in>#places k. a_stage (lock_of k l) t \<noteq> None)"
  by (simp add: disciplined_def lock_of_def)

lemma sim_seen:
  assumes "seen (pop k) k' l (Some q) v w" and "kernel_inv k" and "places k' = places k" and "\<not> idling k" and "disciplined D l k"
    and "lock_step (lock_of k l) ((lock_of k l)\<lparr>a_stage := (a_stage (lock_of k l))(current k \<mapsto> q), a_val := v, a_owner := w\<rparr>)"
  shows "disciplined D l k' \<and> lock_step (lock_of k l) (lock_of k' l)"
proof -
  note e = lock_of_seen [OF assms(1-4)]
  have "disciplined D l k'" using assms(5) unfolding disciplined_stages e assms(3) by simp
  with assms(6) e(1) show ?thesis by simp
qed

lemma sim_stutter:
  assumes "disciplined D l k" and "places k' = places k" and "shape_of k' = shape_of k"
    and "vals k' ! (sh_locks (shape_of k) ! l) = vals k ! (sh_locks (shape_of k) ! l)" and "owners k' = owners k"
    and "\<forall>u<length (threads k). prog k' u = prog k u" and "kernel_inv k"
  shows "disciplined D l k' \<and> lock_step (lock_of k l) (lock_of k' l)"
proof -
  have "lock_of k' l = lock_of k l"
    using assms(2-6) places_valid [OF assms(7)] by (auto simp add: lock_of_def fun_eq_iff)
  with assms(1,2,3) show ?thesis by (simp add: disciplined_stages lock_step.stutter)
qed

lemma sim_fork:
  assumes inv: "kernel_inv k" and c: "\<not> idling k" and d: "disciplined D l k" and x: "next_op k = Fork t f"
    and e: "Thread_Fork (pop k) t f = Inr k'" and new: "t_status (threads k ! t) = JUST_CREATED" and pl: "places k' = add_mset t (places k)"
  shows "disciplined D l k' \<and> lock_step (lock_of k l) (lock_of k' l)"
proof -
  let ?c = "current k" and ?sh = "shape_of k"
  have rn: "running k ?c" using inv c by (simp add: kernel_inv_def)
  then have tc: "t \<noteq> ?c" and cl: "?c < length (threads k)" using new by (auto simp add: running_def valid_def)
  have own: "own_sem ?sh l" using d by (simp add: disciplined_def)
  have tp: "t \<notin># places k" using inv new tc by (auto simp add: kernel_inv_def mid_inv_def places_def queued_def split: if_splits)
  from fork_effect [OF e] tc obtain pre where t: "t < length (threads k)" and u: "unfolds ?sh (Fork t f) pre"
    and cs: "calls (put_thread (pop k) t ((threads (pop k) ! t)\<lparr>t_prog := f\<rparr>)) k' pre" by (auto simp add: pop_view)
  have v: "shape_of k' = ?sh" "vals k' = vals k" "owners k' = owners k" "prog k' ?c = pre @ tl (prog k ?c)" "prog k' t = f"
    and others: "\<forall>u<length (threads k). u \<noteq> ?c \<longrightarrow> u \<noteq> t \<longrightarrow> prog k' u = prog k u"
    using cs t tc cl by (simp_all add: calls_def pop_view prog_put)
  obtain q where q: "phase ?sh l (Fork t f # tl (prog k ?c)) = Some q" "phase ?sh l (prog k ?c) = Some q"
    using d c phase_next [of ?sh l k] x by (auto simp add: disciplined_def places_def)
  have pc: "phase ?sh l (prog k' ?c) = Some q"
  proof (cases "pre = []")
    case True
    with q(1) show ?thesis by (auto simp add: v(4) bind_stable_Some split: if_splits)
  next
    case False
    with phase_unfolds [OF own u _ q(1)] show ?thesis by (simp add: v(4))
  qed
  have "phase ?sh l f = Some Out" using q(1) by (simp split: if_splits)
  moreover have "phase ?sh l (prog k' u) = phase ?sh l (prog k u)" if "u \<in># places k" "u \<noteq> t" for u
    using others places_valid [OF inv that(1)] that(2) pc q(2) by (cases "u = ?c") auto
  ultimately have l: "lock_of k' l = (lock_of k l)\<lparr>a_stage := (a_stage (lock_of k l))(t \<mapsto> Out)\<rparr>"
    using tp by (auto simp add: lock_of_def pl v(1,2,3,5) fun_eq_iff)
  moreover have "lock_step (lock_of k l) ((lock_of k l)\<lparr>a_stage := (a_stage (lock_of k l))(t \<mapsto> Out)\<rparr>)"
    by (rule lock_step.birth) (simp add: lock_of_def tp)
  moreover have "disciplined D l k'" using d unfolding disciplined_stages v(1) pl l by auto
  ultimately show ?thesis by simp
qed

lemma sim_exit:
  assumes inv: "kernel_inv k" and c: "\<not> idling k" and d: "disciplined D l k" and x: "next_op k = Exit"
    and e: "Finish_exit (pop k) = Inr k'" and pl: "places k = add_mset (current k) (places k')"
  shows "disciplined D l k' \<and> lock_step (lock_of k l) (lock_of k' l)"
proof -
  let ?c = "current k"
  have v: "same_view (pop k) k'"
    using e frame_view [OF frame_sleep] by (fastforce simp add: Finish_exit_def same_view_def)
  have "count (places k) ?c \<le> 1" by (rule kernel_inv_distinct [OF inv])
  then have cp: "?c \<notin># places k'" using pl by (simp add: count_eq_zero_iff)
  have "prog k' u = prog k u" if "u \<in># places k'" for u
    using v that cp places_valid [OF inv, of u] pl pop_view(8) [of u k] by (auto simp add: same_view_def pop_view(6))
  then have l: "lock_of k' l = (lock_of k l)\<lparr>a_stage := (a_stage (lock_of k l))(?c := None)\<rparr>"
    using v cp pl by (auto simp add: lock_of_def same_view_def pop_view fun_eq_iff)
  moreover have "phase (shape_of k) l (prog k ?c) = Some Out" using phase_next [of "shape_of k" l k] x by simp
  then have "lock_step (lock_of k l) ((lock_of k l)\<lparr>a_stage := (a_stage (lock_of k l))(?c := None)\<rparr>)"
    by (intro lock_step.death) (simp add: lock_of_def pl)
  moreover have "shape_of k' = shape_of k" using v by (simp add: same_view_def pop_view)
  moreover have "\<forall>t\<in>#places k'. t \<noteq> ?c" using cp by auto
  ultimately show ?thesis using d pl unfolding disciplined_stages by auto
qed

lemma sim_statement:
  assumes inv: "kernel_inv k" and c: "\<not> idling k" and d: "disciplined D l k" and fresh: "fork_fresh k" and e: "kstep k = Inr k'"
  shows "disciplined D l k' \<and> lock_step (lock_of k l) (lock_of k' l)"
proof -
  let ?c = "current k" and ?x = "next_op k" and ?k = "pop k" and ?s = "sh_locks (shape_of k) ! l"
  have new: "\<And>t f. ?x = Fork t f \<Longrightarrow> t_status (threads k ! t) = JUST_CREATED"
    using fresh c by (simp add: fork_fresh_def)
  note ki = kstep_inv [OF inv c e new]
  have x: "exec ?x ?k = Inr k'" by (rule kstep_pop [OF c e])
  have cl: "?c < length (threads k)" using inv c by (auto simp add: kernel_inv_def running_def valid_def)
  have own: "own_sem (shape_of ?k) l" using d by (simp add: disciplined_def pop_view)
  have ck: "current ?k < length (threads ?k)" using cl by (simp add: pop_view)
  obtain q where q: "phase (shape_of k) l (prog k ?c) = Some q"
    using d c by (auto simp add: disciplined_def places_def)
  then have ph: "phase (shape_of ?k) l (?x # prog ?k (current ?k)) = Some q"
    using phase_next [of "shape_of k" l k] cl by (simp add: pop_view)
  have st: "a_stage (lock_of k l) ?c = Some q" using q c by (simp add: lock_of_def places_def)
  have a: "vals ?k ! (sh_locks (shape_of ?k) ! l) = a_val (lock_of k l)" "owners ?k ! l = a_owner (lock_of k l)"
    by (simp_all add: lock_of_def pop_view)
  have triv: "(lock_of k l)\<lparr>a_stage := (a_stage (lock_of k l))(?c \<mapsto> q), a_val := a_val (lock_of k l), a_owner := a_owner (lock_of k l)\<rparr> = lock_of k l"
    using st by (simp add: fun_upd_idem)
  note sim = sim_seen [OF _ inv _ c d]
  note sl = seen_lock [OF own ck x ph, unfolded a]
  consider (fork) t f where "?x = Fork t f" | (exit) "?x = Exit" | (check) "?x = LockCheck l" | (own) "?x = LockOwn l"
    | (leave) "?x = LockLeave l" | (P) "?x = SemP ?s" | (V) "?x = SemV ?s"
    | (other) "?x \<notin> {Exit, LockCheck l, LockOwn l, LockLeave l, SemP ?s, SemV ?s}" "\<And>t f. ?x \<noteq> Fork t f" by blast
  then show ?thesis
  proof cases
    case fork
    with x ki(2) sim_fork [OF inv c d fork _ new [OF fork]] show ?thesis by simp
  next
    case exit
    with x ki(2) sim_exit [OF inv c d exit] show ?thesis by simp
  next
    case check
    with sl(1) have "q = Out" "seen ?k k' l (Some Checked) (a_val (lock_of k l)) (a_owner (lock_of k l))" by simp_all
    with sim [OF this(2)] ki(2) check st lock_step.check [of "lock_of k l" ?c] show ?thesis by simp
  next
    case own
    with sl(2) have "q = Got" "seen ?k k' l (Some Inside) (a_val (lock_of k l)) (Some ?c)" by (simp_all add: pop_view)
    with sim [OF this(2)] ki(2) own st lock_step.own [of "lock_of k l" ?c] show ?thesis by simp
  next
    case leave
    with sl(3) have "q = Inside" "seen ?k k' l (Some Left) (a_val (lock_of k l)) None" by simp_all
    with sim [OF this(2)] ki(2) leave st lock_step.leave [of "lock_of k l" ?c] show ?thesis by simp
  next
    case P
    then have P': "?x = SemP (sh_locks (shape_of ?k) ! l)" by (simp add: pop_view)
    show ?thesis
    proof (cases "a_val (lock_of k l) = 0")
      case True
      from sim [OF sl(4) [OF P' True]] ki(2) P triv lock_step.stutter show ?thesis by simp
    next
      case False
      from sl(5) [OF P' False] have "q = Checked" "seen ?k k' l (Some Got) (a_val (lock_of k l) - 1) (a_owner (lock_of k l))" by simp_all
      with sim [OF this(2)] ki(2) P st False lock_step.take [of "lock_of k l" ?c] show ?thesis by simp
    qed
  next
    case V
    then have "?x = SemV (sh_locks (shape_of ?k) ! l)" by (simp add: pop_view)
    from sl(6) [OF this] have "q = Left" "seen ?k k' l (Some Out) (a_val (lock_of k l) + 1) (a_owner (lock_of k l))" by simp_all
    with sim [OF this(2)] ki(2) V st lock_step.give [of "lock_of k l" ?c] show ?thesis by simp
  next
    case other
    then have "places k' = places k" using ki(2) by (cases ?x) auto
    moreover have "seen ?k k' l (Some q) (a_val (lock_of k l)) (a_owner (lock_of k l))"
      using seen_other [OF own ck x ph] other by (simp add: pop_view a [unfolded pop_view])
    ultimately show ?thesis using sim triv lock_step.stutter by metis
  qed
qed

lemma sim_step:
  assumes "kernel_inv k" and "disciplined D l k" and "fresh_step D k k'"
  shows "disciplined D l k' \<and> lock_step (lock_of k l) (lock_of k' l)"
proof -
  have fresh: "fork_fresh k" and step: "kernel_step D k k'" using assms(3) by (simp_all add: fresh_step_def)
  have frame: ?thesis if "frame k k'" "places k' = places k"
    using sim_stutter [OF assms(2)] that frame_view [OF that(1)] assms(1) by (simp add: same_view_def)
  from step show ?thesis
  proof cases
    case run
    show ?thesis
    proof (cases "idling k")
      case True
      with run have "Sleep_wake k = Inr k'" by (simp add: kstep_def)
      with frame frame_wake Sleep_wake_inv [OF assms(1) True] show ?thesis by blast
    next
      case False
      from sim_statement [OF assms(1) False assms(2) fresh run] show ?thesis .
    qed
  next
    case slice
    with frame frame_yield Yield_inv [OF assms(1)] show ?thesis by blast
  next
    case (device s)
    then have "s \<noteq> sh_locks (shape_of k) ! l" using assms(2) by (auto simp add: disciplined_def)
    with V_effect [OF device(2)] V_inv [OF assms(1) device(2)] assms(1) show ?thesis
      by (intro sim_stutter [OF assms(2)]) (auto simp add: nth_list_update)
  qed
qed

text \<open>The invariant of a kernel whose threads keep to the discipline of a lock.\<close>

definition lock_inv :: "nat set \<Rightarrow> nat \<Rightarrow> kernel \<Rightarrow> bool" where
  "lock_inv D l k \<longleftrightarrow> kernel_inv k \<and> disciplined D l k \<and> alock_ok (lock_of k l)"

interpretation lock: step_invariant "fresh_step D" "lock_inv D l" for D l
  by unfold_locales (auto simp add: lock_inv_def fresh_step_def
      intro: kernel_step_inv(1) alock_ok_step dest: sim_step [unfolded fresh_step_def])

text \<open>Statements that fail, but not on an assertion.\<close>

definition asserts :: "'a res \<Rightarrow> bool" where
  "asserts r \<longleftrightarrow> r \<noteq> Inl AssertFail"

lemma asserts_simps [simp]:
  "asserts (Inr x)" "asserts (bindR r f) = (asserts r \<and> (\<forall>x. r = Inr x \<longrightarrow> asserts (f x)))" "asserts (aget xs i)" "asserts (aset xs i v)"
  "asserts (ASSERT b r) = (b \<and> asserts r)" "asserts (if b then r else r') = (if b then asserts r else asserts r')" "\<not> asserts (Inl AssertFail)"
  "asserts (Inl DanglingPtr)" "asserts (Inl OutOfBounds)"
  by (auto simp add: asserts_def bindR_def aget_def aset_def ASSERT_def split: sum.splits)

lemma asserts_threads [simp]:
  "asserts (get_thread k t)" "asserts (upd_thread k t g)" "asserts (call k ops)" "asserts (rget k p)" "asserts (rset k p x)"
  by (simp_all add: get_thread_def upd_thread_def call_def rget_def rset_def)

lemma asserts_check: "Lock_check k l = Inl AssertFail \<Longrightarrow> l < length (owners k) \<and> owners k ! l = Some (current k)"
proof (rule ccontr)
  assume e: "Lock_check k l = Inl AssertFail" and "\<not> (l < length (owners k) \<and> owners k ! l = Some (current k))"
  then have "asserts (Lock_check k l)"
    by (auto simp add: Lock_check_def owners_def IsHeldByCurrentThread_def res_simps isReady_def removeFromPriorityList_def
        addToPriorityList_def split: option.splits)
  with e show False by (simp add: asserts_def)
qed

lemma asserts_leave: "Lock_leave k l = Inl AssertFail \<Longrightarrow> owners k ! l \<noteq> Some (current k)"
proof
  assume e: "Lock_leave k l = Inl AssertFail" and "owners k ! l = Some (current k)"
  then have "asserts (Lock_leave k l)" by (auto simp add: Lock_leave_def owners_def IsHeldByCurrentThread_def res_simps)
  with e show False by (simp add: asserts_def)
qed

lemma asserts_signal:
  assumes "Condition_Signal k c = Inl AssertFail \<or> Condition_Broadcast k c = Inl AssertFail"
  shows "owners k ! fst (sh_conds (shape_of k) ! c) \<noteq> Some (current k)"
proof
  assume "owners k ! fst (sh_conds (shape_of k) ! c) = Some (current k)"
  then have "asserts (Condition_Signal k c)" "asserts (Condition_Broadcast k c)"
    by (auto simp add: Condition_Signal_def Condition_Broadcast_def owners_def shape_nth IsHeldByCurrentThread_def res_simps)
  with assms show False by (auto simp add: asserts_def)
qed

lemma kstep_exec: "\<not> idling k \<Longrightarrow> valid k (current k) \<Longrightarrow> kstep k = exec (next_op k) (pop k)"
proof -
  assume a: "\<not> idling k" "valid k (current k)"
  then have g: "get_thread k (current k) = Inr (threads k ! current k)" by (simp add: res_simps)
  show ?thesis
  proof (cases "t_prog (threads k ! current k)")
    case Nil
    then have "(threads k ! current k)\<lparr>t_prog := tl (t_prog (threads k ! current k))\<rparr> = threads k ! current k" by simp
    then have "pop k = k" by (simp add: pop_def put_thread_def)
    with a g Nil show ?thesis by (simp add: kstep_def next_op_def)
  next
    case (Cons x ops)
    with a g show ?thesis by (simp add: kstep_def next_op_def pop_def)
  qed
qed

text \<open>Locks and semaphores as their constructors leave them, with every thread outside.\<close>

lemma lock_start:
  assumes "kernel_inv k" and "own_sem (shape_of k) l" and "sh_locks (shape_of k) ! l \<notin> D"
    and "\<forall>t\<in>#places k. phase (shape_of k) l (prog k t) = Some Out"
    and "vals k ! (sh_locks (shape_of k) ! l) = 1" and "owners k ! l = None"
  shows "lock_inv D l k"
proof -
  have "holders (lock_of k l) = {}" using assms(4) by (auto simp add: holders_def lock_of_def)
  with assms show ?thesis by (auto simp add: lock_inv_def disciplined_def alock_ok_def lock_of_def)
qed

text \<open>Finite runs, executable.\<close>

fun ksteps :: "nat \<Rightarrow> kernel \<Rightarrow> kernel option" where
  "ksteps 0 k = Some k"
| "ksteps (Suc n) k = (if fork_fresh k then case kstep k of Inr k' \<Rightarrow> ksteps n k' | Inl _ \<Rightarrow> None else None)"

lemma ksteps_run: "ksteps n k = Some k' \<Longrightarrow> kernel_run D k k'"
proof (induction n k rule: ksteps.induct)
  case (2 n k)
  then obtain k1 where k1: "fork_fresh k" "kstep k = Inr k1" "ksteps n k1 = Some k'" by (auto split: if_splits sum.splits)
  with 2 have "kernel_run D k1 k'" by simp
  moreover have "fresh_step D k k1" using k1 by (simp add: fresh_step_def kernel_step.run)
  ultimately show ?case by (auto simp add: kernel_run_def intro: converse_rtranclp_into_rtranclp)
qed (simp add: kernel_run_def)

lemma demo_forked_inv: "kernel_inv demo_forked"
  by (rule kernel_step_inv(1) [OF demo_fork demo_inv demo_fresh])

lemma demo_places: "places demo_forked = {#0, 1#}"
  by (simp add: places_def queued_def ready_ms_def wait_ms_def demo_forked_def demo_def Scheduler_new_def
      PRIORITY_SIZE_def Semaphore_new_def numeral_eq_Suc)

lemma demo_lock: "lock_inv {} 0 demo_forked"
proof (rule lock_start [OF demo_forked_inv])
  show "own_sem (shape_of demo_forked) 0" by code_simp
  show "\<forall>t\<in>#places demo_forked. phase (shape_of demo_forked) 0 (prog demo_forked t) = Some Out"
    unfolding demo_places by (simp, code_simp)
  show "vals demo_forked ! (sh_locks (shape_of demo_forked) ! 0) = 1" by code_simp
  show "owners demo_forked ! 0 = None" by code_simp
qed simp

definition demo_inside :: kernel where
  "demo_inside = demo_forked\<lparr>threads := (threads demo_forked)[0 := demo_thread RUNNING [Release 0]],
     sems := [(Semaphore_new 1)\<lparr>s_value := 0\<rparr>], locks := [(Lock_new 0)\<lparr>lockerThread := Some 0\<rparr>]\<rparr>"

lemma demo_inside_run: "kernel_run {} demo_forked demo_inside"
proof -
  have "ksteps 4 demo_forked = Some demo_inside" by code_simp
  then show ?thesis by (rule ksteps_run)
qed

text \<open>C11: The locks of the kernel implement the abstract lock. When the threads keep to the discipline of a
  lock, every step of the kernel, of whatever thread and however the threads interleave, is a step
  of the abstract lock or none, and the threads still keep to the discipline.\<close>

theorem lock_refines:
  assumes "kernel_inv k" and "disciplined D l k" and "fresh_step D k k'"
  shows "disciplined D l k' \<and> lock_step (lock_of k l) (lock_of k' l)"
  using sim_step [OF assms] .

theorem lock_refines_witness:
  "\<exists>k. kstep demo_forked = Inr k \<and> disciplined {} 0 k \<and> lock_step (lock_of demo_forked 0) (lock_of k 0)"
proof -
  have "ksteps 1 demo_forked \<noteq> None" by code_simp
  then obtain k where k: "fork_fresh demo_forked" "kstep demo_forked = Inr k" by (auto split: if_splits sum.splits)
  then have "fresh_step {} demo_forked k" by (simp add: fresh_step_def kernel_step.run)
  with lock_refines [of demo_forked "{}" 0 k] demo_lock k(2) show ?thesis by (simp add: lock_inv_def)
qed

text \<open>C2: Mutual exclusion. In every run of the kernel at most one thread is between \<open>Acquire\<close> and
  \<open>Release\<close> of a lock; while one is, it is the owner and the lock's semaphore is 0.\<close>

theorem mutual_exclusion:
  assumes "kernel_run D k0 k" and "lock_inv D l k0"
    and "t \<in># places k" and "phase (shape_of k) l (prog k t) = Some Inside"
  shows "owners k ! l = Some t \<and> vals k ! (sh_locks (shape_of k) ! l) = 0 \<and>
     (\<forall>u\<in>#places k. phase (shape_of k) l (prog k u) = Some Inside \<longrightarrow> u = t)"
proof -
  have i: "alock_ok (lock_of k l)"
    using lock.run_inv [OF assms(1) [unfolded kernel_run_def] assms(2)] by (simp add: lock_inv_def)
  have t: "a_stage (lock_of k l) t = Some Inside" using assms(3,4) by (simp add: lock_of_def)
  then have h: "t \<in> holders (lock_of k l)" by (simp add: holders_def)
  have "a_owner (lock_of k l) = Some t" using i t by (simp add: alock_ok_def)
  moreover have "u = t" if "u \<in># places k" "phase (shape_of k) l (prog k u) = Some Inside" for u
    using alock_ok_inside [OF i h] that by (simp add: lock_of_def)
  ultimately show ?thesis using alock_ok_unique(2) [OF i h] by (simp add: lock_of_def)
qed

theorem mutual_exclusion_witness:
  "0 \<in># places demo_inside \<and> phase (shape_of demo_inside) 0 (prog demo_inside 0) = Some Inside \<and>
   owners demo_inside ! 0 = Some 0 \<and> vals demo_inside ! (sh_locks (shape_of demo_inside) ! 0) = 0 \<and>
   {u. u \<in># places demo_inside \<and> phase (shape_of demo_inside) 0 (prog demo_inside u) = Some Inside} = {0}"
proof -
  have p: "0 \<in># places demo_inside" by (simp add: places_def demo_inside_def demo_forked_def demo_def)
  have i: "phase (shape_of demo_inside) 0 (prog demo_inside 0) = Some Inside" by code_simp
  from mutual_exclusion [OF demo_inside_run demo_lock p i]
  have w: "owners demo_inside ! 0 = Some 0" "vals demo_inside ! (sh_locks (shape_of demo_inside) ! 0) = 0"
    "\<forall>u\<in>#places demo_inside. phase (shape_of demo_inside) 0 (prog demo_inside u) = Some Inside \<longrightarrow> u = 0" by blast+
  then show ?thesis using p i by blast
qed

text \<open>C27: The assertions of the lock never fail. In every run of the kernel whose threads keep to the
  discipline, the assertion of \<open>Acquire\<close> that the caller does not hold the lock, that of \<open>Release\<close>
  that it does, and those of \<open>Signal\<close> and \<open>Broadcast\<close> of the lock's conditions, hold.\<close>

theorem lock_assertions_hold:
  assumes "kernel_run D k0 k" and "lock_inv D l k0" and "\<not> idling k"
    and "next_op k \<in> {LockCheck l, LockLeave l} \<or>
      (\<exists>c. next_op k \<in> {Signal c, Broadcast c} \<and> fst (sh_conds (shape_of k) ! c) = l)"
  shows "kstep k \<noteq> Inl AssertFail"
proof
  assume f: "kstep k = Inl AssertFail"
  have i: "kernel_inv k" "disciplined D l k" "alock_ok (lock_of k l)"
    using lock.run_inv [OF assms(1) [unfolded kernel_run_def] assms(2)] by (simp_all add: lock_inv_def)
  have "valid k (current k)" using i(1) assms(3) by (simp add: kernel_inv_def running_def)
  from f kstep_exec [OF assms(3) this] have e: "exec (next_op k) (pop k) = Inl AssertFail" by simp
  have cp: "current k \<in># places k" using assms(3) by (simp add: places_def)
  then obtain q where q: "phase (shape_of k) l (prog k (current k)) = Some q" using i(2) by (auto simp add: disciplined_def)
  then have "owners k ! l = Some (current k) \<longleftrightarrow> q = Inside" using i(3) cp by (auto simp add: alock_ok_def lock_of_def)
  moreover have "q = (if next_op k = LockCheck l then Out else Inside)"
    using q phase_next [of "shape_of k" l k] assms(4) by (auto simp add: bind_at_Some)
  ultimately show False
    using e assms(4) asserts_check [of "pop k" l] asserts_leave [of "pop k" l] asserts_signal [of "pop k"]
    by (auto simp add: pop_view)
qed

definition demo_leaving :: kernel where
  "demo_leaving = demo_inside\<lparr>threads := (threads demo_inside)[0 := demo_thread RUNNING [LockLeave 0, SemV 0]]\<rparr>"

theorem lock_assertions_hold_witness:
  "kernel_run {} demo_forked demo_leaving \<and> next_op demo_leaving = LockLeave 0 \<and> kstep demo_leaving \<noteq> Inl AssertFail"
proof -
  have "ksteps 5 demo_forked = Some demo_leaving" by code_simp
  then have r: "kernel_run {} demo_forked demo_leaving" by (rule ksteps_run)
  have n: "\<not> idling demo_leaving" "next_op demo_leaving = LockLeave 0" by code_simp+
  then have "next_op demo_leaving \<in> {LockCheck 0, LockLeave 0} \<or>
      (\<exists>c. next_op demo_leaving \<in> {Signal c, Broadcast c} \<and> fst (sh_conds (shape_of demo_leaving) ! c) = 0)" by simp
  from lock_assertions_hold [OF r demo_lock n(1) this] r n(2) show ?thesis by blast
qed

section \<open>Wake-ups\<close>

text \<open>The threads that are awake and about to try \<open>P\<close> of a semaphore.\<close>

definition triers :: "kernel \<Rightarrow> nat \<Rightarrow> nat set" where
  "triers k s = {t \<in> set_mset (places k). t \<notin># wait_ms k \<and> (\<exists>ops. prog k t = SemP s # ops)}"

text \<open>Who waits waits in \<open>P\<close>; while somebody waits, every unit of the semaphore's value has an awake
  thread about to take it.\<close>

definition wake_inv :: "kernel \<Rightarrow> bool" where
  "wake_inv k \<longleftrightarrow> kernel_inv k \<and> (\<forall>s<length (vals k). 0 \<le> vals k ! s \<and>
     (\<forall>t\<in>set (waiters k ! s). \<exists>ops. prog k t = SemP s # ops) \<and>
     (waiters k ! s \<noteq> [] \<longrightarrow> vals k ! s \<le> int (card (triers k s))))"

lemma wait_waiters: "wait_ms k = mset (concat (waiters k))"
  by (simp add: wait_ms_def waiters_def)

lemma waiters_length [simp]: "length (waiters k) = length (vals k)"
  by (simp add: waiters_def vals_def)

lemma waiters_places: "s < length (vals k) \<Longrightarrow> t \<in> set (waiters k ! s) \<Longrightarrow> t \<in># places k \<and> t \<in># wait_ms k"
  by (auto simp add: places_def queued_def wait_waiters)

lemma triers_mono:
  assumes "\<forall>t\<in>#places k. t \<noteq> c \<longrightarrow> t \<in># places k' \<and> prog k' t = prog k t" and "set_mset (wait_ms k') \<subseteq> insert c (set_mset (wait_ms k))"
  shows "card (triers k s - {c}) \<le> card (triers k' s)"
  using assms by (intro card_mono) (auto simp add: triers_def)

lemma exec_keeps:
  assumes "exec x k = Inr k'" and "\<And>s. x \<noteq> SemP s" and "\<And>s. x \<noteq> SemV s" and "current k < length (threads k)"
    and "\<And>t f. x = Fork t f \<Longrightarrow> t \<noteq> current k"
  shows "vals k' = vals k \<and> waiters k' = waiters k \<and>
    (\<forall>u<length (threads k). u \<noteq> current k \<longrightarrow> (\<forall>f. x \<noteq> Fork u f) \<longrightarrow> prog k' u = prog k u)"
proof (cases "plain x")
  case True
  with plain_effect [OF assms(1)] show ?thesis by (auto simp add: calls_body_def calls_def)
next
  case False
  with assms(2,3) consider (own) i where "x = LockOwn i" | (leave) i where "x = LockLeave i" | (fork) t f where "x = Fork t f"
    by (cases x) (auto simp add: plain_def)
  then show ?thesis
  proof cases
    case own
    with assms(1) own_effect [of k i k'] show ?thesis by simp
  next
    case leave
    with assms(1) leave_effect [of k i k'] show ?thesis by simp
  next
    case fork
    with assms(1,5) fork_effect [of k t f k'] show ?thesis by (auto simp add: calls_def prog_put)
  qed
qed

lemma wake_same:
  assumes inv: "wake_inv k" "kernel_inv k'" and v: "vals k' = vals k" "waiters k' = waiters k"
    and p: "\<forall>t\<in>#places k. t \<noteq> c \<longrightarrow> t \<in># places k' \<and> prog k' t = prog k t"
    and c: "c \<notin># wait_ms k" "\<And>s. c \<notin> triers k s"
  shows "wake_inv k'"
proof -
  have "\<exists>ops. prog k' t = SemP s # ops" if s: "s < length (vals k)" "t \<in> set (waiters k ! s)" for s t
  proof -
    have "t \<noteq> c" "t \<in># places k" using waiters_places [OF s] c(1) by auto
    with p inv(1) s show ?thesis by (auto simp add: wake_inv_def)
  qed
  moreover have "card (triers k s) \<le> card (triers k' s)" for s
    using triers_mono [OF p, of s] c(2) [of s] by (auto simp add: wait_waiters v)
  ultimately show ?thesis using inv unfolding wake_inv_def v by (fastforce intro: order_trans)
qed

lemma wake_V:
  assumes inv: "wake_inv k" and V: "Semaphore_V k s = Inr k'"
  shows "wake_inv k'"
proof -
  have ki: "kernel_inv k" using inv by (simp add: wake_inv_def)
  note e = V_effect [OF V]
  have k': "kernel_inv k'" "places k' = places k" using V_inv [OF ki V] by simp_all
  have pr: "prog k' t = prog k t" if "t \<in># places k" for t using e places_valid [OF ki that] by simp
  have s: "s < length (vals k)" using e by simp
  have ws: "set (waiters k' ! i) \<subseteq> set (waiters k ! i)" if "i < length (vals k)" for i
    using e that list.set_sel(2) [of "waiters k ! s"] by (cases "waiters k ! s") (auto simp add: nth_list_update)
  have progs: "\<exists>ops. prog k' t = SemP i # ops" if "i < length (vals k)" "t \<in> set (waiters k' ! i)" for i t
    using inv that ws [OF that(1)] pr waiters_places [OF that(1)] by (auto simp add: wake_inv_def)
  have up: "wait_ms k' + mset (waiters k ! s) = wait_ms k + mset (tl (waiters k ! s))"
    using mset_concat_update [of s "waiters k" "tl (waiters k ! s)"] s e by (simp add: wait_waiters)
  then have hd: "wait_ms k = add_mset t (wait_ms k')" if "waiters k ! s = t # ts" for t ts using that by simp
  have wm: "set_mset (wait_ms k') \<subseteq> set_mset (wait_ms k)"
    using up hd by (cases "waiters k ! s") auto
  have mono: "card (triers k i) \<le> card (triers k' i)" for i
    using wm pr by (intro card_mono) (auto simp add: triers_def k')
  have "vals k ! s + 1 \<le> int (card (triers k' s))" if w: "waiters k ! s = t # ts" for t ts
  proof -
    have t: "t \<in># places k" "t \<in># wait_ms k" using waiters_places [OF s, of t] w by simp_all
    have "count (queued k) t \<le> 1" using ki by (simp add: kernel_inv_def mid_inv_def)
    then have "t \<notin># wait_ms k'" using hd [OF w] by (simp add: queued_def count_eq_zero_iff)
    then have "t \<in> triers k' s" using t pr inv w s by (auto simp add: triers_def k' wake_inv_def)
    moreover have "t \<notin> triers k s" using t by (simp add: triers_def)
    moreover have "triers k s \<subseteq> triers k' s" using wm pr by (auto simp add: triers_def k')
    moreover have "finite (triers k' s)" by (simp add: triers_def)
    ultimately have "card (triers k s) < card (triers k' s)" by (intro psubset_card_mono) auto
    moreover have "vals k ! s \<le> int (card (triers k s))" using inv w s by (simp add: wake_inv_def)
    ultimately show ?thesis by simp
  qed
  then have "vals k' ! i \<le> int (card (triers k' i))" if i: "i < length (vals k)" "waiters k' ! i \<noteq> []" for i
    using inv i e mono [of i] by (cases "waiters k ! s") (fastforce simp add: wake_inv_def nth_list_update split: if_splits)+
  moreover have "0 \<le> vals k' ! i" if "i < length (vals k)" for i
    using inv e that by (auto simp add: wake_inv_def nth_list_update)
  ultimately show ?thesis using k'(1) progs e by (simp add: wake_inv_def)
qed

lemma wake_P:
  assumes inv: "wake_inv k" and c: "\<not> idling k" and x: "next_op k = SemP s" and e: "Semaphore_P (pop k) s = Inr k'"
    and k': "kernel_inv k'" "places k' = places k"
  shows "wake_inv k'"
proof -
  let ?c = "current k"
  have ki: "kernel_inv k" using inv by (simp add: wake_inv_def)
  have cl: "?c < length (threads k)" and cw: "?c \<notin># wait_ms k"
    using ki c by (auto simp add: kernel_inv_def running_def valid_def queued_def)
  have pc: "prog k ?c = SemP s # tl (prog k ?c)" using x by (cases "prog k ?c") (simp_all add: next_op_def prog_def)
  note p = P_effect [OF e]
  have s: "s < length (vals k)" using p cl by (simp add: pop_view)
  have pr: "prog k' t = prog k t" if "t \<in># places k" "t \<noteq> ?c" for t
    using p cl places_valid [OF ki that(1)] that(2) by (simp add: pop_view)
  have ct: "?c \<in> triers k s" using c cw pc by (auto simp add: triers_def places_def)
  have co: "?c \<notin> triers k i" if "i \<noteq> s" for i using pc that by (auto simp add: triers_def)
  have old: "\<exists>ops. prog k' t = SemP i # ops" if i: "i < length (vals k)" "t \<in> set (waiters k ! i)" for i t
  proof -
    have "t \<noteq> ?c" "t \<in># places k" using waiters_places [OF i] cw by auto
    with pr inv i show ?thesis by (auto simp add: wake_inv_def)
  qed
  have stay: "card (triers k i - {?c}) \<le> card (triers k' i)" if "set_mset (wait_ms k') \<subseteq> insert ?c (set_mset (wait_ms k))" for i
    using triers_mono [of k ?c k' i] pr that by (simp add: k')
  show ?thesis
  proof (cases "vals k ! s = 0")
    case True
    with p cl have v: "vals k' = vals k" "waiters k' = (waiters k)[s := waiters k ! s @ [?c]]" "prog k' ?c = SemP s # tl (prog k ?c)"
      by (simp_all add: pop_view)
    have "wait_ms k' + mset (waiters k ! s) = wait_ms k + mset (waiters k ! s @ [?c])"
      using mset_concat_update [of s "waiters k" "waiters k ! s @ [?c]"] s v(2) by (simp add: wait_waiters)
    then have "wait_ms k' = add_mset ?c (wait_ms k)" by simp
    then have m: "card (triers k i) \<le> card (triers k' i)" if "i \<noteq> s" for i using stay [of i] co [OF that] by simp
    have "\<exists>ops. prog k' t = SemP i # ops" if "i < length (vals k)" "t \<in> set (waiters k' ! i)" for i t
      using that old [OF that(1)] v by (cases "i = s") auto
    moreover have "vals k ! i \<le> int (card (triers k' i))" if "i < length (vals k)" "waiters k' ! i \<noteq> []" for i
      using that inv True m [of i] v by (cases "i = s") (auto simp add: wake_inv_def intro: order_trans)
    ultimately show ?thesis using inv k'(1) v(1) by (auto simp add: wake_inv_def)
  next
    case False
    with p cl have v: "vals k' = (vals k)[s := vals k ! s - 1]" "waiters k' = waiters k" by (simp_all add: pop_view)
    have m: "card (triers k i - {?c}) \<le> card (triers k' i)" for i by (rule stay) (auto simp add: wait_waiters v(2))
    have "vals k' ! i \<le> int (card (triers k' i))" if i: "i < length (vals k)" "waiters k ! i \<noteq> []" for i
    proof -
      have w: "vals k ! i \<le> int (card (triers k i))" using inv i by (simp add: wake_inv_def)
      have "card (triers k s - {?c}) = card (triers k s) - 1" using ct by simp
      then show ?thesis using w m [of i] co [of i] i(1) by (cases "i = s") (auto simp add: v(1))
    qed
    moreover have "0 \<le> vals k' ! i" if "i < length (vals k)" for i
      using inv that s False by (auto simp add: v(1) wake_inv_def nth_list_update)
    ultimately show ?thesis using k'(1) v old by (simp add: wake_inv_def)
  qed
qed

lemma wake_frame:
  assumes "wake_inv k" and "frame k k'" and "kernel_inv k' \<and> places k' = places k"
  shows "wake_inv k'"
proof -
  have v: "same_view k k'" by (rule frame_view [OF assms(2)])
  have "kernel_inv k" using assms(1) by (simp add: wake_inv_def)
  then have "prog k' t = prog k t" if "t \<in># places k" for t using v places_valid that by (simp add: same_view_def)
  moreover have "length (threads k) \<notin># places k" using places_valid \<open>kernel_inv k\<close> by blast
  then have "length (threads k) \<notin># wait_ms k" by (auto simp add: places_def queued_def)
  ultimately show ?thesis using assms v \<open>length (threads k) \<notin># places k\<close>
    by (intro wake_same [OF assms(1), where c = "length (threads k)"]) (auto simp add: same_view_def triers_def)
qed

lemma wake_statement:
  assumes inv: "wake_inv k" and c: "\<not> idling k" and fresh: "fork_fresh k" and e: "kstep k = Inr k'"
  shows "wake_inv k'"
proof -
  let ?c = "current k" and ?x = "next_op k"
  have ki: "kernel_inv k" using inv by (simp add: wake_inv_def)
  have new: "\<And>t f. ?x = Fork t f \<Longrightarrow> t_status (threads k ! t) = JUST_CREATED" using fresh c by (simp add: fork_fresh_def)
  note k' = kstep_inv [OF ki c e new]
  have kk: "kernel_inv k'" by (rule k'(1))
  have x: "exec ?x (pop k) = Inr k'" by (rule kstep_pop [OF c e])
  have rn: "running k ?c" using ki c by (simp add: kernel_inv_def)
  then have cl: "?c < length (threads k)" "?c \<notin># wait_ms k" by (auto simp add: running_def valid_def queued_def)
  consider (P) s where "?x = SemP s" | (V) s where "?x = SemV s" | (other) "\<And>s. ?x \<noteq> SemP s" "\<And>s. ?x \<noteq> SemV s" by blast
  then show ?thesis
  proof cases
    case P
    with x k' wake_P [OF inv c P] show ?thesis by simp
  next
    case V
    have "wake_inv (pop k)"
    proof (rule wake_same [OF inv])
      have "quiet k (pop k)" unfolding pop_def by (rule quiet_put) simp_all
      then show "kernel_inv (pop k)" and "\<forall>t\<in>#places k. t \<noteq> ?c \<longrightarrow> t \<in># places (pop k) \<and> prog (pop k) t = prog k t"
        using ki by (simp_all add: quiet_inv pop_view)
      show "?c \<notin> triers k s" for s using V by (auto simp add: triers_def next_op_def prog_def split: list.splits)
    qed (simp_all add: pop_view cl)
    with x V wake_V show ?thesis by simp
  next
    case other
    have ne: "t \<noteq> ?c" if "?x = Fork t f" for t f using new [OF that] rn by (auto simp add: running_def)
    have k1: "vals k' = vals k" "waiters k' = waiters k"
      "\<forall>u<length (threads k). u \<noteq> ?c \<longrightarrow> (\<forall>f. ?x \<noteq> Fork u f) \<longrightarrow> prog k' u = prog k u"
      using exec_keeps [OF x other] cl(1) ne by (simp_all add: pop_view)
    have pl: "t \<in># places k'" if "t \<in># places k" "t \<noteq> ?c" for t using k'(2) that by (cases ?x) auto
    have nf: "?x \<noteq> Fork t f" if "t \<in># places k" for t f
      using new [of t f] that ki by (auto simp add: kernel_inv_def mid_inv_def running_def places_def queued_def split: if_splits)
    show ?thesis
    proof (rule wake_same [OF inv kk k1(1,2)])
      show "\<forall>t\<in>#places k. t \<noteq> ?c \<longrightarrow> t \<in># places k' \<and> prog k' t = prog k t"
        using pl nf k1(3) places_valid [OF ki] by blast
      show "?c \<notin> triers k s" for s using other(1) [of s] by (auto simp add: triers_def next_op_def prog_def split: list.splits)
    qed (rule cl(2))
  qed
qed

interpretation wake: step_invariant "fresh_step D" wake_inv for D
proof
  fix k k'
  assume inv: "wake_inv k" and "fresh_step D k k'"
  then have f: "fork_fresh k" "kernel_inv k" and "kernel_step D k k'" by (simp_all add: fresh_step_def wake_inv_def)
  from this(3) show "wake_inv k'"
  proof cases
    case run
    then show ?thesis
      using wake_statement [OF inv _ f(1) run] wake_frame [OF inv frame_wake Sleep_wake_inv [OF f(2)]]
      by (cases "idling k") (simp_all add: kstep_def)
  next
    case slice
    with wake_frame [OF inv frame_yield] Yield_inv [OF f(2)] show ?thesis by blast
  next
    case device
    with wake_V [OF inv] show ?thesis by blast
  qed
qed

text \<open>C8: No wake-up is lost. In every run of the kernel no semaphore is negative, and while a semaphore is
  positive and threads wait for it, a thread that is running or ready is about to take it; so when the
  machine idles every thread that waits, waits for a semaphore that is zero.\<close>

theorem no_lost_wakeup:
  assumes "kernel_run D k0 k" and "wake_inv k0" and "s < length (vals k)"
  shows "0 \<le> vals k ! s \<and> (0 < vals k ! s \<and> waiters k ! s \<noteq> [] \<longrightarrow>
     (\<exists>t ops. (t \<in># ready_ms k \<or> \<not> idling k \<and> t = current k) \<and> prog k t = SemP s # ops))"
proof (intro conjI impI)
  have i: "wake_inv k" using wake.run_inv [OF assms(1) [unfolded kernel_run_def] assms(2)] .
  then show "0 \<le> vals k ! s" using assms(3) by (simp add: wake_inv_def)
  assume "0 < vals k ! s \<and> waiters k ! s \<noteq> []"
  with i assms(3) have "0 < int (card (triers k s))" by (auto simp add: wake_inv_def)
  then have "triers k s \<noteq> {}" by auto
  then show "\<exists>t ops. (t \<in># ready_ms k \<or> \<not> idling k \<and> t = current k) \<and> prog k t = SemP s # ops"
    by (auto simp add: triers_def places_def queued_def split: if_splits)
qed

text \<open>A semaphore on which a thread waits while another is about to give and a third has just been woken.\<close>

definition demo_waiting :: kernel where
  "demo_waiting = \<lparr>current = 2, idling = False,
     threads = [demo_thread BLOCKED [SemP 0], demo_thread BLOCKED [SemP 0], demo_thread RUNNING [SemV 0]],
     ready = Scheduler_new, sems = [\<lparr>s_value = 0, s_queue = List_Append (List_Append List_new 0) 1\<rparr>],
     locks = [], conds = [], chans = [], slists = [], toBeDestroyed = None\<rparr>"

definition demo_woken :: kernel where
  "demo_woken = demo_waiting\<lparr>threads := [demo_thread READY [SemP 0], demo_thread BLOCKED [SemP 0], demo_thread RUNNING []],
     ready := Scheduler_new[3 := List_Append List_new 0],
     sems := [\<lparr>s_value = 1, s_queue = snd (List_Pop (List_Append (List_Append List_new 0) 1))\<rparr>]\<rparr>"

lemma demo_waiting_inv: "wake_inv demo_waiting"
proof -
  have v: "vals demo_waiting = [0]" "waiters demo_waiting = [[0, 1]]" "prog demo_waiting 0 = [SemP 0]" "prog demo_waiting 1 = [SemP 0]"
    by code_simp+
  have "kernel_inv demo_waiting"
    by (simp add: kernel_inv_def mid_inv_def running_def queued_def ready_ms_def wait_waiters v(2) valid_def demo_waiting_def
        [THEN arg_cong, of current] demo_waiting_def [THEN arg_cong, of threads] demo_waiting_def [THEN arg_cong, of ready]
        demo_waiting_def [THEN arg_cong, of idling] demo_waiting_def [THEN arg_cong, of toBeDestroyed]
        demo_thread_def Scheduler_new_def PRIORITY_SIZE_def)
  then show ?thesis using v by (simp add: wake_inv_def)
qed

theorem no_lost_wakeup_witness:
  "kernel_run {} demo_waiting demo_woken \<and> vals demo_woken ! 0 = 1 \<and> waiters demo_woken ! 0 = [1] \<and>
   (\<exists>t ops. (t \<in># ready_ms demo_woken \<or> \<not> idling demo_woken \<and> t = current demo_woken) \<and> prog demo_woken t = SemP 0 # ops)"
proof -
  have "ksteps 1 demo_waiting = Some demo_woken" by code_simp
  then have r: "kernel_run {} demo_waiting demo_woken" by (rule ksteps_run)
  have v: "0 < length (vals demo_woken)" "vals demo_woken ! 0 = 1" "waiters demo_woken ! 0 = [1]" by code_simp+
  from no_lost_wakeup [OF r demo_waiting_inv v(1)] r v show ?thesis by simp
qed

end
