(* ===== verification/Lib_Debug.thy ===== *)
theory Lib_Debug
  imports Nachos_Prelude
begin

text \<open>
  Strings in buffers, with the functions of the C library that the kernel uses to take a line or an argument apart, and
  the debug output of \<open>lib/debug.cc\<close> and \<open>lib/debug_opts.hh\<close>.

  A buffer is a list of bytes and a string a position in it. The functions of the library are modelled from their
  description in the standard. The debug flags are kept as a pointer: a string of the
  command line, or a position in the debugger's input buffer.
\<close>

section \<open>The C library\<close>

definition isspace :: "u8 \<Rightarrow> bool" where
  "isspace c \<longleftrightarrow> c = 32 \<or> 9 \<le> c \<and> c \<le> 13"

text \<open>The string at a position of a buffer.\<close>

definition cstr_at :: "u8 list \<Rightarrow> nat \<Rightarrow> u8 list" where
  "cstr_at b p = takeWhile (\<lambda>c. c \<noteq> 0) (drop p b)"

text \<open>\<open>strtok_r\<close> with one separator: the word found, the buffer and the saved position.\<close>

definition strtok_r :: "u8 \<Rightarrow> u8 list \<Rightarrow> nat \<Rightarrow> nat option \<times> u8 list \<times> nat" where
  "strtok_r sep b p =
    (let p = p + length (takeWhile (\<lambda>c. c = sep) (cstr_at b p)) in
     if cstr_at b p = [] then (None, b, p)
     else
       let q = p + length (takeWhile (\<lambda>c. c \<noteq> sep) (cstr_at b p)) in
       if q < length b \<and> b ! q \<noteq> 0 then (Some p, b[q := 0], q + 1) else (Some p, b, q))"

definition digit :: "u8 \<Rightarrow> nat" where
  "digit c = (if 48 \<le> c \<and> c \<le> 57 then unat c - 48 else if 97 \<le> c \<and> c \<le> 122 then unat c - 87
     else if 65 \<le> c \<and> c \<le> 90 then unat c - 55 else 99)"

definition numeral_of :: "nat \<Rightarrow> u8 list \<Rightarrow> nat" where
  "numeral_of base ds = foldl (\<lambda>n c. n * base + digit c) 0 ds"

definition ULONG_RANGE :: nat where "ULONG_RANGE = 2 ^ 64"

text \<open>\<open>strtoul\<close>: the value and the number of characters used.\<close>

definition hex_prefix :: "u8 list \<Rightarrow> nat \<Rightarrow> bool" where
  "hex_prefix s base \<longleftrightarrow> (base = 0 \<or> base = 16) \<and> 3 \<le> length s \<and> s ! 0 = 48 \<and> (s ! 1 = 120 \<or> s ! 1 = 88) \<and> digit (s ! 2) < 16"

definition num_base :: "u8 list \<Rightarrow> nat \<Rightarrow> nat" where
  "num_base s base = (if hex_prefix s base then 16 else if base \<noteq> 0 then base else if s \<noteq> [] \<and> hd s = 48 then 8 else 10)"

definition sign_length :: "u8 list \<Rightarrow> nat" where
  "sign_length s = (if s \<noteq> [] \<and> (hd s = 43 \<or> hd s = 45) then 1 else 0)"

definition strtoul :: "u8 list \<Rightarrow> nat \<Rightarrow> u64 \<times> nat" where
  "strtoul s base =
    (let ws = length (takeWhile isspace s); s1 = drop ws s; sg = sign_length s1; s2 = drop sg s1;
         pre = (if hex_prefix s2 base then 2 else 0); ds = takeWhile (\<lambda>c. digit c < num_base s2 base) (drop pre s2);
         n = numeral_of (num_base s2 base) ds in
     if ds = [] then (0, 0)
     else (if n \<ge> ULONG_RANGE then - 1 else if hd s1 = 45 then - of_nat n else of_nat n, ws + sg + pre + length ds))"

lemma cstr_at_ne: "cstr_at b p \<noteq> [] \<longleftrightarrow> p < length b \<and> b ! p \<noteq> 0"
  by (cases "p < length b") (simp_all add: cstr_at_def Cons_nth_drop_Suc [symmetric])

lemma strtok_bounds:
  assumes "strtok_r sep b p = (Some q, b', p')"
  shows "p < p'" and "p < length b" and "length b' = length b"
proof -
  define p1 where "p1 = p + length (takeWhile (\<lambda>c. c = sep) (cstr_at b p))"
  define k where "k = length (takeWhile (\<lambda>c. c \<noteq> sep) (cstr_at b p1))"
  have ne: "cstr_at b p1 \<noteq> []" using assms by (auto simp add: strtok_r_def Let_def p1_def split: if_splits)
  then have l: "p1 < length b" "b ! p1 \<noteq> 0" by (simp_all add: cstr_at_ne)
  then show "p < length b" by (simp add: p1_def)
  have "p' = (if p1 + k < length b \<and> b ! (p1 + k) \<noteq> 0 then p1 + k + 1 else p1 + k)" and b: "b' = b \<or> (\<exists>i. b' = b[i := 0])"
    using assms ne by (auto simp add: strtok_r_def Let_def p1_def [symmetric] k_def [symmetric] split: if_splits)
  then show "p < p'" using l by (cases "k = 0") (auto simp add: p1_def)
  show "length b' = length b" using b by auto
qed

lemma strtok_advances: "strtok_r sep b p = (Some q, b', p') \<Longrightarrow> p < p' \<and> p < length b \<and> length b' = length b"
  using strtok_bounds [of sep b p q b' p'] by simp

lemma strtok_length: "strtok_r sep b p = (w, b', p') \<Longrightarrow> length b' = length b"
  by (auto simp add: strtok_r_def Let_def split: if_splits)

definition ascii_str :: "string \<Rightarrow> u8 list" where
  "ascii_str = map of_char"

section \<open>Words and numerals\<close>

definition is_word :: "u8 list \<Rightarrow> bool" where
  "is_word w \<longleftrightarrow> w \<noteq> [] \<and> (\<forall>c \<in> set w. c \<noteq> 0 \<and> \<not> isspace c)"

lemma word_chars: "is_word w \<Longrightarrow> c \<in> set w \<Longrightarrow> c \<noteq> 0 \<and> c \<noteq> 32 \<and> c \<noteq> 10 \<and> \<not> isspace c"
  by (auto simp add: is_word_def isspace_def)

definition is_token :: "u8 \<Rightarrow> u8 list \<Rightarrow> bool" where
  "is_token sep w \<longleftrightarrow> w \<noteq> [] \<and> (\<forall>c \<in> set w. c \<noteq> 0 \<and> c \<noteq> sep)"

lemma strtok_token:
  assumes "is_token sep w" and "c = 0 \<or> c = sep" and "sep \<noteq> 0"
  shows "strtok_r sep (pre @ w @ c # post) (length pre) =
    (Some (length pre), pre @ w @ 0 # post, length pre + length w + (if c = 0 then 0 else 1))"
proof -
  let ?s = "takeWhile (\<lambda>c. c \<noteq> 0) (w @ c # post)"
  have w: "c \<in> set w \<Longrightarrow> c \<noteq> 0 \<and> c \<noteq> sep" "w \<noteq> []" for c using assms(1) by (simp_all add: is_token_def)
  have s: "?s = w @ takeWhile (\<lambda>c. c \<noteq> 0) (c # post)" using w by (simp add: takeWhile_append)
  have a: "takeWhile (\<lambda>c. c = sep) ?s = []" using w by (cases w) auto
  have b: "takeWhile (\<lambda>c. c \<noteq> sep) ?s = w" using w assms(2) unfolding s by (auto simp add: takeWhile_append)
  have "?s \<noteq> []" using w unfolding s by simp
  with a b assms(2,3) show ?thesis
    by (auto simp add: strtok_r_def cstr_at_def Let_def nth_append list_update_append)
qed

lemma strtok_word:
  assumes "is_word w" and "c = 0 \<or> c = 32"
  shows "strtok_r 32 (pre @ w @ c # post) (length pre) =
    (Some (length pre), pre @ w @ 0 # post, length pre + length w + (if c = 0 then 0 else 1))"
proof (rule strtok_token)
  show "is_token 32 w" using assms(1) word_chars [OF assms(1)] unfolding is_token_def is_word_def by blast
qed (use assms(2) in simp_all)

lemma strtok_none: "b ! p = 0 \<Longrightarrow> p < length b \<Longrightarrow> strtok_r sep b p = (None, b, p)"
  using cstr_at_ne [of b p] by (simp add: strtok_r_def)

lemma cstr_at_token: "is_token sep w \<Longrightarrow> cstr_at (pre @ w @ 0 # post) (length pre) = w"
  by (simp add: cstr_at_def takeWhile_append is_token_def)

lemma cstr_at_word: "is_word w \<Longrightarrow> cstr_at (pre @ w @ 0 # post) (length pre) = w"
  using word_chars [of w] by (simp add: cstr_at_def takeWhile_append)

text \<open>The numerals that the user types.\<close>

fun decimal :: "nat \<Rightarrow> u8 list" where
  "decimal n = (if n < 10 then [] else decimal (n div 10)) @ [48 + of_nat (n mod 10)]"

declare decimal.simps [simp del]

lemma decimal_ne [simp]: "decimal n \<noteq> []"
  by (subst decimal.simps) simp

lemma digit_of: "k < 10 \<Longrightarrow> digit (48 + of_nat k) = k \<and> (48 + of_nat k :: u8) \<noteq> 0 \<and> \<not> isspace (48 + of_nat k)"
proof -
  assume "k < 10"
  then have "k \<in> {0, 1, 2, 3, 4, 5, 6, 7, 8, 9}" by auto
  then show ?thesis by (elim insertE emptyE; simp add: digit_def isspace_def)
qed

lemma decimal_digits: "c \<in> set (decimal n) \<Longrightarrow> digit c < 10 \<and> c \<noteq> 0 \<and> \<not> isspace c"
proof (induction n rule: decimal.induct)
  case (1 n)
  then show ?case using digit_of [of "n mod 10"] by (subst (asm) (2) decimal.simps) (auto split: if_splits)
qed

lemma numeral_decimal: "numeral_of 10 (decimal n) = n"
proof (induction n rule: decimal.induct)
  case (1 n)
  then show ?case using digit_of [of "n mod 10"] by (subst decimal.simps) (simp add: numeral_of_def)
qed

lemma hd_decimal: "hd (decimal n) = 48 \<longleftrightarrow> n = 0"
proof (induction n rule: decimal.induct)
  case (1 n)
  have "(48 + of_nat n :: u8) = 48 \<longleftrightarrow> n = 0" if "n < 10"
  proof -
    have "n \<in> {0, 1, 2, 3, 4, 5, 6, 7, 8, 9}" using that by auto
    then show ?thesis by (elim insertE emptyE; simp)
  qed
  with 1 show ?case by (subst decimal.simps) (auto simp add: div_eq_0_iff)
qed

lemma digit_sign: "digit 43 = 99" "digit 45 = 99" "\<not> isspace 48"
  by (simp_all add: digit_def isspace_def)

lemma strtoul_plain:
  assumes "s = x # xs" and "\<not> isspace x" and "x \<noteq> 43" and "x \<noteq> 45" and "base = 10 \<or> base = 0 \<and> x \<noteq> 48"
    and "takeWhile (\<lambda>c. digit c < 10) s = s" and "n < ULONG_RANGE" and "numeral_of 10 s = n"
  shows "strtoul s base = (of_nat n, length s)"
proof -
  have "takeWhile isspace s = []" and "sign_length s = 0" and "\<not> hex_prefix s base" and "num_base s base = 10" and "hd s \<noteq> 45"
    using assms(1-5) by (auto simp add: sign_length_def hex_prefix_def num_base_def)
  then show ?thesis using assms(6-) by (simp add: strtoul_def assms(1))
qed

lemma strtoul_decimal:
  assumes "n < ULONG_RANGE"
  shows "strtoul (decimal n) 10 = (of_nat n, length (decimal n))" and "strtoul (decimal n) 0 = (of_nat n, length (decimal n))"
proof -
  have dg: "takeWhile (\<lambda>c. digit c < 10) (decimal n) = decimal n" using decimal_digits [of _ n] by (simp add: takeWhile_eq_all_conv)
  obtain x xs where x: "decimal n = x # xs" by (cases "decimal n") simp_all
  then have h: "\<not> isspace x" "x \<noteq> 43" "x \<noteq> 45" using decimal_digits [of x n] digit_sign by auto
  note plain = strtoul_plain [OF x h _ dg _ numeral_decimal]
  show "strtoul (decimal n) 10 = (of_nat n, length (decimal n))"
    by (rule plain) (use assms in simp_all)
  show "strtoul (decimal n) 0 = (of_nat n, length (decimal n))"
  proof (cases "n = 0")
    case True
    have "digit 48 = 0" by (simp add: digit_def)
    then show ?thesis
      by (simp add: True decimal.simps [of 0] strtoul_def digit_sign numeral_of_def hex_prefix_def num_base_def sign_length_def ULONG_RANGE_def)
  next
    case False
    then have "x \<noteq> 48" using hd_decimal [of n] x by simp
    then show ?thesis by (intro plain) (use assms in simp_all)
  qed
qed

lemma is_word_decimal [simp]: "is_word (decimal n)"
  using decimal_digits by (auto simp add: is_word_def)

section \<open>Debug output\<close>

text \<open>The flags are a string of the program's own, given on the command line, or a position in the debugger's buffer.\<close>

datatype flagptr = FlagsNull | FlagsString "u8 list" | FlagsAt nat

record DebugOpts =
  opt_location :: bool
  opt_function :: bool
  opt_sleep :: bool
  opt_interactive :: bool

record Debug =
  flags :: flagptr
  opts :: DebugOpts

definition DebugOpts_new :: DebugOpts where
  "DebugOpts_new = \<lparr>opt_location = False, opt_function = False, opt_sleep = False, opt_interactive = False\<rparr>"

definition Debug_new :: Debug where
  "Debug_new = \<lparr>flags = FlagsString [], opts = DebugOpts_new\<rparr>"

definition SetFlags :: "flagptr \<Rightarrow> Debug \<Rightarrow> Debug" where
  "SetFlags new_flags d = d\<lparr>flags := new_flags\<rparr>"

definition SetOpts :: "DebugOpts \<Rightarrow> Debug \<Rightarrow> Debug" where
  "SetOpts new_opts d = d\<lparr>opts := new_opts\<rparr>"

fun GetFlags :: "u8 list \<Rightarrow> flagptr \<Rightarrow> u8 list option" where
  "GetFlags b FlagsNull = None"
| "GetFlags b (FlagsString s) = Some s"
| "GetFlags b (FlagsAt p) = Some (cstr_at b p)"

text \<open>\<open>strchr\<close> finds the null at the end, too.\<close>

definition strchr :: "u8 list \<Rightarrow> u8 \<Rightarrow> bool" where
  "strchr s c \<longleftrightarrow> c \<in> set (s @ [0])"

definition IsEnabled :: "u8 list \<Rightarrow> Debug \<Rightarrow> u8 \<Rightarrow> bool" where
  "IsEnabled b d flag = (case GetFlags b (flags d) of None \<Rightarrow> False | Some s \<Rightarrow> strchr s flag \<or> strchr s 43)"

text \<open>What \<open>Print\<close> and \<open>PrintCont\<close> put out around the formatted text.\<close>

datatype debug_out = Location | Function_name | Prefix u8 | Text | Delay | Wait_key

definition Debug_Print :: "u8 list \<Rightarrow> Debug \<Rightarrow> u8 \<Rightarrow> debug_out list" where
  "Debug_Print b d flag =
    (if \<not> IsEnabled b d flag then []
     else (if opt_location (opts d) then [Location] else []) @ (if opt_function (opts d) then [Function_name] else []) @
       [Prefix flag, Text] @ (if opt_sleep (opts d) then [Delay] else []) @ (if opt_interactive (opts d) then [Wait_key] else []))"

definition Debug_PrintCont :: "u8 list \<Rightarrow> Debug \<Rightarrow> u8 \<Rightarrow> debug_out list" where
  "Debug_PrintCont b d flag = (if \<not> IsEnabled b d flag then [] else [Text])"

end
