(* ===== verification/Machine_Interrupt.thy ===== *)
theory Machine_Interrupt
  imports Lib_List
begin

text \<open>
  The interrupt hardware, the clock and the timer device: \<open>machine/interrupt.cc\<close>,
  \<open>machine/interrupt.hh\<close>, \<open>machine/statistics.cc\<close>, \<open>machine/statistics.hh\<close> and
  \<open>machine/timer.cc\<close>.

  The state holds the interrupt controller, the statistics it counts time in (\<open>unsigned long\<close>,
  64 bits) and, in \<open>sys\<close>, the rest of the system. A pair of a handler and its argument is a
  value of the type \<open>'h\<close>; \<open>run\<close> calls it. \<open>dload\<close> is the call of
  \<open>machine->DelayedLoad(0, 0)\<close> that precedes a handler (nothing in a build without user programs),
  and \<open>yield_thread\<close> is \<open>currentThread->Yield()\<close>. \<open>ticks_fix\<close> is the build's
  \<open>DFS_TICKS_FIX\<close>. Times pass through a 32-bit \<open>unsigned\<close> and are sort keys of type
  \<open>int\<close> in the pending list, as in the code.
\<close>

section \<open>State\<close>

datatype IntStatus = INT_OFF | INT_ON

datatype IntType =
  TIMER_INT | DISK_INT | CONSOLE_WRITE_INT | CONSOLE_READ_INT | NETWORK_SEND_INT | NETWORK_RECV_INT

record Statistics =
  totalTicks :: u64
  idleTicks :: u64
  systemTicks :: u64
  userTicks :: u64
  numDiskReads :: u64
  numDiskWrites :: u64
  numConsoleCharsRead :: u64
  numConsoleCharsWritten :: u64
  numPageFaults :: u64
  numPacketsSent :: u64
  numPacketsRecvd :: u64
  tickResets :: u64

definition Statistics_new :: Statistics where
  "Statistics_new = \<lparr>totalTicks = 0, idleTicks = 0, systemTicks = 0, userTicks = 0,
     numDiskReads = 0, numDiskWrites = 0, numConsoleCharsRead = 0, numConsoleCharsWritten = 0,
     numPageFaults = 0, numPacketsSent = 0, numPacketsRecvd = 0, tickResets = 0\<rparr>"

definition USER_TICK :: u64 where "USER_TICK = 1"
definition SYSTEM_TICK :: u64 where "SYSTEM_TICK = 10"
definition ROTATION_TIME :: u64 where "ROTATION_TIME = 500"
definition SEEK_TIME :: u64 where "SEEK_TIME = 500"
definition CONSOLE_TIME :: u64 where "CONSOLE_TIME = 100"
definition NETWORK_TIME :: u64 where "NETWORK_TIME = 100"
definition TIMER_TICKS :: u64 where "TIMER_TICKS = 100"

record 'h PendingInterrupt =
  handler :: 'h
  p_when :: u64
  p_type :: IntType

record ('h, 's) istate =
  level :: IntStatus
  pending :: "'h PendingInterrupt nlist"
  inHandler :: bool
  yieldOnReturn :: bool
  i_status :: MachineStatus
  stats :: Statistics
  sys :: 's

type_synonym ('h, 's) act = "('h, 's) istate \<Rightarrow> ('h, 's) istate res"

section \<open>Operations\<close>

definition PendingInterrupt_new :: "'h \<Rightarrow> u64 \<Rightarrow> IntType \<Rightarrow> 'h PendingInterrupt" where
  "PendingInterrupt_new func time kind = \<lparr>handler = func, p_when = time, p_type = kind\<rparr>"

definition Interrupt_new :: "Statistics \<Rightarrow> 's \<Rightarrow> ('h, 's) istate" where
  "Interrupt_new st sy = \<lparr>level = INT_OFF, pending = List_new, inHandler = False,
     yieldOnReturn = False, i_status = SYSTEM_MODE, stats = st, sys = sy\<rparr>"

definition ChangeLevel :: "IntStatus \<Rightarrow> IntStatus \<Rightarrow> ('h, 's) istate \<Rightarrow> ('h, 's) istate" where
  "ChangeLevel old now s = s\<lparr>level := now\<rparr>"

definition CheckIfDue ::
  "('h \<Rightarrow> ('h, 's) act) \<Rightarrow> ('h, 's) act \<Rightarrow> bool \<Rightarrow> ('h, 's) istate \<Rightarrow> (bool \<times> ('h, 's) istate) res" where
  "CheckIfDue run dload advanceClock s =
    ASSERT (level s = INT_OFF) (
    let old = i_status s; (popped, rest) = List_SortedPop (pending s); s = s\<lparr>pending := rest\<rparr> in
    case popped of None \<Rightarrow> Inr (False, s) | Some (key, toOccur) \<Rightarrow>
    let when32 = word_of_int key :: u32; when64 = ucast when32 :: u64; now = totalTicks (stats s) in
    if \<not> advanceClock \<and> when64 > now
    then Inr (False, s\<lparr>pending := List_SortedInsert (pending s) toOccur (sint when32)\<rparr>)
    else
      let s = (if advanceClock \<and> when64 > now
               then s\<lparr>stats := (stats s)\<lparr>idleTicks := idleTicks (stats s) + (when64 - now), totalTicks := when64\<rparr>\<rparr>
               else s) in
      if i_status s = IDLE_MODE \<and> p_type toOccur = TIMER_INT \<and> List_IsEmpty (pending s)
      then Inr (False, s\<lparr>pending := List_SortedInsert (pending s) toOccur (sint when32)\<rparr>)
      else
        bindR (dload s) (\<lambda>s.
        bindR (run (handler toOccur) (s\<lparr>inHandler := True, i_status := SYSTEM_MODE\<rparr>)) (\<lambda>s.
        Inr (True, s\<lparr>i_status := old, inHandler := False\<rparr>))))"

fun due_loop ::
  "('h \<Rightarrow> ('h, 's) act) \<Rightarrow> ('h, 's) act \<Rightarrow> nat \<Rightarrow> ('h, 's) act" where
  "due_loop run dload 0 s = Inl OutOfFuel"
| "due_loop run dload (Suc n) s =
     bindR (CheckIfDue run dload False s) (\<lambda>(fired, s). if fired then due_loop run dload n s else Inr s)"

definition OneTick ::
  "('h \<Rightarrow> ('h, 's) act) \<Rightarrow> ('h, 's) act \<Rightarrow> ('h, 's) act \<Rightarrow> nat \<Rightarrow> ('h, 's) act" where
  "OneTick run dload yield_thread fuel s =
    (let old = i_status s; st = stats s;
         st = (if i_status s = SYSTEM_MODE
               then st\<lparr>totalTicks := totalTicks st + SYSTEM_TICK, systemTicks := systemTicks st + SYSTEM_TICK\<rparr>
               else st\<lparr>totalTicks := totalTicks st + USER_TICK, userTicks := userTicks st + USER_TICK\<rparr>);
         s = ChangeLevel INT_ON INT_OFF (s\<lparr>stats := st\<rparr>) in
     bindR (due_loop run dload fuel s) (\<lambda>s.
     let s = ChangeLevel INT_OFF INT_ON s in
     if yieldOnReturn s then
       bindR (yield_thread (s\<lparr>yieldOnReturn := False, i_status := SYSTEM_MODE\<rparr>)) (\<lambda>s.
       Inr (s\<lparr>i_status := old\<rparr>))
     else Inr s))"

definition SetLevel ::
  "('h \<Rightarrow> ('h, 's) act) \<Rightarrow> ('h, 's) act \<Rightarrow> ('h, 's) act \<Rightarrow> nat \<Rightarrow> IntStatus \<Rightarrow>
   ('h, 's) istate \<Rightarrow> (IntStatus \<times> ('h, 's) istate) res" where
  "SetLevel run dload yield_thread fuel now s =
    (let old = level s in
     ASSERT (now = INT_OFF \<or> \<not> inHandler s) (
     let s = ChangeLevel old now s in
     if now = INT_ON \<and> old = INT_OFF
     then bindR (OneTick run dload yield_thread fuel s) (\<lambda>s. Inr (old, s))
     else Inr (old, s)))"

definition Enable ::
  "('h \<Rightarrow> ('h, 's) act) \<Rightarrow> ('h, 's) act \<Rightarrow> ('h, 's) act \<Rightarrow> nat \<Rightarrow> ('h, 's) act" where
  "Enable run dload yield_thread fuel s =
    bindR (SetLevel run dload yield_thread fuel INT_ON s) (\<lambda>(old, s). Inr s)"

definition YieldOnReturn :: "('h, 's) istate \<Rightarrow> ('h, 's) istate" where
  "YieldOnReturn s = s\<lparr>yieldOnReturn := True\<rparr>"

text \<open>\<open>Idle\<close> returns, or calls \<open>Halt\<close>, which never returns: the flag is true when the
  machine halts.\<close>

definition Idle ::
  "('h \<Rightarrow> ('h, 's) act) \<Rightarrow> ('h, 's) act \<Rightarrow> nat \<Rightarrow> ('h, 's) istate \<Rightarrow> (bool \<times> ('h, 's) istate) res" where
  "Idle run dload fuel s =
    bindR (CheckIfDue run dload True (s\<lparr>i_status := IDLE_MODE\<rparr>)) (\<lambda>(fired, s).
      if fired then
        bindR (due_loop run dload fuel s) (\<lambda>s.
          Inr (False, s\<lparr>yieldOnReturn := False, i_status := SYSTEM_MODE\<rparr>))
      else Inr (True, s))"

fun restart_loop :: "u64 \<Rightarrow> (int \<times> 'h PendingInterrupt) list \<Rightarrow> 'h PendingInterrupt nlist \<Rightarrow> 'h PendingInterrupt nlist" where
  "restart_loop ticks [] l = l"
| "restart_loop ticks ((key, i) # es) l =
     (let oldWhen = word_of_int key :: u32; newWhen = ucast (ucast oldWhen - ticks) :: u32 in
      restart_loop ticks es (List_SortedInsert l i (sint newWhen)))"

definition RestartTicks :: "('h, 's) istate \<Rightarrow> ('h, 's) istate" where
  "RestartTicks s =
    s\<lparr>pending := restart_loop (totalTicks (stats s)) (elems (pending s)) List_new,
      stats := (stats s)\<lparr>totalTicks := 0, tickResets := tickResets (stats s) + 1\<rparr>\<rparr>"

definition Schedule :: "bool \<Rightarrow> 'h \<Rightarrow> u64 \<Rightarrow> IntType \<Rightarrow> ('h, 's) act" where
  "Schedule ticks_fix h fromNow kind s =
    ASSERT (fromNow > 0) (
    bindR (if ticks_fix
           then Inr (if 0xFFFFFFFF - totalTicks (stats s) < fromNow then RestartTicks s else s)
           else ASSERT (0xFFFFFFFFFFFFFFFF - totalTicks (stats s) > fromNow) (Inr s)) (\<lambda>s.
    let when32 = ucast (totalTicks (stats s) + fromNow) :: u32;
        toOccur = PendingInterrupt_new h (ucast when32) kind in
    Inr (s\<lparr>pending := List_SortedInsert (pending s) toOccur (sint when32)\<rparr>)))"

definition GetLevel :: "('h, 's) istate \<Rightarrow> IntStatus" where "GetLevel s = level s"
definition GetStatus :: "('h, 's) istate \<Rightarrow> MachineStatus" where "GetStatus s = i_status s"
definition SetStatus :: "MachineStatus \<Rightarrow> ('h, 's) istate \<Rightarrow> ('h, 's) istate" where
  "SetStatus st s = s\<lparr>i_status := st\<rparr>"

section \<open>The timer\<close>

text \<open>The timer's \<open>rnd\<close> is the next value of \<open>SystemDep::Random\<close>, \<open>user_program\<close> the
  build's \<open>USER_PROGRAM\<close>, and \<open>device\<close> the handler of the kernel for this device.\<close>

definition TimeOfNextInterrupt :: "bool \<Rightarrow> bool \<Rightarrow> u32 \<Rightarrow> u64" where
  "TimeOfNextInterrupt user_program randomize rnd =
    (if randomize then 1 + ucast rnd mod (TIMER_TICKS * 2)
     else if user_program then 125 else TIMER_TICKS)"

definition TimerExpired :: "bool \<Rightarrow> bool \<Rightarrow> bool \<Rightarrow> u32 \<Rightarrow> 'h \<Rightarrow> ('h, 's) act \<Rightarrow> ('h, 's) act" where
  "TimerExpired ticks_fix user_program randomize rnd h device s =
    bindR (Schedule ticks_fix h (TimeOfNextInterrupt user_program randomize rnd) TIMER_INT s) device"

definition TimerInterruptHandler :: "('h, 's) act" where
  "TimerInterruptHandler s = Inr (if i_status s \<noteq> IDLE_MODE then YieldOnReturn s else s)"

section \<open>Pending interrupts and the ones that are due\<close>

definition now :: "('h, 's) istate \<Rightarrow> nat" where
  "now s = unat (totalTicks (stats s))"

definition pending_wf :: "('h, 's) istate \<Rightarrow> bool" where
  "pending_wf s \<longleftrightarrow> key_sorted (pending s) \<and> (\<forall>(k, p)\<in>set (elems (pending s)). 0 \<le> k \<and> k < 2147483648)"

definition due :: "('h, 's) istate \<Rightarrow> (int \<times> 'h PendingInterrupt) list" where
  "due s = filter (\<lambda>(k, p). k \<le> int (now s)) (elems (pending s))"

lemma key_when:
  assumes "0 \<le> k" and "k < 2147483648"
  shows "unat (ucast (word_of_int k :: u32) :: u64) = nat k" and "sint (word_of_int k :: u32) = k"
proof -
  have "uint (word_of_int k :: u32) = k" using assms by (simp add: uint_word_of_int)
  then have "unat (word_of_int k :: u32) = nat k" by (simp add: unat_eq_nat_uint)
  then show "unat (ucast (word_of_int k :: u32) :: u64) = nat k"
    using unat_less32 [of "word_of_int k"] by (simp add: unsigned_ucast_eq take_bit_nat_eq_self_iff)
  show "sint (word_of_int k :: u32) = k"
    using signed_wrap [of k] assms by (simp add: in_range_def)
qed

lemma elems_SortedPop:
  "elems l = e # es \<Longrightarrow> List_SortedPop l = (Some e, \<lparr>elems = es, nsize = nsize l - 1\<rparr>)"
  "elems l = [] \<Longrightarrow> List_SortedPop l = (None, l)"
  by (simp_all add: List_SortedPop_def)

lemma due_upd [simp]:
  "due (s\<lparr>i_status := st\<rparr>) = due s" "due (s\<lparr>inHandler := b\<rparr>) = due s"
  "due (s\<lparr>level := l\<rparr>) = due s" "due (s\<lparr>yieldOnReturn := y\<rparr>) = due s"
  "now (s\<lparr>i_status := st\<rparr>) = now s" "now (s\<lparr>inHandler := b\<rparr>) = now s"
  "now (s\<lparr>level := l\<rparr>) = now s" "now (s\<lparr>yieldOnReturn := y\<rparr>) = now s"
  "now (s\<lparr>pending := p\<rparr>) = now s"
  "pending_wf (s\<lparr>i_status := st\<rparr>) = pending_wf s" "pending_wf (s\<lparr>inHandler := b\<rparr>) = pending_wf s"
  "pending_wf (s\<lparr>level := l\<rparr>) = pending_wf s" "pending_wf (s\<lparr>yieldOnReturn := y\<rparr>) = pending_wf s"
  by (simp_all add: due_def now_def pending_wf_def)

lemma due_Cons:
  assumes "pending_wf s" and "elems (pending s) = (k, p) # es"
  shows "due s = (if k \<le> int (now s) then (k, p) # filter (\<lambda>(k, p). k \<le> int (now s)) es else [])"
proof (cases "k \<le> int (now s)")
  case False
  from assms have "\<forall>(k', p')\<in>set es. k \<le> k'"
    by (auto simp add: pending_wf_def key_sorted_def keys_def)
  with False assms(2) show ?thesis by (force simp add: due_def filter_empty_conv)
qed (simp add: due_def assms(2))

lemma pending_wf_put_back:
  assumes "pending_wf s" and "elems (pending s) = (k, p) # es"
  shows "pending_wf (s\<lparr>pending := List_SortedInsert \<lparr>elems = es, nsize = n\<rparr> p k\<rparr>)"
proof -
  have "key_sorted \<lparr>elems = es, nsize = n\<rparr>"
    using assms by (auto simp add: pending_wf_def key_sorted_def keys_def)
  with assms show ?thesis
    by (auto simp add: pending_wf_def SortedInsert_sorted set_elems_SortedInsert)
qed

definition tick_clock :: "('h, 's) istate \<Rightarrow> ('h, 's) istate" where
  "tick_clock s =
    (let st = stats s;
         st = (if i_status s = SYSTEM_MODE
               then st\<lparr>totalTicks := totalTicks st + SYSTEM_TICK, systemTicks := systemTicks st + SYSTEM_TICK\<rparr>
               else st\<lparr>totalTicks := totalTicks st + USER_TICK, userTicks := userTicks st + USER_TICK\<rparr>) in
     ChangeLevel INT_ON INT_OFF (s\<lparr>stats := st\<rparr>))"

text \<open>One interrupt taken: the earliest pending entry leaves the list and its handler runs.\<close>

definition fire ::
  "('h \<Rightarrow> ('h, 's) act) \<Rightarrow> ('h, 's) act \<Rightarrow> 'h PendingInterrupt \<Rightarrow> ('h, 's) act" where
  "fire run dload p s =
    bindR (dload (s\<lparr>pending := snd (List_SortedPop (pending s))\<rparr>)) (\<lambda>s1.
    bindR (run (handler p) (s1\<lparr>inHandler := True, i_status := SYSTEM_MODE\<rparr>)) (\<lambda>s2.
    Inr (s2\<lparr>i_status := i_status s, inHandler := False\<rparr>)))"

fun fire_all ::
  "('h \<Rightarrow> ('h, 's) act) \<Rightarrow> ('h, 's) act \<Rightarrow> (int \<times> 'h PendingInterrupt) list \<Rightarrow> ('h, 's) act" where
  "fire_all run dload [] s = Inr s"
| "fire_all run dload ((k, p) # ds) s = bindR (fire run dload p s) (fire_all run dload ds)"

text \<open>
  The contract between the interrupt controller and the handlers of the devices, for a system invariant \<open>I\<close> under which the pending
  list is in order: when the earliest entry is due, its handler, run with the entry off the list, comes back, keeps the invariant, the clock
  and the interrupt level, and what it schedules lies in the future.
\<close>

definition handlers_ok :: "('h \<Rightarrow> ('h, 's) act) \<Rightarrow> ('h, 's) act \<Rightarrow> (('h, 's) istate \<Rightarrow> bool) \<Rightarrow> bool" where
  "handlers_ok run dload I \<longleftrightarrow>
    (\<forall>s. I s \<longrightarrow> pending_wf s) \<and>
    (\<forall>s k p ds. I s \<and> level s = INT_OFF \<and> due s = (k, p) # ds \<longrightarrow>
       (\<exists>s'. fire run dload p s = Inr s' \<and> I s' \<and> level s' = INT_OFF \<and> now s' = now s \<and> due s' = ds))"

lemma fire_status: "fire run dload p s = Inr s' \<Longrightarrow> i_status s' = i_status s"
  by (auto simp add: fire_def res_simps)

text \<open>Taking the earliest entry off the list.\<close>

lemma pop_due:
  assumes "pending_wf s" and "due s = (k, p) # ds"
  obtains es where "elems (pending s) = (k, p) # es" and "snd (List_SortedPop (pending s)) = \<lparr>elems = es, nsize = nsize (pending s) - 1\<rparr>"
    and "pending_wf (s\<lparr>pending := \<lparr>elems = es, nsize = nsize (pending s) - 1\<rparr>\<rparr>)" and "due (s\<lparr>pending := \<lparr>elems = es, nsize = nsize (pending s) - 1\<rparr>\<rparr>) = ds"
proof -
  obtain es where es: "elems (pending s) = (k, p) # es"
    using assms due_Cons [OF assms(1)] by (cases "elems (pending s)") (auto simp add: due_def split: if_splits)
  show thesis
  proof (rule that [OF es])
    show "snd (List_SortedPop (pending s)) = \<lparr>elems = es, nsize = nsize (pending s) - 1\<rparr>" by (simp add: elems_SortedPop(1) [OF es])
    show "pending_wf (s\<lparr>pending := \<lparr>elems = es, nsize = nsize (pending s) - 1\<rparr>\<rparr>)"
      using assms(1) es by (auto simp add: pending_wf_def key_sorted_def keys_def)
    show "due (s\<lparr>pending := \<lparr>elems = es, nsize = nsize (pending s) - 1\<rparr>\<rparr>) = ds"
      using due_Cons [OF assms(1) es] assms(2) by (simp add: due_def now_def split: if_splits)
  qed
qed

lemma check_not_due:
  assumes "pending_wf s" and "level s = INT_OFF" and "due s = []"
  shows "\<exists>s'. CheckIfDue run dload False s = Inr (False, s') \<and> pending_wf s' \<and>
     s' = s\<lparr>pending := pending s'\<rparr> \<and> set (elems (pending s')) = set (elems (pending s))"
proof (cases "elems (pending s)")
  case Nil
  with assms show ?thesis
    by (intro exI [of _ s]) (simp add: CheckIfDue_def elems_SortedPop)
next
  case (Cons e es)
  obtain k p where e: "e = (k, p)" by force
  have k: "0 \<le> k" "k < 2147483648" using assms(1) Cons e by (auto simp add: pending_wf_def)
  have "\<not> k \<le> int (now s)" using due_Cons [OF assms(1)] Cons e assms(3) by (auto split: if_splits)
  then have w: "totalTicks (stats s) < ucast (word_of_int k :: u32)"
    using k unfolding word_less_nat_alt key_when(1) [OF k] now_def by linarith
  let ?s' = "s\<lparr>pending := List_SortedInsert \<lparr>elems = es, nsize = nsize (pending s) - 1\<rparr> p k\<rparr>"
  have "CheckIfDue run dload False s = Inr (False, ?s')"
    using assms(2) Cons e w k by (simp add: CheckIfDue_def elems_SortedPop key_when)
  then show ?thesis
    using pending_wf_put_back [OF assms(1)] Cons e
    by (intro exI [of _ ?s']) (simp add: set_elems_SortedInsert)
qed

lemma check_due:
  assumes "pending_wf s" and "level s = INT_OFF" and "due s = (k, p) # ds" and "i_status s \<noteq> IDLE_MODE"
  shows "CheckIfDue run dload False s = bindR (fire run dload p s) (\<lambda>s'. Inr (True, s'))"
proof -
  from assms(3) obtain es where es: "elems (pending s) = (k, p) # es"
    using due_Cons [OF assms(1)] by (cases "elems (pending s)") (auto simp add: due_def split: if_splits)
  have k: "0 \<le> k" "k < 2147483648" using assms(1) es by (auto simp add: pending_wf_def)
  have "k \<le> int (now s)" using due_Cons [OF assms(1) es] assms(3) by (simp split: if_splits)
  then have w: "\<not> totalTicks (stats s) < ucast (word_of_int k :: u32)"
    using k unfolding word_less_nat_alt key_when(1) [OF k] now_def by linarith
  show ?thesis
    using assms(2,4) es w by (simp add: CheckIfDue_def fire_def elems_SortedPop bindR_assoc)
qed

locale due_handlers =
  fixes run :: "'h \<Rightarrow> ('h, 's) act" and dload :: "('h, 's) act" and I :: "('h, 's) istate \<Rightarrow> bool"
  assumes handlers: "handlers_ok run dload I"
begin

lemma I_wf: "I s \<Longrightarrow> pending_wf s"
  using handlers by (simp add: handlers_ok_def)

lemma fire_I:
  assumes "I s" and "level s = INT_OFF" and "due s = (k, p) # ds"
  obtains s' where "fire run dload p s = Inr s'" and "I s'" and "level s' = INT_OFF" and "now s' = now s" and "due s' = ds" and "i_status s' = i_status s"
  using handlers assms fire_status unfolding handlers_ok_def by metis

lemma due_loop_ok:
  assumes "I s" and "level s = INT_OFF" and "i_status s \<noteq> IDLE_MODE" and "length (due s) < fuel"
  shows "\<exists>s1 s'. fire_all run dload (due s) s = Inr s1 \<and> I s1 \<and> due_loop run dload fuel s = Inr s' \<and>
     s' = s1\<lparr>pending := pending s'\<rparr> \<and> set (elems (pending s')) = set (elems (pending s1)) \<and>
     due s' = [] \<and> pending_wf s' \<and> level s' = INT_OFF \<and> now s' = now s"
  using assms
proof (induction "due s" arbitrary: s fuel)
  case Nil
  then obtain n where "fuel = Suc n" by (cases fuel) auto
  from check_not_due [OF I_wf [OF Nil(2)] Nil(3), of run dload] Nil(1) obtain s' where
    s': "CheckIfDue run dload False s = Inr (False, s')" "pending_wf s'"
      "s' = s\<lparr>pending := pending s'\<rparr>" "set (elems (pending s')) = set (elems (pending s))"
    by auto
  from arg_cong [OF s'(3), of now] arg_cong [OF s'(3), of level]
  have "now s' = now s" "level s' = level s" by simp_all
  moreover from this(1) s'(4) Nil(1) [symmetric] have "due s' = []"
    unfolding due_def filter_empty_conv by simp
  ultimately show ?case
    using s' Nil(1) [symmetric] Nil(2,3) \<open>fuel = Suc n\<close> by (intro exI [of _ s] exI [of _ s']) simp
next
  case (Cons d ds)
  obtain k p where d: "d = (k, p)" by force
  obtain n where n: "fuel = Suc n" using Cons.prems(4) by (cases fuel) auto
  note due = Cons.hyps(2) [symmetric, unfolded d]
  obtain s1 where s1: "fire run dload p s = Inr s1" "I s1" "level s1 = INT_OFF" "now s1 = now s" "due s1 = ds" "i_status s1 = i_status s"
    by (rule fire_I [OF Cons.prems(1,2) due])
  have "length (due s1) < n" using Cons.prems(4) due n s1(5) by simp
  from Cons.hyps(1) [OF s1(5) [symmetric] s1(2,3) _ this] Cons.prems(3) s1(6)
  obtain s2 s' where "fire_all run dload (due s1) s1 = Inr s2" "I s2" "due_loop run dload n s1 = Inr s'"
     "s' = s2\<lparr>pending := pending s'\<rparr>" "set (elems (pending s')) = set (elems (pending s2))"
     "due s' = []" "pending_wf s'" "level s' = INT_OFF" "now s' = now s1"
    by auto
  moreover have "CheckIfDue run dload False s = Inr (True, s1)"
    using check_due [OF I_wf [OF Cons.prems(1)] Cons.prems(2) due Cons.prems(3)] s1(1) by simp
  ultimately show ?case
    using s1 n due by auto
qed

text \<open>A tick with a device system: the clock advances, every handler that is due runs once, in the
  order of the pending list, and afterwards nothing is due.\<close>

lemma one_tick:
  assumes "I (tick_clock s)" and "i_status s \<noteq> IDLE_MODE" and "length (due (tick_clock s)) < fuel"
  shows "\<exists>s1 s'. fire_all run dload (due (tick_clock s)) (tick_clock s) = Inr s1 \<and>
     s' = s1\<lparr>level := INT_ON, pending := pending s'\<rparr> \<and>
     set (elems (pending s')) = set (elems (pending s1)) \<and> due s' = [] \<and> now s' = now (tick_clock s) \<and>
     OneTick run dload yield_thread fuel s =
       (if yieldOnReturn s'
        then bindR (yield_thread (s'\<lparr>yieldOnReturn := False, i_status := SYSTEM_MODE\<rparr>))
               (\<lambda>s''. Inr (s''\<lparr>i_status := i_status s\<rparr>))
        else Inr s')"
proof -
  have "level (tick_clock s) = INT_OFF" "i_status (tick_clock s) \<noteq> IDLE_MODE"
    using assms(2) by (simp_all add: tick_clock_def ChangeLevel_def Let_def)
  from due_loop_ok [OF assms(1) this assms(3)] obtain s1 s2 where
    r: "fire_all run dload (due (tick_clock s)) (tick_clock s) = Inr s1"
     "due_loop run dload fuel (tick_clock s) = Inr s2"
     "s2 = s1\<lparr>pending := pending s2\<rparr>" "set (elems (pending s2)) = set (elems (pending s1))"
     "due s2 = []" "now s2 = now (tick_clock s)" by blast
  let ?s' = "s2\<lparr>level := INT_ON\<rparr>"
  have a: "?s' = s1\<lparr>level := INT_ON, pending := pending ?s'\<rparr>"
    using arg_cong [OF r(3), of "\<lambda>x. x\<lparr>level := INT_ON\<rparr>"] by simp
  have b: "OneTick run dload yield_thread fuel s =
       (if yieldOnReturn ?s'
        then bindR (yield_thread (?s'\<lparr>yieldOnReturn := False, i_status := SYSTEM_MODE\<rparr>))
               (\<lambda>s''. Inr (s''\<lparr>i_status := i_status s\<rparr>))
        else Inr ?s')"
    using r(2) unfolding tick_clock_def OneTick_def by (simp add: Let_def ChangeLevel_def)
  have c: "set (elems (pending ?s')) = set (elems (pending s1))" "due ?s' = []" "now ?s' = now (tick_clock s)"
    using r(4-6) by simp_all
  show ?thesis using r(1) a b c by blast
qed

end

text \<open>Handlers that do not look at the list of pending interrupts: in a state with a well-formed list and the invariant \<open>ext\<close>, which speaks
  neither of the list nor of the controller's flags, a handler returns, keeps both, the clock and the level, and what is due.\<close>

locale device_handlers =
  fixes run :: "'h \<Rightarrow> ('h, 's) act" and dload :: "('h, 's) act"
    and ext :: "('h, 's) istate \<Rightarrow> bool"
  assumes ext_upd: "ext (s\<lparr>pending := p\<rparr>) = ext s" "ext (s\<lparr>i_status := st\<rparr>) = ext s"
      "ext (s\<lparr>inHandler := b\<rparr>) = ext s"
    and run_ok: "pending_wf s \<Longrightarrow> ext s \<Longrightarrow> level s = INT_OFF \<Longrightarrow>
      \<exists>s'. run h s = Inr s' \<and> pending_wf s' \<and> ext s' \<and> now s' = now s \<and> level s' = INT_OFF \<and>
        due s' = due s"
    and dload_ok: "\<exists>s'. dload s = Inr s' \<and> ext s' = ext s \<and> now s' = now s \<and> level s' = level s \<and>
      pending s' = pending s \<and> i_status s' = i_status s"
begin

lemma fire_ok:
  assumes "pending_wf s" and "ext s" and "level s = INT_OFF" and "due s = (k, p) # ds"
  shows "\<exists>s'. fire run dload p s = Inr s' \<and> pending_wf s' \<and> ext s' \<and> level s' = INT_OFF \<and>
     now s' = now s \<and> due s' = ds"
proof -
  obtain es where es: "snd (List_SortedPop (pending s)) = \<lparr>elems = es, nsize = nsize (pending s) - 1\<rparr>"
    "pending_wf (s\<lparr>pending := \<lparr>elems = es, nsize = nsize (pending s) - 1\<rparr>\<rparr>)" "due (s\<lparr>pending := \<lparr>elems = es, nsize = nsize (pending s) - 1\<rparr>\<rparr>) = ds"
    by (rule pop_due [OF assms(1,4)])
  let ?s0 = "s\<lparr>pending := \<lparr>elems = es, nsize = nsize (pending s) - 1\<rparr>\<rparr>"
  note wf0 = es(2) and ds = es(3)
  obtain s1 where s1: "dload ?s0 = Inr s1" "ext s1 = ext ?s0" "now s1 = now ?s0" "level s1 = level ?s0"
    "pending s1 = pending ?s0" "i_status s1 = i_status ?s0"
    using dload_ok by blast
  let ?s2 = "s1\<lparr>inHandler := True, i_status := SYSTEM_MODE\<rparr>"
  have "pending_wf ?s2" "ext ?s2" "level ?s2 = INT_OFF" "due ?s2 = ds" "now ?s2 = now s"
    using s1 wf0 ds assms(2,3) by (simp_all add: ext_upd pending_wf_def due_def)
  with run_ok [of ?s2 "handler p"] obtain s3 where
    "run (handler p) ?s2 = Inr s3" "pending_wf s3" "ext s3" "now s3 = now s" "level s3 = INT_OFF" "due s3 = ds"
    by auto
  with s1(1) es(1) show ?thesis
    by (simp add: fire_def ext_upd)
qed

lemma device_handlers_ok: "handlers_ok run dload (\<lambda>s. pending_wf s \<and> ext s)"
  unfolding handlers_ok_def using fire_ok by fast

end

sublocale device_handlers \<subseteq> due_handlers run dload "\<lambda>s. pending_wf s \<and> ext s"
  by unfold_locales (rule device_handlers_ok)

section \<open>The timer as a device\<close>

text \<open>In a system whose only device is the timer, the clock must stay clear of the point where a
  32-bit time would become a negative sort key.\<close>

definition ticks_room :: "('h, 's) istate \<Rightarrow> bool" where
  "ticks_room s \<longleftrightarrow> now s + 256 < 2147483648"

definition timer_run :: "bool \<Rightarrow> bool \<Rightarrow> bool \<Rightarrow> (unit, u32 list) act" where
  "timer_run ticks_fix user_program randomize s =
     (case sys s of [] \<Rightarrow> TimerExpired ticks_fix user_program randomize 0 () TimerInterruptHandler s
      | r # rs \<Rightarrow> TimerExpired ticks_fix user_program randomize r () TimerInterruptHandler (s\<lparr>sys := rs\<rparr>))"

lemma TimeOfNext_bounds:
  "0 < unat (TimeOfNextInterrupt u r x)" "unat (TimeOfNextInterrupt u r x) \<le> 200"
proof -
  have "unat (ucast x mod 200 :: u64) < 200" by (simp add: unat_mod)
  moreover from this have "unat (1 + ucast x mod 200 :: u64) = 1 + unat (ucast x mod 200 :: u64)"
    by (simp add: unat_word_ariths)
  ultimately show "0 < unat (TimeOfNextInterrupt u r x)" "unat (TimeOfNextInterrupt u r x) \<le> 200"
    by (auto simp add: TimeOfNextInterrupt_def TIMER_TICKS_def)
qed

lemma Schedule_ok:
  assumes "ticks_room s" and "0 < unat d" and "unat d \<le> 200" and "pending_wf s"
  shows "\<exists>s'. Schedule fx h d t s = Inr s' \<and> pending_wf s' \<and> due s' = due s \<and>
    s' = s\<lparr>pending := pending s'\<rparr> \<and>
    set (elems (pending s')) = insert (int (now s + unat d), \<lparr>handler = h, p_when = of_nat (now s + unat d), p_type = t\<rparr>)
      (set (elems (pending s)))"
proof -
  let ?t = "totalTicks (stats s)" and ?n = "now s + unat d"
  have n: "unat (?t + d) = ?n" "?n < 2147483648"
    using assms(1,3) by (simp_all add: now_def ticks_room_def unat_word_ariths)
  define w where "w = (ucast (?t + d) :: u32)"
  have w: "unat w = ?n"
    using n by (simp add: w_def unsigned_ucast_eq take_bit_nat_eq_self_iff)
  then have k: "sint w = int ?n" using n(2) by (simp add: sint_cases32)
  have u: "(ucast w :: u64) = of_nat ?n"
    unfolding w [symmetric] by simp
  have a: "\<not> 0xFFFFFFFF - ?t < d" "0xFFFFFFFFFFFFFFFF - ?t > d"
    using assms(1,3) by (simp_all add: word_less_nat_alt unat_sub_if' ticks_room_def now_def)
  let ?x = "\<lparr>handler = h, p_when = of_nat ?n, p_type = t\<rparr>"
  let ?s' = "s\<lparr>pending := List_SortedInsert (pending s) ?x (int ?n)\<rparr>"
  have "0 < d" using assms(2) by (simp add: word_less_nat_alt)
  then have sch: "Schedule fx h d t s = Inr ?s'"
    using a by (simp add: Schedule_def PendingInterrupt_new_def Let_def w_def [symmetric] k u)
  have "int ?n < int 2147483648" using n(2) by (simp only: of_nat_less_iff)
  then have wf: "pending_wf ?s'"
    using assms(4) by (auto simp add: pending_wf_def SortedInsert_sorted set_elems_SortedInsert)
  have "due ?s' = due s"
  proof -
    have "\<not> int ?n \<le> int (now s)" using assms(2) by linarith
    then have "\<not> (\<lambda>(k, p :: 'a PendingInterrupt). k \<le> int (now s)) (int ?n, ?x)" by simp
    from filter_SortedInsert [of "\<lambda>(k, p). k \<le> int (now s)", OF this, of "pending s"] show ?thesis
      unfolding due_def by simp
  qed
  with sch wf show ?thesis
    by (intro exI [of _ ?s']) (simp add: set_elems_SortedInsert)
qed

interpretation timer: device_handlers "\<lambda>_. timer_run fx u r" Inr ticks_room
proof
  show "\<exists>s'. timer_run fx u r s = Inr s' \<and> pending_wf s' \<and> ticks_room s' \<and> now s' = now s \<and>
      level s' = INT_OFF \<and> due s' = due s"
    if "pending_wf s" "ticks_room s" "level s = INT_OFF" for s :: "(unit, u32 list) istate"
  proof -
    have "\<exists>s'. TimerExpired fx u r x () TimerInterruptHandler s = Inr s' \<and> pending_wf s' \<and>
        ticks_room s' \<and> now s' = now s \<and> level s' = INT_OFF \<and> due s' = due s"
      if s: "pending_wf s" "ticks_room s" "level s = INT_OFF" for s :: "(unit, u32 list) istate" and x
    proof -
      obtain s' where s': "Schedule fx () (TimeOfNextInterrupt u r x) TIMER_INT s = Inr s'"
          "pending_wf s'" "due s' = due s" "s' = s\<lparr>pending := pending s'\<rparr>"
        using Schedule_ok [OF s(2) TimeOfNext_bounds s(1)] by blast
      from arg_cong [OF s'(4), of now] arg_cong [OF s'(4), of level]
      have "now s' = now s" "level s' = INT_OFF" using s(3) by simp_all
      with s s' show ?thesis
        by (simp add: TimerExpired_def TimerInterruptHandler_def YieldOnReturn_def ticks_room_def)
    qed
    from this [of s] this [of "s\<lparr>sys := tl (sys s)\<rparr>"] that show ?thesis
      by (auto simp add: timer_run_def ticks_room_def pending_wf_def now_def due_def split: list.splits)
  qed
qed (simp_all add: ticks_room_def)

section \<open>Properties of the interrupt hardware\<close>

text \<open>The timer of the kernel keeps the contract while the clock stays clear of the bound; so do the disk, the
  console and the network, in the theories of their drivers.\<close>

lemma timer_handlers_ok: "handlers_ok (\<lambda>_. timer_run fx u r) Inr (\<lambda>s. pending_wf s \<and> ticks_room s)"
  by (rule timer.device_handlers_ok)

text \<open>C26: A clock tick runs what is due. For handlers that keep the contract with the controller (they come back, they schedule
  only for the future, and the times stay below the bound of the list's sort key), in any state in which the machine is not idle (\<open>Idle\<close> counts its time itself), the
  interrupt loop ends, and it has run the handler of each interrupt due at the new time exactly once, earliest first; no due
  interrupt remains, the loop itself loses no other pending one, and the current thread yields exactly when a
  handler asked for it. As fuel, one more than the number of due interrupts is enough.\<close>

theorem OneTick_runs_due:
  assumes "handlers_ok run dload I" and "I (tick_clock s)" and "i_status s \<noteq> IDLE_MODE"
    and "length (due (tick_clock s)) < fuel"
  shows "\<exists>s1 s'. fire_all run dload (due (tick_clock s)) (tick_clock s) = Inr s1 \<and>
     s' = s1\<lparr>level := INT_ON, pending := pending s'\<rparr> \<and>
     set (elems (pending s')) = set (elems (pending s1)) \<and> due s' = [] \<and> now s' = now (tick_clock s) \<and>
     OneTick run dload yield_thread fuel s =
       (if yieldOnReturn s'
        then bindR (yield_thread (s'\<lparr>yieldOnReturn := False, i_status := SYSTEM_MODE\<rparr>))
               (\<lambda>s''. Inr (s''\<lparr>i_status := i_status s\<rparr>))
        else Inr s')"
  by (rule due_handlers.one_tick [OF due_handlers.intro [OF assms(1)] assms(2-4)])

text \<open>An idle machine halts exactly when nothing is pending, or only the time-slice timer is:
  with any other interrupt pending it does not give up, whatever the handlers do.\<close>

theorem Idle_halts_iff:
  assumes "level s = INT_OFF"
  shows "(\<exists>s'. Idle run dload fuel s = Inr (True, s')) \<longleftrightarrow>
     items (pending s) = [] \<or> (\<exists>p. items (pending s) = [p] \<and> p_type p = TIMER_INT)"
proof (cases "elems (pending s)")
  case Nil
  then show ?thesis
    using assms by (simp add: Idle_def CheckIfDue_def elems_SortedPop items_def)
next
  case (Cons e es)
  obtain k p where e: "e = (k, p)" by force
  show ?thesis
  proof (cases "p_type p = TIMER_INT \<and> es = []")
    case True
    then show ?thesis
      using assms Cons e by (simp add: Idle_def CheckIfDue_def elems_SortedPop items_def List_IsEmpty_def Let_def)
  next
    case False
    let ?c = "CheckIfDue run dload True (s\<lparr>i_status := IDLE_MODE\<rparr>)"
    have "?c \<noteq> Inr (False, s')" for s'
      using assms Cons e False
      by (auto simp add: CheckIfDue_def elems_SortedPop List_IsEmpty_def Let_def res_simps)
    then have "Idle run dload fuel s \<noteq> Inr (True, s')" for s'
      by (cases ?c) (auto simp add: Idle_def res_simps split: prod.splits)
    moreover have "\<not> (items (pending s) = [] \<or> (\<exists>p. items (pending s) = [p] \<and> p_type p = TIMER_INT))"
      using Cons e False by (auto simp add: items_def)
    ultimately show ?thesis by blast
  qed
qed

subsection \<open>A concrete controller\<close>

definition demo_timer :: "u64 \<Rightarrow> (unit, u32 list) istate" where
  "demo_timer t = (Interrupt_new (Statistics_new\<lparr>totalTicks := t\<rparr>) [])\<lparr>level := INT_OFF,
     pending := \<lparr>elems = [(100, \<lparr>handler = (), p_when = 100, p_type = TIMER_INT\<rparr>)], nsize = 1\<rparr>\<rparr>"

theorem OneTick_runs_due_witness:
  "\<exists>s'. OneTick (\<lambda>_. timer_run False True False) Inr Inr 5 (demo_timer 95) = Inr s' \<and>
     length (due (tick_clock (demo_timer 95))) = 1"
proof -
  have d: "due (tick_clock (demo_timer 95)) =
      [(100, \<lparr>handler = (), p_when = 100, p_type = TIMER_INT\<rparr>)]"
    by (simp add: demo_timer_def tick_clock_def due_def now_def Interrupt_new_def Statistics_new_def
        ChangeLevel_def SYSTEM_TICK_def)
  have "pending_wf (tick_clock (demo_timer 95)) \<and> ticks_room (tick_clock (demo_timer 95))" "i_status (demo_timer 95) \<noteq> IDLE_MODE"
    by (simp_all add: demo_timer_def tick_clock_def pending_wf_def key_sorted_def keys_def
        ticks_room_def now_def Interrupt_new_def Statistics_new_def ChangeLevel_def SYSTEM_TICK_def)
  from OneTick_runs_due [OF timer_handlers_ok this, of 5 False True False Inr] d show ?thesis
    by (fastforce split: if_splits)
qed

end
