(* ===== verification/Threads_System.thy ===== *)
theory Threads_System
  imports Complex_Main Lib_Debug Machine_Interrupt Threads_Kernel
begin

text \<open>
  Starting the kernel: \<open>threads/system.cc\<close>.

  The command line is a list of strings. Which options exist depends on the build; \<open>Initialize\<close> is the one of the
  build of \<open>threads/\<close>, with the interrupt hardware, the timer, the scheduler and the main thread. The other builds
  go on with the constructors of the machine, the console, the file system and the post office, which the theories of these
  components model. With \<open>-p\<close> the process forks at the end of \<open>Initialize\<close> (\<open>threads/preemptive.cc\<close>): what \<open>fork\<close> returns, and whether the child
  goes on after the signal that hands it to its tracer, are the host's. \<open>atof\<close> is the host's conversion of the network's reliability, and the host's random numbers are the list
  that \<open>rand\<close> gives for a seed.
\<close>

section \<open>The command line\<close>

text \<open>The preprocessor's symbols \<open>USER_PROGRAM\<close>, \<open>FILESYS_NEEDED\<close> and \<open>NETWORK\<close>.\<close>

record build =
  b_user_program :: bool
  b_filesys_needed :: bool
  b_network :: bool

record options =
  debugFlags :: "u8 list"
  debugOpts :: DebugOpts
  randomYield :: bool
  o_seed :: "u32 option"
  preemptiveScheduling :: bool
  timeSlice :: "int option"
  debugUserProg :: bool
  o_format :: bool
  rely :: rat
  netname :: u32

definition DEFAULT_TIME_SLICE :: int where "DEFAULT_TIME_SLICE = 50000"

definition options_new :: options where
  "options_new = \<lparr>debugFlags = [], debugOpts = DebugOpts_new, randomYield = False, o_seed = None, preemptiveScheduling = False,
     timeSlice = None, debugUserProg = False, o_format = False, rely = 1, netname = 0\<rparr>"

text \<open>The tests of one token; \<open>None\<close> for an invalid option.\<close>

definition debug_opt :: "u8 list \<Rightarrow> DebugOpts \<Rightarrow> DebugOpts option" where
  "debug_opt token out =
    (if token = ascii_str ''location'' \<or> token = ascii_str ''l'' then Some (out\<lparr>opt_location := True\<rparr>)
     else if token = ascii_str ''function'' \<or> token = ascii_str ''f'' then Some (out\<lparr>opt_function := True\<rparr>)
     else if token = ascii_str ''sleep'' \<or> token = ascii_str ''s'' then Some (out\<lparr>opt_sleep := True\<rparr>)
     else if token = ascii_str ''interactive'' \<or> token = ascii_str ''i'' then Some (out\<lparr>opt_interactive := True\<rparr>)
     else None)"

function ParseDebugOpts_loop :: "u8 list \<Rightarrow> nat \<Rightarrow> DebugOpts \<Rightarrow> bool \<times> DebugOpts" where
  "ParseDebugOpts_loop b p out = (case strtok_r 44 b p of (token, b', save_p) \<Rightarrow>
     case token of None \<Rightarrow> (True, out)
     | Some q \<Rightarrow> (case debug_opt (cstr_at b' q) out of None \<Rightarrow> (False, out) | Some out \<Rightarrow> ParseDebugOpts_loop b' save_p out))"
  by pat_completeness auto
termination
  by (relation "measure (\<lambda>(b, p, out). length b - p)") (auto dest!: strtok_advances [OF sym])

definition ParseDebugOpts :: "u8 list \<Rightarrow> DebugOpts \<Rightarrow> bool \<times> DebugOpts" where
  "ParseDebugOpts s out = ParseDebugOpts_loop (s @ [0]) 0 out"

definition atoi :: "u8 list \<Rightarrow> u32" where
  "atoi s =
    (let s1 = dropWhile isspace s; n = int (numeral_of 10 (takeWhile (\<lambda>c. digit c < 10) (drop (sign_length s1) s1))) in
     word_of_int (if s1 \<noteq> [] \<and> hd s1 = 45 then - n else n))"

text \<open>The first chain of tests for one argument, with the arguments behind it: \<open>argCount\<close> and the options.\<close>

definition common_option :: "u8 list \<Rightarrow> u8 list list \<Rightarrow> options \<Rightarrow> (nat \<times> options) res" where
  "common_option arg rest o' =
    (if arg = ascii_str ''-d'' then
       (case rest of [] \<Rightarrow> Inr (1, o'\<lparr>debugFlags := ascii_str ''+''\<rparr>) | s # _ \<Rightarrow> Inr (2, o'\<lparr>debugFlags := s\<rparr>))
     else if arg = ascii_str ''-do'' then
       (case rest of [] \<Rightarrow> Inl AssertFail | s # _ \<Rightarrow>
          (case ParseDebugOpts s (debugOpts o') of (ok, out) \<Rightarrow> ASSERT ok (Inr (2, o'\<lparr>debugOpts := out\<rparr>))))
     else if arg = ascii_str ''-rs'' then
       (case rest of [] \<Rightarrow> Inl AssertFail | s # _ \<Rightarrow> Inr (2, o'\<lparr>o_seed := Some (atoi s), randomYield := True\<rparr>))
     else if arg = ascii_str ''-p'' then
       (case rest of [] \<Rightarrow> Inr (1, o'\<lparr>preemptiveScheduling := True, timeSlice := Some DEFAULT_TIME_SLICE\<rparr>)
        | s # _ \<Rightarrow> Inr (2, o'\<lparr>preemptiveScheduling := True, timeSlice := Some (sint (atoi s))\<rparr>))
     else Inr (1, o'))"

definition network_option :: "(u8 list \<Rightarrow> rat) \<Rightarrow> u8 list \<Rightarrow> u8 list list \<Rightarrow> nat \<Rightarrow> options \<Rightarrow> (nat \<times> options) res" where
  "network_option atof arg rest argCount o' =
    (if arg = ascii_str ''-n'' then (case rest of [] \<Rightarrow> Inl AssertFail | s # _ \<Rightarrow> Inr (2, o'\<lparr>rely := atof s\<rparr>))
     else if arg = ascii_str ''-id'' then (case rest of [] \<Rightarrow> Inl AssertFail | s # _ \<Rightarrow> Inr (2, o'\<lparr>netname := atoi s\<rparr>))
     else Inr (argCount, o'))"

definition one_option :: "build \<Rightarrow> (u8 list \<Rightarrow> rat) \<Rightarrow> u8 list \<Rightarrow> u8 list list \<Rightarrow> options \<Rightarrow> (nat \<times> options) res" where
  "one_option B atof arg rest o' =
     bindR (common_option arg rest o') (\<lambda>(argCount, o').
     let o' = (if b_user_program B \<and> arg = ascii_str ''-s'' then o'\<lparr>debugUserProg := True\<rparr> else o');
         o' = (if b_filesys_needed B \<and> arg = ascii_str ''-f'' then o'\<lparr>o_format := True\<rparr> else o') in
     if b_network B then network_option atof arg rest argCount o' else Inr (argCount, o'))"

function parse_args :: "build \<Rightarrow> (u8 list \<Rightarrow> rat) \<Rightarrow> u8 list list \<Rightarrow> options \<Rightarrow> options res" where
  "parse_args B atof [] o' = Inr o'"
| "parse_args B atof (arg # rest) o' = (case one_option B atof arg rest o' of
     Inl e \<Rightarrow> Inl e | Inr (argCount, o') \<Rightarrow> parse_args B atof (drop (argCount - 1) rest) o')"
  by pat_completeness auto
termination
  by (relation "measure (\<lambda>(B, atof, args, o'). length args)") auto

section \<open>Initialisation\<close>

record system =
  randoms :: "u32 list"
  sys_kernel :: kernel

text \<open>\<open>SystemDep::Random\<close> takes the next number.\<close>

definition next_random :: "('h, system) istate \<Rightarrow> u32 \<times> ('h, system) istate" where
  "next_random s = (case randoms (sys s) of [] \<Rightarrow> (0, s) | r # rs \<Rightarrow> (r, s\<lparr>sys := (sys s)\<lparr>randoms := rs\<rparr>\<rparr>))"

definition Timer_TimerExpired :: "bool \<Rightarrow> bool \<Rightarrow> (unit, system) act" where
  "Timer_TimerExpired fx randomize s =
    (case (if randomize then next_random s else (0, s)) of (r, s) \<Rightarrow> TimerExpired fx False randomize r () TimerInterruptHandler s)"

definition Timer_new :: "bool \<Rightarrow> bool \<Rightarrow> (unit, system) act" where
  "Timer_new fx randomize s =
    (case (if randomize then next_random s else (0, s)) of (r, s) \<Rightarrow> Schedule fx () (TimeOfNextInterrupt False randomize r) TIMER_INT s)"

definition current_Yield :: "(unit, system) act" where
  "current_Yield s = bindR (Thread_Yield (sys_kernel (sys s))) (\<lambda>k. Inr (s\<lparr>sys := (sys s)\<lparr>sys_kernel := k\<rparr>\<rparr>))"

text \<open>The threads before \<open>main\<close>: a new scheduler and nothing else.\<close>

definition no_threads :: kernel where
  "no_threads = \<lparr>current = 0, idling = False, threads = [], ready = Scheduler_new, sems = [], locks = [], conds = [], chans = [], slists = [],
     toBeDestroyed = None\<rparr>"

text \<open>\<open>new Thread("main")\<close> with its default arguments; it is the thread that runs already, and \<open>prog\<close> is what it does after \<open>Initialize\<close>.\<close>

definition start_main :: "op list \<Rightarrow> kernel \<Rightarrow> kernel res" where
  "start_main prog k =
    (case Thread_new k False 0 0 of (t, k) \<Rightarrow>
     bindR (Thread_SetStatus (k\<lparr>current := t\<rparr>) t RUNNING) (\<lambda>k. upd_thread k t (\<lambda>T. T\<lparr>t_started := True, t_prog := prog\<rparr>)))"

subsection \<open>Preemption\<close>

text \<open>With \<open>-p\<close> there are two processes: the child goes on as Nachos, and the parent executes it instruction by instruction and forces a
  context switch from time to time. The host decides what \<open>fork\<close> returns, and whether the child comes back from the signal that it raises
  at itself, for which its parent has to trace it and let it go on.\<close>

record forked =
  childPid :: int
  comes_back :: bool

datatype 'a booting =
    Booted 'a            \<comment> \<open>Nachos goes on, as the only process or as the child\<close>
  | Stopped_by_signal    \<comment> \<open>the child does not come back from \<open>raise\<close>\<close>
  | Monitoring int u64   \<comment> \<open>the parent, which is in \<open>MonitorProcess\<close> and never in Nachos again\<close>

definition LetMeBeMonitored :: "forked \<Rightarrow> 'a \<Rightarrow> 'a booting" where
  "LetMeBeMonitored H x = (if comes_back H then Booted x else Stopped_by_signal)"

definition SetUp :: "forked \<Rightarrow> u64 \<Rightarrow> 'a \<Rightarrow> 'a booting res" where
  "SetUp H timeSliceLength x =
     (if childPid H = - 1 then Inl AssertFail
      else if childPid H = 0 then Inr (LetMeBeMonitored H x)
      else Inr (Monitoring (childPid H) timeSliceLength))"

text \<open>The parent's loop, over what \<open>wait\<close> reports of the child: that it has exited, or that it has stopped, and whether it is then in
  \<open>ContextSwitch\<close> already. The result is what the parent does at each stop: let the child execute one instruction, with or without
  a call of \<open>ContextSwitch\<close> inserted before it. The remainder by a time slice of 0 is an arithmetic trap of the host.\<close>

datatype child_report = Exited | Stopped bool

datatype resumption = Single_step | Forced_switch

fun MonitorProcess_loop :: "u64 \<Rightarrow> u64 \<Rightarrow> child_report list \<Rightarrow> resumption list res" where
  "MonitorProcess_loop timeSliceLength instructionCounter [] = Inr []"
| "MonitorProcess_loop timeSliceLength instructionCounter (Exited # rs) = Inr []"
| "MonitorProcess_loop timeSliceLength instructionCounter (Stopped inContextSwitch # rs) =
     (if timeSliceLength = 0 then Inl HostTrap
      else bindR (MonitorProcess_loop timeSliceLength (instructionCounter + 1) rs) (\<lambda>out.
        Inr ((if (instructionCounter + 1) mod timeSliceLength = 0 \<and> \<not> inContextSwitch then Forced_switch else Single_step) # out)))"

definition MonitorProcess :: "u64 \<Rightarrow> child_report list \<Rightarrow> resumption list res" where
  "MonitorProcess timeSliceLength rs = MonitorProcess_loop timeSliceLength 1 rs"

text \<open>What the child does when it is forced, with the flag that the parent reads; saving and restoring the host's registers around it
  leaves the program where it was.\<close>

definition ContextSwitch :: "bool \<times> (unit, system) istate \<Rightarrow> (bool \<times> (unit, system) istate) res" where
  "ContextSwitch x = (case x of (inContextSwitch, s) \<Rightarrow>
     (if level s = INT_ON then bindR (current_Yield s) (\<lambda>s. Inr (False, s)) else Inr (False, YieldOnReturn s)))"

definition threads_build :: build where
  "threads_build = \<lparr>b_user_program = False, b_filesys_needed = False, b_network = False\<rparr>"

definition Initialize ::
  "bool \<Rightarrow> (u8 list \<Rightarrow> rat) \<Rightarrow> (u32 option \<Rightarrow> u32 list) \<Rightarrow> forked \<Rightarrow> op list \<Rightarrow> u8 list list \<Rightarrow>
     (Debug \<times> options \<times> (unit, system) istate) booting res" where
  "Initialize fx atof rand H prog argv =
     bindR (parse_args threads_build atof (tl argv) options_new) (\<lambda>o'.
     let debug = SetOpts (debugOpts o') (SetFlags (FlagsString (debugFlags o')) Debug_new);
         s = Interrupt_new Statistics_new \<lparr>randoms = rand (o_seed o'), sys_kernel = no_threads\<rparr> in
     bindR (Timer_new fx (randomYield o') s) (\<lambda>s.
     bindR (start_main prog (sys_kernel (sys s))) (\<lambda>k.
     bindR (Enable (\<lambda>_. Timer_TimerExpired fx (randomYield o')) Inr current_Yield 2 (s\<lparr>sys := (sys s)\<lparr>sys_kernel := k\<rparr>\<rparr>)) (\<lambda>s.
     if preemptiveScheduling o' then SetUp H (word_of_int (the (timeSlice o'))) (debug, o', s) else Inr (Booted (debug, o', s))))))"

section \<open>Command lines that the parser understands\<close>

datatype cmd_option = OptD "u8 list" | OptDo "u8 list list" | OptRs "u8 list" | OptP "u8 list" | OptOther "u8 list"

fun join :: "u8 \<Rightarrow> u8 list list \<Rightarrow> u8 list" where
  "join sep [] = []"
| "join sep [w] = w"
| "join sep (w # v # ws) = w @ sep # join sep (v # ws)"

fun render :: "cmd_option \<Rightarrow> u8 list list" where
  "render (OptD f) = [ascii_str ''-d'', f]"
| "render (OptDo ws) = [ascii_str ''-do'', join 44 ws]"
| "render (OptRs n) = [ascii_str ''-rs'', n]"
| "render (OptP n) = [ascii_str ''-p'', n]"
| "render (OptOther a) = [a]"

definition debug_names :: "u8 list set" where
  "debug_names = ascii_str ` {''location'', ''l'', ''function'', ''f'', ''sleep'', ''s'', ''interactive'', ''i''}"

fun option_ok :: "cmd_option \<Rightarrow> bool" where
  "option_ok (OptDo ws) \<longleftrightarrow> set ws \<subseteq> debug_names"
| "option_ok (OptOther a) \<longleftrightarrow> a \<notin> ascii_str ` {''-d'', ''-do'', ''-rs'', ''-p''}"
| "option_ok _ \<longleftrightarrow> True"

fun effect :: "cmd_option \<Rightarrow> options \<Rightarrow> options" where
  "effect (OptD f) o' = o'\<lparr>debugFlags := f\<rparr>"
| "effect (OptDo ws) o' = o'\<lparr>debugOpts := fold (\<lambda>w out. the (debug_opt w out)) ws (debugOpts o')\<rparr>"
| "effect (OptRs n) o' = o'\<lparr>o_seed := Some (atoi n), randomYield := True\<rparr>"
| "effect (OptP n) o' = o'\<lparr>preemptiveScheduling := True, timeSlice := Some (sint (atoi n))\<rparr>"
| "effect (OptOther a) o' = o'"

lemma debug_names_token: "w \<in> debug_names \<Longrightarrow> is_token 44 w \<and> debug_opt w out \<noteq> None"
  by (auto simp add: debug_names_def is_token_def debug_opt_def ascii_str_def)

lemma length_join: "length (join sep ws) + 1 \<ge> length ws"
  by (induction sep ws rule: join.induct) auto

lemma ParseDebugOpts_join:
  assumes "set ws \<subseteq> debug_names"
  shows "ParseDebugOpts_loop (pre @ join 44 ws @ [0]) (length pre) out = (True, fold (\<lambda>w out. the (debug_opt w out)) ws out)"
  using assms
proof (induction ws arbitrary: pre out)
  case Nil
  then show ?case by (subst ParseDebugOpts_loop.simps) (simp add: strtok_none)
next
  case (Cons w ws)
  have w: "is_token 44 w" "debug_opt w out \<noteq> None" using Cons.prems debug_names_token by auto
  then obtain out' where o: "debug_opt w out = Some out'" by auto
  show ?case
  proof (cases ws)
    case Nil
    have st: "strtok_r 44 (pre @ w @ [0]) (length pre) = (Some (length pre), pre @ w @ [0], length pre + length w)"
      using strtok_token [OF w(1), of 0 pre "[]"] by simp
    have e: "ParseDebugOpts_loop (pre @ w @ [0]) (length pre + length w) out' = (True, out')"
      using Cons.IH [of "pre @ w" out'] Nil by simp
    show ?thesis using Nil o e cstr_at_token [OF w(1), of pre "[]"] by (subst ParseDebugOpts_loop.simps) (simp add: st)
  next
    case (Cons v vs)
    let ?r = "join 44 ws @ [0]"
    have j: "join 44 (w # ws) @ [0] = w @ 44 # ?r" using Cons by simp
    have st: "strtok_r 44 (pre @ w @ 44 # ?r) (length pre) = (Some (length pre), pre @ w @ 0 # ?r, length pre + length w + 1)"
      using strtok_token [OF w(1), of 44 pre ?r] by simp
    have e: "ParseDebugOpts_loop (pre @ w @ 0 # ?r) (length pre + length w + 1) out' = (True, fold (\<lambda>w out. the (debug_opt w out)) ws out')"
      using Cons.IH [of "pre @ w @ [0]" out'] Cons.prems by simp
    show ?thesis unfolding j using o e cstr_at_token [OF w(1), of pre ?r] by (subst ParseDebugOpts_loop.simps) (simp add: st)
  qed
qed

text \<open>The parser of the command line reads back what was written: from the words of any sequence of options, with debug options as a
  list of names with commas and with words that it does not know, it collects exactly the effects of these options in their order.\<close>

theorem parse_render:
  assumes "list_all option_ok xs"
  shows "parse_args threads_build atof (concat (map render xs)) o' = Inr (fold effect xs o')"
  using assms
proof (induction xs arbitrary: o')
  case (Cons x xs)
  have "ParseDebugOpts (join 44 ws) out = (True, fold (\<lambda>w out. the (debug_opt w out)) ws out)" if "set ws \<subseteq> debug_names" for ws out
    using ParseDebugOpts_join [OF that, of "[]" out] by (simp add: ParseDebugOpts_def)
  with Cons show ?case
    by (cases x) (auto simp add: one_option_def common_option_def threads_build_def ascii_str_def)
qed simp

section \<open>The kernel after initialisation\<close>

definition boot_ok :: "kernel \<Rightarrow> (unit, system) istate \<Rightarrow> bool" where
  "boot_ok k s \<longleftrightarrow> ticks_room s \<and> sys_kernel (sys s) = k"

lemma next_random_same: "next_random s = (r, s') \<Longrightarrow> \<exists>rs. s' = s\<lparr>sys := (sys s)\<lparr>randoms := rs\<rparr>\<rparr>"
  by (cases "randoms (sys s)") (auto simp add: next_random_def intro: exI [of _ "[]"])

text \<open>The timer draws a number when it is random, and schedules itself.\<close>

lemma timer_draw:
  obtains x rs where "(if r then next_random s else (0, s)) = (x, s\<lparr>sys := (sys s)\<lparr>randoms := rs\<rparr>\<rparr>)"
proof -
  obtain x s1 where x: "(if r then next_random s else (0, s)) = (x, s1)" by fastforce
  have "s = s\<lparr>sys := (sys s)\<lparr>randoms := randoms (sys s)\<rparr>\<rparr>" by simp
  with x obtain rs where "s1 = s\<lparr>sys := (sys s)\<lparr>randoms := rs\<rparr>\<rparr>" using next_random_same [of s x s1] by (metis prod.inject)
  with x that show thesis by blast
qed

lemma timer_schedules:
  assumes "ticks_room s" and "pending_wf s"
  obtains p where "Schedule fx () (TimeOfNextInterrupt False r x) TIMER_INT s = Inr (s\<lparr>pending := p\<rparr>)" and "pending_wf (s\<lparr>pending := p\<rparr>)"
    and "due (s\<lparr>pending := p\<rparr>) = due s"
proof -
  from Schedule_ok [OF assms(1) TimeOfNext_bounds assms(2), of fx "()" False r x TIMER_INT] obtain s'
    where "Schedule fx () (TimeOfNextInterrupt False r x) TIMER_INT s = Inr s'" "pending_wf s'" "due s' = due s" "s' = s\<lparr>pending := pending s'\<rparr>"
    by (elim exE conjE)
  then show thesis using that [of "pending s'"] by metis
qed

lemma boot_TimerExpired:
  assumes "pending_wf s" and "boot_ok k s" and "level s = INT_OFF"
  shows "\<exists>s'. Timer_TimerExpired fx r s = Inr s' \<and> pending_wf s' \<and> boot_ok k s' \<and> now s' = now s \<and> level s' = INT_OFF \<and> due s' = due s"
proof -
  obtain x rs where x: "(if r then next_random s else (0, s)) = (x, s\<lparr>sys := (sys s)\<lparr>randoms := rs\<rparr>\<rparr>)" by (rule timer_draw)
  let ?s1 = "s\<lparr>sys := (sys s)\<lparr>randoms := rs\<rparr>\<rparr>"
  have "ticks_room ?s1" "pending_wf ?s1" "due ?s1 = due s"
    using assms by (simp_all add: boot_ok_def ticks_room_def pending_wf_def due_def now_def)
  moreover from timer_schedules [OF this(1,2), of fx r x] obtain p where
    "Schedule fx () (TimeOfNextInterrupt False r x) TIMER_INT ?s1 = Inr (?s1\<lparr>pending := p\<rparr>)" "pending_wf (?s1\<lparr>pending := p\<rparr>)" "due (?s1\<lparr>pending := p\<rparr>) = due ?s1" .
  ultimately show ?thesis using assms
    by (simp add: Timer_TimerExpired_def x TimerExpired_def TimerInterruptHandler_def YieldOnReturn_def boot_ok_def ticks_room_def now_def)
qed

interpretation boot: device_handlers "\<lambda>_. Timer_TimerExpired fx r" Inr "boot_ok k"
  by unfold_locales (use boot_TimerExpired in \<open>auto simp add: boot_ok_def ticks_room_def\<close>)

definition boot_kernel :: "op list \<Rightarrow> kernel" where
  "boot_kernel prog = no_threads\<lparr>threads := [\<lparr>t_status = RUNNING, t_prog = prog, priority = 0, priorityTemp = -1, joinable = False,
     t_channel = 0, t_started = True, t_deleted = False, t_got = 0\<rparr>]\<rparr>"

lemma start_main_ok: "start_main prog no_threads = Inr (boot_kernel prog)"
  by (simp add: start_main_def Thread_new_def no_threads_def Thread_SetStatus_def IsThreadStatus_def upd_thread_def get_thread_def
      Threads_Kernel.put_thread_def aget_def boot_kernel_def)

lemma boot_kernel_inv: "kernel_inv (boot_kernel prog)" "places (boot_kernel prog) = {#0#}"
  by (simp_all add: kernel_inv_def mid_inv_def running_def places_def queued_def ready_ms_def wait_ms_def valid_def boot_kernel_def no_threads_def
      Scheduler_new_def PRIORITY_SIZE_def List_new_def items_def numeral_eq_Suc)

lemma boot_kernel_Yield: "Thread_Yield (boot_kernel prog) = Inr (boot_kernel prog)"
  by (simp add: Thread_Yield_def FindNextToRun_def PRIORITY_SIZE_def boot_kernel_def no_threads_def Scheduler_new_def aget_def
      List_IsEmpty_def List_new_def numeral_eq_Suc)

lemma Schedule_first:
  "Schedule fx h d kind s = Inr s' \<Longrightarrow> elems (pending s) = [] \<Longrightarrow> length (elems (pending s')) = 1"
  by (cases fx) (auto simp add: Schedule_def res_simps Let_def List_SortedInsert_def RestartTicks_def List_new_def split: if_splits)

lemma Timer_new_ok:
  assumes "ticks_room s" and "elems (pending s) = []"
  obtains s' where "Timer_new fx r s = Inr s'" and "pending_wf s'" and "length (elems (pending s')) = 1" and "sys_kernel (sys s') = sys_kernel (sys s)"
    and "level s' = level s" and "inHandler s' = inHandler s" and "i_status s' = i_status s" and "stats s' = stats s"
proof -
  obtain x rs where x: "(if r then next_random s else (0, s)) = (x, s\<lparr>sys := (sys s)\<lparr>randoms := rs\<rparr>\<rparr>)" by (rule timer_draw)
  let ?s1 = "s\<lparr>sys := (sys s)\<lparr>randoms := rs\<rparr>\<rparr>"
  have r1: "ticks_room ?s1" "pending_wf ?s1" "elems (pending ?s1) = []"
    using assms by (simp_all add: ticks_room_def now_def pending_wf_def key_sorted_def keys_def)
  obtain p where p: "Schedule fx () (TimeOfNextInterrupt False r x) TIMER_INT ?s1 = Inr (?s1\<lparr>pending := p\<rparr>)" "pending_wf (?s1\<lparr>pending := p\<rparr>)"
    using timer_schedules [OF r1(1,2), of fx r x] .
  show thesis
  proof (rule that [of "?s1\<lparr>pending := p\<rparr>"])
    show "Timer_new fx r s = Inr (?s1\<lparr>pending := p\<rparr>)" using p(1) by (simp add: Timer_new_def x)
    show "length (elems (pending (?s1\<lparr>pending := p\<rparr>))) = 1" using Schedule_first [OF p(1) r1(3)] .
  qed (use p(2) in simp_all)
qed

lemma common_option_slice:
  "common_option a rest o1 = Inr (n, o2) \<Longrightarrow> preemptiveScheduling o1 \<longrightarrow> timeSlice o1 \<noteq> None \<Longrightarrow> preemptiveScheduling o2 \<longrightarrow> timeSlice o2 \<noteq> None"
  by (auto simp add: common_option_def ASSERT_def split: if_splits list.splits prod.splits)

text \<open>A time slice is there whenever preemption is on, so that the code never reads it uninitialised.\<close>

lemma parse_args_slice:
  "parse_args threads_build atof args o1 = Inr o2 \<Longrightarrow> preemptiveScheduling o1 \<longrightarrow> timeSlice o1 \<noteq> None \<Longrightarrow> preemptiveScheduling o2 \<longrightarrow> timeSlice o2 \<noteq> None"
proof (induction threads_build atof args o1 rule: parse_args.induct)
  case (2 atof arg rest o1)
  from "2.prems"(1) obtain n o3 where o3: "common_option arg rest o1 = Inr (n, o3)" "parse_args threads_build atof (drop (n - 1) rest) o3 = Inr o2"
    by (auto simp add: one_option_def threads_build_def res_simps split: sum.splits)
  then have "one_option threads_build atof arg rest o1 = Inr (n, o3)" by (simp add: one_option_def threads_build_def)
  from "2.hyps" [OF this refl o3(2)] common_option_slice [OF o3(1) "2.prems"(2)] show ?case by blast
qed simp

text \<open>C25: The kernel starts in order. For every command line that the parser accepts, with or without random time slices, initialisation
  builds a kernel with interrupts enabled and none due, debug output as the command line asked, and the threads in order: the invariant of the
  scheduler holds, and the main thread, running, is the only one. Without \<open>-p\<close> Nachos goes on with this kernel. With \<open>-p\<close> the assertion in
  \<open>SetUp\<close> fails when the host cannot fork; otherwise the child goes on with this kernel, provided that it comes back from the signal that
  hands it to its parent, and the parent monitors it, with the time slice of the command line as an unsigned number.\<close>

theorem Initialize_ok:
  assumes "parse_args threads_build atof (tl argv) options_new = Inr o'"
  shows "\<exists>d s. level s = INT_ON \<and> pending_wf s \<and> due s = [] \<and>
     kernel_inv (sys_kernel (sys s)) \<and> places (sys_kernel (sys s)) = {#current (sys_kernel (sys s))#} \<and>
     t_prog (threads (sys_kernel (sys s)) ! current (sys_kernel (sys s))) = prog \<and>
     flags d = FlagsString (debugFlags o') \<and> opts d = debugOpts o' \<and>
     (if \<not> preemptiveScheduling o' then Initialize fx atof rand H prog argv = Inr (Booted (d, o', s))
      else \<exists>ts. timeSlice o' = Some ts \<and> Initialize fx atof rand H prog argv =
        (if childPid H = - 1 then Inl AssertFail
         else if childPid H = 0 then Inr (if comes_back H then Booted (d, o', s) else Stopped_by_signal)
         else Inr (Monitoring (childPid H) (word_of_int ts))))"
proof -
  let ?s0 = "Interrupt_new Statistics_new \<lparr>randoms = rand (o_seed o'), sys_kernel = no_threads\<rparr> :: (unit, system) istate" and ?r = "randomYield o'"
  have r0: "ticks_room ?s0" "elems (pending ?s0) = []"
    by (simp_all add: ticks_room_def now_def Interrupt_new_def Statistics_new_def List_new_def)
  obtain s1 where s1: "Timer_new fx ?r ?s0 = Inr s1" "pending_wf s1" "length (elems (pending s1)) = 1" "sys_kernel (sys s1) = no_threads"
      "level s1 = INT_OFF" "\<not> inHandler s1" "i_status s1 = SYSTEM_MODE" "stats s1 = Statistics_new"
    using Timer_new_ok [OF r0, of fx ?r] by (auto simp add: Interrupt_new_def)
  define s2 where "s2 = s1\<lparr>sys := (sys s1)\<lparr>sys_kernel := boot_kernel prog\<rparr>, level := INT_ON\<rparr>"
  let ?run = "\<lambda>_. Timer_TimerExpired fx ?r"
  have t: "pending_wf (tick_clock s2) \<and> boot_ok (boot_kernel prog) (tick_clock s2)" "level (tick_clock s2) = INT_OFF" "i_status (tick_clock s2) \<noteq> IDLE_MODE"
    using s1 by (simp_all add: s2_def tick_clock_def ChangeLevel_def pending_wf_def boot_ok_def ticks_room_def now_def Statistics_new_def SYSTEM_TICK_def)
  have "length (due (tick_clock s2)) \<le> 1"
    unfolding due_def by (rule order_trans [OF length_filter_le]) (simp add: s2_def tick_clock_def ChangeLevel_def Let_def s1(3))
  then obtain s3 where s3: "due_loop ?run Inr 2 (tick_clock s2) = Inr s3" "due s3 = []" "pending_wf s3" "boot_ok (boot_kernel prog) s3"
    using boot.due_loop_ok [OF t, of 2 fx ?r] by (metis boot.ext_upd(1) le_imp_less_Suc numeral_2_eq_2 One_nat_def)
  let ?s4 = "s3\<lparr>level := INT_ON\<rparr>"
  have k: "sys_kernel (sys s3) = boot_kernel prog" using s3(4) by (simp add: boot_ok_def)
  have y: "current_Yield (?s4\<lparr>yieldOnReturn := False, i_status := SYSTEM_MODE\<rparr>) = Inr (?s4\<lparr>yieldOnReturn := False, i_status := SYSTEM_MODE\<rparr>)"
    using boot_kernel_Yield [of prog, folded k] by (simp add: current_Yield_def)
  have tc: "OneTick ?run Inr current_Yield 2 s2 = bindR (due_loop ?run Inr 2 (tick_clock s2)) (\<lambda>s.
      let s = ChangeLevel INT_OFF INT_ON s in
      if yieldOnReturn s then bindR (current_Yield (s\<lparr>yieldOnReturn := False, i_status := SYSTEM_MODE\<rparr>)) (\<lambda>s'. Inr (s'\<lparr>i_status := i_status s2\<rparr>)) else Inr s)"
    by (simp add: OneTick_def tick_clock_def Let_def)
  define s5 where "s5 = (if yieldOnReturn s3 then ?s4\<lparr>yieldOnReturn := False, i_status := i_status s2\<rparr> else ?s4)"
  have one: "OneTick ?run Inr current_Yield 2 s2 = Inr s5"
    using y by (simp add: tc s3(1) ChangeLevel_def Let_def s5_def)
  have "Enable ?run Inr current_Yield 2 (s1\<lparr>sys := (sys s1)\<lparr>sys_kernel := boot_kernel prog\<rparr>\<rparr>) = Inr s5"
    using one s1(5,6) by (simp add: Enable_def SetLevel_def ChangeLevel_def s2_def)
  then have "Initialize fx atof rand H prog argv =
      (let x = (SetOpts (debugOpts o') (SetFlags (FlagsString (debugFlags o')) Debug_new), o', s5) in
       if preemptiveScheduling o' then SetUp H (word_of_int (the (timeSlice o'))) x else Inr (Booted x))"
    using assms s1(1,4) by (simp add: Initialize_def Let_def start_main_ok)
  moreover have "preemptiveScheduling o' \<longrightarrow> timeSlice o' \<noteq> None" using parse_args_slice [OF assms] by (simp add: options_new_def)
  moreover have "level s5 = INT_ON" "pending_wf s5" "due s5 = []" "sys_kernel (sys s5) = boot_kernel prog"
    using s3(2,3) k by (simp_all add: s5_def)
  ultimately show ?thesis using boot_kernel_inv [of prog]
    by (intro exI [of _ "SetOpts (debugOpts o') (SetFlags (FlagsString (debugFlags o')) Debug_new)"] exI [of _ s5])
      (auto simp add: SetOpts_def SetFlags_def SetUp_def LetMeBeMonitored_def boot_kernel_def no_threads_def)
qed

section \<open>Preemption\<close>

text \<open>The monitor keeps time. With a time slice that is not 0 it never traps, and the stop at which it forces a context switch is the one
  where the count of instructions, which begins with 2, reaches a multiple of the time slice, unless the child is in a forced switch already.\<close>

theorem MonitorProcess_slices:
  assumes "timeSliceLength \<noteq> 0"
  shows "MonitorProcess timeSliceLength (map Stopped bs @ Exited # rs) =
     Inr (map (\<lambda>i. if (of_nat i + 2) mod timeSliceLength = 0 \<and> \<not> bs ! i then Forced_switch else Single_step) [0..<length bs])"
proof -
  have "MonitorProcess_loop timeSliceLength (c + 1) (map Stopped bs @ Exited # rs) =
     Inr (map (\<lambda>i. if (of_nat i + (c + 2)) mod timeSliceLength = 0 \<and> \<not> bs ! i then Forced_switch else Single_step) [0..<length bs])" for c
  proof (induction bs arbitrary: c)
    case (Cons b bs)
    from Cons.IH [of "c + 1"] assms show ?case
      unfolding list.size upt_conv_Cons [OF zero_less_Suc] add_0_right add_Suc_right
      by (simp add: map_Suc_upt [symmetric] o_def ac_simps del: upt_Suc)
  qed simp
  from this [of 0] show ?thesis by (simp add: MonitorProcess_def)
qed

text \<open>A time slice of 0 kills the monitor at the child's first stop: \<open>-p 0\<close>, and \<open>-p\<close> with a word that is not a number.\<close>

theorem MonitorProcess_zero: "MonitorProcess (word_of_int (sint (atoi (ascii_str ''0'')))) (Stopped b # rs) = Inl HostTrap"
  by (simp add: MonitorProcess_def atoi_def isspace_def digit_def numeral_of_def sign_length_def ascii_str_def Let_def)

text \<open>A forced context switch is harmless: with interrupts off it only leaves a note, and with interrupts on it is a \<open>Yield\<close>,
  which keeps the scheduler's invariant and every thread.\<close>

theorem ContextSwitch_ok:
  assumes "kernel_inv (sys_kernel (sys s))" and "\<not> idling (sys_kernel (sys s))" and "ContextSwitch (b, s) = Inr (b', s')"
  shows "\<not> b' \<and> level s' = level s \<and> kernel_inv (sys_kernel (sys s')) \<and> places (sys_kernel (sys s')) = places (sys_kernel (sys s)) \<and>
     (level s = INT_OFF \<longrightarrow> sys s' = sys s \<and> yieldOnReturn s')"
  using assms Yield_inv [OF assms(1,2)]
  by (cases "level s") (auto simp add: ContextSwitch_def current_Yield_def YieldOnReturn_def res_simps)

theorem Initialize_ok_witness:
  "\<exists>d o' s. Initialize True (\<lambda>_. 1) (\<lambda>_. [7]) \<lparr>childPid = 0, comes_back = True\<rparr> [Yield]
      (ascii_str ''nachos'' # concat (map render [OptRs (ascii_str ''42''), OptP (ascii_str ''100'')])) = Inr (Booted (d, o', s)) \<and>
     preemptiveScheduling o' \<and> timeSlice o' = Some 100 \<and> kernel_inv (sys_kernel (sys s))"
proof -
  let ?xs = "[OptRs (ascii_str ''42''), OptP (ascii_str ''100'')]"
  have "parse_args threads_build (\<lambda>_. 1) (concat (map render ?xs)) options_new = Inr (fold effect ?xs options_new)"
    by (simp add: one_option_def common_option_def threads_build_def ascii_str_def)
  moreover have "timeSlice (fold effect ?xs options_new) = Some 100"
    by (simp add: atoi_def isspace_def digit_def numeral_of_def sign_length_def ascii_str_def Let_def)
  ultimately show ?thesis
    using Initialize_ok [of "\<lambda>_. 1" "ascii_str ''nachos'' # concat (map render ?xs)" "fold effect ?xs options_new" "[Yield]" True "\<lambda>_. [7]" "\<lparr>childPid = 0, comes_back = True\<rparr>"]
    by fastforce
qed

theorem MonitorProcess_slices_witness:
  "MonitorProcess 3 (map Stopped [False, False, False, True, True] @ [Exited]) = Inr [Single_step, Forced_switch, Single_step, Single_step, Single_step]"
  by (subst MonitorProcess_slices) (simp_all add: upt_rec)

theorem parse_render_witness:
  "parse_args threads_build (\<lambda>_. 1) (concat (map render [OptDo [ascii_str ''l'', ascii_str ''sleep''], OptOther (ascii_str ''-x'')])) options_new =
     Inr (fold effect [OptDo [ascii_str ''l'', ascii_str ''sleep''], OptOther (ascii_str ''-x'')] options_new)"
  by (rule parse_render) (simp add: debug_names_def ascii_str_def)

end
