(* ===== verification/Machine_Disk.thy ===== *)
theory Machine_Disk
  imports Machine_Interrupt
begin

text \<open>
  The disk device, \<open>machine/disk.cc\<close> and \<open>machine/disk.hh\<close>, and the blocking interface to
  it, \<open>filesys/synch_disk.cc\<close>.

  The UNIX file that holds the disk is the list \<open>image\<close> of its bytes, four bytes of magic
  number first. A request moves its data at once and asks for an interrupt after the latency it
  computes; the model returns that delay, the argument of \<open>interrupt->Schedule\<close>. Counters and
  times have the widths of the code: \<open>unsigned\<close> and \<open>int\<close> are 32-bit words, and the
  arithmetic that mixes them with \<open>unsigned long\<close> is done in 64 bits.

  The field \<open>d_clock\<close> is \<open>stats->totalTicks\<close> as the device sees it. In
  \<open>ReadSector\<close> and \<open>WriteSector\<close> the calling thread holds the lock and sleeps until the
  interrupt: seen from that thread, the request is followed by its completion. \<open>Filesys_SynchDisk\<close> has the code
  with its lock, semaphore and interrupt, and shows that these single operations describe every run.
\<close>

section \<open>State\<close>

definition SECTOR_SIZE :: nat where "SECTOR_SIZE = 128"
definition SECTORS_PER_TRACK :: u32 where "SECTORS_PER_TRACK = 32"
definition NUM_TRACKS :: u32 where "NUM_TRACKS = 32"
definition NUM_SECTORS :: nat where "NUM_SECTORS = 1024"
definition MAGIC_NUMBER :: u32 where "MAGIC_NUMBER = 0x456789AB"
definition MAGIC_SIZE :: nat where "MAGIC_SIZE = 4"
definition DISK_SIZE :: nat where "DISK_SIZE = MAGIC_SIZE + NUM_SECTORS * SECTOR_SIZE"

lemmas disk_sizes = SECTOR_SIZE_def NUM_SECTORS_def MAGIC_SIZE_def DISK_SIZE_def

record disk =
  image :: "u8 list"
  active :: bool
  lastSector :: u32
  bufferInit :: u32
  d_clock :: u64
  d_reads :: u64
  d_writes :: u64

section \<open>Latency\<close>

definition Diff :: "u32 \<Rightarrow> u32 \<Rightarrow> u32" where
  "Diff a b = (if a > b then a - b else b - a)"

definition TimeToSeek :: "disk \<Rightarrow> u32 \<Rightarrow> u32 \<times> u32" where
  "TimeToSeek d newSector =
    (let newTrack = newSector div SECTORS_PER_TRACK; oldTrack = lastSector d div SECTORS_PER_TRACK;
         seek = ucast (ucast (Diff newTrack oldTrack) * SEEK_TIME) :: u32;
         over = ucast ((d_clock d + ucast seek) mod ROTATION_TIME) :: u32;
         rotation = (if over > 0 then ucast (ROTATION_TIME - ucast over) else 0) in
     (seek, rotation))"

definition ModuloDiff :: "u32 \<Rightarrow> u32 \<Rightarrow> u32" where
  "ModuloDiff to from =
    (let toOffset = to mod SECTORS_PER_TRACK; fromOffset = from mod SECTORS_PER_TRACK in
     (toOffset - fromOffset + SECTORS_PER_TRACK) mod SECTORS_PER_TRACK)"

definition ComputeLatency :: "bool \<Rightarrow> disk \<Rightarrow> u32 \<Rightarrow> bool \<Rightarrow> u32" where
  "ComputeLatency track_buffer d newSector writing =
    (let (seek, rotation) = TimeToSeek d newSector;
         timeAfter = ucast (d_clock d + ucast seek + ucast rotation) :: u32 in
     if track_buffer \<and> \<not> writing \<and> seek = 0 \<and>
        (ucast (timeAfter - bufferInit d) :: u64) div ROTATION_TIME
          > ucast (ModuloDiff newSector (ucast ((scast (bufferInit d) :: u64) div ROTATION_TIME)))
     then ucast ROTATION_TIME
     else
       let rotation = ucast (ucast rotation +
             (ucast (ModuloDiff newSector (ucast ((ucast timeAfter :: u64) div ROTATION_TIME))) :: u64)
               * ROTATION_TIME) :: u32 in
       ucast (ucast seek + ucast rotation + ROTATION_TIME))"

definition UpdateLast :: "disk \<Rightarrow> u32 \<Rightarrow> disk" where
  "UpdateLast d newSector =
    (let (seek, rotate) = TimeToSeek d newSector;
         d = (if seek \<noteq> 0 then d\<lparr>bufferInit := ucast (d_clock d + ucast seek + ucast rotate)\<rparr> else d) in
     d\<lparr>lastSector := newSector\<rparr>)"

section \<open>Requests\<close>

text \<open>The constructor: an existing file must carry the magic number, and a new one is the magic
  number followed by a hole up to its last four bytes.\<close>

definition Disk_new :: "bool \<Rightarrow> u8 list option \<Rightarrow> u64 \<Rightarrow> disk res" where
  "Disk_new be file clock =
    (let mk = \<lambda>im. \<lparr>image = im, active = False, lastSector = 0, bufferInit = 0, d_clock = clock,
                   d_reads = 0, d_writes = 0\<rparr> in
     case file of
       Some im \<Rightarrow> ASSERT (take MAGIC_SIZE im = host_order be (bytes32 MAGIC_NUMBER)) (Inr (mk im))
     | None \<Rightarrow> Inr (mk (host_order be (bytes32 MAGIC_NUMBER) @ replicate (NUM_SECTORS * SECTOR_SIZE) 0)))"

definition ReadRequest :: "bool \<Rightarrow> disk \<Rightarrow> u32 \<Rightarrow> (u8 list \<times> u32 \<times> disk) res" where
  "ReadRequest tb d sectorNumber =
    (let ticks = ComputeLatency tb d sectorNumber False in
     ASSERT (\<not> active d) (ASSERT (unat sectorNumber < NUM_SECTORS) (
     let off = SECTOR_SIZE * unat sectorNumber + MAGIC_SIZE in
     if off + SECTOR_SIZE \<le> length (image d) then
       let d' = UpdateLast (d\<lparr>active := True\<rparr>) sectorNumber in
       Inr (slice off SECTOR_SIZE (image d), ticks, d'\<lparr>d_reads := d_reads d' + 1\<rparr>)
     else Inl OutOfBounds)))"

definition WriteRequest :: "bool \<Rightarrow> disk \<Rightarrow> u32 \<Rightarrow> u8 list \<Rightarrow> (u32 \<times> disk) res" where
  "WriteRequest tb d sectorNumber data =
    (let ticks = ComputeLatency tb d sectorNumber True in
     ASSERT (\<not> active d) (ASSERT (unat sectorNumber < NUM_SECTORS) (
     let off = SECTOR_SIZE * unat sectorNumber + MAGIC_SIZE in
     if SECTOR_SIZE \<le> length data then
       let d' = UpdateLast (d\<lparr>image := blit (image d) off (take SECTOR_SIZE data), active := True\<rparr>) sectorNumber in
       Inr (ticks, d'\<lparr>d_writes := d_writes d' + 1\<rparr>)
     else Inl OutOfBounds)))"

definition Disk_HandleInterrupt :: "u32 \<Rightarrow> disk \<Rightarrow> disk" where
  "Disk_HandleInterrupt ticks d = d\<lparr>active := False, d_clock := d_clock d + ucast ticks\<rparr>"

definition ReadSector :: "disk \<Rightarrow> u32 \<Rightarrow> (u8 list \<times> disk) res" where
  "ReadSector d sectorNumber =
    bindR (ReadRequest True d sectorNumber) (\<lambda>(data, ticks, d).
      ASSERT (ticks > 0) (Inr (data, Disk_HandleInterrupt ticks d)))"

definition WriteSector :: "disk \<Rightarrow> u32 \<Rightarrow> u8 list \<Rightarrow> disk res" where
  "WriteSector d sectorNumber data =
    bindR (WriteRequest True d sectorNumber data) (\<lambda>(ticks, d).
      ASSERT (ticks > 0) (Inr (Disk_HandleInterrupt ticks d)))"

section \<open>Latency bounds\<close>

lemma unat_ModuloDiff: "unat (ModuloDiff a b) < 32"
  by (simp add: ModuloDiff_def SECTORS_PER_TRACK_def unat_mod)

lemma unat_ucast64 [simp]: "unat (ucast (x :: u32) :: u64) = unat x"
  using unat_less32 [of x] by (simp add: unsigned_ucast_eq take_bit_nat_eq_self_iff)

lemma unat_ucast32: "unat (y :: u64) < 4294967296 \<Longrightarrow> unat (ucast y :: u32) = unat y"
  by (simp add: unsigned_ucast_eq take_bit_nat_eq_self_iff)

lemma TimeToSeek_bounds:
  assumes "unat (lastSector d) < 1024" and "unat n < 1024" and "TimeToSeek d n = (seek, rotation)"
  shows "unat seek \<le> 15500" and "unat rotation \<le> 499"
proof -
  let ?df = "Diff (n div SECTORS_PER_TRACK) (lastSector d div SECTORS_PER_TRACK)"
  have "unat (n div SECTORS_PER_TRACK) < 32" "unat (lastSector d div SECTORS_PER_TRACK) < 32"
    using assms(1,2) by (simp_all add: SECTORS_PER_TRACK_def unat_div)
  then have df: "unat ?df \<le> 31"
    by (auto simp add: Diff_def unat_sub_if' word_less_nat_alt)
  then have "unat (ucast ?df * SEEK_TIME :: u64) = unat ?df * 500"
    by (simp add: SEEK_TIME_def unat_word_ariths)
  with df have "unat (ucast (ucast ?df * SEEK_TIME :: u64) :: u32) \<le> 15500"
    by (subst unat_ucast32) simp_all
  then show "unat seek \<le> 15500" using assms(3) by (auto simp add: TimeToSeek_def Let_def)
  define ov where "ov = (ucast ((d_clock d + ucast seek) mod ROTATION_TIME) :: u32)"
  have r: "rotation = (if ov > 0 then ucast (ROTATION_TIME - ucast ov) else 0)"
    using assms(3) by (auto simp add: TimeToSeek_def Let_def ov_def)
  have "unat ((d_clock d + ucast seek) mod ROTATION_TIME) < 500"
    by (simp add: ROTATION_TIME_def unat_mod)
  then have "unat ov < 500" unfolding ov_def by (subst unat_ucast32) simp_all
  then have "0 < ov \<Longrightarrow> unat (ROTATION_TIME - ucast ov :: u64) \<le> 499"
    by (simp add: ROTATION_TIME_def unat_sub_if' word_less_nat_alt)
  then show "unat rotation \<le> 499"
    by (auto simp add: r unat_ucast32)
qed

lemma ComputeLatency_bounds:
  assumes "unat (lastSector d) < 1024" and "unat n < 1024"
  shows "500 \<le> unat (ComputeLatency tb d n w)" and "unat (ComputeLatency tb d n w) \<le> 32000"
proof -
  obtain seek rot where sr: "TimeToSeek d n = (seek, rot)" by (metis surj_pair)
  note b = TimeToSeek_bounds [OF assms sr]
  define ta where "ta = (ucast (d_clock d + ucast seek + ucast rot) :: u32)"
  define md where "md = ModuloDiff n (ucast ((ucast ta :: u64) div ROTATION_TIME))"
  have md: "unat md \<le> 31" using unat_ModuloDiff [of n] by (simp add: md_def less_Suc_eq_le [symmetric])
  have "unat (ucast rot + ucast md * ROTATION_TIME :: u64) = unat rot + unat md * 500"
    using b md by (simp add: ROTATION_TIME_def unat_word_ariths)
  moreover from this b md have "unat (ucast rot + ucast md * ROTATION_TIME :: u64) \<le> 15999" by simp
  moreover have rt: "unat (ucast ROTATION_TIME :: u32) = 500" by (simp add: ROTATION_TIME_def)
  moreover define r' where "r' = (ucast (ucast rot + ucast md * ROTATION_TIME :: u64) :: u32)"
  ultimately have r: "unat r' \<le> 15999"
    unfolding r'_def by (subst unat_ucast32) simp_all
  have "unat (ucast seek + ucast r' + ROTATION_TIME :: u64) = unat seek + unat r' + 500"
    using b r by (simp add: ROTATION_TIME_def unat_word_ariths)
  moreover from this have "unat (ucast (ucast seek + ucast r' + ROTATION_TIME :: u64) :: u32) =
      unat seek + unat r' + 500"
    using b r by (subst unat_ucast32) simp_all
  ultimately have "unat (ComputeLatency tb d n w) = 500 \<or>
      unat (ComputeLatency tb d n w) = unat seek + unat r' + 500"
    unfolding ComputeLatency_def sr Let_def prod.case ta_def [symmetric] md_def [symmetric] r'_def [symmetric]
    using rt by presburger
  with b r show "500 \<le> unat (ComputeLatency tb d n w)" "unat (ComputeLatency tb d n w) \<le> 32000"
    by auto
qed

section \<open>The disk as a store of sectors\<close>

definition disk_ok :: "disk \<Rightarrow> bool" where
  "disk_ok d \<longleftrightarrow> length (image d) = DISK_SIZE \<and> \<not> active d \<and> unat (lastSector d) < NUM_SECTORS"

definition sector :: "disk \<Rightarrow> nat \<Rightarrow> u8 list" where
  "sector d s = slice (SECTOR_SIZE * s + MAGIC_SIZE) SECTOR_SIZE (image d)"

lemma length_sector [simp]: "disk_ok d \<Longrightarrow> s < NUM_SECTORS \<Longrightarrow> length (sector d s) = SECTOR_SIZE"
  unfolding sector_def by (rule length_slice) (simp add: disk_ok_def disk_sizes)

lemma UpdateLast_image [simp]:
  "image (UpdateLast d n) = image d" "active (UpdateLast d n) = active d" "lastSector (UpdateLast d n) = n"
  by (simp_all add: UpdateLast_def Let_def split: prod.splits)

lemma ReadSector_ok:
  assumes "disk_ok d" and "unat s < NUM_SECTORS"
  shows "\<exists>d'. ReadSector d s = Inr (sector d (unat s), d') \<and> disk_ok d' \<and> sector d' = sector d"
proof -
  have t: "0 < ComputeLatency True d s False"
    using ComputeLatency_bounds(1) [of d s True False] assms
    by (auto simp add: disk_ok_def NUM_SECTORS_def word_gt_0)
  have "SECTOR_SIZE * unat s + MAGIC_SIZE + SECTOR_SIZE \<le> length (image d)"
    using assms by (simp add: disk_ok_def disk_sizes)
  with assms t show ?thesis
    by (simp add: ReadSector_def ReadRequest_def Let_def disk_ok_def sector_def Disk_HandleInterrupt_def fun_eq_iff)
qed

lemma WriteSector_ok:
  assumes "disk_ok d" and "unat s < NUM_SECTORS" and "length data = SECTOR_SIZE"
  shows "\<exists>d'. WriteSector d s data = Inr d' \<and> disk_ok d' \<and>
    (\<forall>i<NUM_SECTORS. sector d' i = (if i = unat s then data else sector d i))"
proof -
  have t: "0 < ComputeLatency True d s True"
    using ComputeLatency_bounds(1) [of d s True True] assms
    by (auto simp add: disk_ok_def NUM_SECTORS_def word_gt_0)
  let ?off = "SECTOR_SIZE * unat s + MAGIC_SIZE"
  have l: "?off + length data \<le> length (image d)"
    using assms by (simp add: disk_ok_def disk_sizes)
  let ?im = "blit (image d) ?off data"
  have "slice (SECTOR_SIZE * i + MAGIC_SIZE) SECTOR_SIZE ?im =
      (if i = unat s then data else sector d i)" if "i < NUM_SECTORS" for i
  proof (cases "i = unat s")
    case True
    with l assms(3) show ?thesis by simp
  next
    case False
    have "i + 1 \<le> unat s \<or> unat s + 1 \<le> i" using False by linarith
    then have "SECTOR_SIZE * i + MAGIC_SIZE + SECTOR_SIZE \<le> ?off \<or>
        ?off + length data \<le> SECTOR_SIZE * i + MAGIC_SIZE"
      using assms(3) by (auto simp add: SECTOR_SIZE_def)
    then show ?thesis using False that assms(1) l
      by (simp add: sector_def slice_blit_disjoint disk_ok_def disk_sizes)
  qed
  then show ?thesis
    using assms t l
    by (simp add: WriteSector_def WriteRequest_def Let_def disk_ok_def sector_def Disk_HandleInterrupt_def)
qed

text \<open>
  What the file system relies on: a device of numbered sectors, each a block of fixed size, in
  which a read returns the block and a write changes that block only. \<open>read_run\<close> and
  \<open>write_run\<close> transfer a list of sectors in order, as the loops of \<open>OpenFile\<close> do.
\<close>

fun read_run :: "('d \<Rightarrow> u32 \<Rightarrow> (u8 list \<times> 'd) res) \<Rightarrow> 'd \<Rightarrow> u32 list \<Rightarrow> (u8 list \<times> 'd) res" where
  "read_run rd d [] = Inr ([], d)"
| "read_run rd d (s # ss) = bindR (rd d s) (\<lambda>(data, d). bindR (read_run rd d ss) (\<lambda>(rest, d).
     Inr (data @ rest, d)))"

fun write_run :: "('d \<Rightarrow> u32 \<Rightarrow> u8 list \<Rightarrow> 'd res) \<Rightarrow> nat \<Rightarrow> 'd \<Rightarrow> u32 list \<Rightarrow> u8 list \<Rightarrow> 'd res" where
  "write_run wr n d [] buf = Inr d"
| "write_run wr n d (s # ss) buf = bindR (wr d s (take n buf)) (\<lambda>d. write_run wr n d ss (drop n buf))"

locale sector_device =
  fixes rd :: "'d \<Rightarrow> u32 \<Rightarrow> (u8 list \<times> 'd) res" and wr :: "'d \<Rightarrow> u32 \<Rightarrow> u8 list \<Rightarrow> 'd res"
    and blk :: "'d \<Rightarrow> nat \<Rightarrow> u8 list" and ok :: "'d \<Rightarrow> bool" and count bsize :: nat
  assumes rd_ok: "ok d \<Longrightarrow> unat s < count \<Longrightarrow>
      \<exists>d'. rd d s = Inr (blk d (unat s), d') \<and> ok d' \<and> blk d' = blk d"
    and wr_ok: "ok d \<Longrightarrow> unat s < count \<Longrightarrow> length data = bsize \<Longrightarrow>
      \<exists>d'. wr d s data = Inr d' \<and> ok d' \<and>
        (\<forall>i<count. blk d' i = (if i = unat s then data else blk d i))"
begin

lemma read_run_ok:
  "ok d \<Longrightarrow> \<forall>s\<in>set ss. unat s < count \<Longrightarrow>
     \<exists>d'. read_run rd d ss = Inr (concat (map (\<lambda>s. blk d (unat s)) ss), d') \<and> ok d' \<and> blk d' = blk d"
proof (induction ss arbitrary: d)
  case (Cons s ss)
  from rd_ok [of d s] Cons.prems obtain d1 where d1: "rd d s = Inr (blk d (unat s), d1)" "ok d1" "blk d1 = blk d"
    by auto
  with Cons.IH [of d1] Cons.prems(2) show ?case by auto
qed simp

lemma write_run_ok:
  "ok d \<Longrightarrow> \<forall>s\<in>set ss. unat s < count \<Longrightarrow> distinct ss \<Longrightarrow> length buf = length ss * bsize \<Longrightarrow>
     \<exists>d'. write_run wr bsize d ss buf = Inr d' \<and> ok d' \<and>
       (\<forall>i<count. (\<forall>s\<in>set ss. unat s \<noteq> i) \<longrightarrow> blk d' i = blk d i) \<and>
       concat (map (\<lambda>s. blk d' (unat s)) ss) = buf"
proof (induction ss arbitrary: d buf)
  case (Cons s ss)
  have l: "length (take bsize buf) = bsize" "length (drop bsize buf) = length ss * bsize"
    using Cons.prems(4) by simp_all
  from wr_ok [OF Cons.prems(1) _ l(1), of s] Cons.prems(2) obtain d1 where
    d1: "wr d s (take bsize buf) = Inr d1" "ok d1"
      "\<forall>i<count. blk d1 i = (if i = unat s then take bsize buf else blk d i)" by auto
  from Cons.IH [OF d1(2) _ _ l(2)] Cons.prems(2,3) obtain d' where
    d': "write_run wr bsize d1 ss (drop bsize buf) = Inr d'" "ok d'"
      "\<forall>i<count. (\<forall>s\<in>set ss. unat s \<noteq> i) \<longrightarrow> blk d' i = blk d1 i"
      "concat (map (\<lambda>s. blk d' (unat s)) ss) = drop bsize buf" by auto
  have "blk d' (unat s) = take bsize buf"
    using d'(3) d1(3) Cons.prems(2,3) by (metis distinct.simps(2) list.set_intros(1) word_unat_eq_iff)
  with d' d1 show ?case by (auto simp add: append_take_drop_id)
qed simp

end

interpretation sd: sector_device ReadSector WriteSector sector disk_ok NUM_SECTORS SECTOR_SIZE
  using ReadSector_ok WriteSector_ok by unfold_locales blast+

text \<open>C39: The disk accepts every request for one of its sectors when it is idle, and the interrupt it asks for lies at least the time of
  one rotation step ahead and at most 32000 ticks, with or without the track buffer, wherever the head is and
  whatever the clock says: no latency wraps around.\<close>

theorem request_latency:
  assumes "disk_ok d" and "unat n < NUM_SECTORS" and "length data = SECTOR_SIZE"
  shows "(\<exists>t d'. ReadRequest tb d n = Inr (sector d (unat n), t, d') \<and> 500 \<le> unat t \<and> unat t \<le> 32000) \<and>
     (\<exists>t d'. WriteRequest tb d n data = Inr (t, d') \<and> 500 \<le> unat t \<and> unat t \<le> 32000)"
proof -
  have b: "500 \<le> unat (ComputeLatency tb d n w)" "unat (ComputeLatency tb d n w) \<le> 32000" for w
    using ComputeLatency_bounds [of d n tb w] assms(1,2) by (simp_all add: disk_ok_def NUM_SECTORS_def)
  have "SECTOR_SIZE * unat n + MAGIC_SIZE + SECTOR_SIZE \<le> length (image d)" using assms by (simp add: disk_ok_def disk_sizes)
  with b assms show ?thesis by (simp add: ReadRequest_def WriteRequest_def Let_def disk_ok_def sector_def)
qed

theorem request_latency_witness:
  "\<exists>d t d'. Disk_new False None 99 = Inr d \<and> WriteRequest True d 700 (replicate 128 7) = Inr (t, d') \<and> unat t \<le> 32000"
proof -
  obtain d where d: "Disk_new False None 99 = Inr d" "disk_ok d"
    by (simp add: Disk_new_def disk_ok_def disk_sizes host_order_def bytes32_def)
  from request_latency [OF d(2), of 700 "replicate 128 7" True] d(1) show ?thesis by (auto simp add: disk_sizes)
qed

end
