(* ===== verification/Machine_Driver.thy ===== *)
theory Machine_Driver
  imports Machine_Interrupt "HOL-Library.Multiset"
begin

text \<open>
  Threads, locks and semaphores around an interrupt-driven device.

  The synchronous drivers of the kernel (\<open>filesys/synch_disk.cc\<close>, \<open>userprog/SynchConsole.cc\<close>,
  \<open>network/post.cc\<close>) are a
  few statements each: take a lock, start the device, wait on a semaphore that the device's
  interrupt handler raises, give the lock back. A driver's code is a list of such statements, and
  a run interleaves the statements of any number of threads with the interrupts that the
  controller of \<open>Machine_Interrupt\<close> delivers and with the moves of the outside world. A statement
  of the code is atomic here because the machine takes interrupts and switches threads only where
  the kernel enables interrupts; \<open>Threads_Locks\<close> shows that locks exclude each other and that
  semaphores lose no wake-up, so that \<open>Acquire\<close>, \<open>Release\<close>, \<open>P\<close> and \<open>V\<close> are single steps.
\<close>

section \<open>Drivers\<close>

datatype 'a stmt = Acquire nat | Release nat | P nat | Do 'a

record ('d, 'r) sync =
  owner :: "nat \<Rightarrow> nat option"   \<comment> \<open>the holder of each lock\<close>
  val :: "nat \<Rightarrow> nat"            \<comment> \<open>the value of each semaphore\<close>
  dev :: 'd                     \<comment> \<open>the device and the host's side of it\<close>
  returned :: "(nat \<times> 'r) list" \<comment> \<open>the results of the calls that have returned, by thread\<close>

type_synonym ('h, 'd, 'r) dstate = "('h, ('d, 'r) sync) istate"

definition upd_sys :: "('s \<Rightarrow> 's) \<Rightarrow> ('h, 's) istate \<Rightarrow> ('h, 's) istate" where
  "upd_sys f s = s\<lparr>sys := f (sys s)\<rparr>"

definition upd_dev :: "('d \<Rightarrow> 'd) \<Rightarrow> ('h, 'd, 'r) dstate \<Rightarrow> ('h, 'd, 'r) dstate" where
  "upd_dev f = upd_sys (\<lambda>x. x\<lparr>dev := f (dev x)\<rparr>)"

definition sem_V :: "nat \<Rightarrow> ('h, ('d, 'r) sync) act" where
  "sem_V i s = Inr (upd_sys (\<lambda>x. x\<lparr>val := (val x)(i := val x i + 1)\<rparr>) s)"

text \<open>One statement of thread \<open>t\<close>: \<open>None\<close> when the thread waits. \<open>act\<close> is the meaning of the
  device operations.\<close>

fun exec_stmt ::
  "('a \<Rightarrow> nat \<Rightarrow> ('h, 'd, 'r) dstate \<Rightarrow> ('h, 'd, 'r) dstate res option) \<Rightarrow>
   'a stmt \<Rightarrow> nat \<Rightarrow> ('h, 'd, 'r) dstate \<Rightarrow> ('h, 'd, 'r) dstate res option" where
  "exec_stmt act (Acquire l) t s =
     (case owner (sys s) l of
        None \<Rightarrow> Some (Inr (upd_sys (\<lambda>x. x\<lparr>owner := (owner x)(l := Some t)\<rparr>) s))
      | Some u \<Rightarrow> if u = t then Some (Inl AssertFail) else None)"
| "exec_stmt act (Release l) t s =
     Some (ASSERT (owner (sys s) l = Some t) (Inr (upd_sys (\<lambda>x. x\<lparr>owner := (owner x)(l := None)\<rparr>) s)))"
| "exec_stmt act (P i) t s =
     (if val (sys s) i > 0 then Some (Inr (upd_sys (\<lambda>x. x\<lparr>val := (val x)(i := val x i - 1)\<rparr>) s)) else None)"
| "exec_stmt act (Do a) t s = act a t s"

record ('a, 's, 'h) driver =
  todo :: "nat \<Rightarrow> 'a list"       \<comment> \<open>the statements each thread has still to run\<close>
  ist :: "('h, 's) istate"

text \<open>A build without \<open>DFS_TICKS_FIX\<close> asserts that the clock does not overflow; 32000 ticks are the longest
  delay a device asks for.\<close>

definition clock_room :: "bool \<Rightarrow> ('h, 's) istate \<Rightarrow> bool" where
  "clock_room fx s \<longleftrightarrow> fx \<or> unat (totalTicks (stats s)) < 18446744073709519615"

inductive driver_step ::
  "bool \<Rightarrow> ('h \<Rightarrow> ('h, 's) act) \<Rightarrow> ('a \<Rightarrow> nat \<Rightarrow> ('h, 's) istate \<Rightarrow> ('h, 's) istate res option) \<Rightarrow> ('s \<Rightarrow> 's \<Rightarrow> bool) \<Rightarrow>
   ('a, 's, 'h) driver \<Rightarrow> ('a, 's, 'h) driver \<Rightarrow> bool"
  for fx run sem env where
  stmt: "todo c t = a # as \<Longrightarrow> sem a t (ist c) = Some (Inr s) \<Longrightarrow>
    driver_step fx run sem env c \<lparr>todo = (todo c)(t := as), ist = s\<rparr>"
| interrupt: "CheckIfDue run Inr adv ((ist c)\<lparr>level := INT_OFF\<rparr>) = Inr (fired, s) \<Longrightarrow>
    driver_step fx run sem env c \<lparr>todo = todo c, ist = s\<lparr>level := INT_ON\<rparr>\<rparr>"
| clock: "totalTicks (stats (ist c)) \<le> n \<Longrightarrow> clock_room fx ((ist c)\<lparr>stats := (stats (ist c))\<lparr>totalTicks := n\<rparr>\<rparr>) \<Longrightarrow>
    driver_step fx run sem env c \<lparr>todo = todo c, ist = (ist c)\<lparr>stats := (stats (ist c))\<lparr>totalTicks := n\<rparr>\<rparr>\<rparr>"
| world: "env (sys (ist c)) x \<Longrightarrow> driver_step fx run sem env c \<lparr>todo = todo c, ist = (ist c)\<lparr>sys := x\<rparr>\<rparr>"

text \<open>Nothing that can happen next fails: no statement a thread is at, and no interrupt.\<close>

definition driver_safe ::
  "('h \<Rightarrow> ('h, 's) act) \<Rightarrow> ('a \<Rightarrow> nat \<Rightarrow> ('h, 's) istate \<Rightarrow> ('h, 's) istate res option) \<Rightarrow> ('a, 's, 'h) driver \<Rightarrow> bool" where
  "driver_safe run sem c \<longleftrightarrow>
    (\<forall>t a as. todo c t = a # as \<longrightarrow> (\<forall>e. sem a t (ist c) \<noteq> Some (Inl e))) \<and>
    (\<forall>adv e. CheckIfDue run Inr adv ((ist c)\<lparr>level := INT_OFF\<rparr>) \<noteq> Inl e)"

section \<open>The pending list as a multiset of handlers\<close>

definition pending_ms :: "('h, 's) istate \<Rightarrow> 'h multiset" where
  "pending_ms s = image_mset handler (mset (items (pending s)))"

lemma mset_items_SortedInsert: "mset (items (List_SortedInsert l x k)) = add_mset x (mset (items l))"
proof -
  have "map snd (takeWhile (\<lambda>e. fst e \<le> k) (elems l)) @ map snd (dropWhile (\<lambda>e. fst e \<le> k) (elems l)) = items l"
    unfolding items_def map_append [symmetric] by simp
  then have "mset (map snd (takeWhile (\<lambda>e. fst e \<le> k) (elems l))) + mset (map snd (dropWhile (\<lambda>e. fst e \<le> k) (elems l))) = mset (items l)"
    unfolding mset_append [symmetric] by simp
  then show ?thesis unfolding items_def elems_SortedInsert by simp
qed

lemma pending_ms_insert [simp]:
  "pending_ms (s\<lparr>pending := List_SortedInsert l p k\<rparr>) = add_mset (handler p) (pending_ms (s\<lparr>pending := l\<rparr>))"
  using mset_items_SortedInsert [of l p k] by (simp add: pending_ms_def)

lemma pending_ms_upd [simp]:
  "pending_ms (s\<lparr>level := i\<rparr>) = pending_ms s" "pending_ms (s\<lparr>sys := x\<rparr>) = pending_ms s" "pending_ms (s\<lparr>stats := st\<rparr>) = pending_ms s"
  "pending_ms (s\<lparr>inHandler := b\<rparr>) = pending_ms s" "pending_ms (s\<lparr>i_status := ms\<rparr>) = pending_ms s" "pending_ms (s\<lparr>yieldOnReturn := b\<rparr>) = pending_ms s"
  "pending_ms (upd_sys f s) = pending_ms s"
  by (simp_all add: pending_ms_def upd_sys_def)

lemma clock_room_upd [simp]:
  "clock_room fx (s\<lparr>level := i\<rparr>) = clock_room fx s" "clock_room fx (s\<lparr>sys := x\<rparr>) = clock_room fx s"
  "clock_room fx (s\<lparr>inHandler := b\<rparr>) = clock_room fx s" "clock_room fx (s\<lparr>i_status := ms\<rparr>) = clock_room fx s"
  "clock_room fx (s\<lparr>pending := p\<rparr>) = clock_room fx s" "clock_room fx (upd_sys f s) = clock_room fx s"
  by (simp_all add: clock_room_def upd_sys_def)

lemma sys_upd_sys [simp]: "sys (upd_sys f s) = f (sys s)" "level (upd_sys f s) = level s"
  by (simp_all add: upd_sys_def)

lemma restart_loop_ms: "mset (items (restart_loop n es l)) = mset (map snd es) + mset (items l)"
  by (induction n es l rule: restart_loop.induct) (simp_all add: Let_def mset_items_SortedInsert)

lemma RestartTicks_keeps [simp]:
  "pending_ms (RestartTicks s) = pending_ms s" "sys (RestartTicks s) = sys s" "level (RestartTicks s) = level s"
  by (simp_all add: RestartTicks_def pending_ms_def restart_loop_ms) (simp add: items_def)

lemma Schedule_sys: "Schedule fx h d k s = Inr s' \<Longrightarrow> sys s' = sys s"
  by (auto simp add: Schedule_def Let_def res_simps split: if_splits)

lemma Schedule_device:
  assumes "clock_room fx s" and "0 < d \<and> d \<le> 32000"
  obtains s' where "Schedule fx h d k s = Inr s'" and "pending_ms s' = add_mset h (pending_ms s)" and "sys s' = sys s"
    and "clock_room fx s'" and "level s' = level s"
proof -
  have a: "0xFFFFFFFFFFFFFFFF - totalTicks (stats s) > d" if "\<not> fx"
    using assms that by (auto simp add: clock_room_def word_less_nat_alt word_le_nat_alt unat_sub_if')
  define s1 where "s1 = (if fx \<and> 0xFFFFFFFF - totalTicks (stats s) < d then RestartTicks s else s)"
  have s1: "pending_ms s1 = pending_ms s" "sys s1 = sys s" "level s1 = level s" "clock_room fx s1"
    using assms(1) by (simp_all add: s1_def clock_room_def)
  define w where "w = (ucast (totalTicks (stats s1) + d) :: u32)"
  have "Schedule fx h d k s = Inr (s1\<lparr>pending := List_SortedInsert (pending s1) \<lparr>handler = h, p_when = ucast w, p_type = k\<rparr> (sint w)\<rparr>)"
    unfolding w_def using assms(2) a by (auto simp add: Schedule_def Let_def PendingInterrupt_new_def s1_def)
  then show thesis by (rule that) (simp_all add: s1)
qed

text \<open>What a handler leaves alone: a device that schedules its next interrupt at most 200 ticks ahead, and updates of the driver's own state.\<close>

lemma Schedule_leaves:
  assumes "Schedule fx h d k s = Inr s'" and "pending_wf s" and "ticks_room s" and "0 < unat d" and "unat d \<le> 200"
  shows "pending_wf s' \<and> now s' = now s \<and> level s' = level s \<and> due s' = due s"
proof -
  obtain p where "s' = s\<lparr>pending := p\<rparr>" "pending_wf s'" "due s' = due s"
    using Schedule_ok [OF assms(3-5,2), of fx h k] assms(1) by auto
  then show ?thesis by simp
qed

lemma upd_sys_leaves [simp]:
  "pending_wf (upd_sys f s) = pending_wf s" "now (upd_sys f s) = now s" "due (upd_sys f s) = due s" "ticks_room (upd_sys f s) = ticks_room s"
  "pending_wf (upd_dev g x) = pending_wf x" "now (upd_dev g x) = now x" "due (upd_dev g x) = due x" "level (upd_dev g x) = level x"
  by (simp_all add: upd_dev_def upd_sys_def pending_wf_def now_def due_def ticks_room_def)

lemma count_leaves:
  "totalTicks st = totalTicks (stats s) \<Longrightarrow> pending_wf (s\<lparr>stats := st\<rparr>) = pending_wf s \<and> now (s\<lparr>stats := st\<rparr>) = now s \<and> due (s\<lparr>stats := st\<rparr>) = due s"
  by (simp add: pending_wf_def now_def due_def)

section \<open>Invariants of a driver\<close>

text \<open>An invariant of a driver speaks of the code left to run, the pending handlers and the state of
  the driver; it does not depend on the clock.\<close>

definition driver_inv ::
  "bool \<Rightarrow> ((nat \<Rightarrow> 'a list) \<Rightarrow> 'h multiset \<Rightarrow> 's \<Rightarrow> bool) \<Rightarrow> ('a, 's, 'h) driver \<Rightarrow> bool" where
  "driver_inv fx J c \<longleftrightarrow> J (todo c) (pending_ms (ist c)) (sys (ist c)) \<and> clock_room fx (ist c)"

lemma ucast32_room: "unat (ucast (w :: u32) :: u64) < 4294967296"
  using unat_less32 [of w] by (simp add: unsigned_ucast_eq take_bit_nat_eq_self)

text \<open>An interrupt check takes no interrupt and changes nothing that matters, or takes one pending
  handler off the list and runs it.\<close>

lemma CheckIfDue_cases:
  assumes "level s = INT_OFF" and "clock_room fx s"
  obtains (none) s' where "CheckIfDue run Inr adv s = Inr (False, s')" and "pending_ms s' = pending_ms s" and "sys s' = sys s" and "clock_room fx s'"
  | (fire) h s0 where "pending_ms s = add_mset h (pending_ms s0)" and "sys s0 = sys s" and "clock_room fx s0"
    and "CheckIfDue run Inr adv s = bindR (run h s0) (\<lambda>s'. Inr (True, s'\<lparr>i_status := i_status s, inHandler := False\<rparr>))"
proof (cases "elems (pending s)")
  case Nil
  then show thesis using assms by (intro none [of s]) (simp_all add: CheckIfDue_def elems_SortedPop)
next
  case (Cons e es)
  obtain k p where e: "e = (k, p)" by force
  define w where "w = (word_of_int k :: u32)"
  define l where "l = \<lparr>elems = es, nsize = nsize (pending s) - 1\<rparr>"
  have pop: "List_SortedPop (pending s) = (Some (k, p), l)" unfolding l_def e [symmetric] by (rule elems_SortedPop(1) [OF Cons])
  have ms: "pending_ms s = add_mset (handler p) (pending_ms (s\<lparr>pending := l\<rparr>))"
    using Cons e by (simp add: pending_ms_def items_def l_def)
  define st where "st = (if adv \<and> ucast w > totalTicks (stats s)
    then (stats s)\<lparr>idleTicks := idleTicks (stats s) + (ucast w - totalTicks (stats s)), totalTicks := ucast w\<rparr> else stats s)"
  define s1 where "s1 = s\<lparr>pending := l, stats := st\<rparr>"
  have room: "clock_room fx s1"
    using assms(2) ucast32_room [of w] by (auto simp add: clock_room_def s1_def st_def)
  have s1: "pending_ms s = add_mset (handler p) (pending_ms s1)" "sys s1 = sys s" "i_status s1 = i_status s"
    unfolding ms by (simp_all add: s1_def pending_ms_def)
  have again: "pending_ms (x\<lparr>pending := List_SortedInsert l p j\<rparr>) = pending_ms s" for x :: "('a, 'b) istate" and j
    unfolding ms by (simp add: pending_ms_def mset_items_SortedInsert)
  consider (early) "\<not> adv" "ucast w > totalTicks (stats s)"
    | (timer) "adv \<or> \<not> ucast w > totalTicks (stats s)" "i_status s = IDLE_MODE \<and> p_type p = TIMER_INT \<and> List_IsEmpty l"
    | (taken) "adv \<or> \<not> ucast w > totalTicks (stats s)" "\<not> (i_status s = IDLE_MODE \<and> p_type p = TIMER_INT \<and> List_IsEmpty l)"
    by blast
  then show thesis
  proof cases
    case early
    then have c: "CheckIfDue run Inr adv s = Inr (False, s\<lparr>pending := List_SortedInsert l p (sint w)\<rparr>)"
      using assms(1) pop by (simp add: CheckIfDue_def Let_def w_def)
    show thesis by (rule none [OF c]) (use again [where x = s] assms(2) in simp_all)
  next
    case timer
    then have c: "CheckIfDue run Inr adv s = Inr (False, s1\<lparr>pending := List_SortedInsert l p (sint w)\<rparr>)"
      using assms(1) pop by (auto simp add: CheckIfDue_def Let_def w_def s1_def st_def)
    show thesis by (rule none [OF c]) (use again [where x = s1] room s1 in simp_all)
  next
    case taken
    then have c: "CheckIfDue run Inr adv s = bindR (run (handler p) (s1\<lparr>inHandler := True, i_status := SYSTEM_MODE\<rparr>))
        (\<lambda>s'. Inr (True, s'\<lparr>i_status := i_status s, inHandler := False\<rparr>))"
      using assms(1) pop by (auto simp add: CheckIfDue_def Let_def w_def s1_def st_def)
    show thesis by (rule fire [OF _ _ _ c]) (use room s1 in simp_all)
  qed
qed

text \<open>
  The contract of a driver. Every handler runs to the end from the states the invariant describes,
  with its own entry taken off the pending list, and restores the invariant; so does every statement
  of the code that does not wait; and the outside world respects it.
\<close>

locale device_driver =
  fixes fx :: bool and run :: "'h \<Rightarrow> ('h, 's) act"
    and sem :: "'a \<Rightarrow> nat \<Rightarrow> ('h, 's) istate \<Rightarrow> ('h, 's) istate res option"
    and env :: "'s \<Rightarrow> 's \<Rightarrow> bool"
    and J :: "(nat \<Rightarrow> 'a list) \<Rightarrow> 'h multiset \<Rightarrow> 's \<Rightarrow> bool"
  assumes handler_ok: "J c (add_mset h (pending_ms s)) (sys s) \<Longrightarrow> clock_room fx s \<Longrightarrow>
      \<exists>s'. run h s = Inr s' \<and> J c (pending_ms s') (sys s') \<and> clock_room fx s'"
    and stmt_ok: "J c (pending_ms s) (sys s) \<Longrightarrow> clock_room fx s \<Longrightarrow> c t = a # as \<Longrightarrow>
      sem a t s = None \<or> (\<exists>s'. sem a t s = Some (Inr s') \<and> J (c(t := as)) (pending_ms s') (sys s') \<and> clock_room fx s')"
    and world_ok: "J c M x \<Longrightarrow> env x y \<Longrightarrow> J c M y"
begin

lemma check_ok:
  assumes "driver_inv fx J c"
  shows "\<exists>fired s. CheckIfDue run Inr adv ((ist c)\<lparr>level := INT_OFF\<rparr>) = Inr (fired, s) \<and>
     driver_inv fx J \<lparr>todo = todo c, ist = s\<lparr>level := INT_ON\<rparr>\<rparr>"
proof -
  let ?s = "(ist c)\<lparr>level := INT_OFF\<rparr>"
  have j: "J (todo c) (pending_ms ?s) (sys ?s)" "clock_room fx ?s" using assms by (simp_all add: driver_inv_def)
  have l: "level ?s = INT_OFF" by simp
  show ?thesis
  proof (rule CheckIfDue_cases [OF l j(2), of run adv])
    fix s'
    assume "CheckIfDue run Inr adv ?s = Inr (False, s')" "pending_ms s' = pending_ms ?s" "sys s' = sys ?s" "clock_room fx s'"
    then show ?thesis using j by (intro exI [of _ False] exI [of _ s']) (simp add: driver_inv_def)
  next
    fix h s0
    assume fire: "pending_ms ?s = add_mset h (pending_ms s0)" "sys s0 = sys ?s" "clock_room fx s0"
      "CheckIfDue run Inr adv ?s = bindR (run h s0) (\<lambda>s'. Inr (True, s'\<lparr>i_status := i_status ?s, inHandler := False\<rparr>))"
    from handler_ok [of "todo c" h s0] fire(1-3) j obtain s' where
      s': "run h s0 = Inr s'" "J (todo c) (pending_ms s') (sys s')" "clock_room fx s'" by auto
    then show ?thesis using fire(4) by (intro exI [of _ True] exI [of _ "s'\<lparr>i_status := i_status ?s, inHandler := False\<rparr>"]) (simp add: driver_inv_def)
  qed
qed

lemma driver_inv_step:
  assumes "driver_step fx run sem env c c'" and "driver_inv fx J c"
  shows "driver_inv fx J c'"
  using assms(1)
proof cases
  case (stmt t a as s)
  with stmt_ok [of "todo c" "ist c" t a as] assms(2) show ?thesis by (auto simp add: driver_inv_def)
next
  case (interrupt adv fired s)
  with check_ok [OF assms(2), of adv] show ?thesis by auto
next
  case (clock n)
  with assms(2) show ?thesis by (simp add: driver_inv_def)
next
  case (world x)
  with world_ok [of "todo c" _ "sys (ist c)" x] assms(2) show ?thesis by (simp add: driver_inv_def)
qed

text \<open>The handlers of a driver keep the contract of the interrupt controller when, besides, they leave the clock and the level alone and
  schedule nothing that is due.\<close>

lemma driver_handlers_ok:
  assumes "\<And>h s s'. pending_wf s \<Longrightarrow> ticks_room s \<Longrightarrow> run h s = Inr s' \<Longrightarrow> pending_wf s' \<and> now s' = now s \<and> level s' = level s \<and> due s' = due s"
  shows "handlers_ok run Inr (\<lambda>s. pending_wf s \<and> ticks_room s \<and> clock_room fx s \<and> J c (pending_ms s) (sys s))"
  unfolding handlers_ok_def
proof (intro conjI allI impI; (elim conjE)?)
  fix s k p ds
  assume s: "level s = INT_OFF" "due s = (k, p) # ds" "pending_wf s" "ticks_room s" "clock_room fx s" "J c (pending_ms s) (sys s)"
  obtain es where es: "elems (pending s) = (k, p) # es" "snd (List_SortedPop (pending s)) = \<lparr>elems = es, nsize = nsize (pending s) - 1\<rparr>"
    "pending_wf (s\<lparr>pending := \<lparr>elems = es, nsize = nsize (pending s) - 1\<rparr>\<rparr>)" "due (s\<lparr>pending := \<lparr>elems = es, nsize = nsize (pending s) - 1\<rparr>\<rparr>) = ds"
    by (rule pop_due [OF s(3,2)])
  let ?s0 = "s\<lparr>pending := \<lparr>elems = es, nsize = nsize (pending s) - 1\<rparr>, inHandler := True, i_status := SYSTEM_MODE\<rparr>"
  have s0: "pending_wf ?s0" "ticks_room ?s0" "clock_room fx ?s0" "sys ?s0 = sys s" "level ?s0 = INT_OFF" "now ?s0 = now s" "due ?s0 = ds"
    "pending_ms s = add_mset (handler p) (pending_ms ?s0)"
    using s es by (simp_all add: ticks_room_def) (simp add: pending_ms_def items_def es(1))
  from handler_ok [of c "handler p" ?s0] s(6) s0(3,4,8) obtain s1 where
    s1: "run (handler p) ?s0 = Inr s1" "J c (pending_ms s1) (sys s1)" "clock_room fx s1" by auto
  note q = assms [OF s0(1,2) s1(1)]
  let ?s2 = "s1\<lparr>i_status := i_status s, inHandler := False\<rparr>"
  have "fire run Inr p s = Inr ?s2" using s1(1) es(2) by (simp add: fire_def)
  moreover have "pending_wf ?s2" "ticks_room ?s2" "clock_room fx ?s2" "J c (pending_ms ?s2) (sys ?s2)" "level ?s2 = INT_OFF" "now ?s2 = now s" "due ?s2 = ds"
    using q s0 s1 s(4) by (simp_all add: ticks_room_def)
  ultimately show "\<exists>s'. fire run Inr p s = Inr s' \<and> (pending_wf s' \<and> ticks_room s' \<and> clock_room fx s' \<and> J c (pending_ms s') (sys s')) \<and>
      level s' = INT_OFF \<and> now s' = now s \<and> due s' = ds" by blast
qed simp

lemma driver_inv_safe: "driver_inv fx J c \<Longrightarrow> driver_safe run sem c"
  using check_ok [of c] stmt_ok [of "todo c" "ist c"] unfolding driver_safe_def driver_inv_def
  by (metis (no_types, lifting) Inl_Inr_False option.distinct(1) option.inject)

end

sublocale device_driver \<subseteq> runs: step_invariant "driver_step fx run sem env" "driver_inv fx J"
  by unfold_locales (rule driver_inv_step)

section \<open>Stages of threads\<close>

text \<open>\<open>S t\<close> is the stage thread \<open>t\<close> has reached in its code. A lock is held exactly by the thread whose
  stage lies between its \<open>Acquire\<close> and its \<open>Release\<close>; \<open>held q S\<close> says that some thread is at \<open>q\<close>;
  \<open>after p q\<close> is the stage of a statement that leads from \<open>p\<close> to \<open>q\<close>, before code at stage \<open>q\<close>.\<close>

definition after :: "'q \<Rightarrow> 'q \<Rightarrow> 'q option \<Rightarrow> 'q option" where
  "after p q r = (if r = Some q then Some p else None)"

definition lock_at :: "(nat \<Rightarrow> 'q option) \<Rightarrow> nat option \<Rightarrow> 'q set \<Rightarrow> bool" where
  "lock_at S h Q \<longleftrightarrow> (\<forall>t. h = Some t \<longleftrightarrow> (\<exists>q\<in>Q. S t = Some q))"

definition held :: "'q \<Rightarrow> (nat \<Rightarrow> 'q option) \<Rightarrow> bool" where
  "held q S \<longleftrightarrow> (\<exists>t. S t = Some q)"

lemma lock_at_upd:
  "lock_at S h Q \<Longrightarrow> S t = Some p \<Longrightarrow> p \<in> Q \<longleftrightarrow> q \<in> Q \<Longrightarrow> lock_at (S(t := Some q)) h Q"
  "lock_at S None Q \<Longrightarrow> q \<in> Q \<Longrightarrow> lock_at (S(t := Some q)) (Some t) Q"
  "lock_at S (Some t) Q \<Longrightarrow> q \<notin> Q \<Longrightarrow> lock_at (S(t := Some q)) None Q"
  by (auto simp add: lock_at_def)

lemma lock_at_holder: "lock_at S h Q \<Longrightarrow> S t = Some q \<Longrightarrow> q \<in> Q \<Longrightarrow> h = Some t"
  by (auto simp add: lock_at_def)

lemma lock_at_unique: "lock_at S h Q \<Longrightarrow> S t = Some p \<Longrightarrow> S u = Some q \<Longrightarrow> p \<in> Q \<Longrightarrow> q \<in> Q \<Longrightarrow> u = t"
  using lock_at_holder [of S h Q t p] lock_at_holder [of S h Q u q] by simp

lemma held_upd:
  "held q (S(t := Some q))" "S t = Some p \<Longrightarrow> p \<noteq> q \<Longrightarrow> r \<noteq> q \<Longrightarrow> held q (S(t := Some r)) = held q S"
  by (auto simp add: held_def) (metis option.inject)

lemma held_one:
  assumes "lock_at S h Q" and "S t = Some p" and "p \<in> Q" and "q \<in> Q"
  shows "held q S \<longleftrightarrow> p = q" and "r \<noteq> q \<Longrightarrow> \<not> held q (S(t := Some r))"
proof -
  have u: "S v = Some q \<Longrightarrow> v = t" for v using lock_at_unique [OF assms(1,2) _ assms(3,4)] .
  with assms(2) show "held q S \<longleftrightarrow> p = q" unfolding held_def by (metis option.inject)
  show "r \<noteq> q \<Longrightarrow> \<not> held q (S(t := Some r))" using u by (auto simp add: held_def)
qed

end
