(* ===== verification/Filesys_SynchDisk.thy ===== *)
theory Filesys_SynchDisk
  imports Machine_Disk Machine_Driver
begin

text \<open>
  The synchronous disk, \<open>filesys/synch_disk.cc\<close>, on the disk device of \<open>Machine_Disk\<close>, the interrupt
  controller and the driver machine of \<open>Machine_Driver\<close>.

  The file system is verified over \<open>ReadSector\<close> and \<open>WriteSector\<close> as single operations. Here they are the code they are: take
  the lock, start the device, wait for the interrupt, give the lock back, by any number of threads at a
  time. The theorems show that the single operations are what every run amounts to.
\<close>

section \<open>The device and the code\<close>

datatype disk_handler = DiskDone

text \<open>A call and its result: what a read returned, what a write wrote.\<close>

datatype dk_call = ReadCall u32 | WriteCall u32 "u8 list"
datatype dk_event = Read u32 "u8 list" | Wrote u32 "u8 list"

text \<open>The device, the buffer \<open>data\<close> that each thread has passed to its call, and the history of the requests that the device has
  accepted, in their order.\<close>

record dk_dev =
  dk_disk :: disk
  bufs :: "nat \<Rightarrow> u8 list"
  started :: "(nat \<times> dk_event) list"

type_synonym dk_state = "(disk_handler, dk_dev, dk_event) dstate"
type_synonym dk_act = "dk_state \<Rightarrow> dk_state res"

definition diskSem :: nat where "diskSem = 0"
definition diskLock :: nat where "diskLock = 0"

definition upd_disk :: "disk \<Rightarrow> dk_state \<Rightarrow> dk_state" where
  "upd_disk d = upd_dev (\<lambda>x. x\<lparr>dk_disk := d\<rparr>)"

text \<open>The requests of the device as the kernel calls them: the clock is the one of the statistics, and the interrupt
  goes to the controller.\<close>

definition Disk_ReadRequest :: "bool \<Rightarrow> u32 \<Rightarrow> dk_state \<Rightarrow> (u8 list \<times> dk_state) res" where
  "Disk_ReadRequest fx sectorNumber s =
     bindR (ReadRequest True ((dk_disk (dev (sys s)))\<lparr>d_clock := totalTicks (stats s)\<rparr>) sectorNumber) (\<lambda>(data, ticks, d).
     bindR (Schedule fx DiskDone (scast ticks) DISK_INT (upd_disk d s)) (\<lambda>s. Inr (data, s)))"

definition Disk_WriteRequest :: "bool \<Rightarrow> u32 \<Rightarrow> u8 list \<Rightarrow> dk_act" where
  "Disk_WriteRequest fx sectorNumber data s =
     bindR (WriteRequest True ((dk_disk (dev (sys s)))\<lparr>d_clock := totalTicks (stats s)\<rparr>) sectorNumber data) (\<lambda>(ticks, d).
     Schedule fx DiskDone (scast ticks) DISK_INT (upd_disk d s))"

definition RequestDone :: dk_act where "RequestDone = sem_V diskSem"

definition HandleInterrupt :: "dk_act \<Rightarrow> dk_act" where
  "HandleInterrupt callWhenDone s = callWhenDone (upd_dev (\<lambda>x. x\<lparr>dk_disk := (dk_disk x)\<lparr>active := False\<rparr>\<rparr>) s)"

fun dk_run :: "disk_handler \<Rightarrow> dk_act" where
  "dk_run DiskDone = HandleInterrupt RequestDone"

text \<open>The operations on the device, and the return of a call to the thread that made it, which is logged in \<open>returned\<close>: a read
  gives what is in the caller's buffer at that moment.\<close>

datatype dk_op = DevRead u32 | DevWrite u32 "u8 list" | Return dk_call

fun result :: "dk_call \<Rightarrow> u8 list \<Rightarrow> dk_event" where
  "result (ReadCall n) data = Read n data"
| "result (WriteCall n bs) data = Wrote n bs"

fun dk_exec :: "bool \<Rightarrow> dk_op \<Rightarrow> nat \<Rightarrow> dk_state \<Rightarrow> dk_state res option" where
  "dk_exec fx (DevRead n) t s = Some (bindR (Disk_ReadRequest fx n s) (\<lambda>(data, s).
     Inr (upd_dev (\<lambda>x. x\<lparr>bufs := (bufs x)(t := data), started := started x @ [(t, Read n data)]\<rparr>) s)))"
| "dk_exec fx (DevWrite n data) t s = Some (bindR (Disk_WriteRequest fx n data s) (\<lambda>s.
     Inr (upd_dev (\<lambda>x. x\<lparr>started := started x @ [(t, Wrote n data)]\<rparr>) s)))"
| "dk_exec fx (Return k) t s = Some (Inr (upd_sys (\<lambda>x. x\<lparr>returned := returned x @ [(t, result k (bufs (dev x) t))]\<rparr>) s))"

definition SynchDisk_ReadSector :: "u32 \<Rightarrow> dk_op stmt list" where
  "SynchDisk_ReadSector n = [Acquire diskLock, Do (DevRead n), P diskSem, Release diskLock, Do (Return (ReadCall n))]"

definition SynchDisk_WriteSector :: "u32 \<Rightarrow> u8 list \<Rightarrow> dk_op stmt list" where
  "SynchDisk_WriteSector n data = [Acquire diskLock, Do (DevWrite n data), P diskSem, Release diskLock, Do (Return (WriteCall n data))]"

definition dk_init :: "disk \<Rightarrow> dk_state" where
  "dk_init junk = (Interrupt_new Statistics_new
     \<lparr>owner = (\<lambda>_. None), val = (\<lambda>_. 0), dev = \<lparr>dk_disk = junk, bufs = (\<lambda>_. []), started = []\<rparr>, returned = []\<rparr>)\<lparr>level := INT_ON\<rparr>"

definition SynchDisk_new :: "bool \<Rightarrow> u8 list option \<Rightarrow> dk_act" where
  "SynchDisk_new be file s =
     (let s = upd_sys (\<lambda>x. x\<lparr>val := (val x)(diskSem := 0), owner := (owner x)(diskLock := None)\<rparr>) s in
      bindR (Disk_new be file (totalTicks (stats s))) (\<lambda>d. Inr (upd_disk d s)))"

type_synonym dk_driver = "(dk_op stmt, (dk_dev, dk_event) sync, disk_handler) driver"

text \<open>Nothing outside the machine touches the disk.\<close>

definition dk_step :: "bool \<Rightarrow> dk_driver \<Rightarrow> dk_driver \<Rightarrow> bool" where
  "dk_step fx = driver_step fx dk_run (exec_stmt (dk_exec fx)) (\<lambda>_ _. False)"

section \<open>The specification\<close>

text \<open>A sequence of calls with their results is explained by a disk when the single operations give these results
  one after the other; \<open>replay\<close> is the disk at the end.\<close>

fun replay :: "disk \<Rightarrow> dk_event list \<Rightarrow> disk option" where
  "replay d [] = Some d"
| "replay d (Read n data # es) = (case ReadSector d n of Inr (data', d') \<Rightarrow> if data' = data then replay d' es else None | Inl _ \<Rightarrow> None)"
| "replay d (Wrote n data # es) = (case WriteSector d n data of Inr d' \<Rightarrow> replay d' es | Inl _ \<Rightarrow> None)"

fun call_of :: "dk_event \<Rightarrow> dk_call" where
  "call_of (Read n data) = ReadCall n"
| "call_of (Wrote n data) = WriteCall n data"

text \<open>What the kernel passes: a sector of the disk, and a buffer of one sector.\<close>

fun call_ok :: "dk_call \<Rightarrow> bool" where
  "call_ok (ReadCall n) \<longleftrightarrow> unat n < NUM_SECTORS"
| "call_ok (WriteCall n data) \<longleftrightarrow> unat n < NUM_SECTORS \<and> length data = SECTOR_SIZE"

fun dk_code :: "dk_call list \<Rightarrow> dk_op stmt list" where
  "dk_code [] = []"
| "dk_code (ReadCall n # cs) = SynchDisk_ReadSector n @ dk_code cs"
| "dk_code (WriteCall n data # cs) = SynchDisk_WriteSector n data @ dk_code cs"

text \<open>The start of a run: a synchronous disk on a fresh file or on one of the right size, and threads that call its two
  operations.\<close>

definition dk_start :: "bool \<Rightarrow> u8 list option \<Rightarrow> (nat \<Rightarrow> dk_call list) \<Rightarrow> dk_driver \<Rightarrow> bool" where
  "dk_start be file calls c \<longleftrightarrow> (\<exists>junk. SynchDisk_new be file (dk_init junk) = Inr (ist c)) \<and> pred_option (\<lambda>im. length im = DISK_SIZE) file \<and>
     todo c = dk_code \<circ> calls \<and> (\<forall>t. list_all call_ok (calls t))"

text \<open>The calls whose device request a thread's code still contains.\<close>

fun reqs :: "dk_op stmt list \<Rightarrow> dk_call list" where
  "reqs [] = []"
| "reqs (Do (DevRead n) # as) = ReadCall n # reqs as"
| "reqs (Do (DevWrite n data) # as) = WriteCall n data # reqs as"
| "reqs (_ # as) = reqs as"

definition of_thread :: "nat \<Rightarrow> (nat \<times> dk_event) list \<Rightarrow> (nat \<times> dk_event) list" where
  "of_thread t = filter (\<lambda>e. fst e = t)"

text \<open>A sequence \<open>lin\<close> of calls linearises what has happened: the single operations, executed in its order from the disk \<open>d0\<close>, give
  its results and the sectors that the device has now; it has the calls of every thread in the thread's own order; it
  contains what has been returned to every thread, and at most one call of it more, that one still in progress; and while the
  device works, the last call of the sequence is the one it works for, which has not returned.\<close>

definition linearised :: "disk \<Rightarrow> (nat \<Rightarrow> dk_call list) \<Rightarrow> dk_driver \<Rightarrow> (nat \<times> dk_event) list \<Rightarrow> bool" where
  "linearised d0 calls c lin \<longleftrightarrow>
     (\<exists>d. replay d0 (map snd lin) = Some d \<and> (\<forall>i<NUM_SECTORS. sector d i = sector (dk_disk (dev (sys (ist c)))) i)) \<and>
     (\<forall>t. map (call_of \<circ> snd) (of_thread t lin) @ reqs (todo c t) = calls t) \<and>
     (\<forall>t. \<exists>es. of_thread t lin = of_thread t (returned (sys (ist c))) @ es \<and> length es \<le> 1) \<and>
     (active (dk_disk (dev (sys (ist c)))) \<or> DiskDone \<in># pending_ms (ist c) \<longrightarrow>
       (\<exists>xs t e. lin = xs @ [(t, e)] \<and> length (of_thread t (returned (sys (ist c)))) < length (of_thread t lin)))"

section \<open>The invariant\<close>

datatype dk_stage = DFree | DHeld | DBusy | DDone | DBack

text \<open>The call that a device operation belongs to, and the call in progress that the code has still to return from.\<close>

fun req :: "dk_op \<Rightarrow> dk_call" where
  "req (DevRead n) = ReadCall n"
| "req (DevWrite n data) = WriteCall n data"
| "req (Return k) = k"

fun owed :: "dk_op stmt list \<Rightarrow> dk_call option" where
  "owed [] = None"
| "owed (Do (Return k) # as) = Some k"
| "owed (Do (DevRead n) # as) = None"
| "owed (Do (DevWrite n data) # as) = None"
| "owed (_ # as) = owed as"

fun dk_stage_of :: "dk_op stmt list \<Rightarrow> dk_stage option" where
  "dk_stage_of [] = Some DFree"
| "dk_stage_of (Acquire l # as) = (if l = diskLock then after DFree DHeld (dk_stage_of as) else None)"
| "dk_stage_of (Do (Return k) # as) = after DBack DFree (dk_stage_of as)"
| "dk_stage_of (Do a # as) = (if call_ok (req a) \<and> owed as = Some (req a) then after DHeld DBusy (dk_stage_of as) else None)"
| "dk_stage_of (P i # as) = (if i = diskSem then after DBusy DDone (dk_stage_of as) else None)"
| "dk_stage_of (Release l # as) = (if l = diskLock then after DDone DBack (dk_stage_of as) else None)"

abbreviation "using_disk \<equiv> {DHeld, DBusy, DDone}"

definition dk_core :: "(nat \<Rightarrow> dk_stage option) \<Rightarrow> disk_handler multiset \<Rightarrow> (dk_dev, dk_event) sync \<Rightarrow> bool" where
  "dk_core S M x \<longleftrightarrow> (\<forall>t. S t \<noteq> None) \<and> lock_at S (owner x diskLock) using_disk \<and>
     val x diskSem + size M = of_bool (held DBusy S) \<and> (active (dk_disk (dev x)) \<longleftrightarrow> M \<noteq> {#})"

definition dk_store :: "disk \<Rightarrow> (nat \<times> dk_event) list \<Rightarrow> dk_dev \<Rightarrow> bool" where
  "dk_store d0 pre x \<longleftrightarrow> disk_ok ((dk_disk x)\<lparr>active := False\<rparr>) \<and> (\<exists>new. started x = pre @ new) \<and>
     (\<exists>d. replay d0 (map snd (started x)) = Some d \<and> disk_ok d \<and> (\<forall>i<NUM_SECTORS. sector d i = sector (dk_disk x) i))"

definition owed_by :: "nat \<Rightarrow> dk_op stmt list \<Rightarrow> dk_dev \<Rightarrow> (nat \<times> dk_event) list" where
  "owed_by t as x = (case owed as of None \<Rightarrow> [] | Some k \<Rightarrow> [(t, result k (bufs x t))])"

definition dk_hist :: "(nat \<Rightarrow> dk_call list) \<Rightarrow> (nat \<Rightarrow> dk_op stmt list) \<Rightarrow> (dk_dev, dk_event) sync \<Rightarrow> bool" where
  "dk_hist all c x \<longleftrightarrow>
     (\<forall>t. map (call_of \<circ> snd) (of_thread t (started (dev x))) @ reqs (c t) = all t) \<and>
     (\<forall>t. of_thread t (started (dev x)) = of_thread t (returned x) @ owed_by t (c t) (dev x)) \<and>
     (\<forall>t. dk_stage_of (c t) = Some DBusy \<longrightarrow> started (dev x) \<noteq> [] \<and> fst (last (started (dev x))) = t)"

definition dk_inv :: "disk \<Rightarrow> (nat \<times> dk_event) list \<Rightarrow> (nat \<Rightarrow> dk_call list) \<Rightarrow> (nat \<Rightarrow> dk_op stmt list) \<Rightarrow> disk_handler multiset \<Rightarrow>
    (dk_dev, dk_event) sync \<Rightarrow> bool" where
  "dk_inv d0 pre all c M x \<longleftrightarrow> dk_core (dk_stage_of \<circ> c) M x \<and> dk_store d0 pre (dev x) \<and> dk_hist all c x"

lemmas dk_nums = diskSem_def diskLock_def

lemma of_thread_simps [simp]:
  "of_thread t [] = []" "of_thread t (xs @ ys) = of_thread t xs @ of_thread t ys"
  "of_thread t [(u, e)] = (if u = t then [(u, e)] else [])"
  by (simp_all add: of_thread_def)

subsection \<open>Requests\<close>

lemma replay_append: "replay d (es @ fs) = (case replay d es of None \<Rightarrow> None | Some d' \<Rightarrow> replay d' fs)"
  by (induction d es rule: replay.induct) (simp_all split: sum.splits prod.splits)

lemma ticks_ok:
  assumes "disk_ok d" and "unat n < NUM_SECTORS"
  shows "0 < (scast (ComputeLatency True (d\<lparr>d_clock := k\<rparr>) n w) :: u64) \<and> (scast (ComputeLatency True (d\<lparr>d_clock := k\<rparr>) n w) :: u64) \<le> 32000"
proof -
  let ?l = "ComputeLatency True (d\<lparr>d_clock := k\<rparr>) n w"
  have b: "500 \<le> unat ?l" "unat ?l \<le> 32000"
    using ComputeLatency_bounds [of "d\<lparr>d_clock := k\<rparr>" n True w] assms(1,2) by (simp_all add: disk_ok_def NUM_SECTORS_def)
  then have "(scast ?l :: u64) = ucast ?l" by (intro scast_small) simp
  with b show ?thesis by (simp add: word_less_nat_alt word_le_nat_alt)
qed

lemma sector_image: "sector d i = slice (SECTOR_SIZE * i + MAGIC_SIZE) SECTOR_SIZE (image d)"
  by (simp add: sector_def)

lemma ReadRequest_ok:
  assumes "disk_ok d" and "unat n < NUM_SECTORS"
  obtains ticks d' where "ReadRequest True (d\<lparr>d_clock := k\<rparr>) n = Inr (sector d (unat n), ticks, d')"
    and "0 < (scast ticks :: u64) \<and> (scast ticks :: u64) \<le> 32000" and "disk_ok (d'\<lparr>active := False\<rparr>)" and "active d'" and "sector d' = sector d"
proof -
  have l: "SECTOR_SIZE * unat n + MAGIC_SIZE + SECTOR_SIZE \<le> length (image d)" using assms by (simp add: disk_ok_def disk_sizes)
  show thesis
    by (rule that [OF _ ticks_ok [OF assms, of k False]])
      (use assms l in \<open>auto simp add: ReadRequest_def Let_def disk_ok_def sector_image fun_eq_iff\<close>)
qed

lemma WriteRequest_ok:
  assumes "disk_ok d" and "unat n < NUM_SECTORS" and "length data = SECTOR_SIZE"
  obtains ticks d' where "WriteRequest True (d\<lparr>d_clock := k\<rparr>) n data = Inr (ticks, d')"
    and "0 < (scast ticks :: u64) \<and> (scast ticks :: u64) \<le> 32000" and "disk_ok (d'\<lparr>active := False\<rparr>)" and "active d'"
    and "\<forall>i<NUM_SECTORS. sector d' i = (if i = unat n then data else sector d i)"
proof -
  let ?d = "d\<lparr>d_clock := k\<rparr>"
  have ok: "disk_ok ?d" using assms(1) by (simp add: disk_ok_def)
  from WriteSector_ok [OF ok assms(2,3)] obtain d1 where d1: "WriteSector ?d n data = Inr d1" "disk_ok d1"
    "\<forall>i<NUM_SECTORS. sector d1 i = (if i = unat n then data else sector ?d i)" by blast
  then obtain ticks d' where w: "WriteRequest True ?d n data = Inr (ticks, d')" "d1 = Disk_HandleInterrupt ticks d'"
    unfolding WriteSector_def by (auto simp add: res_simps)
  have t: "ticks = ComputeLatency True ?d n True" "active d'" using w(1) by (auto simp add: WriteRequest_def Let_def res_simps split: if_splits)
  show thesis
    by (rule that [OF w(1) _ _ t(2)])
      (use d1 w(2) ticks_ok [OF assms(1,2), of k True] t(1) in \<open>auto simp add: Disk_HandleInterrupt_def disk_ok_def sector_image\<close>)
qed

subsection \<open>Each statement\<close>

lemma dk_core_upd:
  assumes "dk_core S M x" and "S t = Some DFree"
  shows "owner x diskLock \<noteq> Some t"
    and "owner x diskLock = None \<Longrightarrow> dk_core (S(t := Some DHeld)) M (x\<lparr>owner := (owner x)(diskLock := Some t)\<rparr>)"
  using assms unfolding dk_core_def
  by (auto simp add: held_upd(2) [of S t DFree] lock_at_upd(2) lock_at_def)

lemma dk_core_lock: "dk_core S M x \<Longrightarrow> lock_at S (owner x diskLock) using_disk"
  by (simp add: dk_core_def)

lemma dk_core_release:
  assumes "dk_core S M x" and "S t = Some DDone"
  shows "owner x diskLock = Some t" and "dk_core (S(t := Some DBack)) M (x\<lparr>owner := (owner x)(diskLock := None)\<rparr>)"
proof -
  show o: "owner x diskLock = Some t" using lock_at_holder [OF dk_core_lock [OF assms(1)] assms(2)] by simp
  show "dk_core (S(t := Some DBack)) M (x\<lparr>owner := (owner x)(diskLock := None)\<rparr>)"
    using assms o unfolding dk_core_def by (simp add: held_upd(2) [of S t DDone] lock_at_upd(3))
qed

lemma dk_core_return:
  "dk_core S M x \<Longrightarrow> S t = Some DBack \<Longrightarrow> dk_core (S(t := Some DFree)) M (x\<lparr>returned := r\<rparr>)"
  unfolding dk_core_def by (simp add: held_upd(2) [of S t DBack] lock_at_upd(1) [of S _ _ t DBack])

lemma dk_core_wait:
  assumes "dk_core S M x" and "S t = Some DBusy" and "0 < val x diskSem"
  shows "dk_core (S(t := Some DDone)) M (x\<lparr>val := (val x)(diskSem := val x diskSem - 1)\<rparr>)"
proof -
  have "held DBusy S" "\<not> held DBusy (S(t := Some DDone))" using held_one [OF dk_core_lock [OF assms(1)] assms(2), of DBusy] by simp_all
  moreover from this assms have "M = {#}" unfolding dk_core_def by (cases M) auto
  ultimately show ?thesis using assms unfolding dk_core_def by (simp add: lock_at_upd(1) [of S _ _ t DBusy])
qed

lemma dk_core_request:
  assumes "dk_core S M x" and "S t = Some DHeld"
  shows "\<not> active (dk_disk (dev x))" and "\<not> held DBusy S"
    and "active (dk_disk d) \<Longrightarrow> dk_core (S(t := Some DBusy)) (add_mset DiskDone M) (x\<lparr>dev := d\<rparr>)"
proof -
  show n: "\<not> held DBusy S" using held_one(1) [OF dk_core_lock [OF assms(1)] assms(2)] by simp
  then have m: "M = {#}" "val x diskSem = 0" using assms(1) unfolding dk_core_def by simp_all
  then show "\<not> active (dk_disk (dev x))" using assms(1) unfolding dk_core_def by simp
  show "active (dk_disk d) \<Longrightarrow> dk_core (S(t := Some DBusy)) (add_mset DiskDone M) (x\<lparr>dev := d\<rparr>)"
    using assms m unfolding dk_core_def by (simp add: held_upd(1) lock_at_upd(1) [of S _ _ t DHeld])
qed

lemma dk_core_done:
  "dk_core S (add_mset h M) x \<Longrightarrow> M = {#} \<and>
     dk_core S M (x\<lparr>dev := (dev x)\<lparr>dk_disk := (dk_disk (dev x))\<lparr>active := False\<rparr>\<rparr>, val := (val x)(diskSem := val x diskSem + 1)\<rparr>)"
  unfolding dk_core_def by (auto simp add: of_bool_def split: if_splits)

lemma dk_store_event:
  assumes "dk_store d0 pre x" and "disk_ok (d\<lparr>active := False\<rparr>)"
    and "\<And>d1. disk_ok d1 \<Longrightarrow> \<forall>i<NUM_SECTORS. sector d1 i = sector (dk_disk x) i \<Longrightarrow>
       \<exists>d2. replay d1 [e] = Some d2 \<and> disk_ok d2 \<and> (\<forall>i<NUM_SECTORS. sector d2 i = sector d i)"
  shows "dk_store d0 pre (x\<lparr>dk_disk := d, bufs := b, started := started x @ [(t, e)]\<rparr>)"
proof -
  obtain d1 where "replay d0 (map snd (started x)) = Some d1" "disk_ok d1" "\<forall>i<NUM_SECTORS. sector d1 i = sector (dk_disk x) i"
    using assms(1) by (auto simp add: dk_store_def)
  with assms(3) [of d1] assms(1,2) show ?thesis by (auto simp add: dk_store_def replay_append)
qed

text \<open>The history after a statement that neither starts nor ends a call, after a request, and after a return.\<close>

lemma dk_hist_silent:
  assumes "dk_hist all c x" and "c t = a # as" and "reqs (a # as) = reqs as" and "owed (a # as) = owed as"
    and "dk_stage_of as \<noteq> Some DBusy"
  shows "dk_hist all (c(t := as)) x"
  using assms by (auto simp add: dk_hist_def owed_by_def dest: spec [of _ t])

lemma dk_hist_upd [simp]:
  "dk_hist all c (x\<lparr>owner := h\<rparr>) = dk_hist all c x" "dk_hist all c (x\<lparr>val := v\<rparr>) = dk_hist all c x"
  "dk_hist all c (x\<lparr>dev := (dev x)\<lparr>dk_disk := d\<rparr>\<rparr>) = dk_hist all c x"
  by (simp_all add: dk_hist_def owed_by_def cong: option.case_cong)

lemma dk_hist_request:
  assumes "dk_hist all c x" and "c t = Do a # as" and "owed (c t) = None" and "reqs (c t) = req a # reqs as" and "owed as = Some (req a)"
    and "\<And>u. dk_stage_of (c u) \<noteq> Some DBusy"
  shows "dk_hist all (c(t := as)) (x\<lparr>dev := (dev x)\<lparr>dk_disk := d, bufs := (bufs (dev x))(t := data),
    started := started (dev x) @ [(t, result (req a) data)]\<rparr>\<rparr>)"
proof -
  have "call_of (result k data) = k" for k by (cases k) simp_all
  moreover have "owed_by u (c u) ((dev x)\<lparr>dk_disk := d, bufs := (bufs (dev x))(t := data), started := l\<rparr>) = owed_by u (c u) (dev x)"
    if "u \<noteq> t" for u l using that by (simp add: owed_by_def split: option.splits)
  ultimately show ?thesis using assms unfolding dk_hist_def
    by (auto simp add: owed_by_def dest: spec [of _ t])
qed

lemma dk_hist_return:
  assumes "dk_hist all c x" and "c t = Do (Return k) # as" and "owed as = None" and "dk_stage_of as \<noteq> Some DBusy"
  shows "dk_hist all (c(t := as)) (x\<lparr>returned := returned x @ [(t, result k (bufs (dev x) t))]\<rparr>)"
  using assms by (auto simp add: dk_hist_def owed_by_def dest: spec [of _ t])

lemma dk_inv_upd:
  assumes "dk_stage_of as = Some q" and "dk_core ((dk_stage_of \<circ> c)(t := Some q)) M x" and "dk_store d0 pre (dev x)"
    and "dk_hist all (c(t := as)) x"
  shows "dk_inv d0 pre all (c(t := as)) M x"
  using assms by (simp add: dk_inv_def fun_upd_comp)

lemma stage_owed:
  "dk_stage_of as = Some DFree \<Longrightarrow> owed as = None" "dk_stage_of as = Some DBack \<Longrightarrow> owed as \<noteq> None"
  "dk_stage_of as = Some DDone \<Longrightarrow> owed as \<noteq> None" "dk_stage_of as = Some DBusy \<Longrightarrow> owed as \<noteq> None"
proof -
  have h: "dk_stage_of as = Some DHeld \<Longrightarrow> owed as = None" for as
    by (cases as rule: dk_stage_of.cases) (auto simp add: after_def split: if_splits)
  then show "dk_stage_of as = Some DFree \<Longrightarrow> owed as = None" for as
    by (cases as rule: dk_stage_of.cases) (auto simp add: after_def split: if_splits)
  have b: "dk_stage_of as = Some DBack \<Longrightarrow> owed as \<noteq> None" for as
    by (cases as rule: dk_stage_of.cases) (auto simp add: after_def split: if_splits)
  then show "dk_stage_of as = Some DBack \<Longrightarrow> owed as \<noteq> None" for as .
  have d: "dk_stage_of as = Some DDone \<Longrightarrow> owed as \<noteq> None" for as
    by (cases as rule: dk_stage_of.cases) (auto simp add: after_def b split: if_splits dest: b)
  then show "dk_stage_of as = Some DDone \<Longrightarrow> owed as \<noteq> None" for as .
  show "dk_stage_of as = Some DBusy \<Longrightarrow> owed as \<noteq> None" for as
    by (cases as rule: dk_stage_of.cases) (auto simp add: after_def split: if_splits dest: d)
qed

text \<open>A request that the device accepts, with \<open>d\<close> the device afterwards.\<close>

lemma dk_request_inv:
  assumes "dk_inv d0 pre all c M x" and "c t = Do a # as" and "\<And>k. a \<noteq> Return k" and "dk_stage_of (c t) = Some p" and "call_ok (req a)"
    and "active d" and "disk_ok (d\<lparr>active := False\<rparr>)"
    and "\<And>d1. disk_ok d1 \<Longrightarrow> \<forall>i<NUM_SECTORS. sector d1 i = sector (dk_disk (dev x)) i \<Longrightarrow>
       \<exists>d2. replay d1 [result (req a) data] = Some d2 \<and> disk_ok d2 \<and> (\<forall>i<NUM_SECTORS. sector d2 i = sector d i)"
  shows "dk_inv d0 pre all (c(t := as)) (add_mset DiskDone M) (x\<lparr>dev := (dev x)\<lparr>dk_disk := d, bufs := (bufs (dev x))(t := data),
    started := started (dev x) @ [(t, result (req a) data)]\<rparr>\<rparr>)"
proof -
  have i: "dk_core (dk_stage_of \<circ> c) M x" "dk_store d0 pre (dev x)" "dk_hist all c x" using assms(1) by (simp_all add: dk_inv_def)
  have a: "dk_stage_of as = Some DBusy" "(dk_stage_of \<circ> c) t = Some DHeld" "owed as = Some (req a)" "owed (c t) = None" "reqs (c t) = req a # reqs as"
    using assms(2,4) assms(3) by (cases a; simp add: after_def split: if_splits; blast)+
  note cr = dk_core_request [OF i(1) a(2)]
  have "dk_stage_of (c u) \<noteq> Some DBusy" for u using cr(2) by (auto simp add: held_def)
  then show ?thesis
    using dk_inv_upd [OF a(1) cr(3)] dk_store_event [OF i(2) assms(7,8)] dk_hist_request [OF i(3) assms(2) a(4,5,3)] assms(6) by simp
qed

lemma dk_idle_disk: "dk_inv d0 pre all c M x \<Longrightarrow> dk_stage_of (c t) = Some DHeld \<Longrightarrow> disk_ok (dk_disk (dev x))"
  using dk_core_request(1) [of "dk_stage_of \<circ> c" M x t] by (simp add: dk_inv_def dk_store_def disk_ok_def)

lemma dk_read_ok:
  assumes "dk_inv d0 pre all c (pending_ms s) (sys s)" and "clock_room fx s" and "c t = Do (DevRead n) # as" and "dk_stage_of (c t) = Some p"
  shows "\<exists>s'. dk_exec fx (DevRead n) t s = Some (Inr s') \<and> dk_inv d0 pre all (c(t := as)) (pending_ms s') (sys s') \<and> clock_room fx s'"
proof -
  let ?d = "dk_disk (dev (sys s))"
  have n: "unat n < NUM_SECTORS" and st: "dk_stage_of (c t) = Some DHeld" using assms(3,4) by (auto simp add: after_def split: if_splits)
  obtain ticks d where r: "ReadRequest True (?d\<lparr>d_clock := totalTicks (stats s)\<rparr>) n = Inr (sector ?d (unat n), ticks, d)"
    "0 < (scast ticks :: u64) \<and> (scast ticks :: u64) \<le> 32000" "disk_ok (d\<lparr>active := False\<rparr>)" "active d" "sector d = sector ?d"
    by (rule ReadRequest_ok [OF dk_idle_disk [OF assms(1) st] n])
  have room: "clock_room fx (upd_disk d s)" using assms(2) by (simp add: upd_disk_def upd_dev_def)
  obtain s1 where s1: "Schedule fx DiskDone (scast ticks) DISK_INT (upd_disk d s) = Inr s1"
    "pending_ms s1 = add_mset DiskDone (pending_ms s)" "sys s1 = sys (upd_disk d s)" "clock_room fx s1"
    by (rule Schedule_device [OF room r(2), where h = DiskDone and k = DISK_INT]) (simp_all add: upd_disk_def upd_dev_def)
  let ?bs = "sector ?d (unat n)"
  have ev: "\<exists>d2. replay d1 [result (req (DevRead n)) ?bs] = Some d2 \<and> disk_ok d2 \<and> (\<forall>i<NUM_SECTORS. sector d2 i = sector d i)"
    if "disk_ok d1" "\<forall>i<NUM_SECTORS. sector d1 i = sector ?d i" for d1
    using ReadSector_ok [OF that(1) n] that(2) n r(5) by auto
  have "call_ok (req (DevRead n))" "\<And>k. DevRead n \<noteq> Return k" using n by simp_all
  note dk_request_inv [OF assms(1,3) this(2) assms(4) this(1) r(4,3) ev]
  then have "dk_inv d0 pre all (c(t := as)) (pending_ms s1) ((sys s)\<lparr>dev := (dev (sys s))\<lparr>dk_disk := d, bufs := (bufs (dev (sys s)))(t := ?bs),
      started := started (dev (sys s)) @ [(t, Read n ?bs)]\<rparr>\<rparr>)" unfolding s1(2) by simp
  then show ?thesis using s1 r(1) by (simp add: Disk_ReadRequest_def upd_disk_def upd_dev_def)
qed

lemma dk_write_ok:
  assumes "dk_inv d0 pre all c (pending_ms s) (sys s)" and "clock_room fx s" and "c t = Do (DevWrite n bs) # as" and "dk_stage_of (c t) = Some p"
  shows "\<exists>s'. dk_exec fx (DevWrite n bs) t s = Some (Inr s') \<and> dk_inv d0 pre all (c(t := as)) (pending_ms s') (sys s') \<and> clock_room fx s'"
proof -
  let ?d = "dk_disk (dev (sys s))"
  have n: "unat n < NUM_SECTORS" "length bs = SECTOR_SIZE" and st: "dk_stage_of (c t) = Some DHeld"
    using assms(3,4) by (auto simp add: after_def split: if_splits)
  obtain ticks d where r: "WriteRequest True (?d\<lparr>d_clock := totalTicks (stats s)\<rparr>) n bs = Inr (ticks, d)"
    "0 < (scast ticks :: u64) \<and> (scast ticks :: u64) \<le> 32000" "disk_ok (d\<lparr>active := False\<rparr>)" "active d"
    "\<forall>i<NUM_SECTORS. sector d i = (if i = unat n then bs else sector ?d i)"
    by (rule WriteRequest_ok [OF dk_idle_disk [OF assms(1) st] n])
  have room: "clock_room fx (upd_disk d s)" using assms(2) by (simp add: upd_disk_def upd_dev_def)
  obtain s1 where s1: "Schedule fx DiskDone (scast ticks) DISK_INT (upd_disk d s) = Inr s1"
    "pending_ms s1 = add_mset DiskDone (pending_ms s)" "sys s1 = sys (upd_disk d s)" "clock_room fx s1"
    by (rule Schedule_device [OF room r(2), where h = DiskDone and k = DISK_INT]) (simp_all add: upd_disk_def upd_dev_def)
  have ev: "\<exists>d2. replay d1 [result (req (DevWrite n bs)) (bufs (dev (sys s)) t)] = Some d2 \<and> disk_ok d2 \<and> (\<forall>i<NUM_SECTORS. sector d2 i = sector d i)"
    if "disk_ok d1" "\<forall>i<NUM_SECTORS. sector d1 i = sector ?d i" for d1
    using WriteSector_ok [OF that(1) n] that(2) r(5) by auto
  have "call_ok (req (DevWrite n bs))" "\<And>k. DevWrite n bs \<noteq> Return k" using n by simp_all
  note dk_request_inv [OF assms(1,3) this(2) assms(4) this(1) r(4,3) ev]
  then have "dk_inv d0 pre all (c(t := as)) (pending_ms s1) ((sys s)\<lparr>dev := (dev (sys s))\<lparr>dk_disk := d,
      started := started (dev (sys s)) @ [(t, Wrote n bs)]\<rparr>\<rparr>)" unfolding s1(2) by simp
  then show ?thesis using s1 r(1) by (simp add: Disk_WriteRequest_def upd_disk_def upd_dev_def)
qed

lemma dk_store_upd [simp]:
  "dk_store d0 pre (x\<lparr>dk_disk := (dk_disk x)\<lparr>active := b\<rparr>\<rparr>) = dk_store d0 pre x"
  by (simp add: dk_store_def sector_image)

lemma dk_stmt_ok:
  assumes "dk_inv d0 pre all c (pending_ms s) (sys s)" and "clock_room fx s" and "c t = a # as"
  shows "exec_stmt (dk_exec fx) a t s = None \<or>
    (\<exists>s'. exec_stmt (dk_exec fx) a t s = Some (Inr s') \<and> dk_inv d0 pre all (c(t := as)) (pending_ms s') (sys s') \<and> clock_room fx s')"
proof -
  have i: "dk_core (dk_stage_of \<circ> c) (pending_ms s) (sys s)" "dk_store d0 pre (dev (sys s))" "dk_hist all c (sys s)"
    using assms(1) by (simp_all add: dk_inv_def)
  obtain p where p: "dk_stage_of (a # as) = Some p" using i(1) assms(3) unfolding dk_core_def comp_def by (metis not_Some_eq)
  have st: "(dk_stage_of \<circ> c) t = Some p" using p assms(3) by simp
  note h = dk_hist_silent [OF i(3) assms(3)]
  show ?thesis
  proof (cases a)
    case (Acquire l)
    with p have a: "l = diskLock" "p = DFree" "dk_stage_of as = Some DHeld" by (auto simp add: after_def split: if_splits)
    with st have f: "(dk_stage_of \<circ> c) t = Some DFree" by simp
    show ?thesis using Acquire a h i(2) dk_core_upd [OF i(1) f] dk_inv_upd [OF a(3) dk_core_upd(2) [OF i(1) f]] assms(2)
      by (cases "owner (sys s) diskLock") simp_all
  next
    case (Release l)
    with p have a: "l = diskLock" "p = DDone" "dk_stage_of as = Some DBack" by (auto simp add: after_def split: if_splits)
    with st have f: "(dk_stage_of \<circ> c) t = Some DDone" by simp
    show ?thesis using Release a h i(2) dk_core_release(1) [OF i(1) f] dk_inv_upd [OF a(3) dk_core_release(2) [OF i(1) f]] assms(2) by simp
  next
    case (P j)
    with p have a: "j = diskSem" "p = DBusy" "dk_stage_of as = Some DDone" by (auto simp add: after_def split: if_splits)
    with st have f: "(dk_stage_of \<circ> c) t = Some DBusy" by simp
    show ?thesis using P a h i(2) dk_inv_upd [OF a(3) dk_core_wait [OF i(1) f]] assms(2) by (cases "0 < val (sys s) diskSem") simp_all
  next
    case (Do b)
    show ?thesis
    proof (cases b)
      case (DevRead n)
      with dk_read_ok [OF assms(1,2)] assms(3) Do p show ?thesis by simp
    next
      case (DevWrite n bs)
      with dk_write_ok [OF assms(1,2)] assms(3) Do p show ?thesis by simp
    next
      case (Return k)
      with Do p have a: "p = DBack" "dk_stage_of as = Some DFree" by (auto simp add: after_def split: if_splits)
      with st have f: "(dk_stage_of \<circ> c) t = Some DBack" by simp
      show ?thesis using Do Return dk_inv_upd [OF a(2) dk_core_return [OF i(1) f]] dk_hist_return [OF i(3)] assms(2,3) i(2) a(2) stage_owed(1) [OF a(2)]
        by simp
    qed
  qed
qed

lemma dk_handler_ok:
  assumes "dk_inv d0 pre all c (add_mset h (pending_ms s)) (sys s)" and "clock_room fx s"
  shows "\<exists>s'. dk_run h s = Inr s' \<and> dk_inv d0 pre all c (pending_ms s') (sys s') \<and> clock_room fx s'"
proof -
  have i: "dk_core (dk_stage_of \<circ> c) (add_mset h (pending_ms s)) (sys s)" "dk_store d0 pre (dev (sys s))" "dk_hist all c (sys s)"
    using assms(1) by (simp_all add: dk_inv_def)
  let ?d = "dev (sys s)"
  let ?x = "(sys s)\<lparr>dev := ?d\<lparr>dk_disk := (dk_disk ?d)\<lparr>active := False\<rparr>\<rparr>, val := (val (sys s))(diskSem := val (sys s) diskSem + 1)\<rparr>"
  have "dk_run h s = Inr (s\<lparr>sys := ?x\<rparr>)"
    by (cases h) (simp add: HandleInterrupt_def RequestDone_def sem_V_def upd_dev_def upd_sys_def)
  moreover have "dk_inv d0 pre all c (pending_ms s) ?x" using dk_core_done [OF i(1)] i(2,3) by (auto simp add: dk_inv_def)
  ultimately show ?thesis using assms(2) by (intro exI [of _ "s\<lparr>sys := ?x\<rparr>"]) simp
qed

interpretation synch_disk: device_driver fx dk_run "exec_stmt (dk_exec fx)" "\<lambda>_ _. False" "dk_inv d0 pre all" for fx d0 pre all
  by unfold_locales (rule dk_handler_ok dk_stmt_ok; assumption | simp)+

text \<open>The disk's handler keeps the contract of the interrupt controller.\<close>

lemma disk_handlers_ok:
  "handlers_ok dk_run Inr (\<lambda>s. pending_wf s \<and> ticks_room s \<and> clock_room fx s \<and> dk_inv d0 pre all c (pending_ms s) (sys s))"
proof (rule synch_disk.driver_handlers_ok)
  show "pending_wf s' \<and> now s' = now s \<and> level s' = level s \<and> due s' = due s" if "pending_wf s" "dk_run h s = Inr s'" for h s s'
    using that by (cases h) (auto simp add: HandleInterrupt_def RequestDone_def sem_V_def upd_dev_def)
qed

interpretation disk_due: due_handlers dk_run Inr "\<lambda>s. pending_wf s \<and> ticks_room s \<and> clock_room fx s \<and> dk_inv d0 pre all c (pending_ms s) (sys s)"
  for fx d0 pre all c
  by unfold_locales (rule disk_handlers_ok)

section \<open>Properties\<close>

lemma owed_code: "owed (dk_code cs) = None"
  by (induction cs rule: dk_code.induct) (simp_all add: SynchDisk_ReadSector_def SynchDisk_WriteSector_def)

lemma dk_stage_code: "list_all call_ok cs \<Longrightarrow> dk_stage_of (dk_code cs) = Some DFree"
  by (induction cs rule: dk_code.induct) (simp_all add: SynchDisk_ReadSector_def SynchDisk_WriteSector_def after_def)

lemma reqs_code: "reqs (dk_code cs) = cs"
  by (induction cs rule: dk_code.induct) (simp_all add: SynchDisk_ReadSector_def SynchDisk_WriteSector_def)

lemma Disk_new_ok: "Disk_new be f k = Inr d \<Longrightarrow> pred_option (\<lambda>im. length im = DISK_SIZE) f \<Longrightarrow> disk_ok d"
  by (cases f) (auto simp add: Disk_new_def Let_def disk_ok_def disk_sizes bytes32_def host_order_def res_simps)

abbreviation disk_of :: "dk_driver \<Rightarrow> disk" where
  "disk_of c \<equiv> dk_disk (dev (sys (ist c)))"

lemma dk_start_inv:
  assumes "dk_start be file calls c"
  shows "driver_inv fx (dk_inv (disk_of c) [] calls) c"
proof -
  obtain junk where "SynchDisk_new be file (dk_init junk) = Inr (ist c)" using assms by (auto simp add: dk_start_def)
  then obtain k d where d: "Disk_new be file k = Inr d"
    "ist c = upd_disk d (upd_sys (\<lambda>x. x\<lparr>val := (val x)(diskSem := 0), owner := (owner x)(diskLock := None)\<rparr>) (dk_init junk))"
    by (auto simp add: SynchDisk_new_def Let_def res_simps)
  have ok: "disk_ok d" using Disk_new_ok [OF d(1)] assms by (simp add: dk_start_def)
  have c: "todo c = dk_code \<circ> calls" "\<And>t. list_all call_ok (calls t)" using assms by (simp_all add: dk_start_def)
  have y: "disk_of c = d" "started (dev (sys (ist c))) = []" "returned (sys (ist c)) = []" "owner (sys (ist c)) diskLock = None"
    "val (sys (ist c)) diskSem = 0" "pending_ms (ist c) = {#}" "clock_room fx (ist c)"
    unfolding d(2) by (simp_all add: upd_disk_def upd_dev_def upd_sys_def dk_init_def Interrupt_new_def Statistics_new_def pending_ms_def clock_room_def)
  show ?thesis unfolding driver_inv_def dk_inv_def dk_core_def dk_store_def dk_hist_def
    using ok by (simp add: y c comp_def dk_stage_code reqs_code owed_code owed_by_def lock_at_def held_def disk_ok_def)
qed

lemma dk_run_inv:
  assumes "driver_inv fx (dk_inv d0 pre calls) c" and "(dk_step fx)\<^sup>*\<^sup>* c c'"
  shows "driver_inv fx (dk_inv d0 pre calls) c'"
  by (rule synch_disk.runs.run_inv [OF assms(2) [unfolded dk_step_def] assms(1)])

lemma dk_inv_linearised:
  assumes "driver_inv fx (dk_inv d0 pre calls) c"
  shows "linearised d0 calls c (started (dev (sys (ist c))))"
proof -
  let ?x = "sys (ist c)" and ?l = "started (dev (sys (ist c)))"
  have i: "dk_core (dk_stage_of \<circ> todo c) (pending_ms (ist c)) ?x" "dk_store d0 pre (dev ?x)" "dk_hist calls (todo c) ?x"
    using assms by (simp_all add: driver_inv_def dk_inv_def)
  have busy: "\<exists>xs t e. ?l = xs @ [(t, e)] \<and> length (of_thread t (returned ?x)) < length (of_thread t ?l)"
    if "active (disk_of c) \<or> DiskDone \<in># pending_ms (ist c)"
  proof -
    have "pending_ms (ist c) \<noteq> {#}" using that i(1) by (auto simp add: dk_core_def)
    then have "held DBusy (dk_stage_of \<circ> todo c)" using i(1) by (cases "held DBusy (dk_stage_of \<circ> todo c)") (auto simp add: dk_core_def)
    then obtain t where t: "dk_stage_of (todo c t) = Some DBusy" by (auto simp add: held_def)
    with i(3) have l: "?l \<noteq> []" "fst (last ?l) = t" and o: "of_thread t ?l = of_thread t (returned ?x) @ owed_by t (todo c t) (dev ?x)"
      by (simp_all add: dk_hist_def)
    have "owed_by t (todo c t) (dev ?x) \<noteq> []" using stage_owed(4) [OF t] by (auto simp add: owed_by_def)
    with o have "length (of_thread t (returned ?x)) < length (of_thread t ?l)" by simp
    moreover have "?l = butlast ?l @ [(t, snd (last ?l))]" using l by (metis append_butlast_last_id prod.collapse)
    ultimately show ?thesis by blast
  qed
  have "\<exists>es. of_thread t ?l = of_thread t (returned ?x) @ es \<and> length es \<le> 1" for t
    using i(3) by (intro exI [of _ "owed_by t (todo c t) (dev ?x)"]) (simp add: dk_hist_def owed_by_def split: option.splits)
  with busy i(2,3) show ?thesis by (auto simp add: linearised_def dk_store_def dk_hist_def)
qed

subsection \<open>A concrete run\<close>

definition demo_dk_calls :: "nat \<Rightarrow> dk_call list" where
  "demo_dk_calls t = (if t < 2 then [WriteCall 5 (replicate 128 (of_nat t)), ReadCall 5] else [])"

lemma dk_stmtI:
  "todo c t = a # as \<Longrightarrow> exec_stmt (dk_exec fx) a t (ist c) = Some (Inr s) \<Longrightarrow> dk_step fx c \<lparr>todo = (todo c)(t := as), ist = s\<rparr>"
  by (simp add: dk_step_def driver_step.stmt)

lemma dk_interruptI:
  assumes "elems (pending (ist c)) = [(key, p)]" and "p_type p \<noteq> TIMER_INT"
  obtains s where "dk_step fx c \<lparr>todo = todo c, ist = s\<rparr>"
    and "sys s = (sys (ist c))\<lparr>dev := (dev (sys (ist c)))\<lparr>dk_disk := (disk_of c)\<lparr>active := False\<rparr>\<rparr>,
      val := (val (sys (ist c)))(diskSem := val (sys (ist c)) diskSem + 1)\<rparr>"
proof -
  have h: "handler p = DiskDone" by (cases "handler p")
  obtain s where s: "CheckIfDue dk_run Inr True ((ist c)\<lparr>level := INT_OFF\<rparr>) = Inr (True, s)"
    "sys s = (sys (ist c))\<lparr>dev := (dev (sys (ist c)))\<lparr>dk_disk := (disk_of c)\<lparr>active := False\<rparr>\<rparr>,
      val := (val (sys (ist c)))(diskSem := val (sys (ist c)) diskSem + 1)\<rparr>"
    using assms by (simp add: CheckIfDue_def elems_SortedPop Let_def h HandleInterrupt_def RequestDone_def sem_V_def upd_dev_def upd_sys_def)
  show thesis
    by (rule that [of "s\<lparr>level := INT_ON\<rparr>"]) (use s(2) driver_step.interrupt [OF s(1)] in \<open>simp_all add: dk_step_def\<close>)
qed

lemma Schedule_lone:
  "Schedule False h d k s = Inr s' \<Longrightarrow> elems (pending s) = [] \<Longrightarrow>
     \<exists>key p. elems (pending s') = [(key, p)] \<and> p_type p = k"
  by (auto simp add: Schedule_def res_simps Let_def elems_SortedInsert PendingInterrupt_new_def split: if_splits)

text \<open>The second thread takes the lock, writes its sector, waits for the interrupt and returns.\<close>

lemma demo_dk_run:
  obtains c c' where "dk_start False None demo_dk_calls c" and "(dk_step False)\<^sup>*\<^sup>* c c'"
    and "returned (sys (ist c')) = [(1, Wrote 5 (replicate 128 1))]"
proof -
  obtain d where d: "Disk_new False None 0 = Inr d" "disk_ok d"
    using Disk_new_ok [of False None 0] by (auto simp add: Disk_new_def Let_def)
  define s where "s = upd_disk d (upd_sys (\<lambda>x. x\<lparr>val := (val x)(diskSem := 0), owner := (owner x)(diskLock := None)\<rparr>) (dk_init d))"
  let ?c = "\<lparr>todo = dk_code \<circ> demo_dk_calls, ist = s\<rparr>"
  have "SynchDisk_new False None (dk_init d) = Inr s"
    using d(1) by (simp add: SynchDisk_new_def s_def dk_init_def Interrupt_new_def Statistics_new_def upd_sys_def)
  then have c: "dk_start False None demo_dk_calls ?c"
    by (auto simp add: dk_start_def demo_dk_calls_def disk_sizes)
  let ?bs = "replicate 128 1 :: u8 list" and ?rest = "SynchDisk_ReadSector 5"
  let ?as = "[Do (DevWrite 5 ?bs), P diskSem, Release diskLock, Do (Return (WriteCall 5 ?bs))] @ ?rest"
  have code: "todo ?c 1 = Acquire diskLock # ?as" by (simp add: demo_dk_calls_def SynchDisk_WriteSector_def)
  define s1 where "s1 = upd_sys (\<lambda>x. x\<lparr>owner := (owner x)(diskLock := Some 1)\<rparr>) s"
  let ?c1 = "\<lparr>todo = (dk_code \<circ> demo_dk_calls)(1 := ?as), ist = s1\<rparr>"
  have r1: "dk_step False ?c ?c1"
    using dk_stmtI [OF code, of False s1] by (simp add: s1_def s_def upd_disk_def upd_dev_def dk_init_def Interrupt_new_def)
  have y: "disk_of ?c1 = d" "returned (sys s1) = []" "elems (pending s1) = []" "owner (sys s1) diskLock = Some 1" "val (sys s1) diskSem = 0"
    by (simp_all add: s1_def s_def upd_disk_def upd_dev_def dk_init_def Interrupt_new_def upd_sys_def List_new_def)
  have room: "clock_room False (upd_disk d' s1)" for d'
    by (simp add: s1_def s_def upd_disk_def upd_dev_def dk_init_def Interrupt_new_def Statistics_new_def clock_room_def upd_sys_def)
  obtain ticks d' where w: "WriteRequest True (d\<lparr>d_clock := totalTicks (stats s1)\<rparr>) 5 ?bs = Inr (ticks, d')"
    "0 < (scast ticks :: u64) \<and> (scast ticks :: u64) \<le> 32000"
    by (rule WriteRequest_ok [OF d(2), of 5 ?bs "totalTicks (stats s1)"]) (simp_all add: disk_sizes)
  obtain s2 where s2: "Schedule False DiskDone (scast ticks) DISK_INT (upd_disk d' s1) = Inr s2" "sys s2 = sys (upd_disk d' s1)"
    by (rule Schedule_device [OF room w(2), where h = DiskDone and k = DISK_INT])
  let ?s3 = "upd_dev (\<lambda>x. x\<lparr>started := started x @ [(1, Wrote 5 ?bs)]\<rparr>) s2"
  let ?c2 = "\<lparr>todo = (todo ?c1)(1 := tl ?as), ist = ?s3\<rparr>"
  have "exec_stmt (dk_exec False) (Do (DevWrite 5 ?bs)) 1 (ist ?c1) = Some (Inr ?s3)"
    using y(1) w(1) s2(1) by (simp add: Disk_WriteRequest_def)
  then have r2: "dk_step False ?c1 ?c2" using dk_stmtI [of ?c1 1 "Do (DevWrite 5 ?bs)" "tl ?as"] by simp
  have z: "returned (sys ?s3) = []" "owner (sys ?s3) diskLock = Some 1" "val (sys ?s3) diskSem = 0"
    using y s2(2) by (simp_all add: upd_disk_def upd_dev_def)
  obtain key p where lone: "elems (pending (ist ?c2)) = [(key, p)]" "p_type p = DISK_INT"
    using Schedule_lone [OF s2(1)] y(3) by (auto simp add: upd_disk_def upd_dev_def upd_sys_def)
  obtain s4 where r3: "dk_step False ?c2 \<lparr>todo = todo ?c2, ist = s4\<rparr>" and
    "sys s4 = (sys (ist ?c2))\<lparr>dev := (dev (sys (ist ?c2)))\<lparr>dk_disk := (disk_of ?c2)\<lparr>active := False\<rparr>\<rparr>,
      val := (val (sys (ist ?c2)))(diskSem := val (sys (ist ?c2)) diskSem + 1)\<rparr>"
    by (rule dk_interruptI [OF lone(1), of False]) (simp_all add: lone(2))
  then have v: "returned (sys s4) = []" "owner (sys s4) diskLock = Some 1" "val (sys s4) diskSem = 1" using z by simp_all
  let ?c3 = "\<lparr>todo = todo ?c2, ist = s4\<rparr>"
  let ?s5 = "upd_sys (\<lambda>x. x\<lparr>val := (val x)(diskSem := val x diskSem - 1)\<rparr>) s4"
  let ?c4 = "\<lparr>todo = (todo ?c3)(1 := drop 2 ?as), ist = ?s5\<rparr>"
  have r4: "dk_step False ?c3 ?c4" using dk_stmtI [of ?c3 1 "P diskSem" "drop 2 ?as" False ?s5] v by simp
  let ?s6 = "upd_sys (\<lambda>x. x\<lparr>owner := (owner x)(diskLock := None)\<rparr>) ?s5"
  let ?c5 = "\<lparr>todo = (todo ?c4)(1 := drop 3 ?as), ist = ?s6\<rparr>"
  have r5: "dk_step False ?c4 ?c5" using dk_stmtI [of ?c4 1 "Release diskLock" "drop 3 ?as" False ?s6] v by simp
  let ?s7 = "upd_sys (\<lambda>x. x\<lparr>returned := returned x @ [(1, Wrote 5 ?bs)]\<rparr>) ?s6"
  let ?c6 = "\<lparr>todo = (todo ?c5)(1 := ?rest), ist = ?s7\<rparr>"
  have r6: "dk_step False ?c5 ?c6" using dk_stmtI [of ?c5 1 "Do (Return (WriteCall 5 ?bs))" ?rest False ?s7] by simp
  have "(dk_step False)\<^sup>*\<^sup>* ?c ?c6" using r1 r2 r3 r4 r5 r6 by (meson converse_rtranclp_into_rtranclp rtranclp.rtrancl_refl)
  then show thesis by (rule that [OF c]) (simp add: v(1))
qed

text \<open>C15: The synchronous disk is linearisable. However the calls of any number of threads interleave with each other and with
  the interrupts, there is one sequence of the single operations \<open>ReadSector\<close> and \<open>WriteSector\<close>, executed one after the
  other on the disk at the start, that gives every result returned so far and the sectors the device has now, keeps
  every thread's order, and contains besides what has returned at most the one call that each thread has in progress. The sequence only
  grows: what has returned before a call begins stands before it. And no call returns before the device has finished its
  request: while the device works, the last call of the sequence has not returned.\<close>

theorem SynchDisk_atomic:
  assumes "dk_start be file calls c" and "(dk_step fx)\<^sup>*\<^sup>* c c'" and "(dk_step fx)\<^sup>*\<^sup>* c' c''"
  shows "\<exists>lin new. linearised (disk_of c) calls c' lin \<and> linearised (disk_of c) calls c'' (lin @ new)"
proof -
  note i = dk_run_inv [OF dk_start_inv [OF assms(1)] assms(2)]
  let ?l = "started (dev (sys (ist c')))"
  have "driver_inv fx (dk_inv (disk_of c) ?l calls) c'" using i by (simp add: driver_inv_def dk_inv_def dk_store_def)
  note j = dk_run_inv [OF this assms(3)]
  then obtain new where "started (dev (sys (ist c''))) = ?l @ new" by (auto simp add: driver_inv_def dk_inv_def dk_store_def)
  with dk_inv_linearised [OF i] dk_inv_linearised [OF j] show ?thesis by auto
qed

theorem SynchDisk_atomic_witness:
  "\<exists>c (c' :: dk_driver) lin. returned (sys (ist c')) = [(1, Wrote 5 (replicate 128 1))] \<and>
     linearised (disk_of c) demo_dk_calls c' lin \<and> (1, Wrote 5 (replicate 128 1)) \<in> set lin"
proof (rule demo_dk_run)
  fix c c' assume r: "dk_start False None demo_dk_calls c" "(dk_step False)\<^sup>*\<^sup>* c c'" "returned (sys (ist c')) = [(1, Wrote 5 (replicate 128 1))]"
  with SynchDisk_atomic [of False None demo_dk_calls c False c' c'] obtain lin where l: "linearised (disk_of c) demo_dk_calls c' lin" by auto
  then obtain es where "of_thread 1 lin = of_thread 1 (returned (sys (ist c'))) @ es" unfolding linearised_def by blast
  then have "(1, Wrote 5 (replicate 128 1)) \<in> set (of_thread 1 lin)" using r(3) by simp
  then have "(1, Wrote 5 (replicate 128 1)) \<in> set lin" by (simp add: of_thread_def)
  with r(3) l show ?thesis by blast
qed

lemma dk_unstuck:
  assumes "dk_inv d0 pre all (todo c) (pending_ms (ist c)) (sys (ist c))" and "clock_room fx (ist c)" and "todo c t \<noteq> []" and "pending_ms (ist c) = {#}"
  shows "\<exists>t a as. todo c t = a # as \<and> exec_stmt (dk_exec fx) a t (ist c) \<noteq> None"
proof -
  let ?S = "dk_stage_of \<circ> todo c" and ?x = "sys (ist c)"
  have i: "dk_core ?S (pending_ms (ist c)) ?x" using assms(1) by (simp add: dk_inv_def)
  note k = dk_core_lock [OF i]
  have do: "exec_stmt (dk_exec fx) (Do b) u (ist c) \<noteq> None" for b u by (cases b) simp_all
  show ?thesis
  proof (cases "owner ?x diskLock")
    case None
    have "?S t \<noteq> None" using i by (simp add: dk_core_def)
    then obtain q where q: "?S t = Some q" by blast
    with None k have "q \<notin> using_disk" by (auto simp add: lock_at_def)
    then have "q = DFree \<or> q = DBack" by (cases q) simp_all
    with q assms(3) obtain a as where "todo c t = a # as" "a = Acquire diskLock \<or> (\<exists>b. a = Do b)"
      by (cases "todo c t" rule: dk_stage_of.cases) (auto simp add: after_def split: if_splits)
    with None do show ?thesis by (intro exI [of _ t] exI [of _ a] exI [of _ as]) auto
  next
    case (Some u)
    with k obtain q where q: "?S u = Some q" "q \<in> using_disk" by (auto simp add: lock_at_def)
    then obtain a as where a: "todo c u = a # as" by (cases "todo c u") auto
    have "exec_stmt (dk_exec fx) a u (ist c) \<noteq> None"
    proof (cases a)
      case (P j)
      with q a have "q = DBusy" "j = diskSem" by (auto simp add: after_def split: if_splits)
      with q(1) have "held DBusy ?S" by (auto simp add: held_def)
      with i assms(4) \<open>j = _\<close> P show ?thesis by (simp add: dk_core_def)
    qed (use q a Some do in \<open>auto simp add: after_def split: if_splits\<close>)
    with a show ?thesis by blast
  qed
qed

text \<open>C24: The synchronous disk is safe and does not get stuck. In every run no assertion fails: the device never gets a
  request while it is busy, and no lock is taken twice or released by another thread. While a thread has code to
  run, some thread can run its next statement, or the device's interrupt is pending, which lets the waiting thread
  go on.\<close>

theorem SynchDisk_live:
  assumes "dk_start be file calls c" and "(dk_step fx)\<^sup>*\<^sup>* c c'"
  shows "driver_safe dk_run (exec_stmt (dk_exec fx)) c' \<and>
     (todo c' t \<noteq> [] \<longrightarrow> (\<exists>t a as s. todo c' t = a # as \<and> exec_stmt (dk_exec fx) a t (ist c') = Some (Inr s)) \<or> DiskDone \<in># pending_ms (ist c'))"
proof -
  note inv = dk_run_inv [OF dk_start_inv [OF assms(1)] assms(2)]
  then have i: "dk_inv (disk_of c) [] calls (todo c') (pending_ms (ist c')) (sys (ist c'))" "clock_room fx (ist c')"
    by (simp_all add: driver_inv_def)
  have p: "DiskDone \<in># pending_ms (ist c')" if "pending_ms (ist c') \<noteq> {#}"
    using that by (metis disk_handler.exhaust multiset_nonemptyE)
  have safe: "driver_safe dk_run (exec_stmt (dk_exec fx)) c'" by (rule synch_disk.driver_inv_safe [OF inv])
  moreover have "\<exists>t a as s. todo c' t = a # as \<and> exec_stmt (dk_exec fx) a t (ist c') = Some (Inr s)"
    if "todo c' t \<noteq> []" "pending_ms (ist c') = {#}"
    using dk_unstuck [OF i that] safe unfolding driver_safe_def by (metis not_Some_eq sum.exhaust)
  ultimately show ?thesis using p by blast
qed

theorem SynchDisk_live_witness:
  "\<exists>c'. returned (sys (ist c')) = [(1, Wrote 5 (replicate 128 1))] \<and> driver_safe dk_run (exec_stmt (dk_exec False)) c'"
proof (rule demo_dk_run)
  fix c c' assume "dk_start False None demo_dk_calls c" "(dk_step False)\<^sup>*\<^sup>* c c'" "returned (sys (ist c')) = [(1, Wrote 5 (replicate 128 1))]"
  with SynchDisk_live [of False None demo_dk_calls c False c'] show ?thesis by auto
qed

end
