(* ===== verification/Lib_Bitmap.thy ===== *)
theory Lib_Bitmap
  imports Nachos_Prelude
begin

text \<open>
  \<open>lib/bitmap.hh\<close> and \<open>lib/bitmap.cc\<close>: the bitmap that allocates disk sectors and page
  frames. Bits are kept in an array of 32-bit words. The abstract view of a bitmap is the
  set \<open>marked\<close> of the indices whose bit is on; every operation is proved to act on that
  set as its comment promises, and the locale \<open>allocator\<close> states what the clients (file
  headers, address spaces) rely on.
\<close>

section \<open>The data and its operations\<close>

definition BITS_IN_BYTE :: nat where
  "BITS_IN_BYTE = 8"

definition BITS_IN_WORD :: nat where
  "BITS_IN_WORD = 32"

record bitmap =
  numBits :: nat
  numWords :: nat
  bm_map :: "u32 list"

definition Bitmap_Mark :: "bitmap \<Rightarrow> nat \<Rightarrow> bitmap res" where
  "Bitmap_Mark b which =
     ASSERT (which < numBits b)
       (bindR (aget (bm_map b) (which div BITS_IN_WORD)) (\<lambda>w.
        bindR (aset (bm_map b) (which div BITS_IN_WORD)
                 (w OR push_bit (which mod BITS_IN_WORD) 1)) (\<lambda>m.
        Inr (b\<lparr>bm_map := m\<rparr>))))"

definition Bitmap_Clear :: "bitmap \<Rightarrow> nat \<Rightarrow> bitmap res" where
  "Bitmap_Clear b which =
     ASSERT (which < numBits b)
       (bindR (aget (bm_map b) (which div BITS_IN_WORD)) (\<lambda>w.
        bindR (aset (bm_map b) (which div BITS_IN_WORD)
                 (w AND NOT (push_bit (which mod BITS_IN_WORD) 1))) (\<lambda>m.
        Inr (b\<lparr>bm_map := m\<rparr>))))"

definition Bitmap_Test :: "bitmap \<Rightarrow> nat \<Rightarrow> bool res" where
  "Bitmap_Test b which =
     ASSERT (which < numBits b)
       (bindR (aget (bm_map b) (which div BITS_IN_WORD)) (\<lambda>w.
        Inr (w AND push_bit (which mod BITS_IN_WORD) 1 \<noteq> 0)))"

text \<open>
  The constructor allocates the words without initialising them, so the model takes the
  contents \<open>junk\<close> of the fresh memory as an argument, and then clears bit after bit.
\<close>

fun Bitmap_clear_loop :: "bitmap \<Rightarrow> nat list \<Rightarrow> bitmap res" where
  "Bitmap_clear_loop b [] = Inr b"
| "Bitmap_clear_loop b (i # is) = bindR (Bitmap_Clear b i) (\<lambda>b'. Bitmap_clear_loop b' is)"

definition Bitmap_new :: "(nat \<Rightarrow> u32) \<Rightarrow> nat \<Rightarrow> bitmap res" where
  "Bitmap_new junk nitems =
     ASSERT (nitems > 0)
       (let nw = DivRoundUp nitems BITS_IN_WORD in
        Bitmap_clear_loop
          \<lparr>numBits = nitems, numWords = nw, bm_map = map junk [0..<nw]\<rparr> [0..<nitems])"

fun Bitmap_Find_loop :: "bitmap \<Rightarrow> nat list \<Rightarrow> (int \<times> bitmap) res" where
  "Bitmap_Find_loop b [] = Inr (-1, b)"
| "Bitmap_Find_loop b (i # is) =
     bindR (Bitmap_Test b i) (\<lambda>t.
       if \<not> t then bindR (Bitmap_Mark b i) (\<lambda>b'. Inr (int i, b'))
       else Bitmap_Find_loop b is)"

definition Bitmap_Find :: "bitmap \<Rightarrow> (int \<times> bitmap) res" where
  "Bitmap_Find b = Bitmap_Find_loop b [0..<numBits b]"

fun Bitmap_CountClear_loop :: "bitmap \<Rightarrow> nat list \<Rightarrow> nat \<Rightarrow> nat res" where
  "Bitmap_CountClear_loop b [] count = Inr count"
| "Bitmap_CountClear_loop b (i # is) count =
     bindR (Bitmap_Test b i) (\<lambda>t.
       Bitmap_CountClear_loop b is (if \<not> t then count + 1 else count))"

definition Bitmap_CountClear :: "bitmap \<Rightarrow> nat res" where
  "Bitmap_CountClear b = Bitmap_CountClear_loop b [0..<numBits b] 0"

text \<open>\<open>Print\<close> writes the indices of the bits that are on; the model returns them.\<close>

fun Bitmap_Print_loop :: "bitmap \<Rightarrow> nat list \<Rightarrow> nat list res" where
  "Bitmap_Print_loop b [] = Inr []"
| "Bitmap_Print_loop b (i # is) =
     bindR (Bitmap_Test b i) (\<lambda>t.
     bindR (Bitmap_Print_loop b is) (\<lambda>out. Inr (if t then i # out else out)))"

definition Bitmap_Print :: "bitmap \<Rightarrow> nat list res" where
  "Bitmap_Print b = Bitmap_Print_loop b [0..<numBits b]"

section \<open>Invariant and abstraction\<close>

definition bitmap_inv :: "bitmap \<Rightarrow> bool" where
  "bitmap_inv b \<longleftrightarrow> 0 < numBits b \<and> numWords b = DivRoundUp (numBits b) BITS_IN_WORD
     \<and> length (bm_map b) = numWords b"

definition marked :: "bitmap \<Rightarrow> nat set" where
  "marked b = {i. i < numBits b \<and> bit (bm_map b ! (i div BITS_IN_WORD)) (i mod BITS_IN_WORD)}"

lemma bitmap_inv_word [simp]:
  "bitmap_inv b \<Longrightarrow> i < numBits b \<Longrightarrow> i div BITS_IN_WORD < length (bm_map b)"
  by (simp add: bitmap_inv_def BITS_IN_WORD_def div_less_DivRoundUp)

lemma marked_bound: "i \<in> marked b \<Longrightarrow> i < numBits b"
  by (simp add: marked_def)

lemma marked_subset: "marked b \<subseteq> {..<numBits b}"
  by (auto simp add: marked_def)

lemma finite_marked [simp]: "finite (marked b)"
  using marked_subset finite_lessThan by (rule finite_subset)

lemma div_mod_word_eq: "i div BITS_IN_WORD = j div BITS_IN_WORD \<Longrightarrow>
  i mod BITS_IN_WORD = j mod BITS_IN_WORD \<Longrightarrow> i = j"
  by (metis div_mult_mod_eq)

lemma and_mask_bit_iff: "(w AND push_bit i 1 \<noteq> 0) \<longleftrightarrow> bit (w :: 'a::len word) i"
  by (simp add: and_exp_eq_0_iff_not_bit)

lemma bit_of_set: "i < 32 \<Longrightarrow> bit ((w :: u32) OR push_bit i 1) j \<longleftrightarrow> bit w j \<or> i = j"
  by (auto simp add: bit_or_iff bit_exp_iff)

lemma bit_of_clear: "i < 32 \<Longrightarrow> bit ((w :: u32) AND NOT (push_bit i 1)) j \<longleftrightarrow> bit w j \<and> i \<noteq> j"
  by (auto simp add: bit_and_iff bit_not_iff bit_exp_iff dest: bit_imp_le_length)

section \<open>Refinement to sets of marked bits\<close>

lemma Bitmap_Test_eq:
  "bitmap_inv b \<Longrightarrow> i < numBits b \<Longrightarrow> Bitmap_Test b i = Inr (i \<in> marked b)"
  by (simp add: Bitmap_Test_def marked_def and_mask_bit_iff del: push_bit_of_1)

lemma Bitmap_Mark_ok:
  assumes "bitmap_inv b" "i < numBits b"
  shows "\<exists>b'. Bitmap_Mark b i = Inr b' \<and> bitmap_inv b' \<and> numBits b' = numBits b
           \<and> marked b' = insert i (marked b)"
proof -
  let ?b = "b\<lparr>bm_map := (bm_map b)[i div BITS_IN_WORD :=
    bm_map b ! (i div BITS_IN_WORD) OR push_bit (i mod BITS_IN_WORD) 1]\<rparr>"
  have m: "i mod BITS_IN_WORD < 32" by (simp add: BITS_IN_WORD_def)
  have "marked ?b = insert i (marked b)"
    using assms bit_of_set [OF m] div_mod_word_eq [of i]
    by (auto simp add: marked_def nth_list_update simp del: push_bit_of_1 split: if_splits)
  moreover have "Bitmap_Mark b i = Inr ?b"
    using assms by (simp add: Bitmap_Mark_def del: push_bit_of_1)
  moreover have "bitmap_inv ?b" using assms by (simp add: bitmap_inv_def)
  ultimately show ?thesis by auto
qed

lemma Bitmap_Clear_ok:
  assumes "bitmap_inv b" "i < numBits b"
  shows "\<exists>b'. Bitmap_Clear b i = Inr b' \<and> bitmap_inv b' \<and> numBits b' = numBits b
           \<and> marked b' = marked b - {i}"
proof -
  let ?b = "b\<lparr>bm_map := (bm_map b)[i div BITS_IN_WORD :=
    bm_map b ! (i div BITS_IN_WORD) AND NOT (push_bit (i mod BITS_IN_WORD) 1)]\<rparr>"
  have m: "i mod BITS_IN_WORD < 32" by (simp add: BITS_IN_WORD_def)
  have "marked ?b = marked b - {i}"
    using assms bit_of_clear [OF m] div_mod_word_eq [of i]
    by (auto simp add: marked_def nth_list_update simp del: push_bit_of_1 split: if_splits)
  moreover have "Bitmap_Clear b i = Inr ?b"
    using assms by (simp add: Bitmap_Clear_def del: push_bit_of_1)
  moreover have "bitmap_inv ?b" using assms by (simp add: bitmap_inv_def)
  ultimately show ?thesis by auto
qed

lemma Bitmap_out_of_range:
  "\<not> i < numBits b \<Longrightarrow> Bitmap_Mark b i = Inl AssertFail"
  "\<not> i < numBits b \<Longrightarrow> Bitmap_Clear b i = Inl AssertFail"
  "\<not> i < numBits b \<Longrightarrow> Bitmap_Test b i = Inl AssertFail"
  by (simp_all add: Bitmap_Mark_def Bitmap_Clear_def Bitmap_Test_def)

lemma Bitmap_clear_loop_ok:
  "bitmap_inv b \<Longrightarrow> \<forall>i\<in>set is. i < numBits b \<Longrightarrow>
   \<exists>b'. Bitmap_clear_loop b is = Inr b' \<and> bitmap_inv b' \<and> numBits b' = numBits b
     \<and> marked b' = marked b - set is"
proof (induction "is" arbitrary: b)
  case Nil
  then show ?case by simp
next
  case (Cons i "is")
  then obtain b1 where "Bitmap_Clear b i = Inr b1" "bitmap_inv b1" "numBits b1 = numBits b"
    "marked b1 = marked b - {i}"
    using Bitmap_Clear_ok [of b i] by auto
  with Cons.prems Cons.IH [of b1] show ?case by auto
qed

lemma Bitmap_new_ok:
  assumes "0 < n"
  shows "\<exists>b. Bitmap_new junk n = Inr b \<and> bitmap_inv b \<and> numBits b = n \<and> marked b = {}"
proof -
  let ?nw = "DivRoundUp n BITS_IN_WORD"
  let ?b = "\<lparr>numBits = n, numWords = ?nw, bm_map = map junk [0..<?nw]\<rparr>"
  have "bitmap_inv ?b" using assms by (simp add: bitmap_inv_def)
  then obtain b' where b': "Bitmap_clear_loop ?b [0..<n] = Inr b'" "bitmap_inv b'"
    "numBits b' = n" "marked b' = marked ?b - {0..<n}"
    using Bitmap_clear_loop_ok [of ?b "[0..<n]"] by auto
  moreover have "marked ?b \<subseteq> {0..<n}" using marked_subset [of ?b] by auto
  ultimately show ?thesis using assms by (auto simp add: Bitmap_new_def)
qed

lemma Bitmap_Find_loop_none:
  "bitmap_inv b \<Longrightarrow> \<forall>i\<in>set is. i < numBits b \<and> i \<in> marked b \<Longrightarrow>
   Bitmap_Find_loop b is = Inr (-1, b)"
  by (induction "is") (auto simp add: Bitmap_Test_eq)

lemma Bitmap_Find_loop_some:
  "bitmap_inv b \<Longrightarrow> \<forall>i\<in>set pre. i < numBits b \<and> i \<in> marked b \<Longrightarrow>
   k < numBits b \<Longrightarrow> k \<notin> marked b \<Longrightarrow>
   Bitmap_Find_loop b (pre @ k # post) = bindR (Bitmap_Mark b k) (\<lambda>b'. Inr (int k, b'))"
  by (induction pre) (auto simp add: Bitmap_Test_eq)

lemma Bitmap_Find_full:
  "bitmap_inv b \<Longrightarrow> marked b = {..<numBits b} \<Longrightarrow> Bitmap_Find b = Inr (-1, b)"
  by (simp add: Bitmap_Find_def Bitmap_Find_loop_none)

lemma Bitmap_Find_free:
  assumes "bitmap_inv b" "marked b \<noteq> {..<numBits b}"
  shows "\<exists>b'. Bitmap_Find b = Inr (int (LEAST i. i \<notin> marked b), b')
           \<and> (LEAST i. i \<notin> marked b) < numBits b \<and> (LEAST i. i \<notin> marked b) \<notin> marked b
           \<and> bitmap_inv b' \<and> numBits b' = numBits b
           \<and> marked b' = insert (LEAST i. i \<notin> marked b) (marked b)"
proof -
  let ?l = "LEAST i. i \<notin> marked b"
  from assms(2) marked_subset [of b] obtain j where j: "j < numBits b" "j \<notin> marked b"
    by (metis lessThan_iff subsetI subset_antisym)
  then have l: "?l < numBits b" "?l \<notin> marked b"
    using Least_le [of "\<lambda>i. i \<notin> marked b" j] LeastI [of "\<lambda>i. i \<notin> marked b" j] by auto
  have eq: "[0..<numBits b] = [0..<?l] @ ?l # [Suc ?l..<numBits b]"
    using l(1) by (rule upt_split)
  have pre: "\<forall>i\<in>set [0..<?l]. i < numBits b \<and> i \<in> marked b"
  proof
    fix i assume "i \<in> set [0..<?l]"
    then have "i < ?l" by simp
    then show "i < numBits b \<and> i \<in> marked b"
      using not_less_Least [of i "\<lambda>i. i \<notin> marked b"] l(1) by simp
  qed
  have "Bitmap_Find b = bindR (Bitmap_Mark b ?l) (\<lambda>b'. Inr (int ?l, b'))"
    unfolding Bitmap_Find_def eq by (rule Bitmap_Find_loop_some [OF assms(1) pre l])
  then show ?thesis using Bitmap_Mark_ok [OF assms(1) l(1)] l by auto
qed

lemma Bitmap_CountClear_loop_ok:
  "bitmap_inv b \<Longrightarrow> \<forall>i\<in>set is. i < numBits b \<Longrightarrow>
   Bitmap_CountClear_loop b is c = Inr (c + length (filter (\<lambda>i. i \<notin> marked b) is))"
  by (induction "is" arbitrary: c) (auto simp add: Bitmap_Test_eq)

lemma Bitmap_CountClear_ok:
  assumes "bitmap_inv b"
  shows "Bitmap_CountClear b = Inr (numBits b - card (marked b))"
proof -
  have "Bitmap_CountClear b = Inr (length (filter (\<lambda>i. i \<notin> marked b) [0..<numBits b]))"
    using Bitmap_CountClear_loop_ok [OF assms, of "[0..<numBits b]" 0]
    by (simp add: Bitmap_CountClear_def)
  also have "length (filter (\<lambda>i. i \<notin> marked b) [0..<numBits b])
      = card ({..<numBits b} - marked b)"
    by (subst distinct_card [symmetric]) (auto intro: arg_cong [where f = card])
  also have "\<dots> = numBits b - card (marked b)"
    using marked_subset by (simp add: card_Diff_subset)
  finally show ?thesis .
qed

lemma Bitmap_Print_loop_ok:
  "bitmap_inv b \<Longrightarrow> \<forall>i\<in>set is. i < numBits b \<Longrightarrow>
   Bitmap_Print_loop b is = Inr (filter (\<lambda>i. i \<in> marked b) is)"
  by (induction "is") (auto simp add: Bitmap_Test_eq)

section \<open>What allocation clients rely on\<close>

text \<open>
  The contract of an allocator of numbered units: \<open>fnd\<close> returns -1 exactly when every unit
  is used and otherwise a unit that was free and is used from then on, \<open>clear\<close> frees a unit,
  and \<open>count\<close> is the number of free units. \<open>alloc_n fnd n\<close> is the loop
  \<open>for (i = 0; i < n; i++) a[i] = map->Find()\<close> of \<open>FileHeader::Allocate\<close>.
\<close>

fun alloc_n :: "('b \<Rightarrow> (int \<times> 'b) res) \<Rightarrow> nat \<Rightarrow> 'b \<Rightarrow> (int list \<times> 'b) res" where
  "alloc_n fnd 0 b = Inr ([], b)"
| "alloc_n fnd (Suc n) b =
     bindR (fnd b) (\<lambda>(s, b1). bindR (alloc_n fnd n b1) (\<lambda>(ss, b2). Inr (s # ss, b2)))"

locale allocator =
  fixes fnd :: "'b \<Rightarrow> (int \<times> 'b) res"
    and clear :: "'b \<Rightarrow> nat \<Rightarrow> 'b res"
    and count :: "'b \<Rightarrow> nat res"
    and used :: "'b \<Rightarrow> nat set"
    and capacity :: "'b \<Rightarrow> nat"
    and invar :: "'b \<Rightarrow> bool"
  assumes used_bound: "used b \<subseteq> {..<capacity b}"
    and find_full: "invar b \<Longrightarrow> used b = {..<capacity b} \<Longrightarrow> fnd b = Inr (-1, b)"
    and find_free: "invar b \<Longrightarrow> used b \<noteq> {..<capacity b} \<Longrightarrow>
      \<exists>i b'. fnd b = Inr (int i, b') \<and> i < capacity b \<and> i \<notin> used b
        \<and> used b' = insert i (used b) \<and> invar b' \<and> capacity b' = capacity b"
    and clear_ok: "invar b \<Longrightarrow> i < capacity b \<Longrightarrow>
      \<exists>b'. clear b i = Inr b' \<and> used b' = used b - {i} \<and> invar b' \<and> capacity b' = capacity b"
    and count_ok: "invar b \<Longrightarrow> count b = Inr (capacity b - card (used b))"
begin

lemma finite_used: "finite (used b)"
  using used_bound finite_lessThan by (rule finite_subset)

lemma card_used_le: "card (used b) \<le> capacity b"
  using card_mono [OF _ used_bound, of b] by simp

text \<open>With enough free units the loop takes \<open>n\<close> different units, all free before.\<close>

lemma alloc_n_ok:
  "invar b \<Longrightarrow> card (used b) + n \<le> capacity b \<Longrightarrow>
   \<exists>is b'. alloc_n fnd n b = Inr (map int is, b') \<and> length is = n \<and> distinct is
     \<and> set is \<subseteq> {..<capacity b} \<and> set is \<inter> used b = {}
     \<and> used b' = used b \<union> set is \<and> invar b' \<and> capacity b' = capacity b"
proof (induction n arbitrary: b)
  case 0
  then show ?case by simp
next
  case (Suc n)
  then have "used b \<noteq> {..<capacity b}" by auto
  then obtain i b1 where f: "fnd b = Inr (int i, b1)" "i < capacity b" "i \<notin> used b"
    "used b1 = insert i (used b)" "invar b1" "capacity b1 = capacity b"
    using find_free Suc.prems(1) by blast
  then have "card (used b1) + n \<le> capacity b1" using Suc.prems(2) finite_used [of b] by simp
  then obtain "is" b' where
    "alloc_n fnd n b1 = Inr (map int is, b')" "length is = n" "distinct is"
    "set is \<subseteq> {..<capacity b1}" "set is \<inter> used b1 = {}" "used b' = used b1 \<union> set is"
    "invar b'" "capacity b' = capacity b1"
    using Suc.IH f(5) by blast
  with f show ?case by (intro exI [of _ "i # is"] exI [of _ b']) auto
qed

text \<open>A unit is handed out again only after it was cleared.\<close>

lemma find_clear_find:
  assumes "invar b" "i < capacity b"
  shows "\<exists>b'. clear b i = Inr b' \<and> used b' \<noteq> {..<capacity b'}"
  using clear_ok [OF assms] assms(2) by auto

end

interpretation bm: allocator Bitmap_Find Bitmap_Clear Bitmap_CountClear marked numBits bitmap_inv
proof
  show "marked b \<subseteq> {..<numBits b}" for b by (rule marked_subset)
  show "Bitmap_Find b = Inr (- 1, b)" if "bitmap_inv b" "marked b = {..<numBits b}" for b
    using that by (rule Bitmap_Find_full)
  show "\<exists>i b'. Bitmap_Find b = Inr (int i, b') \<and> i < numBits b \<and> i \<notin> marked b
      \<and> marked b' = insert i (marked b) \<and> bitmap_inv b' \<and> numBits b' = numBits b"
    if "bitmap_inv b" "marked b \<noteq> {..<numBits b}" for b
    using Bitmap_Find_free [OF that] by blast
  show "\<exists>b'. Bitmap_Clear b i = Inr b' \<and> marked b' = marked b - {i} \<and> bitmap_inv b'
      \<and> numBits b' = numBits b" if "bitmap_inv b" "i < numBits b" for b i
    using Bitmap_Clear_ok [OF that] by blast
  show "Bitmap_CountClear b = Inr (numBits b - card (marked b))" if "bitmap_inv b" for b
    using that by (rule Bitmap_CountClear_ok)
qed

section \<open>Properties of the bitmap\<close>

text \<open>Marking and clearing a bit affects the later tests of that bit and of no other, over the
  word array that packs the bits.\<close>

theorem Bitmap_Mark_Clear_Test:
  assumes "bitmap_inv b" and "i < numBits b" and "j < numBits b"
  shows "\<exists>b' b''. Bitmap_Mark b i = Inr b' \<and> Bitmap_Test b' j = Inr (j = i \<or> j \<in> marked b) \<and>
     Bitmap_Clear b' i = Inr b'' \<and> Bitmap_Test b'' j = Inr (j \<noteq> i \<and> j \<in> marked b) \<and>
     Bitmap_Test b j = Inr (j \<in> marked b)"
proof -
  obtain b' where b': "Bitmap_Mark b i = Inr b'" "bitmap_inv b'" "numBits b' = numBits b"
      "marked b' = insert i (marked b)"
    using Bitmap_Mark_ok [OF assms(1,2)] by blast
  with Bitmap_Clear_ok [of b' i] assms(2) obtain b'' where b'': "Bitmap_Clear b' i = Inr b''"
      "bitmap_inv b''" "numBits b'' = numBits b" "marked b'' = marked b' - {i}"
    by auto
  show ?thesis
    using assms b' b'' by (auto simp add: Bitmap_Test_eq)
qed

text \<open>\<open>Find\<close> returns the lowest clear bit and marks it, changing no other bit; it returns -1
  exactly when every bit is set, and then changes nothing.\<close>

theorem Bitmap_Find_least:
  assumes "bitmap_inv b"
  shows "if \<forall>i<numBits b. i \<in> marked b then Bitmap_Find b = Inr (- 1, b)
     else \<exists>k b'. Bitmap_Find b = Inr (int k, b') \<and> k < numBits b \<and> k \<notin> marked b \<and>
            (\<forall>j<k. j \<in> marked b) \<and> marked b' = insert k (marked b) \<and> bitmap_inv b' \<and> numBits b' = numBits b"
proof (cases "\<forall>i<numBits b. i \<in> marked b")
  case True
  with marked_subset [of b] have "marked b = {..<numBits b}" by auto
  with Bitmap_Find_full [OF assms] True show ?thesis by simp
next
  case False
  then have ne: "marked b \<noteq> {..<numBits b}" by auto
  define k where "k = (LEAST i. i \<notin> marked b)"
  obtain b' where b': "Bitmap_Find b = Inr (int k, b') \<and> k < numBits b \<and> k \<notin> marked b
      \<and> bitmap_inv b' \<and> numBits b' = numBits b \<and> marked b' = insert k (marked b)"
    using Bitmap_Find_free [OF assms ne, folded k_def] by (rule exE)
  have "\<forall>j<k. j \<in> marked b"
    unfolding k_def by (intro allI impI) (drule not_less_Least, simp)
  with b' have "\<exists>k b'. Bitmap_Find b = Inr (int k, b') \<and> k < numBits b \<and> k \<notin> marked b \<and>
      (\<forall>j<k. j \<in> marked b) \<and> marked b' = insert k (marked b) \<and> bitmap_inv b' \<and> numBits b' = numBits b"
    by (intro exI [of _ k] exI [of _ b']) simp
  then show ?thesis unfolding if_not_P [OF False] .
qed

definition demo_map :: bitmap where
  "demo_map = \<lparr>numBits = 40, numWords = 2, bm_map = [0xFFFFFFFF, 1]\<rparr>"

lemma demo_map_inv: "bitmap_inv demo_map"
  by (simp add: bitmap_inv_def demo_map_def DivRoundUp_def BITS_IN_WORD_def)

theorem Bitmap_Find_least_witness:
  "\<exists>k b'. Bitmap_Find demo_map = Inr (int k, b') \<and> k \<notin> marked demo_map"
proof -
  have "33 \<notin> marked demo_map" "33 < numBits demo_map"
    by (simp_all add: marked_def demo_map_def BITS_IN_WORD_def)
  with Bitmap_Find_least [OF demo_map_inv] show ?thesis by (auto split: if_splits)
qed

end
