(* ===== verification/Filesys_OpenFile.thy ===== *)
theory Filesys_OpenFile
  imports Machine_Disk Lib_Bitmap
begin

text \<open>
  File headers and open files: \<open>filesys/raw_file_header.hh\<close>, \<open>filesys/file_header.cc\<close> and
  \<open>filesys/open_file.cc\<close>.

  A header is the record \<open>RawFileHeader\<close>; on disk it is the 128 bytes of the structure in the
  host's byte order (\<open>be\<close>). Positions, byte counts and sector numbers are 32-bit words, so the
  test \<open>position + numBytes > fileLength\<close> wraps as in the code. The temporary buffer of
  \<open>WriteAt\<close> comes from \<open>new char[]\<close>; its initial contents are the argument
  \<open>junk\<close>.
\<close>

section \<open>Words as bytes\<close>

definition bytes_of_words :: "bool \<Rightarrow> u32 list \<Rightarrow> u8 list" where
  "bytes_of_words be ws = concat (map (\<lambda>w. host_order be (bytes32 w)) ws)"

fun words_of_bytes :: "bool \<Rightarrow> u8 list \<Rightarrow> u32 list" where
  "words_of_bytes be (a # b # c # d # bs) = word_of_bytes (host_order be [a, b, c, d]) # words_of_bytes be bs"
| "words_of_bytes be bs = []"

lemma words_bytes_inverse [simp]: "words_of_bytes be (bytes_of_words be ws) = ws"
proof (induction ws)
  case (Cons w ws)
  obtain a b c d where h: "host_order be (bytes32 w) = [a, b, c, d]"
  proof -
    have "length (host_order be (bytes32 w)) = Suc (Suc (Suc (Suc 0)))" by simp
    then show thesis using that by (auto simp add: length_Suc_conv simp del: length_host_order)
  qed
  then have "word_of_bytes (host_order be [a, b, c, d]) = w"
    by (metis host_order_twice word_of_bytes32)
  with h Cons show ?case by (simp add: bytes_of_words_def)
qed (simp add: bytes_of_words_def)

lemma length_bytes_of_words [simp]: "length (bytes_of_words be ws) = 4 * length ws"
  by (induction ws) (simp_all add: bytes_of_words_def)

lemma length_words_of_bytes: "length (words_of_bytes be bs) = length bs div 4"
proof (induction be bs rule: words_of_bytes.induct)
  case (1 be a b c d bs)
  have "length (a # b # c # d # bs) div 4 = (length bs + 4) div 4" by simp
  also have "\<dots> = Suc (length bs div 4)" by (simp only: div_add_self2)
  finally show ?case using 1 by simp
qed simp_all

section \<open>File headers\<close>

definition NUM_DIRECT :: nat where "NUM_DIRECT = (SECTOR_SIZE - 2 * 4) div 4"
definition MAX_FILE_SIZE :: nat where "MAX_FILE_SIZE = NUM_DIRECT * SECTOR_SIZE"

lemmas file_sizes = disk_sizes NUM_DIRECT_def MAX_FILE_SIZE_def

record RawFileHeader =
  numBytes :: u32
  numSectors :: u32
  dataSectors :: "u32 list"

definition raw_bytes :: "bool \<Rightarrow> RawFileHeader \<Rightarrow> u8 list" where
  "raw_bytes be h = bytes_of_words be (numBytes h # numSectors h # dataSectors h)"

definition raw_of_bytes :: "bool \<Rightarrow> u8 list \<Rightarrow> RawFileHeader" where
  "raw_of_bytes be bs = (let ws = words_of_bytes be bs in
     \<lparr>numBytes = ws ! 0, numSectors = ws ! 1, dataSectors = drop 2 ws\<rparr>)"

fun set_words :: "u32 list \<Rightarrow> nat \<Rightarrow> int list \<Rightarrow> u32 list res" where
  "set_words a i [] = Inr a"
| "set_words a i (v # vs) = bindR (aset a i (word_of_int v)) (\<lambda>a. set_words a (Suc i) vs)"

definition FileHeader_Allocate ::
  "RawFileHeader \<Rightarrow> bitmap \<Rightarrow> u32 \<Rightarrow> (bool \<times> RawFileHeader \<times> bitmap) res" where
  "FileHeader_Allocate h freeMap fileSize =
    (if unat fileSize > MAX_FILE_SIZE then Inr (False, h, freeMap)
     else
       let h = h\<lparr>numBytes := fileSize, numSectors := of_nat (DivRoundUp (unat fileSize) SECTOR_SIZE)\<rparr> in
       bindR (Bitmap_CountClear freeMap) (\<lambda>clear.
       if clear < unat (numSectors h) then Inr (False, h, freeMap)
       else bindR (alloc_n Bitmap_Find (unat (numSectors h)) freeMap) (\<lambda>(ss, freeMap).
            bindR (set_words (dataSectors h) 0 ss) (\<lambda>ds.
            Inr (True, h\<lparr>dataSectors := ds\<rparr>, freeMap)))))"

fun deallocate_loop :: "bitmap \<Rightarrow> u32 list \<Rightarrow> nat \<Rightarrow> nat \<Rightarrow> bitmap res" where
  "deallocate_loop freeMap ds i 0 = Inr freeMap"
| "deallocate_loop freeMap ds i (Suc n) =
     bindR (aget ds i) (\<lambda>s.
     bindR (Bitmap_Test freeMap (unat s)) (\<lambda>t. ASSERT t (
     bindR (Bitmap_Clear freeMap (unat s)) (\<lambda>freeMap. deallocate_loop freeMap ds (Suc i) n))))"

definition FileHeader_Deallocate :: "RawFileHeader \<Rightarrow> bitmap \<Rightarrow> bitmap res" where
  "FileHeader_Deallocate h freeMap = deallocate_loop freeMap (dataSectors h) 0 (unat (numSectors h))"

definition FileHeader_FetchFrom :: "bool \<Rightarrow> disk \<Rightarrow> u32 \<Rightarrow> (RawFileHeader \<times> disk) res" where
  "FileHeader_FetchFrom be d s = bindR (ReadSector d s) (\<lambda>(bs, d). Inr (raw_of_bytes be bs, d))"

definition FileHeader_WriteBack :: "bool \<Rightarrow> RawFileHeader \<Rightarrow> disk \<Rightarrow> u32 \<Rightarrow> disk res" where
  "FileHeader_WriteBack be h d s = WriteSector d s (raw_bytes be h)"

definition ByteToSector :: "RawFileHeader \<Rightarrow> u32 \<Rightarrow> u32 res" where
  "ByteToSector h offset = aget (dataSectors h) (unat (offset div 128))"

definition FileLength :: "RawFileHeader \<Rightarrow> u32" where
  "FileLength h = numBytes h"

section \<open>Open files\<close>

record OpenFile =
  hdr :: RawFileHeader
  seekPosition :: u32

definition OpenFile_new :: "bool \<Rightarrow> disk \<Rightarrow> u32 \<Rightarrow> (OpenFile \<times> disk) res" where
  "OpenFile_new be d s = bindR (FileHeader_FetchFrom be d s) (\<lambda>(h, d).
     Inr (\<lparr>hdr = h, seekPosition = 0\<rparr>, d))"

definition OpenFile_Seek :: "OpenFile \<Rightarrow> u32 \<Rightarrow> OpenFile" where
  "OpenFile_Seek f position = f\<lparr>seekPosition := position\<rparr>"

text \<open>The sectors \<open>ByteToSector(i * SECTOR_SIZE)\<close> for the block numbers of a range.\<close>

fun sectors_of :: "RawFileHeader \<Rightarrow> nat list \<Rightarrow> u32 list res" where
  "sectors_of h [] = Inr []"
| "sectors_of h (i # is) = bindR (ByteToSector h (of_nat i * 128)) (\<lambda>s.
     bindR (sectors_of h is) (\<lambda>ss. Inr (s # ss)))"

definition OpenFile_ReadAt :: "OpenFile \<Rightarrow> disk \<Rightarrow> u32 \<Rightarrow> u32 \<Rightarrow> (u8 list \<times> disk) res" where
  "OpenFile_ReadAt f d n position =
    ASSERT (n > 0) (
    let fileLength = FileLength (hdr f) in
    if position \<ge> fileLength then Inr ([], d)
    else
      let n = (if position + n > fileLength then fileLength - position else n);
          firstSector = position div 128; lastSector = (position + n - 1) div 128 in
      bindR (sectors_of (hdr f) [unat firstSector..<Suc (unat lastSector)]) (\<lambda>ss.
      bindR (read_run ReadSector d ss) (\<lambda>(buf, d).
      let off = unat (position - firstSector * 128) in
      if off + unat n \<le> length buf then Inr (slice off (unat n) buf, d) else Inl OutOfBounds)))"

definition OpenFile_WriteAt ::
  "(nat \<Rightarrow> u8) \<Rightarrow> OpenFile \<Rightarrow> disk \<Rightarrow> u8 list \<Rightarrow> u32 \<Rightarrow> u32 \<Rightarrow> (u32 \<times> disk) res" where
  "OpenFile_WriteAt junk f d from n position =
    ASSERT (n > 0) (
    let fileLength = FileLength (hdr f) in
    if position \<ge> fileLength then Inr (0, d)
    else
      let n = (if position + n > fileLength then fileLength - position else n);
          firstSector = position div 128; lastSector = (position + n - 1) div 128;
          count = unat (1 + lastSector - firstSector);
          buf = map junk [0..<count * SECTOR_SIZE];
          firstAligned = (position = firstSector * 128);
          lastAligned = (position + n = (lastSector + 1) * 128) in
      bindR (if \<not> firstAligned then OpenFile_ReadAt f d 128 (firstSector * 128) else Inr ([], d)) (\<lambda>(head, d).
      let buf = blit buf 0 head in
      bindR (if \<not> lastAligned \<and> (firstSector \<noteq> lastSector \<or> firstAligned)
             then OpenFile_ReadAt f d 128 (lastSector * 128) else Inr ([], d)) (\<lambda>(tail, d).
      let buf = blit buf (unat ((lastSector - firstSector) * 128)) tail;
          off = unat (position - firstSector * 128) in
      if off + unat n \<le> length buf \<and> unat n \<le> length from then
        let buf = blit buf off (take (unat n) from) in
        bindR (sectors_of (hdr f) [unat firstSector..<Suc (unat lastSector)]) (\<lambda>ss.
        bindR (write_run WriteSector SECTOR_SIZE d ss buf) (\<lambda>d. Inr (n, d)))
      else Inl OutOfBounds)))"

definition OpenFile_Read :: "OpenFile \<Rightarrow> disk \<Rightarrow> u32 \<Rightarrow> (u8 list \<times> OpenFile \<times> disk) res" where
  "OpenFile_Read f d n = ASSERT (n > 0) (
     bindR (OpenFile_ReadAt f d n (seekPosition f)) (\<lambda>(data, d).
     Inr (data, f\<lparr>seekPosition := seekPosition f + of_nat (length data)\<rparr>, d)))"

definition OpenFile_Write ::
  "(nat \<Rightarrow> u8) \<Rightarrow> OpenFile \<Rightarrow> disk \<Rightarrow> u8 list \<Rightarrow> u32 \<Rightarrow> (u32 \<times> OpenFile \<times> disk) res" where
  "OpenFile_Write junk f d from n = ASSERT (n > 0) (
     bindR (OpenFile_WriteAt junk f d from n (seekPosition f)) (\<lambda>(result, d).
     Inr (result, f\<lparr>seekPosition := seekPosition f + result\<rparr>, d)))"

definition OpenFile_Length :: "OpenFile \<Rightarrow> u32" where
  "OpenFile_Length f = FileLength (hdr f)"

section \<open>Headers of files and the bytes of a file\<close>

definition hdr_ok :: "RawFileHeader \<Rightarrow> bool" where
  "hdr_ok h \<longleftrightarrow> length (dataSectors h) = NUM_DIRECT \<and> unat (numBytes h) \<le> MAX_FILE_SIZE \<and>
     unat (numSectors h) = DivRoundUp (unat (numBytes h)) SECTOR_SIZE \<and>
     distinct (take (unat (numSectors h)) (dataSectors h)) \<and>
     (\<forall>s\<in>set (take (unat (numSectors h)) (dataSectors h)). unat s < NUM_SECTORS)"

definition file_sectors :: "RawFileHeader \<Rightarrow> nat set" where
  "file_sectors h = unat ` set (take (unat (numSectors h)) (dataSectors h))"

definition file_byte :: "disk \<Rightarrow> RawFileHeader \<Rightarrow> nat \<Rightarrow> u8" where
  "file_byte d h x = sector d (unat (dataSectors h ! (x div 128))) ! (x mod 128)"

definition file_bytes :: "disk \<Rightarrow> RawFileHeader \<Rightarrow> u8 list" where
  "file_bytes d h = map (file_byte d h) [0..<unat (numBytes h)]"

lemma nth_concat_blocks:
  "\<forall>xs\<in>set xss. length xs = b \<Longrightarrow> 0 < b \<Longrightarrow> k < length xss * b \<Longrightarrow>
     concat xss ! k = xss ! (k div b) ! (k mod b)"
proof (induction xss arbitrary: k)
  case (Cons xs xss)
  show ?case
  proof (cases "k < b")
    case False
    then have "k div b = Suc ((k - b) div b)" "k mod b = (k - b) mod b"
      using Cons.prems(2) by (simp_all add: le_div_geq le_mod_geq)
    with False Cons show ?thesis by (simp add: nth_append)
  qed (use Cons in \<open>simp add: nth_append\<close>)
qed simp

lemma length_concat_blocks:
  "\<forall>xs\<in>set xss. length xs = b \<Longrightarrow> length (concat xss) = length xss * b"
  by (induction xss) simp_all

lemma sectors_of_ok:
  assumes "hdr_ok h" and "j \<le> NUM_DIRECT"
  shows "sectors_of h [i..<j] = Inr (map (\<lambda>k. dataSectors h ! k) [i..<j])"
proof -
  have "ByteToSector h (of_nat k * 128) = Inr (dataSectors h ! k)" if "k < NUM_DIRECT" for k
  proof -
    have "unat (of_nat k * 128 div 128 :: u32) = k"
      using that by (simp add: unat_div unat_mult32 unat_of_nat file_sizes)
    with that assms(1) show ?thesis by (simp add: ByteToSector_def hdr_ok_def)
  qed
  then have "\<forall>k\<in>set ks. k < NUM_DIRECT \<Longrightarrow> sectors_of h ks = Inr (map (\<lambda>k. dataSectors h ! k) ks)" for ks
    by (induction ks) simp_all
  from this [of "[i..<j]"] assms(2) show ?thesis by simp
qed

lemma block_sector:
  assumes "hdr_ok h" and "x < unat (numBytes h)"
  shows "x div 128 < unat (numSectors h)" and "x div 128 < NUM_DIRECT"
    and "unat (dataSectors h ! (x div 128)) < NUM_SECTORS"
    and "unat (dataSectors h ! (x div 128)) \<in> file_sectors h"
proof -
  show 1: "x div 128 < unat (numSectors h)"
    using assms div_less_DivRoundUp [of 128 x] by (simp add: hdr_ok_def SECTOR_SIZE_def)
  moreover have "unat (numSectors h) \<le> NUM_DIRECT"
    using assms(1) DivRoundUp_le_iff [of 128] by (simp add: hdr_ok_def file_sizes)
  ultimately show 2: "x div 128 < NUM_DIRECT" by simp
  have "dataSectors h ! (x div 128) \<in> set (take (unat (numSectors h)) (dataSectors h))"
    using 1 2 assms(1) by (auto simp add: in_set_conv_nth hdr_ok_def intro: exI [of _ "x div 128"])
  then show "unat (dataSectors h ! (x div 128)) < NUM_SECTORS"
    and "unat (dataSectors h ! (x div 128)) \<in> file_sectors h"
    using assms(1) by (auto simp add: hdr_ok_def file_sectors_def)
qed

text \<open>The sectors of the blocks that hold a range of the file.\<close>

lemma range_sectors:
  assumes "hdr_ok h" and "0 < n" and "p + n \<le> unat (numBytes h)"
  defines "ss \<equiv> map (\<lambda>k. dataSectors h ! k) [p div 128..<Suc ((p + n - 1) div 128)]"
  shows "sectors_of h [p div 128..<Suc ((p + n - 1) div 128)] = Inr ss"
    and "\<forall>s\<in>set ss. unat s < NUM_SECTORS" and "distinct ss" and "unat ` set ss \<subseteq> file_sectors h"
    and "length ss = Suc ((p + n - 1) div 128) - p div 128"
proof -
  let ?l = "(p + n - 1) div 128"
  have last: "?l < NUM_DIRECT" "?l < unat (numSectors h)"
    using block_sector [OF assms(1), of "p + n - 1"] assms(2,3) by auto
  show "sectors_of h [p div 128..<Suc ?l] = Inr ss"
    unfolding ss_def using last by (intro sectors_of_ok [OF assms(1)]) simp
  have each: "unat (dataSectors h ! k) < NUM_SECTORS \<and> unat (dataSectors h ! k) \<in> file_sectors h"
    if "k \<le> ?l" for k
  proof -
    have "k * 128 < unat (numBytes h)"
      using that assms(2,3) div_times_less_eq_dividend [of "p + n - 1" 128] mult_le_mono1 [OF that, of 128]
      by linarith
    from block_sector(3,4) [OF assms(1) this] show ?thesis by simp
  qed
  then show "\<forall>s\<in>set ss. unat s < NUM_SECTORS" "unat ` set ss \<subseteq> file_sectors h"
    by (auto simp add: ss_def less_Suc_eq_le simp del: upt_Suc)
  have "ss = drop (p div 128) (take (Suc ?l) (dataSectors h))"
    using last assms(1) by (intro nth_equalityI) (auto simp add: ss_def hdr_ok_def less_diff_conv add.commute
          simp del: upt_Suc)
  moreover have "distinct (take (Suc ?l) (dataSectors h))"
  proof -
    have "distinct (take (unat (numSectors h)) (dataSectors h))"
      using assms(1) unfolding hdr_ok_def by blast
    from distinct_take [OF this, of "Suc ?l"] last(2) show ?thesis by (simp add: min_def)
  qed
  ultimately show "distinct ss" by simp
  show "length ss = Suc ?l - p div 128" by (simp add: ss_def del: upt_Suc)
qed

lemma range_bytes:
  assumes "hdr_ok h" and "disk_ok d" and "0 < n" and "p + n \<le> unat (numBytes h)"
    and "k < (Suc ((p + n - 1) div 128) - p div 128) * 128"
  shows "concat (map (\<lambda>s. sector d (unat s)) (map (\<lambda>k. dataSectors h ! k)
           [p div 128..<Suc ((p + n - 1) div 128)])) ! k = file_byte d h (p div 128 * 128 + k)"
    and "length (concat (map (\<lambda>s. sector d (unat s)) (map (\<lambda>k. dataSectors h ! k)
           [p div 128..<Suc ((p + n - 1) div 128)]))) = (Suc ((p + n - 1) div 128) - p div 128) * 128"
proof -
  note r = range_sectors [OF assms(1,3,4)]
  let ?ss = "map (\<lambda>k. dataSectors h ! k) [p div 128..<Suc ((p + n - 1) div 128)]"
  let ?xss = "map (\<lambda>s. sector d (unat s)) ?ss"
  have b: "\<forall>xs\<in>set ?xss. length xs = 128"
    using r(2) assms(2) by (auto simp add: SECTOR_SIZE_def [symmetric] simp del: upt_Suc)
  show "length (concat ?xss) = (Suc ((p + n - 1) div 128) - p div 128) * 128"
    using length_concat_blocks [OF b] by (simp del: upt_Suc)
  have k: "k div 128 < Suc ((p + n - 1) div 128) - p div 128"
    using assms(5) by (simp add: div_less_iff_less_mult)
  have "concat ?xss ! k = ?xss ! (k div 128) ! (k mod 128)"
    using nth_concat_blocks [OF b, of k] assms(5) by (simp del: upt_Suc)
  also have "?xss ! (k div 128) = sector d (unat (dataSectors h ! (p div 128 + k div 128)))"
    using k by (simp del: upt_Suc)
  also have "\<dots> ! (k mod 128) = file_byte d h (p div 128 * 128 + k)"
    by (simp add: file_byte_def)
  finally show "concat ?xss ! k = file_byte d h (p div 128 * 128 + k)" .
qed

section \<open>Block arithmetic of a request\<close>

lemma request_span:
  assumes "0 < (m :: nat)"
  shows "p div 128 \<le> (p + m - 1) div 128"
    and "p mod 128 + m \<le> (Suc ((p + m - 1) div 128) - p div 128) * 128"
proof -
  show le: "p div 128 \<le> (p + m - 1) div 128" using assms by (intro div_le_mono) simp
  then have "(Suc ((p + m - 1) div 128) - p div 128) * 128 + p div 128 * 128 = Suc ((p + m - 1) div 128) * 128"
    by (simp flip: distrib_right)
  moreover have "p + m - 1 < Suc ((p + m - 1) div 128) * 128" by (simp add: dividend_less_times_div)
  ultimately show "p mod 128 + m \<le> (Suc ((p + m - 1) div 128) - p div 128) * 128"
    using div_mult_mod_eq [of p 128] assms by linarith
qed

lemma request_words:
  assumes "unat (n :: u32) = m" and "0 < m" and "unat pos + m \<le> 4000"
  shows "unat ((pos + n - 1) div 128) = (unat pos + m - 1) div 128"
    and "unat (pos div 128) = unat pos div 128"
    and "unat (pos - pos div 128 * 128) = unat pos mod 128"
    and "unat (pos div 128 * 128) = unat pos div 128 * 128"
    and "unat ((pos + n - 1) div 128 * 128) = (unat pos + m - 1) div 128 * 128"
proof -
  have "unat (pos + n) = unat pos + m" using assms by (simp add: unat_add32)
  then show l: "unat ((pos + n - 1) div 128) = (unat pos + m - 1) div 128"
    using assms(2) by (simp add: unat_div unat_sub_if')
  show f: "unat (pos div 128) = unat pos div 128" by (simp add: unat_div)
  show "unat (pos - pos div 128 * 128) = unat pos mod 128"
    by (simp add: minus_div_mult_eq_mod unat_mod)
  have "unat pos div 128 * 128 \<le> unat pos" "(unat pos + m - 1) div 128 * 128 \<le> unat pos + m - 1"
    by (rule div_times_less_eq_dividend)+
  then show "unat (pos div 128 * 128) = unat pos div 128 * 128"
    and "unat ((pos + n - 1) div 128 * 128) = (unat pos + m - 1) div 128 * 128"
    using assms(3) by (simp_all add: unat_mult32 f l)
qed

section \<open>Reading\<close>

lemma ReadAt_ok:
  assumes "hdr_ok (hdr f)" and "disk_ok d" and "0 < n" and "unat pos < unat (numBytes (hdr f))"
    and "unat pos + unat n < 4294967296"
  defines "m \<equiv> min (unat n) (unat (numBytes (hdr f)) - unat pos)"
  shows "\<exists>d'. OpenFile_ReadAt f d n pos = Inr (map (file_byte d (hdr f)) [unat pos..<unat pos + m], d') \<and>
     disk_ok d' \<and> sector d' = sector d"
proof -
  let ?h = "hdr f" and ?p = "unat pos" and ?len = "unat (numBytes (hdr f))"
  define n' where "n' = (if pos + n > FileLength ?h then FileLength ?h - pos else n)"
  have n': "unat n' = m"
    using assms(4,5) by (auto simp add: n'_def m_def FileLength_def word_less_nat_alt unat_add32 unat_sub_if')
  have m: "0 < m" "?p + m \<le> ?len"
    using assms(3,4) by (auto simp add: m_def word_less_nat_alt)
  have len: "?p + m \<le> 4000" using m(2) assms(1) by (simp add: hdr_ok_def file_sizes)
  note w = request_words [OF n' m(1) len]
  note r = range_sectors [OF assms(1) m]
  let ?ss = "map (\<lambda>k. dataSectors ?h ! k) [?p div 128..<Suc ((?p + m - 1) div 128)]"
  let ?buf = "concat (map (\<lambda>s. sector d (unat s)) ?ss)"
  obtain d' where d': "read_run ReadSector d ?ss = Inr (?buf, d')" "disk_ok d'" "sector d' = sector d"
    using sd.read_run_ok [OF assms(2) r(2)] by blast
  let ?c = "Suc ((?p + m - 1) div 128) - ?p div 128"
  note span = request_span(2) [OF m(1), of ?p]
  have lb: "length ?buf = ?c * 128"
    by (rule range_bytes(2) [OF assms(1,2) m, of 0]) (use span m(1) in linarith)
  have "slice (?p mod 128) m ?buf = map (file_byte d ?h) [?p..<?p + m]"
  proof (rule nth_equalityI)
    show "length (slice (?p mod 128) m ?buf) = length (map (file_byte d ?h) [?p..<?p + m])"
      using span lb by (subst length_slice) simp_all
    fix i
    assume "i < length (slice (?p mod 128) m ?buf)"
    then have i: "i < m" using span lb by (subst (asm) length_slice) simp_all
    have "slice (?p mod 128) m ?buf ! i = ?buf ! (?p mod 128 + i)"
      using span lb i by (intro nth_slice) simp_all
    also have "\<dots> = file_byte d ?h (?p div 128 * 128 + (?p mod 128 + i))"
      using span i by (intro range_bytes(1) [OF assms(1,2) m]) linarith
    also have "?p div 128 * 128 + (?p mod 128 + i) = ?p + i" by (simp add: algebra_simps)
    finally show "slice (?p mod 128) m ?buf ! i = map (file_byte d ?h) [?p..<?p + m] ! i"
      using i by simp
  qed
  moreover have "OpenFile_ReadAt f d n pos = Inr (slice (?p mod 128) m ?buf, d')"
    unfolding OpenFile_ReadAt_def Let_def n'_def [symmetric] w n'
    using assms(3,4) r(1) d'(1) lb span by (simp add: FileLength_def word_le_nat_alt del: upt_Suc)
  ultimately show ?thesis using d'(2,3) by auto
qed

lemma ReadAt_block:
  assumes "hdr_ok (hdr f)" and "disk_ok d" and "unat w = b * 128" and "b * 128 < unat (numBytes (hdr f))"
  shows "\<exists>d'. OpenFile_ReadAt f d 128 w =
      Inr (map (file_byte d (hdr f)) [b * 128..<b * 128 + min 128 (unat (numBytes (hdr f)) - b * 128)], d') \<and>
     disk_ok d' \<and> sector d' = sector d"
proof -
  have "unat w + unat (128 :: u32) < 4294967296"
    using assms(1,3,4) by (simp add: hdr_ok_def file_sizes)
  from ReadAt_ok [OF assms(1,2) _ _ this] assms(3,4) show ?thesis by simp
qed

section \<open>Writing\<close>

text \<open>The buffer of \<open>WriteAt\<close> once the partial sectors have been read in: it agrees with the
  file at every byte of its sectors that the request leaves alone.\<close>

definition fill_buf ::
  "(nat \<Rightarrow> u8) \<Rightarrow> nat \<Rightarrow> nat \<Rightarrow> nat \<Rightarrow> nat \<Rightarrow> u8 list \<Rightarrow> u8 list" where
  "fill_buf g len p m c buf =
    (let F = p div 128; L = (p + m - 1) div 128;
         head = (if p mod 128 \<noteq> 0 then map g [F * 128..<F * 128 + min 128 (len - F * 128)] else []);
         tail = (if p + m \<noteq> Suc L * 128 \<and> (F \<noteq> L \<or> p mod 128 = 0)
                 then map g [L * 128..<L * 128 + min 128 (len - L * 128)] else []) in
     blit (blit buf 0 head) ((L - F) * 128) tail)"

lemma fill_buf_ok:
  assumes "0 < m" and "p + m \<le> len" and "c = Suc ((p + m - 1) div 128) - p div 128"
    and "length buf = c * 128"
  shows "length (fill_buf g len p m c buf) = c * 128"
    and "k < c * 128 \<Longrightarrow> p div 128 * 128 + k < len \<Longrightarrow> k < p mod 128 \<or> p mod 128 + m \<le> k \<Longrightarrow>
      fill_buf g len p m c buf ! k = g (p div 128 * 128 + k)"
proof -
  define F L where "F = p div 128" and "L = (p + m - 1) div 128"
  define q where "q = p mod 128"
  have FL: "F \<le> L" using request_span(1) [OF assms(1)] by (simp add: F_def L_def)
  have p: "p = F * 128 + q" "q < 128" by (simp_all add: F_def q_def)
  have c: "c = Suc (L - F)" using assms(3) FL by (simp add: F_def L_def Suc_diff_le)
  have L: "L * 128 \<le> p + m - 1" "p + m - 1 < Suc L * 128"
    unfolding L_def by (rule div_times_less_eq_dividend) (simp add: dividend_less_times_div)
  define H where "H = (if q \<noteq> 0 then map g [F * 128..<F * 128 + min 128 (len - F * 128)] else [])"
  define T where "T = (if p + m \<noteq> Suc L * 128 \<and> (F \<noteq> L \<or> q = 0)
                 then map g [L * 128..<L * 128 + min 128 (len - L * 128)] else [])"
  have eq: "fill_buf g len p m c buf = blit (blit buf 0 H) ((L - F) * 128) T"
    by (simp add: fill_buf_def F_def L_def q_def H_def T_def Let_def)
  have lh: "0 + length H \<le> length buf" using assms(4) c by (simp add: H_def min_def)
  then have lb: "length (blit buf 0 H) = c * 128" using assms(4) by simp
  have lt: "(L - F) * 128 + length T \<le> length (blit buf 0 H)" using lb c by (simp add: T_def min_def)
  show "length (fill_buf g len p m c buf) = c * 128" using lt lb eq by simp
  assume k: "k < c * 128" "p div 128 * 128 + k < len" "k < p mod 128 \<or> p mod 128 + m \<le> k"
  then have k': "k < c * 128" "F * 128 + k < len" "k < q \<or> q + m \<le> k" by (simp_all add: F_def q_def)
  have nth: "fill_buf g len p m c buf ! k =
      (if (L - F) * 128 \<le> k \<and> k < (L - F) * 128 + length T then T ! (k - (L - F) * 128)
       else if k < length H then H ! k else buf ! k)"
    using lt lb lh k'(1) assms(4) by (simp add: eq nth_blit)
  have FL': "(L - F) * 128 + F * 128 = L * 128" using FL by (simp flip: distrib_right)
  show "fill_buf g len p m c buf ! k = g (p div 128 * 128 + k)"
  proof (cases "(L - F) * 128 \<le> k \<and> k < (L - F) * 128 + length T")
    case True
    then have t: "T = map g [L * 128..<L * 128 + min 128 (len - L * 128)]" by (auto simp add: T_def split: if_splits)
    have i: "k - (L - F) * 128 < min 128 (len - L * 128)" using True unfolding t by simp linarith
    have e: "L * 128 + (k - (L - F) * 128) = F * 128 + k" using True FL' by linarith
    have "T ! (k - (L - F) * 128) = g (L * 128 + (k - (L - F) * 128))"
      unfolding t using i by (subst nth_map) (simp_all add: nth_upt)
    with True nth e show ?thesis by (simp add: F_def [symmetric])
  next
    case False
    have h: "q \<noteq> 0 \<and> k < min 128 (len - F * 128)"
    proof (cases "k < q")
      case True
      with k'(2) p(2) show ?thesis by auto
    next
      case b: False
      with k'(3) have km: "q + m \<le> k" by simp
      have "Suc L * 128 = c * 128 + F * 128" using c FL' by simp
      then have "p + m \<noteq> Suc L * 128" using km k'(1) p(1) by linarith
      moreover have "(L - F) * 128 \<le> k" using km p(1) L(1) FL' assms(1) by linarith
      moreover have "k < (L - F) * 128 + min 128 (len - L * 128)"
        using k'(1,2) c FL' by (simp add: min_def) linarith
      ultimately have "F = L \<and> q \<noteq> 0" using False by (auto simp add: T_def split: if_splits)
      with k'(1,2) c show ?thesis by auto
    qed
    then have "H ! k = g (F * 128 + k)" "k < length H" by (simp_all add: H_def)
    with nth False show ?thesis by (auto simp add: F_def [symmetric])
  qed
qed

lemma WriteAt_eq:
  assumes "hdr_ok (hdr f)" and "disk_ok d" and "0 < n" and "unat pos < unat (numBytes (hdr f))"
    and "unat pos + unat n < 4294967296"
  defines "m \<equiv> min (unat n) (unat (numBytes (hdr f)) - unat pos)"
  defines "c \<equiv> Suc ((unat pos + m - 1) div 128) - unat pos div 128"
  assumes "m \<le> length from"
  shows "\<exists>d'. disk_ok d' \<and> sector d' = sector d \<and> OpenFile_WriteAt junk f d from n pos =
     bindR (write_run WriteSector SECTOR_SIZE d'
         (map (\<lambda>k. dataSectors (hdr f) ! k) [unat pos div 128..<Suc ((unat pos + m - 1) div 128)])
         (blit (fill_buf (file_byte d (hdr f)) (unat (numBytes (hdr f))) (unat pos) m c
                  (map junk [0..<c * 128])) (unat pos mod 128) (take m from)))
       (\<lambda>d. Inr (of_nat m, d))"
proof -
  let ?h = "hdr f" and ?p = "unat pos" and ?len = "unat (numBytes (hdr f))"
  let ?F = "?p div 128" and ?L = "(?p + m - 1) div 128"
  define n' where "n' = (if pos + n > FileLength ?h then FileLength ?h - pos else n)"
  have n': "unat n' = m"
    using assms(4,5) by (auto simp add: n'_def m_def FileLength_def word_less_nat_alt unat_add32 unat_sub_if')
  have m: "0 < m" "?p + m \<le> ?len"
    using assms(3,4) by (auto simp add: m_def word_less_nat_alt)
  have len: "?p + m \<le> 4000" using m(2) assms(1) by (simp add: hdr_ok_def file_sizes)
  note w = request_words [OF n' m(1) len]
  note r = range_sectors [OF assms(1) m]
  have fa: "(pos = pos div 128 * 128) = (?p mod 128 = 0)"
    by (metis w(3) right_minus_eq unat_eq_0)
  define fw lw where "fw = pos div 128" and "lw = (pos + n' - 1) div 128"
  have fl: "unat fw = ?F" "unat lw = ?L" using w by (simp_all add: fw_def lw_def)
  have FL: "?F \<le> ?L" "?L \<le> 31" using request_span(1) [OF m(1), of ?p] len by (simp_all add: div_le_mono)
  have cnt: "unat (1 + lw - fw) = c"
    using FL by (simp add: unat_sub_if' unat_add32 fl c_def)
  have la: "(pos + n' = (lw + 1) * 128) = (?p + m = Suc ?L * 128)"
    using FL len by (auto simp add: word_unat_eq_iff unat_add32 unat_mult32 fl n')
  have ti: "unat ((lw - fw) * 128) = (?L - ?F) * 128"
    using FL by (simp add: unat_mult32 unat_sub_if' fl diff_mult_distrib)
  have ne: "(fw \<noteq> lw) = (?F \<noteq> ?L)" by (simp add: word_unat_eq_iff fl)
  have b: "?F * 128 < ?len" "?L * 128 < ?len"
    using div_times_less_eq_dividend [of ?p 128] div_times_less_eq_dividend [of "?p + m - 1" 128] m assms(4)
    by linarith+
  let ?hd = "if ?p mod 128 \<noteq> 0 then map (file_byte d ?h) [?F * 128..<?F * 128 + min 128 (?len - ?F * 128)] else []"
  let ?tl = "if ?p + m \<noteq> Suc ?L * 128 \<and> (?F \<noteq> ?L \<or> ?p mod 128 = 0)
     then map (file_byte d ?h) [?L * 128..<?L * 128 + min 128 (?len - ?L * 128)] else []"
  obtain d1 where d1: "disk_ok d1" "sector d1 = sector d"
    "(if \<not> (?p mod 128 = 0) then OpenFile_ReadAt f d 128 (fw * 128) else Inr ([], d)) = Inr (?hd, d1)"
    using ReadAt_block [OF assms(1,2) w(4) b(1)] assms(2) that unfolding fw_def [symmetric]
    by (cases "?p mod 128 = 0") auto
  have fb: "file_byte d1 ?h = file_byte d ?h" using d1(2) by (simp add: fun_eq_iff file_byte_def)
  obtain d2 where d2: "disk_ok d2" "sector d2 = sector d"
    "(if \<not> (?p + m = Suc ?L * 128) \<and> (?F \<noteq> ?L \<or> ?p mod 128 = 0)
      then OpenFile_ReadAt f d1 128 (lw * 128) else Inr ([], d1)) = Inr (?tl, d2)"
    using ReadAt_block [OF assms(1) d1(1) w(5) b(2)] d1(1,2) fb that unfolding lw_def [symmetric]
    by (cases "\<not> (?p + m = Suc ?L * 128) \<and> (?F \<noteq> ?L \<or> ?p mod 128 = 0)") auto
  define buf where "buf = fill_buf (file_byte d ?h) ?len ?p m c (map junk [0..<c * 128])"
  have lbuf: "length buf = c * 128"
    unfolding buf_def by (rule fill_buf_ok(1) [OF m]) (simp_all add: c_def)
  have buf: "blit (blit (map junk [0..<c * SECTOR_SIZE]) 0 ?hd) ((?L - ?F) * 128) ?tl = buf"
    by (simp add: buf_def fill_buf_def Let_def SECTOR_SIZE_def)
  have span: "?p mod 128 + m \<le> c * 128" using request_span(2) [OF m(1)] by (simp add: c_def)
  have "OpenFile_WriteAt junk f d from n pos =
     bindR (write_run WriteSector SECTOR_SIZE d2 (map (\<lambda>k. dataSectors ?h ! k) [?F..<Suc ?L])
         (blit buf (?p mod 128) (take m from))) (\<lambda>d. Inr (n', d))"
    unfolding OpenFile_WriteAt_def Let_def n'_def [symmetric] fw_def [symmetric] lw_def [symmetric]
      cnt fa [folded fw_def] la ti ne fl w(3) [folded fw_def] n'
    using assms(3,4,8) d1(3) d2(3) r(1) lbuf span buf
    by (simp add: FileLength_def word_le_nat_alt del: upt_Suc)
  moreover have "n' = of_nat m" unfolding n' [symmetric] by simp
  ultimately show ?thesis using d2(1,2) unfolding buf_def by auto
qed

lemma sector_elsewhere:
  assumes "hdr_ok h" and "x < unat (numBytes h)" and "0 < m" and "p + m \<le> unat (numBytes h)"
    and "\<not> (p div 128 \<le> x div 128 \<and> x div 128 \<le> (p + m - 1) div 128)"
    and "s \<in> set (map (\<lambda>k. dataSectors h ! k) [p div 128..<Suc ((p + m - 1) div 128)])"
  shows "unat s \<noteq> unat (dataSectors h ! (x div 128))"
proof -
  from assms(6) obtain k where k: "p div 128 \<le> k" "k \<le> (p + m - 1) div 128" "s = dataSectors h ! k"
    by (auto simp add: less_Suc_eq_le simp del: upt_Suc)
  let ?t = "take (unat (numSectors h)) (dataSectors h)"
  have "p + m - 1 < unat (numBytes h)" using assms(3,4) by linarith
  then have "k < unat (numSectors h)" "x div 128 < unat (numSectors h)"
    using block_sector(1) [OF assms(1), of "p + m - 1"] block_sector(1) [OF assms(1,2)] k(2)
    by linarith+
  moreover have "unat (numSectors h) \<le> length (dataSectors h)"
    using assms(1) DivRoundUp_le_iff [of 128] by (simp add: hdr_ok_def file_sizes)
  moreover have "distinct ?t" using assms(1) unfolding hdr_ok_def by blast
  moreover have "k \<noteq> x div 128" using k assms(5) by auto
  ultimately have "?t ! k \<noteq> ?t ! (x div 128)"
    using nth_eq_iff_index_eq [of ?t k "x div 128"] by simp
  then show ?thesis
    using k(3) \<open>k < _\<close> \<open>x div 128 < _\<close> by (simp add: word_unat_eq_iff)
qed

text \<open>What a byte of the file is after the sectors of a request have been written with the filled buffer.\<close>

lemma written_byte:
  assumes h: "hdr_ok h" "disk_ok d'" and m: "0 < m" "p + m \<le> unat (numBytes h)" "m \<le> length data"
    and x: "p div 128 \<le> x div 128" "x div 128 \<le> (p + m - 1) div 128" "x < unat (numBytes h)"
    and c: "c = Suc ((p + m - 1) div 128) - p div 128" and l: "length buf = c * 128"
    and w: "concat (map (\<lambda>s. sector d' (unat s)) (map (\<lambda>k. dataSectors h ! k) [p div 128..<Suc ((p + m - 1) div 128)])) =
      blit (fill_buf (file_byte d h) (unat (numBytes h)) p m c buf) (p mod 128) (take m data)"
  shows "file_byte d' h x = (if p \<le> x \<and> x < p + m then data ! (x - p) else file_byte d h x)"
proof -
  let ?F = "p div 128" and ?L = "(p + m - 1) div 128" and ?fb = "fill_buf (file_byte d h) (unat (numBytes h)) p m c buf"
  have lfb: "length ?fb = c * 128" by (rule fill_buf_ok(1) [OF m(1,2) c l])
  have span: "p mod 128 + m \<le> c * 128" using request_span(2) [OF m(1)] by (simp add: c)
  define k where "k = x - ?F * 128"
  have "?F * 128 \<le> x" using x(1) by (metis div_times_less_eq_dividend le_trans mult_le_mono1)
  then have xk: "x = ?F * 128 + k" by (simp add: k_def)
  have "x < Suc ?L * 128" using x(2) dividend_less_times_div [of 128 x] mult_le_mono2 [of "x div 128" ?L 128] by simp
  moreover have "c * 128 + ?F * 128 = Suc ?L * 128" using x(1,2) by (simp add: c flip: distrib_right)
  ultimately have k: "k < c * 128" using xk by linarith
  have "file_byte d' h x = blit ?fb (p mod 128) (take m data) ! k"
    using range_bytes(1) [OF h m(1,2) k [unfolded c]] w xk by simp
  also have "\<dots> = (if p mod 128 \<le> k \<and> k < p mod 128 + m then data ! (k - p mod 128) else ?fb ! k)"
    using k lfb span m(3) by (auto simp add: nth_blit)
  also have "\<dots> = (if p \<le> x \<and> x < p + m then data ! (x - p) else file_byte d h x)"
  proof -
    have p: "p = ?F * 128 + p mod 128" by simp
    then have e: "(p mod 128 \<le> k \<and> k < p mod 128 + m) = (p \<le> x \<and> x < p + m)" "k - p mod 128 = x - p"
      using xk by linarith+
    have "?fb ! k = file_byte d h x" if "\<not> (p \<le> x \<and> x < p + m)"
      unfolding xk by (rule fill_buf_ok(2) [OF m(1,2) c l k]) (use that x xk e in auto)
    with e show ?thesis by simp
  qed
  finally show ?thesis .
qed

lemma file_bytes_blit:
  assumes "\<forall>x<unat (numBytes h). file_byte d' h x = (if p \<le> x \<and> x < p + length data then data ! (x - p) else file_byte d h x)"
    and "p + length data \<le> unat (numBytes h)"
  shows "file_bytes d' h = blit (file_bytes d h) p data"
proof (rule nth_equalityI)
  have l: "p + length data \<le> length (file_bytes d h)" using assms(2) by (simp add: file_bytes_def)
  then show "length (file_bytes d' h) = length (blit (file_bytes d h) p data)"
    by (subst length_blit) (simp_all add: file_bytes_def)
  fix x
  assume "x < length (file_bytes d' h)"
  then have x: "x < unat (numBytes h)" "x < length (file_bytes d h)" by (simp_all add: file_bytes_def)
  with assms(1) nth_blit [OF l x(2)] show "file_bytes d' h ! x = blit (file_bytes d h) p data ! x"
    by (simp add: file_bytes_def)
qed

lemma WriteAt_ok:
  assumes "hdr_ok (hdr f)" and "disk_ok d" and "0 < n" and "unat pos < unat (numBytes (hdr f))"
    and "unat pos + unat n < 4294967296"
  defines "m \<equiv> min (unat n) (unat (numBytes (hdr f)) - unat pos)"
  assumes "m \<le> length from"
  shows "\<exists>d'. OpenFile_WriteAt junk f d from n pos = Inr (of_nat m, d') \<and> disk_ok d' \<and>
     file_bytes d' (hdr f) = blit (file_bytes d (hdr f)) (unat pos) (take m from) \<and>
     (\<forall>i<NUM_SECTORS. i \<notin> file_sectors (hdr f) \<longrightarrow> sector d' i = sector d i)"
proof -
  let ?h = "hdr f" and ?p = "unat pos"
  let ?F = "?p div 128" and ?L = "(?p + m - 1) div 128"
  let ?ss = "map (\<lambda>k. dataSectors ?h ! k) [?F..<Suc ?L]"
  have m: "0 < m" "?p + m \<le> unat (numBytes ?h)"
    using assms(3,4) by (auto simp add: m_def word_less_nat_alt)
  define c where "c = Suc ?L - ?F"
  define fb where "fb = fill_buf (file_byte d ?h) (unat (numBytes ?h)) ?p m c (map junk [0..<c * 128])"
  have lfb: "length fb = c * 128"
    unfolding fb_def by (rule fill_buf_ok(1) [OF m]) (simp_all add: c_def)
  obtain d1 where d1: "disk_ok d1" "sector d1 = sector d"
    "OpenFile_WriteAt junk f d from n pos =
      bindR (write_run WriteSector SECTOR_SIZE d1 ?ss (blit fb (?p mod 128) (take m from))) (\<lambda>d. Inr (of_nat m, d))"
    using WriteAt_eq [OF assms(1-5) assms(7) [unfolded m_def], of junk]
    unfolding m_def [symmetric] c_def [symmetric] fb_def [symmetric] by metis
  note r = range_sectors [OF assms(1) m]
  have "?p mod 128 + m \<le> c * 128" using request_span(2) [OF m(1)] by (simp add: c_def)
  then have "length (blit fb (?p mod 128) (take m from)) = length ?ss * SECTOR_SIZE"
    using lfb r(5) assms(7) by (simp add: c_def SECTOR_SIZE_def)
  from sd.write_run_ok [OF d1(1) r(2,3) this] obtain d' where
    d': "write_run WriteSector SECTOR_SIZE d1 ?ss (blit fb (?p mod 128) (take m from)) = Inr d'" "disk_ok d'"
      "\<forall>i<NUM_SECTORS. (\<forall>s\<in>set ?ss. unat s \<noteq> i) \<longrightarrow> sector d' i = sector d1 i"
      "concat (map (\<lambda>s. sector d' (unat s)) ?ss) = blit fb (?p mod 128) (take m from)" by blast
  have "file_byte d' ?h x = (if ?p \<le> x \<and> x < ?p + m then from ! (x - ?p) else file_byte d ?h x)"
    if x: "x < unat (numBytes ?h)" for x
  proof (cases "?F \<le> x div 128 \<and> x div 128 \<le> ?L")
    case True
    with written_byte [OF assms(1) d'(2) m assms(7) _ _ x c_def _ d'(4) [unfolded fb_def]] show ?thesis by simp
  next
    case False
    have "\<forall>s\<in>set ?ss. unat s \<noteq> unat (dataSectors ?h ! (x div 128))"
      using sector_elsewhere [OF assms(1) x m False] by blast
    with d'(3) d1(2) block_sector(3) [OF assms(1) x] have "file_byte d' ?h x = file_byte d ?h x"
      by (simp add: file_byte_def)
    moreover have "\<not> (?p \<le> x \<and> x \<le> ?p + m - 1)" using False div_le_mono by blast
    ultimately show ?thesis using m(1) by auto
  qed
  then have "file_bytes d' ?h = blit (file_bytes d ?h) ?p (take m from)"
    using m assms(7) by (intro file_bytes_blit) (auto simp add: min_absorb2)
  moreover have "sector d' i = sector d i" if i: "i < NUM_SECTORS" "i \<notin> file_sectors ?h" for i
  proof -
    have "\<forall>s\<in>set ?ss. unat s \<noteq> i" using r(4) i(2) by blast
    with d'(3) i(1) d1(2) show ?thesis by simp
  qed
  ultimately show ?thesis using d1(3) d'(1,2) by auto
qed

section \<open>Allocation of the data sectors\<close>

lemma raw_roundtrip [simp]: "raw_of_bytes be (raw_bytes be h) = h"
  by (simp add: raw_of_bytes_def raw_bytes_def Let_def)

lemma length_raw_bytes [simp]: "length (dataSectors h) = NUM_DIRECT \<Longrightarrow> length (raw_bytes be h) = SECTOR_SIZE"
  by (simp add: raw_bytes_def file_sizes)

lemma set_words_ok:
  "i + length vs \<le> length a \<Longrightarrow>
     set_words a i vs = Inr (take i a @ map word_of_int vs @ drop (i + length vs) a)"
proof (induction vs arbitrary: a i)
  case (Cons v vs)
  then have i: "i < length a" by simp
  have "set_words (a[i := word_of_int v]) (Suc i) vs =
      Inr (take (Suc i) (a[i := word_of_int v]) @ map word_of_int vs @ drop (Suc i + length vs) a)"
    using Cons.IH [of "Suc i" "a[i := word_of_int v]"] Cons.prems by simp
  with i show ?case by (simp add: take_Suc_conv_app_nth)
qed simp

lemma unat_word_of_int_nat: "i < 4294967296 \<Longrightarrow> unat (word_of_int (int i) :: u32) = i"
  by (simp add: unat_of_nat)

lemma numSectors_bound:
  assumes "n \<le> MAX_FILE_SIZE"
  shows "DivRoundUp n SECTOR_SIZE \<le> NUM_DIRECT" and "unat (of_nat (DivRoundUp n SECTOR_SIZE) :: u32) = DivRoundUp n SECTOR_SIZE"
proof -
  show 1: "DivRoundUp n SECTOR_SIZE \<le> NUM_DIRECT"
    using assms DivRoundUp_le_iff [of SECTOR_SIZE n NUM_DIRECT] by (simp add: file_sizes)
  then show "unat (of_nat (DivRoundUp n SECTOR_SIZE) :: u32) = DivRoundUp n SECTOR_SIZE"
    by (simp add: unat_of_nat file_sizes)
qed

lemma Allocate_ok:
  assumes "bitmap_inv b" and "numBits b = NUM_SECTORS" and "length (dataSectors h) = NUM_DIRECT"
    and "unat sz \<le> MAX_FILE_SIZE"
    and "card (marked b) + DivRoundUp (unat sz) SECTOR_SIZE \<le> NUM_SECTORS"
  shows "\<exists>h' b'. FileHeader_Allocate h b sz = Inr (True, h', b') \<and> hdr_ok h' \<and> numBytes h' = sz \<and>
     file_sectors h' \<inter> marked b = {} \<and> marked b' = marked b \<union> file_sectors h' \<and>
     bitmap_inv b' \<and> numBits b' = NUM_SECTORS"
proof -
  let ?n = "DivRoundUp (unat sz) SECTOR_SIZE"
  note n = numSectors_bound [OF assms(4)]
  obtain "is" b' where al: "alloc_n Bitmap_Find ?n b = Inr (map int is, b')" "length is = ?n" "distinct is"
    "set is \<subseteq> {..<numBits b}" "set is \<inter> marked b = {}" "marked b' = marked b \<union> set is"
    "bitmap_inv b'" "numBits b' = numBits b"
    using bm.alloc_n_ok [OF assms(1), of ?n] assms(2,5) by auto
  let ?ds = "map (word_of_int \<circ> int) is @ drop ?n (dataSectors h)"
  let ?h = "h\<lparr>numBytes := sz, numSectors := of_nat ?n, dataSectors := ?ds\<rparr>"
  have sw: "set_words (dataSectors h) 0 (map int is) = Inr ?ds"
    using set_words_ok [of 0 "map int is" "dataSectors h"] al(2) n(1) assms(3) by simp
  have cc: "Bitmap_CountClear b = Inr (NUM_SECTORS - card (marked b))"
    using bm.count_ok [OF assms(1)] assms(2) by simp
  have ge: "\<not> NUM_SECTORS - card (marked b) < ?n" using assms(5) by linarith
  have r: "FileHeader_Allocate h b sz = Inr (True, ?h, b')"
    using assms(4) al(1) sw cc ge by (simp add: FileHeader_Allocate_def Let_def n(2))
  have u: "unat (word_of_int (int i) :: u32) = i" if "i \<in> set is" for i
    using that al(4) assms(2) by (intro unat_word_of_int_nat) (auto simp add: NUM_SECTORS_def)
  have t: "take ?n ?ds = map (word_of_int \<circ> int) is" using al(2) by simp
  have im: "unat ` set (map (word_of_int \<circ> int :: nat \<Rightarrow> u32) is) = set is"
    using u by (force simp add: image_iff)
  have fs: "file_sectors ?h = set is"
    using t im by (simp add: file_sectors_def n(2))
  have dist: "distinct (map (word_of_int \<circ> int :: nat \<Rightarrow> u32) is)"
    using al(3) u by (auto simp add: distinct_map inj_on_def) metis
  have "hdr_ok ?h"
    using assms(3,4) n al(2,4) t dist im assms(2)
    by (auto simp add: hdr_ok_def u)
  with r al fs assms(2) show ?thesis by auto
qed

lemma Allocate_fails:
  assumes "bitmap_inv b" and "numBits b = NUM_SECTORS"
    and "unat sz > MAX_FILE_SIZE \<or> NUM_SECTORS < card (marked b) + DivRoundUp (unat sz) SECTOR_SIZE"
  shows "\<exists>h'. FileHeader_Allocate h b sz = Inr (False, h', b)"
proof (cases "unat sz > MAX_FILE_SIZE")
  case False
  then have s: "unat sz \<le> MAX_FILE_SIZE" by simp
  have "Bitmap_CountClear b = Inr (NUM_SECTORS - card (marked b))"
    using bm.count_ok [OF assms(1)] assms(2) by simp
  moreover have "NUM_SECTORS - card (marked b) < DivRoundUp (unat sz) SECTOR_SIZE"
    using bm.card_used_le [of b] assms(2,3) False by linarith
  ultimately show ?thesis
    using s by (simp add: FileHeader_Allocate_def Let_def numSectors_bound(2) [OF s])
qed (simp add: FileHeader_Allocate_def)

lemma deallocate_loop_ok:
  assumes "bitmap_inv b" and "i + n \<le> length ds" and "distinct (slice i n ds)"
    and "unat ` set (slice i n ds) \<subseteq> marked b"
  shows "\<exists>b'. deallocate_loop b ds i n = Inr b' \<and> bitmap_inv b' \<and> numBits b' = numBits b \<and>
     marked b' = marked b - unat ` set (slice i n ds)"
  using assms
proof (induction n arbitrary: b i)
  case 0
  then show ?case by (simp add: slice_def)
next
  case (Suc n)
  have sl: "slice i (Suc n) ds = ds ! i # slice (Suc i) n ds"
    using Suc.prems(2) by (simp add: slice_def Cons_nth_drop_Suc [symmetric])
  have m: "unat (ds ! i) \<in> marked b" using Suc.prems(4) sl by simp
  then have lt: "unat (ds ! i) < numBits b" by (rule marked_bound)
  obtain b1 where b1: "Bitmap_Clear b (unat (ds ! i)) = Inr b1" "marked b1 = marked b - {unat (ds ! i)}"
    "bitmap_inv b1" "numBits b1 = numBits b"
    using bm.clear_ok [OF Suc.prems(1) lt] by blast
  have "distinct (slice (Suc i) n ds)" "ds ! i \<notin> set (slice (Suc i) n ds)"
    using Suc.prems(3) sl by simp_all
  moreover from this(2) have ni: "unat (ds ! i) \<notin> unat ` set (slice (Suc i) n ds)"
    by (metis imageE word_unat_eq_iff)
  moreover have "unat ` set (slice (Suc i) n ds) \<subseteq> marked b1"
  proof
    fix y
    assume y: "y \<in> unat ` set (slice (Suc i) n ds)"
    then have "y \<in> marked b" using Suc.prems(4) unfolding sl by (simp add: subset_iff)
    moreover have "y \<noteq> unat (ds ! i)" using y ni by metis
    ultimately show "y \<in> marked b1" by (simp add: b1(2))
  qed
  ultimately obtain b' where "deallocate_loop b1 ds (Suc i) n = Inr b'" "bitmap_inv b'" "numBits b' = numBits b1"
    "marked b' = marked b1 - unat ` set (slice (Suc i) n ds)"
    using Suc.IH [OF b1(3), of "Suc i"] Suc.prems(2) by auto
  with b1 m lt sl Suc.prems(1,2) show ?case by (auto simp add: Bitmap_Test_eq)
qed

lemma file_sectors_card:
  assumes "hdr_ok h"
  shows "card (file_sectors h) = DivRoundUp (unat (numBytes h)) SECTOR_SIZE"
proof -
  let ?t = "take (unat (numSectors h)) (dataSectors h)"
  have "distinct ?t" using assms unfolding hdr_ok_def by blast
  then have "card (file_sectors h) = length ?t"
    unfolding file_sectors_def by (subst card_image) (auto simp add: inj_on_def word_unat_eq_iff distinct_card)
  then show ?thesis
    using assms numSectors_bound(1) [of "unat (numBytes h)"] by (simp add: hdr_ok_def)
qed

lemma Deallocate_ok:
  assumes "bitmap_inv b" and "hdr_ok h" and "file_sectors h \<subseteq> marked b"
  shows "\<exists>b'. FileHeader_Deallocate h b = Inr b' \<and> bitmap_inv b' \<and> numBits b' = numBits b \<and>
     marked b' = marked b - file_sectors h"
proof -
  have "unat (numSectors h) \<le> length (dataSectors h)"
    using assms(2) numSectors_bound(1) by (simp add: hdr_ok_def)
  moreover have "distinct (slice 0 (unat (numSectors h)) (dataSectors h))"
    using assms(2) unfolding hdr_ok_def slice_def drop_0 by blast
  ultimately show ?thesis
    using deallocate_loop_ok [OF assms(1), of 0 "unat (numSectors h)" "dataSectors h"] assms(3)
    by (simp add: FileHeader_Deallocate_def file_sectors_def slice_def)
qed

section \<open>Properties of files\<close>

text \<open>C16: After a write into an open file, a read at any position returns the file's old bytes
  with the written ones in place, cut at the end of the file; this holds whatever the alignment
  of the two requests and whatever garbage the write's buffer started with. The request must not
  make \<open>position + numBytes\<close> wrap around 32 bits.\<close>

theorem WriteAt_ReadAt:
  assumes "hdr_ok (hdr f)" and "disk_ok d"
    and "0 < n" and "unat pos < unat (numBytes (hdr f))" and "unat pos + unat n < 2 ^ 32"
    and "unat n \<le> length from"
    and "0 < n'" and "unat pos' < unat (numBytes (hdr f))" and "unat pos' + unat n' < 2 ^ 32"
  shows "\<exists>d' d''. OpenFile_WriteAt junk f d from n pos = Inr (of_nat (min (unat n) (unat (numBytes (hdr f)) - unat pos)), d') \<and>
     disk_ok d' \<and>
     OpenFile_ReadAt f d' n' pos' =
       Inr (take (unat n') (drop (unat pos')
              (blit (file_bytes d (hdr f)) (unat pos) (take (unat (numBytes (hdr f)) - unat pos) (take (unat n) from)))), d'')"
proof -
  let ?len = "unat (numBytes (hdr f))" and ?p = "unat pos'"
  let ?m = "min (unat n) (?len - unat pos)" and ?m' = "min (unat n') (?len - unat pos')"
  have "min (unat n) (unat (numBytes (hdr f)) - unat pos) \<le> length from" using assms(6) by simp
  from WriteAt_ok [OF assms(1-4) _ this, of junk] assms(5) obtain d' where
    d': "OpenFile_WriteAt junk f d from n pos = Inr (of_nat ?m, d')" "disk_ok d'"
      "file_bytes d' (hdr f) = blit (file_bytes d (hdr f)) (unat pos) (take ?m from)" by auto
  from ReadAt_ok [OF assms(1) d'(2) assms(7,8)] assms(9) obtain d'' where
    d'': "OpenFile_ReadAt f d' n' pos' = Inr (map (file_byte d' (hdr f)) [?p..<?p + ?m'], d'')" by auto
  have "map (file_byte d' (hdr f)) [?p..<?p + ?m'] = take (unat n') (drop ?p (file_bytes d' (hdr f)))"
    using assms(8) by (simp add: file_bytes_def take_map drop_map take_upt min_def)
  also have "file_bytes d' (hdr f) =
      blit (file_bytes d (hdr f)) (unat pos) (take (?len - unat pos) (take (unat n) from))"
    by (simp add: d'(3) take_take min.commute)
  finally show ?thesis using d' d'' by auto
qed

text \<open>A write into a file leaves every other file as it was: the bytes of any file whose
  sectors are disjoint from the written one's are unchanged.\<close>

theorem WriteAt_other_files:
  assumes "hdr_ok (hdr f)" and "disk_ok d"
    and "0 < n" and "unat pos < unat (numBytes (hdr f))" and "unat pos + unat n < 2 ^ 32"
    and "unat n \<le> length from" and "hdr_ok h" and "file_sectors h \<inter> file_sectors (hdr f) = {}"
  shows "\<exists>r d'. OpenFile_WriteAt junk f d from n pos = Inr (r, d') \<and> file_bytes d' h = file_bytes d h"
proof -
  have "min (unat n) (unat (numBytes (hdr f)) - unat pos) \<le> length from" using assms(6) by simp
  from WriteAt_ok [OF assms(1-4) _ this, of junk] assms(5) obtain d' where
    d': "OpenFile_WriteAt junk f d from n pos = Inr (of_nat (min (unat n) (unat (numBytes (hdr f)) - unat pos)), d')"
      "\<forall>i<NUM_SECTORS. i \<notin> file_sectors (hdr f) \<longrightarrow> sector d' i = sector d i" by auto
  have "file_byte d' h x = file_byte d h x" if "x < unat (numBytes h)" for x
    using block_sector(3,4) [OF assms(7) that] d'(2) assms(8) by (auto simp add: file_byte_def)
  then have "file_bytes d' h = file_bytes d h" by (simp add: file_bytes_def)
  with d'(1) show ?thesis by blast
qed

text \<open>Allocating a file's sectors takes exactly as many as its size needs, none of them in use
  before, and gives a well-formed header; releasing them gives the free map its former set of
  used sectors back.\<close>

theorem Allocate_Deallocate:
  assumes "bitmap_inv b" and "numBits b = NUM_SECTORS" and "length (dataSectors h) = NUM_DIRECT"
    and "unat sz \<le> MAX_FILE_SIZE"
    and "card (marked b) + DivRoundUp (unat sz) SECTOR_SIZE \<le> NUM_SECTORS"
  shows "\<exists>h' b' b''. FileHeader_Allocate h b sz = Inr (True, h', b') \<and> hdr_ok h' \<and> numBytes h' = sz \<and>
     file_sectors h' \<inter> marked b = {} \<and> card (file_sectors h') = DivRoundUp (unat sz) SECTOR_SIZE \<and>
     marked b' = marked b \<union> file_sectors h' \<and>
     FileHeader_Deallocate h' b' = Inr b'' \<and> marked b'' = marked b"
proof -
  from Allocate_ok [OF assms] obtain h' b' where a: "FileHeader_Allocate h b sz = Inr (True, h', b')"
    "hdr_ok h'" "numBytes h' = sz" "file_sectors h' \<inter> marked b = {}"
    "marked b' = marked b \<union> file_sectors h'" "bitmap_inv b'" by blast
  from Deallocate_ok [OF a(6,2)] a(5) obtain b'' where
    "FileHeader_Deallocate h' b' = Inr b''" "marked b'' = marked b' - file_sectors h'" by auto
  moreover have "card (file_sectors h') = DivRoundUp (unat sz) SECTOR_SIZE"
    using file_sectors_card [OF a(2)] a(3) by simp
  ultimately show ?thesis using a by (auto intro!: exI [of _ h'] exI [of _ b'] exI [of _ b''])
qed

subsection \<open>A concrete disk, header and free map\<close>

definition demo_disk :: disk where
  "demo_disk = \<lparr>image = replicate DISK_SIZE 0, active = False, lastSector = 0, bufferInit = 0,
     d_clock = 0, d_reads = 0, d_writes = 0\<rparr>"

definition demo_header :: "u32 \<Rightarrow> u32 \<Rightarrow> RawFileHeader" where
  "demo_header s1 s2 = \<lparr>numBytes = 200, numSectors = 2, dataSectors = s1 # s2 # replicate 28 0\<rparr>"

definition demo_bitmap :: bitmap where
  "demo_bitmap = \<lparr>numBits = 1024, numWords = 32, bm_map = replicate 32 0\<rparr>"

lemma demo_disk_ok: "disk_ok demo_disk"
  by (simp add: disk_ok_def demo_disk_def NUM_SECTORS_def)

lemma demo_header_ok:
  "hdr_ok (demo_header 5 7)" "hdr_ok (demo_header 6 8)" "file_sectors (demo_header 5 7) = {5, 7}"
  "file_sectors (demo_header 6 8) = {6, 8}"
  by (simp_all add: hdr_ok_def demo_header_def file_sectors_def file_sizes DivRoundUp_def take_Cons')

lemma demo_bitmap_ok: "bitmap_inv demo_bitmap" "numBits demo_bitmap = NUM_SECTORS" "marked demo_bitmap = {}"
proof -
  have "i div 32 < 32" if "i < 1024" for i :: nat using that by (simp add: div_less_iff_less_mult)
  then show "marked demo_bitmap = {}"
    by (simp add: marked_def demo_bitmap_def BITS_IN_WORD_def)
qed (simp_all add: bitmap_inv_def demo_bitmap_def DivRoundUp_def BITS_IN_WORD_def NUM_SECTORS_def)

definition demo_file :: OpenFile where
  "demo_file = \<lparr>hdr = demo_header 5 7, seekPosition = 0\<rparr>"

lemma demo_numBytes: "numBytes (hdr demo_file) = 200" "hdr demo_file = demo_header 5 7"
  by (simp_all add: demo_file_def demo_header_def)

theorem WriteAt_ReadAt_witness:
  "\<exists>d' d'' bs. OpenFile_WriteAt (\<lambda>_. 9) demo_file demo_disk [1, 2, 3] 3 127 = Inr (3, d') \<and>
     OpenFile_ReadAt demo_file d' 4 126 = Inr (bs, d'') \<and>
     bs = take 4 (drop 126 (blit (file_bytes demo_disk (demo_header 5 7)) 127 [1, 2, 3]))"
  using WriteAt_ReadAt [of demo_file demo_disk 3 127 "[1, 2, 3]" 4 126 "\<lambda>_. 9"]
    demo_header_ok(1) demo_disk_ok demo_numBytes by auto

theorem Allocate_Deallocate_witness:
  "\<exists>h' b'. FileHeader_Allocate (demo_header 0 0) demo_bitmap 300 = Inr (True, h', b') \<and>
     card (file_sectors h') = 3"
  using Allocate_Deallocate [of demo_bitmap "demo_header 0 0" 300] demo_bitmap_ok
  by (fastforce simp add: demo_header_def file_sizes DivRoundUp_def)

end
