(* ===== verification/Filesys_Directory.thy ===== *)
theory Filesys_Directory
  imports Filesys_OpenFile
begin

text \<open>
  Directories (\<open>filesys/directory.cc\<close>, \<open>directory_entry.hh\<close>, \<open>raw_directory.hh\<close>) and the transfer
  of a bitmap to and from its file (\<open>lib/bitmap.cc\<close>).

  A directory is the array of its entries. In memory, and byte for byte in its file, an entry takes
  20 bytes: the flag, 3 bytes of padding, the sector number, the 10 bytes of the name and 2 more of
  padding; the padding is carried along, as the code transfers whole arrays. A file name of a caller
  is the list of its characters up to the terminator. Fresh heap memory has the contents
  \<open>junk\<close>.
\<close>

section \<open>Strings of the C library\<close>

text \<open>\<open>strncmp(a, b, n) == 0\<close>; the end of a list stands for the terminator.\<close>

fun strncmp_eq :: "u8 list \<Rightarrow> u8 list \<Rightarrow> nat \<Rightarrow> bool" where
  "strncmp_eq a b 0 = True"
| "strncmp_eq [] [] (Suc n) = True"
| "strncmp_eq (x # a) [] (Suc n) = (x = 0)"
| "strncmp_eq [] (y # b) (Suc n) = (y = 0)"
| "strncmp_eq (x # a) (y # b) (Suc n) = (x = y \<and> (x = 0 \<or> strncmp_eq a b n))"

text \<open>\<open>strncpy(dst, src, n)\<close>: characters up to the terminator, then zeros up to \<open>n\<close>.\<close>

fun strncpy :: "u8 list \<Rightarrow> u8 list \<Rightarrow> nat \<Rightarrow> u8 list" where
  "strncpy (_ # dst) [] (Suc n) = 0 # strncpy dst [] n"
| "strncpy (_ # dst) (c # src) (Suc n) = (if c = 0 then 0 # strncpy dst [] n else c # strncpy dst src n)"
| "strncpy dst src n = dst"

text \<open>The characters of a stored array up to its terminator, for \<open>%s\<close>, \<open>strlen\<close> and
  \<open>strcmp\<close>; without one they run past the array.\<close>

definition cstring :: "u8 list \<Rightarrow> u8 list res" where
  "cstring a = (if 0 \<in> set a then Inr (takeWhile (\<lambda>c. c \<noteq> 0) a) else Inl OutOfBounds)"

text \<open>What the first \<open>n\<close> characters of a string distinguish.\<close>

definition cstr :: "nat \<Rightarrow> u8 list \<Rightarrow> u8 list" where
  "cstr n a = takeWhile (\<lambda>c. c \<noteq> 0) (take n a)"

lemma cstr_simps [simp]:
  "cstr 0 a = []" "cstr n [] = []" "cstr (Suc n) (x # a) = (if x = 0 then [] else x # cstr n a)"
  by (simp_all add: cstr_def)

lemma strncmp_eq_iff: "strncmp_eq a b n \<longleftrightarrow> cstr n a = cstr n b"
  by (induction a b n rule: strncmp_eq.induct) auto

lemma length_strncpy [simp]: "length (strncpy dst src n) = length dst"
  by (induction dst src n rule: strncpy.induct) simp_all

lemma cstr_strncpy: "n \<le> length dst \<Longrightarrow> cstr n (strncpy dst src n) = cstr n src"
proof (induction dst src n rule: strncpy.induct)
  case (1 x dst n)
  then show ?case by (cases n) simp_all
qed (simp_all add: Suc_le_length_iff)

lemma cstr_cstr: "cstr n (cstr n a) = cstr n a"
proof (induction n arbitrary: a)
  case (Suc n)
  then show ?case by (cases a) simp_all
qed simp

lemma nth_strncpy_beyond: "n \<le> k \<Longrightarrow> strncpy dst src n ! k = dst ! k"
proof (induction dst src n arbitrary: k rule: strncpy.induct)
  case (1 x dst n)
  then show ?case by (cases k) simp_all
next
  case (2 x dst c src n)
  then show ?case by (cases k) simp_all
qed simp_all

section \<open>Entries and their bytes\<close>

definition FILE_NAME_MAX_LEN :: nat where "FILE_NAME_MAX_LEN = 9"

record DirectoryEntry =
  inUse :: bool
  e_sector :: u32
  e_name :: "u8 list"
  e_pad :: "u8 list"

definition ENTRY_SIZE :: nat where "ENTRY_SIZE = 20"

definition entry_bytes :: "bool \<Rightarrow> DirectoryEntry \<Rightarrow> u8 list" where
  "entry_bytes be e = (if inUse e then 1 else 0) # take 3 (e_pad e) @
     host_order be (bytes32 (e_sector e)) @ e_name e @ drop 3 (e_pad e)"

definition entry_of_bytes :: "bool \<Rightarrow> u8 list \<Rightarrow> DirectoryEntry" where
  "entry_of_bytes be bs = \<lparr>inUse = bs ! 0 \<noteq> 0, e_sector = word_of_bytes (host_order be (slice 4 4 bs)),
     e_name = slice 8 10 bs, e_pad = slice 1 3 bs @ slice 18 2 bs\<rparr>"

definition table_bytes :: "bool \<Rightarrow> DirectoryEntry list \<Rightarrow> u8 list" where
  "table_bytes be es = concat (map (entry_bytes be) es)"

definition table_of_bytes :: "bool \<Rightarrow> u8 list \<Rightarrow> DirectoryEntry list" where
  "table_of_bytes be bs = map (\<lambda>i. entry_of_bytes be (slice (i * ENTRY_SIZE) ENTRY_SIZE bs))
     [0..<length bs div ENTRY_SIZE]"

definition entry_wf :: "DirectoryEntry \<Rightarrow> bool" where
  "entry_wf e \<longleftrightarrow> length (e_name e) = FILE_NAME_MAX_LEN + 1 \<and> length (e_pad e) = 5"

lemma length_entry_bytes [simp]: "entry_wf e \<Longrightarrow> length (entry_bytes be e) = ENTRY_SIZE"
  by (simp add: entry_wf_def entry_bytes_def FILE_NAME_MAX_LEN_def ENTRY_SIZE_def)

lemma entry_roundtrip: "entry_wf e \<Longrightarrow> entry_of_bytes be (entry_bytes be e) = e"
  by (simp add: entry_wf_def entry_bytes_def entry_of_bytes_def slice_def FILE_NAME_MAX_LEN_def
        numeral_eq_Suc [of num.One])

lemma entry_wf_of_bytes: "length bs = ENTRY_SIZE \<Longrightarrow> entry_wf (entry_of_bytes be bs)"
  by (simp add: entry_wf_def entry_of_bytes_def FILE_NAME_MAX_LEN_def ENTRY_SIZE_def)

lemma length_table_bytes [simp]:
  "\<forall>e\<in>set es. entry_wf e \<Longrightarrow> length (table_bytes be es) = length es * ENTRY_SIZE"
  unfolding table_bytes_def by (subst length_concat_blocks [of _ ENTRY_SIZE]) simp_all

lemma slice_concat_blocks:
  assumes "\<forall>xs\<in>set xss. length xs = b" and "i < length xss"
  shows "slice (i * b) b (concat xss) = xss ! i"
  using assms
proof (induction xss arbitrary: i)
  case (Cons xs xss)
  then show ?case by (cases i) (simp_all add: slice_def)
qed simp

lemma table_roundtrip:
  assumes "\<forall>e\<in>set es. entry_wf e"
  shows "table_of_bytes be (table_bytes be es) = es"
proof (rule nth_equalityI)
  have l: "length (table_of_bytes be (table_bytes be es)) = length es"
    using assms by (simp add: table_of_bytes_def ENTRY_SIZE_def)
  show "length (table_of_bytes be (table_bytes be es)) = length es" by (rule l)
  fix i assume "i < length (table_of_bytes be (table_bytes be es))"
  then have i: "i < length es" by (simp only: l)
  then have "slice (i * ENTRY_SIZE) ENTRY_SIZE (table_bytes be es) = entry_bytes be (es ! i)"
    unfolding table_bytes_def using assms by (subst slice_concat_blocks) auto
  with i assms show "table_of_bytes be (table_bytes be es) ! i = es ! i"
    by (simp add: table_of_bytes_def ENTRY_SIZE_def [symmetric] entry_roundtrip)
      (simp add: ENTRY_SIZE_def)
qed

lemma table_of_bytes_wf:
  assumes "length bs = n * ENTRY_SIZE"
  shows "length (table_of_bytes be bs) = n" and "\<forall>e\<in>set (table_of_bytes be bs). entry_wf e"
proof -
  show "length (table_of_bytes be bs) = n" using assms by (simp add: table_of_bytes_def ENTRY_SIZE_def)
  have "length (slice (i * ENTRY_SIZE) ENTRY_SIZE bs) = ENTRY_SIZE" if "i < n" for i
    using that assms by (simp add: ENTRY_SIZE_def)
  then show "\<forall>e\<in>set (table_of_bytes be bs). entry_wf e"
    using assms by (auto simp add: table_of_bytes_def ENTRY_SIZE_def intro!: entry_wf_of_bytes)
qed

section \<open>The directory and its operations\<close>

record directory =
  tableSize :: nat
  d_table :: "DirectoryEntry list"

definition Directory_new :: "bool \<Rightarrow> (nat \<Rightarrow> u8) \<Rightarrow> nat \<Rightarrow> directory res" where
  "Directory_new be junk n =
     ASSERT (n > 0)
       (Inr \<lparr>tableSize = n, d_table = map (\<lambda>e. e\<lparr>inUse := False\<rparr>)
               (table_of_bytes be (map junk [0..<n * ENTRY_SIZE]))\<rparr>)"

definition Directory_FetchFrom :: "bool \<Rightarrow> directory \<Rightarrow> OpenFile \<Rightarrow> disk \<Rightarrow> (directory \<times> disk) res" where
  "Directory_FetchFrom be dir file d =
     bindR (OpenFile_ReadAt file d (of_nat (tableSize dir * ENTRY_SIZE)) 0) (\<lambda>(data, d).
       Inr (dir\<lparr>d_table := table_of_bytes be (blit (table_bytes be (d_table dir)) 0 data)\<rparr>, d))"

definition Directory_WriteBack :: "(nat \<Rightarrow> u8) \<Rightarrow> bool \<Rightarrow> directory \<Rightarrow> OpenFile \<Rightarrow> disk \<Rightarrow> disk res" where
  "Directory_WriteBack junk be dir file d =
     bindR (OpenFile_WriteAt junk file d (table_bytes be (d_table dir))
              (of_nat (tableSize dir * ENTRY_SIZE)) 0) (\<lambda>(n, d). Inr d)"

fun FindIndex_loop :: "DirectoryEntry list \<Rightarrow> u8 list \<Rightarrow> nat list \<Rightarrow> int res" where
  "FindIndex_loop es name [] = Inr (-1)"
| "FindIndex_loop es name (i # is) = bindR (aget es i) (\<lambda>e.
     if inUse e \<and> strncmp_eq (e_name e) name FILE_NAME_MAX_LEN then Inr (int i)
     else FindIndex_loop es name is)"

definition Directory_FindIndex :: "directory \<Rightarrow> u8 list \<Rightarrow> int res" where
  "Directory_FindIndex dir name = FindIndex_loop (d_table dir) name [0..<tableSize dir]"

text \<open>\<open>Find\<close> converts the unsigned sector number to \<open>int\<close>.\<close>

definition Directory_Find :: "directory \<Rightarrow> u8 list \<Rightarrow> int res" where
  "Directory_Find dir name = bindR (Directory_FindIndex dir name) (\<lambda>i.
     if i \<noteq> -1 then bindR (aget (d_table dir) (nat i)) (\<lambda>e. Inr (sint (e_sector e)))
     else Inr (-1))"

fun Add_loop :: "DirectoryEntry list \<Rightarrow> u8 list \<Rightarrow> int \<Rightarrow> nat list \<Rightarrow> (bool \<times> DirectoryEntry list) res" where
  "Add_loop es name newSector [] = Inr (False, es)"
| "Add_loop es name newSector (i # is) = bindR (aget es i) (\<lambda>e.
     if \<not> inUse e
     then Inr (True, es[i := e\<lparr>inUse := True, e_name := strncpy (e_name e) name FILE_NAME_MAX_LEN,
                               e_sector := word_of_int newSector\<rparr>])
     else Add_loop es name newSector is)"

definition Directory_Add :: "directory \<Rightarrow> u8 list \<Rightarrow> int \<Rightarrow> (bool \<times> directory) res" where
  "Directory_Add dir name newSector = bindR (Directory_FindIndex dir name) (\<lambda>i.
     if i \<noteq> -1 then Inr (False, dir)
     else bindR (Add_loop (d_table dir) name newSector [0..<tableSize dir]) (\<lambda>(ok, es).
            Inr (ok, dir\<lparr>d_table := es\<rparr>)))"

definition Directory_Remove :: "directory \<Rightarrow> u8 list \<Rightarrow> (bool \<times> directory) res" where
  "Directory_Remove dir name = bindR (Directory_FindIndex dir name) (\<lambda>i.
     if i = -1 then Inr (False, dir)
     else bindR (aget (d_table dir) (nat i)) (\<lambda>e.
          bindR (aset (d_table dir) (nat i) (e\<lparr>inUse := False\<rparr>)) (\<lambda>es.
          Inr (True, dir\<lparr>d_table := es\<rparr>))))"

text \<open>\<open>List\<close> prints the names; the model returns them.\<close>

fun List_loop :: "DirectoryEntry list \<Rightarrow> nat list \<Rightarrow> u8 list list res" where
  "List_loop es [] = Inr []"
| "List_loop es (i # is) = bindR (aget es i) (\<lambda>e.
     if inUse e then bindR (cstring (e_name e)) (\<lambda>n. bindR (List_loop es is) (\<lambda>ns. Inr (n # ns)))
     else List_loop es is)"

definition Directory_List :: "directory \<Rightarrow> u8 list list res" where
  "Directory_List dir = List_loop (d_table dir) [0..<tableSize dir]"

definition Bitmap_FetchFrom :: "bool \<Rightarrow> bitmap \<Rightarrow> OpenFile \<Rightarrow> disk \<Rightarrow> (bitmap \<times> disk) res" where
  "Bitmap_FetchFrom be b file d =
     bindR (OpenFile_ReadAt file d (of_nat (numWords b * 4)) 0) (\<lambda>(data, d).
       Inr (b\<lparr>bm_map := words_of_bytes be (blit (bytes_of_words be (bm_map b)) 0 data)\<rparr>, d))"

definition Bitmap_WriteBack :: "(nat \<Rightarrow> u8) \<Rightarrow> bool \<Rightarrow> bitmap \<Rightarrow> OpenFile \<Rightarrow> disk \<Rightarrow> disk res" where
  "Bitmap_WriteBack junk be b file d =
     bindR (OpenFile_WriteAt junk file d (bytes_of_words be (bm_map b)) (of_nat (numWords b * 4)) 0)
       (\<lambda>(n, d). Inr d)"

section \<open>The names of a directory\<close>

text \<open>A name is known by its first nine characters. \<open>named es k i\<close>: entry \<open>i\<close> is in use
  under the name \<open>k\<close>.\<close>

definition fname :: "DirectoryEntry \<Rightarrow> u8 list" where
  "fname e = cstr FILE_NAME_MAX_LEN (e_name e)"

definition named :: "DirectoryEntry list \<Rightarrow> u8 list \<Rightarrow> nat \<Rightarrow> bool" where
  "named es k i \<longleftrightarrow> i < length es \<and> inUse (es ! i) \<and> fname (es ! i) = k"

definition unique_names :: "DirectoryEntry list \<Rightarrow> bool" where
  "unique_names es \<longleftrightarrow> (\<forall>i j k. named es k i \<longrightarrow> named es k j \<longrightarrow> i = j)"

definition dir_wf :: "directory \<Rightarrow> bool" where
  "dir_wf dir \<longleftrightarrow> 0 < tableSize dir \<and> length (d_table dir) = tableSize dir \<and>
     (\<forall>e\<in>set (d_table dir). entry_wf e) \<and> unique_names (d_table dir)"

lemma unique_namesD: "unique_names es \<Longrightarrow> named es k i \<Longrightarrow> named es k j \<Longrightarrow> i = j"
  unfolding unique_names_def by blast

lemma named_update:
  "i < length es \<Longrightarrow> named (es[i := e]) k j \<longleftrightarrow> (if j = i then inUse e \<and> fname e = k else named es k j)"
  by (auto simp add: named_def)

lemma FindIndex_loop_none:
  "\<forall>i\<in>set is. i < length es \<and> \<not> named es (cstr FILE_NAME_MAX_LEN name) i \<Longrightarrow>
   FindIndex_loop es name is = Inr (-1)"
  by (induction "is") (auto simp add: named_def fname_def strncmp_eq_iff)

lemma FindIndex_loop_some:
  "\<forall>i\<in>set pre. i < length es \<and> \<not> named es (cstr FILE_NAME_MAX_LEN name) i \<Longrightarrow>
   named es (cstr FILE_NAME_MAX_LEN name) k \<Longrightarrow> FindIndex_loop es name (pre @ k # post) = Inr (int k)"
  by (induction pre) (auto simp add: named_def fname_def strncmp_eq_iff)

lemma FindIndex_none:
  assumes "dir_wf dir" and "\<forall>i. \<not> named (d_table dir) (cstr FILE_NAME_MAX_LEN name) i"
  shows "Directory_FindIndex dir name = Inr (-1)"
  unfolding Directory_FindIndex_def using assms
  by (intro FindIndex_loop_none) (simp add: dir_wf_def)

lemma FindIndex_some:
  assumes "dir_wf dir" and "named (d_table dir) (cstr FILE_NAME_MAX_LEN name) k"
  shows "Directory_FindIndex dir name = Inr (int k)"
proof -
  have k: "k < tableSize dir" using assms by (simp add: dir_wf_def named_def)
  have pre: "\<forall>i\<in>set [0..<k]. i < length (d_table dir) \<and> \<not> named (d_table dir) (cstr FILE_NAME_MAX_LEN name) i"
  proof
    fix i assume "i \<in> set [0..<k]"
    moreover have "named (d_table dir) (cstr FILE_NAME_MAX_LEN name) i \<Longrightarrow> i = k"
      using assms unique_namesD unfolding dir_wf_def by blast
    ultimately show "i < length (d_table dir) \<and> \<not> named (d_table dir) (cstr FILE_NAME_MAX_LEN name) i"
      using k assms(1) by (auto simp add: dir_wf_def)
  qed
  show ?thesis
    unfolding Directory_FindIndex_def upt_split [OF k] by (rule FindIndex_loop_some [OF pre assms(2)])
qed

lemma FindIndex_nonneg: "Directory_FindIndex dir name = Inr i \<Longrightarrow> i \<noteq> -1 \<Longrightarrow> 0 \<le> i"
proof -
  have "FindIndex_loop es name is = Inr i \<Longrightarrow> i \<noteq> -1 \<Longrightarrow> 0 \<le> i" for es "is"
    by (induction "is") (auto simp add: res_simps split: if_splits)
  then show "Directory_FindIndex dir name = Inr i \<Longrightarrow> i \<noteq> -1 \<Longrightarrow> 0 \<le> i"
    unfolding Directory_FindIndex_def .
qed

lemma Directory_Find_ok:
  assumes "dir_wf dir"
  shows "named (d_table dir) (cstr FILE_NAME_MAX_LEN name) k \<Longrightarrow>
      Directory_Find dir name = Inr (sint (e_sector (d_table dir ! k)))"
    and "\<forall>i. \<not> named (d_table dir) (cstr FILE_NAME_MAX_LEN name) i \<Longrightarrow> Directory_Find dir name = Inr (-1)"
  using FindIndex_some [OF assms] FindIndex_none [OF assms]
  by (auto simp add: Directory_Find_def named_def)

lemma Add_loop_full: "\<forall>i\<in>set is. i < length es \<and> inUse (es ! i) \<Longrightarrow> Add_loop es name s is = Inr (False, es)"
  by (induction "is") simp_all

lemma Add_loop_free:
  "\<forall>i\<in>set pre. i < length es \<and> inUse (es ! i) \<Longrightarrow> k < length es \<Longrightarrow> \<not> inUse (es ! k) \<Longrightarrow>
   Add_loop es name s (pre @ k # post) = Inr (True, es[k := (es ! k)\<lparr>inUse := True,
     e_name := strncpy (e_name (es ! k)) name FILE_NAME_MAX_LEN, e_sector := word_of_int s\<rparr>])"
  by (induction pre) simp_all

text \<open>The effect of \<open>Add\<close>: a new entry under the name, at an index that was free.\<close>

lemma Directory_Add_ok:
  assumes wf: "dir_wf dir" and new: "\<forall>i. \<not> named (d_table dir) (cstr FILE_NAME_MAX_LEN name) i"
    and free: "\<exists>i<tableSize dir. \<not> inUse (d_table dir ! i)"
  shows "\<exists>k e. Directory_Add dir name s = Inr (True, dir\<lparr>d_table := (d_table dir)[k := e]\<rparr>) \<and>
     k < tableSize dir \<and> \<not> inUse (d_table dir ! k) \<and> inUse e \<and> fname e = cstr FILE_NAME_MAX_LEN name \<and>
     e_sector e = word_of_int s \<and> entry_wf e \<and> dir_wf (dir\<lparr>d_table := (d_table dir)[k := e]\<rparr>)"
proof -
  define k where "k = (LEAST i. i < tableSize dir \<and> \<not> inUse (d_table dir ! i))"
  have k: "k < tableSize dir" "\<not> inUse (d_table dir ! k)"
    using LeastI_ex [OF free] unfolding k_def by blast+
  have pre: "\<forall>i\<in>set [0..<k]. i < length (d_table dir) \<and> inUse (d_table dir ! i)"
  proof
    fix i assume "i \<in> set [0..<k]"
    then have i: "i < k" by simp
    then have "\<not> (i < tableSize dir \<and> \<not> inUse (d_table dir ! i))"
      unfolding k_def by (rule not_less_Least)
    with i k(1) wf show "i < length (d_table dir) \<and> inUse (d_table dir ! i)"
      by (auto simp add: dir_wf_def)
  qed
  define e where "e = (d_table dir ! k)\<lparr>inUse := True,
      e_name := strncpy (e_name (d_table dir ! k)) name FILE_NAME_MAX_LEN, e_sector := word_of_int s\<rparr>"
  have kl: "k < length (d_table dir)" using k wf by (simp add: dir_wf_def)
  have wk: "entry_wf (d_table dir ! k)" using wf kl by (simp add: dir_wf_def)
  have e: "inUse e" "fname e = cstr FILE_NAME_MAX_LEN name" "e_sector e = word_of_int s" "entry_wf e"
    using wk by (simp_all add: e_def fname_def entry_wf_def cstr_strncpy)
  have "Add_loop (d_table dir) name s [0..<tableSize dir] = Inr (True, (d_table dir)[k := e])"
    unfolding upt_split [OF k(1)] e_def by (rule Add_loop_free [OF pre kl k(2)])
  then have "Directory_Add dir name s = Inr (True, dir\<lparr>d_table := (d_table dir)[k := e]\<rparr>)"
    using FindIndex_none [OF wf new] by (simp add: Directory_Add_def)
  moreover have "unique_names ((d_table dir)[k := e])"
    using wf new unfolding unique_names_def dir_wf_def
    by (auto simp add: named_update [OF kl] e(2) split: if_splits)
  then have "dir_wf (dir\<lparr>d_table := (d_table dir)[k := e]\<rparr>)"
    using wf e(4) by (auto simp add: dir_wf_def dest!: set_update_subset_insert [THEN subsetD])
  ultimately show ?thesis using k e by blast
qed

lemma Directory_Add_fails:
  assumes "dir_wf dir"
    and "named (d_table dir) (cstr FILE_NAME_MAX_LEN name) i \<or> (\<forall>i<tableSize dir. inUse (d_table dir ! i))"
  shows "Directory_Add dir name s = Inr (False, dir)"
proof (cases "\<exists>i. named (d_table dir) (cstr FILE_NAME_MAX_LEN name) i")
  case True
  with FindIndex_some [OF assms(1)] show ?thesis by (auto simp add: Directory_Add_def)
next
  case False
  with assms(2) have "\<forall>i<tableSize dir. inUse (d_table dir ! i)" by blast
  with assms(1) have "Add_loop (d_table dir) name s [0..<tableSize dir] = Inr (False, d_table dir)"
    by (intro Add_loop_full) (simp add: dir_wf_def)
  with False FindIndex_none [OF assms(1)] show ?thesis by (simp add: Directory_Add_def)
qed

lemma Directory_Remove_ok:
  assumes wf: "dir_wf dir" and k: "named (d_table dir) (cstr FILE_NAME_MAX_LEN name) k"
  defines "es \<equiv> (d_table dir)[k := (d_table dir ! k)\<lparr>inUse := False\<rparr>]"
  shows "Directory_Remove dir name = Inr (True, dir\<lparr>d_table := es\<rparr>)" and "dir_wf (dir\<lparr>d_table := es\<rparr>)"
proof -
  have kl: "k < length (d_table dir)" using k by (simp add: named_def)
  then show "Directory_Remove dir name = Inr (True, dir\<lparr>d_table := es\<rparr>)"
    using FindIndex_some [OF wf k] by (simp add: Directory_Remove_def es_def)
  have "unique_names es"
    using wf unfolding unique_names_def dir_wf_def es_def by (simp add: named_update [OF kl])
  moreover have "entry_wf ((d_table dir ! k)\<lparr>inUse := False\<rparr>)"
    using wf nth_mem [OF kl] by (auto simp add: dir_wf_def entry_wf_def)
  ultimately show "dir_wf (dir\<lparr>d_table := es\<rparr>)"
    using wf by (auto simp add: dir_wf_def es_def dest!: set_update_subset_insert [THEN subsetD])
qed

section \<open>Transfers of whole files\<close>

lemma whole_read:
  assumes "hdr_ok (hdr f)" and "disk_ok d" and "0 < numBytes (hdr f)"
  shows "\<exists>d'. OpenFile_ReadAt f d (numBytes (hdr f)) 0 = Inr (file_bytes d (hdr f), d') \<and>
     disk_ok d' \<and> sector d' = sector d"
proof -
  have p: "unat (0 :: u32) < unat (numBytes (hdr f))"
    using assms(3) by (simp add: word_less_nat_alt)
  have "unat (0 :: u32) + unat (numBytes (hdr f)) < 4294967296" using unat_less32 by simp
  from ReadAt_ok [OF assms p this] show ?thesis by (simp add: file_bytes_def)
qed

lemma whole_write:
  assumes "hdr_ok (hdr f)" and "disk_ok d" and "0 < numBytes (hdr f)" and "length data = unat (numBytes (hdr f))"
  shows "\<exists>d'. OpenFile_WriteAt junk f d data (numBytes (hdr f)) 0 = Inr (numBytes (hdr f), d') \<and>
     disk_ok d' \<and> file_bytes d' (hdr f) = data \<and>
     (\<forall>i<NUM_SECTORS. i \<notin> file_sectors (hdr f) \<longrightarrow> sector d' i = sector d i)"
proof -
  have p: "unat (0 :: u32) < unat (numBytes (hdr f))"
    using assms(3) by (simp add: word_less_nat_alt)
  have l: "unat (0 :: u32) + unat (numBytes (hdr f)) < 4294967296" using unat_less32 by simp
  have "min (unat (numBytes (hdr f))) (unat (numBytes (hdr f)) - unat (0 :: u32)) \<le> length data"
    using assms(4) by simp
  from WriteAt_ok [OF assms(1-3) p l this] assms(4) show ?thesis
    by (simp add: blit_def file_bytes_def)
qed

lemma file_bytes_cong:
  "hdr_ok h \<Longrightarrow> (\<And>i. i \<in> file_sectors h \<Longrightarrow> sector d' i = sector d i) \<Longrightarrow> file_bytes d' h = file_bytes d h"
  using block_sector(4) by (simp add: file_bytes_def file_byte_def)

lemma length_file_bytes [simp]: "length (file_bytes d h) = unat (numBytes h)"
  by (simp add: file_bytes_def)

definition dir_of :: "bool \<Rightarrow> disk \<Rightarrow> RawFileHeader \<Rightarrow> DirectoryEntry list" where
  "dir_of be d h = table_of_bytes be (file_bytes d h)"

lemma Directory_FetchFrom_ok:
  assumes "hdr_ok (hdr f)" and "disk_ok d" and "numBytes (hdr f) = of_nat (tableSize dir * ENTRY_SIZE)"
    and "unat (numBytes (hdr f)) = tableSize dir * ENTRY_SIZE" and "0 < tableSize dir"
    and "length (d_table dir) = tableSize dir" and "\<forall>e\<in>set (d_table dir). entry_wf e"
  shows "\<exists>d'. Directory_FetchFrom be dir f d = Inr (dir\<lparr>d_table := dir_of be d (hdr f)\<rparr>, d') \<and>
     disk_ok d' \<and> sector d' = sector d"
proof -
  have "0 < numBytes (hdr f)" using assms(4,5) by (simp add: word_less_nat_alt ENTRY_SIZE_def)
  from whole_read [OF assms(1,2) this] obtain d' where
    d': "OpenFile_ReadAt f d (numBytes (hdr f)) 0 = Inr (file_bytes d (hdr f), d')"
      "disk_ok d'" "sector d' = sector d" by blast
  have "blit (table_bytes be (d_table dir)) 0 (file_bytes d (hdr f)) = file_bytes d (hdr f)"
    using assms(4,6,7) by (simp add: blit_def)
  then show ?thesis
    using d' assms(3) by (simp add: Directory_FetchFrom_def dir_of_def)
qed

lemma Directory_WriteBack_ok:
  assumes "hdr_ok (hdr f)" and "disk_ok d" and "numBytes (hdr f) = of_nat (tableSize dir * ENTRY_SIZE)"
    and "unat (numBytes (hdr f)) = tableSize dir * ENTRY_SIZE" and "0 < tableSize dir"
    and "length (d_table dir) = tableSize dir" and "\<forall>e\<in>set (d_table dir). entry_wf e"
  shows "\<exists>d'. Directory_WriteBack junk be dir f d = Inr d' \<and> disk_ok d' \<and>
     dir_of be d' (hdr f) = d_table dir \<and>
     (\<forall>i<NUM_SECTORS. i \<notin> file_sectors (hdr f) \<longrightarrow> sector d' i = sector d i)"
proof -
  have p: "0 < numBytes (hdr f)" using assms(4,5) by (simp add: word_less_nat_alt ENTRY_SIZE_def)
  have "length (table_bytes be (d_table dir)) = unat (numBytes (hdr f))" using assms(4,6,7) by simp
  from whole_write [OF assms(1,2) p this, of junk] obtain d' where
    d': "OpenFile_WriteAt junk f d (table_bytes be (d_table dir)) (numBytes (hdr f)) 0 = Inr (numBytes (hdr f), d')"
      "disk_ok d'" "file_bytes d' (hdr f) = table_bytes be (d_table dir)"
      "\<forall>i<NUM_SECTORS. i \<notin> file_sectors (hdr f) \<longrightarrow> sector d' i = sector d i" by blast
  then have "Directory_WriteBack junk be dir f d = Inr d'"
    unfolding Directory_WriteBack_def using assms(3) by simp
  with d' table_roundtrip [OF assms(7)] show ?thesis by (simp add: dir_of_def)
qed

lemma Bitmap_WriteBack_ok:
  assumes "hdr_ok (hdr f)" and "disk_ok d" and "numBytes (hdr f) = of_nat (numWords b * 4)"
    and "unat (numBytes (hdr f)) = numWords b * 4" and "bitmap_inv b"
  shows "\<exists>d'. Bitmap_WriteBack junk be b f d = Inr d' \<and> disk_ok d' \<and>
     words_of_bytes be (file_bytes d' (hdr f)) = bm_map b \<and>
     (\<forall>i<NUM_SECTORS. i \<notin> file_sectors (hdr f) \<longrightarrow> sector d' i = sector d i)"
proof -
  have w: "0 < numWords b" using assms(5) bitmap_inv_word [OF assms(5), of 0] by (simp add: bitmap_inv_def)
  then have p: "0 < numBytes (hdr f)" using assms(4) by (simp add: word_less_nat_alt)
  have "length (bytes_of_words be (bm_map b)) = unat (numBytes (hdr f))"
    using assms(4,5) by (simp add: bitmap_inv_def)
  from whole_write [OF assms(1,2) p this, of junk] obtain d' where
    d': "OpenFile_WriteAt junk f d (bytes_of_words be (bm_map b)) (numBytes (hdr f)) 0 = Inr (numBytes (hdr f), d')"
      "disk_ok d'" "file_bytes d' (hdr f) = bytes_of_words be (bm_map b)"
      "\<forall>i<NUM_SECTORS. i \<notin> file_sectors (hdr f) \<longrightarrow> sector d' i = sector d i" by blast
  then have "Bitmap_WriteBack junk be b f d = Inr d'"
    unfolding Bitmap_WriteBack_def using assms(3) by simp
  with d' show ?thesis by simp
qed

lemma Bitmap_FetchFrom_ok:
  assumes "hdr_ok (hdr f)" and "disk_ok d" and "numBytes (hdr f) = of_nat (numWords b * 4)"
    and "unat (numBytes (hdr f)) = numWords b * 4" and "bitmap_inv b"
  shows "\<exists>d'. Bitmap_FetchFrom be b f d =
       Inr (b\<lparr>bm_map := words_of_bytes be (file_bytes d (hdr f))\<rparr>, d') \<and>
     disk_ok d' \<and> sector d' = sector d \<and> bitmap_inv (b\<lparr>bm_map := words_of_bytes be (file_bytes d (hdr f))\<rparr>)"
proof -
  have w: "0 < numWords b" using assms(5) bitmap_inv_word [OF assms(5), of 0] by (simp add: bitmap_inv_def)
  then have p: "0 < numBytes (hdr f)" using assms(4) by (simp add: word_less_nat_alt)
  from whole_read [OF assms(1,2) p] obtain d' where
    d': "OpenFile_ReadAt f d (numBytes (hdr f)) 0 = Inr (file_bytes d (hdr f), d')"
      "disk_ok d'" "sector d' = sector d" by blast
  have "blit (bytes_of_words be (bm_map b)) 0 (file_bytes d (hdr f)) = file_bytes d (hdr f)"
    using assms(4,5) by (simp add: blit_def bitmap_inv_def)
  then have "Bitmap_FetchFrom be b f d = Inr (b\<lparr>bm_map := words_of_bytes be (file_bytes d (hdr f))\<rparr>, d')"
    unfolding Bitmap_FetchFrom_def using d' assms(3) by simp
  with d' assms(4,5) show ?thesis by (simp add: bitmap_inv_def length_words_of_bytes)
qed

section \<open>Properties of directories\<close>

lemma Directory_Find_cases:
  assumes "dir_wf dir"
  obtains (found) k where "named (d_table dir) (cstr FILE_NAME_MAX_LEN name) k"
      "Directory_Find dir name = Inr (sint (e_sector (d_table dir ! k)))"
  | (absent) "\<forall>i. \<not> named (d_table dir) (cstr FILE_NAME_MAX_LEN name) i" "Directory_Find dir name = Inr (-1)"
  using Directory_Find_ok [OF assms, of name] by blast

lemma Directory_Find_update:
  assumes "dir_wf dir" and "dir_wf (dir\<lparr>d_table := (d_table dir)[k := e]\<rparr>)" and "k < length (d_table dir)"
    and "\<not> named (d_table dir) (cstr FILE_NAME_MAX_LEN name) k" and "\<not> (inUse e \<and> fname e = cstr FILE_NAME_MAX_LEN name)"
  shows "Directory_Find (dir\<lparr>d_table := (d_table dir)[k := e]\<rparr>) name = Directory_Find dir name"
  using assms(1)
proof (cases rule: Directory_Find_cases [of dir name])
  case (found j)
  with assms(4) have "j \<noteq> k" by blast
  with found Directory_Find_ok(1) [OF assms(2), of name j] named_update [OF assms(3)] show ?thesis by simp
next
  case absent
  then have "\<forall>i. \<not> named ((d_table dir)[k := e]) (cstr FILE_NAME_MAX_LEN name) i"
    using assms(5) by (simp add: named_update [OF assms(3)])
  with absent Directory_Find_ok(2) [OF assms(2), of name] show ?thesis by simp
qed

text \<open>A directory is a partial map from names, cut to nine characters, to sectors. \<open>Add\<close> succeeds
  exactly when the name is absent and an entry is free, and then the name is found with its sector;
  \<open>Remove\<close> of the added name makes it absent again; the look-up of every other name stays the same.\<close>

theorem Directory_Add_Find_Remove:
  assumes "dir_wf dir" and "0 \<le> s" and "s < 2 ^ 31"
  shows "\<exists>ok dir'. Directory_Add dir name s = Inr (ok, dir') \<and> dir_wf dir' \<and>
     (ok \<longleftrightarrow> (\<forall>i. \<not> named (d_table dir) (cstr 9 name) i) \<and> (\<exists>i<tableSize dir. \<not> inUse (d_table dir ! i))) \<and>
     (\<forall>other. Directory_Find dir' other =
        (if ok \<and> cstr 9 other = cstr 9 name then Inr s else Directory_Find dir other)) \<and>
     (ok \<longrightarrow> (\<exists>dir''. Directory_Remove dir' name = Inr (True, dir'') \<and> dir_wf dir'' \<and>
        (\<forall>other. Directory_Find dir'' other = Directory_Find dir other)))"
proof (cases "(\<forall>i. \<not> named (d_table dir) (cstr 9 name) i) \<and> (\<exists>i<tableSize dir. \<not> inUse (d_table dir ! i))")
  case False
  then obtain i where "named (d_table dir) (cstr 9 name) i \<or> (\<forall>i<tableSize dir. inUse (d_table dir ! i))" by blast
  with Directory_Add_fails [OF assms(1), of name i s] have "Directory_Add dir name s = Inr (False, dir)"
    by (simp add: FILE_NAME_MAX_LEN_def)
  with False assms(1) show ?thesis by (intro exI [of _ False] exI [of _ dir]) simp
next
  case True
  let ?n = "cstr FILE_NAME_MAX_LEN"
  from True have new: "\<forall>i. \<not> named (d_table dir) (?n name) i" by (simp add: FILE_NAME_MAX_LEN_def)
  obtain k e where a: "Directory_Add dir name s = Inr (True, dir\<lparr>d_table := (d_table dir)[k := e]\<rparr>)"
    and k: "k < tableSize dir" "\<not> inUse (d_table dir ! k)"
    and e: "inUse e" "fname e = ?n name" "e_sector e = word_of_int s"
    and wf: "dir_wf (dir\<lparr>d_table := (d_table dir)[k := e]\<rparr>)"
    using Directory_Add_ok [OF assms(1) new] True by blast
  let ?es = "(d_table dir)[k := e]"
  let ?dir = "dir\<lparr>d_table := ?es\<rparr>"
  have kl: "k < length (d_table dir)" using k(1) assms(1) by (simp add: dir_wf_def)
  have nk: "named ?es (?n name) k" using e by (simp add: named_update [OF kl])
  have "sint (word_of_int s :: u32) = s"
    using assms(2,3) by (simp add: signed_of_int signed_take_bit_int_eq_self)
  with Directory_Find_ok(1) [OF wf, of name k] nk e(3) kl
  have found: "Directory_Find ?dir other = Inr s" if "?n other = ?n name" for other
    using Directory_Find_ok(1) [OF wf, of other k] that by simp
  have "\<not> named (d_table dir) (?n other) k" for other using k(2) by (simp add: named_def)
  from Directory_Find_update [OF assms(1) wf kl this] e(2)
  have other: "Directory_Find ?dir other = Directory_Find dir other" if "?n other \<noteq> ?n name" for other
    using that by auto
  let ?es' = "?es[k := (?es ! k)\<lparr>inUse := False\<rparr>]"
  have r: "Directory_Remove ?dir name = Inr (True, dir\<lparr>d_table := ?es'\<rparr>)" "dir_wf (dir\<lparr>d_table := ?es'\<rparr>)"
    using Directory_Remove_ok [OF wf, of name k] nk by simp_all
  have "dir\<lparr>d_table := ?es'\<rparr> = dir\<lparr>d_table := (d_table dir)[k := e\<lparr>inUse := False\<rparr>]\<rparr>" using kl by simp
  with r have r': "Directory_Remove ?dir name = Inr (True, dir\<lparr>d_table := (d_table dir)[k := e\<lparr>inUse := False\<rparr>]\<rparr>)"
    "dir_wf (dir\<lparr>d_table := (d_table dir)[k := e\<lparr>inUse := False\<rparr>]\<rparr>)" by simp_all
  have "Directory_Find (dir\<lparr>d_table := (d_table dir)[k := e\<lparr>inUse := False\<rparr>]\<rparr>) other = Directory_Find dir other"
    for other
    using k(2) by (intro Directory_Find_update [OF assms(1) r'(2) kl]) (simp_all add: named_def)
  with a wf True found other r' show ?thesis
    by (intro exI [of _ True] exI [of _ ?dir]) (auto simp add: FILE_NAME_MAX_LEN_def)
qed

text \<open>A directory written to its file and fetched back, into whatever a fresh directory of that size
  contains, is the same directory.\<close>

theorem Directory_disk_roundtrip:
  assumes "hdr_ok (hdr f)" and "disk_ok d" and "unat (numBytes (hdr f)) = tableSize dir * ENTRY_SIZE"
    and "dir_wf dir"
  shows "\<exists>d' d'' fresh. Directory_WriteBack junk be dir f d = Inr d' \<and>
     Directory_new be junk' (tableSize dir) = Inr fresh \<and> Directory_FetchFrom be fresh f d' = Inr (dir, d'')"
proof -
  have n: "numBytes (hdr f) = of_nat (tableSize dir * ENTRY_SIZE)"
    unfolding assms(3) [symmetric] by simp
  have wf: "0 < tableSize dir" "length (d_table dir) = tableSize dir" "\<forall>e\<in>set (d_table dir). entry_wf e"
    using assms(4) by (simp_all add: dir_wf_def)
  from Directory_WriteBack_ok [OF assms(1,2) n assms(3) wf, of junk be] obtain d' where
    d': "Directory_WriteBack junk be dir f d = Inr d'" "disk_ok d'" "dir_of be d' (hdr f) = d_table dir" by blast
  let ?t = "table_of_bytes be (map junk' [0..<tableSize dir * ENTRY_SIZE])"
  let ?fresh = "\<lparr>tableSize = tableSize dir, d_table = map (\<lambda>e. e\<lparr>inUse := False\<rparr>) ?t\<rparr>"
  have t: "length ?t = tableSize dir" "\<forall>e\<in>set ?t. entry_wf e"
    using table_of_bytes_wf [of "map junk' [0..<tableSize dir * ENTRY_SIZE]" "tableSize dir"] by simp_all
  have fr: "Directory_new be junk' (tableSize dir) = Inr ?fresh" using wf(1) by (simp add: Directory_new_def)
  have "\<exists>d''. Directory_FetchFrom be ?fresh f d' = Inr (?fresh\<lparr>d_table := dir_of be d' (hdr f)\<rparr>, d'') \<and>
     disk_ok d'' \<and> sector d'' = sector d'"
    using n assms(3) wf(1) t by (intro Directory_FetchFrom_ok [OF assms(1) d'(2)]) (simp_all add: entry_wf_def)
  with d' fr show ?thesis by auto
qed

text \<open>The tenth byte of an entry's name is never written. A name of nine characters or more, added
  where that byte of the fresh memory is not zero, is stored without a terminator, and listing the
  directory reads past the name.\<close>

theorem Directory_List_overrun:
  assumes "\<forall>i<9. name ! i \<noteq> 0" and "9 \<le> length name" and "junk 17 \<noteq> 0" and "0 < n"
  shows "\<exists>dir dir'. Directory_new be junk n = Inr dir \<and> Directory_Add dir name s = Inr (True, dir') \<and>
     Directory_List dir' = Inl OutOfBounds"
proof -
  let ?t = "table_of_bytes be (map junk [0..<n * ENTRY_SIZE])"
  let ?es = "map (\<lambda>e. e\<lparr>inUse := False\<rparr>) ?t"
  have lt: "length ?t = n" using table_of_bytes_wf(1) [of "map junk [0..<n * ENTRY_SIZE]" n] by simp
  have upt: "[0..<n] = 0 # [1..<n]" using assms(4) by (simp add: upt_conv_Cons)
  have none: "FindIndex_loop ?es name [0..<n] = Inr (-1)"
    using lt by (intro FindIndex_loop_none) (simp add: named_def)
  have nm: "e_name (?t ! 0) = map junk [8..<18]"
  proof -
    have "slice 0 20 (map junk [0..<n * 20]) = map junk [0..<20]"
      using assms(4) by (simp add: slice_def take_map)
    then show ?thesis
      using lt assms(4) by (simp add: table_of_bytes_def ENTRY_SIZE_def entry_of_bytes_def)
        (simp add: slice_def drop_map take_map)
  qed
  define stored where "stored = strncpy (map junk [8..<18]) name 9"
  have st: "stored = take 9 name @ [junk 17]"
  proof -
    obtain a b c d e f g h i rest where n9: "name = a # b # c # d # e # f # g # h # i # rest"
      using assms(2) by (auto simp add: numeral_eq_Suc Suc_le_length_iff)
    have "[8..<18::nat] = [8, 9, 10, 11, 12, 13, 14, 15, 16, 17]" by (simp add: upt_rec)
    moreover have "a \<noteq> 0" "b \<noteq> 0" "c \<noteq> 0" "d \<noteq> 0" "e \<noteq> 0" "f \<noteq> 0" "g \<noteq> 0" "h \<noteq> 0" "i \<noteq> 0"
      using assms(1) [unfolded n9] by (simp_all add: numeral_eq_Suc All_less_Suc2)
    ultimately show ?thesis
      by (simp add: stored_def n9 numeral_eq_Suc)
  qed
  have "0 \<notin> set stored"
    using assms(1,2,3) by (auto simp add: st in_set_conv_nth)
  then have c: "cstring stored = Inl OutOfBounds" by (simp add: cstring_def)
  let ?e = "(?es ! 0)\<lparr>inUse := True, e_name := strncpy (e_name (?es ! 0)) name FILE_NAME_MAX_LEN,
     e_sector := word_of_int s\<rparr>"
  have "Add_loop ?es name s (0 # [1..<n]) = Inr (True, ?es[0 := ?e])"
    using lt assms(4) by simp
  then have add: "Directory_Add \<lparr>tableSize = n, d_table = ?es\<rparr> name s =
      Inr (True, \<lparr>tableSize = n, d_table = ?es[0 := ?e]\<rparr>)"
    using none unfolding Directory_Add_def Directory_FindIndex_def by (simp add: upt)
  have "Directory_List \<lparr>tableSize = n, d_table = ?es[0 := ?e]\<rparr> = Inl OutOfBounds"
    using lt assms(4) c nm unfolding Directory_List_def stored_def
    by (simp add: upt FILE_NAME_MAX_LEN_def)
  with add assms(4) show ?thesis by (simp add: Directory_new_def)
qed

text \<open>Ten entries, the first in use under the name A.\<close>

definition demo_dir :: directory where
  "demo_dir = \<lparr>tableSize = 10, d_table =
     \<lparr>inUse = True, e_sector = 5, e_name = 65 # replicate 9 0, e_pad = replicate 5 0\<rparr> #
     replicate 9 \<lparr>inUse = False, e_sector = 0, e_name = replicate 10 0, e_pad = replicate 5 0\<rparr>\<rparr>"

lemma demo_dir_named: "named (d_table demo_dir) k i \<longleftrightarrow> i = 0 \<and> k = [65]"
proof (cases i)
  case 0
  then show ?thesis by (auto simp add: named_def demo_dir_def fname_def FILE_NAME_MAX_LEN_def cstr_def)
next
  case (Suc j)
  then show ?thesis by (auto simp add: named_def demo_dir_def)
qed

lemma demo_dir_wf: "dir_wf demo_dir"
proof -
  have "unique_names (d_table demo_dir)" by (simp add: unique_names_def demo_dir_named)
  then show ?thesis by (simp add: dir_wf_def) (simp add: demo_dir_def entry_wf_def FILE_NAME_MAX_LEN_def)
qed

theorem Directory_Add_Find_Remove_witness:
  "\<exists>dir'. Directory_Add demo_dir [66, 67] 7 = Inr (True, dir') \<and> Directory_Find dir' [66, 67] = Inr 7 \<and>
     Directory_Find dir' [65] = Inr 5"
proof -
  have "\<forall>i. \<not> named (d_table demo_dir) (cstr 9 [66, 67]) i"
    by (simp add: demo_dir_named cstr_def)
  moreover have "\<exists>i<tableSize demo_dir. \<not> inUse (d_table demo_dir ! i)"
    by (rule exI [of _ 1]) (simp add: demo_dir_def)
  ultimately obtain dir' where "Directory_Add demo_dir [66, 67] 7 = Inr (True, dir')"
    "\<forall>other. Directory_Find dir' other =
       (if cstr 9 other = cstr 9 [66, 67] then Inr 7 else Directory_Find demo_dir other)"
    using Directory_Add_Find_Remove [OF demo_dir_wf, of 7 "[66, 67]"] by auto
  moreover have "Directory_Find demo_dir [65] = Inr 5"
    using Directory_Find_ok(1) [OF demo_dir_wf, of "[65]" 0]
    by (simp add: demo_dir_named FILE_NAME_MAX_LEN_def cstr_def) (simp add: demo_dir_def)
  ultimately show ?thesis by (simp add: cstr_def)
qed

theorem Directory_disk_roundtrip_witness:
  "\<exists>d' d'' fresh. Directory_WriteBack (\<lambda>_. 9) False demo_dir demo_file demo_disk = Inr d' \<and>
     Directory_new False (\<lambda>_. 7) 10 = Inr fresh \<and> Directory_FetchFrom False fresh demo_file d' = Inr (demo_dir, d'')"
proof -
  have t: "tableSize demo_dir = 10" by (simp add: demo_dir_def)
  have "unat (numBytes (hdr demo_file)) = tableSize demo_dir * ENTRY_SIZE"
    by (simp only: t demo_numBytes(1)) (simp add: ENTRY_SIZE_def)
  from Directory_disk_roundtrip [OF _ demo_disk_ok this demo_dir_wf] demo_header_ok(1) show ?thesis
    by (simp add: t demo_numBytes)
qed

theorem Directory_List_overrun_witness:
  "\<exists>dir dir'. Directory_new False (\<lambda>_. 7) 10 = Inr dir \<and> Directory_Add dir (replicate 9 65) 4 = Inr (True, dir') \<and>
     Directory_List dir' = Inl OutOfBounds"
  by (rule Directory_List_overrun) simp_all

end
