(* ===== verification/Filesys_FileSystem.thy ===== *)
theory Filesys_FileSystem
  imports Filesys_Directory
begin

text \<open>
  The file system (\<open>filesys/file_system.cc\<close>): formatting, creating, opening, removing, listing and
  checking. Its state is the pair of files that stay open, the free map and the directory, and the
  disk; every operation reads the directory and the free map from the disk and writes them back.

  The contents of fresh heap memory are an argument: \<open>junk n\<close> is what the \<open>n\<close>th object an operation
  allocates contains. The printing that the debug flag enables is left out.
\<close>

section \<open>Constants and state\<close>

definition FREE_MAP_SECTOR :: u32 where "FREE_MAP_SECTOR = 0"
definition DIRECTORY_SECTOR :: u32 where "DIRECTORY_SECTOR = 1"
definition FREE_MAP_FILE_SIZE :: u32 where "FREE_MAP_FILE_SIZE = of_nat (NUM_SECTORS div BITS_IN_BYTE)"
definition NUM_DIR_ENTRIES :: nat where "NUM_DIR_ENTRIES = 10"
definition DIRECTORY_FILE_SIZE :: u32 where "DIRECTORY_FILE_SIZE = of_nat (ENTRY_SIZE * NUM_DIR_ENTRIES)"

lemma fs_sizes:
  "FREE_MAP_FILE_SIZE = 128" "DIRECTORY_FILE_SIZE = 200" "NUM_SECTORS = 1024" "SECTOR_SIZE = 128"
  by (simp_all add: FREE_MAP_FILE_SIZE_def DIRECTORY_FILE_SIZE_def ENTRY_SIZE_def NUM_DIR_ENTRIES_def
        disk_sizes BITS_IN_BYTE_def)

record filesystem =
  freeMapFile :: OpenFile
  directoryFile :: OpenFile

type_synonym heap_junk = "nat \<Rightarrow> nat \<Rightarrow> u8"

definition new_words :: "(nat \<Rightarrow> u8) \<Rightarrow> nat \<Rightarrow> u32" where
  "new_words junk i = word_of_bytes (map junk [4 * i..<4 * i + 4])"

definition new_header :: "bool \<Rightarrow> (nat \<Rightarrow> u8) \<Rightarrow> RawFileHeader" where
  "new_header be junk = raw_of_bytes be (map junk [0..<SECTOR_SIZE])"

section \<open>Operations\<close>

definition FileSystem_new :: "bool \<Rightarrow> heap_junk \<Rightarrow> bool \<Rightarrow> disk \<Rightarrow> (filesystem \<times> disk) res" where
  "FileSystem_new be junk fmt d =
    (if fmt then
       bindR (Bitmap_new (new_words (junk 0)) NUM_SECTORS) (\<lambda>freeMap.
       bindR (Directory_new be (junk 1) NUM_DIR_ENTRIES) (\<lambda>dir.
       let mapH = new_header be (junk 2); dirH = new_header be (junk 3) in
       bindR (Bitmap_Mark freeMap (unat FREE_MAP_SECTOR)) (\<lambda>freeMap.
       bindR (Bitmap_Mark freeMap (unat DIRECTORY_SECTOR)) (\<lambda>freeMap.
       bindR (FileHeader_Allocate mapH freeMap FREE_MAP_FILE_SIZE) (\<lambda>(ok, mapH, freeMap). ASSERT ok (
       bindR (FileHeader_Allocate dirH freeMap DIRECTORY_FILE_SIZE) (\<lambda>(ok, dirH, freeMap). ASSERT ok (
       bindR (FileHeader_WriteBack be mapH d FREE_MAP_SECTOR) (\<lambda>d.
       bindR (FileHeader_WriteBack be dirH d DIRECTORY_SECTOR) (\<lambda>d.
       bindR (OpenFile_new be d FREE_MAP_SECTOR) (\<lambda>(mapF, d).
       bindR (OpenFile_new be d DIRECTORY_SECTOR) (\<lambda>(dirF, d).
       bindR (Bitmap_WriteBack (junk 4) be freeMap mapF d) (\<lambda>d.
       bindR (Directory_WriteBack (junk 5) be dir dirF d) (\<lambda>d.
       Inr (\<lparr>freeMapFile = mapF, directoryFile = dirF\<rparr>, d)))))))))))))))
     else
       bindR (OpenFile_new be d FREE_MAP_SECTOR) (\<lambda>(mapF, d).
       bindR (OpenFile_new be d DIRECTORY_SECTOR) (\<lambda>(dirF, d).
       Inr (\<lparr>freeMapFile = mapF, directoryFile = dirF\<rparr>, d))))"

definition FileSystem_Create ::
  "bool \<Rightarrow> heap_junk \<Rightarrow> filesystem \<Rightarrow> disk \<Rightarrow> u8 list \<Rightarrow> u32 \<Rightarrow> (bool \<times> disk) res" where
  "FileSystem_Create be junk fs d name initialSize =
     ASSERT (unat initialSize < MAX_FILE_SIZE) (
     bindR (Directory_new be (junk 0) NUM_DIR_ENTRIES) (\<lambda>dir.
     bindR (Directory_FetchFrom be dir (directoryFile fs) d) (\<lambda>(dir, d).
     bindR (Directory_Find dir name) (\<lambda>s.
     if s \<noteq> -1 then Inr (False, d)
     else
       bindR (Bitmap_new (new_words (junk 1)) NUM_SECTORS) (\<lambda>freeMap.
       bindR (Bitmap_FetchFrom be freeMap (freeMapFile fs) d) (\<lambda>(freeMap, d).
       bindR (Bitmap_Find freeMap) (\<lambda>(s, freeMap).
       if s = -1 then Inr (False, d)
       else bindR (Directory_Add dir name s) (\<lambda>(added, dir).
       if \<not> added then Inr (False, d)
       else bindR (FileHeader_Allocate (new_header be (junk 2)) freeMap initialSize) (\<lambda>(success, h, freeMap).
         if success then
           bindR (FileHeader_WriteBack be h d (word_of_int s)) (\<lambda>d.
           bindR (Directory_WriteBack (junk 3) be dir (directoryFile fs) d) (\<lambda>d.
           bindR (Bitmap_WriteBack (junk 4) be freeMap (freeMapFile fs) d) (\<lambda>d.
           Inr (True, d))))
         else Inr (False, d)))))))))) "

definition FileSystem_Open ::
  "bool \<Rightarrow> heap_junk \<Rightarrow> filesystem \<Rightarrow> disk \<Rightarrow> u8 list \<Rightarrow> (OpenFile option \<times> disk) res" where
  "FileSystem_Open be junk fs d name =
     bindR (Directory_new be (junk 0) NUM_DIR_ENTRIES) (\<lambda>dir.
     bindR (Directory_FetchFrom be dir (directoryFile fs) d) (\<lambda>(dir, d).
     bindR (Directory_Find dir name) (\<lambda>s.
     if s \<ge> 0 then bindR (OpenFile_new be d (word_of_int s)) (\<lambda>(f, d). Inr (Some f, d))
     else Inr (None, d))))"

definition FileSystem_Remove ::
  "bool \<Rightarrow> heap_junk \<Rightarrow> filesystem \<Rightarrow> disk \<Rightarrow> u8 list \<Rightarrow> (bool \<times> disk) res" where
  "FileSystem_Remove be junk fs d name =
     bindR (Directory_new be (junk 0) NUM_DIR_ENTRIES) (\<lambda>dir.
     bindR (Directory_FetchFrom be dir (directoryFile fs) d) (\<lambda>(dir, d).
     bindR (Directory_Find dir name) (\<lambda>s.
     if s = -1 then Inr (False, d)
     else
       bindR (FileHeader_FetchFrom be d (word_of_int s)) (\<lambda>(fileH, d).
       bindR (Bitmap_new (new_words (junk 1)) NUM_SECTORS) (\<lambda>freeMap.
       bindR (Bitmap_FetchFrom be freeMap (freeMapFile fs) d) (\<lambda>(freeMap, d).
       bindR (FileHeader_Deallocate fileH freeMap) (\<lambda>freeMap.
       bindR (Bitmap_Clear freeMap (unat (word_of_int s :: u32))) (\<lambda>freeMap.
       bindR (Directory_Remove dir name) (\<lambda>(_, dir).
       bindR (Bitmap_WriteBack (junk 2) be freeMap (freeMapFile fs) d) (\<lambda>d.
       bindR (Directory_WriteBack (junk 3) be dir (directoryFile fs) d) (\<lambda>d.
       Inr (True, d))))))))))))"

definition FileSystem_List :: "bool \<Rightarrow> heap_junk \<Rightarrow> filesystem \<Rightarrow> disk \<Rightarrow> (u8 list list \<times> disk) res" where
  "FileSystem_List be junk fs d =
     bindR (Directory_new be (junk 0) NUM_DIR_ENTRIES) (\<lambda>dir.
     bindR (Directory_FetchFrom be dir (directoryFile fs) d) (\<lambda>(dir, d).
     bindR (Directory_List dir) (\<lambda>ns. Inr (ns, d))))"

section \<open>The consistency check\<close>

definition AddToShadowBitmap :: "nat \<Rightarrow> bitmap \<Rightarrow> (bool \<times> bitmap) res" where
  "AddToShadowBitmap s shadow = bindR (Bitmap_Test shadow s) (\<lambda>t.
     if t then Inr (False, shadow)
     else bindR (Bitmap_Mark shadow s) (\<lambda>shadow. Inr (True, shadow)))"

definition CheckForError :: "bool \<Rightarrow> bool" where
  "CheckForError value = (\<not> value)"

definition CheckSector :: "u32 \<Rightarrow> bitmap \<Rightarrow> (bool \<times> bitmap) res" where
  "CheckSector s shadow =
    (if CheckForError (unat s < NUM_SECTORS) then Inr (True, shadow)
     else bindR (AddToShadowBitmap (unat s) shadow) (\<lambda>(v, shadow). Inr (CheckForError v, shadow)))"

fun CheckFileHeader_loop :: "u32 list \<Rightarrow> nat list \<Rightarrow> bool \<Rightarrow> bitmap \<Rightarrow> (bool \<times> bitmap) res" where
  "CheckFileHeader_loop ds [] err shadow = Inr (err, shadow)"
| "CheckFileHeader_loop ds (i # is) err shadow =
     bindR (aget ds i) (\<lambda>s.
     bindR (CheckSector s shadow) (\<lambda>(e, shadow). CheckFileHeader_loop ds is (err \<or> e) shadow))"

definition CheckFileHeader :: "RawFileHeader \<Rightarrow> bitmap \<Rightarrow> (bool \<times> bitmap) res" where
  "CheckFileHeader rh shadow =
    (let err = CheckForError (unat (numSectors rh) \<ge> DivRoundUp (unat (numBytes rh)) SECTOR_SIZE) \<or>
               CheckForError (unat (numSectors rh) < NUM_DIRECT) in
     CheckFileHeader_loop (dataSectors rh) [0..<unat (numSectors rh)] err shadow)"

fun CheckBitmaps_loop :: "bitmap \<Rightarrow> bitmap \<Rightarrow> nat list \<Rightarrow> bool \<Rightarrow> bool res" where
  "CheckBitmaps_loop freeMap shadow [] err = Inr err"
| "CheckBitmaps_loop freeMap shadow (i # is) err =
     bindR (Bitmap_Test freeMap i) (\<lambda>a. bindR (Bitmap_Test shadow i) (\<lambda>b.
       CheckBitmaps_loop freeMap shadow is (err \<or> CheckForError (a = b))))"

definition CheckBitmaps :: "bitmap \<Rightarrow> bitmap \<Rightarrow> bool res" where
  "CheckBitmaps freeMap shadow = CheckBitmaps_loop freeMap shadow [0..<NUM_SECTORS] False"

text \<open>One round of the loop over the entries; \<open>known\<close> holds the names seen so far.\<close>

definition CheckEntry ::
  "bool \<Rightarrow> DirectoryEntry \<Rightarrow> bool \<times> u8 list list \<times> bitmap \<times> disk \<Rightarrow> (bool \<times> u8 list list \<times> bitmap \<times> disk) res" where
  "CheckEntry be e = (\<lambda>(err, known, shadow, d).
     if \<not> inUse e then Inr (err, known, shadow, d)
     else
       bindR (cstring (e_name e)) (\<lambda>n.
       let err = (err \<or> length n > FILE_NAME_MAX_LEN);
           repeated = (n \<in> set known);
           err = (err \<or> repeated);
           known = (if repeated then known else known @ [n]) in
       bindR (CheckSector (e_sector e) shadow) (\<lambda>(e1, shadow).
       bindR (FileHeader_FetchFrom be d (e_sector e)) (\<lambda>(rh, d).
       bindR (CheckFileHeader rh shadow) (\<lambda>(e2, shadow).
       Inr (err \<or> e1 \<or> e2, known, shadow, d))))))"

fun CheckDirectory_loop ::
  "bool \<Rightarrow> DirectoryEntry list \<Rightarrow> nat list \<Rightarrow> bool \<times> u8 list list \<times> bitmap \<times> disk \<Rightarrow> (bool \<times> bitmap \<times> disk) res" where
  "CheckDirectory_loop be es [] s = Inr (case s of (err, known, shadow, d) \<Rightarrow> (err, shadow, d))"
| "CheckDirectory_loop be es (i # is) s =
     bindR (aget es i) (\<lambda>e. bindR (CheckEntry be e s) (\<lambda>s. CheckDirectory_loop be es is s))"

definition CheckDirectory :: "bool \<Rightarrow> directory \<Rightarrow> bitmap \<Rightarrow> disk \<Rightarrow> (bool \<times> bitmap \<times> disk) res" where
  "CheckDirectory be rd shadow d =
     CheckDirectory_loop be (d_table rd) [0..<NUM_DIR_ENTRIES] (False, [], shadow, d)"

definition FileSystem_Check :: "bool \<Rightarrow> heap_junk \<Rightarrow> filesystem \<Rightarrow> disk \<Rightarrow> (bool \<times> disk) res" where
  "FileSystem_Check be junk fs d =
     bindR (Bitmap_new (new_words (junk 0)) NUM_SECTORS) (\<lambda>shadow.
     bindR (Bitmap_Mark shadow (unat FREE_MAP_SECTOR)) (\<lambda>shadow.
     bindR (Bitmap_Mark shadow (unat DIRECTORY_SECTOR)) (\<lambda>shadow.
     bindR (FileHeader_FetchFrom be d FREE_MAP_SECTOR) (\<lambda>(bitRH, d).
     let err = (CheckForError (numBytes bitRH = FREE_MAP_FILE_SIZE) \<or>
                CheckForError (numSectors bitRH = FREE_MAP_FILE_SIZE div of_nat SECTOR_SIZE)) in
     bindR (CheckFileHeader bitRH shadow) (\<lambda>(e1, shadow).
     bindR (FileHeader_FetchFrom be d DIRECTORY_SECTOR) (\<lambda>(dirRH, d).
     bindR (CheckFileHeader dirRH shadow) (\<lambda>(e2, shadow).
     bindR (Bitmap_new (new_words (junk 1)) NUM_SECTORS) (\<lambda>freeMap.
     bindR (Bitmap_FetchFrom be freeMap (freeMapFile fs) d) (\<lambda>(freeMap, d).
     bindR (Directory_new be (junk 2) NUM_DIR_ENTRIES) (\<lambda>dir.
     bindR (Directory_FetchFrom be dir (directoryFile fs) d) (\<lambda>(dir, d).
     bindR (CheckDirectory be dir shadow d) (\<lambda>(e3, shadow, d).
     bindR (CheckBitmaps freeMap shadow) (\<lambda>e4.
     Inr (\<not> (err \<or> e1 \<or> e2 \<or> e3 \<or> e4), d))))))))))))))"

section \<open>Well-formed file systems\<close>

text \<open>
  The header stored in a sector, the blocks an entry owns (its header and its data), the blocks of
  the system, and the free map as stored. A file system is well formed when the blocks of the
  system and of the entries in use are all different, the free map marks exactly them, the headers
  are well formed and no two entries have the same name.
\<close>

definition hdr_at :: "bool \<Rightarrow> disk \<Rightarrow> u32 \<Rightarrow> RawFileHeader" where
  "hdr_at be d s = raw_of_bytes be (sector d (unat s))"

definition blocks :: "bool \<Rightarrow> disk \<Rightarrow> DirectoryEntry \<Rightarrow> nat set" where
  "blocks be d e = insert (unat (e_sector e)) (file_sectors (hdr_at be d (e_sector e)))"

definition entry_ok :: "bool \<Rightarrow> disk \<Rightarrow> DirectoryEntry \<Rightarrow> bool" where
  "entry_ok be d e \<longleftrightarrow> unat (e_sector e) < NUM_SECTORS \<and> hdr_ok (hdr_at be d (e_sector e)) \<and>
     unat (e_sector e) \<notin> file_sectors (hdr_at be d (e_sector e))"

definition data_blocks :: "filesystem \<Rightarrow> nat set" where
  "data_blocks fs = file_sectors (hdr (freeMapFile fs)) \<union> file_sectors (hdr (directoryFile fs))"

definition sys_blocks :: "filesystem \<Rightarrow> nat set" where
  "sys_blocks fs = {0, 1} \<union> data_blocks fs"

definition live :: "DirectoryEntry list \<Rightarrow> nat set" where
  "live es = {i. i < length es \<and> inUse (es ! i)}"

definition entries :: "bool \<Rightarrow> filesystem \<Rightarrow> disk \<Rightarrow> DirectoryEntry list" where
  "entries be fs d = dir_of be d (hdr (directoryFile fs))"

definition free_map :: "bool \<Rightarrow> filesystem \<Rightarrow> disk \<Rightarrow> bitmap" where
  "free_map be fs d = \<lparr>numBits = NUM_SECTORS, numWords = 32,
     bm_map = words_of_bytes be (file_bytes d (hdr (freeMapFile fs)))\<rparr>"

definition handles_ok :: "filesystem \<Rightarrow> bool" where
  "handles_ok fs \<longleftrightarrow> hdr_ok (hdr (freeMapFile fs)) \<and> hdr_ok (hdr (directoryFile fs)) \<and>
     numBytes (hdr (freeMapFile fs)) = FREE_MAP_FILE_SIZE \<and>
     numBytes (hdr (directoryFile fs)) = DIRECTORY_FILE_SIZE \<and>
     file_sectors (hdr (freeMapFile fs)) \<inter> file_sectors (hdr (directoryFile fs)) = {} \<and>
     {0, 1} \<inter> data_blocks fs = {}"

definition table_ok :: "bool \<Rightarrow> filesystem \<Rightarrow> disk \<Rightarrow> DirectoryEntry list \<Rightarrow> nat set \<Rightarrow> bool" where
  "table_ok be fs d es used \<longleftrightarrow> unique_names es \<and>
     (\<forall>i\<in>live es. entry_ok be d (es ! i) \<and> blocks be d (es ! i) \<inter> sys_blocks fs = {}) \<and>
     (\<forall>i\<in>live es. \<forall>j\<in>live es. i \<noteq> j \<longrightarrow> blocks be d (es ! i) \<inter> blocks be d (es ! j) = {}) \<and>
     used = sys_blocks fs \<union> (\<Union>i\<in>live es. blocks be d (es ! i))"

definition fs_ok :: "bool \<Rightarrow> filesystem \<Rightarrow> disk \<Rightarrow> bool" where
  "fs_ok be fs d \<longleftrightarrow> disk_ok d \<and> handles_ok fs \<and>
     hdr_at be d FREE_MAP_SECTOR = hdr (freeMapFile fs) \<and> hdr_at be d DIRECTORY_SECTOR = hdr (directoryFile fs) \<and>
     table_ok be fs d (entries be fs d) (marked (free_map be fs d))"

text \<open>The abstract view: the contents of the file of each name.\<close>

definition contents :: "bool \<Rightarrow> disk \<Rightarrow> DirectoryEntry \<Rightarrow> u8 list" where
  "contents be d e = file_bytes d (hdr_at be d (e_sector e))"

definition fs_files :: "bool \<Rightarrow> filesystem \<Rightarrow> disk \<Rightarrow> u8 list \<Rightarrow> u8 list option" where
  "fs_files be fs d k =
     map_option (contents be d) (List.find (\<lambda>e. inUse e \<and> fname e = k) (entries be fs d))"

definition agree :: "disk \<Rightarrow> disk \<Rightarrow> nat set \<Rightarrow> bool" where
  "agree d d' S \<longleftrightarrow> (\<forall>i\<in>S. sector d' i = sector d i)"

lemma agreeD: "agree d d' S \<Longrightarrow> i \<in> S \<Longrightarrow> sector d' i = sector d i"
  unfolding agree_def by blast

lemma agree_subset: "agree d d' S \<Longrightarrow> T \<subseteq> S \<Longrightarrow> agree d d' T"
  unfolding agree_def by blast

lemma agree_trans: "agree d d1 S \<Longrightarrow> agree d1 d2 S \<Longrightarrow> agree d d2 S"
  unfolding agree_def by simp

lemma live_update: "k < length es \<Longrightarrow> live (es[k := e]) = (if inUse e then insert k (live es) else live es - {k})"
  by (auto simp add: live_def nth_list_update)

lemma live_bound: "i \<in> live es \<Longrightarrow> i < length es" by (simp add: live_def)

lemma named_live: "named es k i \<Longrightarrow> i \<in> live es" by (simp add: live_def named_def)

text \<open>What an entry denotes depends only on its blocks.\<close>

lemma entry_agree:
  assumes "agree d d' (blocks be d e)"
  shows "hdr_at be d' (e_sector e) = hdr_at be d (e_sector e)" and "blocks be d' e = blocks be d e"
    and "entry_ok be d' e = entry_ok be d e"
    and "entry_ok be d e \<Longrightarrow> contents be d' e = contents be d e"
proof -
  show 1: "hdr_at be d' (e_sector e) = hdr_at be d (e_sector e)"
    using agreeD [OF assms, of "unat (e_sector e)"] by (simp add: hdr_at_def blocks_def)
  then show "blocks be d' e = blocks be d e" "entry_ok be d' e = entry_ok be d e"
    by (simp_all add: blocks_def entry_ok_def)
  show "contents be d' e = contents be d e" if "entry_ok be d e"
    unfolding contents_def 1 using that assms
    by (intro file_bytes_cong) (auto simp add: entry_ok_def agree_def blocks_def)
qed

lemma find_named:
  assumes "unique_names es" and "named es k i"
  shows "List.find (\<lambda>e. inUse e \<and> fname e = k) es = Some (es ! i)"
proof (cases "List.find (\<lambda>e. inUse e \<and> fname e = k) es")
  case None
  with assms(2) show ?thesis by (auto simp add: find_None_iff named_def)
next
  case (Some e)
  then obtain j where "j < length es" "inUse (es ! j)" "fname (es ! j) = k" "e = es ! j"
    by (auto simp add: find_Some_iff)
  with assms unique_namesD [of es k i j] Some show ?thesis by (simp add: named_def)
qed

lemma find_unnamed:
  "\<forall>i. \<not> named es k i \<Longrightarrow> List.find (\<lambda>e. inUse e \<and> fname e = k) es = None"
  by (auto simp add: find_None_iff named_def in_set_conv_nth)

lemma fs_files_named: "table_ok be fs d (entries be fs d) U \<Longrightarrow> named (entries be fs d) k i \<Longrightarrow>
    fs_files be fs d k = Some (contents be d (entries be fs d ! i))"
  by (simp add: fs_files_def find_named table_ok_def)

lemma fs_files_unnamed: "\<forall>i. \<not> named (entries be fs d) k i \<Longrightarrow> fs_files be fs d k = None"
  by (simp add: fs_files_def find_unnamed)

lemma fs_files_dom: "fs_files be fs d k = None \<longleftrightarrow> (\<forall>i. \<not> named (entries be fs d) k i)"
  by (auto simp add: fs_files_def find_None_iff named_def in_set_conv_nth)

lemma sys_distinct:
  assumes "handles_ok fs"
  shows "file_sectors (hdr (freeMapFile fs)) \<subseteq> {..<NUM_SECTORS}"
    and "file_sectors (hdr (directoryFile fs)) \<subseteq> {..<NUM_SECTORS}"
  using assms by (auto simp add: handles_ok_def hdr_ok_def file_sectors_def)

section \<open>Fetching and flushing the directory and the free map\<close>

lemma Directory_new_wf:
  assumes "0 < n"
  shows "\<exists>t. Directory_new be junk n = Inr \<lparr>tableSize = n, d_table = t\<rparr> \<and> length t = n \<and>
     (\<forall>e\<in>set t. entry_wf e \<and> \<not> inUse e)"
  using assms table_of_bytes_wf [of "map junk [0..<n * ENTRY_SIZE]" n be]
  by (auto simp add: Directory_new_def entry_wf_def)

lemma directory_size:
  assumes "handles_ok fs"
  shows "numBytes (hdr (directoryFile fs)) = of_nat (NUM_DIR_ENTRIES * ENTRY_SIZE)"
    and "unat (numBytes (hdr (directoryFile fs))) = NUM_DIR_ENTRIES * ENTRY_SIZE"
    and "length (entries be fs d) = NUM_DIR_ENTRIES" and "\<forall>e\<in>set (entries be fs d). entry_wf e"
proof -
  show n: "numBytes (hdr (directoryFile fs)) = of_nat (NUM_DIR_ENTRIES * ENTRY_SIZE)"
    "unat (numBytes (hdr (directoryFile fs))) = NUM_DIR_ENTRIES * ENTRY_SIZE"
    using assms by (simp_all add: handles_ok_def fs_sizes(2)) (simp_all add: NUM_DIR_ENTRIES_def ENTRY_SIZE_def)
  have "length (file_bytes d (hdr (directoryFile fs))) = NUM_DIR_ENTRIES * ENTRY_SIZE"
    by (simp add: n(2))
  from table_of_bytes_wf [OF this] show "length (entries be fs d) = NUM_DIR_ENTRIES"
    "\<forall>e\<in>set (entries be fs d). entry_wf e" by (simp_all add: entries_def dir_of_def)
qed

lemma fetch_directory:
  assumes "handles_ok fs" and "disk_ok d" and "unique_names (entries be fs d)"
  shows "\<exists>dir0 d'. Directory_new be junk NUM_DIR_ENTRIES = Inr dir0 \<and>
     Directory_FetchFrom be dir0 (directoryFile fs) d =
       Inr (\<lparr>tableSize = NUM_DIR_ENTRIES, d_table = entries be fs d\<rparr>, d') \<and>
     disk_ok d' \<and> sector d' = sector d \<and> dir_wf \<lparr>tableSize = NUM_DIR_ENTRIES, d_table = entries be fs d\<rparr>"
proof -
  have n0: "0 < NUM_DIR_ENTRIES" by (simp add: NUM_DIR_ENTRIES_def)
  obtain t where t: "Directory_new be junk NUM_DIR_ENTRIES = Inr \<lparr>tableSize = NUM_DIR_ENTRIES, d_table = t\<rparr>"
      "length t = NUM_DIR_ENTRIES" "\<forall>e\<in>set t. entry_wf e"
    using Directory_new_wf [OF n0] by blast
  have "hdr_ok (hdr (directoryFile fs))" using assms(1) by (simp add: handles_ok_def)
  then have "\<exists>d'. Directory_FetchFrom be \<lparr>tableSize = NUM_DIR_ENTRIES, d_table = t\<rparr> (directoryFile fs) d =
       Inr (\<lparr>tableSize = NUM_DIR_ENTRIES, d_table = t\<rparr>\<lparr>d_table := dir_of be d (hdr (directoryFile fs))\<rparr>, d') \<and>
     disk_ok d' \<and> sector d' = sector d"
    using assms(2) t(2,3) directory_size(1,2) [OF assms(1)] n0 by (intro Directory_FetchFrom_ok) simp_all
  moreover have "dir_wf \<lparr>tableSize = NUM_DIR_ENTRIES, d_table = entries be fs d\<rparr>"
    using directory_size(3,4) [OF assms(1)] n0 assms(3) by (simp add: dir_wf_def)
  ultimately show ?thesis using t(1) by (auto simp add: entries_def)
qed

lemma free_map_eq:
  "bitmap_inv b \<Longrightarrow> numBits b = NUM_SECTORS \<Longrightarrow> b = \<lparr>numBits = NUM_SECTORS, numWords = 32, bm_map = bm_map b\<rparr>"
  by (cases b) (simp add: bitmap_inv_def fs_sizes BITS_IN_WORD_def DivRoundUp_def)

lemma free_map_size:
  assumes "handles_ok fs"
  shows "unat (numBytes (hdr (freeMapFile fs))) = 32 * 4" and "numBytes (hdr (freeMapFile fs)) = of_nat (32 * 4)"
    and "bitmap_inv (free_map be fs d)" and "numBits (free_map be fs d) = NUM_SECTORS"
  using assms by (simp_all add: handles_ok_def fs_sizes free_map_def bitmap_inv_def BITS_IN_WORD_def
      DivRoundUp_def length_words_of_bytes)

lemma fetch_free_map:
  assumes "handles_ok fs" and "disk_ok d"
  shows "\<exists>b d'. Bitmap_new junk NUM_SECTORS = Inr b \<and>
     Bitmap_FetchFrom be b (freeMapFile fs) d = Inr (free_map be fs d, d') \<and> disk_ok d' \<and> sector d' = sector d"
proof -
  have "0 < NUM_SECTORS" by (simp add: fs_sizes)
  from Bitmap_new_ok [OF this, of junk] obtain b where
    b: "Bitmap_new junk NUM_SECTORS = Inr b" "bitmap_inv b" "numBits b = NUM_SECTORS" by blast
  note e = free_map_eq [OF b(2,3)]
  have w: "numWords b = 32" by (subst e) simp
  have "hdr_ok (hdr (freeMapFile fs))" using assms(1) by (simp add: handles_ok_def)
  from Bitmap_FetchFrom_ok [OF this assms(2) _ _ b(2), of be] free_map_size(1,2) [OF assms(1)] w
  obtain d' where "Bitmap_FetchFrom be b (freeMapFile fs) d =
       Inr (b\<lparr>bm_map := words_of_bytes be (file_bytes d (hdr (freeMapFile fs)))\<rparr>, d')"
     "disk_ok d'" "sector d' = sector d" by auto
  moreover have "b\<lparr>bm_map := words_of_bytes be (file_bytes d (hdr (freeMapFile fs)))\<rparr> = free_map be fs d"
    by (subst e) (simp add: free_map_def)
  ultimately show ?thesis using b(1) by auto
qed

lemma flush_directory:
  assumes "handles_ok fs" and "disk_ok d" and "length es = NUM_DIR_ENTRIES" and "\<forall>e\<in>set es. entry_wf e"
  shows "\<exists>d'. Directory_WriteBack junk be \<lparr>tableSize = NUM_DIR_ENTRIES, d_table = es\<rparr> (directoryFile fs) d = Inr d' \<and>
     disk_ok d' \<and> entries be fs d' = es \<and> free_map be fs d' = free_map be fs d \<and>
     agree d d' ({..<NUM_SECTORS} - data_blocks fs)"
proof -
  have h: "hdr_ok (hdr (directoryFile fs))" "hdr_ok (hdr (freeMapFile fs))"
    using assms(1) by (simp_all add: handles_ok_def)
  have "0 < NUM_DIR_ENTRIES" by (simp add: NUM_DIR_ENTRIES_def)
  with Directory_WriteBack_ok [OF h(1) assms(2), of "\<lparr>tableSize = NUM_DIR_ENTRIES, d_table = es\<rparr>" junk be]
    directory_size(1,2) [OF assms(1)] assms(3,4)
  obtain d' where d': "Directory_WriteBack junk be \<lparr>tableSize = NUM_DIR_ENTRIES, d_table = es\<rparr> (directoryFile fs) d = Inr d'"
      "disk_ok d'" "dir_of be d' (hdr (directoryFile fs)) = es"
      "\<forall>i<NUM_SECTORS. i \<notin> file_sectors (hdr (directoryFile fs)) \<longrightarrow> sector d' i = sector d i" by auto
  have "file_bytes d' (hdr (freeMapFile fs)) = file_bytes d (hdr (freeMapFile fs))"
    using d'(4) sys_distinct(1) [OF assms(1)] assms(1) by (intro file_bytes_cong [OF h(2)])
      (auto simp add: handles_ok_def)
  with d' show ?thesis by (auto simp add: entries_def free_map_def agree_def data_blocks_def)
qed

lemma flush_free_map:
  assumes "handles_ok fs" and "disk_ok d" and "bitmap_inv b" and "numBits b = NUM_SECTORS"
  shows "\<exists>d'. Bitmap_WriteBack junk be b (freeMapFile fs) d = Inr d' \<and>
     disk_ok d' \<and> free_map be fs d' = b \<and> entries be fs d' = entries be fs d \<and>
     agree d d' ({..<NUM_SECTORS} - data_blocks fs)"
proof -
  have h: "hdr_ok (hdr (directoryFile fs))" "hdr_ok (hdr (freeMapFile fs))"
    using assms(1) by (simp_all add: handles_ok_def)
  note e = free_map_eq [OF assms(3,4)]
  have w: "numWords b = 32" by (subst e) simp
  from Bitmap_WriteBack_ok [OF h(2) assms(2) _ _ assms(3), of junk be] free_map_size(1,2) [OF assms(1)] w
  obtain d' where d': "Bitmap_WriteBack junk be b (freeMapFile fs) d = Inr d'" "disk_ok d'"
      "words_of_bytes be (file_bytes d' (hdr (freeMapFile fs))) = bm_map b"
      "\<forall>i<NUM_SECTORS. i \<notin> file_sectors (hdr (freeMapFile fs)) \<longrightarrow> sector d' i = sector d i" by auto
  have "file_bytes d' (hdr (directoryFile fs)) = file_bytes d (hdr (directoryFile fs))"
    using d'(4) sys_distinct(2) [OF assms(1)] assms(1) by (intro file_bytes_cong [OF h(1)])
      (auto simp add: handles_ok_def)
  moreover have "free_map be fs d' = b" unfolding free_map_def d'(3) by (rule e [symmetric])
  ultimately show ?thesis using d' by (auto simp add: entries_def dir_of_def agree_def data_blocks_def)
qed

section \<open>Changes of the table\<close>

lemma blocks_bound:
  "entry_ok be d e \<Longrightarrow> blocks be d e \<subseteq> {..<NUM_SECTORS}"
  by (auto simp add: entry_ok_def blocks_def hdr_ok_def file_sectors_def)

lemma table_okD:
  assumes "table_ok be fs d es U"
  shows "unique_names es" and "i \<in> live es \<Longrightarrow> entry_ok be d (es ! i)"
    and "i \<in> live es \<Longrightarrow> blocks be d (es ! i) \<inter> sys_blocks fs = {}"
    and "i \<in> live es \<Longrightarrow> j \<in> live es \<Longrightarrow> i \<noteq> j \<Longrightarrow> blocks be d (es ! i) \<inter> blocks be d (es ! j) = {}"
    and "U = sys_blocks fs \<union> (\<Union>i\<in>live es. blocks be d (es ! i))"
    and "i \<in> live es \<Longrightarrow> blocks be d (es ! i) \<subseteq> U"
  using assms unfolding table_ok_def by blast+

lemma table_ok_agree:
  assumes "table_ok be fs d es U" and "\<And>i. i \<in> live es \<Longrightarrow> agree d d' (blocks be d (es ! i))"
  shows "table_ok be fs d' es U"
proof -
  have "blocks be d' (es ! i) = blocks be d (es ! i)" "entry_ok be d' (es ! i) = entry_ok be d (es ! i)"
    if "i \<in> live es" for i
    using entry_agree [OF assms(2) [OF that]] by simp_all
  with assms(1) show ?thesis by (simp add: table_ok_def)
qed

lemma table_ok_insert:
  assumes t: "table_ok be fs d es U" and k: "k < length es" "k \<notin> live es" and e: "inUse e" "entry_ok be d e"
    and new: "\<forall>i. \<not> named es (fname e) i" and free: "blocks be d e \<inter> U = {}"
  shows "table_ok be fs d (es[k := e]) (U \<union> blocks be d e)"
proof -
  note td = table_okD [OF t]
  have l: "live (es[k := e]) = insert k (live es)" using k e(1) by (simp add: live_update)
  have nth: "es[k := e] ! i = (if i = k then e else es ! i)" if "i \<in> insert k (live es)" for i
    using that k(1) by (auto simp add: live_def)
  have "unique_names (es[k := e])"
    using td(1) new unfolding unique_names_def by (auto simp add: named_update [OF k(1)] split: if_splits)
  moreover have "entry_ok be d (es[k := e] ! i) \<and> blocks be d (es[k := e] ! i) \<inter> sys_blocks fs = {}"
    if "i \<in> insert k (live es)" for i
    using that td(2,3) [of i] td(5) e(2) free nth [OF that] by auto
  moreover have "blocks be d (es[k := e] ! i) \<inter> blocks be d (es[k := e] ! j) = {}"
    if "i \<in> insert k (live es)" "j \<in> insert k (live es)" "i \<noteq> j" for i j
    using that td(4) [of i j] td(6) [of i] td(6) [of j] free by (simp add: nth) blast
  moreover have "U \<union> blocks be d e = sys_blocks fs \<union> (\<Union>i\<in>insert k (live es). blocks be d (es[k := e] ! i))"
  proof -
    have "(\<Union>i\<in>live es. blocks be d (es[k := e] ! i)) = (\<Union>i\<in>live es. blocks be d (es ! i))"
      using k(2) by (intro SUP_cong refl) (auto simp add: nth)
    then show ?thesis using td(5) by (simp add: nth) blast
  qed
  ultimately show ?thesis unfolding table_ok_def l by blast
qed

lemma table_ok_delete:
  assumes t: "table_ok be fs d es U" and k: "k \<in> live es"
  shows "table_ok be fs d (es[k := (es ! k)\<lparr>inUse := False\<rparr>]) (U - blocks be d (es ! k))"
proof -
  let ?es = "es[k := (es ! k)\<lparr>inUse := False\<rparr>]"
  note td = table_okD [OF t]
  have kl: "k < length es" using k by (simp add: live_def)
  have l: "live ?es = live es - {k}" using kl by (simp add: live_update)
  have nth: "?es ! i = es ! i" if "i \<in> live es - {k}" for i using that by simp
  have "unique_names ?es"
    using td(1) unfolding unique_names_def by (simp add: named_update [OF kl])
  moreover have "U - blocks be d (es ! k) = sys_blocks fs \<union> (\<Union>i\<in>live es - {k}. blocks be d (?es ! i))"
  proof -
    have "(\<Union>i\<in>live es - {k}. blocks be d (?es ! i)) = (\<Union>i\<in>live es - {k}. blocks be d (es ! i))"
      by (intro SUP_cong refl) (simp only: nth)
    moreover have "(\<Union>i\<in>live es. blocks be d (es ! i)) = blocks be d (es ! k) \<union> (\<Union>i\<in>live es - {k}. blocks be d (es ! i))"
      using k by (auto intro: bexI [of _ k])
    moreover have "blocks be d (es ! k) \<inter> (\<Union>i\<in>live es - {k}. blocks be d (es ! i)) = {}"
      using td(4) [OF k] by (simp add: Int_UN_distrib)
    ultimately show ?thesis using td(3) [OF k] unfolding td(5) by auto
  qed
  ultimately show ?thesis using td(2,3,4) unfolding table_ok_def l by (simp add: nth)
qed

lemma fs_files_update:
  assumes t: "table_ok be fs d (entries be fs d) U" "table_ok be fs d' (entries be fs d') U'"
    and es: "entries be fs d' = (entries be fs d)[k := e]" and k: "k < length (entries be fs d)"
    and same: "\<And>i. i \<in> live (entries be fs d) \<Longrightarrow> i \<noteq> k \<Longrightarrow>
      contents be d' (entries be fs d ! i) = contents be d (entries be fs d ! i)"
    and key: "key \<noteq> fname e" "\<not> named (entries be fs d) key k"
  shows "fs_files be fs d' key = fs_files be fs d key"
proof (cases "\<exists>i. named (entries be fs d) key i")
  case True
  then obtain i where i: "named (entries be fs d) key i" by blast
  with key(2) have ik: "i \<noteq> k" by blast
  with i k have "named (entries be fs d') key i" by (simp add: es named_update)
  with fs_files_named [OF t(2)] fs_files_named [OF t(1) i] same [OF named_live [OF i] ik] ik
  show ?thesis by (simp add: es)
next
  case False
  then have "\<forall>i. \<not> named (entries be fs d') key i" using key(1) k by (auto simp add: es named_update)
  with False show ?thesis by (simp add: fs_files_unnamed)
qed

lemma fs_same:
  assumes "sector d' = sector d"
  shows "fs_files be fs d' = fs_files be fs d" and "disk_ok d' \<Longrightarrow> fs_ok be fs d \<Longrightarrow> fs_ok be fs d'"
    and "hdr_at be d' s = hdr_at be d s" and "file_bytes d' h = file_bytes d h"
    and "entries be fs d' = entries be fs d" and "free_map be fs d' = free_map be fs d"
proof -
  show h: "hdr_at be d' s = hdr_at be d s" and f: "file_bytes d' h = file_bytes d h" for s h
    using assms by (simp_all add: hdr_at_def file_bytes_def file_byte_def)
  show e: "entries be fs d' = entries be fs d" "free_map be fs d' = free_map be fs d"
    by (simp_all add: entries_def dir_of_def free_map_def f)
  show "fs_files be fs d' = fs_files be fs d"
    by (simp add: fun_eq_iff fs_files_def e contents_def [abs_def] h f)
  show "disk_ok d' \<Longrightarrow> fs_ok be fs d \<Longrightarrow> fs_ok be fs d'"
    by (simp add: fs_ok_def h e table_ok_def entry_ok_def blocks_def)
qed

lemma FileHeader_WriteBack_ok:
  assumes "disk_ok d" and "unat s < NUM_SECTORS" and "length (dataSectors h) = NUM_DIRECT"
  shows "\<exists>d'. FileHeader_WriteBack be h d s = Inr d' \<and> disk_ok d' \<and> hdr_at be d' s = h \<and>
     agree d d' ({..<NUM_SECTORS} - {unat s})"
proof -
  from WriteSector_ok [OF assms(1,2) length_raw_bytes [OF assms(3)], of be] obtain d' where
    d': "WriteSector d s (raw_bytes be h) = Inr d'" "disk_ok d'"
      "\<forall>i<NUM_SECTORS. sector d' i = (if i = unat s then raw_bytes be h else sector d i)" by blast
  with assms(2) have "sector d' (unat s) = raw_bytes be h" by simp
  then have "hdr_at be d' s = h" by (simp add: hdr_at_def raw_roundtrip)
  with d' show ?thesis by (auto simp add: FileHeader_WriteBack_def agree_def)
qed

lemma FileHeader_FetchFrom_ok:
  assumes "disk_ok d" and "unat s < NUM_SECTORS"
  shows "\<exists>d'. FileHeader_FetchFrom be d s = Inr (hdr_at be d s, d') \<and> disk_ok d' \<and> sector d' = sector d"
  using ReadSector_ok [OF assms] by (auto simp add: FileHeader_FetchFrom_def hdr_at_def)

lemma length_new_header [simp]: "length (dataSectors (new_header be junk)) = NUM_DIRECT"
  by (simp add: new_header_def raw_of_bytes_def Let_def length_words_of_bytes file_sizes)

lemma fs_okD:
  assumes "fs_ok be fs d"
  shows "disk_ok d" and "handles_ok fs" and "table_ok be fs d (entries be fs d) (marked (free_map be fs d))"
    and "unique_names (entries be fs d)" and "{0, 1} \<subseteq> sys_blocks fs"
    and "sys_blocks fs \<subseteq> marked (free_map be fs d)"
  using assms by (auto simp add: fs_ok_def table_ok_def sys_blocks_def)

lemma fs_okI:
  assumes "fs_ok be fs d" and "disk_ok d'" and "agree d d' {0, 1}"
    and "table_ok be fs d' (entries be fs d') (marked (free_map be fs d'))"
  shows "fs_ok be fs d'"
proof -
  have "hdr_at be d' FREE_MAP_SECTOR = hdr_at be d FREE_MAP_SECTOR"
    "hdr_at be d' DIRECTORY_SECTOR = hdr_at be d DIRECTORY_SECTOR"
    using assms(3) by (simp_all add: hdr_at_def FREE_MAP_SECTOR_def DIRECTORY_SECTOR_def agree_def)
  with assms show ?thesis by (simp add: fs_ok_def)
qed

section \<open>Creating files\<close>

definition fs_room :: "bool \<Rightarrow> filesystem \<Rightarrow> disk \<Rightarrow> u32 \<Rightarrow> bool" where
  "fs_room be fs d sz \<longleftrightarrow>
     card (marked (free_map be fs d)) + 1 + DivRoundUp (unat sz) SECTOR_SIZE \<le> NUM_SECTORS \<and>
     (\<exists>i<NUM_DIR_ENTRIES. \<not> inUse (entries be fs d ! i))"

lemma add_file:
  assumes ok: "fs_ok be fs d" and new: "\<forall>i. \<not> named (entries be fs d) (fname e) i"
    and k: "k < NUM_DIR_ENTRIES" "\<not> inUse (entries be fs d ! k)"
    and e: "inUse e" "entry_wf e" "unat (e_sector e) = i" and i: "i < NUM_SECTORS" "i \<notin> marked (free_map be fs d)"
    and h: "hdr_ok h" "i \<notin> file_sectors h" "file_sectors h \<inter> marked (free_map be fs d) = {}"
    and b: "bitmap_inv b" "numBits b = NUM_SECTORS" "marked b = marked (free_map be fs d) \<union> insert i (file_sectors h)"
    and d1: "disk_ok d1" "hdr_at be d1 (e_sector e) = h" "agree d d1 ({..<NUM_SECTORS} - {i})"
  shows "\<exists>d2 d3. Directory_WriteBack junk1 be \<lparr>tableSize = NUM_DIR_ENTRIES, d_table = (entries be fs d)[k := e]\<rparr>
       (directoryFile fs) d1 = Inr d2 \<and> Bitmap_WriteBack junk2 be b (freeMapFile fs) d2 = Inr d3 \<and>
     fs_ok be fs d3 \<and> fs_files be fs d3 = (fs_files be fs d)(fname e \<mapsto> file_bytes d3 h)"
proof -
  note okd = fs_okD [OF ok]
  note td = table_okD [OF okd(3)]
  let ?es = "entries be fs d" and ?U = "marked (free_map be fs d)" and ?D = "{..<NUM_SECTORS} - data_blocks fs"
  have el: "length ?es = NUM_DIR_ENTRIES" "\<forall>e\<in>set ?es. entry_wf e" using directory_size(3,4) [OF okd(2)] by simp_all
  have "\<forall>e\<in>set (?es[k := e]). entry_wf e"
    using el(2) e(2) by (auto dest!: set_update_subset_insert [THEN subsetD])
  from flush_directory [OF okd(2) d1(1) _ this, of junk1 be] el(1) obtain d2 where
    d2: "Directory_WriteBack junk1 be \<lparr>tableSize = NUM_DIR_ENTRIES, d_table = ?es[k := e]\<rparr> (directoryFile fs) d1 = Inr d2"
      "disk_ok d2" "entries be fs d2 = ?es[k := e]" "agree d1 d2 ?D" by auto
  from flush_free_map [OF okd(2) d2(2) b(1,2), of junk2 be] obtain d3 where
    d3: "Bitmap_WriteBack junk2 be b (freeMapFile fs) d2 = Inr d3" "disk_ok d3" "free_map be fs d3 = b"
      "entries be fs d3 = ?es[k := e]" "agree d2 d3 ?D" using d2(3) by auto
  have a13: "agree d1 d3 ?D" by (rule agree_trans [OF d2(4) d3(5)])
  have dsub: "data_blocks fs \<subseteq> ?U" using okd(6) by (auto simp add: sys_blocks_def)
  have blk: "blocks be d1 e = insert i (file_sectors h)" by (simp add: blocks_def d1(2) e(3))
  have eok1: "entry_ok be d1 e" using h i e(3) by (simp add: entry_ok_def d1(2))
  have hb: "file_sectors h \<subseteq> {..<NUM_SECTORS}" using h(1) by (auto simp add: hdr_ok_def file_sectors_def)
  have "insert i (file_sectors h) \<subseteq> ?D" using hb h(3) i dsub by auto
  then have ae: "agree d1 d3 (blocks be d1 e)" using agree_subset [OF a13] by (simp add: blk)
  note e3 = entry_agree [OF ae]
  have al: "agree d d3 (blocks be d (?es ! j))" if "j \<in> live ?es" for j
  proof -
    have B: "blocks be d (?es ! j) \<subseteq> {..<NUM_SECTORS}" using blocks_bound td(2) [OF that] by blast
    have "blocks be d (?es ! j) \<subseteq> {..<NUM_SECTORS} - {i}" using B td(6) [OF that] i(2) by auto
    moreover have "blocks be d (?es ! j) \<subseteq> ?D" using B td(3) [OF that] by (auto simp add: sys_blocks_def)
    ultimately show ?thesis using agree_trans agree_subset d1(3) a13 by metis
  qed
  have t3: "table_ok be fs d3 ?es ?U" using table_ok_agree [OF okd(3)] al by blast
  have kl: "k < length ?es" "k \<notin> live ?es" using k el(1) by (simp_all add: live_def)
  have "blocks be d3 e \<inter> ?U = {}" using h(3) i(2) by (simp add: e3(2) blk)
  from table_ok_insert [OF t3 kl e(1) _ new this] eok1 e3(3)
  have "table_ok be fs d3 (entries be fs d3) (?U \<union> blocks be d3 e)" by (simp add: d3(4))
  then have t3': "table_ok be fs d3 (entries be fs d3) (marked (free_map be fs d3))"
    by (simp add: d3(3) b(3) e3(2) blk)
  have "0 \<notin> data_blocks fs" "1 \<notin> data_blocks fs" "0 < NUM_SECTORS" "1 < NUM_SECTORS" "0 \<noteq> i" "1 \<noteq> i"
    using okd(2,5,6) i by (auto simp add: handles_ok_def fs_sizes)
  then have "agree d d3 {0, 1}"
    using agree_trans [OF agree_subset [OF d1(3)] agree_subset [OF a13], of "{0, 1}"] by simp
  from fs_okI [OF ok d3(2) this t3'] have ok3: "fs_ok be fs d3" .
  have "fs_files be fs d3 key = ((fs_files be fs d)(fname e \<mapsto> file_bytes d3 h)) key" for key
  proof (cases "key = fname e")
    case True
    have "named (entries be fs d3) (fname e) k" using kl(1) e(1) by (simp add: d3(4) named_update)
    from fs_files_named [OF t3' this] True e3(1) d1(2) kl(1) show ?thesis by (simp add: d3(4) contents_def)
  next
    case False
    have "\<not> named ?es key k" using k(2) by (simp add: named_def)
    from fs_files_update [OF okd(3) t3' d3(4) kl(1) _ False this] entry_agree(4) [OF al] td(2) False
    show ?thesis by simp
  qed
  with d2(1) d3(1) ok3 show ?thesis by (metis ext)
qed

lemma free_sector:
  assumes "handles_ok fs" and "marked (free_map be fs d) \<noteq> {..<NUM_SECTORS}"
  shows "\<exists>i b. Bitmap_Find (free_map be fs d) = Inr (int i, b) \<and> i < NUM_SECTORS \<and> i \<notin> marked (free_map be fs d) \<and>
     bitmap_inv b \<and> numBits b = NUM_SECTORS \<and> marked b = insert i (marked (free_map be fs d))"
  using bm.find_free [OF free_map_size(3) [OF assms(1), of be d]] assms(2) free_map_size(4) [OF assms(1), of be d]
  by (metis (no_types, lifting))

lemma Create_unfold:
  assumes ok: "fs_ok be fs d" and sz: "unat sz < MAX_FILE_SIZE"
    and new: "\<forall>i. \<not> named (entries be fs d) (cstr FILE_NAME_MAX_LEN name) i"
  shows "\<exists>d'. disk_ok d' \<and> sector d' = sector d \<and> FileSystem_Create be junk fs d name sz =
     bindR (Bitmap_Find (free_map be fs d)) (\<lambda>(s, freeMap).
       if s = -1 then Inr (False, d')
       else bindR (Directory_Add \<lparr>tableSize = NUM_DIR_ENTRIES, d_table = entries be fs d\<rparr> name s) (\<lambda>(added, dir).
       if \<not> added then Inr (False, d')
       else bindR (FileHeader_Allocate (new_header be (junk 2)) freeMap sz) (\<lambda>(success, h, freeMap).
         if success then
           bindR (FileHeader_WriteBack be h d' (word_of_int s)) (\<lambda>d.
           bindR (Directory_WriteBack (junk 3) be dir (directoryFile fs) d) (\<lambda>d.
           bindR (Bitmap_WriteBack (junk 4) be freeMap (freeMapFile fs) d) (\<lambda>d.
           Inr (True, d))))
         else Inr (False, d'))))"
proof -
  note okd = fs_okD [OF ok]
  obtain dir0 d1 where d1: "Directory_new be (junk 0) NUM_DIR_ENTRIES = Inr dir0"
    "Directory_FetchFrom be dir0 (directoryFile fs) d = Inr (\<lparr>tableSize = NUM_DIR_ENTRIES, d_table = entries be fs d\<rparr>, d1)"
    "disk_ok d1" "sector d1 = sector d" "dir_wf \<lparr>tableSize = NUM_DIR_ENTRIES, d_table = entries be fs d\<rparr>"
    using fetch_directory [OF okd(2,1,4)] by blast
  have "Directory_Find \<lparr>tableSize = NUM_DIR_ENTRIES, d_table = entries be fs d\<rparr> name = Inr (-1)"
    using Directory_Find_ok(2) [OF d1(5)] new by simp
  moreover obtain b0 d2 where "Bitmap_new (new_words (junk 1)) NUM_SECTORS = Inr b0"
    "Bitmap_FetchFrom be b0 (freeMapFile fs) d1 = Inr (free_map be fs d, d2)" "disk_ok d2" "sector d2 = sector d"
    using fetch_free_map [OF okd(2) d1(3), of "new_words (junk 1)" be] fs_same(6) [OF d1(4)] d1(4) by auto
  ultimately show ?thesis
    using d1(1,2) sz by (intro exI [of _ d2]) (simp add: FileSystem_Create_def)
qed

lemma sector_int:
  assumes "unat (s :: u32) < NUM_SECTORS"
  shows "sint s = int (unat s)" and "sint s \<noteq> -1" and "0 \<le> sint s" and "(word_of_int (sint s) :: u32) = s"
proof -
  show 1: "sint s = int (unat s)" using assms unfolding sint_cases32 by (simp add: fs_sizes)
  then show "sint s \<noteq> -1" "0 \<le> sint s" by linarith+
  show "(word_of_int (sint s) :: u32) = s" by simp
qed

lemma unat_sector: "i < NUM_SECTORS \<Longrightarrow> unat (word_of_int (int i) :: u32) = i"
  by (rule unat_word_of_int_nat) (simp add: fs_sizes)

lemma Create_existing:
  assumes ok: "fs_ok be fs d" and sz: "unat sz < MAX_FILE_SIZE"
    and old: "named (entries be fs d) (cstr FILE_NAME_MAX_LEN name) i"
  shows "\<exists>d'. FileSystem_Create be junk fs d name sz = Inr (False, d') \<and> disk_ok d' \<and> sector d' = sector d"
proof -
  note okd = fs_okD [OF ok]
  obtain dir0 d1 where d1: "Directory_new be (junk 0) NUM_DIR_ENTRIES = Inr dir0"
    "Directory_FetchFrom be dir0 (directoryFile fs) d = Inr (\<lparr>tableSize = NUM_DIR_ENTRIES, d_table = entries be fs d\<rparr>, d1)"
    "disk_ok d1" "sector d1 = sector d" "dir_wf \<lparr>tableSize = NUM_DIR_ENTRIES, d_table = entries be fs d\<rparr>"
    using fetch_directory [OF okd(2,1,4)] by blast
  have "entry_ok be d (entries be fs d ! i)"
    using table_okD(2) [OF okd(3) named_live [OF old]] .
  then have "sint (e_sector (entries be fs d ! i)) \<noteq> -1"
    by (intro sector_int(2)) (simp add: entry_ok_def)
  with Directory_Find_ok(1) [OF d1(5), of name i] old d1 sz show ?thesis
    by (simp add: FileSystem_Create_def)
qed

lemma Create_ok:
  assumes ok: "fs_ok be fs d" and sz: "unat sz < MAX_FILE_SIZE"
    and new: "\<forall>i. \<not> named (entries be fs d) (cstr FILE_NAME_MAX_LEN name) i" and room: "fs_room be fs d sz"
  shows "\<exists>d' bs. FileSystem_Create be junk fs d name sz = Inr (True, d') \<and> fs_ok be fs d' \<and>
     length bs = unat sz \<and> fs_files be fs d' = (fs_files be fs d)(cstr FILE_NAME_MAX_LEN name \<mapsto> bs)"
proof -
  note okd = fs_okD [OF ok]
  let ?U = "marked (free_map be fs d)" and ?dir = "\<lparr>tableSize = NUM_DIR_ENTRIES, d_table = entries be fs d\<rparr>"
  from Create_unfold [OF ok sz new, of junk] obtain d0 where d0: "disk_ok d0" "sector d0 = sector d"
    "FileSystem_Create be junk fs d name sz =
     bindR (Bitmap_Find (free_map be fs d)) (\<lambda>(s, freeMap).
       if s = -1 then Inr (False, d0)
       else bindR (Directory_Add ?dir name s) (\<lambda>(added, dir).
       if \<not> added then Inr (False, d0)
       else bindR (FileHeader_Allocate (new_header be (junk 2)) freeMap sz) (\<lambda>(success, h, freeMap).
         if success then
           bindR (FileHeader_WriteBack be h d0 (word_of_int s)) (\<lambda>d.
           bindR (Directory_WriteBack (junk 3) be dir (directoryFile fs) d) (\<lambda>d.
           bindR (Bitmap_WriteBack (junk 4) be freeMap (freeMapFile fs) d) (\<lambda>d.
           Inr (True, d))))
         else Inr (False, d0))))" by blast
  have "card ?U \<noteq> card {..<NUM_SECTORS}" using room by (simp add: fs_room_def)
  then have "?U \<noteq> {..<NUM_SECTORS}" by (rule contrapos_nn) simp
  from free_sector [OF okd(2) this] obtain i b where
    i: "Bitmap_Find (free_map be fs d) = Inr (int i, b)" "i < NUM_SECTORS" "i \<notin> ?U"
    and b: "bitmap_inv b" "numBits b = NUM_SECTORS" "marked b = insert i ?U" by blast
  have wf: "dir_wf ?dir"
    using directory_size(3,4) [OF okd(2)] okd(4) by (simp add: dir_wf_def NUM_DIR_ENTRIES_def)
  from Directory_Add_ok [OF wf, of name "int i"] new room obtain k e where
    add: "Directory_Add ?dir name (int i) = Inr (True, ?dir\<lparr>d_table := (entries be fs d)[k := e]\<rparr>)"
    and k: "k < NUM_DIR_ENTRIES" "\<not> inUse (entries be fs d ! k)"
    and e: "inUse e" "fname e = cstr FILE_NAME_MAX_LEN name" "e_sector e = word_of_int (int i)" "entry_wf e"
    by (auto simp add: fs_room_def)
  have "card (marked b) + DivRoundUp (unat sz) SECTOR_SIZE \<le> NUM_SECTORS"
    using room i(3) by (simp add: b(3) fs_room_def)
  from Allocate_ok [OF b(1,2) length_new_header _ this, of be "junk 2"] sz obtain h b' where
    h: "FileHeader_Allocate (new_header be (junk 2)) b sz = Inr (True, h, b')" "hdr_ok h" "numBytes h = sz"
      "file_sectors h \<inter> marked b = {}"
    and b': "marked b' = marked b \<union> file_sectors h" "bitmap_inv b'" "numBits b' = NUM_SECTORS" by auto
  have ui: "unat (word_of_int (int i) :: u32) = i" using i(2) by (rule unat_sector)
  have "length (dataSectors h) = NUM_DIRECT" using h(2) by (simp add: hdr_ok_def)
  from FileHeader_WriteBack_ok [OF d0(1) _ this, of "word_of_int (int i)" be] ui i(2) obtain d1 where
    d1: "FileHeader_WriteBack be h d0 (word_of_int (int i)) = Inr d1" "disk_ok d1"
      "hdr_at be d1 (word_of_int (int i)) = h" "agree d0 d1 ({..<NUM_SECTORS} - {i})" by auto
  have ag: "agree d d1 ({..<NUM_SECTORS} - {i})" using d1(4) d0(2) by (simp add: agree_def)
  have fb: "file_sectors h \<inter> ?U = {}" "i \<notin> file_sectors h" using h(4) b(3) by auto
  have mb: "marked b' = ?U \<union> insert i (file_sectors h)" using b'(1) b(3) by auto
  have new': "\<forall>j. \<not> named (entries be fs d) (fname e) j" using new e(2) by simp
  have si: "unat (e_sector e) = i" and at: "hdr_at be d1 (e_sector e) = h" using ui d1(3) by (simp_all add: e(3))
  from add_file [OF ok new' k e(1,4) si i(2,3) h(2) fb(2,1) b'(2,3) mb d1(2) at ag, of "junk 3" "junk 4"]
  obtain d2 d3 where d3: "Directory_WriteBack (junk 3) be \<lparr>tableSize = NUM_DIR_ENTRIES, d_table = (entries be fs d)[k := e]\<rparr>
       (directoryFile fs) d1 = Inr d2" "Bitmap_WriteBack (junk 4) be b' (freeMapFile fs) d2 = Inr d3" "fs_ok be fs d3"
    "fs_files be fs d3 = (fs_files be fs d)(fname e \<mapsto> file_bytes d3 h)" by blast
  have "FileSystem_Create be junk fs d name sz = Inr (True, d3)"
    using d0(3) i(1) add h(1) d1(1) d3(1,2) by simp
  with d3(3,4) e(2) h(3) show ?thesis
    by (intro exI [of _ d3] exI [of _ "file_bytes d3 h"]) simp
qed

lemma Create_fails:
  assumes ok: "fs_ok be fs d" and sz: "unat sz < MAX_FILE_SIZE"
    and new: "\<forall>i. \<not> named (entries be fs d) (cstr FILE_NAME_MAX_LEN name) i" and full: "\<not> fs_room be fs d sz"
  shows "\<exists>d'. FileSystem_Create be junk fs d name sz = Inr (False, d') \<and> disk_ok d' \<and> sector d' = sector d"
proof -
  note okd = fs_okD [OF ok]
  let ?U = "marked (free_map be fs d)" and ?dir = "\<lparr>tableSize = NUM_DIR_ENTRIES, d_table = entries be fs d\<rparr>"
  from Create_unfold [OF ok sz new, of junk] obtain d0 where d0: "disk_ok d0" "sector d0 = sector d"
    "FileSystem_Create be junk fs d name sz =
     bindR (Bitmap_Find (free_map be fs d)) (\<lambda>(s, freeMap).
       if s = -1 then Inr (False, d0)
       else bindR (Directory_Add ?dir name s) (\<lambda>(added, dir).
       if \<not> added then Inr (False, d0)
       else bindR (FileHeader_Allocate (new_header be (junk 2)) freeMap sz) (\<lambda>(success, h, freeMap).
         if success then
           bindR (FileHeader_WriteBack be h d0 (word_of_int s)) (\<lambda>d.
           bindR (Directory_WriteBack (junk 3) be dir (directoryFile fs) d) (\<lambda>d.
           bindR (Bitmap_WriteBack (junk 4) be freeMap (freeMapFile fs) d) (\<lambda>d.
           Inr (True, d))))
         else Inr (False, d0))))" by blast
  have wf: "dir_wf ?dir"
    using directory_size(3,4) [OF okd(2)] okd(4) by (simp add: dir_wf_def NUM_DIR_ENTRIES_def)
  have "FileSystem_Create be junk fs d name sz = Inr (False, d0)"
  proof (cases "?U = {..<NUM_SECTORS}")
    case True
    with bm.find_full [OF free_map_size(3) [OF okd(2), of be d]] free_map_size(4) [OF okd(2), of be d] d0(3)
    show ?thesis by simp
  next
    case False
    from free_sector [OF okd(2) this] obtain i b where
      i: "Bitmap_Find (free_map be fs d) = Inr (int i, b)" "i < NUM_SECTORS" "i \<notin> ?U"
      and b: "bitmap_inv b" "numBits b = NUM_SECTORS" "marked b = insert i ?U" by blast
    show ?thesis
    proof (cases "\<forall>i<NUM_DIR_ENTRIES. inUse (entries be fs d ! i)")
      case True
      with Directory_Add_fails [OF wf] i d0(3) show ?thesis by simp
    next
      case nf: False
      with full i(3) have "NUM_SECTORS < card (marked b) + DivRoundUp (unat sz) SECTOR_SIZE"
        by (auto simp add: b(3) fs_room_def)
      with Allocate_fails [OF b(1,2), of sz "new_header be (junk 2)"] obtain h where
        "FileHeader_Allocate (new_header be (junk 2)) b sz = Inr (False, h, b)" by blast
      with nf Directory_Add_ok [OF wf, of name "int i"] new i d0(3) show ?thesis by auto
    qed
  qed
  with d0 show ?thesis by blast
qed

lemma Create_spec:
  assumes "fs_ok be fs d" and "unat sz < MAX_FILE_SIZE"
  shows "\<exists>ok d'. FileSystem_Create be junk fs d name sz = Inr (ok, d') \<and> fs_ok be fs d' \<and>
     (ok \<longleftrightarrow> fs_files be fs d (cstr 9 name) = None \<and> fs_room be fs d sz) \<and>
     (if ok then \<exists>bs. length bs = unat sz \<and> fs_files be fs d' = (fs_files be fs d)(cstr 9 name \<mapsto> bs)
      else sector d' = sector d \<and> fs_files be fs d' = fs_files be fs d)"
proof -
  have n: "fs_files be fs d (cstr 9 name) = None \<longleftrightarrow>
      (\<forall>i. \<not> named (entries be fs d) (cstr FILE_NAME_MAX_LEN name) i)"
    by (simp add: fs_files_dom FILE_NAME_MAX_LEN_def)
  show ?thesis
  proof (cases "fs_files be fs d (cstr 9 name) = None \<and> fs_room be fs d sz")
    case True
    from Create_ok [OF assms(1,2), of name junk] True obtain d' bs where
      "FileSystem_Create be junk fs d name sz = Inr (True, d')" "fs_ok be fs d'" "length bs = unat sz"
      "fs_files be fs d' = (fs_files be fs d)(cstr 9 name \<mapsto> bs)"
      using n by (auto simp add: FILE_NAME_MAX_LEN_def)
    with True show ?thesis by auto
  next
    case False
    then have "\<exists>d'. FileSystem_Create be junk fs d name sz = Inr (False, d') \<and> disk_ok d' \<and> sector d' = sector d"
      using n Create_existing [OF assms] Create_fails [OF assms] by blast
    then obtain d' where d': "FileSystem_Create be junk fs d name sz = Inr (False, d')" "disk_ok d'" "sector d' = sector d"
      by blast
    note fs_same(1,2) [OF d'(3), of be fs]
    with False d' assms(1) show ?thesis by (intro exI [of _ False] exI [of _ d']) simp
  qed
qed

text \<open>C1: \<open>Create\<close> implements the specification of a finite map from names to contents. On a well-formed
  file system it returns true exactly when the name is absent and there is room (a free sector for
  the header, as many for the data as the size needs, and a free entry); then the name has a file
  of the asked size, every other file keeps its contents and the file system is well formed again.
  When it returns false, nothing on the disk has changed.\<close>

theorem Create_refines:
  assumes "fs_ok be fs d" and "unat sz < MAX_FILE_SIZE"
  shows "\<exists>ok d'. FileSystem_Create be junk fs d name sz = Inr (ok, d') \<and> fs_ok be fs d' \<and>
     (ok \<longleftrightarrow> fs_files be fs d (cstr 9 name) = None \<and> fs_room be fs d sz) \<and>
     (if ok then \<exists>bs. length bs = unat sz \<and> fs_files be fs d' = (fs_files be fs d)(cstr 9 name \<mapsto> bs)
      else sector d' = sector d \<and> fs_files be fs d' = fs_files be fs d)"
  by (rule Create_spec [OF assms])

section \<open>Opening files\<close>

lemma Open_cases:
  assumes ok: "fs_ok be fs d"
  shows "named (entries be fs d) (cstr 9 name) i \<Longrightarrow>
      \<exists>d'. FileSystem_Open be junk fs d name =
        Inr (Some \<lparr>hdr = hdr_at be d (e_sector (entries be fs d ! i)), seekPosition = 0\<rparr>, d') \<and>
        disk_ok d' \<and> sector d' = sector d"
    and "\<forall>i. \<not> named (entries be fs d) (cstr 9 name) i \<Longrightarrow>
      \<exists>d'. FileSystem_Open be junk fs d name = Inr (None, d') \<and> disk_ok d' \<and> sector d' = sector d"
proof -
  note okd = fs_okD [OF ok]
  let ?dir = "\<lparr>tableSize = NUM_DIR_ENTRIES, d_table = entries be fs d\<rparr>"
  obtain dir0 d1 where d1: "Directory_new be (junk 0) NUM_DIR_ENTRIES = Inr dir0"
    "Directory_FetchFrom be dir0 (directoryFile fs) d = Inr (?dir, d1)"
    "disk_ok d1" "sector d1 = sector d" "dir_wf ?dir"
    using fetch_directory [OF okd(2,1,4)] by blast
  {
    assume i: "named (entries be fs d) (cstr 9 name) i"
    let ?s = "e_sector (entries be fs d ! i)"
    have s: "unat ?s < NUM_SECTORS"
      using table_okD(2) [OF okd(3) named_live [OF i]] by (simp add: entry_ok_def)
    have "Directory_Find ?dir name = Inr (sint ?s)"
      using Directory_Find_ok(1) [OF d1(5), of name i] i by (simp add: FILE_NAME_MAX_LEN_def)
    moreover obtain d2 where "FileHeader_FetchFrom be d1 ?s = Inr (hdr_at be d1 ?s, d2)" "disk_ok d2" "sector d2 = sector d1"
      using FileHeader_FetchFrom_ok [OF d1(3) s] by blast
    ultimately show "\<exists>d'. FileSystem_Open be junk fs d name = Inr (Some \<lparr>hdr = hdr_at be d ?s, seekPosition = 0\<rparr>, d') \<and>
        disk_ok d' \<and> sector d' = sector d"
      using d1 sector_int(3,4) [OF s] fs_same(3) [OF d1(4), of be ?s]
      by (simp add: FileSystem_Open_def OpenFile_new_def)
  }
  assume "\<forall>i. \<not> named (entries be fs d) (cstr 9 name) i"
  then have "Directory_Find ?dir name = Inr (-1)"
    using Directory_Find_ok(2) [OF d1(5), of name] by (simp add: FILE_NAME_MAX_LEN_def)
  with d1 show "\<exists>d'. FileSystem_Open be junk fs d name = Inr (None, d') \<and> disk_ok d' \<and> sector d' = sector d"
    by (simp add: FileSystem_Open_def)
qed

lemma fs_files_SomeD:
  assumes "fs_ok be fs d" and "fs_files be fs d k = Some bs"
  obtains i where "named (entries be fs d) k i" "bs = contents be d (entries be fs d ! i)"
proof -
  from assms(2) have "\<not> (\<forall>i. \<not> named (entries be fs d) k i)" using fs_files_dom [of be fs d k] by auto
  then obtain i where i: "named (entries be fs d) k i" by blast
  from fs_files_named [OF fs_okD(3) [OF assms(1)] i] assms(2) that [OF i] show thesis by simp
qed

lemma Open_spec:
  assumes "fs_ok be fs d"
  shows "\<exists>d'. sector d' = sector d \<and> fs_ok be fs d' \<and>
     (case fs_files be fs d (cstr 9 name) of
        None \<Rightarrow> FileSystem_Open be junk fs d name = Inr (None, d')
      | Some bs \<Rightarrow> \<exists>f. FileSystem_Open be junk fs d name = Inr (Some f, d') \<and> hdr_ok (hdr f) \<and>
          seekPosition f = 0 \<and> file_bytes d' (hdr f) = bs)"
proof (cases "fs_files be fs d (cstr 9 name)")
  case None
  then obtain d' where "FileSystem_Open be junk fs d name = Inr (None, d')" "disk_ok d'" "sector d' = sector d"
    using Open_cases(2) [OF assms, of name junk] fs_files_dom [of be fs d] by blast
  with None fs_same(2) assms show ?thesis by auto
next
  case (Some bs)
  then obtain i where i: "named (entries be fs d) (cstr 9 name) i" "bs = contents be d (entries be fs d ! i)"
    using fs_files_SomeD [OF assms] by blast
  let ?h = "hdr_at be d (e_sector (entries be fs d ! i))"
  obtain d' where d': "FileSystem_Open be junk fs d name = Inr (Some \<lparr>hdr = ?h, seekPosition = 0\<rparr>, d')"
    "disk_ok d'" "sector d' = sector d" using Open_cases(1) [OF assms i(1), of junk] by blast
  have "hdr_ok ?h" using table_okD(2) [OF fs_okD(3) [OF assms] named_live [OF i(1)]] by (simp add: entry_ok_def)
  moreover have "file_bytes d' ?h = bs" using i(2) fs_same(4) [OF d'(3)] by (simp add: contents_def)
  moreover have "fs_ok be fs d'" using fs_same(2) [OF d'(3,2) assms] .
  ultimately show ?thesis
    unfolding Some using d' by (intro exI [of _ d']) auto
qed

text \<open>\<open>Open\<close> returns a file exactly for the names that exist, cut to nine characters; the file it
  returns has a well-formed header, stands at its beginning and holds the contents of that name. It
  changes nothing on the disk.\<close>

theorem Open_refines:
  assumes "fs_ok be fs d"
  shows "\<exists>d'. sector d' = sector d \<and> fs_ok be fs d' \<and>
     (case fs_files be fs d (cstr 9 name) of
        None \<Rightarrow> FileSystem_Open be junk fs d name = Inr (None, d')
      | Some bs \<Rightarrow> \<exists>f. FileSystem_Open be junk fs d name = Inr (Some f, d') \<and> hdr_ok (hdr f) \<and>
          seekPosition f = 0 \<and> file_bytes d' (hdr f) = bs)"
  by (rule Open_spec [OF assms])

lemma write_keeps:
  assumes ok: "fs_ok be fs d" and i: "named (entries be fs d) k i"
    and f: "hdr f = hdr_at be d (e_sector (entries be fs d ! i))"
    and n: "0 < n" "unat pos < unat (numBytes (hdr f))" "unat pos + unat n < 4294967296" "unat n \<le> length from"
  defines "m \<equiv> min (unat n) (unat (numBytes (hdr f)) - unat pos)"
  shows "\<exists>d'. OpenFile_WriteAt junk f d from n pos = Inr (of_nat m, d') \<and> fs_ok be fs d' \<and>
     entries be fs d' = entries be fs d \<and> hdr_at be d' (e_sector (entries be fs d ! i)) = hdr f \<and>
     fs_files be fs d' = (fs_files be fs d)(k \<mapsto> blit (contents be d (entries be fs d ! i)) (unat pos) (take m from))"
proof -
  note okd = fs_okD [OF ok]
  note td = table_okD [OF okd(3)]
  let ?es = "entries be fs d" and ?e = "entries be fs d ! i"
  have il: "i \<in> live ?es" "i < length ?es" using i by (simp_all add: named_live named_def)
  note eok = td(2) [OF il(1)]
  have h: "hdr_ok (hdr f)" using eok by (simp add: f entry_ok_def)
  have "m \<le> length from" using n(4) by (simp add: m_def)
  from WriteAt_ok [OF h okd(1) n(1-3) this [unfolded m_def], of junk] obtain d' where
    d': "OpenFile_WriteAt junk f d from n pos = Inr (of_nat m, d')" "disk_ok d'"
      "file_bytes d' (hdr f) = blit (file_bytes d (hdr f)) (unat pos) (take m from)"
      "\<forall>i<NUM_SECTORS. i \<notin> file_sectors (hdr f) \<longrightarrow> sector d' i = sector d i" unfolding m_def by blast
  have fsub: "file_sectors (hdr f) \<subseteq> blocks be d ?e" by (auto simp add: f blocks_def)
  have ag: "agree d d' S" if "S \<subseteq> {..<NUM_SECTORS}" "S \<inter> file_sectors (hdr f) = {}" for S
    using d'(4) that unfolding agree_def by blast
  have asys: "agree d d' (sys_blocks fs)"
    using td(3) [OF il(1)] fsub sys_distinct [OF okd(2)]
    by (intro ag) (auto simp add: sys_blocks_def data_blocks_def fs_sizes)
  have es: "entries be fs d' = ?es" and fm: "free_map be fs d' = free_map be fs d"
  proof -
    have g: "file_bytes d' (hdr g) = file_bytes d (hdr g)" if "hdr_ok (hdr g)" "file_sectors (hdr g) \<subseteq> sys_blocks fs" for g
      using agreeD [OF asys] that by (intro file_bytes_cong) auto
    have "file_bytes d' (hdr (freeMapFile fs)) = file_bytes d (hdr (freeMapFile fs))"
      "file_bytes d' (hdr (directoryFile fs)) = file_bytes d (hdr (directoryFile fs))"
      using okd(2) by (auto simp add: handles_ok_def sys_blocks_def data_blocks_def intro!: g)
    then show "entries be fs d' = ?es" "free_map be fs d' = free_map be fs d"
      by (simp_all add: entries_def dir_of_def free_map_def)
  qed
  have others: "agree d d' (blocks be d (?es ! j))" if "j \<in> live ?es" "j \<noteq> i" for j
    using td(4) [OF that(1) il(1) that(2)] fsub blocks_bound [OF td(2) [OF that(1)]] by (intro ag) auto
  have h': "hdr_at be d' (e_sector ?e) = hdr f"
    using eok ag [of "{unat (e_sector ?e)}"] by (simp add: entry_ok_def f agree_def hdr_at_def)
  then have be': "blocks be d' ?e = blocks be d ?e" "entry_ok be d' ?e"
    using eok f by (simp_all add: blocks_def entry_ok_def)
  have all: "blocks be d' (?es ! j) = blocks be d (?es ! j) \<and> entry_ok be d' (?es ! j)" if "j \<in> live ?es" for j
    using be' entry_agree(2,3) [OF others [OF that]] td(2) [OF that] by (cases "j = i") auto
  have t': "table_ok be fs d' (entries be fs d') (marked (free_map be fs d'))"
    using okd(3) all unfolding table_ok_def es fm by simp
  have "agree d d' {0, 1}" by (rule agree_subset [OF asys]) (simp add: sys_blocks_def)
  from fs_okI [OF ok d'(2) this t'] have ok': "fs_ok be fs d'" .
  have "fs_files be fs d' key = ((fs_files be fs d)(k \<mapsto> blit (contents be d ?e) (unat pos) (take m from))) key" for key
  proof (cases "key = k")
    case True
    with fs_files_named [OF t', of k i] i h' d'(3) f show ?thesis by (simp add: es contents_def)
  next
    case False
    have "fs_files be fs d' key = fs_files be fs d key"
    proof (rule fs_files_update [OF okd(3) t'])
      show "entries be fs d' = ?es[i := ?e]" by (simp add: es)
      show "key \<noteq> fname ?e" "\<not> named ?es key i" using i False by (auto simp add: named_def)
      show "contents be d' (?es ! j) = contents be d (?es ! j)" if "j \<in> live ?es" "j \<noteq> i" for j
        using entry_agree(4) [OF others [OF that] td(2) [OF that(1)]] .
    qed (rule il(2))
    with False show ?thesis by simp
  qed
  then have "fs_files be fs d' = (fs_files be fs d)(k \<mapsto> blit (contents be d ?e) (unat pos) (take m from))" by (rule ext)
  with d'(1) ok' es h' show ?thesis by blast
qed

lemma write_file:
  assumes "fs_ok be fs d" and "named (entries be fs d) k i"
    and "hdr f = hdr_at be d (e_sector (entries be fs d ! i))"
    and "0 < n" "unat pos < unat (numBytes (hdr f))" "unat pos + unat n < 4294967296" "unat n \<le> length from"
  defines "m \<equiv> min (unat n) (unat (numBytes (hdr f)) - unat pos)"
  shows "\<exists>d'. OpenFile_WriteAt junk f d from n pos = Inr (of_nat m, d') \<and> fs_ok be fs d' \<and>
     fs_files be fs d' = (fs_files be fs d)(k \<mapsto> blit (contents be d (entries be fs d ! i)) (unat pos) (take m from))"
  using write_keeps [OF assms(1-7), of junk] unfolding m_def by blast

text \<open>C7: Writing through a file handle that \<open>Open\<close> returned changes the contents of that name, at the
  written range, and of no other name, and keeps the file system well formed.\<close>

theorem Open_WriteAt_refines:
  assumes "fs_ok be fs d" and "fs_files be fs d (cstr 9 name) = Some bs"
    and "0 < n" and "unat pos < length bs" and "unat pos + unat n < 2 ^ 32" and "unat n \<le> length from"
  shows "\<exists>f d1 d2. FileSystem_Open be junk fs d name = Inr (Some f, d1) \<and>
     OpenFile_WriteAt junk' f d1 from n pos = Inr (of_nat (min (unat n) (length bs - unat pos)), d2) \<and>
     fs_ok be fs d2 \<and>
     fs_files be fs d2 = (fs_files be fs d)(cstr 9 name \<mapsto> blit bs (unat pos) (take (length bs - unat pos) (take (unat n) from)))"
proof -
  obtain i where i: "named (entries be fs d) (cstr 9 name) i" "bs = contents be d (entries be fs d ! i)"
    using fs_files_SomeD [OF assms(1,2)] by blast
  let ?f = "\<lparr>hdr = hdr_at be d (e_sector (entries be fs d ! i)), seekPosition = 0\<rparr>"
  obtain d1 where d1: "FileSystem_Open be junk fs d name = Inr (Some ?f, d1)" "disk_ok d1" "sector d1 = sector d"
    using Open_cases(1) [OF assms(1) i(1), of junk] by blast
  note same = fs_same(5,6) [OF d1(3), of be fs] fs_same(3,4) [OF d1(3)]
  have ok1: "fs_ok be fs d1" using fs_same(2) [OF d1(3,2) assms(1)] .
  have c1: "contents be d1 (entries be fs d1 ! i) = bs" using i(2) by (simp add: contents_def same)
  have len: "unat (numBytes (hdr ?f)) = length bs" by (simp add: i(2) contents_def)
  from write_file [OF ok1, of "cstr 9 name" i ?f n pos "from" junk'] i(1) assms(3-6) c1 len
  obtain d2 where "OpenFile_WriteAt junk' ?f d1 from n pos = Inr (of_nat (min (unat n) (length bs - unat pos)), d2)"
    "fs_ok be fs d2" "fs_files be fs d2 = (fs_files be fs d1)(cstr 9 name \<mapsto>
       blit bs (unat pos) (take (min (unat n) (length bs - unat pos)) from))" by (auto simp add: same)
  then show ?thesis
    using d1(1) fs_same(1) [OF d1(3)] by (intro exI [of _ ?f] exI [of _ d1] exI [of _ d2]) (simp add: min.commute)
qed

section \<open>Removing files\<close>

lemma remove_flush:
  assumes ok: "fs_ok be fs d" and i: "named (entries be fs d) k i"
    and b: "bitmap_inv b" "numBits b = NUM_SECTORS"
      "marked b = marked (free_map be fs d) - blocks be d (entries be fs d ! i)"
    and d1: "disk_ok d1" "sector d1 = sector d"
  defines "es \<equiv> (entries be fs d)[i := (entries be fs d ! i)\<lparr>inUse := False\<rparr>]"
  shows "\<exists>d2 d3. Bitmap_WriteBack junk1 be b (freeMapFile fs) d1 = Inr d2 \<and>
     Directory_WriteBack junk2 be \<lparr>tableSize = NUM_DIR_ENTRIES, d_table = es\<rparr> (directoryFile fs) d2 = Inr d3 \<and>
     fs_ok be fs d3 \<and> fs_files be fs d3 = (fs_files be fs d)(k := None) \<and> free_map be fs d3 = b"
proof -
  note okd = fs_okD [OF ok]
  note td = table_okD [OF okd(3)]
  let ?D = "{..<NUM_SECTORS} - data_blocks fs" and ?es = "entries be fs d"
  have el: "length ?es = NUM_DIR_ENTRIES" "\<forall>e\<in>set ?es. entry_wf e" using directory_size(3,4) [OF okd(2)] by simp_all
  have il: "i \<in> live ?es" "i < length ?es" using i by (simp_all add: named_live named_def)
  from flush_free_map [OF okd(2) d1(1) b(1,2), of junk1 be] obtain d2 where
    d2: "Bitmap_WriteBack junk1 be b (freeMapFile fs) d1 = Inr d2" "disk_ok d2" "free_map be fs d2 = b" "agree d1 d2 ?D" by blast
  have "entry_wf ((?es ! i)\<lparr>inUse := False\<rparr>)" using el(2) il(2) by (simp add: entry_wf_def)
  with el(2) have "\<forall>e\<in>set es. entry_wf e"
    unfolding es_def by (auto dest!: set_update_subset_insert [THEN subsetD])
  from flush_directory [OF okd(2) d2(2) _ this, of junk2 be] el(1) obtain d3 where
    d3: "Directory_WriteBack junk2 be \<lparr>tableSize = NUM_DIR_ENTRIES, d_table = es\<rparr> (directoryFile fs) d2 = Inr d3"
      "disk_ok d3" "entries be fs d3 = es" "free_map be fs d3 = b" "agree d2 d3 ?D"
    using d2(3) by (auto simp add: es_def)
  have ad: "agree d d3 ?D" using agree_trans [OF d2(4) d3(5)] d1(2) by (simp add: agree_def)
  have al: "agree d d3 (blocks be d (?es ! j))" if "j \<in> live ?es" for j
    using td(3) [OF that] blocks_bound [OF td(2) [OF that]]
    by (intro agree_subset [OF ad]) (auto simp add: sys_blocks_def)
  have t3: "table_ok be fs d3 ?es (marked (free_map be fs d))" using table_ok_agree [OF okd(3)] al by blast
  have "blocks be d3 (?es ! i) = blocks be d (?es ! i)" using entry_agree(2) [OF al [OF il(1)]] .
  with table_ok_delete [OF t3 il(1)] have t3': "table_ok be fs d3 (entries be fs d3) (marked (free_map be fs d3))"
    by (simp add: d3(3,4) b(3) es_def)
  have "0 \<notin> data_blocks fs" "1 \<notin> data_blocks fs" "0 < NUM_SECTORS" "1 < NUM_SECTORS"
    using okd(2) by (auto simp add: handles_ok_def fs_sizes)
  then have "agree d d3 {0, 1}" by (intro agree_subset [OF ad]) simp
  from fs_okI [OF ok d3(2) this t3'] have ok3: "fs_ok be fs d3" .
  have "fs_files be fs d3 key = ((fs_files be fs d)(k := None)) key" for key
  proof (cases "key = k")
    case True
    have "\<forall>j. \<not> named (entries be fs d3) k j"
      using unique_namesD [OF td(1) i] il(2) by (auto simp add: d3(3) es_def named_update)
    with True show ?thesis by (simp add: fs_files_unnamed)
  next
    case False
    have f: "fname (?es ! i) = k" using i by (simp add: named_def)
    have "fs_files be fs d3 key = fs_files be fs d key"
    proof (rule fs_files_update [OF okd(3) t3' d3(3) [unfolded es_def] il(2)])
      show "contents be d3 (?es ! j) = contents be d (?es ! j)" if "j \<in> live ?es" for j
        using entry_agree(4) [OF al [OF that] td(2) [OF that]] .
    qed (use False f in \<open>auto simp add: named_def fname_def\<close>)
    with False show ?thesis by simp
  qed
  then have "fs_files be fs d3 = (fs_files be fs d)(k := None)" by (rule ext)
  with d2(1) d3(1,4) ok3 show ?thesis by blast
qed

lemma Remove_ok:
  assumes ok: "fs_ok be fs d" and i: "named (entries be fs d) (cstr 9 name) i"
  shows "\<exists>d'. FileSystem_Remove be junk fs d name = Inr (True, d') \<and> fs_ok be fs d' \<and>
     fs_files be fs d' = (fs_files be fs d)(cstr 9 name := None) \<and>
     marked (free_map be fs d') = marked (free_map be fs d) - blocks be d (entries be fs d ! i)"
proof -
  note okd = fs_okD [OF ok]
  note td = table_okD [OF okd(3)]
  let ?dir = "\<lparr>tableSize = NUM_DIR_ENTRIES, d_table = entries be fs d\<rparr>" and ?e = "entries be fs d ! i"
  have il: "i \<in> live (entries be fs d)" using i by (rule named_live)
  note eok = td(2) [OF il]
  obtain dir0 d1 where d1: "Directory_new be (junk 0) NUM_DIR_ENTRIES = Inr dir0"
    "Directory_FetchFrom be dir0 (directoryFile fs) d = Inr (?dir, d1)"
    "disk_ok d1" "sector d1 = sector d" "dir_wf ?dir"
    using fetch_directory [OF okd(2,1,4)] by blast
  have s: "unat (e_sector ?e) < NUM_SECTORS" using eok by (simp add: entry_ok_def)
  have f: "Directory_Find ?dir name = Inr (sint (e_sector ?e))"
    using Directory_Find_ok(1) [OF d1(5), of name i] i by (simp add: FILE_NAME_MAX_LEN_def)
  obtain d2 where d2: "FileHeader_FetchFrom be d1 (e_sector ?e) = Inr (hdr_at be d (e_sector ?e), d2)"
    "disk_ok d2" "sector d2 = sector d"
    using FileHeader_FetchFrom_ok [OF d1(3) s, of be] fs_same(3) [OF d1(4)] d1(4) by auto
  obtain b0 d3 where d3: "Bitmap_new (new_words (junk 1)) NUM_SECTORS = Inr b0"
    "Bitmap_FetchFrom be b0 (freeMapFile fs) d2 = Inr (free_map be fs d, d3)" "disk_ok d3" "sector d3 = sector d"
    using fetch_free_map [OF okd(2) d2(2), of "new_words (junk 1)" be] fs_same(6) [OF d2(3)] d2(3) by auto
  have h: "hdr_ok (hdr_at be d (e_sector ?e))" using eok by (simp add: entry_ok_def)
  have "file_sectors (hdr_at be d (e_sector ?e)) \<subseteq> marked (free_map be fs d)"
    using td(6) [OF il] by (simp add: blocks_def)
  from Deallocate_ok [OF free_map_size(3) [OF okd(2)] h this] free_map_size(4) [OF okd(2)] obtain b1 where
    b1: "FileHeader_Deallocate (hdr_at be d (e_sector ?e)) (free_map be fs d) = Inr b1" "bitmap_inv b1"
      "numBits b1 = NUM_SECTORS" "marked b1 = marked (free_map be fs d) - file_sectors (hdr_at be d (e_sector ?e))" by auto
  from Bitmap_Clear_ok [OF b1(2), of "unat (e_sector ?e)"] s b1(3) obtain b2 where
    b2: "Bitmap_Clear b1 (unat (e_sector ?e)) = Inr b2" "bitmap_inv b2" "numBits b2 = NUM_SECTORS"
      "marked b2 = marked b1 - {unat (e_sector ?e)}" by auto
  have mb: "marked b2 = marked (free_map be fs d) - blocks be d ?e" using b2(4) b1(4) by (auto simp add: blocks_def)
  have rm: "Directory_Remove ?dir name = Inr (True, ?dir\<lparr>d_table := (entries be fs d)[i := ?e\<lparr>inUse := False\<rparr>]\<rparr>)"
    using Directory_Remove_ok(1) [OF d1(5), of name i] i by (simp add: FILE_NAME_MAX_LEN_def)
  from remove_flush [OF ok i b2(2,3) mb d3(3,4), of "junk 2" "junk 3"] obtain d4 d5 where
    d5: "Bitmap_WriteBack (junk 2) be b2 (freeMapFile fs) d3 = Inr d4"
     "Directory_WriteBack (junk 3) be \<lparr>tableSize = NUM_DIR_ENTRIES, d_table = (entries be fs d)[i := ?e\<lparr>inUse := False\<rparr>]\<rparr>
        (directoryFile fs) d4 = Inr d5"
     "fs_ok be fs d5" "fs_files be fs d5 = (fs_files be fs d)(cstr 9 name := None)" "free_map be fs d5 = b2" by blast
  have "FileSystem_Remove be junk fs d name = Inr (True, d5)"
    using d1(1,2) f sector_int(2,4) [OF s] d2(1) d3(1,2) b1(1) b2(1) rm d5(1,2) by (simp add: FileSystem_Remove_def)
  with d5 mb show ?thesis by auto
qed

text \<open>C5: \<open>Remove\<close> returns true exactly when the name exists, cut to nine characters. Then the name is
  gone, its header's and its data's sectors are free again and no others, every other file keeps
  its contents, and the file system is well formed. Otherwise nothing on the disk has changed.\<close>

theorem Remove_refines:
  assumes "fs_ok be fs d"
  shows "case fs_files be fs d (cstr 9 name) of
      None \<Rightarrow> \<exists>d'. FileSystem_Remove be junk fs d name = Inr (False, d') \<and> fs_ok be fs d' \<and> sector d' = sector d
    | Some bs \<Rightarrow> \<exists>d' freed. FileSystem_Remove be junk fs d name = Inr (True, d') \<and> fs_ok be fs d' \<and>
        fs_files be fs d' = (fs_files be fs d)(cstr 9 name := None) \<and>
        marked (free_map be fs d') = marked (free_map be fs d) - freed \<and>
        freed \<subseteq> marked (free_map be fs d) \<and> card freed = 1 + DivRoundUp (length bs) SECTOR_SIZE"
proof (cases "fs_files be fs d (cstr 9 name)")
  case None
  note okd = fs_okD [OF assms]
  let ?dir = "\<lparr>tableSize = NUM_DIR_ENTRIES, d_table = entries be fs d\<rparr>"
  obtain dir0 d1 where d1: "Directory_new be (junk 0) NUM_DIR_ENTRIES = Inr dir0"
    "Directory_FetchFrom be dir0 (directoryFile fs) d = Inr (?dir, d1)"
    "disk_ok d1" "sector d1 = sector d" "dir_wf ?dir"
    using fetch_directory [OF okd(2,1,4)] by blast
  have "Directory_Find ?dir name = Inr (-1)"
    using Directory_Find_ok(2) [OF d1(5), of name] None by (simp add: FILE_NAME_MAX_LEN_def fs_files_dom)
  with d1 have "FileSystem_Remove be junk fs d name = Inr (False, d1)" by (simp add: FileSystem_Remove_def)
  with fs_same(2) [OF d1(4,3) assms] d1(4) show ?thesis unfolding None by auto
next
  case (Some bs)
  then obtain i where i: "named (entries be fs d) (cstr 9 name) i" "bs = contents be d (entries be fs d ! i)"
    using fs_files_SomeD [OF assms] by blast
  let ?e = "entries be fs d ! i"
  note td = table_okD [OF fs_okD(3) [OF assms]]
  have eok: "entry_ok be d ?e" using td(2) [OF named_live [OF i(1)]] .
  have "card (blocks be d ?e) = 1 + DivRoundUp (length bs) SECTOR_SIZE"
    using eok file_sectors_card [of "hdr_at be d (e_sector ?e)"]
    by (simp add: blocks_def entry_ok_def i(2) contents_def file_sectors_def)
  with Remove_ok [OF assms i(1), of junk] td(6) [OF named_live [OF i(1)]] show ?thesis
    unfolding Some by auto
qed

section \<open>Formatting and mounting\<close>

lemma OpenFile_new_ok:
  assumes "disk_ok d" and "unat s < NUM_SECTORS"
  shows "\<exists>d'. OpenFile_new be d s = Inr (\<lparr>hdr = hdr_at be d s, seekPosition = 0\<rparr>, d') \<and> disk_ok d' \<and> sector d' = sector d"
  using FileHeader_FetchFrom_ok [OF assms, of be] by (auto simp add: OpenFile_new_def)

lemma table_ok_empty: "live es = {} \<Longrightarrow> table_ok be fs d es (sys_blocks fs)"
  by (auto simp add: table_ok_def unique_names_def dest: named_live)

lemma fs_file_sectors:
  "hdr_ok h \<Longrightarrow> numBytes h = FREE_MAP_FILE_SIZE \<Longrightarrow> card (file_sectors h) = 1"
  "hdr_ok h \<Longrightarrow> numBytes h = DIRECTORY_FILE_SIZE \<Longrightarrow> card (file_sectors h) = 2"
  by (simp_all add: file_sectors_card fs_sizes DivRoundUp_def)

text \<open>The sectors formatting takes, and the headers it makes for them.\<close>

lemma format_allocation:
  assumes "length (dataSectors h1) = NUM_DIRECT" and "length (dataSectors h2) = NUM_DIRECT"
  obtains b0 b1 b2 mapH b3 dirH b4 where "Bitmap_new junk NUM_SECTORS = Inr b0"
     "Bitmap_Mark b0 (unat FREE_MAP_SECTOR) = Inr b1" "Bitmap_Mark b1 (unat DIRECTORY_SECTOR) = Inr b2"
     "FileHeader_Allocate h1 b2 FREE_MAP_FILE_SIZE = Inr (True, mapH, b3)"
     "FileHeader_Allocate h2 b3 DIRECTORY_FILE_SIZE = Inr (True, dirH, b4)"
     "hdr_ok mapH" "hdr_ok dirH" "numBytes mapH = FREE_MAP_FILE_SIZE" "numBytes dirH = DIRECTORY_FILE_SIZE"
     "file_sectors mapH \<inter> {0, 1} = {}" "file_sectors dirH \<inter> ({0, 1} \<union> file_sectors mapH) = {}"
     "bitmap_inv b4" "numBits b4 = NUM_SECTORS" "marked b4 = {0, 1} \<union> (file_sectors mapH \<union> file_sectors dirH)"
proof -
  have n: "0 < NUM_SECTORS" "1 < NUM_SECTORS" by (simp_all add: fs_sizes)
  obtain b0 where b0: "Bitmap_new junk NUM_SECTORS = Inr b0" "bitmap_inv b0" "numBits b0 = NUM_SECTORS" "marked b0 = {}"
    using Bitmap_new_ok [OF n(1)] by blast
  obtain b1 where b1: "Bitmap_Mark b0 0 = Inr b1" "bitmap_inv b1" "numBits b1 = NUM_SECTORS" "marked b1 = {0}"
    using Bitmap_Mark_ok [OF b0(2), of 0] b0(3,4) n(1) by auto
  obtain b2 where b2: "Bitmap_Mark b1 1 = Inr b2" "bitmap_inv b2" "numBits b2 = NUM_SECTORS" "marked b2 = {0, 1}"
    using Bitmap_Mark_ok [OF b1(2), of 1] b1(3,4) n(2) by auto
  have "unat FREE_MAP_FILE_SIZE \<le> MAX_FILE_SIZE" "card (marked b2) + DivRoundUp (unat FREE_MAP_FILE_SIZE) SECTOR_SIZE \<le> NUM_SECTORS"
    by (simp_all add: fs_sizes b2(4) DivRoundUp_def file_sizes)
  from Allocate_ok [OF b2(2,3) assms(1) this] obtain mapH b3 where
    b3: "FileHeader_Allocate h1 b2 FREE_MAP_FILE_SIZE = Inr (True, mapH, b3)" "hdr_ok mapH" "numBytes mapH = FREE_MAP_FILE_SIZE"
      "file_sectors mapH \<inter> {0, 1} = {}" "marked b3 = {0, 1} \<union> file_sectors mapH" "bitmap_inv b3" "numBits b3 = NUM_SECTORS"
    unfolding b2(4) by blast
  have "card (marked b3) \<le> 3"
    using card_Un_le [of "{0, 1}" "file_sectors mapH"] fs_file_sectors(1) [OF b3(2,3)] by (simp add: b3(5))
  then have "unat DIRECTORY_FILE_SIZE \<le> MAX_FILE_SIZE"
    "card (marked b3) + DivRoundUp (unat DIRECTORY_FILE_SIZE) SECTOR_SIZE \<le> NUM_SECTORS"
    by (simp_all add: fs_sizes DivRoundUp_def file_sizes)
  from Allocate_ok [OF b3(6,7) assms(2) this] obtain dirH b4 where
    "FileHeader_Allocate h2 b3 DIRECTORY_FILE_SIZE = Inr (True, dirH, b4)" "hdr_ok dirH" "numBytes dirH = DIRECTORY_FILE_SIZE"
    "file_sectors dirH \<inter> ({0, 1} \<union> file_sectors mapH) = {}"
    "marked b4 = {0, 1} \<union> file_sectors mapH \<union> file_sectors dirH" "bitmap_inv b4" "numBits b4 = NUM_SECTORS"
    unfolding b3(5) by blast
  moreover have "unat FREE_MAP_SECTOR = 0" "unat DIRECTORY_SECTOR = 1"
    by (simp_all add: FREE_MAP_SECTOR_def DIRECTORY_SECTOR_def)
  ultimately show thesis
    using that [of b0 b1 b2 mapH b3 dirH b4] b0(1) b1(1) b2(1) b3(1-4) by (simp add: Un_assoc)
qed

lemma format_result:
  assumes "disk_ok d"
  shows "\<exists>fs d'. FileSystem_new be junk True d = Inr (fs, d') \<and> fs_ok be fs d' \<and> live (entries be fs d') = {} \<and>
     card (marked (free_map be fs d')) = 5"
proof -
  have lh: "length (dataSectors (new_header be (junk 2))) = NUM_DIRECT" "length (dataSectors (new_header be (junk 3))) = NUM_DIRECT"
    by simp_all
  obtain b0 b1 b2 mapH b3 dirH b4 where
    b: "Bitmap_new (new_words (junk 0)) NUM_SECTORS = Inr b0" "Bitmap_Mark b0 (unat FREE_MAP_SECTOR) = Inr b1"
     "Bitmap_Mark b1 (unat DIRECTORY_SECTOR) = Inr b2"
     "FileHeader_Allocate (new_header be (junk 2)) b2 FREE_MAP_FILE_SIZE = Inr (True, mapH, b3)"
     "FileHeader_Allocate (new_header be (junk 3)) b3 DIRECTORY_FILE_SIZE = Inr (True, dirH, b4)"
    and h: "hdr_ok mapH" "hdr_ok dirH" "numBytes mapH = FREE_MAP_FILE_SIZE" "numBytes dirH = DIRECTORY_FILE_SIZE"
    and dj: "file_sectors mapH \<inter> {0, 1} = {}" "file_sectors dirH \<inter> ({0, 1} \<union> file_sectors mapH) = {}"
    and b4: "bitmap_inv b4" "numBits b4 = NUM_SECTORS" "marked b4 = {0, 1} \<union> (file_sectors mapH \<union> file_sectors dirH)"
    by (rule format_allocation [OF lh, of "new_words (junk 0)"])
  have n0: "0 < NUM_DIR_ENTRIES" by (simp add: NUM_DIR_ENTRIES_def)
  obtain t where t: "Directory_new be (junk 1) NUM_DIR_ENTRIES = Inr \<lparr>tableSize = NUM_DIR_ENTRIES, d_table = t\<rparr>"
      "length t = NUM_DIR_ENTRIES" "\<forall>e\<in>set t. entry_wf e \<and> \<not> inUse e"
    using Directory_new_wf [OF n0] by blast
  have s: "unat FREE_MAP_SECTOR < NUM_SECTORS" "unat DIRECTORY_SECTOR < NUM_SECTORS" "unat FREE_MAP_SECTOR \<noteq> unat DIRECTORY_SECTOR"
    by (simp_all add: FREE_MAP_SECTOR_def DIRECTORY_SECTOR_def fs_sizes)
  have l: "length (dataSectors mapH) = NUM_DIRECT" "length (dataSectors dirH) = NUM_DIRECT"
    using h(1,2) by (simp_all add: hdr_ok_def)
  obtain d1 where d1: "FileHeader_WriteBack be mapH d FREE_MAP_SECTOR = Inr d1" "disk_ok d1" "hdr_at be d1 FREE_MAP_SECTOR = mapH"
    using FileHeader_WriteBack_ok [OF assms s(1) l(1), of be] by blast
  obtain d2 where d2: "FileHeader_WriteBack be dirH d1 DIRECTORY_SECTOR = Inr d2" "disk_ok d2" "hdr_at be d2 DIRECTORY_SECTOR = dirH"
    "agree d1 d2 ({..<NUM_SECTORS} - {unat DIRECTORY_SECTOR})"
    using FileHeader_WriteBack_ok [OF d1(2) s(2) l(2), of be] by blast
  have m2: "hdr_at be d2 FREE_MAP_SECTOR = mapH"
    using agreeD [OF d2(4), of "unat FREE_MAP_SECTOR"] s d1(3) by (simp add: hdr_at_def)
  let ?fs = "\<lparr>freeMapFile = \<lparr>hdr = mapH, seekPosition = 0\<rparr>, directoryFile = \<lparr>hdr = dirH, seekPosition = 0\<rparr>\<rparr>"
  obtain d3 where d3: "OpenFile_new be d2 FREE_MAP_SECTOR = Inr (freeMapFile ?fs, d3)" "disk_ok d3" "sector d3 = sector d2"
    using OpenFile_new_ok [OF d2(2) s(1), of be] m2 by auto
  obtain d4 where d4: "OpenFile_new be d3 DIRECTORY_SECTOR = Inr (directoryFile ?fs, d4)" "disk_ok d4" "sector d4 = sector d2"
    using OpenFile_new_ok [OF d3(2) s(2), of be] d2(3) d3(3) fs_same(3) [OF d3(3)] by auto
  have hok: "handles_ok ?fs" using h dj by (auto simp add: handles_ok_def data_blocks_def)
  obtain d5 where d5: "Bitmap_WriteBack (junk 4) be b4 (freeMapFile ?fs) d4 = Inr d5" "disk_ok d5" "free_map be ?fs d5 = b4"
    "agree d4 d5 ({..<NUM_SECTORS} - data_blocks ?fs)"
    using flush_free_map [OF hok d4(2) b4(1,2)] by blast
  have tw: "\<forall>e\<in>set t. entry_wf e" using t(3) by blast
  obtain d6 where d6: "Directory_WriteBack (junk 5) be \<lparr>tableSize = NUM_DIR_ENTRIES, d_table = t\<rparr> (directoryFile ?fs) d5 = Inr d6"
    "disk_ok d6" "entries be ?fs d6 = t" "free_map be ?fs d6 = b4" "agree d5 d6 ({..<NUM_SECTORS} - data_blocks ?fs)"
    using flush_directory [OF hok d5(2) t(2) tw, of "junk 5" be] d5(3) by auto
  have run: "FileSystem_new be junk True d = Inr (?fs, d6)"
    using b t(1) d1(1) d2(1) d3(1) d4(1) d5(1) d6(1) by (simp add: FileSystem_new_def)
  have "agree d4 d6 {0, 1}"
    using agree_trans [OF d5(4) d6(5)] dj by (rule_tac agree_subset) (auto simp add: data_blocks_def fs_sizes)
  then have "hdr_at be d6 FREE_MAP_SECTOR = mapH" "hdr_at be d6 DIRECTORY_SECTOR = dirH"
    using m2 d2(3) d4(3) by (simp_all add: hdr_at_def agree_def FREE_MAP_SECTOR_def DIRECTORY_SECTOR_def)
  moreover have "live t = {}" using t(3) by (auto simp add: live_def)
  then have "table_ok be ?fs d6 t (sys_blocks ?fs)" by (rule table_ok_empty)
  moreover have "marked b4 = sys_blocks ?fs" using b4(3) by (simp add: sys_blocks_def data_blocks_def)
  ultimately have "fs_ok be ?fs d6" using hok d6(2,3,4) by (simp add: fs_ok_def)
  moreover have "card (marked b4) = 5"
  proof -
    have fin: "finite (file_sectors mapH)" "finite (file_sectors dirH)" by (simp_all add: file_sectors_def)
    have "{0, 1} \<inter> (file_sectors mapH \<union> file_sectors dirH) = {}" "file_sectors mapH \<inter> file_sectors dirH = {}" using dj by auto
    with fin fs_file_sectors(1) [OF h(1,3)] fs_file_sectors(2) [OF h(2,4)] show ?thesis
      unfolding b4(3) by (subst card_Un_disjoint, simp, simp, simp) (subst card_Un_disjoint, simp_all)
  qed
  ultimately show ?thesis using run \<open>live t = {}\<close> d6(3,4) by metis
qed

text \<open>C31: Formatting turns any disk into a well-formed, empty file system that uses five sectors.\<close>

theorem Format_ok:
  assumes "disk_ok d"
  shows "\<exists>fs d'. FileSystem_new be junk True d = Inr (fs, d') \<and> fs_ok be fs d' \<and>
     fs_files be fs d' = Map.empty \<and> card (marked (free_map be fs d')) = 5"
proof -
  obtain fs d' where f: "FileSystem_new be junk True d = Inr (fs, d')" "fs_ok be fs d'" "live (entries be fs d') = {}"
     "card (marked (free_map be fs d')) = 5" using format_result [OF assms] by blast
  then have "\<forall>i. \<not> named (entries be fs d') k i" for k using named_live by blast
  then have "fs_files be fs d' = Map.empty" by (simp add: fun_eq_iff fs_files_unnamed)
  with f show ?thesis by blast
qed

text \<open>C32: What is on the disk persists: starting the system again on a well-formed disk, without
  formatting, finds the same files with the same contents.\<close>

theorem Mount_persistent:
  assumes "fs_ok be fs d"
  shows "\<exists>fs' d'. FileSystem_new be junk False d = Inr (fs', d') \<and> sector d' = sector d \<and> fs_ok be fs' d' \<and>
     fs_files be fs' d' = fs_files be fs d"
proof -
  have s: "unat FREE_MAP_SECTOR < NUM_SECTORS" "unat DIRECTORY_SECTOR < NUM_SECTORS"
    by (simp_all add: FREE_MAP_SECTOR_def DIRECTORY_SECTOR_def fs_sizes)
  have h: "hdr_at be d FREE_MAP_SECTOR = hdr (freeMapFile fs)" "hdr_at be d DIRECTORY_SECTOR = hdr (directoryFile fs)"
    using assms by (simp_all add: fs_ok_def)
  let ?fs = "\<lparr>freeMapFile = \<lparr>hdr = hdr (freeMapFile fs), seekPosition = 0\<rparr>,
     directoryFile = \<lparr>hdr = hdr (directoryFile fs), seekPosition = 0\<rparr>\<rparr>"
  obtain d1 where d1: "OpenFile_new be d FREE_MAP_SECTOR = Inr (freeMapFile ?fs, d1)" "disk_ok d1" "sector d1 = sector d"
    using OpenFile_new_ok [OF fs_okD(1) [OF assms] s(1), of be] h(1) by auto
  obtain d2 where d2: "OpenFile_new be d1 DIRECTORY_SECTOR = Inr (directoryFile ?fs, d2)" "disk_ok d2" "sector d2 = sector d"
    using OpenFile_new_ok [OF d1(2) s(2), of be] h(2) d1(3) fs_same(3) [OF d1(3)] by auto
  have "FileSystem_new be junk False d = Inr (?fs, d2)" using d1(1) d2(1) by (simp add: FileSystem_new_def)
  moreover have e: "entries be ?fs d = entries be fs d" "free_map be ?fs d = free_map be fs d" "sys_blocks ?fs = sys_blocks fs"
    "handles_ok ?fs = handles_ok fs" "table_ok be ?fs d = table_ok be fs d"
    by (simp_all add: entries_def free_map_def sys_blocks_def data_blocks_def handles_ok_def table_ok_def fun_eq_iff)
  have "fs_ok be ?fs d" using assms by (simp add: fs_ok_def e)
  then have "fs_ok be ?fs d2" using fs_same(2) [OF d2(3,2)] by blast
  moreover have "fs_files be ?fs d2 = fs_files be fs d"
    unfolding fs_same(1) [OF d2(3)] by (simp add: fun_eq_iff fs_files_def e)
  ultimately show ?thesis using d2(3) by blast
qed

section \<open>The consistency check on well-formed file systems\<close>

definition shadow_ok :: "bitmap \<Rightarrow> nat set \<Rightarrow> bool" where
  "shadow_ok b S \<longleftrightarrow> bitmap_inv b \<and> numBits b = NUM_SECTORS \<and> marked b = S"

lemma CheckSector_ok:
  assumes "shadow_ok b S" and "unat s < NUM_SECTORS" and "unat s \<notin> S"
  shows "\<exists>b'. CheckSector s b = Inr (False, b') \<and> shadow_ok b' (insert (unat s) S)"
  using assms Bitmap_Mark_ok [of b "unat s"] Bitmap_Test_eq [of b "unat s"]
  by (auto simp add: CheckSector_def AddToShadowBitmap_def CheckForError_def shadow_ok_def)

lemma CheckFileHeader_loop_ok:
  "shadow_ok b S \<Longrightarrow> \<forall>i\<in>set is. i < length ds \<and> unat (ds ! i) < NUM_SECTORS \<and> unat (ds ! i) \<notin> S \<Longrightarrow>
   distinct (map (\<lambda>i. ds ! i) is) \<Longrightarrow>
   \<exists>b'. CheckFileHeader_loop ds is err b = Inr (err, b') \<and> shadow_ok b' (S \<union> (\<lambda>i. unat (ds ! i)) ` set is)"
proof (induction "is" arbitrary: b S)
  case (Cons i "is")
  then obtain b1 where b1: "CheckSector (ds ! i) b = Inr (False, b1)" "shadow_ok b1 (insert (unat (ds ! i)) S)"
    using CheckSector_ok [of b S "ds ! i"] by auto
  have "\<forall>j\<in>set is. j < length ds \<and> unat (ds ! j) < NUM_SECTORS \<and> unat (ds ! j) \<notin> insert (unat (ds ! i)) S"
    using Cons.prems(2,3) by (auto simp add: word_unat_eq_iff [symmetric] image_iff)
  from Cons.IH [OF b1(2) this] Cons.prems(3) obtain b2 where
    "CheckFileHeader_loop ds is err b1 = Inr (err, b2)"
    "shadow_ok b2 (insert (unat (ds ! i)) S \<union> (\<lambda>i. unat (ds ! i)) ` set is)" by auto
  with b1(1) Cons.prems(2) show ?case by simp
qed simp

lemma CheckFileHeader_ok:
  assumes h: "hdr_ok h" and b: "shadow_ok b S" and dj: "file_sectors h \<inter> S = {}"
  shows "\<exists>b'. CheckFileHeader h b = Inr (\<not> unat (numSectors h) < NUM_DIRECT, b') \<and> shadow_ok b' (S \<union> file_sectors h)"
proof -
  let ?n = "unat (numSectors h)" and ?ds = "dataSectors h"
  have "?n \<le> NUM_DIRECT" using h numSectors_bound(1) by (simp add: hdr_ok_def)
  then have nl: "?n \<le> length ?ds" using h by (simp add: hdr_ok_def)
  have t: "map (\<lambda>i. ?ds ! i) [0..<?n] = take ?n ?ds" using nl by (intro nth_equalityI) simp_all
  have fs: "file_sectors h = (\<lambda>i. unat (?ds ! i)) ` set [0..<?n]"
    unfolding file_sectors_def t [symmetric] by (simp add: image_image)
  have "unat (?ds ! i) < NUM_SECTORS" if "i < ?n" for i
    using h that nl unfolding hdr_ok_def by (metis in_set_conv_nth length_take min.absorb2 nth_take)
  then have "\<forall>i\<in>set [0..<?n]. i < length ?ds \<and> unat (?ds ! i) < NUM_SECTORS \<and> unat (?ds ! i) \<notin> S"
    using nl dj by (auto simp add: fs)
  moreover have "distinct (map (\<lambda>i. ?ds ! i) [0..<?n])" unfolding t using h unfolding hdr_ok_def by blast
  ultimately have "\<exists>b'. CheckFileHeader_loop ?ds [0..<?n] err b = Inr (err, b') \<and> shadow_ok b' (S \<union> file_sectors h)" for err
    unfolding fs by (rule CheckFileHeader_loop_ok [OF b])
  then show ?thesis using h by (simp add: CheckFileHeader_def CheckForError_def hdr_ok_def)
qed

lemma CheckBitmaps_ok:
  assumes "bitmap_inv a" "numBits a = NUM_SECTORS" "shadow_ok b (marked a)"
  shows "CheckBitmaps a b = Inr False"
proof -
  have "\<forall>i\<in>set is. i < NUM_SECTORS \<Longrightarrow> CheckBitmaps_loop a b is err = Inr err" for "is" err
    using assms by (induction "is" arbitrary: err) (simp_all add: Bitmap_Test_eq shadow_ok_def CheckForError_def)
  then show ?thesis by (simp add: CheckBitmaps_def)
qed

text \<open>A stored name with a terminator is a string of at most nine characters.\<close>

lemma take_takeWhile: "takeWhile P (take n xs) = take n (takeWhile P xs)"
proof (induction xs arbitrary: n)
  case (Cons x xs)
  then show ?case by (cases n) simp_all
qed simp

lemma cstring_terminated:
  assumes "entry_wf e" and "0 \<in> set (e_name e)"
  shows "cstring (e_name e) = Inr (fname e)" and "length (fname e) \<le> FILE_NAME_MAX_LEN"
proof -
  have l: "length (takeWhile (\<lambda>c. c \<noteq> 0) (e_name e)) < length (e_name e)"
    using assms(2) takeWhile_eq_all_conv [of "\<lambda>c. c \<noteq> 0" "e_name e"]
      length_takeWhile_le [of "\<lambda>c. c \<noteq> 0" "e_name e"] by (metis le_neq_implies_less takeWhile_eq_take take_all_iff nle_le)
  then have le: "length (takeWhile (\<lambda>c. c \<noteq> 0) (e_name e)) \<le> 9"
    using assms(1) by (simp add: entry_wf_def FILE_NAME_MAX_LEN_def)
  have "fname e = take 9 (takeWhile (\<lambda>c. c \<noteq> 0) (e_name e))"
    by (simp add: fname_def cstr_def FILE_NAME_MAX_LEN_def take_takeWhile)
  with le show "cstring (e_name e) = Inr (fname e)" "length (fname e) \<le> FILE_NAME_MAX_LEN"
    using assms(2) by (simp_all add: cstring_def FILE_NAME_MAX_LEN_def)
qed

lemma CheckDirectory_loop_ok:
  assumes t: "table_ok be fs d es U" and wf: "\<forall>e\<in>set es. entry_wf e"
    and trm: "\<forall>i\<in>live es. 0 \<in> set (e_name (es ! i))"
  shows "distinct is \<Longrightarrow> \<forall>i\<in>set is. i < length es \<Longrightarrow> shadow_ok b S \<Longrightarrow> disk_ok d1 \<Longrightarrow> sector d1 = sector d \<Longrightarrow>
    \<forall>i\<in>set is \<inter> live es. blocks be d (es ! i) \<inter> S = {} \<and> fname (es ! i) \<notin> set known \<Longrightarrow>
    \<exists>b' d'. CheckDirectory_loop be es is (err, known, b, d1) =
        Inr (err \<or> (\<exists>i\<in>set is \<inter> live es. \<not> unat (numSectors (hdr_at be d (e_sector (es ! i)))) < NUM_DIRECT), b', d') \<and>
      shadow_ok b' (S \<union> (\<Union>i\<in>set is \<inter> live es. blocks be d (es ! i))) \<and> disk_ok d' \<and> sector d' = sector d"
proof (induction "is" arbitrary: b S d1 err known)
  case Nil
  then show ?case by auto
next
  case (Cons i "is")
  note td = table_okD [OF t]
  show ?case
  proof (cases "i \<in> live es")
    case False
    then have "CheckEntry be (es ! i) (err, known, b, d1) = Inr (err, known, b, d1)"
      using Cons.prems(2) by (simp add: CheckEntry_def live_def)
    with Cons.IH [OF _ _ Cons.prems(3-5), of known err] Cons.prems(1,2,6) False show ?thesis by simp
  next
    case True
    let ?e = "es ! i" and ?h = "hdr_at be d (e_sector (es ! i))"
    have i: "i < length es" "inUse ?e" using True by (simp_all add: live_def)
    have eok: "unat (e_sector ?e) < NUM_SECTORS" "hdr_ok ?h" "unat (e_sector ?e) \<notin> file_sectors ?h"
      using td(2) [OF True] by (simp_all add: entry_ok_def)
    have free: "unat (e_sector ?e) \<notin> S" "file_sectors ?h \<inter> insert (unat (e_sector ?e)) S = {}" "fname ?e \<notin> set known"
      using Cons.prems(6) True eok(3) by (auto simp add: blocks_def)
    have str: "cstring (e_name ?e) = Inr (fname ?e)" "length (fname ?e) \<le> FILE_NAME_MAX_LEN"
      using cstring_terminated [of ?e] wf trm i(1) True by auto
    obtain b1 where b1: "CheckSector (e_sector ?e) b = Inr (False, b1)" "shadow_ok b1 (insert (unat (e_sector ?e)) S)"
      using CheckSector_ok [OF Cons.prems(3) eok(1) free(1)] by blast
    obtain d2 where d2: "FileHeader_FetchFrom be d1 (e_sector ?e) = Inr (?h, d2)" "disk_ok d2" "sector d2 = sector d"
      using FileHeader_FetchFrom_ok [OF Cons.prems(4) eok(1), of be] fs_same(3) [OF Cons.prems(5)] Cons.prems(5) by auto
    obtain b2 where b2: "CheckFileHeader ?h b1 = Inr (\<not> unat (numSectors ?h) < NUM_DIRECT, b2)"
      "shadow_ok b2 (insert (unat (e_sector ?e)) S \<union> file_sectors ?h)"
      using CheckFileHeader_ok [OF eok(2) b1(2) free(2)] by blast
    have s2: "shadow_ok b2 (S \<union> blocks be d ?e)" using b2(2) by (simp add: blocks_def)
    have step: "CheckEntry be ?e (err, known, b, d1) =
        Inr (err \<or> \<not> unat (numSectors ?h) < NUM_DIRECT, known @ [fname ?e], b2, d2)"
      using i(2) str b1(1) d2(1) b2(1) free(3) by (auto simp add: CheckEntry_def Let_def)
    have rest: "\<forall>j\<in>set is \<inter> live es. blocks be d (es ! j) \<inter> (S \<union> blocks be d ?e) = {} \<and>
        fname (es ! j) \<notin> set (known @ [fname ?e])"
    proof
      fix j assume j: "j \<in> set is \<inter> live es"
      with Cons.prems(1) have ij: "i \<noteq> j" by auto
      have "named es (fname ?e) i" "named es (fname (es ! j)) j" using i j by (simp_all add: named_def live_def)
      with unique_namesD [OF td(1)] ij have "fname (es ! j) \<noteq> fname ?e" by metis
      moreover have "blocks be d (es ! j) \<inter> blocks be d ?e = {}" using td(4) [of j i] j True ij by auto
      ultimately show "blocks be d (es ! j) \<inter> (S \<union> blocks be d ?e) = {} \<and> fname (es ! j) \<notin> set (known @ [fname ?e])"
        using Cons.prems(6) j by (simp add: Int_Un_distrib)
    qed
    have dist: "distinct is" and bnd: "\<forall>i\<in>set is. i < length es" using Cons.prems(1,2) by simp_all
    from Cons.IH [OF dist bnd s2 d2(2,3) rest, of "err \<or> \<not> unat (numSectors ?h) < NUM_DIRECT"] obtain b' d' where
      "CheckDirectory_loop be es is (err \<or> \<not> unat (numSectors ?h) < NUM_DIRECT, known @ [fname ?e], b2, d2) =
        Inr ((err \<or> \<not> unat (numSectors ?h) < NUM_DIRECT) \<or>
          (\<exists>i\<in>set is \<inter> live es. \<not> unat (numSectors (hdr_at be d (e_sector (es ! i)))) < NUM_DIRECT), b', d')"
      "shadow_ok b' (S \<union> blocks be d ?e \<union> (\<Union>i\<in>set is \<inter> live es. blocks be d (es ! i)))" "disk_ok d'" "sector d' = sector d"
      by blast
    with step i(1) True show ?thesis by (simp add: Un_assoc disj_assoc)
  qed
qed

text \<open>C33: On a well-formed file system whose stored names are terminated, \<open>Check\<close> succeeds exactly when no
  file fills all of its header: it reports an error for a file of thirty sectors, which
  \<open>Create\<close> makes for sizes above 3712 bytes. It never aborts there and changes nothing on the disk.\<close>

theorem Check_exact:
  assumes ok: "fs_ok be fs d" and trm: "\<forall>i\<in>live (entries be fs d). 0 \<in> set (e_name (entries be fs d ! i))"
  shows "\<exists>d'. FileSystem_Check be junk fs d =
       Inr (\<forall>i\<in>live (entries be fs d). unat (numSectors (hdr_at be d (e_sector (entries be fs d ! i)))) < 30, d') \<and>
     sector d' = sector d"
proof -
  note okd = fs_okD [OF ok]
  let ?es = "entries be fs d" and ?mapH = "hdr (freeMapFile fs)" and ?dirH = "hdr (directoryFile fs)"
  have hk: "hdr_ok ?mapH" "hdr_ok ?dirH" "numBytes ?mapH = FREE_MAP_FILE_SIZE" "numBytes ?dirH = DIRECTORY_FILE_SIZE"
    "file_sectors ?mapH \<inter> {0, 1} = {}" "file_sectors ?dirH \<inter> ({0, 1} \<union> file_sectors ?mapH) = {}"
    using okd(2) by (auto simp add: handles_ok_def data_blocks_def)
  have h: "hdr_at be d FREE_MAP_SECTOR = ?mapH" "hdr_at be d DIRECTORY_SECTOR = ?dirH" using ok by (simp_all add: fs_ok_def)
  have ns: "unat (numSectors ?mapH) = 1" "unat (numSectors ?dirH) = 2"
    using hk(1-4) by (simp_all add: hdr_ok_def fs_sizes DivRoundUp_def)
  have nm: "numSectors ?mapH = FREE_MAP_FILE_SIZE div of_nat SECTOR_SIZE" using ns(1) by (simp add: fs_sizes word_unat_eq_iff)
  have s: "unat FREE_MAP_SECTOR = 0" "unat DIRECTORY_SECTOR = 1" "unat FREE_MAP_SECTOR < NUM_SECTORS" "unat DIRECTORY_SECTOR < NUM_SECTORS"
    by (simp_all add: FREE_MAP_SECTOR_def DIRECTORY_SECTOR_def fs_sizes)
  have n: "0 < NUM_SECTORS" "1 < NUM_SECTORS" by (simp_all add: fs_sizes)
  obtain b0 where b0: "Bitmap_new (new_words (junk 0)) NUM_SECTORS = Inr b0" "bitmap_inv b0" "numBits b0 = NUM_SECTORS" "marked b0 = {}"
    using Bitmap_new_ok [OF n(1)] by blast
  obtain b1 where b1: "Bitmap_Mark b0 0 = Inr b1" "bitmap_inv b1" "numBits b1 = NUM_SECTORS" "marked b1 = {0}"
    using Bitmap_Mark_ok [OF b0(2), of 0] b0(3,4) n(1) by auto
  obtain b2 where b2: "Bitmap_Mark b1 1 = Inr b2" "shadow_ok b2 {0, 1}"
    using Bitmap_Mark_ok [OF b1(2), of 1] b1(3,4) n(2) by (auto simp add: shadow_ok_def)
  obtain d1 where d1: "FileHeader_FetchFrom be d FREE_MAP_SECTOR = Inr (?mapH, d1)" "disk_ok d1" "sector d1 = sector d"
    using FileHeader_FetchFrom_ok [OF okd(1) s(3), of be] h(1) by auto
  obtain b3 where b3: "CheckFileHeader ?mapH b2 = Inr (False, b3)" "shadow_ok b3 ({0, 1} \<union> file_sectors ?mapH)"
    using CheckFileHeader_ok [OF hk(1) b2(2) hk(5)] ns(1) by (auto simp add: file_sizes)
  obtain d2 where d2: "FileHeader_FetchFrom be d1 DIRECTORY_SECTOR = Inr (?dirH, d2)" "disk_ok d2" "sector d2 = sector d"
    using FileHeader_FetchFrom_ok [OF d1(2) s(4), of be] h(2) fs_same(3) [OF d1(3)] d1(3) by auto
  obtain b4 where b4: "CheckFileHeader ?dirH b3 = Inr (False, b4)" "shadow_ok b4 (sys_blocks fs)"
    using CheckFileHeader_ok [OF hk(2) b3(2) hk(6)] ns(2) by (auto simp add: file_sizes sys_blocks_def data_blocks_def Un_assoc)
  obtain b5 d3 where d3: "Bitmap_new (new_words (junk 1)) NUM_SECTORS = Inr b5"
    "Bitmap_FetchFrom be b5 (freeMapFile fs) d2 = Inr (free_map be fs d, d3)" "disk_ok d3" "sector d3 = sector d"
    using fetch_free_map [OF okd(2) d2(2), of "new_words (junk 1)" be] fs_same(6) [OF d2(3)] d2(3) by auto
  note e3 = fs_same(5) [OF d3(4), of be fs]
  obtain dir0 d4 where d4: "Directory_new be (junk 2) NUM_DIR_ENTRIES = Inr dir0"
    "Directory_FetchFrom be dir0 (directoryFile fs) d3 = Inr (\<lparr>tableSize = NUM_DIR_ENTRIES, d_table = ?es\<rparr>, d4)"
    "disk_ok d4" "sector d4 = sector d"
    using fetch_directory [OF okd(2) d3(3), of be "junk 2"] okd(4) d3(4) unfolding e3 by auto
  have le: "length ?es = NUM_DIR_ENTRIES" "\<forall>e\<in>set ?es. entry_wf e" using directory_size(3,4) [OF okd(2)] by simp_all
  have li: "set [0..<NUM_DIR_ENTRIES] \<inter> live ?es = live ?es" using le(1) by (auto simp add: live_def)
  have "\<forall>i\<in>set [0..<NUM_DIR_ENTRIES] \<inter> live ?es. blocks be d (?es ! i) \<inter> sys_blocks fs = {} \<and> fname (?es ! i) \<notin> set []"
    using table_okD(3) [OF okd(3)] by simp
  from CheckDirectory_loop_ok [OF okd(3) le(2) trm _ _ b4(2) d4(3,4) this, of False] le(1)
  obtain b6 d5 where d5: "CheckDirectory be \<lparr>tableSize = NUM_DIR_ENTRIES, d_table = ?es\<rparr> b4 d4 =
      Inr (\<exists>i\<in>live ?es. \<not> unat (numSectors (hdr_at be d (e_sector (?es ! i)))) < NUM_DIRECT, b6, d5)"
    "shadow_ok b6 (sys_blocks fs \<union> (\<Union>i\<in>live ?es. blocks be d (?es ! i)))" "sector d5 = sector d"
    unfolding CheckDirectory_def li by auto
  have "CheckBitmaps (free_map be fs d) b6 = Inr False"
    using d5(2) table_okD(5) [OF okd(3)] by (intro CheckBitmaps_ok free_map_size [OF okd(2)]) simp
  with b0(1) b1(1) b2(1) b3(1) b4(1) d1(1) d2(1) d3(1,2) d4(1,2) d5(1) s(1,2) nm hk(3)
  have "FileSystem_Check be junk fs d =
      Inr (\<not> (\<exists>i\<in>live ?es. \<not> unat (numSectors (hdr_at be d (e_sector (?es ! i)))) < NUM_DIRECT), d5)"
    by (simp add: FileSystem_Check_def CheckForError_def)
  with d5(3) show ?thesis by (simp add: file_sizes)
qed

section \<open>Concrete file systems\<close>

lemma demo_formatted:
  "\<exists>fs d. fs_ok False fs d \<and> live (entries False fs d) = {} \<and> card (marked (free_map False fs d)) = 5"
  using format_result [OF demo_disk_ok, of False "\<lambda>_ _. 7"] by blast

lemma demo_room:
  assumes "fs_ok be fs d" and "live (entries be fs d) = {}" and "card (marked (free_map be fs d)) = 5"
  shows "fs_room be fs d 100" and "fs_files be fs d k = None" and "\<forall>i. \<not> named (entries be fs d) k i"
proof -
  have "length (entries be fs d) = 10"
    using directory_size(3) [OF fs_okD(2) [OF assms(1)]] by (simp add: NUM_DIR_ENTRIES_def)
  with assms(2) have "\<not> inUse (entries be fs d ! 0)" by (auto simp add: live_def)
  with assms(3) show "fs_room be fs d 100"
    by (auto simp add: fs_room_def fs_sizes DivRoundUp_def NUM_DIR_ENTRIES_def intro: exI [of _ 0])
  show "\<forall>i. \<not> named (entries be fs d) k i" using assms(2) named_live by blast
  then show "fs_files be fs d k = None" by (simp add: fs_files_dom)
qed

lemma demo_cstr: "cstr 9 [65] = [65]" "cstr FILE_NAME_MAX_LEN [65] = [65]"
  by (simp_all add: cstr_def FILE_NAME_MAX_LEN_def)

lemma demo_size: "unat (100 :: u32) < MAX_FILE_SIZE"
  by (simp add: file_sizes)

lemma demo_created:
  "\<exists>fs d bs. fs_ok False fs d \<and> fs_files False fs d [65] = Some bs \<and> length bs = 100"
proof -
  obtain fs d where f: "fs_ok False fs d" "live (entries False fs d) = {}" "card (marked (free_map False fs d)) = 5"
    using demo_formatted by blast
  note r = demo_room [OF f]
  have new: "\<forall>i. \<not> named (entries False fs d) (cstr FILE_NAME_MAX_LEN [65]) i" using r(3) by blast
  from Create_ok [OF f(1) demo_size new r(1), where junk = "\<lambda>_ _. 7"] obtain d' bs where
    "fs_ok False fs d'" "length bs = 100" "fs_files False fs d' = (fs_files False fs d)([65] \<mapsto> bs)"
    by (auto simp add: demo_cstr)
  then have "fs_ok False fs d' \<and> fs_files False fs d' [65] = Some bs \<and> length bs = 100" by simp
  then show ?thesis by blast
qed

theorem Create_refines_witness:
  "\<exists>fs d d'. fs_ok False fs d \<and> FileSystem_Create False (\<lambda>_ _. 7) fs d [65] 100 = Inr (True, d') \<and>
     (\<exists>bs. fs_files False fs d' [65] = Some bs \<and> length bs = 100)"
proof -
  obtain fs d where f: "fs_ok False fs d" "live (entries False fs d) = {}" "card (marked (free_map False fs d)) = 5"
    using demo_formatted by blast
  note r = demo_room [OF f]
  from Create_refines [OF f(1) demo_size, where name = "[65]" and junk = "\<lambda>_ _. 7"] r obtain d' bs where
    "FileSystem_Create False (\<lambda>_ _. 7) fs d [65] 100 = Inr (True, d')" "length bs = 100"
    "fs_files False fs d' = (fs_files False fs d)([65] \<mapsto> bs)" by (auto simp add: demo_cstr)
  then have "FileSystem_Create False (\<lambda>_ _. 7) fs d [65] 100 = Inr (True, d') \<and>
      fs_files False fs d' [65] = Some bs \<and> length bs = 100" by simp
  with f(1) show ?thesis by blast
qed

theorem Open_refines_witness:
  "\<exists>fs d f d' bs. fs_ok False fs d \<and> fs_files False fs d [65] = Some bs \<and>
     FileSystem_Open False (\<lambda>_ _. 7) fs d [65] = Inr (Some f, d') \<and> file_bytes d' (hdr f) = bs"
proof -
  obtain fs d bs where f: "fs_ok False fs d" "fs_files False fs d [65] = Some bs" using demo_created by blast
  from Open_refines [OF f(1), where name = "[65]" and junk = "\<lambda>_ _. 7"] f show ?thesis by (auto simp add: demo_cstr)
qed

theorem Open_WriteAt_refines_witness:
  "\<exists>fs d f d1 d2 bs. fs_ok False fs d \<and> fs_files False fs d [65] = Some bs \<and>
     FileSystem_Open False (\<lambda>_ _. 7) fs d [65] = Inr (Some f, d1) \<and>
     OpenFile_WriteAt (\<lambda>_. 9) f d1 [1, 2, 3] 3 50 = Inr (3, d2) \<and>
     fs_files False fs d2 [65] = Some (blit bs 50 [1, 2, 3])"
proof -
  obtain fs d bs where f: "fs_ok False fs d" "fs_files False fs d [65] = Some bs" "length bs = 100"
    using demo_created by blast
  from Open_WriteAt_refines [of False fs d "[65]" bs 3 50 "[1, 2, 3]" "\<lambda>_ _. 7" "\<lambda>_. 9"] f obtain g d1 d2 where
    "FileSystem_Open False (\<lambda>_ _. 7) fs d [65] = Inr (Some g, d1)"
    "OpenFile_WriteAt (\<lambda>_. 9) g d1 [1, 2, 3] 3 50 = Inr (3, d2)"
    "fs_files False fs d2 = (fs_files False fs d)([65] \<mapsto> blit bs 50 [1, 2, 3])" by (auto simp add: demo_cstr)
  then have "FileSystem_Open False (\<lambda>_ _. 7) fs d [65] = Inr (Some g, d1) \<and>
    OpenFile_WriteAt (\<lambda>_. 9) g d1 [1, 2, 3] 3 50 = Inr (3, d2) \<and>
    fs_files False fs d2 [65] = Some (blit bs 50 [1, 2, 3])" by simp
  with f(1,2) show ?thesis by blast
qed

theorem Remove_refines_witness:
  "\<exists>fs d d'. fs_ok False fs d \<and> fs_files False fs d [65] \<noteq> None \<and>
     FileSystem_Remove False (\<lambda>_ _. 7) fs d [65] = Inr (True, d') \<and> fs_files False fs d' [65] = None"
proof -
  obtain fs d bs where f: "fs_ok False fs d" "fs_files False fs d [65] = Some bs" using demo_created by blast
  from Remove_refines [OF f(1), where name = "[65]" and junk = "\<lambda>_ _. 7"] f obtain d' where
    "FileSystem_Remove False (\<lambda>_ _. 7) fs d [65] = Inr (True, d')"
    "fs_files False fs d' = (fs_files False fs d)([65] := None)" by (auto simp add: demo_cstr)
  then have "FileSystem_Remove False (\<lambda>_ _. 7) fs d [65] = Inr (True, d') \<and> fs_files False fs d' [65] = None" by simp
  with f show ?thesis by blast
qed

theorem Format_ok_witness:
  "\<exists>fs d'. FileSystem_new False (\<lambda>_ _. 7) True demo_disk = Inr (fs, d') \<and> fs_files False fs d' = Map.empty"
  using Format_ok [OF demo_disk_ok, of False "\<lambda>_ _. 7"] by blast

theorem Mount_persistent_witness:
  "\<exists>fs d fs' d'. fs_ok False fs d \<and> FileSystem_new False (\<lambda>_ _. 7) False d = Inr (fs', d') \<and> fs_files False fs' d' [65] \<noteq> None"
proof -
  obtain fs d bs where f: "fs_ok False fs d" "fs_files False fs d [65] = Some bs" using demo_created by blast
  from Mount_persistent [OF f(1), of "\<lambda>_ _. 7"] f show ?thesis by (metis option.distinct(1))
qed

theorem Check_exact_witness:
  "\<exists>fs d d'. fs_ok False fs d \<and> FileSystem_Check False (\<lambda>_ _. 7) fs d = Inr (True, d')"
proof -
  obtain fs d where f: "fs_ok False fs d" "live (entries False fs d) = {}" using demo_formatted by blast
  from Check_exact [OF f(1), of "\<lambda>_ _. 7"] f show ?thesis by auto
qed

end
