(* ===== verification/Filesys_Test.thy ===== *)
theory Filesys_Test
  imports Lib_Debug Threads_System Filesys_FileSystem
begin

text \<open>
  The commands of the file system: \<open>filesys/fs_test.cc\<close> (copying a file of the host into the Nachos disk, printing a
  file, the performance test) and the interpretation of the command line in \<open>threads/main.cc\<close> that runs them.

  Texts for the user are constructors of \<open>shown\<close>, in the order in which they appear. The argument \<open>unix\<close> gives the
  bytes of the host's files by name; \<open>junk\<close> and \<open>wjunk\<close> are the uninitialised buffers of the successive calls.
\<close>

section \<open>Copy and Print\<close>

datatype shown =
    Chars "u8 list"
  | CopyNoInput "u8 list" | CopyNoOutput "u8 list" | PrintNoFile "u8 list"
  | PerfStart | PerfStats | PerfSequentialWrite | PerfCannotCreate | PerfWriteNoFile | PerfWriteFailed
  | PerfSequentialRead | PerfReadNoFile | PerfReadFailed | PerfCannotRemove
  | CheckSucceeded | CheckFailed | Listing "u8 list list" | SystemInfo | Version

definition TRANSFER_SIZE :: nat where "TRANSFER_SIZE = 10"

function Copy_loop ::
  "(nat \<Rightarrow> nat \<Rightarrow> u8) \<Rightarrow> nat \<Rightarrow> OpenFile \<Rightarrow> disk \<Rightarrow> u8 list \<Rightarrow> (OpenFile \<times> disk) res" where
  "Copy_loop wjunk i f d fp =
    (let buffer = take TRANSFER_SIZE fp; amountRead = length buffer in
     if amountRead > 0 then
       bindR (OpenFile_Write (wjunk i) f d buffer (of_nat amountRead)) (\<lambda>(_, f, d).
       Copy_loop wjunk (Suc i) f d (drop TRANSFER_SIZE fp))
     else Inr (f, d))"
  by pat_completeness auto
termination
  by (relation "measure (\<lambda>(w, i, f, d, fp). length fp)") (auto simp add: TRANSFER_SIZE_def)

declare Copy_loop.simps [simp del]

definition Copy ::
  "(u8 list \<Rightarrow> u8 list option) \<Rightarrow> bool \<Rightarrow> (nat \<Rightarrow> heap_junk) \<Rightarrow> (nat \<Rightarrow> nat \<Rightarrow> u8) \<Rightarrow>
   filesystem \<Rightarrow> disk \<Rightarrow> u8 list \<Rightarrow> u8 list \<Rightarrow> (shown list \<times> disk) res" where
  "Copy unix be junk wjunk fs d source to =
    (case unix source of
       None \<Rightarrow> Inr ([CopyNoInput source], d)
     | Some fp \<Rightarrow>
         bindR (FileSystem_Create be (junk 0) fs d to (of_nat (length fp))) (\<lambda>(created, d).
         if \<not> created then Inr ([CopyNoOutput to], d)
         else
           bindR (FileSystem_Open be (junk 1) fs d to) (\<lambda>(openFile, d).
           case openFile of
             None \<Rightarrow> Inl AssertFail
           | Some f \<Rightarrow> bindR (Copy_loop wjunk 0 f d fp) (\<lambda>(_, d). Inr ([], d)))))"

text \<open>The loop of \<open>Print\<close> ends when a read returns nothing. On a header with an impossible length the position could wrap
  around, so the loop has fuel.\<close>

fun Print_loop :: "nat \<Rightarrow> OpenFile \<Rightarrow> disk \<Rightarrow> (u8 list \<times> disk) res" where
  "Print_loop 0 f d = Inl OutOfFuel"
| "Print_loop (Suc fuel) f d =
     bindR (OpenFile_Read f d (of_nat TRANSFER_SIZE)) (\<lambda>(buffer, f, d).
     if length buffer > 0 then bindR (Print_loop fuel f d) (\<lambda>(cs, d). Inr (buffer @ cs, d))
     else Inr ([], d))"

definition Print ::
  "nat \<Rightarrow> bool \<Rightarrow> heap_junk \<Rightarrow> filesystem \<Rightarrow> disk \<Rightarrow> u8 list \<Rightarrow> (shown list \<times> disk) res" where
  "Print fuel be junk fs d name =
     bindR (FileSystem_Open be junk fs d name) (\<lambda>(openFile, d).
     case openFile of
       None \<Rightarrow> Inr ([PrintNoFile name], d)
     | Some f \<Rightarrow> bindR (Print_loop fuel f d) (\<lambda>(cs, d). Inr ([Chars cs], d)))"

section \<open>The performance test\<close>

definition FILE_NAME :: "u8 list" where "FILE_NAME = ascii_str ''TestFile''"
definition CONTENTS :: "u8 list" where "CONTENTS = ascii_str ''1234567890''"
definition CONTENT_SIZE :: u32 where "CONTENT_SIZE = of_nat (length CONTENTS)"
definition FILE_CHUNKS :: nat where "FILE_CHUNKS = 5000"

text \<open>The loops count the chunks that are left of \<open>FILE_SIZE = CONTENT_SIZE * 5000\<close>.\<close>

fun FileWrite_loop :: "(nat \<Rightarrow> nat \<Rightarrow> u8) \<Rightarrow> nat \<Rightarrow> OpenFile \<Rightarrow> disk \<Rightarrow> (shown list \<times> disk) res" where
  "FileWrite_loop wjunk 0 f d = Inr ([], d)"
| "FileWrite_loop wjunk (Suc chunks) f d =
     bindR (OpenFile_Write (wjunk chunks) f d CONTENTS CONTENT_SIZE) (\<lambda>(numBytes, f, d).
     if sint numBytes < 10 then Inr ([PerfWriteFailed], d)
     else FileWrite_loop wjunk chunks f d)"

definition FileWrite ::
  "bool \<Rightarrow> (nat \<Rightarrow> heap_junk) \<Rightarrow> (nat \<Rightarrow> nat \<Rightarrow> u8) \<Rightarrow> filesystem \<Rightarrow> disk \<Rightarrow> (shown list \<times> disk) res" where
  "FileWrite be junk wjunk fs d =
     bindR (FileSystem_Create be (junk 0) fs d FILE_NAME 0) (\<lambda>(created, d).
     if \<not> created then Inr ([PerfSequentialWrite, PerfCannotCreate], d)
     else
       bindR (FileSystem_Open be (junk 1) fs d FILE_NAME) (\<lambda>(openFile, d).
       case openFile of
         None \<Rightarrow> Inr ([PerfSequentialWrite, PerfWriteNoFile], d)
       | Some f \<Rightarrow> bindR (FileWrite_loop wjunk FILE_CHUNKS f d) (\<lambda>(out, d). Inr (PerfSequentialWrite # out, d))))"

fun FileRead_loop :: "nat \<Rightarrow> OpenFile \<Rightarrow> disk \<Rightarrow> (shown list \<times> disk) res" where
  "FileRead_loop 0 f d = Inr ([], d)"
| "FileRead_loop (Suc chunks) f d =
     bindR (OpenFile_Read f d CONTENT_SIZE) (\<lambda>(buffer, f, d).
     if length buffer < 10 \<or> \<not> strncmp_eq buffer CONTENTS (unat CONTENT_SIZE) then Inr ([PerfReadFailed], d)
     else FileRead_loop chunks f d)"

definition FileRead :: "bool \<Rightarrow> heap_junk \<Rightarrow> filesystem \<Rightarrow> disk \<Rightarrow> (shown list \<times> disk) res" where
  "FileRead be junk fs d =
     bindR (FileSystem_Open be junk fs d FILE_NAME) (\<lambda>(openFile, d).
     case openFile of
       None \<Rightarrow> Inr ([PerfSequentialRead, PerfReadNoFile], d)
     | Some f \<Rightarrow> bindR (FileRead_loop FILE_CHUNKS f d) (\<lambda>(out, d). Inr (PerfSequentialRead # out, d)))"

definition PerformanceTest ::
  "bool \<Rightarrow> (nat \<Rightarrow> heap_junk) \<Rightarrow> (nat \<Rightarrow> nat \<Rightarrow> u8) \<Rightarrow> filesystem \<Rightarrow> disk \<Rightarrow> (shown list \<times> disk) res" where
  "PerformanceTest be junk wjunk fs d =
     bindR (FileWrite be junk wjunk fs d) (\<lambda>(out1, d).
     bindR (FileRead be (junk 2) fs d) (\<lambda>(out2, d).
     bindR (FileSystem_Remove be (junk 3) fs d FILE_NAME) (\<lambda>(removed, d).
     Inr ([PerfStart, PerfStats] @ out1 @ out2 @ [if removed then PerfStats else PerfCannotRemove], d))))"

section \<open>Writing and reading in pieces\<close>

lemma take_blit: "p \<le> length c \<Longrightarrow> take (p + length b) (blit c p b) = take p c @ b"
  by (simp add: blit_def)

lemma handle_size: "hdr_ok h \<Longrightarrow> unat (numBytes h) \<le> 3840"
  by (simp add: hdr_ok_def file_sizes)

lemma write_chunk:
  assumes ok: "fs_ok be fs d" and i: "named (entries be fs d) k i"
    and f: "hdr f = hdr_at be d (e_sector (entries be fs d ! i))"
    and p: "unat (seekPosition f) + length buf \<le> unat (numBytes (hdr f))" and b: "buf \<noteq> []"
  shows "\<exists>d'. OpenFile_Write junk f d buf (of_nat (length buf)) =
       Inr (of_nat (length buf), f\<lparr>seekPosition := seekPosition f + of_nat (length buf)\<rparr>, d') \<and> fs_ok be fs d' \<and>
     entries be fs d' = entries be fs d \<and> hdr_at be d' (e_sector (entries be fs d ! i)) = hdr f \<and>
     fs_files be fs d' = (fs_files be fs d)(k \<mapsto> blit (contents be d (entries be fs d ! i)) (unat (seekPosition f)) buf)"
proof -
  have h: "hdr_ok (hdr f)" using table_okD(2) [OF fs_okD(3) [OF ok] named_live [OF i]] by (simp add: entry_ok_def f)
  have l: "unat (of_nat (length buf) :: u32) = length buf"
    using p handle_size [OF h] by (simp add: unat_of_nat)
  have n: "0 < (of_nat (length buf) :: u32)" using l b by (simp add: word_less_nat_alt)
  have m: "min (unat (of_nat (length buf) :: u32)) (unat (numBytes (hdr f)) - unat (seekPosition f)) = length buf"
    using p by (simp add: l)
  have q: "unat (seekPosition f) < unat (numBytes (hdr f))" using p b by (cases buf) simp_all
  have "unat (seekPosition f) + unat (of_nat (length buf) :: u32) < 4294967296" using p handle_size [OF h] by (simp add: l)
  from write_keeps [OF ok i f n q this, of buf junk] l m n show ?thesis
    by (auto simp add: OpenFile_Write_def)
qed

lemma Copy_loop_ok:
  assumes "fs_ok be fs d" and "named (entries be fs d) k i"
    and "hdr f = hdr_at be d (e_sector (entries be fs d ! i))"
    and "unat (seekPosition f) + length fp = unat (numBytes (hdr f))"
  shows "\<exists>f' d'. Copy_loop wjunk j f d fp = Inr (f', d') \<and> fs_ok be fs d' \<and>
     fs_files be fs d' = (fs_files be fs d)(k \<mapsto> take (unat (seekPosition f)) (contents be d (entries be fs d ! i)) @ fp)"
  using assms
proof (induction wjunk j f d fp rule: Copy_loop.induct)
  case (1 wjunk j f d fp)
  let ?b = "take TRANSFER_SIZE fp" and ?c = "contents be d (entries be fs d ! i)" and ?p = "unat (seekPosition f)"
  let ?g = "f\<lparr>seekPosition := seekPosition f + of_nat (length ?b)\<rparr>"
  note t = fs_okD(3) [OF "1.prems"(1)]
  have h: "hdr_ok (hdr f)"
    using table_okD(2) [OF t named_live [OF "1.prems"(2)]] by (simp add: entry_ok_def "1.prems"(3))
  have lc: "length ?c = unat (numBytes (hdr f))" by (simp add: contents_def file_bytes_def "1.prems"(3))
  show ?case
  proof (cases "fp = []")
    case True
    with "1.prems"(4) lc fs_files_named [OF t "1.prems"(2)] have "fs_files be fs d = (fs_files be fs d)(k \<mapsto> take ?p ?c @ fp)"
      by (simp add: fun_upd_idem)
    with True "1.prems"(1) show ?thesis by (subst Copy_loop.simps) simp
  next
    case False
    then have b: "?b \<noteq> []" "length ?b > 0" by (simp_all add: TRANSFER_SIZE_def)
    have "?p + length ?b \<le> unat (numBytes (hdr f))" using "1.prems"(4) by simp
    from write_chunk [OF "1.prems"(1-3) this b(1), of "wjunk j"] obtain d1 where
      d1: "OpenFile_Write (wjunk j) f d ?b (of_nat (length ?b)) = Inr (of_nat (length ?b), ?g, d1)" "fs_ok be fs d1"
        "entries be fs d1 = entries be fs d" "hdr_at be d1 (e_sector (entries be fs d ! i)) = hdr f"
        "fs_files be fs d1 = (fs_files be fs d)(k \<mapsto> blit ?c ?p ?b)" by blast
    have p': "unat (seekPosition ?g) = ?p + length ?b"
      using "1.prems"(4) handle_size [OF h] by (simp add: unat_word_ariths unat_of_nat min_def)
    have n1: "named (entries be fs d1) k i" using "1.prems"(2) d1(3) by simp
    have c1: "contents be d1 (entries be fs d1 ! i) = blit ?c ?p ?b"
      using fs_files_named [OF fs_okD(3) [OF d1(2)] n1] d1(5) by simp
    have sz: "unat (seekPosition ?g) + length (drop TRANSFER_SIZE fp) = unat (numBytes (hdr ?g))"
      unfolding p' using "1.prems"(4) by simp
    obtain f' d' where d': "Copy_loop wjunk (Suc j) ?g d1 (drop TRANSFER_SIZE fp) = Inr (f', d')" "fs_ok be fs d'"
      "fs_files be fs d' = (fs_files be fs d1)(k \<mapsto> take (?p + length ?b) (blit ?c ?p ?b) @ drop TRANSFER_SIZE fp)"
      using "1.IH" [OF refl refl b(2) d1(2) n1 _ sz] d1(3,4) unfolding p' c1 by fastforce
    have "?p \<le> length ?c" using lc "1.prems"(4) by simp
    note take_blit [OF this, of ?b]
    then have "fs_files be fs d' = (fs_files be fs d)(k \<mapsto> take ?p ?c @ fp)"
      unfolding d'(3) d1(5) by simp
    moreover have "Copy_loop wjunk j f d fp = Inr (f', d')"
      using d1(1) d'(1) b(2) by (subst Copy_loop.simps) simp
    ultimately show ?thesis using d'(2) by blast
  qed
qed

lemma chunk_fuel:
  assumes "(n :: nat) - p + TRANSFER_SIZE \<le> TRANSFER_SIZE * Suc fuel" and "p < n"
  shows "n - (p + min 10 (n - p)) + TRANSFER_SIZE \<le> TRANSFER_SIZE * fuel"
proof (cases "n - p \<le> 10")
  case True
  then have "min 10 (n - p) = n - p" "n - (p + (n - p)) = 0" by simp_all
  moreover have "fuel > 0" using assms by (cases fuel) (simp_all add: TRANSFER_SIZE_def)
  ultimately show ?thesis by (cases fuel) simp_all
qed (use assms in \<open>simp add: TRANSFER_SIZE_def\<close>)

lemma Print_loop_ok:
  assumes "hdr_ok (hdr f)" and "disk_ok d" and "unat (seekPosition f) \<le> unat (numBytes (hdr f))"
    and "unat (numBytes (hdr f)) - unat (seekPosition f) + TRANSFER_SIZE \<le> TRANSFER_SIZE * fuel"
  shows "\<exists>d'. Print_loop fuel f d = Inr (drop (unat (seekPosition f)) (file_bytes d (hdr f)), d') \<and>
     disk_ok d' \<and> sector d' = sector d"
  using assms
proof (induction fuel arbitrary: f d)
  case 0
  then show ?case by (simp add: TRANSFER_SIZE_def)
next
  case (Suc fuel)
  let ?p = "unat (seekPosition f)" and ?n = "unat (numBytes (hdr f))"
  note sz = handle_size [OF Suc.prems(1)]
  show ?case
  proof (cases "?p = ?n")
    case True
    then have "numBytes (hdr f) = seekPosition f" by (simp add: word_unat_eq_iff)
    then have "OpenFile_Read f d (of_nat TRANSFER_SIZE) = Inr ([], f, d)"
      by (simp add: OpenFile_Read_def OpenFile_ReadAt_def FileLength_def TRANSFER_SIZE_def)
    with True Suc.prems(2) show ?thesis by (simp add: file_bytes_def)
  next
    case False
    let ?m = "min 10 (?n - ?p)"
    let ?b = "map (file_byte d (hdr f)) [?p..<?p + ?m]" and ?g = "f\<lparr>seekPosition := seekPosition f + of_nat ?m\<rparr>"
    have lt: "?p < ?n" "?p + unat (10 :: u32) < 4294967296" using False Suc.prems(3) sz by simp_all
    from ReadAt_ok [OF Suc.prems(1,2) _ lt] obtain d1 where
      d1: "OpenFile_ReadAt f d 10 (seekPosition f) = Inr (?b, d1)" "disk_ok d1" "sector d1 = sector d" by auto
    have r: "OpenFile_Read f d (of_nat TRANSFER_SIZE) = Inr (?b, ?g, d1)"
      using d1(1) by (simp add: OpenFile_Read_def TRANSFER_SIZE_def)
    have p': "unat (seekPosition ?g) = ?p + ?m" using sz lt by (simp add: unat_word_ariths unat_of_nat)
    have IH: "\<exists>d'. Print_loop fuel ?g d1 = Inr (drop (?p + ?m) (file_bytes d1 (hdr f)), d') \<and> disk_ok d' \<and> sector d' = sector d1"
    proof -
      have "?p + ?m \<le> ?n" using lt(1) by simp
      with chunk_fuel [OF Suc.prems(4) lt(1)]
           Suc.IH [of ?g d1] Suc.prems(1) d1(2) p' show ?thesis by simp
    qed
    then obtain d' where d': "Print_loop fuel ?g d1 = Inr (drop (?p + ?m) (file_bytes d (hdr f)), d')" "disk_ok d'" "sector d' = sector d"
      using fs_same(4) [OF d1(3)] d1(3) by auto
    have "?b @ drop (?p + ?m) (file_bytes d (hdr f)) = drop ?p (file_bytes d (hdr f))"
    proof -
      have "[?p..<?n] = [?p..<?p + ?m] @ [?p + ?m..<?n]" using lt(1) upt_add_eq_append [of ?p "?p + ?m" "?n - (?p + ?m)"] by simp
      then show ?thesis by (simp add: file_bytes_def drop_map del: upt_Suc)
    qed
    moreover have "length ?b > 0" using lt(1) by simp
    ultimately have "Print_loop (Suc fuel) f d = Inr (drop ?p (file_bytes d (hdr f)), d')" using r d'(1) by simp
    with d'(2,3) show ?thesis by blast
  qed
qed

section \<open>A file copied in and printed\<close>

lemma Copy_spec:
  assumes "fs_ok be fs d" and "unix source = Some bs" and "length bs < MAX_FILE_SIZE"
    and "fs_files be fs d (cstr 9 to) = None" and "fs_room be fs d (of_nat (length bs))"
  shows "\<exists>d'. Copy unix be junk wjunk fs d source to = Inr ([], d') \<and> fs_ok be fs d' \<and>
     fs_files be fs d' = (fs_files be fs d)(cstr 9 to \<mapsto> bs)"
proof -
  have l: "unat (of_nat (length bs) :: u32) = length bs" using assms(3) by (simp add: unat_of_nat file_sizes)
  from Create_spec [OF assms(1), of "of_nat (length bs)" "junk 0" to] assms(3-5) obtain d1 bs0 where
    d1: "FileSystem_Create be (junk 0) fs d to (of_nat (length bs)) = Inr (True, d1)" "fs_ok be fs d1"
      "length bs0 = length bs" "fs_files be fs d1 = (fs_files be fs d)(cstr 9 to \<mapsto> bs0)" by (auto simp add: l)
  then obtain i where i: "named (entries be fs d1) (cstr 9 to) i" "bs0 = contents be d1 (entries be fs d1 ! i)"
    using fs_files_SomeD [OF d1(2), of "cstr 9 to" bs0] by auto
  let ?f = "\<lparr>hdr = hdr_at be d1 (e_sector (entries be fs d1 ! i)), seekPosition = 0\<rparr>"
  obtain d2 where d2: "FileSystem_Open be (junk 1) fs d1 to = Inr (Some ?f, d2)" "disk_ok d2" "sector d2 = sector d1"
    using Open_cases(1) [OF d1(2) i(1), of "junk 1"] by blast
  note same = fs_same(5) [OF d2(3), of be fs] fs_same(3) [OF d2(3)]
  have "unat (numBytes (hdr ?f)) = length bs" using i(2) d1(3) by (simp add: contents_def file_bytes_def)
  then obtain f' d3 where "Copy_loop wjunk 0 ?f d2 bs = Inr (f', d3)" "fs_ok be fs d3"
    "fs_files be fs d3 = (fs_files be fs d2)(cstr 9 to \<mapsto> bs)"
    using Copy_loop_ok [OF fs_same(2) [OF d2(3,2) d1(2)], of "cstr 9 to" i ?f bs wjunk 0] i(1) by (auto simp add: same)
  with d1(1,4) d2(1) fs_same(1) [OF d2(3)] assms(2) show ?thesis by (auto simp add: Copy_def)
qed

lemma Print_spec:
  assumes "fs_ok be fs d"
  shows "\<exists>d'. sector d' = sector d \<and> fs_ok be fs d' \<and>
     (case fs_files be fs d (cstr 9 name) of
        None \<Rightarrow> Print fuel be junk fs d name = Inr ([PrintNoFile name], d')
      | Some bs \<Rightarrow> length bs + TRANSFER_SIZE \<le> TRANSFER_SIZE * fuel \<longrightarrow> Print fuel be junk fs d name = Inr ([Chars bs], d'))"
proof -
  obtain d1 where d1: "sector d1 = sector d" "fs_ok be fs d1"
    "case fs_files be fs d (cstr 9 name) of
        None \<Rightarrow> FileSystem_Open be junk fs d name = Inr (None, d1)
      | Some bs \<Rightarrow> \<exists>f. FileSystem_Open be junk fs d name = Inr (Some f, d1) \<and> hdr_ok (hdr f) \<and>
          seekPosition f = 0 \<and> file_bytes d1 (hdr f) = bs"
    using Open_spec [OF assms, of junk name] by blast
  show ?thesis
  proof (cases "fs_files be fs d (cstr 9 name)")
    case None
    with d1 show ?thesis by (auto simp add: Print_def)
  next
    case (Some bs)
    with d1(3) obtain f where f: "FileSystem_Open be junk fs d name = Inr (Some f, d1)" "hdr_ok (hdr f)"
      "seekPosition f = 0" "file_bytes d1 (hdr f) = bs" by auto
    show ?thesis
    proof (cases "length bs + TRANSFER_SIZE \<le> TRANSFER_SIZE * fuel")
      case True
      have "unat (numBytes (hdr f)) = length bs" using f(4) by (auto simp add: file_bytes_def)
      with Print_loop_ok [OF f(2) fs_okD(1) [OF d1(2)], of fuel] f True obtain d2 where
        "Print_loop fuel f d1 = Inr (bs, d2)" "disk_ok d2" "sector d2 = sector d1" by auto
      moreover from this(2,3) d1(2) have "fs_ok be fs d2" using fs_same(2) by blast
      ultimately show ?thesis using f(1) Some d1(1) by (auto simp add: Print_def intro!: exI [of _ d2])
    qed (use Some d1(1,2) in auto)
  qed
qed

section \<open>The command line\<close>

text \<open>The symbols \<open>THREADS\<close> and \<open>FILESYS\<close>, which \<open>main\<close> tests beside those of \<open>Initialize\<close>.\<close>

record main_build = build +
  b_threads :: bool
  b_filesys :: bool

datatype main_op =
    SysInfo | PrintVersion | ThreadTest | StartProcess "u8 list" | ConsoleTest "(u8 list \<times> u8 list) option"
  | DoCopy "u8 list" "u8 list" | DoPrint "u8 list" | DoRemove "u8 list" | DoList | DoPrintAll | DoCheck | DoPerformanceTest
  | MailTest u32

text \<open>One word of the command line with the words behind it: \<open>argCount\<close>, the command and whether \<open>main\<close> ends after it.
  The tests of the four builds are for different words, so that at most one of them applies.\<close>

definition main_command :: "main_build \<Rightarrow> u8 list \<Rightarrow> u8 list list \<Rightarrow> (nat \<times> main_op option \<times> bool) res" where
  "main_command B arg rest =
    (if arg = ascii_str ''-i'' then Inr (1, Some SysInfo, True)
     else if arg = ascii_str ''-z'' then Inr (1, Some PrintVersion, True)
     else if b_threads B \<and> arg = ascii_str ''-tt'' then Inr (1, Some ThreadTest, True)
     else if b_user_program B \<and> arg = ascii_str ''-x'' then
       (case rest of [] \<Rightarrow> Inl AssertFail | s # _ \<Rightarrow> Inr (2, Some (StartProcess s), False))
     else if b_user_program B \<and> arg = ascii_str ''-tc'' then
       (case rest of [] \<Rightarrow> Inr (1, Some (ConsoleTest None), True) | [s] \<Rightarrow> Inl AssertFail
        | s # t # _ \<Rightarrow> Inr (3, Some (ConsoleTest (Some (s, t))), True))
     else if b_filesys B \<and> arg = ascii_str ''-cp'' then
       (case rest of s # t # _ \<Rightarrow> Inr (3, Some (DoCopy s t), False) | _ \<Rightarrow> Inl AssertFail)
     else if b_filesys B \<and> arg = ascii_str ''-pr'' then
       (case rest of [] \<Rightarrow> Inl AssertFail | s # _ \<Rightarrow> Inr (2, Some (DoPrint s), False))
     else if b_filesys B \<and> arg = ascii_str ''-rm'' then
       (case rest of [] \<Rightarrow> Inl AssertFail | s # _ \<Rightarrow> Inr (2, Some (DoRemove s), False))
     else if b_filesys B \<and> arg = ascii_str ''-ls'' then Inr (1, Some DoList, False)
     else if b_filesys B \<and> arg = ascii_str ''-D'' then Inr (1, Some DoPrintAll, False)
     else if b_filesys B \<and> arg = ascii_str ''-c'' then Inr (1, Some DoCheck, False)
     else if b_filesys B \<and> arg = ascii_str ''-tf'' then Inr (1, Some DoPerformanceTest, False)
     else if b_network B \<and> arg = ascii_str ''-tn'' then
       (case rest of [] \<Rightarrow> Inl AssertFail | s # _ \<Rightarrow> Inr (2, Some (MailTest (atoi s)), False))
     else Inr (1, None, False))"

function main_loop :: "main_build \<Rightarrow> (main_op \<Rightarrow> 's \<Rightarrow> 's res) \<Rightarrow> u8 list list \<Rightarrow> 's \<Rightarrow> 's res" where
  "main_loop B run [] s = Inr s"
| "main_loop B run (arg # rest) s =
    (case main_command B arg rest of
       Inl e \<Rightarrow> Inl e
     | Inr (argCount, cmd, stop) \<Rightarrow>
         bindR (case cmd of None \<Rightarrow> Inr s | Some c \<Rightarrow> run c s) (\<lambda>s.
         if stop then Inr s else main_loop B run (drop (argCount - 1) rest) s))"
  by pat_completeness auto
termination
  by (relation "measure (\<lambda>(B, run, args, s). length args)") auto

text \<open>The commands of the file system. \<open>calls\<close> counts the commands, to give each its uninitialised buffers; what the
  commands of the other parts do is the argument \<open>others\<close>.\<close>

record fs_run =
  the_fs :: filesystem
  the_disk :: disk
  shown_text :: "shown list"
  calls :: nat

record fs_host =
  unix_file :: "u8 list \<Rightarrow> u8 list option"
  big_endian :: bool
  heap :: "nat \<Rightarrow> nat \<Rightarrow> heap_junk"
  buffers :: "nat \<Rightarrow> nat \<Rightarrow> nat \<Rightarrow> u8"

definition shows_text :: "fs_run \<Rightarrow> (shown list \<times> disk) res \<Rightarrow> fs_run res" where
  "shows_text s r = bindR r (\<lambda>(out, d). Inr (s\<lparr>shown_text := shown_text s @ out, the_disk := d, calls := Suc (calls s)\<rparr>))"

text \<open>385 rounds of 10 bytes read every file that a header can hold.\<close>

definition PRINT_FUEL :: nat where "PRINT_FUEL = 385"

definition fs_command ::
  "fs_host \<Rightarrow> (main_op \<Rightarrow> fs_run \<Rightarrow> fs_run res) \<Rightarrow> main_op \<Rightarrow> fs_run \<Rightarrow> fs_run res" where
  "fs_command H others c s =
    (let be = big_endian H; junk = heap H (calls s); wjunk = buffers H (calls s); fs = the_fs s; d = the_disk s;
         newline = Chars [10] in
     case c of
       SysInfo \<Rightarrow> shows_text s (Inr ([SystemInfo], d))
     | PrintVersion \<Rightarrow> shows_text s (Inr ([Version], d))
     | DoCopy source to \<Rightarrow> shows_text s (Copy (unix_file H) be junk wjunk fs d source to)
     | DoPrint name \<Rightarrow> shows_text s (bindR (Print PRINT_FUEL be (junk 0) fs d name) (\<lambda>(out, d). Inr (out @ [newline], d)))
     | DoRemove name \<Rightarrow> shows_text s (bindR (FileSystem_Remove be (junk 0) fs d name) (\<lambda>(_, d). Inr ([], d)))
     | DoList \<Rightarrow> shows_text s (bindR (FileSystem_List be (junk 0) fs d) (\<lambda>(names, d). Inr ([Listing names, newline], d)))
     | DoCheck \<Rightarrow> shows_text s (bindR (FileSystem_Check be (junk 0) fs d) (\<lambda>(ok, d).
         Inr ([if ok then CheckSucceeded else CheckFailed], d)))
     | DoPerformanceTest \<Rightarrow> shows_text s (PerformanceTest be junk wjunk fs d)
     | _ \<Rightarrow> others c s)"

lemma file_commands [simp]:
  "b_filesys B \<Longrightarrow> main_command B (ascii_str ''-cp'') (s # t # rest) = Inr (3, Some (DoCopy s t), False)"
  "b_filesys B \<Longrightarrow> main_command B (ascii_str ''-pr'') (s # rest) = Inr (2, Some (DoPrint s), False)"
  "b_filesys B \<Longrightarrow> main_command B (ascii_str ''-rm'') (s # rest) = Inr (2, Some (DoRemove s), False)"
  "b_filesys B \<Longrightarrow> main_command B (ascii_str ''-ls'') rest = Inr (1, Some DoList, False)"
  by (simp_all add: main_command_def ascii_str_def)

text \<open>\<open>nachos -cp source name -pr name\<close> on a well-formed file system.\<close>

lemma main_copy_print:
  assumes "b_filesys B" and "fs_ok (big_endian H) (the_fs s) (the_disk s)"
    and "unix_file H source = Some bs" and "length bs < MAX_FILE_SIZE"
    and "fs_files (big_endian H) (the_fs s) (the_disk s) (cstr 9 name) = None"
    and "fs_room (big_endian H) (the_fs s) (the_disk s) (of_nat (length bs))"
  shows "\<exists>s'. main_loop B (fs_command H others) [ascii_str ''-cp'', source, name, ascii_str ''-pr'', name] s = Inr s' \<and>
     shown_text s' = shown_text s @ [Chars bs, Chars [10]] \<and> fs_ok (big_endian H) (the_fs s) (the_disk s') \<and>
     fs_files (big_endian H) (the_fs s) (the_disk s') =
       (fs_files (big_endian H) (the_fs s) (the_disk s))(cstr 9 name \<mapsto> bs)"
proof -
  let ?be = "big_endian H" and ?fs = "the_fs s"
  obtain d1 where d1: "Copy (unix_file H) ?be (heap H (calls s)) (buffers H (calls s)) ?fs (the_disk s) source name = Inr ([], d1)"
    "fs_ok ?be ?fs d1" "fs_files ?be ?fs d1 = (fs_files ?be ?fs (the_disk s))(cstr 9 name \<mapsto> bs)"
    using Copy_spec [where unix = "unix_file H", OF assms(2-6)] by blast
  have "length bs + TRANSFER_SIZE \<le> TRANSFER_SIZE * PRINT_FUEL"
    using assms(4) by (simp add: TRANSFER_SIZE_def PRINT_FUEL_def file_sizes)
  then obtain d2 where d2: "Print PRINT_FUEL ?be (heap H (Suc (calls s)) 0) ?fs d1 name = Inr ([Chars bs], d2)"
    "sector d2 = sector d1" "fs_ok ?be ?fs d2"
    using Print_spec [OF d1(2), where name = name and fuel = PRINT_FUEL and junk = "heap H (Suc (calls s)) 0"] d1(3) by auto
  show ?thesis
    using d1 d2 assms(1) fs_same(1) [OF d2(2)] by (simp add: fs_command_def shows_text_def)
qed

text \<open>Words that \<open>Initialize\<close> has taken as the argument of one of its options are read again as commands.\<close>

lemma option_arguments_are_commands:
  "b_filesys B \<Longrightarrow> main_loop B run [ascii_str ''-d'', ascii_str ''-ls''] s = bindR (run DoList s) Inr"
  by (simp add: main_command_def ascii_str_def)

section \<open>Properties\<close>

text \<open>C19: \<open>nachos -cp source name -pr name\<close> copies a host file into the file system and prints it: when the name is free
  and there is room, the new file has exactly the bytes of the host's file, these bytes are printed, every other file
  keeps its contents and the disk stays well formed.\<close>

theorem copy_print_roundtrip:
  assumes "b_filesys B" and "fs_ok (big_endian H) (the_fs s) (the_disk s)"
    and "unix_file H source = Some bs" and "length bs < MAX_FILE_SIZE"
    and "fs_files (big_endian H) (the_fs s) (the_disk s) (cstr 9 name) = None"
    and "fs_room (big_endian H) (the_fs s) (the_disk s) (of_nat (length bs))"
  shows "\<exists>s'. main_loop B (fs_command H others) [ascii_str ''-cp'', source, name, ascii_str ''-pr'', name] s = Inr s' \<and>
     shown_text s' = shown_text s @ [Chars bs, Chars [10]] \<and> fs_ok (big_endian H) (the_fs s) (the_disk s') \<and>
     fs_files (big_endian H) (the_fs s) (the_disk s') =
       (fs_files (big_endian H) (the_fs s) (the_disk s))(cstr 9 name \<mapsto> bs)"
  by (rule main_copy_print [OF assms])

lemma names: "cstr 9 FILE_NAME = FILE_NAME" "CONTENT_SIZE = 10" "unat (0 :: u32) < MAX_FILE_SIZE"
  by (simp_all add: FILE_NAME_def CONTENT_SIZE_def CONTENTS_def ascii_str_def file_sizes cstr_def)

lemma empty_file_loops:
  assumes "FileLength (hdr f) = 0"
  shows "FileWrite_loop wjunk (Suc n) f d = Inr ([PerfWriteFailed], d)" and "FileRead_loop (Suc n) f d = Inr ([PerfReadFailed], d)"
  using assms by (simp_all add: OpenFile_Write_def OpenFile_WriteAt_def OpenFile_Read_def OpenFile_ReadAt_def names)

text \<open>The performance test cannot succeed: it creates its file with size 0, and files do not grow. Its first write and
  its first read fail; then it removes the file, and the files are as before.\<close>

theorem PerformanceTest_fails:
  assumes "fs_ok be fs d" and "fs_files be fs d FILE_NAME = None" and "fs_room be fs d 0"
  shows "\<exists>d'. PerformanceTest be junk wjunk fs d = Inr ([PerfStart, PerfStats, PerfSequentialWrite, PerfWriteFailed,
       PerfSequentialRead, PerfReadFailed, PerfStats], d') \<and> fs_ok be fs d' \<and> fs_files be fs d' = fs_files be fs d"
proof -
  note chunks = empty_file_loops [where n = 4999, simplified]
  have open_empty: "\<exists>f d'. FileSystem_Open be j fs d1 FILE_NAME = Inr (Some f, d') \<and> FileLength (hdr f) = 0 \<and>
      sector d' = sector d1 \<and> fs_ok be fs d'" if "fs_ok be fs d1" "fs_files be fs d1 FILE_NAME = Some []" for d1 j
    using Open_spec [OF that(1), of j FILE_NAME] that(2) by (auto simp add: names file_bytes_def FileLength_def word_unat_eq_iff)
  from Create_spec [OF assms(1) names(3), of "junk 0" FILE_NAME] assms(2,3) obtain d1 where
    d1: "FileSystem_Create be (junk 0) fs d FILE_NAME 0 = Inr (True, d1)" "fs_ok be fs d1"
      "fs_files be fs d1 = (fs_files be fs d)(FILE_NAME \<mapsto> [])" by (auto simp add: names)
  from open_empty [OF d1(2), of "junk 1"] d1(3) obtain f d2 where
    f: "FileSystem_Open be (junk 1) fs d1 FILE_NAME = Inr (Some f, d2)" "FileLength (hdr f) = 0"
      "sector d2 = sector d1" "fs_ok be fs d2" by auto
  have d2: "fs_files be fs d2 = (fs_files be fs d)(FILE_NAME \<mapsto> [])" using fs_same(1) [OF f(3)] d1(3) by simp
  with open_empty [OF f(4), of "junk 2"] obtain g d3 where
    g: "FileSystem_Open be (junk 2) fs d2 FILE_NAME = Inr (Some g, d3)" "FileLength (hdr g) = 0"
      "sector d3 = sector d2" "fs_ok be fs d3" by auto
  have d3: "fs_files be fs d3 = (fs_files be fs d)(FILE_NAME \<mapsto> [])" using fs_same(1) [OF g(3)] d2 by simp
  obtain i where "named (entries be fs d3) (cstr 9 FILE_NAME) i"
    using fs_files_SomeD [OF g(4), of FILE_NAME "[]"] d3 by (auto simp add: names)
  from Remove_ok [OF g(4) this, of "junk 3"] obtain d4 where
    d4: "FileSystem_Remove be (junk 3) fs d3 FILE_NAME = Inr (True, d4)" "fs_ok be fs d4"
      "fs_files be fs d4 = (fs_files be fs d)(FILE_NAME := None)" using d3 by (auto simp add: names)
  have "FileWrite be junk wjunk fs d = Inr ([PerfSequentialWrite, PerfWriteFailed], d2)"
    using d1(1) f(1) chunks(1) [OF f(2)] by (simp add: FileWrite_def FILE_CHUNKS_def)
  moreover have "FileRead be (junk 2) fs d2 = Inr ([PerfSequentialRead, PerfReadFailed], d3)"
    using g(1) chunks(2) [OF g(2)] by (simp add: FileRead_def FILE_CHUNKS_def)
  moreover have "(fs_files be fs d)(FILE_NAME := None) = fs_files be fs d" using assms(2) by (simp add: fun_upd_idem)
  ultimately show ?thesis using d4 by (simp add: PerformanceTest_def)
qed

subsection \<open>A concrete command line\<close>

definition demo_build :: main_build where
  "demo_build = \<lparr>b_user_program = True, b_filesys_needed = True, b_network = False, b_threads = False, b_filesys = True\<rparr>"

definition demo_unix :: fs_host where
  "demo_unix = \<lparr>unix_file = (\<lambda>_. Some (replicate 100 42)), big_endian = False, heap = (\<lambda>_ _ _ _. 7), buffers = (\<lambda>_ _ _. 9)\<rparr>"

theorem copy_print_roundtrip_witness:
  "\<exists>fs d s'. main_loop demo_build (fs_command demo_unix (\<lambda>_ s. Inr s))
      [ascii_str ''-cp'', [66], [65], ascii_str ''-pr'', [65]] \<lparr>the_fs = fs, the_disk = d, shown_text = [], calls = 0\<rparr> = Inr s' \<and>
     shown_text s' = [Chars (replicate 100 42), Chars [10]] \<and> fs_files False fs (the_disk s') [65] = Some (replicate 100 42)"
proof -
  obtain fs d where f: "fs_ok False fs d" "live (entries False fs d) = {}" "card (marked (free_map False fs d)) = 5"
    using demo_formatted by blast
  note r = demo_room [OF f]
  let ?s = "\<lparr>the_fs = fs, the_disk = d, shown_text = [], calls = 0\<rparr>"
  from copy_print_roundtrip [of demo_build demo_unix ?s "[66]" "replicate 100 42" "[65]" "\<lambda>_ s. Inr s"] f(1) r(1,2) obtain s' where
    "main_loop demo_build (fs_command demo_unix (\<lambda>_ s. Inr s))
      [ascii_str ''-cp'', [66], [65], ascii_str ''-pr'', [65]] ?s = Inr s'"
    "shown_text s' = [Chars (replicate 100 42), Chars [10]]" "fs_files False fs (the_disk s') = (fs_files False fs d)([65] \<mapsto> replicate 100 42)"
    by (auto simp add: demo_build_def demo_unix_def demo_cstr file_sizes)
  then have "main_loop demo_build (fs_command demo_unix (\<lambda>_ s. Inr s))
      [ascii_str ''-cp'', [66], [65], ascii_str ''-pr'', [65]] ?s = Inr s' \<and>
     shown_text s' = [Chars (replicate 100 42), Chars [10]] \<and> fs_files False fs (the_disk s') [65] = Some (replicate 100 42)" by simp
  then show ?thesis by blast
qed

end
