(* ===== verification/Userprog_SynchConsole.thy ===== *)
theory Userprog_SynchConsole
  imports Machine_Driver
begin

text \<open>
  The console: \<open>machine/console.cc\<close>, \<open>machine/console.hh\<close> and \<open>userprog/SynchConsole.cc\<close>.

  The two UNIX files behind the device are lists of bytes: \<open>keyboard\<close> holds what has been typed and
  not read, \<open>display\<close> what has been written. A \<open>char\<close> is a byte, \<open>EOF\<close> is the byte of
  \<open>(char) -1\<close>. The device's operations act on the interrupt controller's state, in which they
  schedule their interrupts; the interrupt handlers of the kernel are arguments, as in the code.
\<close>

section \<open>The device\<close>

definition EOF :: u8 where "EOF = - 1"

record console =
  readFileNo :: int
  writeFileNo :: int
  putBusy :: bool
  incoming :: u8
  keyboard :: "u8 list"
  display :: "u8 list"
  typed :: "u8 list"     \<comment> \<open>everything the user has typed so far\<close>

datatype con_handler = ConsoleReadPoll | ConsoleWriteDone

type_synonym con_state = "(con_handler, console, u8) dstate"
type_synonym con_act = "con_state \<Rightarrow> con_state res"

text \<open>\<open>readFile\<close> and \<open>writeFile\<close> are the descriptors of the named files, \<open>None\<close> for a null name.\<close>

definition Console_new :: "bool \<Rightarrow> int option \<Rightarrow> int option \<Rightarrow> con_act" where
  "Console_new fx readFile writeFile s =
     Schedule fx ConsoleReadPoll CONSOLE_TIME CONSOLE_READ_INT
       (upd_dev (\<lambda>d. d\<lparr>readFileNo := (case readFile of None \<Rightarrow> 0 | Some f \<Rightarrow> f),
          writeFileNo := (case writeFile of None \<Rightarrow> 1 | Some f \<Rightarrow> f), putBusy := False, incoming := EOF\<rparr>) s)"

text \<open>The descriptors that the destructor closes.\<close>

definition Console_delete :: "console \<Rightarrow> int list" where
  "Console_delete d = (if readFileNo d \<noteq> 0 then [readFileNo d] else []) @ (if writeFileNo d \<noteq> 1 then [writeFileNo d] else [])"

definition CheckCharAvail :: "bool \<Rightarrow> con_act \<Rightarrow> con_act" where
  "CheckCharAvail fx readHandler s =
     bindR (Schedule fx ConsoleReadPoll CONSOLE_TIME CONSOLE_READ_INT s) (\<lambda>s.
     if incoming (dev (sys s)) \<noteq> EOF then Inr s
     else case keyboard (dev (sys s)) of [] \<Rightarrow> Inr s
     | c # cs \<Rightarrow>
       let s = upd_dev (\<lambda>d. d\<lparr>keyboard := cs, incoming := c\<rparr>) s;
           s = s\<lparr>stats := (stats s)\<lparr>numConsoleCharsRead := numConsoleCharsRead (stats s) + 1\<rparr>\<rparr> in
       readHandler s)"

definition WriteDone :: "con_act \<Rightarrow> con_act" where
  "WriteDone writeHandler s =
     (let s = upd_dev (\<lambda>d. d\<lparr>putBusy := False\<rparr>) s;
          s = s\<lparr>stats := (stats s)\<lparr>numConsoleCharsWritten := numConsoleCharsWritten (stats s) + 1\<rparr>\<rparr> in
      writeHandler s)"

definition GetChar :: "con_state \<Rightarrow> u8 \<times> con_state" where
  "GetChar s = (incoming (dev (sys s)), upd_dev (\<lambda>d. d\<lparr>incoming := EOF\<rparr>) s)"

definition PutChar :: "bool \<Rightarrow> u8 \<Rightarrow> con_act" where
  "PutChar fx ch s = ASSERT (\<not> putBusy (dev (sys s)))
     (Schedule fx ConsoleWriteDone CONSOLE_TIME CONSOLE_WRITE_INT
       (upd_dev (\<lambda>d. d\<lparr>display := display d @ [ch], putBusy := True\<rparr>) s))"

section \<open>The synchronous console\<close>

text \<open>The semaphores and locks of \<open>SynchConsole\<close> by number, the handlers it gives to the device, and the
  code of its two operations.\<close>

definition readAvail :: nat where "readAvail = 0"
definition writeDone :: nat where "writeDone = 1"
definition readLock :: nat where "readLock = 0"
definition writeLock :: nat where "writeLock = 1"

definition sc_ReadAvail :: con_act where "sc_ReadAvail = sem_V readAvail"
definition sc_WriteDone :: con_act where "sc_WriteDone = sem_V writeDone"

fun con_run :: "bool \<Rightarrow> con_handler \<Rightarrow> con_act" where
  "con_run fx ConsoleReadPoll = CheckCharAvail fx sc_ReadAvail"
| "con_run fx ConsoleWriteDone = WriteDone sc_WriteDone"

datatype con_op = DevPutChar u8 | DevGetChar

definition putChar :: "u8 \<Rightarrow> con_op stmt list" where
  "putChar ch = [Acquire writeLock, Do (DevPutChar ch), P writeDone, Release writeLock]"

definition getChar :: "con_op stmt list" where
  "getChar = [Acquire readLock, P readAvail, Do DevGetChar, Release readLock]"

fun con_exec :: "bool \<Rightarrow> con_op \<Rightarrow> nat \<Rightarrow> con_state \<Rightarrow> con_state res option" where
  "con_exec fx (DevPutChar ch) t s = Some (PutChar fx ch s)"
| "con_exec fx DevGetChar t s =
     (case GetChar s of (ch, s) \<Rightarrow> Some (Inr (upd_sys (\<lambda>x. x\<lparr>returned := returned x @ [(t, ch)]\<rparr>) s)))"

definition con_init :: con_state where
  "con_init = (Interrupt_new Statistics_new
     \<lparr>owner = (\<lambda>_. None), val = (\<lambda>_. 0),
      dev = \<lparr>readFileNo = 0, writeFileNo = 1, putBusy = False, incoming = EOF, keyboard = [], display = [], typed = []\<rparr>,
      returned = []\<rparr>)\<lparr>level := INT_ON\<rparr>"

definition SynchConsole_new :: "bool \<Rightarrow> int option \<Rightarrow> int option \<Rightarrow> con_act" where
  "SynchConsole_new fx readFile writeFile s =
     bindR (Console_new fx readFile writeFile (upd_sys (\<lambda>x. x\<lparr>owner := (owner x)(readLock := None, writeLock := None)\<rparr>) s)) (\<lambda>s.
     Inr (upd_sys (\<lambda>x. x\<lparr>val := (val x)(readAvail := 0, writeDone := 0)\<rparr>) s))"

text \<open>The world types characters, any byte of them.\<close>

inductive types :: "(console, u8) sync \<Rightarrow> (console, u8) sync \<Rightarrow> bool" where
  "types x (x\<lparr>dev := (dev x)\<lparr>keyboard := keyboard (dev x) @ [c], typed := typed (dev x) @ [c]\<rparr>\<rparr>)"

type_synonym con_driver = "(con_op stmt, (console, u8) sync, con_handler) driver"

definition con_step :: "bool \<Rightarrow> con_driver \<Rightarrow> con_driver \<Rightarrow> bool" where
  "con_step fx = driver_step fx (con_run fx) (exec_stmt (con_exec fx)) types"

section \<open>The invariant\<close>

text \<open>Where a thread is in its calls, read off the code it has left; \<open>None\<close> for code that is not made of
  calls of \<open>putChar\<close> and \<open>getChar\<close>.\<close>

datatype con_stage = Free | WHeld | WBusy | WDone | RHeld | RGot | RDone

fun stage_of :: "con_op stmt list \<Rightarrow> con_stage option" where
  "stage_of [] = Some Free"
| "stage_of (Acquire l # as) =
     (if l = writeLock then after Free WHeld (stage_of as) else if l = readLock then after Free RHeld (stage_of as) else None)"
| "stage_of (Release l # as) =
     (if l = writeLock then after WDone Free (stage_of as) else if l = readLock then after RDone Free (stage_of as) else None)"
| "stage_of (P i # as) =
     (if i = writeDone then after WBusy WDone (stage_of as) else if i = readAvail then after RHeld RGot (stage_of as) else None)"
| "stage_of (Do (DevPutChar c) # as) = after WHeld WBusy (stage_of as)"
| "stage_of (Do DevGetChar # as) = after RGot RDone (stage_of as)"

text \<open>The characters that a thread has still to write.\<close>

fun outs :: "con_op stmt list \<Rightarrow> u8 list" where
  "outs [] = []"
| "outs (Do (DevPutChar c) # as) = c # outs as"
| "outs (_ # as) = outs as"

definition busy :: "con_handler multiset \<Rightarrow> (console, u8) sync \<Rightarrow> bool" where
  "busy M x \<longleftrightarrow> M = (if putBusy (dev x) then {#ConsoleReadPoll, ConsoleWriteDone#} else {#ConsoleReadPoll#})"

abbreviation "writing \<equiv> {WHeld, WBusy, WDone}"
abbreviation "reading \<equiv> {RHeld, RGot, RDone}"

definition con_core :: "(nat \<Rightarrow> con_stage option) \<Rightarrow> (console, u8) sync \<Rightarrow> bool" where
  "con_core S x \<longleftrightarrow>
     (\<forall>t. S t \<noteq> None) \<and> lock_at S (owner x writeLock) writing \<and> lock_at S (owner x readLock) reading \<and>
     val x writeDone + of_bool (putBusy (dev x)) = of_bool (held WBusy S) \<and>
     (incoming (dev x) \<noteq> EOF \<longrightarrow> 0 < val x readAvail + of_bool (held RGot S)) \<and>
     val x readAvail + of_bool (held RGot S) + length (returned x) + length (keyboard (dev x)) = length (typed (dev x))"

text \<open>Every character typed but \<open>EOF\<close> has been returned, or is in the device's buffer, or still on the keyboard.\<close>

definition real_chars :: "u8 list \<Rightarrow> u8 list" where
  "real_chars = filter (\<lambda>ch. ch \<noteq> EOF)"

definition con_typed :: "(console, u8) sync \<Rightarrow> bool" where
  "con_typed x \<longleftrightarrow> real_chars (typed (dev x)) = real_chars (map snd (returned x) @ incoming (dev x) # keyboard (dev x))"

lemma real_chars_simps [simp]:
  "real_chars [] = []" "real_chars (xs @ ys) = real_chars xs @ real_chars ys"
  "real_chars (ch # xs) = (if ch = EOF then [] else [ch]) @ real_chars xs"
  by (simp_all add: real_chars_def)

lemma real_chars_count: "length xs = length (real_chars xs) + count_list xs EOF"
  by (induction xs) simp_all

definition con_shown :: "(nat \<Rightarrow> u8 list) \<Rightarrow> (nat \<Rightarrow> u8 list) \<Rightarrow> u8 list \<Rightarrow> bool" where
  "con_shown all left out \<longleftrightarrow> (\<exists>log. map snd log = out \<and> (\<forall>t. map snd (filter (\<lambda>e. fst e = t) log) @ left t = all t))"

definition con_inv :: "(nat \<Rightarrow> con_op stmt list) \<Rightarrow> (nat \<Rightarrow> con_op stmt list) \<Rightarrow> con_handler multiset \<Rightarrow> (console, u8) sync \<Rightarrow> bool" where
  "con_inv c0 c M x \<longleftrightarrow> con_core (stage_of \<circ> c) x \<and> busy M x \<and> con_typed x \<and>
     con_shown (outs \<circ> c0) (outs \<circ> c) (display (dev x))"

lemma con_shown_write:
  assumes "con_shown all left out" and "left t = ch # rest"
  shows "con_shown all (left(t := rest)) (out @ [ch])"
proof -
  from assms(1) obtain log where log: "map snd log = out" "\<And>u. map snd (filter (\<lambda>e. fst e = u) log) @ left u = all u"
    unfolding con_shown_def by blast
  have "map snd (filter (\<lambda>e. fst e = u) (log @ [(t, ch)])) @ (left(t := rest)) u = all u" for u
    using log(2) [of u] assms(2) by auto
  with log(1) show ?thesis unfolding con_shown_def by (intro exI [of _ "log @ [(t, ch)]"]) simp
qed

lemmas con_locks = readAvail_def writeDone_def readLock_def writeLock_def

lemma con_inv_upd:
  assumes "stage_of as = Some q" and "con_core ((stage_of \<circ> c)(t := Some q)) x" and "busy M x" and "con_typed x"
    and "con_shown (outs \<circ> c0) ((outs \<circ> c)(t := outs as)) (display (dev x))"
  shows "con_inv c0 (c(t := as)) M x"
  using assms by (simp add: con_inv_def fun_upd_comp)

lemma core_locks: "con_core S x \<Longrightarrow> lock_at S (owner x writeLock) writing" "con_core S x \<Longrightarrow> lock_at S (owner x readLock) reading"
  by (simp_all add: con_core_def)

lemma core_free: "con_core S x \<Longrightarrow> S t = Some Free \<Longrightarrow> owner x writeLock \<noteq> Some t \<and> owner x readLock \<noteq> Some t"
  by (auto simp add: con_core_def lock_at_def)

subsection \<open>Each statement\<close>

text \<open>What the statements do to the stages, the locks and the semaphores.\<close>

lemma core_acquire:
  assumes "con_core S x" and "S t = Some Free"
  shows "owner x writeLock = None \<Longrightarrow> con_core (S(t := Some WHeld)) (x\<lparr>owner := (owner x)(writeLock := Some t)\<rparr>)"
    and "owner x readLock = None \<Longrightarrow> con_core (S(t := Some RHeld)) (x\<lparr>owner := (owner x)(readLock := Some t)\<rparr>)"
  using assms unfolding con_core_def con_locks
  by (simp_all add: held_upd(2) [of S t Free] lock_at_upd(1) [of S _ _ t Free] lock_at_upd(2))

lemma core_release:
  assumes "con_core S x"
  shows "S t = Some WDone \<Longrightarrow> owner x writeLock = Some t \<and> con_core (S(t := Some Free)) (x\<lparr>owner := (owner x)(writeLock := None)\<rparr>)"
    and "S t = Some RDone \<Longrightarrow> owner x readLock = Some t \<and> con_core (S(t := Some Free)) (x\<lparr>owner := (owner x)(readLock := None)\<rparr>)"
  using assms lock_at_holder [OF core_locks(1) [OF assms], of t] lock_at_holder [OF core_locks(2) [OF assms], of t] unfolding con_core_def con_locks
  by (simp_all add: held_upd(2) [of S t WDone] held_upd(2) [of S t RDone]
      lock_at_upd(1) [of S _ _ t WDone] lock_at_upd(1) [of S _ _ t RDone] lock_at_upd(3))

lemma core_put:
  assumes "con_core S x" and "S t = Some WHeld"
  shows "\<not> putBusy (dev x)" and "con_core (S(t := Some WBusy)) (x\<lparr>dev := (dev x)\<lparr>display := ds, putBusy := True\<rparr>\<rparr>)"
proof -
  have n: "\<not> held WBusy S" using held_one(1) [OF core_locks(1) [OF assms(1)] assms(2)] by simp
  then show b: "\<not> putBusy (dev x)" using assms(1) unfolding con_core_def by simp
  show "con_core (S(t := Some WBusy)) (x\<lparr>dev := (dev x)\<lparr>display := ds, putBusy := True\<rparr>\<rparr>)"
    using assms n b unfolding con_core_def by (simp add: held_upd(1) held_upd(2) [of S t WHeld] lock_at_upd(1) [of S _ _ t WHeld])
qed

lemma core_wait:
  assumes "con_core S x"
  shows "S t = Some WBusy \<Longrightarrow> 0 < val x writeDone \<Longrightarrow> con_core (S(t := Some WDone)) (x\<lparr>val := (val x)(writeDone := val x writeDone - 1)\<rparr>)"
    and "S t = Some RHeld \<Longrightarrow> 0 < val x readAvail \<Longrightarrow> con_core (S(t := Some RGot)) (x\<lparr>val := (val x)(readAvail := val x readAvail - 1)\<rparr>)"
proof -
  assume t: "S t = Some WBusy" and v: "0 < val x writeDone"
  have h: "\<not> held WBusy (S(t := Some WDone))" "held WBusy S"
    using held_one [OF core_locks(1) [OF assms] t, of WBusy] by simp_all
  with t v assms show "con_core (S(t := Some WDone)) (x\<lparr>val := (val x)(writeDone := val x writeDone - 1)\<rparr>)"
    unfolding con_core_def con_locks
    by (cases "putBusy (dev x)") (simp_all add: held_upd(2) [of S t WBusy] lock_at_upd(1) [of S _ _ t WBusy])
next
  assume t: "S t = Some RHeld" and v: "0 < val x readAvail"
  have h: "\<not> held RGot S" using held_one(1) [OF core_locks(2) [OF assms] t] by simp
  with t v assms show "con_core (S(t := Some RGot)) (x\<lparr>val := (val x)(readAvail := val x readAvail - 1)\<rparr>)"
    unfolding con_core_def con_locks
    by (simp add: held_upd(1) held_upd(2) [of S t RHeld] lock_at_upd(1) [of S _ _ t RHeld])
qed

lemma core_get:
  assumes "con_core S x" and "S t = Some RGot"
  shows "con_core (S(t := Some RDone)) (x\<lparr>dev := (dev x)\<lparr>incoming := EOF\<rparr>, returned := returned x @ [e]\<rparr>)"
proof -
  have h: "\<not> held RGot (S(t := Some RDone))" "held RGot S"
    using held_one [OF core_locks(2) [OF assms(1)] assms(2), of RGot] by simp_all
  with assms show ?thesis
    unfolding con_core_def by (simp add: held_upd(2) [of S t RGot] lock_at_upd(1) [of S _ _ t RGot])
qed

subsection \<open>The handlers\<close>

lemma core_arrives:
  assumes "con_core S x" and "keyboard (dev x) = ch # cs"
  shows "con_core S (x\<lparr>dev := (dev x)\<lparr>keyboard := cs, incoming := ch\<rparr>, val := (val x)(readAvail := val x readAvail + 1)\<rparr>)"
  using assms unfolding con_core_def con_locks by simp

lemma core_written:
  assumes "con_core S x" and "putBusy (dev x)"
  shows "con_core S (x\<lparr>dev := (dev x)\<lparr>putBusy := False\<rparr>, val := (val x)(writeDone := val x writeDone + 1)\<rparr>)"
  using assms unfolding con_core_def con_locks by simp

lemma busy_poll: "busy (add_mset ConsoleReadPoll M) x \<longleftrightarrow> M = (if putBusy (dev x) then {#ConsoleWriteDone#} else {#})"
  by (auto simp add: busy_def)

lemma busy_done: "busy (add_mset ConsoleWriteDone M) x \<longleftrightarrow> putBusy (dev x) \<and> M = {#ConsoleReadPoll#}"
  by (auto simp add: busy_def add_mset_commute [of ConsoleReadPoll ConsoleWriteDone])

lemma con_handler_ok:
  assumes "con_inv c0 c (add_mset h (pending_ms s)) (sys s)" and "clock_room fx s"
  shows "\<exists>s'. con_run fx h s = Inr s' \<and> con_inv c0 c (pending_ms s') (sys s') \<and> clock_room fx s'"
proof (cases h)
  case ConsoleReadPoll
  obtain s1 where s1: "Schedule fx ConsoleReadPoll CONSOLE_TIME CONSOLE_READ_INT s = Inr s1"
    "pending_ms s1 = add_mset h (pending_ms s)" "sys s1 = sys s" "clock_room fx s1"
    by (rule Schedule_device [OF assms(2), where d = CONSOLE_TIME and h = ConsoleReadPoll and k = CONSOLE_READ_INT]) (auto simp add: CONSOLE_TIME_def ConsoleReadPoll)
  show ?thesis
  proof (cases "incoming (dev (sys s)) \<noteq> EOF \<or> keyboard (dev (sys s)) = []")
    case True
    with s1 assms(1) show ?thesis
      by (intro exI [of _ s1]) (auto simp add: ConsoleReadPoll CheckCharAvail_def split: list.split)
  next
    case False
    then obtain ch cs where k: "keyboard (dev (sys s)) = ch # cs" "incoming (dev (sys s)) = EOF"
      by (cases "keyboard (dev (sys s))") auto
    have i: "con_core (stage_of \<circ> c) (sys s)" "con_typed (sys s)" "busy (add_mset h (pending_ms s)) (sys s)"
      "con_shown (outs \<circ> c0) (outs \<circ> c) (display (dev (sys s)))"
      using assms(1) by (simp_all add: con_inv_def)
    let ?x = "(sys s)\<lparr>dev := (dev (sys s))\<lparr>keyboard := cs, incoming := ch\<rparr>, val := (val (sys s))(readAvail := val (sys s) readAvail + 1)\<rparr>"
    define s2 where "s2 = s1\<lparr>sys := ?x, stats := (stats s1)\<lparr>numConsoleCharsRead := numConsoleCharsRead (stats s1) + 1\<rparr>\<rparr>"
    have "con_run fx h s = Inr s2"
      using s1(1,3) k by (simp add: ConsoleReadPoll CheckCharAvail_def upd_dev_def upd_sys_def sc_ReadAvail_def sem_V_def s2_def Let_def)
    moreover have "con_inv c0 c (pending_ms s2) (sys s2)"
      using i core_arrives [OF i(1) k(1)] k s1(2) by (auto simp add: s2_def con_inv_def con_typed_def busy_def)
    moreover have "clock_room fx s2" using s1(4) by (simp add: s2_def clock_room_def)
    ultimately show ?thesis by blast
  qed
next
  case ConsoleWriteDone
  have i: "con_core (stage_of \<circ> c) (sys s)" "con_typed (sys s)" "putBusy (dev (sys s))" "pending_ms s = {#ConsoleReadPoll#}"
      "con_shown (outs \<circ> c0) (outs \<circ> c) (display (dev (sys s)))"
    using assms(1) by (simp_all add: con_inv_def ConsoleWriteDone busy_done)
  let ?x = "(sys s)\<lparr>dev := (dev (sys s))\<lparr>putBusy := False\<rparr>, val := (val (sys s))(writeDone := val (sys s) writeDone + 1)\<rparr>"
  define s2 where "s2 = s\<lparr>sys := ?x, stats := (stats s)\<lparr>numConsoleCharsWritten := numConsoleCharsWritten (stats s) + 1\<rparr>\<rparr>"
  have "con_run fx h s = Inr s2"
    by (simp add: ConsoleWriteDone WriteDone_def upd_dev_def upd_sys_def sc_WriteDone_def sem_V_def s2_def Let_def)
  moreover have "con_inv c0 c (pending_ms s2) (sys s2)"
    using i core_written [OF i(1,3)] by (auto simp add: s2_def con_inv_def con_typed_def busy_def)
  moreover have "clock_room fx s2" using assms(2) by (simp add: s2_def clock_room_def)
  ultimately show ?thesis by blast
qed

subsection \<open>The code\<close>

lemma stage_cases:
  assumes "stage_of (a # as) = Some p"
  obtains (lockw) "a = Acquire writeLock" "p = Free" "stage_of as = Some WHeld"
  | (lockr) "a = Acquire readLock" "p = Free" "stage_of as = Some RHeld"
  | (unlockw) "a = Release writeLock" "p = WDone" "stage_of as = Some Free"
  | (unlockr) "a = Release readLock" "p = RDone" "stage_of as = Some Free"
  | (waitw) "a = P writeDone" "p = WBusy" "stage_of as = Some WDone"
  | (waitr) "a = P readAvail" "p = RHeld" "stage_of as = Some RGot"
  | (put) ch where "a = Do (DevPutChar ch)" "p = WHeld" "stage_of as = Some WBusy"
  | (got) "a = Do DevGetChar" "p = RGot" "stage_of as = Some RDone"
  using assms by (cases "a # as" rule: stage_of.cases) (auto simp add: after_def split: if_splits)

lemma con_typed_upd:
  "con_typed (x\<lparr>owner := h\<rparr>) = con_typed x" "con_typed (x\<lparr>val := v\<rparr>) = con_typed x"
  "con_typed (x\<lparr>dev := (dev x)\<lparr>display := ds, putBusy := b\<rparr>\<rparr>) = con_typed x"
  by (simp_all add: con_typed_def)

lemma con_stmt_ok:
  assumes "con_inv c0 c (pending_ms s) (sys s)" and "clock_room fx s" and "c t = a # as"
  shows "exec_stmt (con_exec fx) a t s = None \<or>
    (\<exists>s'. exec_stmt (con_exec fx) a t s = Some (Inr s') \<and> con_inv c0 (c(t := as)) (pending_ms s') (sys s') \<and> clock_room fx s')"
proof -
  have i: "con_core (stage_of \<circ> c) (sys s)" "busy (pending_ms s) (sys s)" "con_typed (sys s)"
      "con_shown (outs \<circ> c0) (outs \<circ> c) (display (dev (sys s)))"
    using assms(1) by (simp_all add: con_inv_def)
  obtain p where p: "stage_of (a # as) = Some p" using i(1) assms(3) unfolding con_core_def comp_def by (metis not_Some_eq)
  then have st: "(stage_of \<circ> c) t = Some p" using assms(3) by simp
  have o: "con_shown (outs \<circ> c0) ((outs \<circ> c)(t := outs as)) (display (dev (sys s)))" if "outs (a # as) = outs as"
    using i(4) that assms(3) by (simp add: fun_upd_idem)
  note up = con_inv_upd [of as _ c t _ _ c0]
  show ?thesis
  proof (cases rule: stage_cases [OF p])
    case 1
    then show ?thesis using i up [OF _ core_acquire(1) [OF i(1), of t]] core_free [OF i(1), of t] st o assms(2)
      by (cases "owner (sys s) writeLock") (simp_all add: busy_def con_typed_upd)
  next
    case 2
    then show ?thesis using i up [OF _ core_acquire(2) [OF i(1), of t]] core_free [OF i(1), of t] st o assms(2)
      by (cases "owner (sys s) readLock") (simp_all add: busy_def con_typed_upd)
  next
    case 3
    then show ?thesis using i up [OF _ core_release(1) [OF i(1), of t, THEN conjunct2]] core_release(1) [OF i(1), of t] st o assms(2)
      by (auto simp add: busy_def con_typed_upd)
  next
    case 4
    then show ?thesis using i up [OF _ core_release(2) [OF i(1), of t, THEN conjunct2]] core_release(2) [OF i(1), of t] st o assms(2)
      by (auto simp add: busy_def con_typed_upd)
  next
    case 5
    then show ?thesis using i up [OF _ core_wait(1) [OF i(1), of t]] st o assms(2)
      by (cases "0 < val (sys s) writeDone") (simp_all add: busy_def con_typed_upd)
  next
    case 6
    then show ?thesis using i up [OF _ core_wait(2) [OF i(1), of t]] st o assms(2)
      by (cases "0 < val (sys s) readAvail") (simp_all add: busy_def con_typed_upd)
  next
    case (7 ch)
    obtain s1 where s1: "Schedule fx ConsoleWriteDone CONSOLE_TIME CONSOLE_WRITE_INT
        (upd_dev (\<lambda>d. d\<lparr>display := display d @ [ch], putBusy := True\<rparr>) s) = Inr s1"
      "pending_ms s1 = add_mset ConsoleWriteDone (pending_ms s)"
      "sys s1 = (sys s)\<lparr>dev := (dev (sys s))\<lparr>display := display (dev (sys s)) @ [ch], putBusy := True\<rparr>\<rparr>" "clock_room fx s1"
      by (rule Schedule_device [of fx "upd_dev (\<lambda>d. d\<lparr>display := display d @ [ch], putBusy := True\<rparr>) s" CONSOLE_TIME])
        (auto simp add: CONSOLE_TIME_def upd_dev_def assms(2))
    have sh: "con_shown (outs \<circ> c0) ((outs \<circ> c)(t := outs as)) (display (dev (sys s)) @ [ch])"
      using assms(3) 7 by (intro con_shown_write [OF i(4)]) simp
    show ?thesis
      using core_put [OF i(1), of t] st i s1 up [OF 7(3) core_put(2) [OF i(1)]] sh 7
      by (simp add: PutChar_def busy_def con_typed_upd add_mset_commute)
  next
    case 8
    then show ?thesis using i st up [OF _ core_get [OF i(1), of t]] o assms(2)
      by (auto simp add: GetChar_def busy_def con_typed_def upd_dev_def)
  qed
qed

interpretation synch_console: device_driver fx "con_run fx" "exec_stmt (con_exec fx)" types "con_inv c0" for fx c0
proof
  show "con_inv c0 c M y" if "con_inv c0 c M x" "types x y" for c M x y
    using that(2,1) by cases (auto simp add: con_inv_def con_core_def busy_def con_typed_def)
qed (rule con_handler_ok con_stmt_ok; assumption)+

text \<open>The console's handlers keep the contract of the interrupt controller.\<close>

lemma console_handlers_ok:
  "handlers_ok (con_run fx) Inr (\<lambda>s. pending_wf s \<and> ticks_room s \<and> clock_room fx s \<and> con_inv c0 c (pending_ms s) (sys s))"
proof (rule synch_console.driver_handlers_ok)
  show "pending_wf s' \<and> now s' = now s \<and> level s' = level s \<and> due s' = due s"
    if s: "pending_wf s" "ticks_room s" "con_run fx h s = Inr s'" for h s s'
  proof (cases h)
    case ConsoleReadPoll
    obtain s1 where s1: "Schedule fx ConsoleReadPoll CONSOLE_TIME CONSOLE_READ_INT s = Inr s1"
      using s(3) by (auto simp add: ConsoleReadPoll CheckCharAvail_def res_simps)
    note l = Schedule_leaves [OF s1 s(1,2)]
    show ?thesis using s(3) s1 l
      by (auto simp add: ConsoleReadPoll CheckCharAvail_def CONSOLE_TIME_def sc_ReadAvail_def sem_V_def count_leaves Let_def split: if_splits list.splits)
  next
    case ConsoleWriteDone
    then show ?thesis using s by (auto simp add: WriteDone_def sc_WriteDone_def sem_V_def count_leaves Let_def)
  qed
qed

interpretation console_due: due_handlers "con_run fx" Inr "\<lambda>s. pending_wf s \<and> ticks_room s \<and> clock_room fx s \<and> con_inv c0 c (pending_ms s) (sys s)"
  for fx c0 c
  by unfold_locales (rule console_handlers_ok)

section \<open>Properties\<close>

text \<open>The start of a run: a new synchronous console, and threads whose code consists of calls of its two
  operations.\<close>

fun call_code :: "u8 option list \<Rightarrow> con_op stmt list" where
  "call_code [] = []"
| "call_code (Some ch # cs) = putChar ch @ call_code cs"
| "call_code (None # cs) = getChar @ call_code cs"

definition con_start :: "bool \<Rightarrow> (nat \<Rightarrow> u8 option list) \<Rightarrow> con_driver \<Rightarrow> bool" where
  "con_start fx calls c \<longleftrightarrow> SynchConsole_new fx None None con_init = Inr (ist c) \<and> todo c = call_code \<circ> calls"

lemma stage_call_code: "stage_of (call_code cs) = Some Free"
  by (induction cs rule: call_code.induct) (simp_all add: putChar_def getChar_def con_locks after_def)

lemma outs_call_code: "outs (call_code cs) = List.map_filter id cs"
  by (induction cs rule: call_code.induct) (simp_all add: putChar_def getChar_def List.map_filter_simps)

lemma SynchConsole_new_ok:
  obtains s where "SynchConsole_new fx None None con_init = Inr s" and "pending_ms s = {#ConsoleReadPoll#}"
    and "sys s = sys con_init" and "clock_room fx s"
proof -
  let ?s = "upd_dev (\<lambda>d. d\<lparr>readFileNo := 0, writeFileNo := 1, putBusy := False, incoming := EOF\<rparr>)
    (upd_sys (\<lambda>x. x\<lparr>owner := (owner x)(readLock := None, writeLock := None)\<rparr>) con_init)"
  have r: "clock_room fx ?s" by (simp add: upd_dev_def upd_sys_def con_init_def Interrupt_new_def Statistics_new_def clock_room_def)
  have y: "sys ?s = sys con_init" "pending_ms ?s = {#}"
    by (simp_all add: upd_dev_def upd_sys_def con_init_def Interrupt_new_def fun_upd_idem pending_ms_def)
  obtain s1 where s1: "Schedule fx ConsoleReadPoll CONSOLE_TIME CONSOLE_READ_INT ?s = Inr s1"
    "pending_ms s1 = {#ConsoleReadPoll#}" "sys s1 = sys con_init" "clock_room fx s1"
    by (rule Schedule_device [OF r, where d = CONSOLE_TIME and h = ConsoleReadPoll and k = CONSOLE_READ_INT])
      (simp_all add: CONSOLE_TIME_def y)
  have "SynchConsole_new fx None None con_init = Inr (upd_sys (\<lambda>x. x\<lparr>val := (val x)(readAvail := 0, writeDone := 0)\<rparr>) s1)"
    using s1(1) by (simp add: SynchConsole_new_def Console_new_def)
  then show thesis
    by (rule that) (use s1 in \<open>simp_all add: con_init_def Interrupt_new_def fun_upd_idem\<close>)
qed

lemma con_start_inv:
  assumes "con_start fx calls c"
  shows "driver_inv fx (con_inv (call_code \<circ> calls)) c" and "sys (ist c) = sys con_init" and "clock_room fx (ist c)"
proof -
  obtain s where s: "SynchConsole_new fx None None con_init = Inr s" "pending_ms s = {#ConsoleReadPoll#}"
    "sys s = sys con_init" "clock_room fx s" by (rule SynchConsole_new_ok)
  have c: "ist c = s" "todo c = call_code \<circ> calls" using assms s(1) by (simp_all add: con_start_def)
  then show "driver_inv fx (con_inv (call_code \<circ> calls)) c" using s
    by (simp add: driver_inv_def con_inv_def con_core_def busy_def con_typed_def con_shown_def lock_at_def held_def
        con_init_def Interrupt_new_def comp_def stage_call_code)
  show "sys (ist c) = sys con_init" "clock_room fx (ist c)" using c s by simp_all
qed

subsection \<open>A concrete run\<close>

definition demo_calls :: "nat \<Rightarrow> u8 option list" where
  "demo_calls t = (if t = 0 then [Some 104, None] else [])"

text \<open>The user types a character, and the first thread takes the write lock and writes one.\<close>

lemma demo_con_run:
  obtains c c' where "con_start False demo_calls c" and "(con_step False)\<^sup>*\<^sup>* c c'"
    and "display (dev (sys (ist c'))) = [104]" and "typed (dev (sys (ist c'))) = [97]"
proof -
  obtain s where s: "SynchConsole_new False None None con_init = Inr s" "sys s = sys con_init" "clock_room False s"
    by (rule SynchConsole_new_ok)
  let ?c = "\<lparr>todo = call_code \<circ> demo_calls, ist = s\<rparr>"
  have c: "con_start False demo_calls ?c" using s(1) by (simp add: con_start_def)
  define x where "x = sys con_init"
  define x1 where "x1 = x\<lparr>dev := (dev x)\<lparr>keyboard := keyboard (dev x) @ [97], typed := typed (dev x) @ [97]\<rparr>\<rparr>"
  let ?c1 = "\<lparr>todo = call_code \<circ> demo_calls, ist = s\<lparr>sys := x1\<rparr>\<rparr>"
  have "types x x1" unfolding x1_def by (rule types.intros)
  then have r1: "con_step False ?c ?c1"
    using driver_step.world [of types ?c x1 False "con_run False" "exec_stmt (con_exec False)"] s(2) by (simp add: con_step_def x_def)
  define x2 where "x2 = x1\<lparr>owner := (owner x1)(writeLock := Some 0)\<rparr>"
  let ?as = "Do (DevPutChar 104) # [P writeDone, Release writeLock] @ getChar"
  let ?c2 = "\<lparr>todo = (call_code \<circ> demo_calls)(0 := ?as), ist = s\<lparr>sys := x2\<rparr>\<rparr>"
  have r2: "con_step False ?c1 ?c2"
    using driver_step.stmt [of ?c1 0 "Acquire writeLock" ?as "exec_stmt (con_exec False)" "s\<lparr>sys := x2\<rparr>" False "con_run False" types]
    by (simp add: con_step_def demo_calls_def putChar_def x2_def x1_def x_def con_init_def Interrupt_new_def upd_sys_def)
  let ?s3 = "upd_dev (\<lambda>d. d\<lparr>display := display d @ [104], putBusy := True\<rparr>) (s\<lparr>sys := x2\<rparr>)"
  have r: "clock_room False ?s3" using s(3) by (simp add: upd_dev_def)
  obtain s3 where s3: "Schedule False ConsoleWriteDone CONSOLE_TIME CONSOLE_WRITE_INT ?s3 = Inr s3" "sys s3 = sys ?s3"
    by (rule Schedule_device [OF r, where d = CONSOLE_TIME and h = ConsoleWriteDone and k = CONSOLE_WRITE_INT]) (simp_all add: CONSOLE_TIME_def)
  let ?c3 = "\<lparr>todo = (call_code \<circ> demo_calls)(0 := tl ?as), ist = s3\<rparr>"
  have r3: "con_step False ?c2 ?c3"
    using driver_step.stmt [of ?c2 0 "Do (DevPutChar 104)" "tl ?as" "exec_stmt (con_exec False)" s3 False "con_run False" types] s3(1)
    by (simp add: con_step_def PutChar_def x2_def x1_def x_def con_init_def Interrupt_new_def)
  have "(con_step False)\<^sup>*\<^sup>* ?c ?c3" using r1 r2 r3 by (meson rtranclp.rtrancl_into_rtrancl rtranclp.rtrancl_refl)
  with c show thesis
    by (rule that) (use s3(2) in \<open>simp_all add: upd_dev_def x2_def x1_def x_def con_init_def Interrupt_new_def\<close>)
qed

text \<open>C22: The synchronous console is safe. However the calls of any number of threads interleave with each
  other and with the interrupts of the device, no assertion fails: the device is never given a character while
  it is busy with another, no lock is taken twice or released by a thread that does not hold it, and
  every handler can schedule its interrupt.\<close>

theorem SynchConsole_safe:
  assumes "con_start fx calls c" and "(con_step fx)\<^sup>*\<^sup>* c c'"
  shows "driver_safe (con_run fx) (exec_stmt (con_exec fx)) c'"
  by (rule synch_console.driver_inv_safe)
    (rule synch_console.runs.run_inv [OF assms(2) [unfolded con_step_def] con_start_inv(1) [OF assms(1)]])

theorem SynchConsole_safe_witness:
  "\<exists>c c'. con_start False demo_calls c \<and> (con_step False)\<^sup>*\<^sup>* c c' \<and> display (dev (sys (ist c'))) = [104] \<and>
     driver_safe (con_run False) (exec_stmt (con_exec False)) c'"
  by (rule demo_con_run) (blast intro: SynchConsole_safe)

text \<open>C14: The console delivers characters in order. Whatever bytes are typed, at every moment the characters that \<open>getChar\<close> has
  returned, the one in the device's buffer and those still on the keyboard are, but for the byte 0xFF, exactly the ones typed, in their
  order: none is lost, none comes twice, and none is invented. The byte 0xFF is the device's mark \<open>EOF\<close> for an empty buffer:
  it is not returned more often than it was typed, but may come late. When it has not been typed, what \<open>getChar\<close> has
  returned is a beginning of what was typed. The display shows an interleaving of what the threads have written, in which each
  thread's characters stand in the order of its own calls.\<close>

theorem SynchConsole_in_order:
  assumes "con_start fx calls c" and "(con_step fx)\<^sup>*\<^sup>* c c'"
  defines "x \<equiv> sys (ist c')"
  shows "real_chars (typed (dev x)) = real_chars (map snd (returned x) @ incoming (dev x) # keyboard (dev x)) \<and>
     count_list (map snd (returned x) @ keyboard (dev x)) EOF \<le> count_list (typed (dev x)) EOF \<and>
     (EOF \<notin> set (typed (dev x)) \<longrightarrow> (\<exists>left. typed (dev x) = map snd (returned x) @ left)) \<and>
     (\<exists>log. map snd log = display (dev x) \<and>
       (\<forall>t. map snd (filter (\<lambda>e. fst e = t) log) @ outs (todo c' t) = List.map_filter id (calls t)))"
proof -
  have "driver_inv fx (con_inv (call_code \<circ> calls)) c'"
    by (rule synch_console.runs.run_inv [OF assms(2) [unfolded con_step_def] con_start_inv(1) [OF assms(1)]])
  then have t: "con_typed x" and s: "con_shown (outs \<circ> (call_code \<circ> calls)) (outs \<circ> todo c') (display (dev x))"
    and c: "con_core (stage_of \<circ> todo c') x" by (simp_all add: driver_inv_def con_inv_def x_def)
  let ?given = "map snd (returned x) @ keyboard (dev x)" and ?g = "of_bool (held RGot (stage_of \<circ> todo c')) :: nat"
  have "length (typed (dev x)) = val x readAvail + ?g + length ?given" and "of_bool (incoming (dev x) \<noteq> EOF) \<le> val x readAvail + ?g"
    using c by (auto simp add: con_core_def)
  moreover have "length (real_chars (typed (dev x))) = length (real_chars ?given) + of_bool (incoming (dev x) \<noteq> EOF)"
    using t by (simp add: con_typed_def)
  ultimately have n: "count_list ?given EOF \<le> count_list (typed (dev x)) EOF"
    using real_chars_count [of "typed (dev x)"] real_chars_count [of ?given] by linarith
  have p: "\<exists>left. typed (dev x) = map snd (returned x) @ left" if "EOF \<notin> set (typed (dev x))"
  proof -
    have all: "real_chars xs = xs" if "EOF \<notin> set xs" for xs using that by (auto simp add: real_chars_def intro: filter_True)
    have "count_list ?given EOF = 0" using n that by (simp add: count_list_0_iff)
    then have "EOF \<notin> set ?given" unfolding count_list_0_iff .
    with t all [OF that] all [of ?given] show ?thesis
      by (intro exI [of _ "real_chars [incoming (dev x)] @ keyboard (dev x)"]) (simp add: con_typed_def all)
  qed
  from s obtain log where "map snd log = display (dev x)"
    "\<And>t. map snd (filter (\<lambda>e. fst e = t) log) @ outs (todo c' t) = List.map_filter id (calls t)"
    unfolding con_shown_def comp_def outs_call_code by blast
  with t n p show ?thesis unfolding con_typed_def by metis
qed

theorem SynchConsole_in_order_witness:
  "\<exists>(c' :: con_driver) left log. typed (dev (sys (ist c'))) = [97] \<and> [97] = map snd (returned (sys (ist c'))) @ left \<and>
     map snd log = [104] \<and> (\<forall>t. map snd (filter (\<lambda>e. fst e = t) log) @ outs (todo c' t) = List.map_filter id (demo_calls t))"
proof -
  obtain c c' where c: "con_start False demo_calls c" "(con_step False)\<^sup>*\<^sup>* c c'"
    "display (dev (sys (ist c'))) = [104]" "typed (dev (sys (ist c'))) = [97]" by (rule demo_con_run)
  have e: "EOF \<notin> set [97]" by (simp add: EOF_def)
  note r = SynchConsole_in_order [OF c(1,2), unfolded c(3,4), THEN conjunct2, THEN conjunct2]
  from r [THEN conjunct1, THEN mp, OF e] obtain left where "[97] = map snd (returned (sys (ist c'))) @ left" by blast
  moreover from r [THEN conjunct2] obtain log where "map snd log = [104]"
    "\<forall>t. map snd (filter (\<lambda>e. fst e = t) log) @ outs (todo c' t) = List.map_filter id (demo_calls t)" by (elim exE conjE) (rule that; assumption)
  ultimately show ?thesis using c(4) by (intro exI [of _ c'] exI [of _ left] exI [of _ log] conjI) simp_all
qed

end
