(* ===== verification/Lib_Table.thy ===== *)
theory Lib_Table
  imports Lib_List
begin

text \<open>
  \<open>lib/table.hh\<close>: the fixed-size table that numbers threads (\<open>threads\<close>) and open files
  (\<open>openedFiles\<close>). Free slots below \<open>current\<close> are kept, sorted, in \<open>freed\<close>. The abstract view
  is the partial map \<open>tbl_map\<close> from indices to items. \<open>T0\<close> stands for \<open>T()\<close>, the null
  pointer at both uses of the class.
\<close>

section \<open>Data and operations\<close>

definition SIZE :: nat where
  "SIZE = 20"

record 'a table =
  data :: "'a list"
  current :: int
  freed :: "int nlist"

definition Table_new :: "'a list \<Rightarrow> 'a table" where
  "Table_new junk = \<lparr>data = junk, current = 0, freed = List_new\<rparr>"

definition Table_Add :: "'a table \<Rightarrow> 'a \<Rightarrow> (int \<times> 'a table) res" where
  "Table_Add t item =
     (if \<not> List_IsEmpty (freed t)
      then (case List_Pop (freed t) of (r, fr) \<Rightarrow>
              (case r of
                 None \<Rightarrow> Inl NullDeref
               | Some i \<Rightarrow> bindR (aset (data t) (nat i) item) (\<lambda>d.
                             Inr (i, t\<lparr>data := d, freed := fr\<rparr>))))
      else if current t < int SIZE
      then bindR (aset (data t) (nat (current t)) item) (\<lambda>d.
             Inr (current t, t\<lparr>data := d, current := current t + 1\<rparr>))
      else Inr (-1, t))"

definition Table_HasKey :: "'a table \<Rightarrow> int \<Rightarrow> bool res" where
  "Table_HasKey t i = ASSERT (i \<ge> 0) (Inr (i < current t \<and> \<not> List_Has (freed t) i))"

definition Table_Get :: "'a \<Rightarrow> 'a table \<Rightarrow> int \<Rightarrow> 'a res" where
  "Table_Get T0 t i =
     ASSERT (i \<ge> 0)
       (bindR (Table_HasKey t i) (\<lambda>has. if has then aget (data t) (nat i) else Inr T0))"

definition Table_IsEmpty :: "'a table \<Rightarrow> bool" where
  "Table_IsEmpty t \<longleftrightarrow> current t = 0"

text \<open>
  The loop of \<open>Remove\<close>. Its counter \<open>j\<close> is also the variable \<open>SortedPop\<close> stores the popped key
  into, so after the pop it holds the smallest freed index, not the one that was tested.
\<close>

lemma length_SortedPop:
  "List_Has l x \<Longrightarrow> length (elems (snd (List_SortedPop l))) < length (elems l)"
  by (cases "elems l") (simp_all add: List_SortedPop_def List_Has_def)

function Table_Remove_loop :: "'a table \<Rightarrow> int \<Rightarrow> 'a table res" where
  "Table_Remove_loop t j =
     (if j \<ge> 0 then
        (if current t \<le> j \<or> List_Has (freed t) j then
           (if List_Has (freed t) j then
              (let j' = (case fst (List_SortedPop (freed t)) of None \<Rightarrow> j | Some e \<Rightarrow> fst e) in
               Table_Remove_loop
                 (t\<lparr>freed := snd (List_SortedPop (freed t)), current := current t - 1\<rparr>) (j' - 1))
            else Inl AssertFail)
         else Inr t)
      else Inr t)"
  by pat_completeness auto
termination
  by (relation "measure (\<lambda>(t, j). length (elems (freed t)))") (auto simp add: length_SortedPop)

declare Table_Remove_loop.simps [simp del]

definition Table_Remove :: "'a \<Rightarrow> 'a table \<Rightarrow> int \<Rightarrow> ('a \<times> 'a table) res" where
  "Table_Remove T0 t i =
     ASSERT (i \<ge> 0)
       (bindR (Table_HasKey t i) (\<lambda>has.
          if \<not> has then Inr (T0, t)
          else bindR (if i = current t - 1
                      then Table_Remove_loop (t\<lparr>current := current t - 1\<rparr>) (current t - 2)
                      else Inr (t\<lparr>freed := List_SortedInsert (freed t) i i\<rparr>)) (\<lambda>t'.
               bindR (aget (data t') (nat i)) (\<lambda>x. Inr (x, t')))))"

definition Table_Update :: "'a table \<Rightarrow> int \<Rightarrow> 'a \<Rightarrow> ('a \<times> 'a table) res" where
  "Table_Update t i item =
     ASSERT (i \<ge> 0) (ASSERT (i < current t) (ASSERT (\<not> List_Has (freed t) i)
       (bindR (aget (data t) (nat i)) (\<lambda>previous.
        bindR (aset (data t) (nat i) item) (\<lambda>d. Inr (previous, t\<lparr>data := d\<rparr>))))))"

definition Table_getSize :: "'a table \<Rightarrow> int" where
  "Table_getSize t = current t - List_GetSize (freed t)"

fun Table_getValues_loop :: "'a table \<Rightarrow> nat list \<Rightarrow> 'a nlist \<Rightarrow> 'a nlist res" where
  "Table_getValues_loop t [] values = Inr values"
| "Table_getValues_loop t (i # is) values =
     (if \<not> List_Has (freed t) (int i)
      then bindR (aget (data t) i) (\<lambda>x. Table_getValues_loop t is (List_Append values x))
      else Table_getValues_loop t is values)"

definition Table_getValues :: "'a table \<Rightarrow> 'a nlist res" where
  "Table_getValues t = Table_getValues_loop t [0..<nat (current t)] List_new"

section \<open>Invariant and abstraction\<close>

definition free_set :: "'a table \<Rightarrow> int set" where
  "free_set t = set (items (freed t))"

definition table_inv :: "'a table \<Rightarrow> bool" where
  "table_inv t \<longleftrightarrow> length (data t) = SIZE \<and> 0 \<le> current t \<and> current t \<le> int SIZE
     \<and> (\<forall>e\<in>set (elems (freed t)). fst e = snd e) \<and> sorted (items (freed t))
     \<and> distinct (items (freed t)) \<and> (\<forall>i\<in>free_set t. 0 \<le> i \<and> i < current t)"

definition tbl_map :: "'a table \<Rightarrow> int \<rightharpoonup> 'a" where
  "tbl_map t i = (if 0 \<le> i \<and> i < current t \<and> i \<notin> free_set t
     then Some (data t ! nat i) else None)"

lemma keys_eq_items: "\<forall>e\<in>set (elems l). fst e = snd e \<Longrightarrow> keys l = items l"
  by (simp add: keys_def items_def)

lemma Has_free_set: "List_Has (freed t) i \<longleftrightarrow> i \<in> free_set t"
  by (simp add: Has_iff free_set_def)

lemma Table_HasKey_iff: "0 \<le> i \<Longrightarrow> Table_HasKey t i = Inr (tbl_map t i \<noteq> None)"
  by (simp add: Table_HasKey_def tbl_map_def Has_free_set)

lemma Table_Get_eq:
  "table_inv t \<Longrightarrow> 0 \<le> i \<Longrightarrow>
   Table_Get T0 t i = Inr (case tbl_map t i of None \<Rightarrow> T0 | Some x \<Rightarrow> x)"
  by (auto simp add: Table_Get_def Table_HasKey_iff tbl_map_def table_inv_def)

lemma table_inv_new: "length junk = SIZE \<Longrightarrow> table_inv (Table_new junk)"
  by (simp add: table_inv_def Table_new_def free_set_def List_new_def items_def)

lemma tbl_map_new: "tbl_map (Table_new junk) = Map.empty"
  by (rule ext) (simp add: tbl_map_def Table_new_def)

lemma free_set_bounds: "table_inv t \<Longrightarrow> i \<in> free_set t \<Longrightarrow> 0 \<le> i \<and> i < current t"
  by (simp add: table_inv_def)

text \<open>\<open>Add\<close> stores the item under an index that had none, and fails only when full.\<close>

lemma Table_Add_ok:
  assumes inv: "table_inv t" and room: "free_set t \<noteq> {} \<or> current t < int SIZE"
  shows "\<exists>i t'. Table_Add t x = Inr (i, t') \<and> table_inv t' \<and> 0 \<le> i \<and> i < int SIZE
    \<and> tbl_map t i = None \<and> tbl_map t' = (tbl_map t)(i \<mapsto> x)"
proof (cases "elems (freed t)")
  case Nil
  then have fs: "free_set t = {}" by (simp add: free_set_def items_def)
  then have c: "current t < int SIZE" using room by simp
  let ?t = "t\<lparr>data := (data t)[nat (current t) := x], current := current t + 1\<rparr>"
  have "Table_Add t x = Inr (current t, ?t)"
    using inv c Nil
    by (simp add: Table_Add_def List_IsEmpty_def table_inv_def aset_def nat_less_iff)
  moreover have "table_inv ?t" using inv c fs Nil
    by (auto simp add: table_inv_def free_set_def)
  moreover have "tbl_map ?t = (tbl_map t)(current t \<mapsto> x)"
  proof (rule ext)
    fix i
    show "tbl_map ?t i = ((tbl_map t)(current t \<mapsto> x)) i"
      using inv c fs by (auto simp add: tbl_map_def table_inv_def free_set_def nth_list_update nat_eq_iff)
  qed
  ultimately show ?thesis using inv c by (auto simp add: tbl_map_def table_inv_def)
next
  case (Cons e es)
  then have k: "fst e = snd e" and b: "0 \<le> snd e" "snd e < current t"
    using inv by (auto simp add: table_inv_def free_set_def items_def)
  let ?t = "t\<lparr>data := (data t)[nat (snd e) := x], freed := \<lparr>elems = es, nsize = nsize (freed t) - 1\<rparr>\<rparr>"
  have "Table_Add t x = Inr (snd e, ?t)"
    using inv b Cons
    by (simp add: Table_Add_def List_IsEmpty_def table_inv_def List_Pop_def List_SortedPop_def
        aset_def nat_less_iff)
  moreover have "table_inv ?t" using inv Cons
    by (auto simp add: table_inv_def free_set_def items_def)
  moreover have "tbl_map ?t = (tbl_map t)(snd e \<mapsto> x)"
  proof (rule ext)
    fix i
    show "tbl_map ?t i = ((tbl_map t)(snd e \<mapsto> x)) i"
      using inv b Cons
      by (auto simp add: tbl_map_def table_inv_def free_set_def items_def nth_list_update nat_eq_iff)
  qed
  moreover have "tbl_map t (snd e) = None" using Cons by (simp add: tbl_map_def free_set_def items_def)
  ultimately show ?thesis using b inv by (auto simp add: table_inv_def)
qed

lemma Table_Add_full:
  "free_set t = {} \<Longrightarrow> current t = int SIZE \<Longrightarrow> Table_Add t x = Inr (-1, t)"
  by (simp add: Table_Add_def IsEmpty_iff free_set_def)

section \<open>Remove\<close>

text \<open>
  The slot is given back correctly when it is not the topmost one, when the slot below the
  topmost one is occupied, or when that slot is the only freed one.
\<close>

definition remove_safe :: "'a table \<Rightarrow> int \<Rightarrow> bool" where
  "remove_safe t i \<longleftrightarrow> i \<noteq> current t - 1 \<or> current t - 2 \<notin> free_set t
     \<or> free_set t = {current t - 2}"

lemma Table_Remove_below_top:
  assumes inv: "table_inv t" and x: "tbl_map t i = Some x" and i: "i \<noteq> current t - 1"
  shows "\<exists>t'. Table_Remove T0 t i = Inr (x, t') \<and> table_inv t' \<and> tbl_map t' = (tbl_map t)(i := None)"
proof -
  let ?t = "t\<lparr>freed := List_SortedInsert (freed t) i i\<rparr>"
  have b: "0 \<le> i" "i < current t" "i \<notin> free_set t" "x = data t ! nat i"
    using x by (auto simp add: tbl_map_def split: if_splits)
  have fs: "free_set ?t = insert i (free_set t)"
    by (simp add: free_set_def items_def set_elems_SortedInsert)
  have ks: "\<forall>e\<in>set (elems (freed ?t)). fst e = snd e"
    using inv by (auto simp add: set_elems_SortedInsert table_inv_def)
  have so: "key_sorted (freed t)" using inv by (simp add: key_sorted_def keys_eq_items table_inv_def)
  have "sorted (items (freed ?t))"
    using SortedInsert_sorted [OF so, of i i] ks by (simp add: key_sorted_def keys_eq_items)
  moreover have "distinct (items (freed ?t))"
  proof (rule card_distinct)
    have "card (set (items (freed t))) = length (items (freed t))"
      using inv by (simp add: table_inv_def distinct_card)
    then show "card (set (items (freed ?t))) = length (items (freed ?t))"
      using fs b(3) by (simp add: free_set_def) (simp add: items_def length_elems_SortedInsert)
  qed
  ultimately have "table_inv ?t" using inv fs ks b unfolding table_inv_def by auto
  moreover have "tbl_map ?t = (tbl_map t)(i := None)"
    by (rule ext) (auto simp add: tbl_map_def fs)
  moreover have "nat i < length (data t)" using inv b by (simp add: table_inv_def nat_less_iff)
  then have "Table_Remove T0 t i = Inr (x, ?t)"
    using b i x by (simp add: Table_Remove_def Table_HasKey_iff)
  ultimately show ?thesis by blast
qed

lemma Table_Remove_loop_stop:
  "0 \<le> j \<Longrightarrow> j < current t \<Longrightarrow> j \<notin> free_set t \<Longrightarrow> Table_Remove_loop t j = Inr t"
  "j < 0 \<Longrightarrow> Table_Remove_loop t j = Inr t"
  by (simp_all add: Table_Remove_loop.simps [of t] Has_free_set)

text \<open>When the loop runs, its first iteration pops the smallest freed index and ends it.\<close>

lemma Table_Remove_loop_pop:
  assumes inv: "table_inv t" and es: "elems (freed t) = e # es" and j: "j \<in> free_set t"
    and c: "current t = j + 2"
  shows "Table_Remove_loop (t\<lparr>current := current t - 1\<rparr>) j
       = Inr (t\<lparr>freed := \<lparr>elems = es, nsize = nsize (freed t) - 1\<rparr>, current := j\<rparr>)"
proof -
  let ?t' = "t\<lparr>freed := \<lparr>elems = es, nsize = nsize (freed t) - 1\<rparr>, current := j\<rparr>"
  have k: "fst e = snd e" and all: "\<forall>i\<in>free_set t. snd e \<le> i" and j0: "0 \<le> j"
    using inv j es by (auto simp add: table_inv_def free_set_def items_def)
  have d: "distinct (items (freed t))" using inv by (simp add: table_inv_def)
  have e: "snd e \<in> free_set t" "0 \<le> snd e" "snd e \<le> j"
    using inv j all es by (auto simp add: table_inv_def free_set_def items_def)
  have "Table_Remove_loop (t\<lparr>current := current t - 1\<rparr>) j = Table_Remove_loop ?t' (snd e - 1)"
    using j j0 k c by (simp add: Table_Remove_loop.simps [of _ j] Has_iff free_set_def es
        List_SortedPop_def Let_def)
  also have "\<dots> = Inr ?t'"
  proof (cases "snd e = 0")
    case False
    have "snd e - 1 \<notin> free_set ?t'" using all es by (force simp add: free_set_def items_def)
    then show ?thesis using False e by (intro Table_Remove_loop_stop) auto
  qed (simp add: Table_Remove_loop_stop)
  finally show ?thesis .
qed

lemma Table_Remove_top:
  assumes inv: "table_inv t" and x: "tbl_map t i = Some x" and i: "i = current t - 1"
  shows "Table_Remove T0 t i = Inr (x,
     if current t - 2 \<in> free_set t
     then t\<lparr>freed := \<lparr>elems = tl (elems (freed t)), nsize = nsize (freed t) - 1\<rparr>, current := current t - 2\<rparr>
     else t\<lparr>current := current t - 1\<rparr>)"
proof -
  have b: "0 \<le> i" "i < current t" "i \<notin> free_set t" "x = data t ! nat i"
    using x by (auto simp add: tbl_map_def split: if_splits)
  have n: "nat i < length (data t)" using inv b by (simp add: table_inv_def nat_less_iff)
  show ?thesis
  proof (cases "current t - 2 \<in> free_set t")
    case True
    then obtain e es where es: "elems (freed t) = e # es"
      by (cases "elems (freed t)") (auto simp add: free_set_def items_def)
    show ?thesis
      using Table_Remove_loop_pop [OF inv es True] True b i x n es
      by (simp add: Table_Remove_def Table_HasKey_iff)
  next
    case False
    have "Table_Remove_loop (t\<lparr>current := current t - 1\<rparr>) (current t - 2)
        = Inr (t\<lparr>current := current t - 1\<rparr>)"
      using False by (cases "0 \<le> current t - 2") (auto simp add: Table_Remove_loop_stop free_set_def)
    then show ?thesis using False b i x n by (simp add: Table_Remove_def Table_HasKey_iff)
  qed
qed

text \<open>Removing an entry from a table returns its item and makes its key, and only its key,
  absent, provided the slot is not the topmost one with the one below freed among others.\<close>

theorem Table_Remove_safe:
  assumes inv: "table_inv t" and x: "tbl_map t i = Some x" and safe: "remove_safe t i"
  shows "\<exists>t'. Table_Remove T0 t i = Inr (x, t') \<and> table_inv t' \<and> tbl_map t' = (tbl_map t)(i := None)"
proof (cases "i = current t - 1")
  case False
  with inv x show ?thesis by (rule Table_Remove_below_top)
next
  case top: True
  have b: "0 \<le> i" "i \<notin> free_set t" using x by (auto simp add: tbl_map_def split: if_splits)
  show ?thesis
  proof (cases "current t - 2 \<in> free_set t")
    case True
    then have fs: "free_set t = {current t - 2}" using safe top by (simp add: remove_safe_def)
    have "length (elems (freed t)) = 1"
      using inv fs distinct_card [of "items (freed t)"]
      by (simp add: table_inv_def free_set_def) (simp add: items_def)
    then have nil: "tl (elems (freed t)) = []" by (cases "elems (freed t)") auto
    let ?t = "t\<lparr>freed := \<lparr>elems = [], nsize = nsize (freed t) - 1\<rparr>, current := current t - 2\<rparr>"
    have "0 \<le> current t - 2" using True inv free_set_bounds by blast
    then have "table_inv ?t" using inv by (simp add: table_inv_def free_set_def items_def)
    moreover have "free_set ?t = {}" by (simp add: free_set_def items_def)
    then have "tbl_map ?t = (tbl_map t)(i := None)"
      by (intro ext) (auto simp add: tbl_map_def fs top)
    ultimately show ?thesis using Table_Remove_top [OF inv x top] True nil by simp
  next
    case False
    let ?t = "t\<lparr>current := current t - 1\<rparr>"
    have "k < current t - 1" if "k \<in> free_set t" for k
    proof -
      have "k \<noteq> current t - 1" using that b top by auto
      then show ?thesis using free_set_bounds [OF inv that] by linarith
    qed
    then have "table_inv ?t" using inv b top by (auto simp add: table_inv_def free_set_def)
    moreover have "tbl_map ?t = (tbl_map t)(i := None)"
      by (rule ext) (auto simp add: tbl_map_def top free_set_def)
    ultimately show ?thesis using Table_Remove_top [OF inv x top] False by simp
  qed
qed

text \<open>Otherwise a slot that had been freed becomes occupied again, by its old item.\<close>

text \<open>In the remaining case the removal corrupts the table: some slot that was freed before,
  and has no key, comes back to life with its stale contents, because the loop stores the popped
  key over its own counter and pops the smallest freed slot instead of the one it tested.\<close>

theorem Table_Remove_unsafe:
  assumes inv: "table_inv t" and x: "tbl_map t i = Some x" and unsafe: "\<not> remove_safe t i"
  shows "\<exists>t' k. Table_Remove T0 t i = Inr (x, t') \<and> k \<in> free_set t \<and> tbl_map t k = None
    \<and> tbl_map t' k = Some (data t ! nat k)"
proof -
  have top: "i = current t - 1" and c: "current t - 2 \<in> free_set t"
    and ne: "free_set t \<noteq> {current t - 2}"
    using unsafe by (auto simp add: remove_safe_def)
  obtain e es where es: "elems (freed t) = e # es"
    using c by (cases "elems (freed t)") (auto simp add: free_set_def items_def)
  have all: "\<forall>i\<in>free_set t. snd e \<le> i" and d: "snd e \<notin> snd ` set es"
    using inv es by (auto simp add: table_inv_def free_set_def items_def)
  have mem: "snd e \<in> free_set t" "0 \<le> snd e"
    using inv es by (auto simp add: table_inv_def free_set_def items_def)
  have i: "current t - 1 \<notin> free_set t" using x top by (auto simp add: tbl_map_def split: if_splits)
  have lt: "snd e < current t - 2"
  proof (rule ccontr)
    assume "\<not> snd e < current t - 2"
    then have "i' = current t - 2" if "i' \<in> free_set t" for i'
    proof -
      have "i' \<noteq> current t - 1" using i that by auto
      moreover have "snd e \<le> i'" "i' < current t" using all that free_set_bounds [OF inv that] by auto
      ultimately show ?thesis using \<open>\<not> snd e < current t - 2\<close> by linarith
    qed
    with c ne show False by blast
  qed
  let ?t = "t\<lparr>freed := \<lparr>elems = es, nsize = nsize (freed t) - 1\<rparr>, current := current t - 2\<rparr>"
  have "Table_Remove T0 t i = Inr (x, ?t)" using Table_Remove_top [OF inv x top] c es by simp
  moreover have "tbl_map ?t (snd e) = Some (data t ! nat (snd e))"
    using lt mem d by (auto simp add: tbl_map_def free_set_def items_def)
  moreover have "tbl_map t (snd e) = None" using mem by (simp add: tbl_map_def)
  ultimately show ?thesis using mem by blast
qed

lemma Table_getValues_loop_ok:
  "table_inv t \<Longrightarrow> \<forall>i\<in>set is. int i < current t \<Longrightarrow>
   \<exists>v. Table_getValues_loop t is acc = Inr v
     \<and> items v = items acc @ List.map_filter (\<lambda>i. tbl_map t (int i)) is"
proof (induction "is" arbitrary: acc)
  case Nil
  then show ?case by (simp add: List.map_filter_simps)
next
  case (Cons i "is")
  then have "i < length (data t)" by (auto simp add: table_inv_def)
  then show ?case
    using Cons.prems Cons.IH [of acc] Cons.IH [of "List_Append acc (data t ! i)"]
    by (cases "int i \<in> free_set t")
       (auto simp add: Has_free_set tbl_map_def List.map_filter_simps)
qed

text \<open>An added item is found under the key \<open>Add\<close> returned, which was absent before, and every
  other key keeps its meaning; with no room left \<open>Add\<close> returns -1 and changes nothing.\<close>

theorem Table_Add_Get:
  assumes "table_inv t" and "0 \<le> j"
  shows "if free_set t = {} \<and> current t = int SIZE then Table_Add t x = Inr (- 1, t)
     else \<exists>i t'. Table_Add t x = Inr (i, t') \<and> 0 \<le> i \<and> i < int SIZE \<and> table_inv t' \<and>
            Table_HasKey t i = Inr False \<and> Table_Get T0 t' j = (if j = i then Inr x else Table_Get T0 t j)"
proof (cases "free_set t = {} \<and> current t = int SIZE")
  case False
  with assms(1) have "free_set t \<noteq> {} \<or> current t < int SIZE" by (auto simp add: table_inv_def)
  from Table_Add_ok [OF assms(1) this] obtain i t' where
    "Table_Add t x = Inr (i, t')" "table_inv t'" "0 \<le> i" "i < int SIZE" "tbl_map t i = None"
    "tbl_map t' = (tbl_map t)(i \<mapsto> x)" by blast
  with assms(2) False show ?thesis
    using Table_Get_eq [OF assms] Table_Get_eq [of t' j] by (auto simp add: Table_HasKey_iff)
qed (simp add: Table_Add_full)

text \<open>Keys 0 to 3, with 0 and 2 freed.\<close>

definition demo_table :: "nat table" where
  "demo_table = \<lparr>data = [10, 11, 12, 13] @ replicate 16 0, current = 4,
     freed = \<lparr>elems = [(0, 0), (2, 2)], nsize = 2\<rparr>\<rparr>"

lemma demo_table_ok: "table_inv demo_table" "free_set demo_table = {0, 2}"
  by (simp_all add: table_inv_def demo_table_def free_set_def items_def SIZE_def)

lemma demo_table_map: "tbl_map demo_table 3 = Some 13" "tbl_map demo_table 1 = Some 11"
  using demo_table_ok(2) by (simp_all add: tbl_map_def) (simp_all add: demo_table_def)

theorem Table_Remove_safe_witness:
  "\<exists>t'. Table_Remove 0 demo_table 1 = Inr (11, t') \<and> tbl_map t' = (tbl_map demo_table)(1 := None)"
  using Table_Remove_safe [OF demo_table_ok(1) demo_table_map(2), of 0]
  by (auto simp add: remove_safe_def demo_table_def)

theorem Table_Remove_unsafe_witness:
  "\<exists>t' k. Table_Remove 0 demo_table 3 = Inr (13, t') \<and> tbl_map demo_table k = None \<and> tbl_map t' k \<noteq> None"
proof -
  have "current demo_table = 4" by (simp add: demo_table_def)
  then have "\<not> remove_safe demo_table 3"
    using demo_table_ok(2) by (simp add: remove_safe_def doubleton_eq_iff insert_eq_iff)
  from Table_Remove_unsafe [OF demo_table_ok(1) demo_table_map(1) this, of 0] show ?thesis by auto
qed

theorem Table_Add_Get_witness:
  "\<exists>i t'. Table_Add demo_table 77 = Inr (i, t') \<and> 0 \<le> i"
  using Table_Add_Get [OF demo_table_ok(1), of 0 77 0] demo_table_ok(2) by auto

end
