(* ===== verification/Userprog_Transfer.thy ===== *)
theory Userprog_Transfer
  imports Machine_Cpu Filesys_Directory
begin

text \<open>
  Transfers between the kernel and user programs: \<open>userprog/transfer.cc\<close> and \<open>userprog/args.cc\<close>.

  The kernel's buffers are lists of bytes; reading or writing outside one is an error. User memory is
  read and written one access at a time through the machine, so that an unmapped address raises
  the machine's exception, whose handler is the argument \<open>run\<close>; when the handler returns, the
  transfer's own assertion fails.
\<close>

section \<open>Buffers and strings\<close>

fun ReadBuffer_loop :: "('h, 'k) run \<Rightarrow> bool \<Rightarrow> nat \<Rightarrow> u32 \<Rightarrow> nat \<Rightarrow> u8 list \<Rightarrow> ('h, 'k) machine \<Rightarrow> (u8 list \<times> ('h, 'k) machine) res" where
  "ReadBuffer_loop run be 0 userAddress i outBuffer m = Inr (outBuffer, m)"
| "ReadBuffer_loop run be (Suc n) userAddress i outBuffer m =
     bindR (Machine_ReadMem run be userAddress 1 m) (\<lambda>(r, m).
     case r of None \<Rightarrow> Inl AssertFail
     | Some temp \<Rightarrow>
       bindR (aset outBuffer i (ucast temp)) (\<lambda>outBuffer.
       ReadBuffer_loop run be n (userAddress + 1) (i + 1) outBuffer m))"

definition ReadBufferFromUser :: "('h, 'k) run \<Rightarrow> bool \<Rightarrow> u32 \<Rightarrow> u8 list option \<Rightarrow> u32 \<Rightarrow> ('h, 'k) machine \<Rightarrow> (u8 list \<times> ('h, 'k) machine) res" where
  "ReadBufferFromUser run be userAddress outBuffer byteCount m =
     ASSERT (userAddress \<noteq> 0) (ASSERT (outBuffer \<noteq> None) (ASSERT (byteCount \<noteq> 0)
     (bindR (need outBuffer) (\<lambda>out. ReadBuffer_loop run be (unat byteCount) userAddress 0 out m))))"

definition checkEndString :: "u8 \<Rightarrow> bool" where
  "checkEndString c \<longleftrightarrow> c \<noteq> 0 \<and> c \<noteq> 10"

fun ReadString_loop :: "('h, 'k) run \<Rightarrow> bool \<Rightarrow> nat \<Rightarrow> u32 \<Rightarrow> nat \<Rightarrow> u8 list \<Rightarrow> ('h, 'k) machine \<Rightarrow> (bool \<times> u8 list \<times> ('h, 'k) machine) res" where
  "ReadString_loop run be 0 userAddress i outString m = Inr (False, outString, m)"
| "ReadString_loop run be (Suc n) userAddress i outString m =
     bindR (Machine_ReadMem run be userAddress 1 m) (\<lambda>(r, m).
     case r of None \<Rightarrow> Inl AssertFail
     | Some temp \<Rightarrow>
       bindR (aset outString i (ucast temp)) (\<lambda>outString.
       if checkEndString (ucast temp) \<and> n \<noteq> 0
       then ReadString_loop run be n (userAddress + 1) (i + 1) outString m
       else Inr (\<not> checkEndString (ucast temp), outString, m)))"

definition ReadStringFromUser :: "('h, 'k) run \<Rightarrow> bool \<Rightarrow> u32 \<Rightarrow> u8 list option \<Rightarrow> u32 \<Rightarrow> ('h, 'k) machine \<Rightarrow> (bool \<times> u8 list \<times> ('h, 'k) machine) res" where
  "ReadStringFromUser run be userAddress outString maxByteCount m =
     ASSERT (userAddress \<noteq> 0) (ASSERT (outString \<noteq> None) (ASSERT (maxByteCount \<noteq> 0)
     (bindR (need outString) (\<lambda>out. ReadString_loop run be (unat maxByteCount) userAddress 0 out m))))"

fun WriteBuffer_loop :: "('h, 'k) run \<Rightarrow> bool \<Rightarrow> nat \<Rightarrow> u8 list \<Rightarrow> nat \<Rightarrow> u32 \<Rightarrow> ('h, 'k) machine \<Rightarrow> ('h, 'k) machine res" where
  "WriteBuffer_loop run be 0 buffer temp userAddress m = Inr m"
| "WriteBuffer_loop run be (Suc n) buffer temp userAddress m =
     bindR (aget buffer temp) (\<lambda>c.
     bindR (Machine_WriteMem run be userAddress 1 (scast c) m) (\<lambda>(ok, m).
     ASSERT ok (WriteBuffer_loop run be n buffer (temp + 1) (userAddress + 1) m)))"

definition WriteBufferToUser :: "('h, 'k) run \<Rightarrow> bool \<Rightarrow> u8 list option \<Rightarrow> u32 \<Rightarrow> u32 \<Rightarrow> ('h, 'k) machine \<Rightarrow> ('h, 'k) machine res" where
  "WriteBufferToUser run be buffer userAddress byteCount m =
     ASSERT (userAddress \<noteq> 0) (ASSERT (buffer \<noteq> None) (ASSERT (byteCount \<noteq> 0)
     (bindR (need buffer) (\<lambda>buf. WriteBuffer_loop run be (unat byteCount) buf 0 userAddress m))))"

text \<open>The loop of \<open>WriteStringToUser\<close> writes a character before it tests the next one for the end; the
  list is the memory of the string from the current character on.\<close>

fun WriteString_loop :: "('h, 'k) run \<Rightarrow> bool \<Rightarrow> u8 list \<Rightarrow> u32 \<Rightarrow> ('h, 'k) machine \<Rightarrow> ('h, 'k) machine res" where
  "WriteString_loop run be [] userAddress m = Inl OutOfBounds"
| "WriteString_loop run be (c # cs) userAddress m =
     bindR (Machine_WriteMem run be userAddress 1 (scast c) m) (\<lambda>(ok, m).
     ASSERT ok (case cs of [] \<Rightarrow> Inl OutOfBounds
       | c' # _ \<Rightarrow> if c' \<noteq> 0 then WriteString_loop run be cs (userAddress + 1) m else Inr m))"

definition WriteStringToUser :: "('h, 'k) run \<Rightarrow> bool \<Rightarrow> u8 list option \<Rightarrow> u32 \<Rightarrow> ('h, 'k) machine \<Rightarrow> ('h, 'k) machine res" where
  "WriteStringToUser run be string userAddress m = ASSERT (userAddress \<noteq> 0)
     (case string of Some s \<Rightarrow> WriteString_loop run be s userAddress m | None \<Rightarrow> Inr m)"

section \<open>Command-line arguments\<close>

definition MAX_ARG_COUNT :: nat where "MAX_ARG_COUNT = 32"
definition MAX_ARG_LENGTH :: nat where "MAX_ARG_LENGTH = 128"

text \<open>The results of \<open>ReadMem\<close> are not tested here: after a failed read the variable keeps its value.\<close>

fun CountArgs_loop :: "('h, 'k) run \<Rightarrow> bool \<Rightarrow> nat \<Rightarrow> u32 \<Rightarrow> nat \<Rightarrow> u32 \<Rightarrow> ('h, 'k) machine \<Rightarrow> (nat \<times> u32 \<times> ('h, 'k) machine) res" where
  "CountArgs_loop run be 0 address c val m = Inr (c, val, m)"
| "CountArgs_loop run be (Suc n) address c val m =
     bindR (Machine_ReadMem run be (address + 4 * of_nat c) 4 m) (\<lambda>(r, m).
     let val = (case r of Some v \<Rightarrow> v | None \<Rightarrow> val) in
     if n \<noteq> 0 \<and> val \<noteq> 0 then CountArgs_loop run be n address (c + 1) val m else Inr (c + 1, val, m))"

definition CountArgsToSave :: "('h, 'k) run \<Rightarrow> bool \<Rightarrow> u32 \<Rightarrow> u32 \<Rightarrow> ('h, 'k) machine \<Rightarrow> (nat option \<times> ('h, 'k) machine) res" where
  "CountArgsToSave run be junk address m = ASSERT (address \<noteq> 0)
     (bindR (CountArgs_loop run be MAX_ARG_COUNT address 0 junk m) (\<lambda>(c, val, m).
      if c = MAX_ARG_COUNT \<and> val \<noteq> 0 then Inr (None, m) else Inr (Some (c - 1), m)))"

fun SaveArgs_loop :: "('h, 'k) run \<Rightarrow> bool \<Rightarrow> (nat \<Rightarrow> u8 list) \<Rightarrow> (nat \<Rightarrow> u32) \<Rightarrow> u32 \<Rightarrow> nat list \<Rightarrow> ('h, 'k) machine \<Rightarrow> (u8 list list \<times> ('h, 'k) machine) res" where
  "SaveArgs_loop run be raw junk address [] m = Inr ([], m)"
| "SaveArgs_loop run be raw junk address (i # is) m =
     bindR (Machine_ReadMem run be (address + of_nat i * 4) 4 m) (\<lambda>(r, m).
     let strAddr = (case r of Some v \<Rightarrow> v | None \<Rightarrow> junk i) in
     bindR (ReadStringFromUser run be strAddr (Some (raw i)) (of_nat MAX_ARG_LENGTH) m) (\<lambda>(_, arg, m).
     bindR (SaveArgs_loop run be raw junk address is m) (\<lambda>(args, m). Inr (arg # args, m))))"

text \<open>\<open>raw i\<close> are the bytes of the fresh memory \<open>new char[MAX_ARG_LENGTH]\<close>. The trailing null pointer is
  the end of the list.\<close>

definition SaveArgs :: "('h, 'k) run \<Rightarrow> bool \<Rightarrow> (nat \<Rightarrow> u8 list) \<Rightarrow> (nat \<Rightarrow> u32) \<Rightarrow> u32 \<Rightarrow> ('h, 'k) machine \<Rightarrow> (u8 list list option \<times> ('h, 'k) machine) res" where
  "SaveArgs run be raw junk address m = ASSERT (address \<noteq> 0)
     (bindR (CountArgsToSave run be (junk 0) address m) (\<lambda>(count, m).
      case count of None \<Rightarrow> Inr (None, m)
      | Some n \<Rightarrow> bindR (SaveArgs_loop run be (\<lambda>i. take MAX_ARG_LENGTH (raw i)) junk address [0..<n] m) (\<lambda>(args, m). Inr (Some args, m))))"

fun WriteArgs_strings :: "('h, 'k) run \<Rightarrow> bool \<Rightarrow> nat \<Rightarrow> u8 list list \<Rightarrow> u32 \<Rightarrow> ('h, 'k) machine \<Rightarrow> (u32 list \<times> u32 \<times> nat \<times> ('h, 'k) machine) res" where
  "WriteArgs_strings run be 0 args sp m = Inr ([], sp, 0, m)"
| "WriteArgs_strings run be (Suc n) [] sp m = Inr ([], sp, 0, m)"
| "WriteArgs_strings run be (Suc n) (arg # args) sp m =
     bindR (cstring arg) (\<lambda>s.
     let sp = sp - (of_nat (length s) + 1) in
     bindR (WriteStringToUser run be (Some arg) sp m) (\<lambda>m.
     bindR (WriteArgs_strings run be n args sp m) (\<lambda>(as, sp', c, m). Inr (sp # as, sp', c + 1, m))))"

fun WriteArgs_addresses :: "('h, 'k) run \<Rightarrow> bool \<Rightarrow> u32 \<Rightarrow> u32 list \<Rightarrow> ('h, 'k) machine \<Rightarrow> ('h, 'k) machine res" where
  "WriteArgs_addresses run be a [] m = Inr m"
| "WriteArgs_addresses run be a (v # vs) m =
     bindR (Machine_WriteMem run be a 4 v m) (\<lambda>(_, m). WriteArgs_addresses run be (a + 4) vs m)"

definition WriteArgs :: "('h, 'k) run \<Rightarrow> bool \<Rightarrow> u8 list list option \<Rightarrow> ('h, 'k) machine \<Rightarrow> (nat \<times> ('h, 'k) machine) res" where
  "WriteArgs run be args m = ASSERT (args \<noteq> None)
     (bindR (need args) (\<lambda>args.
      bindR (ReadRegister m STACK_REG) (\<lambda>sp.
      bindR (WriteArgs_strings run be MAX_ARG_COUNT args sp m) (\<lambda>(argsAddress, sp, c, m).
      ASSERT (c < MAX_ARG_COUNT)
      (let sp = sp - of_int (sint sp smod 4) in
       let sp = sp - (of_nat c * 4 + 4) in
       bindR (WriteArgs_addresses run be sp argsAddress m) (\<lambda>m.
       bindR (Machine_WriteMem run be (sp + 4 * of_nat c) 4 0 m) (\<lambda>(_, m).
       bindR (WriteRegister m STACK_REG sp) (\<lambda>m. Inr (c, m)))))))))"

section \<open>One access\<close>

text \<open>A machine after accesses to user memory: the registers, the kernel and the mapping are the same
  and the user sees the memory \<open>V\<close>.\<close>

definition sees :: "('h, 'k) machine \<Rightarrow> ('h, 'k) machine \<Rightarrow> (u32 \<rightharpoonup> u8) \<Rightarrow> bool" where
  "sees m m' V \<longleftrightarrow> m' = m\<lparr>m_mmu := m_mmu m'\<rparr> \<and> mmu_ok (m_mmu m') \<and> phys (m_mmu m') = phys (m_mmu m) \<and>
     writable (m_mmu m') = writable (m_mmu m) \<and> vmem (m_mmu m') = V"

definition poke :: "(u32 \<rightharpoonup> u8) \<Rightarrow> u32 \<Rightarrow> u8 list \<Rightarrow> (u32 \<rightharpoonup> u8)" where
  "poke V a bs = (\<lambda>x. if unat (x - a) < length bs then Some (bs ! unat (x - a)) else V x)"

text \<open>The bytes of the user's memory at \<open>a\<close>, mapped and, for \<open>uwrite\<close>, writable.\<close>

definition uread :: "('h, 'k) machine \<Rightarrow> u32 \<Rightarrow> u8 list \<Rightarrow> bool" where
  "uread m a bs \<longleftrightarrow> mmu_ok (m_mmu m) \<and> (\<forall>i<length bs. vmem (m_mmu m) (a + of_nat i) = Some (bs ! i))"

definition uwrite :: "('h, 'k) machine \<Rightarrow> u32 \<Rightarrow> nat \<Rightarrow> bool" where
  "uwrite m a n \<longleftrightarrow> mmu_ok (m_mmu m) \<and> frames_distinct (m_mmu m) \<and>
     (\<forall>i<n. phys (m_mmu m) (a + of_nat i) \<noteq> None \<and> writable (m_mmu m) (a + of_nat i))"

lemma sees_refl: "mmu_ok (m_mmu m) \<Longrightarrow> sees m m (vmem (m_mmu m))"
  by (simp add: sees_def)

lemma sees_trans: "sees m m1 V \<Longrightarrow> sees m1 m2 W \<Longrightarrow> sees m m2 W"
  unfolding sees_def by (metis machine.update_convs(2) machine.cases_scheme machine.select_convs(2))

lemma vmem_phys: "vmem m a = Some b \<Longrightarrow> phys m a \<noteq> None" "phys m a \<noteq> None \<Longrightarrow> vmem m a \<noteq> None"
  by (auto simp add: vmem_def)

lemma read1:
  assumes "mmu_ok (m_mmu m)" and "vmem (m_mmu m) a = Some b"
  obtains m' where "Machine_ReadMem run be a 1 m = Inr (Some (scast b), m')" and "sees m m' (vmem (m_mmu m))"
proof -
  have t: "translate_exception (m_mmu m) a 1 False = NO_EXCEPTION"
    using vmem_phys(1) [OF assms(2)] by (simp add: translate_exception_no aligned_def)
  obtain mu where mu: "ReadMem be (m_mmu m) a 1 = Inr (NO_EXCEPTION, Some (load_value 1 (vbytes (m_mmu m) a 1)), mu)"
    "mmu_ok mu" "mainMemory mu = mainMemory (m_mmu m)" "phys mu = phys (m_mmu m)" "writable mu = writable (m_mmu m)"
    using ReadMem_ok [OF assms(1) _ t] by (metis insertI1)
  have "load_value 1 (vbytes (m_mmu m) a 1) = scast b" using assms(2) by (simp add: load_value_def vbytes_def)
  with mu show thesis
    by (intro that [of "m\<lparr>m_mmu := mu\<rparr>"]) (simp_all add: Machine_ReadMem_def sees_def vmem_def fun_eq_iff)
qed

lemma ucast_scast8 [simp]: "ucast (scast (b :: u8) :: u32) = b"
  by (rule bit_word_eqI) (simp add: bit_ucast_iff bit_signed_iff)

lemma low_bytes1: "low_bytes 1 v = [ucast v]"
  by (simp add: low_bytes_def bytes32_def)

lemma poke_Nil [simp]: "poke V a [] = V"
  by (simp add: poke_def)

lemma write_n:
  assumes "mmu_ok (m_mmu m)" and "frames_distinct (m_mmu m)" and "sz \<in> {1, 2, 4}"
    and "translate_exception (m_mmu m) a sz True = NO_EXCEPTION"
  obtains m' where "Machine_WriteMem run be a sz v m = Inr (True, m')" and "sees m m' (poke (vmem (m_mmu m)) a (low_bytes sz v))"
proof -
  obtain mu where mu: "WriteMem be (m_mmu m) a sz v = Inr (NO_EXCEPTION, mu)" "mmu_ok mu" "phys mu = phys (m_mmu m)" "writable mu = writable (m_mmu m)"
    and v: "vmem mu = (\<lambda>x. if unat (x - a) < unat sz then Some (low_bytes sz v ! unat (x - a)) else vmem (m_mmu m) x)"
    by (rule WriteMem_vmem [OF assms(1,3,2,4), of be v])
  have "vmem mu = poke (vmem (m_mmu m)) a (low_bytes sz v)"
    unfolding v poke_def length_low_bytes [OF assms(3)] ..
  with mu show thesis by (intro that [of "m\<lparr>m_mmu := mu\<rparr>"]) (simp_all add: Machine_WriteMem_def sees_def)
qed

lemma write1:
  assumes "uwrite m a (Suc n)"
  obtains m' where "Machine_WriteMem run be a 1 (scast c) m = Inr (True, m')" and "sees m m' (poke (vmem (m_mmu m)) a [c])"
    and "uwrite m' (a + 1) n"
proof -
  have w: "mmu_ok (m_mmu m)" "frames_distinct (m_mmu m)" using assms by (simp_all add: uwrite_def)
  have "phys (m_mmu m) (a + of_nat 0) \<noteq> None \<and> writable (m_mmu m) (a + of_nat 0)"
    using assms unfolding uwrite_def by blast
  then have t: "translate_exception (m_mmu m) a 1 True = NO_EXCEPTION" by (simp add: translate_exception_no aligned_def)
  obtain m' where m': "Machine_WriteMem run be a 1 (scast c) m = Inr (True, m')" "sees m m' (poke (vmem (m_mmu m)) a [c])"
    by (rule write_n [OF w _ t, where run = run and be = be and v = "scast c"]) (simp_all add: low_bytes1)
  have "phys (m_mmu m) (a + 1 + of_nat i) \<noteq> None \<and> writable (m_mmu m) (a + 1 + of_nat i)" if "i < n" for i
    using assms that unfolding uwrite_def by (auto simp add: add.assoc dest: spec [of _ "Suc i"])
  then have "uwrite m' (a + 1) n" using m'(2) w(2) by (auto simp add: uwrite_def sees_def frames_distinct_def)
  with m' show thesis by (rule that)
qed

lemma poke_Cons:
  assumes "length bs < 4294967295"
  shows "poke (poke V a [b]) (a + 1) bs = poke V a (b # bs)"
proof
  fix x
  show "poke (poke V a [b]) (a + 1) bs x = poke V a (b # bs) x"
  proof (cases "x = a")
    case True
    have "unat (a - (a + 1)) = 4294967295" by (simp add: unsigned_minus_1_eq_mask mask_eq_exp_minus_1)
    then show ?thesis using True assms by (simp add: poke_def)
  next
    case False
    have "x - a \<noteq> 0" using False by simp
    then have "unat (x - a) = Suc (unat (x - a - 1))" using unatSuc [of "x - a - 1"] by simp
    moreover have e: "x - (a + 1) = x - a - 1" by simp
    ultimately show ?thesis unfolding poke_def e by auto
  qed
qed

lemma uread_Cons: "uread m a (b # bs) \<longleftrightarrow> mmu_ok (m_mmu m) \<and> vmem (m_mmu m) a = Some b \<and> uread m (a + 1) bs"
  by (auto simp add: uread_def nth_Cons add.assoc less_Suc_eq_0_disj split: nat.splits)

lemma uread_sees: "sees m m' (vmem (m_mmu m)) \<Longrightarrow> uread m a bs \<Longrightarrow> uread m' a bs"
  by (simp add: uread_def sees_def)

section \<open>Transfers\<close>

lemma ReadBuffer_loop_ok:
  assumes "uread m a bs" and "i + length bs \<le> length out"
  shows "\<exists>m'. ReadBuffer_loop run be (length bs) a i out m = Inr (blit out i bs, m') \<and> sees m m' (vmem (m_mmu m))"
  using assms
proof (induction bs arbitrary: a i out m)
  case Nil
  then show ?case by (simp add: uread_def sees_refl blit_def)
next
  case (Cons b bs)
  have b: "mmu_ok (m_mmu m)" "vmem (m_mmu m) a = Some b" "uread m (a + 1) bs" using Cons.prems(1) by (simp_all add: uread_Cons)
  obtain m1 where m1: "Machine_ReadMem run be a 1 m = Inr (Some (scast b), m1)" "sees m m1 (vmem (m_mmu m))"
    by (rule read1 [OF b(1,2)])
  have v: "vmem (m_mmu m1) = vmem (m_mmu m)" using m1(2) by (simp add: sees_def)
  obtain m' where m': "ReadBuffer_loop run be (length bs) (a + 1) (i + 1) (out[i := b]) m1 = Inr (blit (out[i := b]) (i + 1) bs, m')"
    "sees m1 m' (vmem (m_mmu m1))"
    using Cons.IH [OF uread_sees [OF m1(2) b(3)], of "i + 1" "out[i := b]"] Cons.prems(2) by auto
  moreover have "blit (out[i := b]) (i + 1) bs = blit out i (b # bs)"
    using Cons.prems(2) by (intro nth_equalityI) (auto simp add: nth_blit nth_list_update nth_Cons' not_less)
  ultimately show ?case using m1 m' Cons.prems(2) v sees_trans [OF m1(2) m'(2)] by (auto simp add: Suc_le_eq)
qed

lemma WriteBuffer_loop_ok:
  assumes "uwrite m a (length bs)" and "length bs < 4294967296" and "pre = take i pre" and "length pre = i"
  shows "\<exists>m'. WriteBuffer_loop run be (length bs) (pre @ bs @ post) i a m = Inr m' \<and> sees m m' (poke (vmem (m_mmu m)) a bs)"
  using assms
proof (induction bs arbitrary: a i m pre)
  case Nil
  then show ?case by (simp add: uwrite_def sees_refl)
next
  case (Cons b bs)
  obtain m1 where m1: "Machine_WriteMem run be a 1 (scast b) m = Inr (True, m1)" "sees m m1 (poke (vmem (m_mmu m)) a [b])"
    "uwrite m1 (a + 1) (length bs)" by (rule write1 [OF Cons.prems(1) [simplified]])
  have v: "vmem (m_mmu m1) = poke (vmem (m_mmu m)) a [b]" using m1(2) by (simp add: sees_def)
  obtain m' where m': "WriteBuffer_loop run be (length bs) ((pre @ [b]) @ bs @ post) (i + 1) (a + 1) m1 = Inr m'"
    "sees m1 m' (poke (vmem (m_mmu m1)) (a + 1) bs)"
    using Cons.IH [OF m1(3), of "pre @ [b]" "i + 1"] Cons.prems(2,4) by auto
  have "poke (vmem (m_mmu m1)) (a + 1) bs = poke (vmem (m_mmu m)) a (b # bs)"
    unfolding v using Cons.prems(2) by (intro poke_Cons) simp
  with m1 m' Cons.prems(4) sees_trans [OF m1(2) m'(2)] show ?case by (auto simp add: nth_append)
qed

lemma ReadString_loop_ok:
  assumes "uread m a bs" and "i + length bs \<le> length out" and "bs \<noteq> []" and "length bs \<le> n"
    and "\<forall>c\<in>set (butlast bs). checkEndString c" and "checkEndString (last bs) \<longrightarrow> length bs = n"
  shows "\<exists>m'. ReadString_loop run be n a i out m = Inr (\<not> checkEndString (last bs), blit out i bs, m') \<and> sees m m' (vmem (m_mmu m))"
  using assms
proof (induction bs arbitrary: a i out m n)
  case (Cons b bs)
  obtain n' where n: "n = Suc n'" using Cons.prems(4) by (cases n) simp_all
  have b: "mmu_ok (m_mmu m)" "vmem (m_mmu m) a = Some b" "uread m (a + 1) bs" using Cons.prems(1) by (simp_all add: uread_Cons)
  obtain m1 where m1: "Machine_ReadMem run be a 1 m = Inr (Some (scast b), m1)" "sees m m1 (vmem (m_mmu m))"
    by (rule read1 [OF b(1,2)])
  have v: "vmem (m_mmu m1) = vmem (m_mmu m)" using m1(2) by (simp add: sees_def)
  have bl: "blit (out[i := b]) (i + 1) bs = blit out i (b # bs)"
    using Cons.prems(2) by (intro nth_equalityI) (auto simp add: nth_blit nth_list_update nth_Cons' not_less)
  show ?case
  proof (cases "bs = []")
    case True
    then have "\<not> (checkEndString b \<and> n' \<noteq> 0)" using Cons.prems(6) n by auto
    moreover have "out[i := b] = blit out i [b]" using True Cons.prems(2) by (simp add: blit_def upd_conv_take_nth_drop)
    ultimately show ?thesis using m1 Cons.prems(2) True n by auto
  next
    case False
    then have c: "checkEndString b" "n' \<noteq> 0" using Cons.prems(4,5) n by (cases bs; auto)+
    obtain m' where m': "ReadString_loop run be n' (a + 1) (i + 1) (out[i := b]) m1 =
        Inr (\<not> checkEndString (last bs), blit (out[i := b]) (i + 1) bs, m')" "sees m1 m' (vmem (m_mmu m1))"
      using Cons.IH [OF uread_sees [OF m1(2) b(3)], of "i + 1" "out[i := b]" n'] Cons.prems False n by auto
    then show ?thesis using m1 c Cons.prems(2) False n v bl sees_trans [OF m1(2) m'(2)] by (auto simp add: Suc_le_eq)
  qed
qed simp

lemma WriteString_loop_ok:
  assumes "uwrite m a (length s)" and "length s < 4294967296" and "s \<noteq> []" and "0 \<notin> set s"
  shows "\<exists>m'. WriteString_loop run be (s @ 0 # rest) a m = Inr m' \<and> sees m m' (poke (vmem (m_mmu m)) a s)"
  using assms
proof (induction s arbitrary: a m)
  case (Cons b s)
  obtain m1 where m1: "Machine_WriteMem run be a 1 (scast b) m = Inr (True, m1)" "sees m m1 (poke (vmem (m_mmu m)) a [b])"
    "uwrite m1 (a + 1) (length s)" by (rule write1 [OF Cons.prems(1) [simplified]])
  have v: "vmem (m_mmu m1) = poke (vmem (m_mmu m)) a [b]" using m1(2) by (simp add: sees_def)
  show ?case
  proof (cases s)
    case Nil
    with m1 show ?thesis by auto
  next
    case (Cons b' s')
    then obtain m' where m': "WriteString_loop run be (s @ 0 # rest) (a + 1) m1 = Inr m'" "sees m1 m' (poke (vmem (m_mmu m1)) (a + 1) s)"
      using Cons.IH [OF m1(3)] Cons.prems by auto
    have "poke (vmem (m_mmu m1)) (a + 1) s = poke (vmem (m_mmu m)) a (b # s)"
      unfolding v using Cons.prems(2) by (intro poke_Cons) simp
    with m1 m' Cons Cons.prems(4) sees_trans [OF m1(2) m'(2)] show ?thesis by auto
  qed
qed simp

lemma uread_poke:
  assumes "sees m m' (poke V a bs)" and "length bs < 4294967296"
  shows "uread m' a bs"
proof -
  have "unat (of_nat i :: u32) = i" if "i < length bs" for i using that assms(2) by (simp add: unat_of_nat)
  with assms(1) show ?thesis by (simp add: uread_def sees_def poke_def)
qed

subsection \<open>A concrete machine\<close>

definition demo_user :: "(unit, unit) machine" where
  "demo_user = \<lparr>registers = replicate 40 0, m_mmu = demo_mmu, handlers = replicate 8 None, status = USER_MODE, kernel = ()\<rparr>"

definition demo_run :: "(unit, unit) run" where
  "demo_run h et m = Inl AssertFail"

lemma demo_uwrite: "uwrite demo_user 8 (Suc (Suc (Suc (Suc (Suc 0)))))"
proof -
  have "phys demo_mmu (8 + of_nat i) \<noteq> None \<and> writable demo_mmu (8 + of_nat i)" if "i < 5" for i
  proof -
    from that have "i \<in> {0, 1, 2, 3, 4}" by auto
    then have "phys demo_mmu (8 + of_nat i) \<noteq> None" by (auto simp add: demo_phys)
    moreover have "writable demo_mmu (8 + of_nat i)"
      using \<open>i \<in> _\<close> by (auto simp add: writable_def page_entry_def demo_mmu_def MMU_new_def demo_entry_def mmu_sizes)
    ultimately show ?thesis ..
  qed
  then show ?thesis by (simp add: uwrite_def demo_user_def eval_nat_numeral)
qed

text \<open>What the kernel copies to a user's buffer is there, and only there: the memory the user sees changes
  at the buffer's bytes and nowhere else, the registers and the mapping stay, and copying the buffer
  back to the kernel returns the same bytes.\<close>

theorem WriteBuffer_ReadBuffer:
  assumes "uwrite m a (length bs)" and "a \<noteq> 0" and "bs \<noteq> []" and "length bs < 2 ^ 32" and "length bs \<le> length out"
  shows "\<exists>m1 m2. WriteBufferToUser run be (Some (bs @ post)) a (of_nat (length bs)) m = Inr m1 \<and>
     sees m m1 (poke (vmem (m_mmu m)) a bs) \<and>
     ReadBufferFromUser run be a (Some out) (of_nat (length bs)) m1 = Inr (blit out 0 bs, m2) \<and>
     sees m1 m2 (vmem (m_mmu m1))"
proof -
  have n: "unat (of_nat (length bs) :: u32) = length bs" using assms(4) by (simp add: unat_of_nat)
  then have nz: "(of_nat (length bs) :: u32) \<noteq> 0" using assms(3) by (metis length_0_conv unat_0)
  obtain m1 where m1: "WriteBuffer_loop run be (length bs) (bs @ post) 0 a m = Inr m1" "sees m m1 (poke (vmem (m_mmu m)) a bs)"
    using WriteBuffer_loop_ok [OF assms(1), of "[]" 0 run be post] assms(4) by auto
  have "uread m1 a bs" using uread_poke [OF m1(2)] assms(4) by simp
  from ReadBuffer_loop_ok [OF this, of 0 out run be] assms(5) obtain m2 where
    "ReadBuffer_loop run be (length bs) a 0 out m1 = Inr (blit out 0 bs, m2)" "sees m1 m2 (vmem (m_mmu m1))" by auto
  with m1 n nz assms(2) show ?thesis by (simp add: WriteBufferToUser_def ReadBufferFromUser_def)
qed

theorem WriteBuffer_ReadBuffer_witness:
  "\<exists>m1 m2. WriteBufferToUser demo_run False (Some [104, 111, 108, 97, 0]) 8 5 demo_user = Inr m1 \<and>
     ReadBufferFromUser demo_run False 8 (Some [9, 9, 9, 9, 9, 9]) 5 m1 = Inr ([104, 111, 108, 97, 0, 9], m2)"
  using WriteBuffer_ReadBuffer [of demo_user 8 "[104, 111, 108, 97, 0]" "[9, 9, 9, 9, 9, 9]" demo_run False "[]"] demo_uwrite
  by (auto simp add: blit_def)

text \<open>A string is read from a user up to and including its first null or newline, or for as many bytes as
  the buffer takes; the result says whether the end was found, and the user's memory stays as it was.\<close>

theorem ReadStringFromUser_exact:
  assumes "uread m a bs" and "a \<noteq> 0" and "bs \<noteq> []" and "length bs \<le> unat maxByteCount" and "length bs \<le> length out"
    and "\<forall>c\<in>set (butlast bs). c \<noteq> 0 \<and> c \<noteq> 10" and "last bs \<noteq> 0 \<and> last bs \<noteq> 10 \<longrightarrow> length bs = unat maxByteCount"
  shows "\<exists>m'. ReadStringFromUser run be a (Some out) maxByteCount m = Inr (last bs = 0 \<or> last bs = 10, blit out 0 bs, m') \<and>
     sees m m' (vmem (m_mmu m))"
proof -
  have "maxByteCount \<noteq> 0" using assms(3,4) by auto
  moreover obtain m' where "ReadString_loop run be (unat maxByteCount) a 0 out m = Inr (\<not> checkEndString (last bs), blit out 0 bs, m')"
    "sees m m' (vmem (m_mmu m))"
    using ReadString_loop_ok [OF assms(1), of 0 out "unat maxByteCount" run be] assms(3-7) by (auto simp add: checkEndString_def)
  ultimately show ?thesis using assms(2) by (auto simp add: ReadStringFromUser_def checkEndString_def)
qed

theorem ReadStringFromUser_exact_witness:
  "\<exists>m m'. ReadStringFromUser demo_run False 8 (Some [7, 7, 7, 7, 7, 7]) 6 m = Inr (True, [104, 111, 108, 97, 0, 7], m')"
proof -
  obtain m where m: "sees demo_user m (poke (vmem demo_mmu) 8 [104, 111, 108, 97, 0])"
    using WriteBuffer_loop_ok [of demo_user 8 "[104, 111, 108, 97, 0]" "[]" 0 demo_run False "[]"] demo_uwrite
    by (auto simp add: demo_user_def)
  have "uread m 8 [104, 111, 108, 97, 0]" by (rule uread_poke [OF m]) simp
  from ReadStringFromUser_exact [OF this, of 6 "[7, 7, 7, 7, 7, 7]" demo_run False]
  show ?thesis by (auto simp add: blit_def)
qed

text \<open>A string written to a user arrives without its terminator: exactly its characters are written, and
  the byte after them keeps what it held before.\<close>

theorem WriteString_unterminated:
  assumes "uwrite m a (length s)" and "a \<noteq> 0" and "s \<noteq> []" and "0 \<notin> set s" and "length s < 2 ^ 32"
  shows "\<exists>m'. WriteStringToUser run be (Some (s @ 0 # rest)) a m = Inr m' \<and> sees m m' (poke (vmem (m_mmu m)) a s) \<and>
     vmem (m_mmu m') (a + of_nat (length s)) = vmem (m_mmu m) (a + of_nat (length s))"
proof -
  obtain m' where m': "WriteString_loop run be (s @ 0 # rest) a m = Inr m'" "sees m m' (poke (vmem (m_mmu m)) a s)"
    using WriteString_loop_ok [OF assms(1) _ assms(3,4), of run be rest] assms(5) by auto
  have "unat (of_nat (length s) :: u32) = length s" using assms(5) by (simp add: unat_of_nat)
  with m' assms(2) show ?thesis by (simp add: WriteStringToUser_def sees_def poke_def)
qed

theorem WriteString_unterminated_witness:
  "\<exists>m'. WriteStringToUser demo_run False (Some [104, 111, 108, 97, 115, 0]) 8 demo_user = Inr m' \<and>
     sees demo_user m' (poke (vmem (m_mmu demo_user)) 8 [104, 111, 108, 97, 115]) \<and>
     vmem (m_mmu m') 13 = vmem (m_mmu demo_user) 13"
  using WriteString_unterminated [of demo_user 8 "[104, 111, 108, 97, 115]" demo_run False "[]"] demo_uwrite by simp

end
