(* ===== verification/Userprog_AddressSpace.thy ===== *)
theory Userprog_AddressSpace
  imports Machine_Cpu Filesys_OpenFile
begin

text \<open>
  Loading of programs: \<open>userprog/executable.cc\<close>, \<open>userprog/address_space.cc\<close> and the object format of
  \<open>bin/noff.h\<close>.

  The operations take the reading of the program's file as an argument \<open>rd\<close>, which the interface
  \<open>program_file\<close> describes and the files of the file system implement. The state they change is
  that of the file's device, the bitmap of physical pages and the main memory.
\<close>

section \<open>Object files\<close>

definition NOFF_MAGIC :: u32 where "NOFF_MAGIC = 0xBADFAD"

record noffSegment =
  virtualAddr :: u32
  inFileAddr :: u32
  seg_size :: u32

record noffHeader =
  noffMagic :: u32
  code :: noffSegment
  initData :: noffSegment
  uninitData :: noffSegment

definition segment_of :: "u32 list \<Rightarrow> noffSegment" where
  "segment_of ws = \<lparr>virtualAddr = ws ! 0, inFileAddr = ws ! 1, seg_size = ws ! 2\<rparr>"

definition header_of :: "u32 list \<Rightarrow> noffHeader" where
  "header_of ws = \<lparr>noffMagic = ws ! 0, code = segment_of (drop 1 ws), initData = segment_of (drop 4 ws),
     uninitData = segment_of (drop 7 ws)\<rparr>"

definition HEADER_SIZE :: nat where "HEADER_SIZE = 40"

definition swap_segment :: "bool \<Rightarrow> noffSegment \<Rightarrow> noffSegment" where
  "swap_segment be s = \<lparr>virtualAddr = WordToHost be (virtualAddr s), inFileAddr = WordToHost be (inFileAddr s),
     seg_size = WordToHost be (seg_size s)\<rparr>"

definition SwapHeader :: "bool \<Rightarrow> noffHeader \<Rightarrow> noffHeader" where
  "SwapHeader be h = \<lparr>noffMagic = WordToHost be (noffMagic h), code = swap_segment be (code h),
     initData = swap_segment be (initData h), uninitData = swap_segment be (uninitData h)\<rparr>"

type_synonym 'd reader = "'d \<Rightarrow> u32 \<Rightarrow> u32 \<Rightarrow> (u8 list \<times> 'd) res"

text \<open>\<open>raw\<close> are the bytes of the header's memory before the read.\<close>

definition Executable_new :: "'d reader \<Rightarrow> bool \<Rightarrow> u8 list \<Rightarrow> 'd \<Rightarrow> (noffHeader \<times> 'd) res" where
  "Executable_new rd be raw d = bindR (rd d (of_nat HEADER_SIZE) 0) (\<lambda>(bs, d).
     Inr (header_of (words_of_bytes be (bs @ drop (length bs) raw)), d))"

definition CheckMagic :: "bool \<Rightarrow> noffHeader \<Rightarrow> bool \<times> noffHeader" where
  "CheckMagic be h =
    (let h = (if noffMagic h \<noteq> NOFF_MAGIC \<and> WordToHost be (noffMagic h) = NOFF_MAGIC then SwapHeader be h else h)
     in (noffMagic h = NOFF_MAGIC, h))"

definition GetSize :: "noffHeader \<Rightarrow> u32" where
  "GetSize h = seg_size (code h) + seg_size (initData h) + seg_size (uninitData h)"

definition GetCodeSize :: "noffHeader \<Rightarrow> u32" where "GetCodeSize h = seg_size (code h)"
definition GetInitDataSize :: "noffHeader \<Rightarrow> u32" where "GetInitDataSize h = seg_size (initData h)"
definition GetUninitDataSize :: "noffHeader \<Rightarrow> u32" where "GetUninitDataSize h = seg_size (uninitData h)"
definition GetCodeAddr :: "noffHeader \<Rightarrow> u32" where "GetCodeAddr h = virtualAddr (code h)"
definition GetInitDataAddr :: "noffHeader \<Rightarrow> u32" where "GetInitDataAddr h = virtualAddr (initData h)"

definition ReadCodeBlock :: "'d reader \<Rightarrow> noffHeader \<Rightarrow> 'd \<Rightarrow> u32 \<Rightarrow> u32 \<Rightarrow> (u8 list \<times> 'd) res" where
  "ReadCodeBlock rd h d n offset = ASSERT (n \<noteq> 0) (ASSERT (offset < seg_size (code h))
     (rd d n (inFileAddr (code h) + offset)))"

definition ReadDataBlock :: "'d reader \<Rightarrow> noffHeader \<Rightarrow> 'd \<Rightarrow> u32 \<Rightarrow> u32 \<Rightarrow> (u8 list \<times> 'd) res" where
  "ReadDataBlock rd h d n offset = ASSERT (n \<noteq> 0) (ASSERT (offset < seg_size (initData h))
     (rd d n (inFileAddr (initData h) + offset)))"

section \<open>Address spaces\<close>

definition USER_STACK_SIZE :: u32 where "USER_STACK_SIZE = 1024"

record AddressSpace =
  as_pageTable :: "TranslationEntry list"
  numPages :: u32

text \<open>\<open>DivRoundUp(size, PAGE_SIZE)\<close> on unsigned numbers.\<close>

definition pages_of :: "u32 \<Rightarrow> u32" where
  "pages_of sz = sz div PAGE_SIZE + (if sz mod PAGE_SIZE > 0 then 1 else 0)"

text \<open>One round of the loop over the pages. \<open>physicalPage\<close> is unsigned, so its assertion always holds;
  \<open>memset\<close> fills the first page of the main memory with the page number.\<close>

fun pages_loop :: "nat list \<Rightarrow> bitmap \<Rightarrow> u8 list \<Rightarrow> (TranslationEntry list \<times> bitmap \<times> u8 list) res" where
  "pages_loop [] b mem = Inr ([], b, mem)"
| "pages_loop (i # is) b mem =
     bindR (Bitmap_Find b) (\<lambda>(p, b).
     let e = \<lparr>virtualPage = of_nat i, physicalPage = of_int p, valid = True, readOnly = False, use = False, dirty = False\<rparr> in
     ASSERT (physicalPage e \<ge> 0)
     (bindR (pages_loop is b (blit mem 0 (replicate (unat PAGE_SIZE) (ucast (physicalPage e))))) (\<lambda>(es, b, mem).
      Inr (e # es, b, mem))))"

fun load_loop :: "('d \<Rightarrow> u32 \<Rightarrow> u32 \<Rightarrow> (u8 list \<times> 'd) res) \<Rightarrow> TranslationEntry list \<Rightarrow> u32 \<Rightarrow> nat list \<Rightarrow> 'd \<Rightarrow> u8 list \<Rightarrow> ('d \<times> u8 list) res" where
  "load_loop block pt va [] d mem = Inr (d, mem)"
| "load_loop block pt va (i # is) d mem =
     bindR (aget pt (unat ((va + of_nat i) div PAGE_SIZE))) (\<lambda>e.
     let frame = physicalPage e; offset = (va + of_nat i) mod PAGE_SIZE; physicalAddr = frame * PAGE_SIZE + offset in
     bindR (block d 1 (of_nat i)) (\<lambda>(bs, d).
     bindR (case bs of [] \<Rightarrow> Inr mem | x # _ \<Rightarrow> aset mem (unat physicalAddr) x) (\<lambda>mem.
     load_loop block pt va is d mem)))"

definition AddressSpace_new :: "'d reader \<Rightarrow> bool \<Rightarrow> u8 list \<Rightarrow> 'd \<Rightarrow> bitmap \<Rightarrow> u8 list \<Rightarrow> (AddressSpace \<times> 'd \<times> bitmap \<times> u8 list) res" where
  "AddressSpace_new rd be raw d b mem =
     bindR (Executable_new rd be raw d) (\<lambda>(exe, d).
     case CheckMagic be exe of (ok, exe) \<Rightarrow> ASSERT ok
     (let sz = GetSize exe + USER_STACK_SIZE; n = pages_of sz in
      bindR (Bitmap_CountClear b) (\<lambda>clear. ASSERT (unat n \<le> clear)
      (bindR (pages_loop [0..<unat n] b mem) (\<lambda>(pt, b, mem).
       let codeSize = GetCodeSize exe; initDataSize = GetInitDataSize exe in
       bindR (if codeSize > 0 then load_loop (ReadCodeBlock rd exe) pt (GetCodeAddr exe) [0..<unat codeSize] d mem else Inr (d, mem)) (\<lambda>(d, mem).
       bindR (if initDataSize > 0 then load_loop (ReadDataBlock rd exe) pt (GetInitDataAddr exe) [0..<unat initDataSize] d mem else Inr (d, mem)) (\<lambda>(d, mem).
       Inr (\<lparr>as_pageTable = pt, numPages = n\<rparr>, d, b, mem))))))))"

fun free_loop :: "TranslationEntry list \<Rightarrow> nat list \<Rightarrow> bitmap \<Rightarrow> bitmap res" where
  "free_loop pt [] b = Inr b"
| "free_loop pt (i # is) b = bindR (aget pt i) (\<lambda>e. bindR (Bitmap_Clear b (unat (physicalPage e))) (\<lambda>b. free_loop pt is b))"

definition AddressSpace_delete :: "AddressSpace \<Rightarrow> bitmap \<Rightarrow> bitmap res" where
  "AddressSpace_delete s b = free_loop (as_pageTable s) [0..<unat (numPages s)] b"

fun zero_registers :: "nat list \<Rightarrow> ('h, 'k) machine \<Rightarrow> ('h, 'k) machine res" where
  "zero_registers [] m = Inr m"
| "zero_registers (i # is) m = bindR (WriteRegister m i 0) (\<lambda>m. zero_registers is m)"

definition InitRegisters :: "AddressSpace \<Rightarrow> ('h, 'k) machine \<Rightarrow> ('h, 'k) machine res" where
  "InitRegisters s m =
     bindR (zero_registers [0..<NUM_TOTAL_REGS] m) (\<lambda>m.
     bindR (WriteRegister m PC_REG 0) (\<lambda>m.
     bindR (WriteRegister m NEXT_PC_REG 4) (\<lambda>m.
     WriteRegister m STACK_REG (numPages s * PAGE_SIZE - 16))))"

text \<open>\<open>RestoreState\<close> makes the machine use the page table of the space; \<open>SaveState\<close> does nothing. The machine's
  use and dirty bits are in the same array in the source; nothing else reads them.\<close>

definition RestoreState :: "AddressSpace \<Rightarrow> ('h, 'k) machine \<Rightarrow> ('h, 'k) machine" where
  "RestoreState s m = m\<lparr>m_mmu := (m_mmu m)\<lparr>pageTable := Some (as_pageTable s), pageTableSize := numPages s\<rparr>\<rparr>"

section \<open>The interface of the program's file\<close>

locale program_file =
  fixes rd :: "'d reader"
    and content :: "'d \<Rightarrow> u8 list"
    and ok :: "'d \<Rightarrow> bool"
  assumes read_ok: "ok d \<Longrightarrow> 0 < n \<Longrightarrow> unat pos + unat n \<le> length (content d) \<Longrightarrow>
      \<exists>d'. rd d n pos = Inr (take (unat n) (drop (unat pos) (content d)), d') \<and> ok d' \<and> content d' = content d"
begin

lemma read_byte:
  assumes "ok d" and "unat pos < length (content d)"
  obtains d' where "rd d 1 pos = Inr ([content d ! unat pos], d')" and "ok d'" and "content d' = content d"
  using read_ok [OF assms(1), of 1 pos] assms(2) that by (auto simp add: take_Suc_conv_app_nth Cons_nth_drop_Suc [symmetric])

lemma Executable_new_ok:
  assumes "ok d" and "40 \<le> length (content d)"
  obtains d' where "Executable_new rd be raw d = Inr (header_of (words_of_bytes be (take 40 (content d) @ drop 40 raw)), d')"
    and "ok d'" and "content d' = content d"
  using read_ok [OF assms(1), of 40 0] assms(2) that by (auto simp add: Executable_new_def HEADER_SIZE_def)

end

text \<open>The files of the file system.\<close>

interpretation ofile: program_file "OpenFile_ReadAt f" "\<lambda>d. file_bytes d (hdr f)" "\<lambda>d. hdr_ok (hdr f) \<and> disk_ok d" for f
proof
  fix d and n pos :: u32
  assume a: "hdr_ok (hdr f) \<and> disk_ok d" "0 < n" "unat pos + unat n \<le> length (file_bytes d (hdr f))"
  then have l: "unat pos + unat n \<le> unat (numBytes (hdr f))" "0 < unat n" by (simp_all add: file_bytes_def word_less_nat_alt)
  have "unat (numBytes (hdr f)) < 4294967296" by (rule unat_less32)
  with ReadAt_ok [of f d n pos] a l obtain d' where
    d': "OpenFile_ReadAt f d n pos = Inr (map (file_byte d (hdr f)) [unat pos..<unat pos + unat n], d')" "disk_ok d'" "sector d' = sector d"
    by auto
  have "map (file_byte d (hdr f)) [unat pos..<unat pos + unat n] = take (unat n) (drop (unat pos) (file_bytes d (hdr f)))"
    using l by (intro nth_equalityI) (auto simp add: file_bytes_def)
  moreover have "file_bytes d' (hdr f) = file_bytes d (hdr f)" by (simp add: file_bytes_def file_byte_def d'(3))
  ultimately show "\<exists>d'. OpenFile_ReadAt f d n pos = Inr (take (unat n) (drop (unat pos) (file_bytes d (hdr f))), d') \<and>
      (hdr_ok (hdr f) \<and> disk_ok d') \<and> file_bytes d' (hdr f) = file_bytes d (hdr f)" using a d' by auto
qed

section \<open>Allocation of the pages\<close>

definition entry :: "nat \<Rightarrow> nat \<Rightarrow> TranslationEntry" where
  "entry i p = \<lparr>virtualPage = of_nat i, physicalPage = of_nat p, valid = True, readOnly = False, use = False, dirty = False\<rparr>"

text \<open>The fills of the first page: the last one stays.\<close>

definition filled :: "nat list \<Rightarrow> u8 list \<Rightarrow> u8 list" where
  "filled fs mem = (if fs = [] then mem else blit mem 0 (replicate 128 (of_nat (last fs))))"

lemma filled_Cons: "128 \<le> length mem \<Longrightarrow> filled fs (blit mem 0 (replicate 128 (of_nat p))) = filled (p # fs) mem"
  by (cases fs) (simp_all add: filled_def blit_def)

lemma length_filled [simp]: "128 \<le> length mem \<Longrightarrow> length (filled fs mem) = length mem"
  by (simp add: filled_def)

lemma nth_filled: "128 \<le> length mem \<Longrightarrow> x < length mem \<Longrightarrow>
    filled fs mem ! x = (if fs \<noteq> [] \<and> x < 128 then of_nat (last fs) else mem ! x)"
  by (simp add: filled_def nth_blit)

lemma pages_loop_alloc:
  assumes "alloc_n Bitmap_Find (length is) b = Inr (map int fs, b')" and "128 \<le> length mem" and "\<forall>p\<in>set fs. p < 128"
  shows "pages_loop is b mem = Inr (map2 entry is fs, b', filled fs mem)"
  using assms
proof (induction "is" arbitrary: fs b mem)
  case Nil
  then show ?case by (auto simp add: filled_def)
next
  case (Cons i "is")
  then obtain p fs1 b1 where p: "Bitmap_Find b = Inr (int p, b1)" "alloc_n Bitmap_Find (length is) b1 = Inr (map int fs1, b')" "fs = p # fs1"
    by (auto simp add: res_simps map_eq_Cons_conv Cons_eq_map_conv split: prod.splits)
  have u: "ucast (of_nat p :: u32) = (of_nat p :: u8)" by (rule word_unat_eq_iff [THEN iffD2]) (use Cons.prems p in \<open>simp add: unat_of_nat unsigned_ucast_eq take_bit_eq_mod\<close>)
  have "pages_loop is b1 (blit mem 0 (replicate 128 (of_nat p))) = Inr (map2 entry is fs1, b', filled fs1 (blit mem 0 (replicate 128 (of_nat p))))"
    using Cons.prems p by (intro Cons.IH) simp_all
  then show ?case using Cons.prems p by (simp add: entry_def u PAGE_SIZE_def filled_Cons)
qed

text \<open>Physical addresses of an address space with the pages \<open>fs\<close>.\<close>

definition paddr :: "nat list \<Rightarrow> nat \<Rightarrow> nat" where
  "paddr fs v = fs ! (v div 128) * 128 + v mod 128"

lemma paddr_bound: "v < length fs * 128 \<Longrightarrow> \<forall>p\<in>set fs. p < 128 \<Longrightarrow> paddr fs v < 16384"
proof -
  assume v: "v < length fs * 128" and p: "\<forall>p\<in>set fs. p < 128"
  then have "v div 128 < length fs" by (simp add: less_mult_imp_div_less)
  with p have "fs ! (v div 128) < 128" by simp
  moreover have "v mod 128 < 128" by simp
  ultimately show ?thesis unfolding paddr_def by linarith
qed

lemma paddr_inj:
  assumes "distinct fs" and "v < length fs * 128" and "w < length fs * 128" and "paddr fs v = paddr fs w"
  shows "v = w"
proof -
  have d: "v div 128 < length fs" "w div 128 < length fs" using assms(2,3) by (simp_all add: less_mult_imp_div_less)
  have "paddr fs v div 128 = paddr fs w div 128" "paddr fs v mod 128 = paddr fs w mod 128" using assms(4) by simp_all
  then have "fs ! (v div 128) = fs ! (w div 128)" and m: "v mod 128 = w mod 128" by (simp_all add: paddr_def)
  with assms(1) d have "v div 128 = w div 128" by (simp add: nth_eq_iff_index_eq)
  with m show ?thesis by (metis div_mult_mod_eq)
qed

lemma paddr_word:
  assumes "\<forall>p\<in>set fs. p < 128" and "unat va + i < length fs * 128" and "length fs \<le> 128"
  shows "unat ((va + of_nat i) div PAGE_SIZE) = (unat va + i) div 128" and "(unat va + i) div 128 < length fs"
    and "unat ((of_nat (fs ! ((unat va + i) div 128)) :: u32) * PAGE_SIZE + (va + of_nat i) mod PAGE_SIZE) = paddr fs (unat va + i)"
proof -
  have l: "unat va + i < 16384" using assms(2,3) by linarith
  then have "unat (of_nat i :: u32) = i" by (simp add: unat_of_nat)
  with l have u: "unat (va + of_nat i) = unat va + i" by (simp add: unat_add32)
  show "unat ((va + of_nat i) div PAGE_SIZE) = (unat va + i) div 128" by (simp add: unat_div u PAGE_SIZE_def)
  show k: "(unat va + i) div 128 < length fs" using assms(2) by (simp add: less_mult_imp_div_less)
  then have f: "fs ! ((unat va + i) div 128) < 128" using assms(1) by simp
  then have "(of_nat (fs ! ((unat va + i) div 128)) :: u32) < NUM_PHYS_PAGES" by (simp add: word_less_nat_alt unat_of_nat NUM_PHYS_PAGES_def)
  from unat_phys [OF this, of "va + of_nat i"] f show
    "unat ((of_nat (fs ! ((unat va + i) div 128)) :: u32) * PAGE_SIZE + (va + of_nat i) mod PAGE_SIZE) = paddr fs (unat va + i)"
    by (simp add: u paddr_def unat_of_nat)
qed

section \<open>Loading of a segment\<close>

text \<open>The memory \<open>mem'\<close> is \<open>mem\<close> with the bytes \<open>bs\<close> at the virtual addresses from \<open>va\<close> on.\<close>

definition loaded :: "nat list \<Rightarrow> nat \<Rightarrow> u8 list \<Rightarrow> u8 list \<Rightarrow> u8 list \<Rightarrow> bool" where
  "loaded fs va bs mem mem' \<longleftrightarrow> length mem' = length mem \<and>
     (\<forall>i<length bs. mem' ! paddr fs (va + i) = bs ! i) \<and>
     (\<forall>x<length mem. (\<forall>i<length bs. x \<noteq> paddr fs (va + i)) \<longrightarrow> mem' ! x = mem ! x)"

definition space_wf :: "nat list \<Rightarrow> bool" where
  "space_wf fs \<longleftrightarrow> distinct fs \<and> length fs \<le> 128 \<and> (\<forall>p\<in>set fs. p < 128)"

lemma loaded_Cons:
  assumes "loaded fs (Suc va) bs (mem[paddr fs va := b]) mem'" and "space_wf fs" and "length mem = 16384"
    and "va + length bs < length fs * 128"
  shows "loaded fs va (b # bs) mem mem'"
proof -
  have p: "paddr fs va < length mem" using paddr_bound [of va fs] assms(2-4) by (simp add: space_wf_def)
  have ne: "paddr fs va \<noteq> paddr fs (Suc va + i)" if "i < length bs" for i
    using paddr_inj [of fs va "Suc va + i"] assms(2,4) that by (auto simp add: space_wf_def)
  have "mem' ! paddr fs (va + i) = (b # bs) ! i" if "i < length (b # bs)" for i
  proof (cases i)
    case 0
    with assms(1) p ne show ?thesis by (simp add: loaded_def)
  next
    case (Suc j)
    with assms(1) that show ?thesis by (simp add: loaded_def)
  qed
  moreover have "mem' ! x = mem ! x" if x: "x < length mem" "\<forall>i<length (b # bs). x \<noteq> paddr fs (va + i)" for x
  proof -
    have "x \<noteq> paddr fs va" using spec [OF x(2), of 0] by simp
    moreover have "x \<noteq> paddr fs (Suc va + i)" if "i < length bs" for i using spec [OF x(2), of "Suc i"] that by simp
    ultimately show ?thesis using assms(1) x(1) by (simp add: loaded_def)
  qed
  ultimately show ?thesis using assms(1) by (simp add: loaded_def)
qed

context program_file
begin

lemma load_loop_ok:
  assumes "\<And>d i. k \<le> i \<Longrightarrow> i < k + length bs \<Longrightarrow> block d 1 (of_nat i) = rd d 1 (fa + of_nat i)"
    and "space_wf fs" and "unat va + k + length bs \<le> length fs * 128"
    and "\<forall>i<length bs. unat fa + k + i < length (content d) \<and> bs ! i = content d ! (unat fa + k + i)"
    and "unat fa + k + length bs < 4294967296"
    and "length mem = 16384" and "ok d"
  shows "\<exists>d' mem'. load_loop block (map2 entry [0..<length fs] fs) va [k..<k + length bs] d mem = Inr (d', mem') \<and> ok d' \<and>
     content d' = content d \<and> loaded fs (unat va + k) bs mem mem'"
  using assms
proof (induction bs arbitrary: k d mem)
  case Nil
  then show ?case by (simp add: loaded_def)
next
  case (Cons b bs)
  have wf: "\<forall>p\<in>set fs. p < 128" "length fs \<le> 128" using Cons.prems(2) by (simp_all add: space_wf_def)
  have kv: "unat va + k < length fs * 128" using Cons.prems(3) by simp
  note w = paddr_word [OF wf(1) kv wf(2)]
  have un: "unat (fa + of_nat k) = unat fa + k" using Cons.prems(5) by (simp add: unat_add32 unat_of_nat)
  have b: "unat fa + k < length (content d)" "b = content d ! (unat fa + k)" using spec [OF Cons.prems(4), of 0] by simp_all
  obtain d1 where d1: "rd d 1 (fa + of_nat k) = Inr ([b], d1)" "ok d1" "content d1 = content d"
    using read_byte [OF Cons.prems(7), of "fa + of_nat k"] b un by metis
  have blk: "block d 1 (of_nat k) = Inr ([b], d1)" using Cons.prems(1) [of k d] d1(1) by simp
  have p: "paddr fs (unat va + k) < length mem" using paddr_bound [OF kv wf(1)] Cons.prems(6) by simp
  let ?mem = "mem[paddr fs (unat va + k) := b]"
  have "\<exists>d' mem'. load_loop block (map2 entry [0..<length fs] fs) va [Suc k..<Suc k + length bs] d1 ?mem = Inr (d', mem') \<and> ok d' \<and>
     content d' = content d1 \<and> loaded fs (unat va + Suc k) bs ?mem mem'"
  proof (rule Cons.IH)
    show "\<forall>i<length bs. unat fa + Suc k + i < length (content d1) \<and> bs ! i = content d1 ! (unat fa + Suc k + i)"
      using Cons.prems(4) by (auto simp add: d1(3) dest: spec [of _ "Suc i" for i])
  qed (use Cons.prems d1 in auto)
  then obtain d' mem' where l: "load_loop block (map2 entry [0..<length fs] fs) va [Suc k..<Suc k + length bs] d1 ?mem = Inr (d', mem')"
    "ok d'" "content d' = content d" "loaded fs (Suc (unat va + k)) bs ?mem mem'" using d1(3) by auto
  have "[k..<k + length (b # bs)] = k # [Suc k..<Suc k + length bs]"
    using upt_conv_Cons [of k "Suc k + length bs"] by simp
  moreover have "aget (map2 entry [0..<length fs] fs) (unat ((va + of_nat k) div PAGE_SIZE)) = Inr (entry ((unat va + k) div 128) (fs ! ((unat va + k) div 128)))"
    using w(2) by (simp add: w(1))
  moreover have "loaded fs (unat va + k) (b # bs) mem mem'"
    using l(4) Cons.prems(2,3,6) by (intro loaded_Cons) simp_all
  ultimately show ?case using l blk p w(3) by (simp add: entry_def Let_def del: upt_Suc)
qed

end

section \<open>The memory of a new address space\<close>

definition space_pages :: "noffHeader \<Rightarrow> nat" where
  "space_pages h = unat (pages_of (GetSize h + USER_STACK_SIZE))"

text \<open>A segment that lies inside the file and inside the address space.\<close>

definition segment_ok :: "nat \<Rightarrow> nat \<Rightarrow> noffSegment \<Rightarrow> bool" where
  "segment_ok len n g \<longleftrightarrow> unat (inFileAddr g) + unat (seg_size g) \<le> len \<and> unat (virtualAddr g) + unat (seg_size g) \<le> n * 128"

definition program_ok :: "bool \<Rightarrow> u8 list \<Rightarrow> noffHeader \<Rightarrow> bool" where
  "program_ok be c h \<longleftrightarrow> 40 \<le> length c \<and> length c < 2 ^ 32 \<and> CheckMagic be (header_of (words_of_bytes be (take 40 c))) = (True, h) \<and>
     segment_ok (length c) (space_pages h) (code h) \<and> segment_ok (length c) (space_pages h) (initData h)"

definition segment_bytes :: "u8 list \<Rightarrow> noffSegment \<Rightarrow> u8 list" where
  "segment_bytes c g = take (unat (seg_size g)) (drop (unat (inFileAddr g)) c)"

lemma length_segment_bytes: "segment_ok (length c) n g \<Longrightarrow> length (segment_bytes c g) = unat (seg_size g)"
  by (auto simp add: segment_ok_def segment_bytes_def min_def)

lemma block_reads:
  "i < unat (seg_size (code h)) \<Longrightarrow> ReadCodeBlock rd h d 1 (of_nat i) = rd d 1 (inFileAddr (code h) + of_nat i)"
  "i < unat (seg_size (initData h)) \<Longrightarrow> ReadDataBlock rd h d 1 (of_nat i) = rd d 1 (inFileAddr (initData h) + of_nat i)"
  using unat_less32 [of "seg_size (code h)"] unat_less32 [of "seg_size (initData h)"]
  by (simp_all add: ReadCodeBlock_def ReadDataBlock_def word_less_nat_alt unat_of_nat)

definition space_mmu :: "AddressSpace \<Rightarrow> u8 list \<Rightarrow> mmu" where
  "space_mmu s mem = \<lparr>mainMemory = mem, tlb = None, pageTable = Some (as_pageTable s), pageTableSize = numPages s\<rparr>"

definition the_space :: "nat list \<Rightarrow> AddressSpace" where
  "the_space fs = \<lparr>as_pageTable = map2 entry [0..<length fs] fs, numPages = of_nat (length fs)\<rparr>"

lemma space_phys:
  assumes "space_wf fs"
  shows "phys (space_mmu (the_space fs) mem) a = (if unat a < length fs * 128 then Some (paddr fs (unat a)) else None)"
proof -
  have n: "unat (of_nat (length fs) :: u32) = length fs" using assms by (simp add: space_wf_def unat_of_nat)
  have d: "unat (a div PAGE_SIZE) = unat a div 128" by (simp add: unat_div PAGE_SIZE_def)
  have l: "a div PAGE_SIZE < of_nat (length fs) \<longleftrightarrow> unat a < length fs * 128"
    by (simp add: word_less_nat_alt n d div_less_iff_less_mult)
  show ?thesis
  proof (cases "unat a < length fs * 128")
    case True
    then have k: "unat a div 128 < length fs" by (simp add: less_mult_imp_div_less)
    then have "fs ! (unat a div 128) < 128" using assms by (simp add: space_wf_def)
    then have "(of_nat (fs ! (unat a div 128)) :: u32) < NUM_PHYS_PAGES" "unat (of_nat (fs ! (unat a div 128)) :: u32) = fs ! (unat a div 128)"
      by (simp_all add: word_less_nat_alt unat_of_nat NUM_PHYS_PAGES_def)
    with True k l d show ?thesis
      by (simp add: phys_def page_entry_def space_mmu_def the_space_def entry_def paddr_def)
  next
    case False
    with l show ?thesis by (simp add: phys_def page_entry_def space_mmu_def the_space_def)
  qed
qed

lemma space_mmu_ok:
  assumes "space_wf fs" and "length mem = 16384"
  shows "mmu_ok (space_mmu (the_space fs) mem)" and "frames_distinct (space_mmu (the_space fs) mem)"
    and "unat a < length fs * 128 \<Longrightarrow> vmem (space_mmu (the_space fs) mem) a = Some (mem ! paddr fs (unat a))"
proof -
  have n: "unat (of_nat (length fs) :: u32) = length fs" using assms by (simp add: space_wf_def unat_of_nat)
  then show "mmu_ok (space_mmu (the_space fs) mem)" using assms(2) by (simp add: mmu_ok_def space_mmu_def the_space_def)
  show "frames_distinct (space_mmu (the_space fs) mem)"
    using paddr_inj assms(1) by (auto simp add: frames_distinct_def space_phys [OF assms(1)] space_wf_def word_unat_eq_iff split: if_splits)
  show "unat a < length fs * 128 \<Longrightarrow> vmem (space_mmu (the_space fs) mem) a = Some (mem ! paddr fs (unat a))"
    by (simp add: vmem_def space_phys [OF assms(1)]) (simp add: space_mmu_def)
qed

context program_file
begin

lemma load_segment:
  assumes "\<And>d i. i < unat (seg_size g) \<Longrightarrow> block d 1 (of_nat i) = rd d 1 (inFileAddr g + of_nat i)"
    and "space_wf fs" and "segment_ok (length (content d)) (length fs) g" and "length (content d) < 4294967296" and "length mem = 16384" and "ok d"
  obtains d' mem' where "load_loop block (map2 entry [0..<length fs] fs) (virtualAddr g) [0..<unat (seg_size g)] d mem = Inr (d', mem')"
    and "ok d'" and "content d' = content d" and "loaded fs (unat (virtualAddr g)) (segment_bytes (content d) g) mem mem'"
proof -
  let ?bs = "segment_bytes (content d) g"
  have l: "length ?bs = unat (seg_size g)" by (rule length_segment_bytes [OF assms(3)])
  have "\<exists>d' mem'. load_loop block (map2 entry [0..<length fs] fs) (virtualAddr g) [0..<0 + length ?bs] d mem = Inr (d', mem') \<and> ok d' \<and>
     content d' = content d \<and> loaded fs (unat (virtualAddr g) + 0) ?bs mem mem'"
    using assms l by (intro load_loop_ok) (auto simp add: segment_ok_def segment_bytes_def)
  with that l show thesis by auto
qed

lemma AddressSpace_new_ok:
  assumes p: "program_ok be (content d) h" and d: "ok d" and b: "bitmap_inv b" "numBits b = 128" and m: "length mem = 16384"
    and raw: "length raw = 40" and room: "space_pages h + card (marked b) \<le> 128"
  obtains fs d' b' mem1 mem' where "AddressSpace_new rd be raw d b mem = Inr (the_space fs, d', b', mem')"
    and "space_wf fs" and "length fs = space_pages h" and "set fs \<inter> marked b = {}" and "marked b' = marked b \<union> set fs"
    and "bitmap_inv b'" and "numBits b' = 128"
    and "loaded fs (unat (virtualAddr (code h))) (segment_bytes (content d) (code h)) (filled fs mem) mem1"
    and "loaded fs (unat (virtualAddr (initData h))) (segment_bytes (content d) (initData h)) mem1 mem'"
proof -
  let ?n = "space_pages h" and ?c = "content d"
  have p': "40 \<le> length ?c" "length ?c < 4294967296" "CheckMagic be (header_of (words_of_bytes be (take 40 ?c))) = (True, h)"
    and g: "segment_ok (length ?c) ?n (code h)" "segment_ok (length ?c) ?n (initData h)"
    using p by (simp_all add: program_ok_def)
  obtain d1 where d1: "Executable_new rd be raw d = Inr (header_of (words_of_bytes be (take 40 ?c)), d1)" "ok d1" "content d1 = ?c"
    using Executable_new_ok [OF d p'(1), of be raw] raw by auto
  have cc: "Bitmap_CountClear b = Inr (128 - card (marked b))" using bm.count_ok [OF b(1)] b(2) by simp
  obtain fs b' where fs: "alloc_n Bitmap_Find ?n b = Inr (map int fs, b')" "length fs = ?n" "distinct fs" "set fs \<subseteq> {..<128}"
    "set fs \<inter> marked b = {}" "marked b' = marked b \<union> set fs" "bitmap_inv b'" "numBits b' = 128"
    using bm.alloc_n_ok [OF b(1), of ?n] room b(2) by (auto simp add: add.commute)
  have wf: "space_wf fs" using fs(2,3,4) room by (auto simp add: space_wf_def)
  have pl: "pages_loop [0..<?n] b mem = Inr (map2 entry [0..<?n] fs, b', filled fs mem)"
    using fs(1,4) m by (intro pages_loop_alloc) auto
  have f: "length (filled fs mem) = 16384" using m by simp
  obtain d2 mem1 where l1: "load_loop (ReadCodeBlock rd h) (map2 entry [0..<?n] fs) (virtualAddr (code h)) [0..<unat (seg_size (code h))] d1 (filled fs mem) = Inr (d2, mem1)"
    "ok d2" "content d2 = ?c" "loaded fs (unat (virtualAddr (code h))) (segment_bytes ?c (code h)) (filled fs mem) mem1"
    using load_segment [of "code h" "ReadCodeBlock rd h" fs d1 "filled fs mem", OF block_reads(1)] wf g(1) d1 f p'(2) fs(2) by auto
  have "length mem1 = 16384" using l1(4) f by (simp add: loaded_def)
  with g(2) p'(2) l1(2,3) fs(2) obtain d3 mem' where l2: "load_loop (ReadDataBlock rd h) (map2 entry [0..<?n] fs) (virtualAddr (initData h)) [0..<unat (seg_size (initData h))] d2 mem1 = Inr (d3, mem')"
    "loaded fs (unat (virtualAddr (initData h))) (segment_bytes ?c (initData h)) mem1 mem'"
    using load_segment [of "initData h" "ReadDataBlock rd h" fs d2 mem1, OF block_reads(2) wf] by metis
  have i1: "(if seg_size (code h) > 0 then load_loop (ReadCodeBlock rd h) (map2 entry [0..<?n] fs) (virtualAddr (code h)) [0..<unat (seg_size (code h))] d1 (filled fs mem)
      else Inr (d1, filled fs mem)) = Inr (d2, mem1)"
    using l1(1) by (cases "seg_size (code h) = 0") (simp_all add: word_gt_0)
  have i2: "(if seg_size (initData h) > 0 then load_loop (ReadDataBlock rd h) (map2 entry [0..<?n] fs) (virtualAddr (initData h)) [0..<unat (seg_size (initData h))] d2 mem1
      else Inr (d2, mem1)) = Inr (d3, mem')"
    using l2(1) by (cases "seg_size (initData h) = 0") (simp_all add: word_gt_0)
  have n: "?n \<le> 128 - card (marked b)" "pages_of (GetSize h + USER_STACK_SIZE) = of_nat ?n"
    using room by (simp_all add: space_pages_def)
  have un: "unat (of_nat ?n :: u32) = ?n" by (simp add: space_pages_def)
  have "AddressSpace_new rd be raw d b mem = Inr (the_space fs, d3, b', mem')"
    using n(1) unfolding AddressSpace_new_def GetCodeSize_def GetInitDataSize_def GetCodeAddr_def GetInitDataAddr_def Let_def
    by (simp add: d1(1) p'(3) cc pl n(2) un the_space_def fs(2) i1 i2 split del: if_split)
  from that [OF this wf fs(2,5,6,7,8) l1(4) l2(2)] show thesis .
qed

end

text \<open>Outside the segment's pages nothing changes; inside, the segment's bytes are where its addresses say.\<close>

lemma loaded_outside:
  assumes "loaded fs va bs mem mem'" and "va + length bs \<le> length fs * 128" and "x < length mem" and "x div 128 \<notin> set fs"
  shows "mem' ! x = mem ! x"
proof -
  have "x \<noteq> paddr fs (va + i)" if "i < length bs" for i
  proof
    assume "x = paddr fs (va + i)"
    then have "x div 128 = fs ! ((va + i) div 128)" by (simp add: paddr_def)
    moreover have "(va + i) div 128 < length fs" using that assms(2) by (intro less_mult_imp_div_less) simp
    ultimately show False using assms(4) by simp
  qed
  with assms(1,3) show ?thesis by (simp add: loaded_def)
qed

lemma loaded_keeps:
  assumes "loaded fs va bs mem mem'" and "space_wf fs" and "va + length bs \<le> length fs * 128" and "length mem = 16384"
    and "w < length fs * 128" and "\<not> (va \<le> w \<and> w < va + length bs)"
  shows "mem' ! paddr fs w = mem ! paddr fs w"
proof -
  have "paddr fs w \<noteq> paddr fs (va + i)" if "i < length bs" for i
    using paddr_inj [of fs w "va + i"] assms(2,3,5,6) that by (auto simp add: space_wf_def)
  moreover have "paddr fs w < length mem" using paddr_bound [OF assms(5)] assms(2,4) by (simp add: space_wf_def)
  ultimately show ?thesis using assms(1) by (simp add: loaded_def)
qed

subsection \<open>A concrete program\<close>

definition demo_words :: "u32 list" where
  "demo_words = [NOFF_MAGIC, 0, 40, 2, 128, 42, 1, 129, 0, 5]"

definition demo_image :: "u8 list" where
  "demo_image = bytes_of_words False demo_words @ [17, 34, 51]"

definition demo_head :: noffHeader where
  "demo_head = header_of demo_words"

definition demo_pages :: bitmap where
  "demo_pages = \<lparr>numBits = 128, numWords = 4, bm_map = [1, 0, 0, 0]\<rparr>"

lemma demo_pages_ok: "bitmap_inv demo_pages" "numBits demo_pages = 128" "marked demo_pages = {0}"
proof -
  have k: "[1, 0, 0, 0 :: u32] ! k = (if k = 0 then 1 else 0)" if "k < 4" for k
    using that by (auto simp add: nth_Cons' numeral_eq_Suc less_Suc_eq)
  have "bit ([1, 0, 0, 0 :: u32] ! (i div 32)) (i mod 32) \<longleftrightarrow> i = 0" if "i < 128" for i :: nat
  proof -
    have "i div 32 < 4" using that by (simp add: div_less_iff_less_mult)
    then have "bit ([1, 0, 0, 0 :: u32] ! (i div 32)) (i mod 32) \<longleftrightarrow> i div 32 = 0 \<and> i mod 32 = 0"
      by (simp add: k bit_1_iff del: div_eq_0_iff)
    then show ?thesis by auto
  qed
  then show "marked demo_pages = {0}" by (auto simp add: marked_def demo_pages_def BITS_IN_WORD_def)
qed (simp_all add: bitmap_inv_def demo_pages_def DivRoundUp_def BITS_IN_WORD_def)

lemma demo_words_bytes: "bytes_of_words False demo_words =
    [173, 223, 186, 0, 0, 0, 0, 0, 40, 0, 0, 0, 2, 0, 0, 0, 128, 0, 0, 0, 42, 0, 0, 0, 1, 0, 0, 0, 129, 0, 0, 0, 0, 0, 0, 0, 5, 0, 0, 0]"
  by code_simp

lemma demo_program_ok:
  assumes "length c = 200"
  shows "program_ok False (blit c 0 demo_image) demo_head"
proof -
  have l: "length demo_image = 43" by (simp add: demo_image_def demo_words_bytes)
  have t: "take 40 (blit c 0 demo_image) = bytes_of_words False demo_words"
    by (simp add: blit_def demo_image_def demo_words_bytes)
  have "CheckMagic False demo_head = (True, demo_head)" by code_simp
  moreover have "space_pages demo_head = 9" by code_simp
  ultimately show ?thesis using assms l
    by (simp add: program_ok_def t) (simp add: demo_head_def header_of_def segment_ok_def segment_of_def demo_words_def)
qed

lemma demo_program:
  obtains d where "disk_ok d" and "program_ok False (file_bytes d (hdr demo_file)) demo_head"
proof -
  have l: "length demo_image = 43" by (simp add: demo_image_def demo_words_bytes)
  obtain d where d: "disk_ok d" "file_bytes d (hdr demo_file) = blit (file_bytes demo_disk (hdr demo_file)) 0 demo_image"
    using WriteAt_ok [of demo_file demo_disk 43 0 demo_image "\<lambda>_. 0"] demo_disk_ok demo_header_ok(1) demo_numBytes l by auto
  have "length (file_bytes demo_disk (hdr demo_file)) = 200" by (simp add: file_bytes_def demo_file_def demo_header_def)
  from that [OF d(1)] demo_program_ok [OF this] d(2) show thesis by simp
qed

lemma demo_program_room: "space_pages demo_head = 9" "space_pages demo_head + card (marked demo_pages) \<le> 128"
    "hdr_ok (hdr demo_file)"
proof -
  show n: "space_pages demo_head = 9" by code_simp
  show "space_pages demo_head + card (marked demo_pages) \<le> 128" by (simp add: n demo_pages_ok)
  show "hdr_ok (hdr demo_file)" using demo_header_ok demo_numBytes by simp
qed

lemma AddressSpace_spec:
  assumes "hdr_ok (hdr f)" and "disk_ok d" and "program_ok be (file_bytes d (hdr f)) h"
    and "bitmap_inv b" and "numBits b = 128" and "length mem = 16384" and "length raw = 40" and "space_pages h + card (marked b) \<le> 128"
  shows "\<exists>s d' b' mem' fs. AddressSpace_new (OpenFile_ReadAt f) be raw d b mem = Inr (s, d', b', mem') \<and>
     unat (numPages s) = space_pages h \<and> length fs = space_pages h \<and> distinct fs \<and>
     set fs \<inter> marked b = {} \<and> marked b' = marked b \<union> set fs \<and> bitmap_inv b' \<and>
     mmu_ok (space_mmu s mem') \<and> frames_distinct (space_mmu s mem') \<and>
     (\<forall>i<unat (seg_size (initData h)). vmem (space_mmu s mem') (virtualAddr (initData h) + of_nat i) =
        Some (file_bytes d (hdr f) ! (unat (inFileAddr (initData h)) + i))) \<and>
     (\<forall>i<unat (seg_size (code h)). \<not> (unat (virtualAddr (initData h)) \<le> unat (virtualAddr (code h)) + i \<and>
          unat (virtualAddr (code h)) + i < unat (virtualAddr (initData h)) + unat (seg_size (initData h))) \<longrightarrow>
        vmem (space_mmu s mem') (virtualAddr (code h) + of_nat i) = Some (file_bytes d (hdr f) ! (unat (inFileAddr (code h)) + i))) \<and>
     (\<forall>x<16384. 128 \<le> x \<and> x div 128 \<notin> set fs \<longrightarrow> mem' ! x = mem ! x)"
proof -
  let ?c = "file_bytes d (hdr f)"
  obtain fs d' b' mem1 mem' where r: "AddressSpace_new (OpenFile_ReadAt f) be raw d b mem = Inr (the_space fs, d', b', mem')"
    and wf: "space_wf fs" "length fs = space_pages h" and b': "set fs \<inter> marked b = {}" "marked b' = marked b \<union> set fs" "bitmap_inv b'"
    and l1: "loaded fs (unat (virtualAddr (code h))) (segment_bytes ?c (code h)) (filled fs mem) mem1"
    and l2: "loaded fs (unat (virtualAddr (initData h))) (segment_bytes ?c (initData h)) mem1 mem'"
    by (rule ofile.AddressSpace_new_ok [OF assms(3) conjI [OF assms(1,2)] assms(4-8)])
  have g: "segment_ok (length ?c) (length fs) (code h)" "segment_ok (length ?c) (length fs) (initData h)"
    using assms(3) wf(2) by (simp_all add: program_ok_def)
  note lens = length_segment_bytes [OF g(1)] length_segment_bytes [OF g(2)]
  have va: "unat (virtualAddr (code h)) + unat (seg_size (code h)) \<le> length fs * 128"
    "unat (virtualAddr (initData h)) + unat (seg_size (initData h)) \<le> length fs * 128" using g by (simp_all add: segment_ok_def)
  have n: "length fs \<le> 128" using wf(1) by (simp add: space_wf_def)
  have m1: "length mem1 = 16384" and m': "length mem' = 16384" using l1 l2 assms(6) by (simp_all add: loaded_def)
  note mm = space_mmu_ok [OF wf(1) m']
  have un: "unat (v + of_nat i) = unat v + i" if "unat v + i < length fs * 128" for v :: u32 and i
    using that n by (simp add: unat_add32 unat_of_nat)
  have data: "vmem (space_mmu (the_space fs) mem') (virtualAddr (initData h) + of_nat i) = Some (?c ! (unat (inFileAddr (initData h)) + i))"
    if "i < unat (seg_size (initData h))" for i
    using mm(3) un va(2) that l2 lens(2) g(2) by (simp add: loaded_def segment_bytes_def segment_ok_def)
  have code: "vmem (space_mmu (the_space fs) mem') (virtualAddr (code h) + of_nat i) = Some (?c ! (unat (inFileAddr (code h)) + i))"
    if i: "i < unat (seg_size (code h))" and o: "\<not> (unat (virtualAddr (initData h)) \<le> unat (virtualAddr (code h)) + i \<and>
          unat (virtualAddr (code h)) + i < unat (virtualAddr (initData h)) + unat (seg_size (initData h)))" for i
  proof -
    have v: "unat (virtualAddr (code h)) + i < length fs * 128" using va(1) i by simp
    have "mem' ! paddr fs (unat (virtualAddr (code h)) + i) = mem1 ! paddr fs (unat (virtualAddr (code h)) + i)"
      using loaded_keeps [OF l2 wf(1) _ m1 v] va(2) lens(2) o by simp
    also have "\<dots> = ?c ! (unat (inFileAddr (code h)) + i)"
      using l1 i lens(1) g(1) by (simp add: loaded_def segment_bytes_def segment_ok_def)
    finally show ?thesis using mm(3) un [OF v] v by simp
  qed
  have other: "mem' ! x = mem ! x" if "x < 16384" "128 \<le> x" "x div 128 \<notin> set fs" for x
    using loaded_outside [OF l2] loaded_outside [OF l1] that va lens m1 assms(6) by (simp add: nth_filled)
  have "unat (numPages (the_space fs)) = space_pages h" using n wf(2) by (simp add: the_space_def unat_of_nat)
  moreover have "distinct fs" using wf(1) by (simp add: space_wf_def)
  ultimately show ?thesis using r wf(2) b' mm(1,2) data code other
    by (intro exI [of _ "the_space fs"] exI [of _ d'] exI [of _ b'] exI [of _ mem'] exI [of _ fs]) blast
qed

text \<open>C4: Loading a program. For a well-formed program file, with enough free pages, the constructor of the
  address space succeeds, takes as many pages as the program needs, all free before and no others, and
  the machine that uses the new page table sees the bytes of the data segment and of the code
  segment at their virtual addresses (data over code where they overlap). The pages of other address
  spaces keep their contents, except the first page of the main memory.\<close>

theorem AddressSpace_loads:
  assumes "hdr_ok (hdr f)" and "disk_ok d" and "program_ok be (file_bytes d (hdr f)) h"
    and "bitmap_inv b" and "numBits b = 128" and "length mem = 16384" and "length raw = 40" and "space_pages h + card (marked b) \<le> 128"
  shows "\<exists>s d' b' mem' fs. AddressSpace_new (OpenFile_ReadAt f) be raw d b mem = Inr (s, d', b', mem') \<and>
     unat (numPages s) = space_pages h \<and> length fs = space_pages h \<and> distinct fs \<and>
     set fs \<inter> marked b = {} \<and> marked b' = marked b \<union> set fs \<and> bitmap_inv b' \<and>
     mmu_ok (space_mmu s mem') \<and> frames_distinct (space_mmu s mem') \<and>
     (\<forall>i<unat (seg_size (initData h)). vmem (space_mmu s mem') (virtualAddr (initData h) + of_nat i) =
        Some (file_bytes d (hdr f) ! (unat (inFileAddr (initData h)) + i))) \<and>
     (\<forall>i<unat (seg_size (code h)). \<not> (unat (virtualAddr (initData h)) \<le> unat (virtualAddr (code h)) + i \<and>
          unat (virtualAddr (code h)) + i < unat (virtualAddr (initData h)) + unat (seg_size (initData h))) \<longrightarrow>
        vmem (space_mmu s mem') (virtualAddr (code h) + of_nat i) = Some (file_bytes d (hdr f) ! (unat (inFileAddr (code h)) + i))) \<and>
     (\<forall>x<16384. 128 \<le> x \<and> x div 128 \<notin> set fs \<longrightarrow> mem' ! x = mem ! x)"
  by (rule AddressSpace_spec [OF assms])

theorem AddressSpace_loads_witness:
  "\<exists>d s d' b' mem'. AddressSpace_new (OpenFile_ReadAt demo_file) False (replicate 40 0) d demo_pages (replicate 16384 0) = Inr (s, d', b', mem') \<and>
     unat (numPages s) = 9 \<and> mmu_ok (space_mmu s mem')"
proof -
  obtain d where d: "disk_ok d" "program_ok False (file_bytes d (hdr demo_file)) demo_head" by (rule demo_program)
  from AddressSpace_loads [OF demo_program_room(3) d demo_pages_ok(1,2) _ _ demo_program_room(2), of "replicate 16384 0" "replicate 40 0"]
  show ?thesis unfolding demo_program_room(1) length_replicate by blast
qed

lemma free_loop_ok:
  assumes "bitmap_inv b" and "numBits b = 128" and "\<forall>i\<in>set is. i < length fs" and "\<forall>p\<in>set fs. p < 128"
  shows "\<exists>b'. free_loop (map2 entry [0..<length fs] fs) is b = Inr b' \<and> bitmap_inv b' \<and> numBits b' = 128 \<and>
     marked b' = marked b - (\<lambda>i. fs ! i) ` set is"
  using assms
proof (induction "is" arbitrary: b)
  case (Cons i "is")
  then have i: "i < length fs" "fs ! i < 128" by simp_all
  then have u: "unat (of_nat (fs ! i) :: u32) = fs ! i" by (simp add: unat_of_nat)
  obtain b1 where b1: "Bitmap_Clear b (fs ! i) = Inr b1" "marked b1 = marked b - {fs ! i}" "bitmap_inv b1" "numBits b1 = 128"
    using bm.clear_ok [OF Cons.prems(1), of "fs ! i"] i(2) Cons.prems(2) by auto
  from Cons.IH [OF b1(3,4)] Cons.prems(3,4) obtain b' where
    "free_loop (map2 entry [0..<length fs] fs) is b1 = Inr b'" "bitmap_inv b'" "numBits b' = 128" "marked b' = marked b1 - (\<lambda>i. fs ! i) ` set is" by auto
  with i u b1 show ?case by (auto simp add: entry_def)
qed simp

lemma delete_ok:
  assumes "bitmap_inv b" and "numBits b = 128" and "space_wf fs"
  obtains b' where "AddressSpace_delete (the_space fs) b = Inr b'" and "bitmap_inv b'" and "marked b' = marked b - set fs"
proof -
  have n: "unat (of_nat (length fs) :: u32) = length fs" using assms(3) by (simp add: space_wf_def unat_of_nat)
  have "(\<lambda>i. fs ! i) ` set [0..<length fs] = set fs"
    unfolding set_map [symmetric] map_nth ..
  with free_loop_ok [OF assms(1,2), of "[0..<length fs]" fs] assms(3) n that show thesis
    by (auto simp add: AddressSpace_delete_def the_space_def space_wf_def)
qed

text \<open>C28: Pages of processes. Two programs loaded one after the other get disjoint physical memory: no physical
  byte is visible through both page tables. Deleting the second address space gives back exactly its
  pages.\<close>

theorem AddressSpaces_disjoint:
  assumes "hdr_ok (hdr f)" and "hdr_ok (hdr f2)" and "disk_ok d" and "disk_ok d2"
    and "program_ok be (file_bytes d (hdr f)) h" and "program_ok be (file_bytes d2 (hdr f2)) h2"
    and "bitmap_inv b" and "numBits b = 128" and "length mem = 16384" and "length mem2 = 16384" and "length raw = 40"
    and "space_pages h + space_pages h2 + card (marked b) \<le> 128"
  shows "\<exists>s d' b' mem' s2 d2' b2 mem2' b3. AddressSpace_new (OpenFile_ReadAt f) be raw d b mem = Inr (s, d', b', mem') \<and>
     AddressSpace_new (OpenFile_ReadAt f2) be raw d2 b' mem2 = Inr (s2, d2', b2, mem2') \<and>
     (\<forall>x y p. phys (space_mmu s mem2') x = Some p \<longrightarrow> phys (space_mmu s2 mem2') y \<noteq> Some p) \<and>
     AddressSpace_delete s2 b2 = Inr b3 \<and> marked b3 = marked b' \<and> bitmap_inv b3"
proof -
  have "space_pages h + card (marked b) \<le> 128" using assms(12) by simp
  then obtain fs d' b' mem' where r: "AddressSpace_new (OpenFile_ReadAt f) be raw d b mem = Inr (the_space fs, d', b', mem')"
    and wf: "space_wf fs" "length fs = space_pages h" and b': "set fs \<inter> marked b = {}" "marked b' = marked b \<union> set fs" "bitmap_inv b'" "numBits b' = 128"
    by (rule ofile.AddressSpace_new_ok [OF assms(5) conjI [OF assms(1,3)] assms(7,8,9,11)])
  have "card (marked b') \<le> card (marked b) + space_pages h"
    using card_Un_le [of "marked b" "set fs"] card_length [of fs] by (simp add: b'(2) wf(2) [symmetric])
  then have room: "space_pages h2 + card (marked b') \<le> 128" using assms(12) by simp
  obtain fs2 d2' b2 mem2' where r2: "AddressSpace_new (OpenFile_ReadAt f2) be raw d2 b' mem2 = Inr (the_space fs2, d2', b2, mem2')"
    and wf2: "space_wf fs2" and b2: "set fs2 \<inter> marked b' = {}" "marked b2 = marked b' \<union> set fs2" "bitmap_inv b2" "numBits b2 = 128"
    by (rule ofile.AddressSpace_new_ok [OF assms(6) conjI [OF assms(2,4)] b'(3,4) assms(10,11) room])
  obtain b3 where b3: "AddressSpace_delete (the_space fs2) b2 = Inr b3" "bitmap_inv b3" "marked b3 = marked b2 - set fs2"
    by (rule delete_ok [OF b2(3,4) wf2])
  have dj: "set fs \<inter> set fs2 = {}" using b2(1) b'(2) by auto
  have "phys (space_mmu (the_space fs2) mem2') y \<noteq> Some p" if "phys (space_mmu (the_space fs) mem2') x = Some p" for x y p
  proof
    assume "phys (space_mmu (the_space fs2) mem2') y = Some p"
    with that have p: "unat x < length fs * 128" "unat y < length fs2 * 128" "p = paddr fs (unat x)" "p = paddr fs2 (unat y)"
      by (simp_all add: space_phys wf(1) wf2 split: if_splits)
    have "p div 128 = fs ! (unat x div 128)" "p div 128 = fs2 ! (unat y div 128)" using p(3,4) by (simp_all add: paddr_def)
    moreover have "unat x div 128 < length fs" "unat y div 128 < length fs2" using p(1,2) by (simp_all add: less_mult_imp_div_less)
    ultimately have "p div 128 \<in> set fs" "p div 128 \<in> set fs2" by (metis nth_mem)+
    with dj show False by auto
  qed
  moreover have "marked b3 = marked b'" using b3(3) b2(1,2) by auto
  ultimately show ?thesis using r r2 b3(1,2) by blast
qed

theorem AddressSpaces_disjoint_witness:
  "\<exists>d s d' b' mem' s2 d2' b2 mem2' b3.
     AddressSpace_new (OpenFile_ReadAt demo_file) False (replicate 40 0) d demo_pages (replicate 16384 0) = Inr (s, d', b', mem') \<and>
     AddressSpace_new (OpenFile_ReadAt demo_file) False (replicate 40 0) d b' (replicate 16384 0) = Inr (s2, d2', b2, mem2') \<and>
     AddressSpace_delete s2 b2 = Inr b3 \<and> marked b3 = marked b'"
proof -
  obtain d where d: "disk_ok d" "program_ok False (file_bytes d (hdr demo_file)) demo_head" by (rule demo_program)
  have "space_pages demo_head + space_pages demo_head + card (marked demo_pages) \<le> 128" by (simp add: demo_program_room demo_pages_ok)
  from AddressSpaces_disjoint [OF demo_program_room(3,3) d(1,1) d(2,2) demo_pages_ok(1,2) _ _ _ this, of "replicate 16384 0" "replicate 16384 0" "replicate 40 0"]
  show ?thesis unfolding length_replicate by blast
qed

text \<open>A new address space is not cleared, and loading it damages another process. Outside its segments
  (the uninitialised data and the stack) the program sees what the previous owners of its pages left;
  and when another process has the first page of the main memory, that page is overwritten with the
  number of the last page taken.\<close>

theorem AddressSpace_not_cleared:
  assumes "hdr_ok (hdr f)" and "disk_ok d" and "program_ok be (file_bytes d (hdr f)) h"
    and "bitmap_inv b" and "numBits b = 128" and "length mem = 16384" and "length raw = 40" and "space_pages h + card (marked b) \<le> 128"
    and "0 \<in> marked b" and "0 < space_pages h"
  shows "\<exists>s d' b' mem' p. AddressSpace_new (OpenFile_ReadAt f) be raw d b mem = Inr (s, d', b', mem') \<and> p \<in> marked b' - marked b \<and>
     (\<forall>x<128. mem' ! x = of_nat p) \<and>
     (\<forall>a. unat a < space_pages h * 128 \<longrightarrow> \<not> unat (a - virtualAddr (code h)) < unat (seg_size (code h)) \<longrightarrow>
        \<not> unat (a - virtualAddr (initData h)) < unat (seg_size (initData h)) \<longrightarrow>
        vmem (space_mmu s mem') a = vmem (space_mmu s mem) a)"
proof -
  let ?c = "file_bytes d (hdr f)"
  obtain fs d' b' mem1 mem' where r: "AddressSpace_new (OpenFile_ReadAt f) be raw d b mem = Inr (the_space fs, d', b', mem')"
    and wf: "space_wf fs" "length fs = space_pages h" and b': "set fs \<inter> marked b = {}" "marked b' = marked b \<union> set fs"
    and l1: "loaded fs (unat (virtualAddr (code h))) (segment_bytes ?c (code h)) (filled fs mem) mem1"
    and l2: "loaded fs (unat (virtualAddr (initData h))) (segment_bytes ?c (initData h)) mem1 mem'"
    by (rule ofile.AddressSpace_new_ok [OF assms(3) conjI [OF assms(1,2)] assms(4-8)])
  have g: "segment_ok (length ?c) (length fs) (code h)" "segment_ok (length ?c) (length fs) (initData h)"
    using assms(3) wf(2) by (simp_all add: program_ok_def)
  note lens = length_segment_bytes [OF g(1)] length_segment_bytes [OF g(2)]
  have va: "unat (virtualAddr (code h)) + unat (seg_size (code h)) \<le> length fs * 128"
    "unat (virtualAddr (initData h)) + unat (seg_size (initData h)) \<le> length fs * 128" using g by (simp_all add: segment_ok_def)
  have m1: "length mem1 = 16384" and m': "length mem' = 16384" using l1 l2 assms(6) by (simp_all add: loaded_def)
  have ne: "fs \<noteq> []" "0 \<notin> set fs" using wf(2) assms(9,10) b'(1) by auto
  have "mem' ! x = of_nat (last fs)" if "x < 128" for x
    using loaded_outside [OF l2] loaded_outside [OF l1] that va lens m1 assms(6) ne by (simp add: nth_filled)
  moreover have "last fs \<in> marked b' - marked b" using last_in_set [OF ne(1)] b' by blast
  moreover have "vmem (space_mmu (the_space fs) mem') a = vmem (space_mmu (the_space fs) mem) a"
    if a: "unat a < space_pages h * 128" and o: "\<not> unat (a - virtualAddr (code h)) < unat (seg_size (code h))"
       "\<not> unat (a - virtualAddr (initData h)) < unat (seg_size (initData h))" for a
  proof -
    have a': "unat a < length fs * 128" using a wf(2) by simp
    have out: "\<not> (unat v \<le> unat a \<and> unat a < unat v + n)" if "\<not> unat (a - v) < n" for v and n
      using that by (auto simp add: unat_sub_if')
    have pb: "paddr fs (unat a) < 16384" using paddr_bound [OF a'] wf(1) by (simp add: space_wf_def)
    have "paddr fs (unat a) div 128 = fs ! (unat a div 128)" by (simp add: paddr_def)
    moreover have "unat a div 128 < length fs" using a' by (simp add: less_mult_imp_div_less)
    ultimately have "paddr fs (unat a) div 128 \<noteq> 0" using ne(2) by (metis nth_mem)
    then have "128 \<le> paddr fs (unat a)" by (meson div_less not_less)
    moreover have "mem' ! paddr fs (unat a) = mem1 ! paddr fs (unat a)"
      using loaded_keeps [OF l2 wf(1) _ m1 a'] va(2) lens(2) out [OF o(2)] by simp
    moreover have "mem1 ! paddr fs (unat a) = filled fs mem ! paddr fs (unat a)"
      using loaded_keeps [OF l1 wf(1) _ _ a'] va(1) lens(1) out [OF o(1)] assms(6) by simp
    ultimately show ?thesis
      using space_mmu_ok(3) [OF wf(1) m' a'] space_mmu_ok(3) [OF wf(1) assms(6) a'] pb assms(6) by (simp add: nth_filled)
  qed
  ultimately show ?thesis using r
    by (intro exI [of _ "the_space fs"] exI [of _ d'] exI [of _ b'] exI [of _ mem'] exI [of _ "last fs"]) blast
qed

theorem AddressSpace_not_cleared_witness:
  "\<exists>d s d' b' mem' p. AddressSpace_new (OpenFile_ReadAt demo_file) False (replicate 40 0) d demo_pages (replicate 16384 7) = Inr (s, d', b', mem') \<and>
     p \<in> marked b' - {0} \<and> (\<forall>x<128. mem' ! x = of_nat p) \<and> vmem (space_mmu s mem') 500 = vmem (space_mmu s (replicate 16384 7)) 500"
proof -
  obtain d where d: "disk_ok d" "program_ok False (file_bytes d (hdr demo_file)) demo_head" by (rule demo_program)
  have z: "0 \<in> marked demo_pages" "0 < space_pages demo_head" by (simp_all add: demo_program_room demo_pages_ok)
  have a: "unat (500 :: u32) < space_pages demo_head * 128" by (simp add: demo_program_room)
  have o: "\<not> unat (500 - virtualAddr (code demo_head)) < unat (seg_size (code demo_head))"
    "\<not> unat (500 - virtualAddr (initData demo_head)) < unat (seg_size (initData demo_head))" by code_simp+
  from AddressSpace_not_cleared [OF demo_program_room(3) d demo_pages_ok(1,2) _ _ demo_program_room(2) z, of "replicate 16384 7" "replicate 40 0"]
  show ?thesis using a o unfolding length_replicate demo_pages_ok(3) by blast
qed

end
