(* ===== verification/Userprog_Exception.thy ===== *)
theory Userprog_Exception
  imports Lib_Table Filesys_FileSystem Userprog_Transfer Userprog_AddressSpace
begin

text \<open>
  System calls and exceptions: \<open>userprog/exception.cc\<close>, \<open>userprog/syscall.h\<close>, and the operations of
  \<open>threads/thread.cc\<close> on open files and on the saved user registers.

  The state of the kernel that the handlers touch is the \<open>kernel\<close> component of the machine: the
  file system and its disk, the open-file objects (a heap; an object is \<open>None\<close> after its destructor), the
  thread objects with their tables of open files, the table of threads, the bitmap of
  physical pages, and the console as the characters that \<open>getChar\<close> will return and those that \<open>putChar\<close> has
  written; \<open>Userprog_SynchConsole\<close> shows that these are in the order of the calls. A handler that does not return to the
  user program ends in another outcome: the machine halts, the thread finishes, it waits for
  input or for another thread, or it has forked one.
\<close>

section \<open>State\<close>

record uthread =
  ut_name :: "u8 list"
  ut_joinable :: bool
  ut_father :: nat
  ut_priority :: int
  ut_space :: "AddressSpace option"
  ut_spaceId :: int
  openedFiles :: "nat option table"
  userRegisters :: "u32 list"

record ukernel =
  k_fs :: filesystem
  k_disk :: disk
  k_files :: "OpenFile option list"
  k_heap :: "uthread list"
  k_threads :: "nat option table"
  k_current :: nat
  k_pages :: bitmap
  k_input :: "u8 list"
  k_output :: "u8 list"

datatype uhandler = DefaultHandler_ptr | SyscallHandler_ptr

type_synonym umachine = "(uhandler, ukernel) machine"
type_synonym urun = "(uhandler, ukernel) run"

datatype outcome =
    Resume umachine                            \<comment> \<open>the handler returns to the user program\<close>
  | Halted umachine                            \<comment> \<open>\<open>interrupt->Halt()\<close> does not return\<close>
  | Finishing u32 umachine                     \<comment> \<open>\<open>currentThread->Finish(status)\<close> does not return\<close>
  | NoInput umachine                           \<comment> \<open>waiting in \<open>getChar\<close>\<close>
  | Joining nat umachine                       \<comment> \<open>waiting in \<open>Join\<close> of a thread\<close>
  | Forking nat "u8 list list option" umachine \<comment> \<open>in \<open>Fork\<close> of a new thread with these arguments\<close>

text \<open>The build and the host: its byte order, and the contents of fresh memory.\<close>

record host_env =
  e_be :: bool
  e_junk :: heap_junk
  e_raw :: "nat \<Rightarrow> u8"
  e_words :: "nat \<Rightarrow> u32"
  e_table :: "nat option list"

definition new_chars :: "host_env \<Rightarrow> nat \<Rightarrow> u8 list" where
  "new_chars E n = map (e_raw E) [0..<n]"

definition upd_kernel :: "(ukernel \<Rightarrow> ukernel) \<Rightarrow> umachine \<Rightarrow> umachine" where
  "upd_kernel f m = m\<lparr>kernel := f (kernel m)\<rparr>"

section \<open>Open files and registers of a thread\<close>

definition Thread_openFile :: "uthread \<Rightarrow> nat \<Rightarrow> (int \<times> uthread) res" where
  "Thread_openFile th file = bindR (Table_Add (openedFiles th) (Some file)) (\<lambda>(realFileId, tb).
     Inr (realFileId + 2, th\<lparr>openedFiles := tb\<rparr>))"

definition Thread_closeFile :: "uthread \<Rightarrow> int \<Rightarrow> (nat option \<times> uthread) res" where
  "Thread_closeFile th fileId = bindR (Table_Remove None (openedFiles th) (fileId - 2)) (\<lambda>(file, tb).
     Inr (file, th\<lparr>openedFiles := tb\<rparr>))"

definition Thread_isOpenedFile :: "uthread \<Rightarrow> int \<Rightarrow> bool res" where
  "Thread_isOpenedFile th fileId = Table_HasKey (openedFiles th) (fileId - 2)"

definition Thread_getFileOpened :: "uthread \<Rightarrow> int \<Rightarrow> nat option res" where
  "Thread_getFileOpened th fileId = Table_Get None (openedFiles th) (fileId - 2)"

fun save_loop :: "nat list \<Rightarrow> umachine \<Rightarrow> u32 list \<Rightarrow> u32 list res" where
  "save_loop [] m rs = Inr rs"
| "save_loop (i # is) m rs = bindR (ReadRegister m i) (\<lambda>v. bindR (aset rs i v) (\<lambda>rs. save_loop is m rs))"

definition SaveUserState :: "umachine \<Rightarrow> uthread \<Rightarrow> uthread res" where
  "SaveUserState m th = bindR (save_loop [0..<NUM_TOTAL_REGS] m (userRegisters th)) (\<lambda>rs. Inr (th\<lparr>userRegisters := rs\<rparr>))"

fun restore_loop :: "nat list \<Rightarrow> u32 list \<Rightarrow> umachine \<Rightarrow> umachine res" where
  "restore_loop [] rs m = Inr m"
| "restore_loop (i # is) rs m = bindR (aget rs i) (\<lambda>v. bindR (WriteRegister m i v) (\<lambda>m. restore_loop is rs m))"

definition RestoreUserState :: "uthread \<Rightarrow> umachine \<Rightarrow> umachine res" where
  "RestoreUserState th m = restore_loop [0..<NUM_TOTAL_REGS] (userRegisters th) m"

text \<open>The current thread and an update of it; an open-file object behind a pointer.\<close>

definition the_thread :: "umachine \<Rightarrow> uthread res" where
  "the_thread m = aget (k_heap (kernel m)) (k_current (kernel m))"

definition put_thread :: "uthread \<Rightarrow> umachine \<Rightarrow> umachine" where
  "put_thread th = upd_kernel (\<lambda>k. k\<lparr>k_heap := (k_heap k)[k_current k := th]\<rparr>)"

definition deref_file :: "nat option \<Rightarrow> umachine \<Rightarrow> (nat \<times> OpenFile) res" where
  "deref_file p m = bindR (need p) (\<lambda>p. bindR (aget (k_files (kernel m)) p) (\<lambda>f.
     case f of None \<Rightarrow> Inl DanglingPtr | Some f \<Rightarrow> Inr (p, f)))"

definition put_file :: "nat \<Rightarrow> OpenFile option \<Rightarrow> umachine \<Rightarrow> umachine" where
  "put_file p f = upd_kernel (\<lambda>k. k\<lparr>k_files := (k_files k)[p := f]\<rparr>)"

definition new_file :: "OpenFile \<Rightarrow> umachine \<Rightarrow> nat \<times> umachine" where
  "new_file f m = (length (k_files (kernel m)), upd_kernel (\<lambda>k. k\<lparr>k_files := k_files k @ [Some f]\<rparr>) m)"

section \<open>Handlers\<close>

definition IncrementPC :: "umachine \<Rightarrow> umachine res" where
  "IncrementPC m =
     bindR (ReadRegister m PC_REG) (\<lambda>pc.
     bindR (WriteRegister m PREV_PC_REG pc) (\<lambda>m.
     bindR (ReadRegister m NEXT_PC_REG) (\<lambda>pc.
     bindR (WriteRegister m PC_REG pc) (\<lambda>m.
     WriteRegister m NEXT_PC_REG (pc + 4)))))"

definition StartProcess2 :: "urun \<Rightarrow> bool \<Rightarrow> u8 list list option \<Rightarrow> umachine \<Rightarrow> umachine res" where
  "StartProcess2 run be args m =
     bindR (the_thread m) (\<lambda>th. bindR (need (ut_space th)) (\<lambda>space.
     bindR (InitRegisters space m) (\<lambda>m.
     let m = RestoreState space m in
     case args of None \<Rightarrow> Inr m
     | Some as \<Rightarrow>
       bindR (WriteArgs run be (Some as) m) (\<lambda>(c, m).
       bindR (WriteRegister m 4 (of_nat c)) (\<lambda>m.
       bindR (ReadRegister m STACK_REG) (\<lambda>sp.
       bindR (WriteRegister m 5 sp) (\<lambda>m.
       WriteRegister m STACK_REG (sp - 16))))))))"

definition DefaultHandler :: "ExceptionType \<Rightarrow> umachine \<Rightarrow> umachine res" where
  "DefaultHandler et m = bindR (ReadRegister m 2) (\<lambda>exceptionArg. Inl AssertFail)"

subsection \<open>Processes\<close>

definition sc_exit :: "umachine \<Rightarrow> outcome res" where
  "sc_exit m = bindR (ReadRegister m 4) (\<lambda>status. bindR (WriteRegister m 2 status) (\<lambda>m. Inr (Finishing status m)))"

text \<open>\<open>new Thread\<close>: the constructor enters the thread into the table.\<close>

definition uThread_new :: "host_env \<Rightarrow> u8 list \<Rightarrow> bool \<Rightarrow> umachine \<Rightarrow> (nat \<times> umachine) res" where
  "uThread_new E name joinable m =
     bindR (the_thread m) (\<lambda>cur.
     let k = kernel m; t = length (k_heap k) in
     bindR (Table_Add (k_threads k) (Some t)) (\<lambda>(sid, tb).
     let th = \<lparr>ut_name = name, ut_joinable = joinable, ut_father = k_current k, ut_priority = ut_priority cur, ut_space = None,
           ut_spaceId = sid, openedFiles = Table_new (e_table E), userRegisters = map (e_words E) [0..<NUM_TOTAL_REGS]\<rparr> in
     Inr (t, upd_kernel (\<lambda>k. k\<lparr>k_heap := k_heap k @ [th], k_threads := tb\<rparr>) m)))"

definition sc_exec :: "host_env \<Rightarrow> urun \<Rightarrow> umachine \<Rightarrow> outcome res" where
  "sc_exec E run m =
     bindR (WriteRegister m 2 (- 1)) (\<lambda>m.
     bindR (ReadRegister m 4) (\<lambda>filenameAddr.
     bindR (ReadRegister m 5) (\<lambda>argsAddr.
     bindR (ReadRegister m 6) (\<lambda>r6.
     let joinable = (r6 = 1) in
     if filenameAddr = 0 then Inr (Resume m)
     else
       bindR (ReadStringFromUser run (e_be E) filenameAddr (Some (new_chars E (FILE_NAME_MAX_LEN + 1))) (of_nat (FILE_NAME_MAX_LEN + 1)) m)
         (\<lambda>(ok, filename, m).
       if \<not> ok then Inr (Resume m)
       else
         bindR (FileSystem_Open (e_be E) (e_junk E) (k_fs (kernel m)) (k_disk (kernel m)) filename) (\<lambda>(exe, d).
         let m = upd_kernel (\<lambda>k. k\<lparr>k_disk := d\<rparr>) m in
         case exe of None \<Rightarrow> Inr (Resume m)
         | Some f \<Rightarrow>
           let (p, m) = new_file f m in
           bindR (uThread_new E filename joinable m) (\<lambda>(execThread, m).
           bindR (AddressSpace_new (OpenFile_ReadAt f) (e_be E) (new_chars E HEADER_SIZE) (k_disk (kernel m)) (k_pages (kernel m)) (mainMemory (m_mmu m)))
             (\<lambda>(execSpace, d, pages, mem).
           let m = upd_kernel (\<lambda>k. k\<lparr>k_disk := d, k_pages := pages\<rparr>) (m\<lparr>m_mmu := (m_mmu m)\<lparr>mainMemory := mem\<rparr>\<rparr>) in
           bindR (aget (k_heap (kernel m)) execThread) (\<lambda>th.
           let m = upd_kernel (\<lambda>k. k\<lparr>k_heap := (k_heap k)[execThread := th\<lparr>ut_space := Some execSpace\<rparr>]\<rparr>) m in
           bindR (Table_Add (k_threads (kernel m)) (Some execThread)) (\<lambda>(ret, tb).
           bindR (WriteRegister (upd_kernel (\<lambda>k. k\<lparr>k_threads := tb\<rparr>) m) 2 (of_int ret)) (\<lambda>m.
           bindR (SaveArgs run (e_be E) (\<lambda>_. new_chars E MAX_ARG_LENGTH) (e_words E) argsAddr m) (\<lambda>(args, m).
           Inr (Forking execThread args m)))))))))))))"

definition sc_join :: "umachine \<Rightarrow> outcome res" where
  "sc_join m =
     bindR (ReadRegister m 4) (\<lambda>pid.
     bindR (Table_HasKey (k_threads (kernel m)) (sint pid)) (\<lambda>has.
     if has then
       bindR (Table_Get None (k_threads (kernel m)) (sint pid)) (\<lambda>thread.
       bindR (need thread) (\<lambda>t. bindR (aget (k_heap (kernel m)) t) (\<lambda>th.
       ASSERT (ut_joinable th) (Inr (Joining t m)))))
     else Inr (Resume m)))"

subsection \<open>Files\<close>

definition sc_create :: "host_env \<Rightarrow> urun \<Rightarrow> umachine \<Rightarrow> outcome res" where
  "sc_create E run m =
     bindR (ReadRegister m 4) (\<lambda>filenameAddr.
     bindR (WriteRegister m 2 (- 1)) (\<lambda>m.
     if filenameAddr = 0 then Inr (Resume m)
     else
       bindR (ReadStringFromUser run (e_be E) filenameAddr (Some (new_chars E (FILE_NAME_MAX_LEN + 1))) (of_nat (FILE_NAME_MAX_LEN + 1)) m)
         (\<lambda>(ok, filename, m).
       if \<not> ok then Inr (Resume m)
       else
         bindR (FileSystem_Create (e_be E) (e_junk E) (k_fs (kernel m)) (k_disk (kernel m)) filename 1000) (\<lambda>(fileCreated, d).
         bindR (WriteRegister (upd_kernel (\<lambda>k. k\<lparr>k_disk := d\<rparr>) m) 2 (of_bool fileCreated)) (\<lambda>m. Inr (Resume m))))))"

definition sc_remove :: "umachine \<Rightarrow> outcome res" where
  "sc_remove m = Inr (Resume m)"

definition sc_open :: "host_env \<Rightarrow> urun \<Rightarrow> umachine \<Rightarrow> outcome res" where
  "sc_open E run m =
     bindR (ReadRegister m 4) (\<lambda>filenameAddr.
     bindR (WriteRegister m 2 (- 1)) (\<lambda>m.
     if filenameAddr = 0 then Inr (Resume m)
     else
       bindR (ReadStringFromUser run (e_be E) filenameAddr (Some (new_chars E (FILE_NAME_MAX_LEN + 1))) (of_nat (FILE_NAME_MAX_LEN + 1)) m)
         (\<lambda>(ok, filename, m).
       if \<not> ok then Inr (Resume m)
       else
         bindR (FileSystem_Open (e_be E) (e_junk E) (k_fs (kernel m)) (k_disk (kernel m)) filename) (\<lambda>(fileOpened, d).
         let m = upd_kernel (\<lambda>k. k\<lparr>k_disk := d\<rparr>) m in
         case fileOpened of None \<Rightarrow> Inr (Resume m)
         | Some f \<Rightarrow>
           let (p, m) = new_file f m in
           bindR (the_thread m) (\<lambda>th.
           bindR (Thread_openFile th p) (\<lambda>(fileId, th).
           let m = put_thread th m in
           if fileId < 0 then Inr (Resume (put_file p None m))
           else bindR (WriteRegister m 2 (of_int fileId)) (\<lambda>m. Inr (Resume m))))))))"

definition sc_close :: "umachine \<Rightarrow> outcome res" where
  "sc_close m =
     bindR (ReadRegister m 4) (\<lambda>r4.
     let fileId = sint r4 in
     bindR (WriteRegister m 2 (- 1)) (\<lambda>m.
     if fileId < 0 then Inr (Resume m)
     else if fileId < 2 then Inr (Resume m)
     else
       bindR (the_thread m) (\<lambda>th.
       bindR (Thread_isOpenedFile th fileId) (\<lambda>isOpened.
       if \<not> isOpened then Inr (Resume m)
       else
         bindR (Thread_closeFile th fileId) (\<lambda>(file, th).
         bindR (deref_file file m) (\<lambda>(p, f).
         bindR (WriteRegister (put_file p None (put_thread th m)) 2 0) (\<lambda>m. Inr (Resume m))))))))"

subsection \<open>Reading and writing\<close>

text \<open>The loop that reads a line from the console: \<open>None\<close> when the input ends first. The result is the buffer,
  the number of characters and the rest of the input.\<close>

fun console_read :: "nat \<Rightarrow> u8 list \<Rightarrow> nat \<Rightarrow> u8 list \<Rightarrow> (u8 list \<times> nat \<times> u8 list) option res" where
  "console_read sz buffer temp [] = Inr None"
| "console_read sz buffer temp (c # input) =
     bindR (aset buffer temp c) (\<lambda>buffer.
     let temp = temp + 1 in
     if temp < sz \<and> c \<noteq> 10 \<and> c \<noteq> 0 then console_read sz buffer temp input else Inr (Some (buffer, temp, input)))"

function console_write :: "nat \<Rightarrow> u8 list \<Rightarrow> nat \<Rightarrow> u8 list \<Rightarrow> u8 list res" where
  "console_write sz buffer temp out =
     bindR (aget buffer temp) (\<lambda>c.
     if temp + 1 < sz \<and> c \<noteq> 10 \<and> c \<noteq> 0 then console_write sz buffer (temp + 1) (out @ [c]) else Inr (out @ [c]))"
  by pat_completeness auto
termination
  by (relation "measure (\<lambda>(sz, buffer, temp, out). sz - temp)") auto

declare console_write.simps [simp del]

text \<open>\<open>new char[size]\<close> of a signed size; a negative one makes the allocation throw.\<close>

definition new_buffer :: "host_env \<Rightarrow> u32 \<Rightarrow> u8 list res" where
  "new_buffer E sz = (if sint sz < 0 then Inl HostTrap else Inr (new_chars E (unat sz)))"

definition sc_read :: "host_env \<Rightarrow> urun \<Rightarrow> umachine \<Rightarrow> outcome res" where
  "sc_read E run m =
     bindR (ReadRegister m 4) (\<lambda>bufferAddr.
     bindR (ReadRegister m 5) (\<lambda>sz.
     bindR (ReadRegister m 6) (\<lambda>fileId.
     if bufferAddr = 0 \<or> sz = 0 then Inr (Resume m)
     else
       bindR (new_buffer E sz) (\<lambda>buffer.
       if fileId = 0 then
         bindR (console_read (unat sz) buffer 0 (k_input (kernel m))) (\<lambda>line.
         case line of None \<Rightarrow> Inr (NoInput (upd_kernel (\<lambda>k. k\<lparr>k_input := []\<rparr>) m))
         | Some (buffer, temp, input) \<Rightarrow>
           bindR (aset buffer temp 0) (\<lambda>buffer.
           bindR (WriteBufferToUser run (e_be E) (Some buffer) bufferAddr sz (upd_kernel (\<lambda>k. k\<lparr>k_input := input\<rparr>) m)) (\<lambda>m.
           bindR (WriteRegister m 2 0) (\<lambda>m. Inr (Resume m)))))
       else if sint fileId > 1 then
         bindR (the_thread m) (\<lambda>th.
         bindR (Thread_isOpenedFile th (sint fileId)) (\<lambda>isOpened.
         if isOpened then
           bindR (Thread_getFileOpened th (sint fileId)) (\<lambda>file.
           bindR (deref_file file m) (\<lambda>(p, f).
           bindR (OpenFile_Read f (k_disk (kernel m)) sz) (\<lambda>(bs, f, d).
           let m = put_file p (Some f) (upd_kernel (\<lambda>k. k\<lparr>k_disk := d\<rparr>) m) in
           bindR (WriteBufferToUser run (e_be E) (Some (blit buffer 0 bs)) bufferAddr (of_nat (length bs)) m) (\<lambda>m.
           bindR (WriteRegister m 2 0) (\<lambda>m. Inr (Resume m))))))
         else Inr (Resume m)))
       else Inr (Resume m)))))"

definition write_result :: "bool \<Rightarrow> umachine \<Rightarrow> outcome res" where
  "write_result errorOcurred m = bindR (WriteRegister m 2 (if errorOcurred then - 1 else 0)) (\<lambda>m. Inr (Resume m))"

definition sc_write :: "host_env \<Rightarrow> urun \<Rightarrow> umachine \<Rightarrow> outcome res" where
  "sc_write E run m =
     bindR (ReadRegister m 4) (\<lambda>bufferAddr.
     bindR (ReadRegister m 5) (\<lambda>sz.
     bindR (ReadRegister m 6) (\<lambda>fileId.
     bindR (new_buffer E sz) (\<lambda>buffer.
     if bufferAddr = 0 \<or> sz = 0 then write_result True m
     else
       bindR (ReadStringFromUser run (e_be E) bufferAddr (Some buffer) 100 m) (\<lambda>(ok, buffer, m).
       if \<not> ok then write_result True m
       else if fileId = 1 then
         bindR (console_write (unat sz) buffer 0 (k_output (kernel m))) (\<lambda>out.
         write_result False (upd_kernel (\<lambda>k. k\<lparr>k_output := out\<rparr>) m))
       else if sint fileId > 1 then
         bindR (the_thread m) (\<lambda>th.
         bindR (Thread_isOpenedFile th (sint fileId)) (\<lambda>isOpened.
         if isOpened then
           bindR (Thread_getFileOpened th (sint fileId)) (\<lambda>file.
           bindR (deref_file file m) (\<lambda>(p, f).
           bindR (OpenFile_Write (e_junk E 0) f (k_disk (kernel m)) buffer sz) (\<lambda>(numBytesWrited, f, d).
           write_result (numBytesWrited = 0) (put_file p (Some f) (upd_kernel (\<lambda>k. k\<lparr>k_disk := d\<rparr>) m)))))
         else write_result True m))
       else write_result True m)))))"

subsection \<open>Dispatch\<close>

definition SC_HALT :: u32 where "SC_HALT = 0"
definition SC_EXIT :: u32 where "SC_EXIT = 1"
definition SC_EXEC :: u32 where "SC_EXEC = 2"
definition SC_JOIN :: u32 where "SC_JOIN = 3"
definition SC_FORK :: u32 where "SC_FORK = 4"
definition SC_YIELD :: u32 where "SC_YIELD = 5"
definition SC_CREATE :: u32 where "SC_CREATE = 10"
definition SC_REMOVE :: u32 where "SC_REMOVE = 11"
definition SC_OPEN :: u32 where "SC_OPEN = 12"
definition SC_CLOSE :: u32 where "SC_CLOSE = 13"
definition SC_READ :: u32 where "SC_READ = 14"
definition SC_WRITE :: u32 where "SC_WRITE = 15"
definition SC_PS :: u32 where "SC_PS = 16"

lemmas sc_nums = SC_HALT_def SC_EXIT_def SC_EXEC_def SC_JOIN_def SC_FORK_def SC_YIELD_def SC_CREATE_def SC_REMOVE_def
  SC_OPEN_def SC_CLOSE_def SC_READ_def SC_WRITE_def SC_PS_def

definition syscall :: "host_env \<Rightarrow> urun \<Rightarrow> u32 \<Rightarrow> umachine \<Rightarrow> outcome res" where
  "syscall E run scid m =
    (if scid = SC_HALT then Inr (Halted m)
     else if scid = SC_EXIT then sc_exit m
     else if scid = SC_EXEC then sc_exec E run m
     else if scid = SC_JOIN then sc_join m
     else if scid = SC_CREATE then sc_create E run m
     else if scid = SC_REMOVE then sc_remove m
     else if scid = SC_OPEN then sc_open E run m
     else if scid = SC_CLOSE then sc_close m
     else if scid = SC_READ then sc_read E run m
     else if scid = SC_WRITE then sc_write E run m
     else if scid = SC_PS then Inr (Resume m)
     else Inl AssertFail)"

text \<open>What remains of the handler when a call that waited comes back: the result of \<open>Join\<close> goes to register 2, and
  the program counter advances.\<close>

definition finish_syscall :: "outcome \<Rightarrow> outcome res" where
  "finish_syscall r = (case r of Resume m \<Rightarrow> bindR (IncrementPC m) (\<lambda>m. Inr (Resume m)) | _ \<Rightarrow> Inr r)"

definition SyscallHandler :: "host_env \<Rightarrow> urun \<Rightarrow> ExceptionType \<Rightarrow> umachine \<Rightarrow> outcome res" where
  "SyscallHandler E run et m = bindR (ReadRegister m 2) (\<lambda>scid. bindR (syscall E run scid m) finish_syscall)"



fun set_all :: "(ExceptionType \<times> uhandler) list \<Rightarrow> umachine \<Rightarrow> umachine res" where
  "set_all [] m = Inr m"
| "set_all ((et, h) # hs) m = bindR (SetHandler et (Some h) m) (\<lambda>m. set_all hs m)"

definition SetExceptionHandlers :: "umachine \<Rightarrow> umachine res" where
  "SetExceptionHandlers = set_all
     [(NO_EXCEPTION, DefaultHandler_ptr), (SYSCALL_EXCEPTION, SyscallHandler_ptr), (PAGE_FAULT_EXCEPTION, DefaultHandler_ptr),
      (READ_ONLY_EXCEPTION, DefaultHandler_ptr), (BUS_ERROR_EXCEPTION, DefaultHandler_ptr), (ADDRESS_ERROR_EXCEPTION, DefaultHandler_ptr),
      (OVERFLOW_EXCEPTION, DefaultHandler_ptr), (ILLEGAL_INSTR_EXCEPTION, DefaultHandler_ptr)]"

section \<open>What a system call does to the registers\<close>


definition machine_of :: "outcome \<Rightarrow> umachine" where
  "machine_of r = (case r of Resume m \<Rightarrow> m | Halted m \<Rightarrow> m | Finishing _ m \<Rightarrow> m | NoInput m \<Rightarrow> m | Joining _ m \<Rightarrow> m | Forking _ _ m \<Rightarrow> m)"

lemma machine_of_simps [simp]:
  "machine_of (Resume m) = m" "machine_of (Halted m) = m" "machine_of (Finishing st m) = m" "machine_of (NoInput m) = m"
  "machine_of (Joining t m) = m" "machine_of (Forking t as m) = m"
  by (simp_all add: machine_of_def)















text \<open>A system call writes register 2 and no other.\<close>

definition only_r2 :: "umachine \<Rightarrow> umachine \<Rightarrow> bool" where
  "only_r2 m m' \<longleftrightarrow> (\<exists>v. registers m' = (registers m)[2 := v])"





lemma only_r2_upd [simp]:
  "only_r2 m (upd_kernel f m') = only_r2 m m'" "only_r2 (upd_kernel f m) m' = only_r2 m m'"
  "only_r2 m (put_file p f' m') = only_r2 m m'" "only_r2 (put_file p f' m) m' = only_r2 m m'"
  "only_r2 m (put_thread th m') = only_r2 m m'" "only_r2 (put_thread th m) m' = only_r2 m m'"
  "only_r2 m (m'\<lparr>m_mmu := mu\<rparr>) = only_r2 m m'" "only_r2 (m\<lparr>m_mmu := mu\<rparr>) m' = only_r2 m m'"
  by (simp_all add: only_r2_def upd_kernel_def put_file_def put_thread_def)

definition quiet_call :: "umachine \<Rightarrow> outcome res \<Rightarrow> bool" where
  "quiet_call m r = res_ok (\<lambda>_. True) (\<lambda>x. only_r2 m (machine_of x)) r"

lemma quiet_Inl [simp]: "quiet_call m (Inl e)"
  by (simp add: quiet_call_def)
















section \<open>The results of system calls\<close>


definition gives :: "(u32 \<Rightarrow> bool) \<Rightarrow> outcome res \<Rightarrow> bool" where
  "gives V r \<longleftrightarrow> (\<forall>x. r = Inr x \<longrightarrow>
     (case x of Resume m \<Rightarrow> V (registers m ! 2) | Forking _ _ m \<Rightarrow> V (registers m ! 2) | _ \<Rightarrow> True))"

lemma gives_Inl [simp]: "gives V (Inl e)"
  by (simp add: gives_def)

lemma gives_Inr [simp]:
  "gives V (Inr (Resume m)) \<longleftrightarrow> V (registers m ! 2)" "gives V (Inr (Forking t as m)) \<longleftrightarrow> V (registers m ! 2)"
  "gives V (Inr (Halted m))" "gives V (Inr (Finishing st m))" "gives V (Inr (NoInput m))" "gives V (Inr (Joining t m))"
  by (simp_all add: gives_def)













lemma registers_upd [simp]:
  "registers (upd_kernel f m) = registers m" "registers (put_file p f' m) = registers m" "registers (put_thread th m) = registers m"
  by (simp_all add: upd_kernel_def put_file_def put_thread_def)






lemma WriteRegister_ok: "length (registers m) = 40 \<Longrightarrow> num < 40 \<Longrightarrow> num \<noteq> 0 \<Longrightarrow> WriteRegister m num v = Inr (m\<lparr>registers := (registers m)[num := v]\<rparr>)"
  by (simp add: WriteRegister_def reg_nums)

lemma ReadRegister_ok: "length (registers m) = 40 \<Longrightarrow> num < 40 \<Longrightarrow> ReadRegister m num = Inr (registers m ! num)"
  by (simp add: ReadRegister_def reg_nums)

section \<open>Registers of a thread\<close>

lemma save_loop_ok:
  assumes "length (registers m) = 40" and "length rs = 40" and "\<forall>i\<in>set is. i < 40"
  shows "\<exists>rs'. save_loop is m rs = Inr rs' \<and> length rs' = 40 \<and> (\<forall>i<40. rs' ! i = (if i \<in> set is then registers m ! i else rs ! i))"
  using assms
proof (induction "is" arbitrary: rs)
  case (Cons i "is")
  from Cons.IH [of "rs[i := registers m ! i]"] Cons.prems show ?case
    by (auto simp add: ReadRegister_ok nth_list_update)
qed simp

lemma restore_loop_ok:
  assumes "length rs = 40" and "length (registers m) = 40" and "\<forall>i\<in>set is. i < 40"
  shows "\<exists>rs'. restore_loop is rs m = Inr (m\<lparr>registers := rs'\<rparr>) \<and> length rs' = 40 \<and>
     (\<forall>i<40. rs' ! i = (if i \<in> set is \<and> i \<noteq> 0 then rs ! i else registers m ! i))"
  using assms
proof (induction "is" arbitrary: m)
  case Nil
  show ?case by (rule exI [of _ "registers m"]) (use Nil.prems in simp)
next
  case (Cons i "is")
  show ?case
  proof (cases "i = 0")
    case True
    from Cons.IH [of m] Cons.prems True show ?thesis by (auto simp add: WriteRegister_def reg_nums)
  next
    case False
    from Cons.IH [of "m\<lparr>registers := (registers m)[i := rs ! i]\<rparr>"] Cons.prems False show ?thesis
      by (auto simp add: WriteRegister_ok nth_list_update)
  qed
qed

text \<open>A user program gets its registers back. When the registers are saved as a thread leaves the CPU and
  restored when it returns, every register but the constant register 0 has the value it had, whatever ran in between.\<close>

theorem Save_Restore_registers:
  assumes "length (registers m) = 40" and "length (userRegisters th) = 40" and "length (registers m2) = 40"
  shows "\<exists>th' m'. SaveUserState m th = Inr th' \<and> RestoreUserState th' m2 = Inr m' \<and>
     m' = m2\<lparr>registers := (registers m)[0 := registers m2 ! 0]\<rparr> \<and> th' = th\<lparr>userRegisters := registers m\<rparr>"
proof -
  have b: "\<forall>i\<in>set [0..<40]. i < 40" by simp
  from save_loop_ok [OF assms(1,2) b] obtain rs where rs: "save_loop [0..<40] m (userRegisters th) = Inr rs" "length rs = 40"
    "\<forall>i<40. rs ! i = registers m ! i" by (metis atLeast0LessThan lessThan_iff set_upt)
  then have e: "rs = registers m" using assms(1) by (intro nth_equalityI) simp_all
  from restore_loop_ok [OF assms(1,3) b] obtain rs' where rs': "restore_loop [0..<40] (registers m) m2 = Inr (m2\<lparr>registers := rs'\<rparr>)"
    "length rs' = 40" "\<forall>i<40. rs' ! i = (if i \<in> set [0..<40] \<and> i \<noteq> 0 then registers m ! i else registers m2 ! i)" by blast
  have "rs' = (registers m)[0 := registers m2 ! 0]" using rs'(2,3) assms(1) by (intro nth_equalityI) (simp_all add: nth_list_update)
  with rs(1) rs'(1) e show ?thesis by (simp add: SaveUserState_def RestoreUserState_def NUM_TOTAL_REGS_def)
qed

theorem Save_Restore_registers_witness:
  "\<exists>th m'. SaveUserState \<lparr>registers = replicate 40 5, m_mmu = demo_mmu, handlers = [], status = USER_MODE, kernel = undefined\<rparr>
       \<lparr>ut_name = [], ut_joinable = False, ut_father = 0, ut_priority = 0, ut_space = None, ut_spaceId = 0,
        openedFiles = Table_new [], userRegisters = replicate 40 0\<rparr> = Inr th \<and>
     RestoreUserState th \<lparr>registers = replicate 40 0, m_mmu = demo_mmu, handlers = [], status = USER_MODE, kernel = undefined\<rparr> = Inr m' \<and>
     registers m' = (replicate 40 5)[0 := 0]"
  using Save_Restore_registers [of "\<lparr>registers = replicate 40 5, m_mmu = demo_mmu, handlers = [], status = USER_MODE, kernel = undefined\<rparr>"
      "\<lparr>ut_name = [], ut_joinable = False, ut_father = 0, ut_priority = 0, ut_space = None, ut_spaceId = 0, openedFiles = Table_new [], userRegisters = replicate 40 0\<rparr>"
      "\<lparr>registers = replicate 40 0, m_mmu = demo_mmu, handlers = [], status = USER_MODE, kernel = undefined\<rparr>"]
  by auto

section \<open>The return from a system call\<close>

text \<open>The registers after a system call with result \<open>v\<close>.\<close>

definition after_call :: "u32 list \<Rightarrow> u32 \<Rightarrow> u32 list" where
  "after_call rs v = rs[2 := v, PREV_PC_REG := rs ! PC_REG, PC_REG := rs ! NEXT_PC_REG, NEXT_PC_REG := rs ! NEXT_PC_REG + 4]"

lemma IncrementPC_ok:
  assumes "length (registers m) = 40"
  shows "IncrementPC m = Inr (m\<lparr>registers := after_call (registers m) (registers m ! 2)\<rparr>)"
  using assms by (simp add: IncrementPC_def ReadRegister_def WriteRegister_def after_call_def reg_nums)

lemma after_call_twice: "length rs = 40 \<Longrightarrow> after_call (rs[2 := v]) w = after_call rs w"
  by (simp add: after_call_def reg_nums)

lemma finish_Resume:
  "length (registers m) = 40 \<Longrightarrow> finish_syscall (Resume m) = Inr (Resume (m\<lparr>registers := after_call (registers m) (registers m ! 2)\<rparr>))"
  by (simp add: finish_syscall_def IncrementPC_ok)






text \<open>A fault of a user program stops the kernel. Once the handlers are installed, every exception but a
  system call, whatever the address, ends in the failed assertion of \<open>DefaultHandler\<close>, and a system call goes to \<open>SyscallHandler\<close>.\<close>

theorem faults_abort:
  assumes "length (handlers m) = 8" and "length (registers m) = 40" and "registers m ! LOAD_REG < 32" and "\<And>et m. run DefaultHandler_ptr et m = DefaultHandler et m"
    and "et \<noteq> SYSCALL_EXCEPTION"
  shows "\<exists>m'. SetExceptionHandlers m = Inr m' \<and> handlers m' ! exc_num SYSCALL_EXCEPTION = Some SyscallHandler_ptr \<and>
     RaiseException run et a m' = Inl AssertFail"
proof -
  let ?D = "Some DefaultHandler_ptr"
  let ?m' = "m\<lparr>handlers := (handlers m)[0 := ?D, 1 := Some SyscallHandler_ptr, 2 := ?D, 3 := ?D, 4 := ?D, 5 := ?D, 6 := ?D, 7 := ?D]\<rparr>"
  have s: "SetExceptionHandlers m = Inr ?m'" using assms(1) by (simp add: SetExceptionHandlers_def SetHandler_def)
  have h: "handlers ?m' ! exc_num et = ?D" "exc_num et < 8" using assms(1,5) by (cases et; simp add: nth_list_update)+
  have l: "unat (registers m ! LOAD_REG) < 40" using assms(3) by (simp add: word_less_nat_alt)
  have "RaiseException run et a ?m' = Inl AssertFail"
    unfolding RaiseException_def using h l assms(1,2,4)
    by (simp add: DelayedLoad_def DefaultHandler_def ReadRegister_def reg_nums nth_list_update)
  with s assms(1) show ?thesis by (intro exI [of _ ?m']) simp
qed

section \<open>System calls on files\<close>

lemma new_chars_length [simp]: "length (new_chars E n) = n"
  by (simp add: new_chars_def)

lemma ReadName:
  assumes "uread m a (name @ [0])" and "a \<noteq> 0" and "0 \<notin> set name" and "10 \<notin> set name" and "length name \<le> 9"
  obtains filename m' where
    "ReadStringFromUser run be a (Some (new_chars E (FILE_NAME_MAX_LEN + 1))) (of_nat (FILE_NAME_MAX_LEN + 1)) m = Inr (True, filename, m')"
    and "sees m m' (vmem (m_mmu m))" and "cstr 9 filename = name"
proof -
  let ?out = "new_chars E 10"
  have "\<forall>c\<in>set (butlast (name @ [0])). checkEndString c" using assms(3,4) by (auto simp add: checkEndString_def)
  from ReadString_loop_ok [OF assms(1), of 0 ?out 10 run be] this assms(5) obtain m' where
    m': "ReadString_loop run be 10 a 0 ?out m = Inr (True, blit ?out 0 (name @ [0]), m')" "sees m m' (vmem (m_mmu m))"
    by (auto simp add: checkEndString_def)
  have "ReadStringFromUser run be a (Some (new_chars E (FILE_NAME_MAX_LEN + 1))) (of_nat (FILE_NAME_MAX_LEN + 1)) m =
      Inr (True, blit ?out 0 (name @ [0]), m')"
    using m'(1) assms(2) by (simp add: ReadStringFromUser_def FILE_NAME_MAX_LEN_def)
  moreover have "cstr 9 (blit ?out 0 (name @ [0])) = name"
  proof (cases "length name = 9")
    case True
    then show ?thesis using assms(3) by (auto simp add: cstr_def blit_def takeWhile_eq_all_conv)
  next
    case False
    then have "take 9 (blit ?out 0 (name @ [0])) = name @ 0 # take (8 - length name) (drop (Suc (length name)) ?out)"
      using assms(5) by (auto simp add: blit_def take_Cons' eval_nat_numeral)
    then show ?thesis using assms(3) by (auto simp add: cstr_def takeWhile_append)
  qed
  ultimately show thesis using that [OF _ m'(2)] by blast
qed

text \<open>A user program at a system call: the number of the call and its first argument.\<close>

definition calling :: "umachine \<Rightarrow> u32 \<Rightarrow> u32 \<Rightarrow> bool" where
  "calling m scid a \<longleftrightarrow> length (registers m) = 40 \<and> registers m ! 2 = scid \<and> registers m ! 4 = a"

lemma SyscallHandler_eq:
  "calling m scid a \<Longrightarrow> SyscallHandler E run et m = bindR (syscall E run scid m) finish_syscall"
  by (simp add: SyscallHandler_def ReadRegister_def calling_def reg_nums)

lemma sees_same: "sees m m' V \<Longrightarrow> registers m' = registers m \<and> kernel m' = kernel m \<and> vmem (m_mmu m') = V"
  unfolding sees_def by (metis machine.select_convs(1,5) machine.surjective machine.update_convs(2))

lemma uread_registers [simp]: "uread (m\<lparr>registers := rs\<rparr>) a bs = uread m a bs"
  by (simp add: uread_def)

text \<open>What \<open>Create\<close> does with a name of at most nine characters in the user's memory. It returns 0 when the file cannot be made, where the comment
  in the handler announces -1 for every failure and \<open>userland/touch.c\<close> tests for a negative result.\<close>

lemma Create_exact:
  assumes "calling m SC_CREATE a" and "a \<noteq> 0" and "uread m a (name @ [0])" and "0 \<notin> set name" and "10 \<notin> set name" and "length name \<le> 9"
    and "fs_ok (e_be E) (k_fs (kernel m)) (k_disk (kernel m))"
  shows "\<exists>m' ok. SyscallHandler E run et m = Inr (Resume m') \<and> registers m' = after_call (registers m) (of_bool ok) \<and>
     (ok \<longleftrightarrow> fs_files (e_be E) (k_fs (kernel m)) (k_disk (kernel m)) name = None \<and> fs_room (e_be E) (k_fs (kernel m)) (k_disk (kernel m)) 1000) \<and>
     kernel m' = (kernel m)\<lparr>k_disk := k_disk (kernel m')\<rparr> \<and> vmem (m_mmu m') = vmem (m_mmu m) \<and>
     fs_ok (e_be E) (k_fs (kernel m)) (k_disk (kernel m')) \<and>
     (if ok then \<exists>bs. length bs = 1000 \<and> fs_files (e_be E) (k_fs (kernel m)) (k_disk (kernel m')) =
         (fs_files (e_be E) (k_fs (kernel m)) (k_disk (kernel m)))(name \<mapsto> bs)
      else fs_files (e_be E) (k_fs (kernel m)) (k_disk (kernel m')) = fs_files (e_be E) (k_fs (kernel m)) (k_disk (kernel m)))"
proof -
  have l: "length (registers m) = 40" using assms(1) by (simp add: calling_def)
  let ?m0 = "m\<lparr>registers := (registers m)[2 := - 1]\<rparr>" and ?fs = "k_fs (kernel m)" and ?d = "k_disk (kernel m)" and ?be = "e_be E"
  have u: "uread ?m0 a (name @ [0])" using assms(3) by simp
  obtain filename m1 where r: "ReadStringFromUser run ?be a (Some (new_chars E (FILE_NAME_MAX_LEN + 1))) (of_nat (FILE_NAME_MAX_LEN + 1)) ?m0 = Inr (True, filename, m1)"
    "sees ?m0 m1 (vmem (m_mmu ?m0))" "cstr 9 filename = name"
    by (rule ReadName [OF u assms(2,4-6), where run = run and be = ?be and E = E])
  have m1: "registers m1 = (registers m)[2 := - 1]" "kernel m1 = kernel m" "vmem (m_mmu m1) = vmem (m_mmu m)"
    using sees_same [OF r(2)] by simp_all
  have sz: "unat (1000 :: u32) < MAX_FILE_SIZE" by (simp add: file_sizes)
  have u: "unat (1000 :: u32) = 1000" by simp
  from Create_spec [OF assms(7) sz, of "e_junk E" filename, unfolded r(3) u] obtain ok d' where
    c: "FileSystem_Create ?be (e_junk E) ?fs ?d filename 1000 = Inr (ok, d')" "fs_ok ?be ?fs d'"
      "ok \<longleftrightarrow> fs_files ?be ?fs ?d name = None \<and> fs_room ?be ?fs ?d 1000"
      "if ok then \<exists>bs. length bs = 1000 \<and> fs_files ?be ?fs d' = (fs_files ?be ?fs ?d)(name \<mapsto> bs)
       else sector d' = sector ?d \<and> fs_files ?be ?fs d' = fs_files ?be ?fs ?d" by blast
  let ?m2 = "(upd_kernel (\<lambda>k. k\<lparr>k_disk := d'\<rparr>) m1)\<lparr>registers := (registers m)[2 := of_bool ok]\<rparr>"
  have "sc_create E run m = Inr (Resume ?m2)"
    using assms(1,2) l r(1) c(1) m1 by (simp add: sc_create_def calling_def ReadRegister_ok WriteRegister_ok upd_kernel_def)
  then have s: "syscall E run SC_CREATE m = Inr (Resume ?m2)" by (simp add: syscall_def sc_nums)
  let ?m' = "?m2\<lparr>registers := after_call (registers m) (of_bool ok)\<rparr>"
  have "SyscallHandler E run et m = Inr (Resume ?m')"
    using SyscallHandler_eq [OF assms(1), of E run et] s l by (simp add: finish_Resume after_call_twice)
  then show ?thesis using c(2-4) m1 by (intro exI [of _ ?m'] exI [of _ ok]) (auto simp add: upd_kernel_def)
qed

text \<open>C12: The \<open>Create\<close> system call creates a file. For a name of at most nine characters in the user's memory, on a
  well-formed file system, the file system has afterwards a new file of 1000 bytes under that name when the name was free and there was
  room, and has every file as it was otherwise, and the call returns 1 exactly in the first case; the file system
  stays well formed, the user's memory and the rest of the kernel are unchanged, and the program advances.\<close>

theorem Create_syscall:
  assumes "calling m SC_CREATE a" and "a \<noteq> 0" and "uread m a (name @ [0])" and "0 \<notin> set name" and "10 \<notin> set name" and "length name \<le> 9"
    and "fs_ok (e_be E) (k_fs (kernel m)) (k_disk (kernel m))"
  shows "\<exists>m' v ok. SyscallHandler E run et m = Inr (Resume m') \<and> registers m' = after_call (registers m) v \<and> (v = 1 \<longleftrightarrow> ok) \<and>
     (ok \<longleftrightarrow> fs_files (e_be E) (k_fs (kernel m)) (k_disk (kernel m)) name = None \<and> fs_room (e_be E) (k_fs (kernel m)) (k_disk (kernel m)) 1000) \<and>
     kernel m' = (kernel m)\<lparr>k_disk := k_disk (kernel m')\<rparr> \<and> vmem (m_mmu m') = vmem (m_mmu m) \<and>
     fs_ok (e_be E) (k_fs (kernel m)) (k_disk (kernel m')) \<and>
     (if ok then \<exists>bs. length bs = 1000 \<and> fs_files (e_be E) (k_fs (kernel m)) (k_disk (kernel m')) =
         (fs_files (e_be E) (k_fs (kernel m)) (k_disk (kernel m)))(name \<mapsto> bs)
      else fs_files (e_be E) (k_fs (kernel m)) (k_disk (kernel m')) = fs_files (e_be E) (k_fs (kernel m)) (k_disk (kernel m)))"
proof -
  obtain m' ok where m': "SyscallHandler E run et m = Inr (Resume m')" "registers m' = after_call (registers m) (of_bool ok)"
    and r: "ok \<longleftrightarrow> fs_files (e_be E) (k_fs (kernel m)) (k_disk (kernel m)) name = None \<and> fs_room (e_be E) (k_fs (kernel m)) (k_disk (kernel m)) 1000"
      "kernel m' = (kernel m)\<lparr>k_disk := k_disk (kernel m')\<rparr>" "vmem (m_mmu m') = vmem (m_mmu m)"
      "fs_ok (e_be E) (k_fs (kernel m)) (k_disk (kernel m'))"
      "if ok then \<exists>bs. length bs = 1000 \<and> fs_files (e_be E) (k_fs (kernel m)) (k_disk (kernel m')) =
         (fs_files (e_be E) (k_fs (kernel m)) (k_disk (kernel m)))(name \<mapsto> bs)
       else fs_files (e_be E) (k_fs (kernel m)) (k_disk (kernel m')) = fs_files (e_be E) (k_fs (kernel m)) (k_disk (kernel m))"
    using Create_exact [OF assms, of run et] by blast
  have "(of_bool ok :: u32) = 1 \<longleftrightarrow> ok" by simp
  from m' this r show ?thesis by (intro exI conjI)
qed

subsection \<open>Open files\<close>

lemma openFile_ok:
  assumes "table_inv (openedFiles th)"
  shows "if free_set (openedFiles th) = {} \<and> current (openedFiles th) = int SIZE then Thread_openFile th p = Inr (1, th)
     else \<exists>fileId th'. Thread_openFile th p = Inr (fileId, th') \<and> 2 \<le> fileId \<and> fileId < int SIZE + 2 \<and> table_inv (openedFiles th') \<and>
       Thread_isOpenedFile th fileId = Inr False \<and> Thread_getFileOpened th' fileId = Inr (Some p) \<and>
       (\<forall>j\<ge>2. j \<noteq> fileId \<longrightarrow> Thread_getFileOpened th' j = Thread_getFileOpened th j)"
proof (cases "free_set (openedFiles th) = {} \<and> current (openedFiles th) = int SIZE")
  case True
  then show ?thesis using Table_Add_full [of "openedFiles th" "Some p"] by (simp add: Thread_openFile_def)
next
  case False
  with assms have "free_set (openedFiles th) \<noteq> {} \<or> current (openedFiles th) < int SIZE" by (auto simp add: table_inv_def)
  from Table_Add_ok [OF assms this, of "Some p"] obtain i tb where
    t: "Table_Add (openedFiles th) (Some p) = Inr (i, tb)" "table_inv tb" "0 \<le> i" "i < int SIZE" "tbl_map (openedFiles th) i = None"
      "tbl_map tb = (tbl_map (openedFiles th))(i \<mapsto> Some p)" by blast
  have "Thread_openFile th p = Inr (i + 2, th\<lparr>openedFiles := tb\<rparr>)" using t(1) by (simp add: Thread_openFile_def)
  moreover have "Thread_isOpenedFile th (i + 2) = Inr False" using t(3,5) by (simp add: Thread_isOpenedFile_def Table_HasKey_iff)
  ultimately show ?thesis
    unfolding if_not_P [OF False] using t assms
    by (intro exI [of _ "i + 2"] exI [of _ "th\<lparr>openedFiles := tb\<rparr>"]) (auto simp add: Thread_getFileOpened_def Table_Get_eq)
qed

text \<open>What \<open>Open\<close> does with the name of a file that exists. With the table of the thread full it returns 1, the identifier of the
  console's output, where the comment in the handler announces -1 for every failure.\<close>

lemma Open_exact:
  assumes "calling m SC_OPEN a" and "a \<noteq> 0" and "uread m a (name @ [0])" and "0 \<notin> set name" and "10 \<notin> set name" and "length name \<le> 9"
    and "fs_ok (e_be E) (k_fs (kernel m)) (k_disk (kernel m))" and "fs_files (e_be E) (k_fs (kernel m)) (k_disk (kernel m)) name = Some bs"
    and "the_thread m = Inr th" and "table_inv (openedFiles th)"
  defines "full \<equiv> free_set (openedFiles th) = {} \<and> current (openedFiles th) = int SIZE"
  shows "\<exists>m' v. SyscallHandler E run et m = Inr (Resume m') \<and> registers m' = after_call (registers m) (of_int v) \<and>
     vmem (m_mmu m') = vmem (m_mmu m) \<and> sector (k_disk (kernel m')) = sector (k_disk (kernel m)) \<and>
     (if full then v = 1
      else 2 \<le> v \<and> v < int SIZE + 2 \<and> Thread_isOpenedFile th v = Inr False \<and>
        (\<exists>th' p f. the_thread m' = Inr th' \<and> Thread_getFileOpened th' v = Inr (Some p) \<and> deref_file (Some p) m' = Inr (p, f) \<and>
           seekPosition f = 0 \<and> file_bytes (k_disk (kernel m')) (hdr f) = bs \<and>
           (\<forall>j\<ge>2. j \<noteq> v \<longrightarrow> Thread_getFileOpened th' j = Thread_getFileOpened th j)))"
proof -
  have l: "length (registers m) = 40" using assms(1) by (simp add: calling_def)
  let ?m0 = "m\<lparr>registers := (registers m)[2 := - 1]\<rparr>" and ?fs = "k_fs (kernel m)" and ?d = "k_disk (kernel m)" and ?be = "e_be E"
  have u: "uread ?m0 a (name @ [0])" using assms(3) by simp
  obtain filename m1 where r: "ReadStringFromUser run ?be a (Some (new_chars E (FILE_NAME_MAX_LEN + 1))) (of_nat (FILE_NAME_MAX_LEN + 1)) ?m0 = Inr (True, filename, m1)"
    "sees ?m0 m1 (vmem (m_mmu ?m0))" "cstr 9 filename = name"
    by (rule ReadName [OF u assms(2,4-6), where run = run and be = ?be and E = E])
  have m1: "registers m1 = (registers m)[2 := - 1]" "kernel m1 = kernel m" "vmem (m_mmu m1) = vmem (m_mmu m)" using sees_same [OF r(2)] by simp_all
  from Open_spec [OF assms(7), where name = filename and junk = "e_junk E", unfolded r(3)] assms(8) obtain f d' where
    o: "FileSystem_Open ?be (e_junk E) ?fs ?d filename = Inr (Some f, d')" "seekPosition f = 0" "file_bytes d' (hdr f) = bs" "sector d' = sector ?d" by auto
  let ?p = "length (k_files (kernel m))"
  let ?m2 = "upd_kernel (\<lambda>k. k\<lparr>k_files := k_files k @ [Some f]\<rparr>) (upd_kernel (\<lambda>k. k\<lparr>k_disk := d'\<rparr>) m1)"
  have t2: "the_thread ?m2 = Inr th" using assms(9) m1 by (simp add: the_thread_def upd_kernel_def)
  have cur: "k_current (kernel m) < length (k_heap (kernel m))" using assms(9) by (simp add: the_thread_def res_simps)
  obtain v th' where v: "Thread_openFile th ?p = Inr (v, th')" "0 \<le> v" and w: "if full then v = 1 else 2 \<le> v \<and> v < int SIZE + 2 \<and>
      Thread_isOpenedFile th v = Inr False \<and> Thread_getFileOpened th' v = Inr (Some ?p) \<and>
      (\<forall>j\<ge>2. j \<noteq> v \<longrightarrow> Thread_getFileOpened th' j = Thread_getFileOpened th j)"
    using openFile_ok [OF assms(10), of ?p] unfolding full_def by (fastforce split: if_splits)
  let ?m3 = "(put_thread th' ?m2)\<lparr>registers := (registers m)[2 := of_int v]\<rparr>"
  have "sc_open E run m = Inr (Resume ?m3)"
    using assms(1,2) l r(1) o(1) m1 v t2
    by (simp add: sc_open_def calling_def ReadRegister_ok WriteRegister_ok new_file_def put_thread_def upd_kernel_def Let_def)
  then have s: "syscall E run SC_OPEN m = Inr (Resume ?m3)" by (simp add: syscall_def sc_nums)
  let ?m' = "?m3\<lparr>registers := after_call (registers m) (of_int v)\<rparr>"
  have h: "SyscallHandler E run et m = Inr (Resume ?m')"
    using SyscallHandler_eq [OF assms(1), of E run et] s l by (simp add: finish_Resume after_call_twice)
  have "the_thread ?m' = Inr th'" "deref_file (Some ?p) ?m' = Inr (?p, f)" "k_disk (kernel ?m') = d'"
    using m1 cur by (simp_all add: the_thread_def deref_file_def put_thread_def upd_kernel_def)
  moreover have "vmem (m_mmu ?m') = vmem (m_mmu m)" using m1 by (simp add: put_thread_def upd_kernel_def)
  ultimately show ?thesis using h w o(2-4) by (intro exI [of _ ?m'] exI [of _ v]) (auto split: if_splits)
qed

lemma Open_missing:
  assumes "calling m SC_OPEN a" and "a \<noteq> 0" and "uread m a (name @ [0])" and "0 \<notin> set name" and "10 \<notin> set name" and "length name \<le> 9"
    and "fs_ok (e_be E) (k_fs (kernel m)) (k_disk (kernel m))" and "fs_files (e_be E) (k_fs (kernel m)) (k_disk (kernel m)) name = None"
  shows "\<exists>m'. SyscallHandler E run et m = Inr (Resume m') \<and> registers m' = after_call (registers m) (- 1) \<and>
     vmem (m_mmu m') = vmem (m_mmu m) \<and> sector (k_disk (kernel m')) = sector (k_disk (kernel m)) \<and> the_thread m' = the_thread m"
proof -
  have l: "length (registers m) = 40" using assms(1) by (simp add: calling_def)
  let ?m0 = "m\<lparr>registers := (registers m)[2 := - 1]\<rparr>" and ?fs = "k_fs (kernel m)" and ?d = "k_disk (kernel m)" and ?be = "e_be E"
  have u: "uread ?m0 a (name @ [0])" using assms(3) by simp
  obtain filename m1 where r: "ReadStringFromUser run ?be a (Some (new_chars E (FILE_NAME_MAX_LEN + 1))) (of_nat (FILE_NAME_MAX_LEN + 1)) ?m0 = Inr (True, filename, m1)"
    "sees ?m0 m1 (vmem (m_mmu ?m0))" "cstr 9 filename = name"
    by (rule ReadName [OF u assms(2,4-6), where run = run and be = ?be and E = E])
  have m1: "registers m1 = (registers m)[2 := - 1]" "kernel m1 = kernel m" "vmem (m_mmu m1) = vmem (m_mmu m)" using sees_same [OF r(2)] by simp_all
  from Open_spec [OF assms(7), where name = filename and junk = "e_junk E", unfolded r(3)] assms(8) obtain d' where
    o: "FileSystem_Open ?be (e_junk E) ?fs ?d filename = Inr (None, d')" "sector d' = sector ?d" by auto
  let ?m2 = "upd_kernel (\<lambda>k. k\<lparr>k_disk := d'\<rparr>) m1"
  have "sc_open E run m = Inr (Resume ?m2)"
    using assms(1,2) l r(1) o(1) m1 by (simp add: sc_open_def calling_def ReadRegister_ok WriteRegister_ok Let_def)
  then have "syscall E run SC_OPEN m = Inr (Resume ?m2)" by (simp add: syscall_def sc_nums)
  then have "SyscallHandler E run et m = Inr (Resume (?m2\<lparr>registers := after_call (registers m) (- 1)\<rparr>))"
    using SyscallHandler_eq [OF assms(1), of E run et] l m1 by (simp add: finish_Resume after_call_twice upd_kernel_def)
  then show ?thesis using m1 o(2) by (simp add: upd_kernel_def the_thread_def)
qed

text \<open>C29: The \<open>Open\<close> system call. For a name of at most nine characters, and room in the thread's table of open files: when a file of
  that name exists, the call returns an identifier of at least 2, which no open file of the thread had and which now denotes an open file at the
  beginning of the contents of that name, every other identifier keeping its file; when there is none, it returns -1 and the thread's
  table stays as it was. The user's memory and the disk keep their contents.\<close>

theorem Open_syscall:
  assumes "calling m SC_OPEN a" and "a \<noteq> 0" and "uread m a (name @ [0])" and "0 \<notin> set name" and "10 \<notin> set name" and "length name \<le> 9"
    and "fs_ok (e_be E) (k_fs (kernel m)) (k_disk (kernel m))" and "the_thread m = Inr th" and "table_inv (openedFiles th)"
    and "free_set (openedFiles th) \<noteq> {} \<or> current (openedFiles th) \<noteq> int SIZE"
  shows "\<exists>m' v. SyscallHandler E run et m = Inr (Resume m') \<and> registers m' = after_call (registers m) (of_int v) \<and>
     vmem (m_mmu m') = vmem (m_mmu m) \<and> sector (k_disk (kernel m')) = sector (k_disk (kernel m)) \<and>
     (case fs_files (e_be E) (k_fs (kernel m)) (k_disk (kernel m)) name of
        None \<Rightarrow> v = - 1 \<and> the_thread m' = Inr th
      | Some bs \<Rightarrow> 2 \<le> v \<and> v < int SIZE + 2 \<and> Thread_isOpenedFile th v = Inr False \<and>
        (\<exists>th' p f. the_thread m' = Inr th' \<and> Thread_getFileOpened th' v = Inr (Some p) \<and> deref_file (Some p) m' = Inr (p, f) \<and>
           seekPosition f = 0 \<and> file_bytes (k_disk (kernel m')) (hdr f) = bs \<and>
           (\<forall>j\<ge>2. j \<noteq> v \<longrightarrow> Thread_getFileOpened th' j = Thread_getFileOpened th j)))"
proof (cases "fs_files (e_be E) (k_fs (kernel m)) (k_disk (kernel m)) name")
  case None
  from Open_missing [OF assms(1-7) None, of run et] obtain m' where m': "SyscallHandler E run et m = Inr (Resume m')"
    "registers m' = after_call (registers m) (of_int (- 1))" "vmem (m_mmu m') = vmem (m_mmu m)"
    "sector (k_disk (kernel m')) = sector (k_disk (kernel m))" "the_thread m' = Inr th" using assms(8) by auto
  then show ?thesis using None by (intro exI [of _ m'] exI [of _ "- 1"]) simp
next
  case (Some bs)
  have "\<not> (free_set (openedFiles th) = {} \<and> current (openedFiles th) = int SIZE)" using assms(10) by blast
  with Open_exact [OF assms(1-7) Some assms(8,9), of run et] Some show ?thesis by simp
qed

subsection \<open>Reading and writing\<close>

lemma sint_pos: "sint (w :: u32) > 1 \<Longrightarrow> w \<noteq> 0 \<and> w \<noteq> 1"
  by auto

lemma Read_span:
  assumes "hdr_ok (hdr f)" and "disk_ok d" and "0 < n" and "seekPosition f < numBytes (hdr f)" and "unat (seekPosition f) + unat n < 2 ^ 32"
  defines "bs \<equiv> take (unat n) (drop (unat (seekPosition f)) (file_bytes d (hdr f)))"
  shows "\<exists>d'. OpenFile_Read f d n = Inr (bs, f\<lparr>seekPosition := seekPosition f + of_nat (length bs)\<rparr>, d') \<and> sector d' = sector d" and "bs \<noteq> []"
proof -
  let ?p = "unat (seekPosition f)" and ?l = "unat (numBytes (hdr f))"
  have p: "?p < ?l" using assms(4) by (simp add: word_less_nat_alt)
  have bs: "bs = map (file_byte d (hdr f)) [?p..<?p + min (unat n) (?l - ?p)]"
    using p by (auto simp add: bs_def file_bytes_def take_map drop_map intro!: nth_equalityI)
  with p assms(3) show "bs \<noteq> []" by (simp add: word_gt_0 unat_gt_0)
  from ReadAt_ok [OF assms(1-3) p] assms(5) bs obtain d' where "OpenFile_ReadAt f d n (seekPosition f) = Inr (bs, d')" "sector d' = sector d" by auto
  then show "\<exists>d'. OpenFile_Read f d n = Inr (bs, f\<lparr>seekPosition := seekPosition f + of_nat (length bs)\<rparr>, d') \<and> sector d' = sector d"
    using assms(3) by (simp add: OpenFile_Read_def)
qed

text \<open>What \<open>Read\<close> does on an open file. It returns 0, where \<open>syscall.h\<close> documents the number of bytes read.\<close>

lemma Read_exact:
  assumes "calling m SC_READ a" and "a \<noteq> 0" and "0 < sint (registers m ! 5)" and "1 < sint (registers m ! 6)"
    and "the_thread m = Inr th" and "Thread_isOpenedFile th (sint (registers m ! 6)) = Inr True"
    and "Thread_getFileOpened th (sint (registers m ! 6)) = Inr (Some q)" and "deref_file (Some q) m = Inr (q, f)"
    and "hdr_ok (hdr f)" and "disk_ok (k_disk (kernel m))" and "seekPosition f < numBytes (hdr f)"
    and "unat (seekPosition f) + unat (registers m ! 5) < 2 ^ 32"
  defines "bs \<equiv> take (unat (registers m ! 5)) (drop (unat (seekPosition f)) (file_bytes (k_disk (kernel m)) (hdr f)))"
  assumes "uwrite m a (length bs)"
  shows "\<exists>m'. SyscallHandler E run et m = Inr (Resume m') \<and> registers m' = after_call (registers m) 0 \<and>
     vmem (m_mmu m') = poke (vmem (m_mmu m)) a bs \<and>
     deref_file (Some q) m' = Inr (q, f\<lparr>seekPosition := seekPosition f + of_nat (length bs)\<rparr>) \<and>
     sector (k_disk (kernel m')) = sector (k_disk (kernel m))"
proof -
  let ?n = "registers m ! 5" and ?id = "registers m ! 6" and ?f = "f\<lparr>seekPosition := seekPosition f + of_nat (length bs)\<rparr>"
  have l: "length (registers m) = 40" using assms(1) by (simp add: calling_def)
  have n: "?n \<noteq> 0" "0 < ?n" "\<not> sint ?n < 0" using assms(3) by (auto simp add: word_gt_0)
  note sp = Read_span [OF assms(9,10) n(2) assms(11,12), folded bs_def]
  obtain d' where rd: "OpenFile_Read f (k_disk (kernel m)) ?n = Inr (bs, ?f, d')" "sector d' = sector (k_disk (kernel m))" using sp(1) by blast
  have lb: "length bs \<le> unat ?n" by (simp add: bs_def)
  then have lw: "length bs < 4294967296" using unsigned_less [of ?n, where 'a = nat] by simp
  then have ln: "unat (of_nat (length bs) :: u32) = length bs" by (simp add: unat_of_nat)
  with sp(2) have nz: "(of_nat (length bs) :: u32) \<noteq> 0" by (metis length_0_conv unat_0)
  let ?m1 = "put_file q (Some ?f) (upd_kernel (\<lambda>k. k\<lparr>k_disk := d'\<rparr>) m)"
  have "uwrite ?m1 a (length bs)" using assms(14) by (simp add: uwrite_def put_file_def upd_kernel_def)
  from WriteBuffer_loop_ok [OF this lw, of "[]" 0 run "e_be E" "drop (length bs) (new_chars E (unat ?n))"] obtain m2 where
    m2: "WriteBuffer_loop run (e_be E) (length bs) (blit (new_chars E (unat ?n)) 0 bs) 0 a ?m1 = Inr m2"
      "sees ?m1 m2 (poke (vmem (m_mmu m)) a bs)" by (auto simp add: blit_def put_file_def upd_kernel_def)
  have k: "registers m2 = registers m" "kernel m2 = kernel ?m1" "vmem (m_mmu m2) = poke (vmem (m_mmu m)) a bs"
    using sees_same [OF m2(2)] by (simp_all add: put_file_def upd_kernel_def)
  let ?m3 = "m2\<lparr>registers := (registers m)[2 := 0]\<rparr>"
  have "WriteBufferToUser run (e_be E) (Some (blit (new_chars E (unat ?n)) 0 bs)) a (of_nat (length bs)) ?m1 = Inr m2"
    using m2(1) nz ln assms(2) by (simp add: WriteBufferToUser_def)
  then have "sc_read E run m = Inr (Resume ?m3)"
    using assms(1,2,4-8) n l k rd(1) sint_pos [OF assms(4)]
    by (simp add: sc_read_def calling_def ReadRegister_ok WriteRegister_ok new_buffer_def Let_def)
  then have s: "syscall E run SC_READ m = Inr (Resume ?m3)" by (simp add: syscall_def sc_nums)
  let ?m' = "m2\<lparr>registers := after_call (registers m) 0\<rparr>"
  have "SyscallHandler E run et m = Inr (Resume ?m')"
    using SyscallHandler_eq [OF assms(1), of E run et] s l by (simp add: finish_Resume after_call_twice)
  moreover have "deref_file (Some q) ?m' = Inr (q, ?f)"
    using assms(8) k(2) by (auto simp add: deref_file_def put_file_def upd_kernel_def res_simps split: option.splits)
  ultimately show ?thesis using k rd(2) by (intro exI [of _ ?m']) (simp add: put_file_def upd_kernel_def)
qed

text \<open>C20: The \<open>Read\<close> system call on an open file brings the file's bytes to the user. From the position of the file, as many bytes as
  asked for, or as there are, appear in the user's buffer and the user's memory changes nowhere else; the
  position moves behind them, the disk keeps its contents, and the program advances with no register changed but register 2.\<close>

theorem Read_syscall:
  assumes "calling m SC_READ a" and "a \<noteq> 0" and "0 < sint (registers m ! 5)" and "1 < sint (registers m ! 6)"
    and "the_thread m = Inr th" and "Thread_isOpenedFile th (sint (registers m ! 6)) = Inr True"
    and "Thread_getFileOpened th (sint (registers m ! 6)) = Inr (Some q)" and "deref_file (Some q) m = Inr (q, f)"
    and "hdr_ok (hdr f)" and "disk_ok (k_disk (kernel m))" and "seekPosition f < numBytes (hdr f)"
    and "unat (seekPosition f) + unat (registers m ! 5) < 2 ^ 32"
  defines "bs \<equiv> take (unat (registers m ! 5)) (drop (unat (seekPosition f)) (file_bytes (k_disk (kernel m)) (hdr f)))"
  assumes "uwrite m a (length bs)"
  shows "\<exists>m' v. SyscallHandler E run et m = Inr (Resume m') \<and> registers m' = after_call (registers m) v \<and>
     vmem (m_mmu m') = poke (vmem (m_mmu m)) a bs \<and>
     deref_file (Some q) m' = Inr (q, f\<lparr>seekPosition := seekPosition f + of_nat (length bs)\<rparr>) \<and>
     sector (k_disk (kernel m')) = sector (k_disk (kernel m))"
  using Read_exact [OF assms(1-12) assms(14) [unfolded bs_def], of E run et] unfolding bs_def by blast

lemma console_write_line:
  assumes "\<forall>x\<in>set cs. x \<noteq> 0 \<and> x \<noteq> 10" and "c = 0 \<or> c = 10" and "length pre + length cs < sz"
  shows "console_write sz (pre @ cs @ c # post) (length pre) out = Inr (out @ cs @ [c])"
  using assms
proof (induction cs arbitrary: pre out)
  case (Cons x cs)
  then have "console_write sz ((pre @ [x]) @ cs @ c # post) (length (pre @ [x])) (out @ [x]) = Inr ((out @ [x]) @ cs @ [c])"
    by (intro Cons.IH) simp_all
  with Cons.prems show ?case by (subst console_write.simps) simp
qed (subst console_write.simps; auto)

text \<open>The \<open>Write\<close> system call on the console puts the user's line there: for a string that ends with a null or a newline within 100
  characters and within the given size, exactly its characters, the end included, are written after what was
  there, the user's memory is unchanged, and the call returns 0.\<close>

theorem Write_console_syscall:
  assumes "calling m SC_WRITE a" and "a \<noteq> 0" and "registers m ! 6 = 1" and "uread m a (cs @ [c])" and "c = 0 \<or> c = 10"
    and "\<forall>x\<in>set cs. x \<noteq> 0 \<and> x \<noteq> 10" and "length cs < 100" and "int (length cs) < sint (registers m ! 5)"
  shows "\<exists>m'. SyscallHandler E run et m = Inr (Resume m') \<and> registers m' = after_call (registers m) 0 \<and>
     vmem (m_mmu m') = vmem (m_mmu m) \<and> kernel m' = (kernel m)\<lparr>k_output := k_output (kernel m) @ cs @ [c]\<rparr>"
proof -
  let ?n = "registers m ! 5"
  have l: "length (registers m) = 40" using assms(1) by (simp add: calling_def)
  have n: "?n \<noteq> 0" "\<not> sint ?n < 0" using assms(8) by auto
  have u: "int (unat ?n) = uint ?n" "uint ?n < 4294967296" using unsigned_less [of ?n, where 'a = int] by simp_all
  then have "int (length cs) < int (unat ?n)" unfolding u using assms(8) sint_cases32 [of ?n] by (simp split: if_splits)
  then have sz: "length cs < unat ?n" by (simp only: of_nat_less_iff)
  let ?b = "blit (new_chars E (unat ?n)) 0 (cs @ [c])"
  have "\<forall>x\<in>set (butlast (cs @ [c])). checkEndString x" using assms(6) by (auto simp add: checkEndString_def)
  from ReadString_loop_ok [OF assms(4), of 0 "new_chars E (unat ?n)" 100 run "e_be E"] this assms(5,7) sz obtain m1 where
    m1: "ReadString_loop run (e_be E) 100 a 0 (new_chars E (unat ?n)) m = Inr (True, ?b, m1)" "sees m m1 (vmem (m_mmu m))"
    by (auto simp add: checkEndString_def)
  have k: "registers m1 = registers m" "kernel m1 = kernel m" "vmem (m_mmu m1) = vmem (m_mmu m)" using sees_same [OF m1(2)] by simp_all
  have "console_write (unat ?n) ?b 0 (k_output (kernel m)) = Inr (k_output (kernel m) @ cs @ [c])"
    using console_write_line [OF assms(6,5), of "[]" "unat ?n" "drop (length (cs @ [c])) (new_chars E (unat ?n))"] sz by (simp add: blit_def)
  with m1(1) have "sc_write E run m = Inr (Resume ((upd_kernel (\<lambda>k. k\<lparr>k_output := k_output (kernel m) @ cs @ [c]\<rparr>) m1)\<lparr>registers := (registers m)[2 := 0]\<rparr>))"
    using assms(1-3) l n k
    by (simp add: sc_write_def calling_def ReadRegister_ok WriteRegister_ok new_buffer_def ReadStringFromUser_def write_result_def upd_kernel_def)
  then have "SyscallHandler E run et m =
      Inr (Resume ((upd_kernel (\<lambda>k. k\<lparr>k_output := k_output (kernel m) @ cs @ [c]\<rparr>) m1)\<lparr>registers := after_call (registers m) 0\<rparr>))"
    using SyscallHandler_eq [OF assms(1), of E run et] l by (simp add: syscall_def sc_nums finish_Resume after_call_twice)
  then show ?thesis using k by (simp add: upd_kernel_def)
qed

text \<open>Reading at the end of a file kills the kernel. When a user program reads from an open file whose position has
  reached the end, no bytes are read and the assertion in \<open>WriteBufferToUser\<close> that there is something to copy fails,
  instead of the call returning that there is nothing more.\<close>

theorem Read_at_end_aborts:
  assumes "calling m SC_READ a" and "a \<noteq> 0" and "0 < sint (registers m ! 5)" and "1 < sint (registers m ! 6)"
    and "the_thread m = Inr th" and "Thread_isOpenedFile th (sint (registers m ! 6)) = Inr True"
    and "Thread_getFileOpened th (sint (registers m ! 6)) = Inr p" and "deref_file p m = Inr (q, f)"
    and "FileLength (hdr f) \<le> seekPosition f"
  shows "SyscallHandler E run et m = Inl AssertFail"
proof -
  let ?n = "registers m ! 5" and ?id = "registers m ! 6"
  have n: "?n \<noteq> 0" "0 < ?n" "\<not> sint ?n < 0" using assms(3) by (auto simp add: word_gt_0)
  have rd: "OpenFile_Read f (k_disk (kernel m)) ?n = Inr ([], f, k_disk (kernel m))"
    using n(2) assms(9) by (simp add: OpenFile_Read_def OpenFile_ReadAt_def)
  have "sc_read E run m = Inl AssertFail"
    using assms(1,2,4-8) n rd sint_pos [OF assms(4)]
    by (simp add: sc_read_def calling_def ReadRegister_ok new_buffer_def WriteBufferToUser_def Let_def)
  then show ?thesis using SyscallHandler_eq [OF assms(1)] by (simp add: syscall_def sc_nums)
qed

lemma ReadString_overrun:
  assumes "uread m a bs" and "i + length bs = Suc (length out)" and "bs \<noteq> []" and "length bs \<le> n" and "\<forall>c\<in>set (butlast bs). checkEndString c"
  shows "ReadString_loop run be n a i out m = Inl OutOfBounds"
  using assms
proof (induction bs arbitrary: a i out m n)
  case (Cons b bs)
  obtain n' where n: "n = Suc n'" using Cons.prems(4) by (cases n) simp_all
  have b: "mmu_ok (m_mmu m)" "vmem (m_mmu m) a = Some b" "uread m (a + 1) bs" using Cons.prems(1) by (simp_all add: uread_Cons)
  obtain m1 where m1: "Machine_ReadMem run be a 1 m = Inr (Some (scast b), m1)" "sees m m1 (vmem (m_mmu m))"
    by (rule read1 [OF b(1,2)])
  show ?case
  proof (cases "bs = []")
    case True
    with Cons.prems(2) m1(1) n show ?thesis by (simp add: aset_def)
  next
    case False
    then have "checkEndString b" "n' \<noteq> 0" using Cons.prems(4,5) n by (cases bs; auto)+
    moreover have "ReadString_loop run be n' (a + 1) (i + 1) (out[i := b]) m1 = Inl OutOfBounds"
      using Cons.IH [OF uread_sees [OF m1(2) b(3)], of "i + 1" "out[i := b]" n'] Cons.prems False n by auto
    moreover have "i < length out" using Cons.prems(2) False by (cases bs) auto
    ultimately show ?thesis using m1(1) n by simp
  qed
qed simp

text \<open>Writing unterminated data overruns the kernel's buffer. The \<open>Write\<close> system call copies the user's data as a string of up to 100
  characters into a buffer of the given size: when none of the first characters, as many as the size, ends a
  string, and the size is below 100, the next character is stored past the end of the buffer.\<close>

theorem Write_overruns_buffer:
  assumes "calling m SC_WRITE a" and "a \<noteq> 0" and "registers m ! 5 = of_nat (length bs)" and "0 < length bs" and "length bs < 100"
    and "uread m a (bs @ [c])" and "0 \<notin> set bs" and "10 \<notin> set bs"
  shows "SyscallHandler E run et m = Inl OutOfBounds"
proof -
  let ?n = "of_nat (length bs) :: u32"
  have n: "unat ?n = length bs" using assms(5) by (simp add: unat_of_nat)
  moreover from this assms(4) have "?n \<noteq> 0" by auto
  ultimately have n: "unat ?n = length bs" "?n \<noteq> 0" .
  then have s: "\<not> sint ?n < 0" using assms(5) sint_cases32 [of ?n] by simp
  have "ReadString_loop run (e_be E) 100 a 0 (new_chars E (length bs)) m = Inl OutOfBounds"
    by (rule ReadString_overrun [OF assms(6)]) (use assms(5,7,8) in \<open>auto simp add: checkEndString_def\<close>)
  then have "sc_write E run m = Inl OutOfBounds"
    using assms(1-3) n s by (simp add: sc_write_def calling_def ReadRegister_ok new_buffer_def ReadStringFromUser_def)
  then show ?thesis using SyscallHandler_eq [OF assms(1)] by (simp add: syscall_def sc_nums)
qed

section \<open>Concrete processes\<close>

text \<open>A process with two pages, an empty stack and the registers of a system call.\<close>

definition demo_regs :: "u32 \<Rightarrow> u32 \<Rightarrow> u32 \<Rightarrow> u32 \<Rightarrow> u32 list" where
  "demo_regs r2 r4 r5 r6 = (replicate 40 0)[2 := r2, 4 := r4, 5 := r5, 6 := r6, PC_REG := 32, NEXT_PC_REG := 36]"

definition demo_process :: "filesystem \<Rightarrow> disk \<Rightarrow> OpenFile option list \<Rightarrow> nat option table \<Rightarrow> u32 list \<Rightarrow> umachine" where
  "demo_process fs d files tb rs = \<lparr>registers = rs, m_mmu = demo_mmu, handlers = replicate 8 (Some DefaultHandler_ptr), status = USER_MODE,
     kernel = \<lparr>k_fs = fs, k_disk = d, k_files = files,
       k_heap = [\<lparr>ut_name = [109], ut_joinable = False, ut_father = 0, ut_priority = 0, ut_space = None, ut_spaceId = 0,
          openedFiles = tb, userRegisters = replicate 40 0\<rparr>],
       k_threads = Table_new (replicate 20 None), k_current = 0, k_pages = demo_pages, k_input = [104, 105, 10], k_output = []\<rparr>\<rparr>"

definition demo_env :: host_env where
  "demo_env = \<lparr>e_be = False, e_junk = \<lambda>_ _. 7, e_raw = \<lambda>_. 7, e_words = \<lambda>_. 7, e_table = replicate 20 None\<rparr>"

definition demo_urun :: urun where
  "demo_urun h = DefaultHandler"


lemma demo_regs_nth:
  "length (demo_regs r2 r4 r5 r6) = 40" "demo_regs r2 r4 r5 r6 ! 2 = r2" "demo_regs r2 r4 r5 r6 ! 4 = r4"
  "demo_regs r2 r4 r5 r6 ! 5 = r5" "demo_regs r2 r4 r5 r6 ! 6 = r6" "demo_regs r2 r4 r5 r6 ! 0 = 0"
  unfolding demo_regs_def reg_nums by (simp_all only: length_list_update length_replicate nth_list_update) simp_all

lemma demo_process_sel [simp]:
  "registers (demo_process fs d files tb rs) = rs" "m_mmu (demo_process fs d files tb rs) = demo_mmu"
  "k_fs (kernel (demo_process fs d files tb rs)) = fs" "k_disk (kernel (demo_process fs d files tb rs)) = d"
  "k_files (kernel (demo_process fs d files tb rs)) = files"
  by (simp_all add: demo_process_def)

lemma demo_calling: "calling (demo_process fs d files tb (demo_regs r2 r4 r5 r6)) r2 r4"
  by (simp add: calling_def demo_regs_nth)

lemma demo_calling_sees: "calling m r2 r4 \<Longrightarrow> sees m m' V \<Longrightarrow> calling m' r2 r4"
  using sees_same [of m m' V] by (simp add: calling_def)

lemma demo_memory:
  assumes "length bs \<le> 5"
  obtains m where "sees (demo_process fs d files tb rs) m (poke (vmem demo_mmu) 8 bs)" and "uread m 8 bs"
proof -
  let ?m = "demo_process fs d files tb rs"
  have "uwrite ?m 8 (length bs)"
    using demo_uwrite assms by (auto simp add: uwrite_def demo_user_def)
  from WriteBuffer_loop_ok [OF this, of "[]" 0 demo_urun False "[]"] assms obtain m where
    m: "sees ?m m (poke (vmem demo_mmu) 8 bs)" by auto
  moreover from this have "uread m 8 bs" using uread_poke assms by fastforce
  ultimately show thesis by (rule that)
qed

text \<open>The table of a thread with one open file, of which the identifier is 2.\<close>

definition demo_opened :: "nat option table" where
  "demo_opened = (Table_new (replicate 20 None))\<lparr>data := (replicate 20 None)[0 := Some 0], current := 1\<rparr>"

definition demo_fs :: filesystem where
  "demo_fs = \<lparr>freeMapFile = demo_file, directoryFile = demo_file\<rparr>"


lemma demo_room_1000:
  assumes "fs_ok be fs d" and "live (entries be fs d) = {}" and "card (marked (free_map be fs d)) = 5"
  shows "fs_room be fs d 1000"
proof -
  obtain i where "i < NUM_DIR_ENTRIES" "\<not> inUse (entries be fs d ! i)" using demo_room(1) [OF assms] by (auto simp add: fs_room_def)
  with assms(3) show ?thesis by (auto simp add: fs_room_def fs_sizes DivRoundUp_def)
qed

theorem Create_syscall_witness:
  "\<exists>m m' fs. k_fs (kernel m) = fs \<and> fs_files False fs (k_disk (kernel m)) [65] = None \<and>
     SyscallHandler demo_env demo_urun SYSCALL_EXCEPTION m = Inr (Resume m') \<and>
     (\<exists>bs. length bs = 1000 \<and> fs_files False fs (k_disk (kernel m')) [65] = Some bs)"
proof -
  obtain fs d where f: "fs_ok False fs d" "live (entries False fs d) = {}" "card (marked (free_map False fs d)) = 5"
    using demo_formatted by blast
  let ?m = "demo_process fs d [] demo_opened (demo_regs SC_CREATE 8 0 0)"
  obtain m where m: "sees ?m m (poke (vmem demo_mmu) 8 [65, 0])" "uread m 8 [65, 0]" by (rule demo_memory [of "[65, 0]"]) simp
  note k = sees_same [OF m(1)]
  have e: "e_be demo_env = False" by (simp add: demo_env_def)
  from Create_syscall [OF demo_calling_sees [OF demo_calling m(1)], where name = "[65]" and E = demo_env and run = demo_urun and et = SYSCALL_EXCEPTION]
    m(2) f(1) k demo_room_1000 [OF f] demo_room(2) [OF f, of "[65]"] obtain m' bs where
    "SyscallHandler demo_env demo_urun SYSCALL_EXCEPTION m = Inr (Resume m')" "length bs = 1000"
    "fs_files False fs (k_disk (kernel m')) = (fs_files False fs d)([65] \<mapsto> bs)" unfolding e by auto
  then have "k_fs (kernel m) = fs \<and> fs_files False fs (k_disk (kernel m)) [65] = None \<and>
     SyscallHandler demo_env demo_urun SYSCALL_EXCEPTION m = Inr (Resume m') \<and>
     (\<exists>bs. length bs = 1000 \<and> fs_files False fs (k_disk (kernel m')) [65] = Some bs)"
    using k demo_room(2) [OF f, of "[65]"] by simp
  then show ?thesis by blast
qed

lemma demo_opened_ok:
  "table_inv demo_opened" "free_set demo_opened = {}" "current demo_opened = 1" "tbl_map demo_opened 0 = Some (Some 0)"
  by (simp_all add: demo_opened_def table_inv_def free_set_def tbl_map_def Table_new_def List_new_def items_def SIZE_def)

theorem Open_syscall_witness:
  "\<exists>m m' fs bs v. k_fs (kernel m) = fs \<and> fs_files False fs (k_disk (kernel m)) [65] = Some bs \<and>
     SyscallHandler demo_env demo_urun SYSCALL_EXCEPTION m = Inr (Resume m') \<and>
     registers m' = after_call (demo_regs SC_OPEN 8 0 0) (of_int v) \<and> 2 \<le> v"
proof -
  obtain fs d bs where f: "fs_ok False fs d" "fs_files False fs d [65] = Some bs" using demo_created by blast
  let ?m = "demo_process fs d [] demo_opened (demo_regs SC_OPEN 8 0 0)"
  obtain m where m: "sees ?m m (poke (vmem demo_mmu) 8 [65, 0])" "uread m 8 [65, 0]" by (rule demo_memory [of "[65, 0]"]) simp
  note k = sees_same [OF m(1)]
  have e: "e_be demo_env = False" by (simp add: demo_env_def)
  obtain th where t: "the_thread m = Inr th" "openedFiles th = demo_opened" using k by (simp add: the_thread_def demo_process_def)
  from Open_syscall [OF demo_calling_sees [OF demo_calling m(1)] _ _ _ _ _ _ t(1), where name = "[65]" and E = demo_env and run = demo_urun and et = SYSCALL_EXCEPTION]
    m(2) f k t(2) demo_opened_ok obtain m' v where
    "SyscallHandler demo_env demo_urun SYSCALL_EXCEPTION m = Inr (Resume m')" "registers m' = after_call (demo_regs SC_OPEN 8 0 0) (of_int v)" "2 \<le> v"
    unfolding e by (auto simp add: SIZE_def)
  with f(2) k show ?thesis by (metis demo_process_sel(3,4))
qed

theorem Read_at_end_aborts_witness:
  "\<exists>m. SyscallHandler demo_env demo_urun SYSCALL_EXCEPTION m = Inl AssertFail \<and> registers m = demo_regs SC_READ 8 10 2"
proof -
  let ?f = "demo_file\<lparr>seekPosition := 200\<rparr>" and ?m = "demo_process demo_fs demo_disk [Some (demo_file\<lparr>seekPosition := 200\<rparr>)] demo_opened (demo_regs SC_READ 8 10 2)"
  obtain th where t: "the_thread ?m = Inr th" "openedFiles th = demo_opened" by (simp add: the_thread_def demo_process_def)
  have "Thread_isOpenedFile th 2 = Inr True" "Thread_getFileOpened th 2 = Inr (Some 0)"
    using t(2) demo_opened_ok by (simp_all add: Thread_isOpenedFile_def Thread_getFileOpened_def Table_HasKey_iff Table_Get_eq)
  moreover have "deref_file (Some 0) ?m = Inr (0, ?f)" by (simp add: deref_file_def)
  moreover have "FileLength (hdr ?f) \<le> seekPosition ?f" by (simp add: FileLength_def demo_file_def demo_header_def)
  ultimately have "SyscallHandler demo_env demo_urun SYSCALL_EXCEPTION ?m = Inl AssertFail"
    using Read_at_end_aborts [OF demo_calling _ _ _ t(1)] by (simp add: demo_regs_nth)
  then show ?thesis by (intro exI [of _ ?m]) simp
qed

theorem Write_overruns_buffer_witness:
  "\<exists>m. uread m 8 [104, 111, 108, 97, 115] \<and> registers m = demo_regs SC_WRITE 8 4 1 \<and>
     SyscallHandler demo_env demo_urun SYSCALL_EXCEPTION m = Inl OutOfBounds"
proof -
  let ?m = "demo_process demo_fs demo_disk [] demo_opened (demo_regs SC_WRITE 8 4 1)"
  obtain m where m: "sees ?m m (poke (vmem demo_mmu) 8 [104, 111, 108, 97, 115])" "uread m 8 [104, 111, 108, 97, 115]"
    by (rule demo_memory [of "[104, 111, 108, 97, 115]"]) simp
  have "registers m = demo_regs SC_WRITE 8 4 1" using sees_same [OF m(1)] by simp
  with m(2) Write_overruns_buffer [OF demo_calling_sees [OF demo_calling m(1)], where bs = "[104, 111, 108, 97]" and c = 115
      and E = demo_env and run = demo_urun and et = SYSCALL_EXCEPTION]
  show ?thesis by (intro exI [of _ m]) (simp add: demo_regs_nth)
qed

theorem Read_syscall_witness:
  "\<exists>m m'. registers m = demo_regs SC_READ 8 3 2 \<and> SyscallHandler demo_env demo_urun SYSCALL_EXCEPTION m = Inr (Resume m') \<and>
     vmem (m_mmu m') = poke (vmem demo_mmu) 8 (take 3 (drop 198 (file_bytes demo_disk (demo_header 5 7))))"
proof -
  let ?f = "demo_file\<lparr>seekPosition := 198\<rparr>" and ?m = "demo_process demo_fs demo_disk [Some (demo_file\<lparr>seekPosition := 198\<rparr>)] demo_opened (demo_regs SC_READ 8 3 2)"
  obtain th where t: "the_thread ?m = Inr th" "openedFiles th = demo_opened" by (simp add: the_thread_def demo_process_def)
  have o: "Thread_isOpenedFile th 2 = Inr True" "Thread_getFileOpened th 2 = Inr (Some 0)" "deref_file (Some 0) ?m = Inr (0, ?f)"
    using t(2) demo_opened_ok by (simp_all add: Thread_isOpenedFile_def Thread_getFileOpened_def Table_HasKey_iff Table_Get_eq deref_file_def)
  let ?bs = "take 3 (drop 198 (file_bytes demo_disk (demo_header 5 7)))"
  have "length ?bs \<le> 5" by simp
  then have "uwrite ?m 8 (length ?bs)" using demo_uwrite by (auto simp add: uwrite_def demo_user_def)
  with Read_syscall [OF demo_calling _ _ _ t(1), where q = 0 and f = ?f and E = demo_env and run = demo_urun and et = SYSCALL_EXCEPTION]
    o demo_header_ok(1) demo_disk_ok demo_numBytes obtain m' where
    "SyscallHandler demo_env demo_urun SYSCALL_EXCEPTION ?m = Inr (Resume m')" "vmem (m_mmu m') = poke (vmem demo_mmu) 8 ?bs"
    by (auto simp add: demo_regs_nth)
  then show ?thesis by (intro exI [of _ ?m] exI [of _ m']) simp
qed

theorem Write_console_syscall_witness:
  "\<exists>m m'. registers m = demo_regs SC_WRITE 8 4 1 \<and> SyscallHandler demo_env demo_urun SYSCALL_EXCEPTION m = Inr (Resume m') \<and>
     k_output (kernel m') = [104, 105, 10]"
proof -
  let ?m = "demo_process demo_fs demo_disk [] demo_opened (demo_regs SC_WRITE 8 4 1)"
  obtain m where m: "sees ?m m (poke (vmem demo_mmu) 8 [104, 105, 10])" "uread m 8 [104, 105, 10]"
    by (rule demo_memory [of "[104, 105, 10]"]) simp
  have k: "registers m = demo_regs SC_WRITE 8 4 1" "k_output (kernel m) = []" using sees_same [OF m(1)] by (simp_all add: demo_process_def)
  from Write_console_syscall [OF demo_calling_sees [OF demo_calling m(1)], where cs = "[104, 105]" and c = 10
      and E = demo_env and run = demo_urun and et = SYSCALL_EXCEPTION] m(2) k obtain m' where
    "SyscallHandler demo_env demo_urun SYSCALL_EXCEPTION m = Inr (Resume m')"
    "kernel m' = (kernel m)\<lparr>k_output := k_output (kernel m) @ [104, 105] @ [10]\<rparr>" by (auto simp add: demo_regs_nth)
  then show ?thesis using k by (intro exI [of _ m] exI [of _ m']) simp
qed

theorem faults_abort_witness:
  "\<exists>m m'. registers m = demo_regs 0 0 0 0 \<and> SetExceptionHandlers m = Inr m' \<and> RaiseException demo_urun PAGE_FAULT_EXCEPTION 4096 m' = Inl AssertFail"
proof -
  let ?m = "demo_process demo_fs demo_disk [] demo_opened (demo_regs 0 0 0 0)"
  have "length (handlers ?m) = 8" by (simp add: demo_process_def)
  moreover have "demo_regs 0 0 0 0 ! LOAD_REG < 32"
    unfolding demo_regs_def reg_nums by (simp only: nth_list_update length_list_update length_replicate) simp
  ultimately obtain m' where "SetExceptionHandlers ?m = Inr m'" "RaiseException demo_urun PAGE_FAULT_EXCEPTION 4096 m' = Inl AssertFail"
    using faults_abort [of ?m demo_urun PAGE_FAULT_EXCEPTION 4096] by (auto simp add: demo_regs_nth demo_urun_def)
  then show ?thesis by (intro exI [of _ ?m] exI [of _ m']) simp
qed

end
