(* ===== verification/Userprog_Debugger.thy ===== *)
theory Userprog_Debugger
  imports Lib_Debug Machine_Cpu
begin

text \<open>
  The debugger for user programs: \<open>userprog/debugger.cc\<close> and \<open>userprog/debugger_command_manager.cc\<close>.

  The line of input is a buffer of bytes that \<open>strtok_r\<close> cuts into words in place, and strings are positions in
  it: the debug flags that the user sets are such a position. The standard input is the list of bytes still
  to be read; what is printed is a list of messages.
\<close>

section \<open>The command manager and the debugger\<close>

datatype RunResult = RUN_RESULT_STAY | RUN_RESULT_STEP | RUN_RESULT_NORMALIZE

text \<open>The functions that commands, the empty line and unknown words are bound to.\<close>

datatype CommandFunc = CommandContinue | CommandDump | CommandFlags | CommandHelp | CommandPrint | CommandQuit | CommandSetFlags | CommandStep | CommandTick
datatype EmptyFunc = HandleEmpty
datatype UnknownFunc = HandleUnknown

text \<open>The extra argument of a command is null or the address of \<open>runUntilTime\<close>.\<close>

record command =
  c_name :: "u8 list"
  c_func :: CommandFunc
  c_extra :: bool

definition CAPACITY :: nat where "CAPACITY = 20"

text \<open>An entry of the array that has not been written is \<open>None\<close>; \<open>count\<close> is not initialised by a constructor.\<close>

record DCM =
  commands :: "command option list"
  count :: nat
  on_empty :: "EmptyFunc option"
  on_unknown :: "UnknownFunc option"

datatype dbg_msg =
    Welcome | Prompt u64 | DumpState | Registers "(string option \<times> u32 \<times> bool) list" "u32 list" | Help | Number u8 | NumberChar u8
  | MemException ExceptionType | TooBig u32 | NotAddress "u8 list" | NotInteger "u8 list" | MissingArgument | FlagsEmpty | Flags "u8 list"
  | FlagsSetEmpty | FlagsSet "u8 list" | NotOpened "u8 list" | NotWritten "u8 list" | Dumped "u8 list" | NotCommand "u8 list"

record debugger =
  manager :: DCM
  buffer :: "u8 list"
  previousRegisters :: "u32 list"
  runUntilTime :: u32
  g_debug :: Debug
  g_mmu :: mmu
  g_regs :: "u32 list"
  g_ticks :: u64
  g_stdin :: "u8 list"
  g_out :: "dbg_msg list"

text \<open>The host: its byte order, and whether a file is opened and written.\<close>

record dbg_host =
  h_big :: bool
  h_opens :: "u8 list \<Rightarrow> bool"
  h_writes :: "u8 list \<Rightarrow> u8 list \<Rightarrow> bool"

text \<open>The result of a command is \<open>None\<close> when it has halted the machine and does not return.\<close>

type_synonym dbg_outcome = "(RunResult option \<times> debugger) res"

definition say :: "dbg_msg \<Rightarrow> debugger \<Rightarrow> debugger" where
  "say m g = g\<lparr>g_out := g_out g @ [m]\<rparr>"

definition AddCommand :: "u8 list \<Rightarrow> CommandFunc \<Rightarrow> bool \<Rightarrow> DCM \<Rightarrow> bool \<times> DCM" where
  "AddCommand name f extra m =
    (if count m \<ge> CAPACITY then (False, m)
     else (True, m\<lparr>commands := (commands m)[count m := Some \<lparr>c_name = name, c_func = f, c_extra = extra\<rparr>], count := count m + 1\<rparr>))"

definition SetEmpty :: "EmptyFunc \<Rightarrow> DCM \<Rightarrow> DCM" where
  "SetEmpty f m = m\<lparr>on_empty := Some f\<rparr>"

definition SetUnknown :: "UnknownFunc \<Rightarrow> DCM \<Rightarrow> DCM" where
  "SetUnknown f m = m\<lparr>on_unknown := Some f\<rparr>"

definition FetchArg :: "nat \<Rightarrow> debugger \<Rightarrow> nat option \<times> nat \<times> debugger" where
  "FetchArg saved g = (case strtok_r 32 (buffer g) saved of (p, b, saved) \<Rightarrow> (p, saved, g\<lparr>buffer := b\<rparr>))"

section \<open>The commands\<close>

definition do_continue :: "debugger \<Rightarrow> dbg_outcome" where
  "do_continue g = Inr (Some RUN_RESULT_NORMALIZE, g)"

definition do_dump :: "dbg_host \<Rightarrow> nat \<Rightarrow> debugger \<Rightarrow> dbg_outcome" where
  "do_dump H saved g =
    (case FetchArg saved g of (arg, _, g) \<Rightarrow>
     case arg of None \<Rightarrow> Inr (Some RUN_RESULT_STAY, say MissingArgument g)
     | Some p \<Rightarrow>
       let path = cstr_at (buffer g) p in
       if \<not> h_opens H path then Inr (Some RUN_RESULT_STAY, say (NotOpened path) g)
       else if \<not> h_writes H path (mainMemory (g_mmu g)) then Inr (Some RUN_RESULT_STAY, say (NotWritten path) g)
       else Inr (Some RUN_RESULT_STAY, say (Dumped path) g))"

definition do_flags :: "debugger \<Rightarrow> dbg_outcome" where
  "do_flags g = (case GetFlags (buffer g) (flags (g_debug g)) of
     None \<Rightarrow> Inl NullDeref
   | Some s \<Rightarrow> Inr (Some RUN_RESULT_STAY, say (if s = [] then FlagsEmpty else Flags s) g))"

definition do_help :: "debugger \<Rightarrow> dbg_outcome" where
  "do_help g = Inr (Some RUN_RESULT_STAY, say Help g)"

definition isprint :: "u8 \<Rightarrow> bool" where
  "isprint c \<longleftrightarrow> 32 \<le> c \<and> c \<le> 126"

definition PrintChar :: "u8 \<Rightarrow> debugger \<Rightarrow> debugger" where
  "PrintChar c = say (if isprint c then NumberChar c else Number c)"

text \<open>One argument of \<open>print\<close>; the result says whether the loop goes on.\<close>

definition print_arg :: "dbg_host \<Rightarrow> u8 list \<Rightarrow> debugger \<Rightarrow> (bool \<times> debugger) res" where
  "print_arg H arg g =
    (case strtoul arg 0 of (v, used) \<Rightarrow>
     let address = ucast v :: u32; rest = drop used arg in
     if rest = [64, 118] \<or> rest = [] then
       bindR (ReadMem (h_big H) (g_mmu g) address 1) (\<lambda>(e, c, mu).
       let g = g\<lparr>g_mmu := mu\<rparr> in
       if e = NO_EXCEPTION then bindR (need c) (\<lambda>c. Inr (True, PrintChar (ucast c) g)) else Inr (True, say (MemException e) g))
     else if rest = [64, 112] then
       if address \<ge> MEMORY_SIZE then Inr (False, say (TooBig address) g)
       else bindR (aget (mainMemory (g_mmu g)) (unat address)) (\<lambda>c. Inr (True, PrintChar c g))
     else Inr (False, say (NotAddress arg) g))"

lemma FetchArg_bounds:
  "FetchArg saved g = (Some p, saved', g') \<Longrightarrow> saved < saved' \<and> saved < length (buffer g) \<and> length (buffer g') = length (buffer g)"
  using strtok_bounds [of 32 "buffer g" saved p] by (auto simp add: FetchArg_def split: prod.splits)

lemma PrintChar_sel [simp]: "buffer (PrintChar c g) = buffer g"
  by (simp add: PrintChar_def say_def)

lemma print_arg_buffer: "print_arg H arg g = Inr (go, g') \<Longrightarrow> buffer g' = buffer g"
  by (auto simp add: print_arg_def Let_def res_simps say_def split: prod.splits if_splits)

function do_print :: "dbg_host \<Rightarrow> nat \<Rightarrow> debugger \<Rightarrow> dbg_outcome" where
  "do_print H saved g = (case FetchArg saved g of (arg, saved', g') \<Rightarrow>
     case arg of None \<Rightarrow> Inr (Some RUN_RESULT_STAY, g')
     | Some p \<Rightarrow>
       (case print_arg H (cstr_at (buffer g') p) g' of Inl e \<Rightarrow> Inl e
        | Inr (go, g'') \<Rightarrow> if go then do_print H saved' g'' else Inr (Some RUN_RESULT_STAY, g'')))"
  by pat_completeness auto
termination
  by (relation "measure (\<lambda>(H, saved, g). length (buffer g) - saved)") (auto dest!: FetchArg_bounds [OF sym] print_arg_buffer)

declare do_print.simps [simp del]

lemma do_print_none: "FetchArg saved g = (None, s, g') \<Longrightarrow> do_print H saved g = Inr (Some RUN_RESULT_STAY, g')"
  by (simp add: do_print.simps)

lemma do_print_some: "FetchArg saved g = (Some p, s, g1) \<Longrightarrow> do_print H saved g =
    (case print_arg H (cstr_at (buffer g1) p) g1 of Inl e \<Rightarrow> Inl e
     | Inr (go, g2) \<Rightarrow> if go then do_print H s g2 else Inr (Some RUN_RESULT_STAY, g2))"
  by (simp add: do_print.simps [of H saved g])

definition do_quit :: "debugger \<Rightarrow> dbg_outcome" where
  "do_quit g = Inr (None, g)"

definition do_setflags :: "nat \<Rightarrow> debugger \<Rightarrow> dbg_outcome" where
  "do_setflags saved g =
    (case FetchArg saved g of (arg, _, g) \<Rightarrow>
     case arg of None \<Rightarrow> Inr (Some RUN_RESULT_STAY, say MissingArgument g)
     | Some p \<Rightarrow>
       let g = g\<lparr>g_debug := SetFlags (FlagsAt p) (g_debug g)\<rparr>; s = cstr_at (buffer g) p in
       Inr (Some RUN_RESULT_STAY, say (if s = [] then FlagsSetEmpty else FlagsSet s) g))"

definition do_step :: "debugger \<Rightarrow> dbg_outcome" where
  "do_step g = Inr (Some RUN_RESULT_STEP, g)"

definition do_tick :: "nat \<Rightarrow> bool \<Rightarrow> debugger \<Rightarrow> dbg_outcome" where
  "do_tick saved extra g = ASSERT extra
    (case FetchArg saved g of (arg, _, g) \<Rightarrow>
     case arg of None \<Rightarrow> Inr (Some RUN_RESULT_STAY, say MissingArgument g)
     | Some p \<Rightarrow>
       let num_s = cstr_at (buffer g) p in
       (case strtoul num_s 10 of (v, used) \<Rightarrow>
        let num = ucast v :: u32 in
        if drop used num_s \<noteq> [] then Inr (Some RUN_RESULT_STAY, say (NotInteger num_s) g)
        else Inr (Some RUN_RESULT_STEP, g\<lparr>runUntilTime := ucast (g_ticks g + ucast num)\<rparr>)))"

fun call_command :: "dbg_host \<Rightarrow> CommandFunc \<Rightarrow> nat \<Rightarrow> bool \<Rightarrow> debugger \<Rightarrow> dbg_outcome" where
  "call_command H CommandContinue saved extra g = do_continue g"
| "call_command H CommandDump saved extra g = do_dump H saved g"
| "call_command H CommandFlags saved extra g = do_flags g"
| "call_command H CommandHelp saved extra g = do_help g"
| "call_command H CommandPrint saved extra g = do_print H saved g"
| "call_command H CommandQuit saved extra g = do_quit g"
| "call_command H CommandSetFlags saved extra g = do_setflags saved g"
| "call_command H CommandStep saved extra g = do_step g"
| "call_command H CommandTick saved extra g = do_tick saved extra g"

fun call_empty :: "EmptyFunc \<Rightarrow> debugger \<Rightarrow> dbg_outcome" where
  "call_empty HandleEmpty g = Inr (Some RUN_RESULT_STEP, g)"

fun call_unknown :: "UnknownFunc \<Rightarrow> u8 list \<Rightarrow> debugger \<Rightarrow> dbg_outcome" where
  "call_unknown HandleUnknown name g = do_help (say (NotCommand name) g)"

text \<open>The loop over the entries: reading past the array or through a name that was never stored is an error.\<close>

fun commands_loop :: "command option list \<Rightarrow> nat \<Rightarrow> u8 list \<Rightarrow> command option res" where
  "commands_loop cs 0 name = Inr None"
| "commands_loop [] (Suc n) name = Inl OutOfBounds"
| "commands_loop (None # cs) (Suc n) name = Inl DanglingPtr"
| "commands_loop (Some c # cs) (Suc n) name = (if c_name c = name then Inr (Some c) else commands_loop cs n name)"

definition DCM_Run :: "dbg_host \<Rightarrow> nat \<Rightarrow> debugger \<Rightarrow> dbg_outcome" where
  "DCM_Run H line g =
    (case strtok_r 32 (buffer g) line of (w, b, saved) \<Rightarrow>
     let g = g\<lparr>buffer := b\<rparr> in
     case w of
       None \<Rightarrow> (case on_empty (manager g) of None \<Rightarrow> Inl AssertFail | Some f \<Rightarrow> call_empty f g)
     | Some p \<Rightarrow>
         let name = cstr_at b p in
         bindR (commands_loop (commands (manager g)) (count (manager g)) name) (\<lambda>c.
           case c of
             Some c \<Rightarrow> call_command H (c_func c) saved (c_extra c) g
           | None \<Rightarrow> (case on_unknown (manager g) of None \<Rightarrow> Inl AssertFail | Some f \<Rightarrow> call_unknown f name g)))"

section \<open>The debugger\<close>

definition command_list :: "(string \<times> CommandFunc \<times> bool) list" where
  "command_list =
    [(''continue'', CommandContinue, False), (''c'', CommandContinue, False), (''dump'', CommandDump, False), (''flags'', CommandFlags, False),
     (''f'', CommandFlags, False), (''help'', CommandHelp, False), (''h'', CommandHelp, False), (''?'', CommandHelp, False),
     (''print'', CommandPrint, False), (''p'', CommandPrint, False), (''quit'', CommandQuit, False), (''q'', CommandQuit, False),
     (''setflags'', CommandSetFlags, False), (''setf'', CommandSetFlags, False), (''step'', CommandStep, False), (''s'', CommandStep, False),
     (''tick'', CommandTick, True), (''t'', CommandTick, True)]"

definition Debugger_new :: "debugger \<Rightarrow> debugger" where
  "Debugger_new junk =
    (let m = fold (\<lambda>(name, f, extra) m. snd (AddCommand (ascii_str name) f extra m)) command_list (manager junk) in
     say Welcome (junk\<lparr>runUntilTime := 0, previousRegisters := replicate NUM_TOTAL_REGS 0,
       manager := SetUnknown HandleUnknown (SetEmpty HandleEmpty m)\<rparr>))"

definition BUFFER_SIZE :: nat where "BUFFER_SIZE = 80"

text \<open>\<open>fgets\<close>: the characters up to the end of the line, at most \<open>n\<close> of them.\<close>

fun line_chars :: "nat \<Rightarrow> u8 list \<Rightarrow> u8 list" where
  "line_chars 0 inp = []"
| "line_chars (Suc n) [] = []"
| "line_chars (Suc n) (c # inp) = c # (if c = 10 then [] else line_chars n inp)"

text \<open>Trailing spaces are removed from the end of the line downwards. On a line with nothing else the loop runs past the first byte of the buffer.\<close>

definition GetLine :: "debugger \<Rightarrow> (nat option \<times> debugger) res" where
  "GetLine g =
    (if g_stdin g = [] then Inr (None, g)
     else
       let l = line_chars (BUFFER_SIZE - 1) (g_stdin g); b = l @ [0] @ drop (length l + 1) (buffer g);
           s = rev (dropWhile isspace (rev (cstr_at b 0))) in
       if s = [] then Inl OutOfBounds
       else
         let b = b[length s := 0] in
         Inr (Some (length (takeWhile isspace b)), g\<lparr>buffer := b, g_stdin := drop (length l) (g_stdin g)\<rparr>))"

definition NAMES :: "string list" where
  "NAMES = [''ZE'', ''AT'', ''V0'', ''V1'', ''A0'', ''A1'', ''A2'', ''A3'', ''T0'', ''T1'', ''T2'', ''T3'', ''T4'', ''T5'', ''T6'', ''T7'',
     ''S0'', ''S1'', ''S2'', ''S3'', ''S4'', ''S5'', ''S6'', ''S7'', ''T8'', ''T9'', ''K0'', ''K1'', ''GP'', ''SP'', ''FP'', ''RA'']"

definition GetGPRegisterName :: "nat \<Rightarrow> string option" where
  "GetGPRegisterName i = (if i < length NAMES then Some (NAMES ! i) else None)"

definition DumpMachineState :: "debugger \<Rightarrow> debugger" where
  "DumpMachineState g =
    (let rs = g_regs g in
     (say (Registers (map (\<lambda>i. (GetGPRegisterName i, rs ! i, rs ! i \<noteq> previousRegisters g ! i)) [0..<NUM_GP_REGS])
       (map (\<lambda>i. rs ! i) [HI_REG, LO_REG, PC_REG, NEXT_PC_REG, PREV_PC_REG, LOAD_REG, LOAD_VALUE_REG])) g)
     \<lparr>previousRegisters := rs\<rparr>)"

lemma line_chars_ne: "inp \<noteq> [] \<Longrightarrow> 0 < n \<Longrightarrow> line_chars n inp \<noteq> []"
  by (cases inp; cases n) simp_all

lemma GetLine_input: "GetLine g = Inr (Some p, g') \<Longrightarrow> length (g_stdin g') < length (g_stdin g)"
  using line_chars_ne [of "g_stdin g" "BUFFER_SIZE - 1"]
  by (auto simp add: GetLine_def Let_def BUFFER_SIZE_def split: if_splits)

text \<open>What every command leaves as it is. Reading memory sets the use bit of the page and nothing else.\<close>

definition harmless :: "debugger \<Rightarrow> debugger \<Rightarrow> bool" where
  "harmless g g' \<longleftrightarrow> g_stdin g' = g_stdin g \<and> g_regs g' = g_regs g \<and> g_ticks g' = g_ticks g \<and> manager g' = manager g \<and>
     previousRegisters g' = previousRegisters g \<and> length (buffer g') = length (buffer g) \<and>
     (flags (g_debug g) \<noteq> FlagsNull \<longrightarrow> flags (g_debug g') \<noteq> FlagsNull) \<and>
     (mmu_ok (g_mmu g) \<longrightarrow> mmu_ok (g_mmu g') \<and> mainMemory (g_mmu g') = mainMemory (g_mmu g) \<and> phys (g_mmu g') = phys (g_mmu g) \<and>
        writable (g_mmu g') = writable (g_mmu g))"

lemma harmless_refl [simp, intro]: "harmless g g"
  by (simp add: harmless_def)

lemma harmless_trans [trans]: "harmless g g1 \<Longrightarrow> harmless g1 g2 \<Longrightarrow> harmless g g2"
  by (auto simp add: harmless_def)

lemma harmless_say [simp]: "harmless g (say m g')= harmless g g'" "harmless g (PrintChar c g') = harmless g g'"
  by (simp_all add: harmless_def say_def PrintChar_def)

lemma harmless_upd [simp]: "harmless g (g'\<lparr>runUntilTime := u\<rparr>) = harmless g g'" "harmless g g' \<Longrightarrow> harmless g (g'\<lparr>g_debug := SetFlags (FlagsAt p) d\<rparr>)"
  by (auto simp add: harmless_def SetFlags_def)

lemma harmless_FetchArg: "FetchArg saved g = (a, s, g') \<Longrightarrow> harmless g g'"
  by (auto simp add: FetchArg_def harmless_def dest: strtok_length split: prod.splits)

lemma harmless_ReadMem:
  assumes "ReadMem be (g_mmu g) a 1 = Inr (e, c, mu)"
  shows "harmless g (g\<lparr>g_mmu := mu\<rparr>)"
proof (cases "mmu_ok (g_mmu g)")
  case True
  show ?thesis
  proof (cases "translate_exception (g_mmu g) a 1 False = NO_EXCEPTION")
    case exc: True
    show ?thesis using assms by (rule_tac ReadMem_ok [OF True _ exc, of be]) (simp_all add: harmless_def)
  next
    case False
    then show ?thesis using ReadMem_exn [OF True _ False, of be] assms by (simp add: harmless_def)
  qed
qed (simp add: harmless_def)

lemma harmless_print_arg: "print_arg H arg g = Inr (go, g') \<Longrightarrow> harmless g g'"
  by (auto simp add: print_arg_def Let_def res_simps harmless_ReadMem split: prod.splits if_splits)

lemma harmless_do_print: "do_print H saved g = Inr (r, g') \<Longrightarrow> harmless g g'"
proof (induction H saved g rule: do_print.induct)
  case (1 H saved g)
  obtain arg saved' g1 where f: "FetchArg saved g = (arg, saved', g1)" by (metis prod_cases3)
  note q = harmless_FetchArg [OF f]
  show ?case
  proof (cases arg)
    case None
    then show ?thesis using 1(2) f q do_print_none by auto
  next
    case (Some p)
    note u = do_print_some [OF f [unfolded Some], of H]
    obtain go g2 where pa: "print_arg H (cstr_at (buffer g1) p) g1 = Inr (go, g2)" using 1(2) u by (auto split: sum.splits)
    have q2: "harmless g g2" using harmless_trans [OF q harmless_print_arg [OF pa]] .
    show ?thesis
    proof (cases go)
      case True
      then have "harmless g2 g'" using 1(1) [OF f [symmetric] refl Some pa refl] 1(2) u pa by simp
      with q2 show ?thesis by (rule harmless_trans)
    qed (use 1(2) u pa q2 in simp)
  qed
qed

lemmas command_defs = do_continue_def do_dump_def do_flags_def do_help_def do_quit_def do_setflags_def do_step_def do_tick_def

lemma harmless_call_command: "call_command H c saved extra g = Inr (r, g') \<Longrightarrow> harmless g g'"
  by (cases c) (auto simp add: command_defs Let_def res_simps harmless_FetchArg harmless_do_print split: prod.splits option.splits if_splits)

lemma harmless_call_unknown: "call_unknown f name g = Inr (r, g') \<Longrightarrow> harmless g g'"
  by (cases f) (auto simp add: do_help_def)

lemma harmless_call_empty: "call_empty f g = Inr (r, g') \<Longrightarrow> harmless g g'"
  by (cases f) auto

lemma harmless_strtok: "strtok_r 32 (buffer g) p = (w, b, s) \<Longrightarrow> harmless (g\<lparr>buffer := b\<rparr>) g' \<Longrightarrow> harmless g g'"
  by (auto simp add: harmless_def dest: strtok_length)

lemma harmless_Run: "DCM_Run H p g = Inr (r, g') \<Longrightarrow> harmless g g'"
  by (auto simp add: DCM_Run_def Let_def res_simps dest!: harmless_call_command harmless_call_unknown harmless_call_empty intro: harmless_strtok
      split: prod.splits option.splits)

text \<open>The loop of \<open>Step\<close>; it ends because every round reads a line of the input, and the end of the input halts the machine.\<close>

function Step_loop :: "dbg_host \<Rightarrow> debugger \<Rightarrow> (bool option \<times> debugger) res" where
  "Step_loop H g = (case GetLine (say (Prompt (g_ticks g)) g) of
     Inl e \<Rightarrow> Inl e
   | Inr (l, g1) \<Rightarrow>
      (case l of
         None \<Rightarrow> bindR (do_quit g1) (\<lambda>(r, g2). Inr (map_option (\<lambda>r. r \<noteq> RUN_RESULT_STAY) r, g2))
       | Some p \<Rightarrow> (case DCM_Run H p g1 of
           Inl e \<Rightarrow> Inl e
         | Inr (r, g2) \<Rightarrow> (case r of
             None \<Rightarrow> Inr (None, g2)
           | Some res \<Rightarrow> (case res of
               RUN_RESULT_STAY \<Rightarrow> Step_loop H g2
             | RUN_RESULT_STEP \<Rightarrow> Inr (Some True, g2)
             | RUN_RESULT_NORMALIZE \<Rightarrow> Inr (Some False, g2))))))"
  by pat_completeness auto
termination
  by (relation "measure (\<lambda>(H, g). length (g_stdin g))")
    (auto simp add: harmless_def say_def dest!: GetLine_input harmless_Run)

definition Debugger_Step :: "dbg_host \<Rightarrow> debugger \<Rightarrow> (bool option \<times> debugger) res" where
  "Debugger_Step H g =
    (if ucast (runUntilTime g) > g_ticks g then Inr (Some True, g)
     else Step_loop H (DumpMachineState (say DumpState (g\<lparr>runUntilTime := 0\<rparr>))))"

section \<open>The debugger works and is transparent\<close>

definition table_entry :: "string \<times> CommandFunc \<times> bool \<Rightarrow> command" where
  "table_entry e = (case e of (name, f, extra) \<Rightarrow> \<lparr>c_name = ascii_str name, c_func = f, c_extra = extra\<rparr>)"

definition dcm_ok :: "DCM \<Rightarrow> bool" where
  "dcm_ok m \<longleftrightarrow> take (count m) (commands m) = map (Some \<circ> table_entry) command_list \<and> count m \<le> CAPACITY \<and> length (commands m) = CAPACITY \<and>
     on_empty m = Some HandleEmpty \<and> on_unknown m = Some HandleUnknown"

definition dbg_ok :: "debugger \<Rightarrow> bool" where
  "dbg_ok g \<longleftrightarrow> dcm_ok (manager g) \<and> mmu_ok (g_mmu g) \<and> length (buffer g) = BUFFER_SIZE \<and> flags (g_debug g) \<noteq> FlagsNull"

lemma AddCommand_fold:
  assumes "count m + length xs \<le> CAPACITY" and "length (commands m) = CAPACITY"
  shows "fold (\<lambda>(name, f, extra) m. snd (AddCommand (ascii_str name) f extra m)) xs m =
    m\<lparr>commands := take (count m) (commands m) @ map (Some \<circ> table_entry) xs @ drop (count m + length xs) (commands m), count := count m + length xs\<rparr>"
  using assms
proof (induction xs arbitrary: m)
  case (Cons x xs)
  obtain name f extra where x: "x = (name, f, extra)" by (metis prod_cases3)
  define m1 where "m1 = m\<lparr>commands := (commands m)[count m := Some (table_entry x)], count := count m + 1\<rparr>"
  have "snd (AddCommand (ascii_str name) f extra m) = m1" using Cons.prems by (simp add: AddCommand_def m1_def x table_entry_def)
  moreover have "take (Suc (count m)) ((commands m)[count m := Some (table_entry x)]) = take (count m) (commands m) @ [Some (table_entry x)]"
    using Cons.prems by (simp add: take_Suc_conv_app_nth)
  ultimately show ?case using Cons.IH [of m1] Cons.prems by (simp add: x m1_def)
qed simp

lemma Debugger_new_dcm:
  assumes "count (manager junk) = 0" and "length (commands (manager junk)) = CAPACITY"
  shows "dcm_ok (manager (Debugger_new junk))"
  using AddCommand_fold [of "manager junk" command_list] assms
  by (simp add: Debugger_new_def Let_def say_def dcm_ok_def SetUnknown_def SetEmpty_def CAPACITY_def command_list_def)

lemma commands_loop_find:
  "commands_loop (map Some cs @ ys) (length cs) name = Inr (find (\<lambda>c. c_name c = name) cs)"
  by (induction cs) simp_all

lemma commands_loop_ok:
  assumes "dcm_ok m"
  shows "commands_loop (commands m) (count m) name = Inr (find (\<lambda>c. c_name c = name) (map table_entry command_list))"
proof -
  have "take (count m) (commands m) = map Some (map table_entry command_list)" using assms by (simp add: dcm_ok_def)
  then have "commands m = map Some (map table_entry command_list) @ drop (count m) (commands m)" by (metis append_take_drop_id)
  moreover have "count m = length (map table_entry command_list)"
    using assms length_take [of "count m" "commands m"] by (simp add: dcm_ok_def)
  ultimately show ?thesis using commands_loop_find [of "map table_entry command_list" "drop (count m) (commands m)" name] by metis
qed

lemma tick_extra: "find (\<lambda>c. c_name c = name) (map table_entry command_list) = Some c \<Longrightarrow> c_func c = CommandTick \<Longrightarrow> c_extra c"
  by (auto simp add: find_Some_iff table_entry_def command_list_def less_Suc_eq numeral_2_eq_2 numeral_3_eq_3 nth_Cons' split: if_splits)

lemma print_arg_total:
  assumes "mmu_ok (g_mmu g)"
  obtains go g' where "print_arg H arg g = Inr (go, g')"
proof -
  have l: "length (mainMemory (g_mmu g)) = unat MEMORY_SIZE" using assms by (simp add: mmu_ok_def)
  obtain v used where v: "strtoul arg 0 = (v, used)" by fastforce
  obtain e c mu where "ReadMem (h_big H) (g_mmu g) (ucast v) 1 = Inr (e, c, mu)" and "e = NO_EXCEPTION \<longrightarrow> c \<noteq> None"
    using ReadMem_ok [OF assms, of 1 "ucast v" "h_big H"] ReadMem_exn [OF assms, of 1 "ucast v" "h_big H"] by (metis insertI1 option.distinct(1))
  with v l that show ?thesis
    by (fastforce simp add: print_arg_def Let_def need_def aget_def word_le_nat_alt not_le split: if_splits)
qed

lemma do_print_total: "mmu_ok (g_mmu g) \<Longrightarrow> \<exists>r g'. do_print H saved g = Inr (Some r, g')"
proof (induction H saved g rule: do_print.induct)
  case (1 H saved g)
  obtain arg saved' g1 where f: "FetchArg saved g = (arg, saved', g1)" by (metis prod_cases3)
  have m1: "mmu_ok (g_mmu g1)" using harmless_FetchArg [OF f] 1(2) by (simp add: harmless_def)
  show ?case
  proof (cases arg)
    case None
    then show ?thesis using f do_print_none by blast
  next
    case (Some p)
    obtain go g2 where pa: "print_arg H (cstr_at (buffer g1) p) g1 = Inr (go, g2)" using print_arg_total [OF m1] .
    then have "mmu_ok (g_mmu g2)" using harmless_print_arg [OF pa] m1 by (simp add: harmless_def)
    then show ?thesis using 1(1) [OF f [symmetric] refl Some pa refl] do_print_some [OF f [unfolded Some], of H] pa by simp
  qed
qed

lemma call_command_total:
  assumes "mmu_ok (g_mmu g)" and "flags (g_debug g) \<noteq> FlagsNull" and "c = CommandTick \<Longrightarrow> extra"
  shows "\<exists>r g'. call_command H c saved extra g = Inr (r, g')"
  using assms do_print_total [of g H saved]
  by (cases c; cases "flags (g_debug g)") (auto simp add: command_defs Let_def split: prod.splits option.splits)

lemma Run_total:
  assumes "dbg_ok g"
  shows "\<exists>r g'. DCM_Run H p g = Inr (r, g')"
proof -
  obtain w b saved where t: "strtok_r 32 (buffer g) p = (w, b, saved)" by (metis prod_cases3)
  let ?g = "g\<lparr>buffer := b\<rparr>"
  have c: "\<exists>r g'. call_command H (c_func c) saved (c_extra c) ?g = Inr (r, g')"
    if "find (\<lambda>c. c_name c = name) (map table_entry command_list) = Some c" for name c
    using call_command_total [of ?g "c_func c" "c_extra c" H saved] tick_extra [OF that] assms by (simp add: dbg_ok_def)
  have "commands_loop (commands (manager g)) (count (manager g)) name = Inr (find (\<lambda>c. c_name c = name) (map table_entry command_list))" for name
    using assms commands_loop_ok by (simp add: dbg_ok_def)
  then show ?thesis
    using assms by (auto simp add: DCM_Run_def t Let_def dbg_ok_def dcm_ok_def do_help_def c split: option.splits)
qed

lemma length_line_chars: "length (line_chars n inp) \<le> n"
  by (induction n inp rule: line_chars.induct) simp_all

text \<open>The lines as \<open>fgets\<close> gives them, a long one in pieces. A blank one has no character but spaces before its end or its first null.\<close>

function typed_lines :: "u8 list \<Rightarrow> u8 list list" where
  "typed_lines inp = (if inp = [] then [] else
     let l = line_chars (BUFFER_SIZE - 1) inp in l # typed_lines (drop (length l) inp))"
  by pat_completeness auto
termination
  by (relation "measure length") (use line_chars_ne in \<open>auto simp add: BUFFER_SIZE_def\<close>)

declare typed_lines.simps [simp del]

definition blank :: "u8 list \<Rightarrow> bool" where
  "blank l \<longleftrightarrow> list_all isspace (cstr_at l 0)"

lemma cstr_at_line: "cstr_at (l @ 0 # xs) 0 = cstr_at l 0"
  by (induction l) (simp_all add: cstr_at_def)

lemma trimmed_blank: "rev (dropWhile isspace (rev l)) = [] \<longleftrightarrow> list_all isspace l"
  by (auto simp add: list_all_iff dropWhile_eq_Nil_conv)

lemma GetLine_ok:
  assumes "dbg_ok g"
  obtains (eof) "g_stdin g = []" and "GetLine g = Inr (None, g)"
  | (blank) l ls where "typed_lines (g_stdin g) = l # ls" and "blank l" and "GetLine g = Inl OutOfBounds"
  | (line) l ls p b i where "typed_lines (g_stdin g) = l # ls" and "\<not> blank l" and "GetLine g = Inr (Some p, g\<lparr>buffer := b, g_stdin := i\<rparr>)"
    and "length b = BUFFER_SIZE" and "typed_lines i = ls"
proof (cases "g_stdin g = []")
  case True
  then show thesis by (intro eof) (simp_all add: GetLine_def)
next
  case False
  let ?l = "line_chars (BUFFER_SIZE - 1) (g_stdin g)"
  have t: "typed_lines (g_stdin g) = ?l # typed_lines (drop (length ?l) (g_stdin g))" using False by (subst typed_lines.simps) (simp add: Let_def)
  have len: "length ?l < BUFFER_SIZE" using length_line_chars [of "BUFFER_SIZE - 1" "g_stdin g"] by (simp add: BUFFER_SIZE_def)
  let ?b = "?l @ [0] @ drop (length ?l + 1) (buffer g)"
  let ?s = "rev (dropWhile isspace (rev (cstr_at ?b 0)))"
  have s: "?s = [] \<longleftrightarrow> blank ?l" unfolding trimmed_blank by (simp add: cstr_at_line blank_def)
  show thesis
  proof (cases "blank ?l")
    case True
    have "GetLine g = Inl OutOfBounds" using False True s by (simp add: GetLine_def Let_def)
    with t True show thesis by (rule blank)
  next
    case nb: False
    have "GetLine g = Inr (Some (length (takeWhile isspace (?b[length ?s := 0]))), g\<lparr>buffer := ?b[length ?s := 0], g_stdin := drop (length ?l) (g_stdin g)\<rparr>)"
      using False nb s by (simp add: GetLine_def Let_def)
    with t nb show thesis
      by (rule line) (use assms len in \<open>simp_all add: dbg_ok_def\<close>)
  qed
qed

text \<open>What the user's program can see of the machine.\<close>

definition same_program :: "debugger \<Rightarrow> debugger \<Rightarrow> bool" where
  "same_program g g' \<longleftrightarrow> g_regs g' = g_regs g \<and> g_ticks g' = g_ticks g \<and> mainMemory (g_mmu g') = mainMemory (g_mmu g) \<and>
     vmem (g_mmu g') = vmem (g_mmu g) \<and> writable (g_mmu g') = writable (g_mmu g)"

lemma harmless_same_program: "harmless g g' \<Longrightarrow> dbg_ok g \<Longrightarrow> same_program g g' \<and> dbg_ok g'"
  by (auto simp add: harmless_def same_program_def dbg_ok_def vmem_def fun_eq_iff)

lemma Step_loop_ok:
  "dbg_ok g \<Longrightarrow> (\<exists>r g'. Step_loop H g = Inr (r, g') \<and> same_program g g' \<and> dbg_ok g') \<or>
     Step_loop H g = Inl OutOfBounds \<and> (\<exists>l\<in>set (typed_lines (g_stdin g)). blank l)"
proof (induction H g rule: Step_loop.induct)
  case (1 H g)
  let ?g = "say (Prompt (g_ticks g)) g"
  have g0: "dbg_ok ?g" "g_stdin ?g = g_stdin g" using 1(2) by (simp_all add: dbg_ok_def say_def)
  show ?case
  proof (cases rule: GetLine_ok [OF g0(1)])
    case 1
    then show ?thesis using g0(1) by (subst Step_loop.simps) (auto simp add: do_quit_def same_program_def say_def)
  next
    case (2 l ls)
    then show ?thesis using g0(2) by (intro disjI2) (subst Step_loop.simps, simp)
  next
    case (3 l ls p b i)
    let ?g1 = "?g\<lparr>buffer := b, g_stdin := i\<rparr>"
    have g1: "dbg_ok ?g1" "same_program g ?g1" using g0 3(4) by (simp_all add: dbg_ok_def same_program_def say_def)
    obtain r g2 where r: "DCM_Run H p ?g1 = Inr (r, g2)" using Run_total [OF g1(1)] by blast
    note h = harmless_Run [OF r]
    have g2: "dbg_ok g2" "same_program g g2" "g_stdin g2 = i"
      using harmless_same_program [OF h g1(1)] g1(2) h by (simp_all add: same_program_def harmless_def)
    have sub: "set (typed_lines i) \<subseteq> set (typed_lines (g_stdin g))" using 3(1,5) g0(2) by auto
    have stay: "(\<exists>r g'. Step_loop H g2 = Inr (r, g') \<and> same_program g g' \<and> dbg_ok g') \<or>
        Step_loop H g2 = Inl OutOfBounds \<and> (\<exists>l\<in>set (typed_lines (g_stdin g)). blank l)" if "r = Some RUN_RESULT_STAY"
      using "1.IH" [OF 3(3) refl refl r refl that refl g2(1)] g2(2,3) sub by (auto simp add: same_program_def)
    have e: "Step_loop H g = (case r of None \<Rightarrow> Inr (None, g2) | Some res \<Rightarrow> (case res of RUN_RESULT_STAY \<Rightarrow> Step_loop H g2
        | RUN_RESULT_STEP \<Rightarrow> Inr (Some True, g2) | RUN_RESULT_NORMALIZE \<Rightarrow> Inr (Some False, g2)))"
      by (subst Step_loop.simps) (simp add: 3(3) r)
    show ?thesis
    proof (cases "r = Some RUN_RESULT_STAY")
      case True
      then show ?thesis using stay unfolding e by simp
    next
      case False
      then show ?thesis using g2 unfolding e by (auto split: option.splits RunResult.splits)
    qed
  qed
qed

text \<open>C34: Stepping through a program does not change it. With the debugger built on cleared memory and a machine in order, every call of
  \<open>Step\<close> comes back or halts the machine, no assertion fails, and the registers, the clock, main memory and the address space
  that the program sees are the same as before; whatever the user types, with one exception: when a line is blank, the loop of \<open>GetLine\<close> that removes
  trailing spaces reads below the buffer. Without a blank line in the input nothing is accessed out of bounds.\<close>

theorem Step_transparent:
  assumes "dbg_ok g"
  shows "(\<exists>r g'. Debugger_Step H g = Inr (r, g') \<and> g_regs g' = g_regs g \<and> g_ticks g' = g_ticks g \<and> mainMemory (g_mmu g') = mainMemory (g_mmu g) \<and>
       vmem (g_mmu g') = vmem (g_mmu g) \<and> writable (g_mmu g') = writable (g_mmu g) \<and> dbg_ok g') \<or>
     Debugger_Step H g = Inl OutOfBounds \<and> (\<exists>l\<in>set (typed_lines (g_stdin g)). blank l)"
proof (cases "ucast (runUntilTime g) > g_ticks g")
  case True
  then show ?thesis using assms by (simp add: Debugger_Step_def)
next
  case False
  let ?g = "DumpMachineState (say DumpState (g\<lparr>runUntilTime := 0\<rparr>))"
  have "dbg_ok ?g" "same_program g ?g" "g_stdin ?g = g_stdin g"
    using assms by (simp_all add: dbg_ok_def same_program_def DumpMachineState_def say_def Let_def)
  then show ?thesis using Step_loop_ok [of ?g H] False by (auto simp add: Debugger_Step_def same_program_def)
qed

text \<open>A debugger at work: the user prints a byte of memory and lets the program go on for three ticks.\<close>

definition demo_dbg_host :: dbg_host where
  "demo_dbg_host = \<lparr>h_big = False, h_opens = (\<lambda>_. True), h_writes = (\<lambda>_ _. True)\<rparr>"

definition demo_dbg :: "u8 list \<Rightarrow> debugger" where
  "demo_dbg inp = Debugger_new \<lparr>manager = \<lparr>commands = replicate 20 None, count = 0, on_empty = None, on_unknown = None\<rparr>,
     buffer = replicate 80 7, previousRegisters = [], runUntilTime = 9,
     g_debug = Debug_new, g_mmu = demo_mmu, g_regs = replicate 40 0, g_ticks = 50, g_stdin = inp, g_out = []\<rparr>"

section \<open>Lines of two words\<close>

lemma line_chars_line: "10 \<notin> set l \<Longrightarrow> length l < n \<Longrightarrow> line_chars n (l @ 10 # rest) = l @ [10]"
proof (induction l arbitrary: n)
  case Nil
  then show ?case by (cases n) simp_all
next
  case (Cons c l)
  then show ?case by (cases n) auto
qed

lemma GetLine_words:
  assumes "dbg_ok g" and "is_word w" and "is_word a" and "length w + length a \<le> 77" and "g_stdin g = w @ 32 # a @ 10 # rest"
  obtains post where "GetLine g = Inr (Some 0, g\<lparr>buffer := w @ 32 # a @ 0 # post, g_stdin := rest\<rparr>)"
    and "length (w @ 32 # a @ 0 # post) = BUFFER_SIZE" and "post \<noteq> []"
proof -
  let ?l = "w @ 32 # a"
  define post where "post = 0 # drop (length ?l + 2) (buffer g)"
  have ch: "c \<noteq> 0 \<and> c \<noteq> 10" if "c \<in> set ?l" for c using that word_chars [OF assms(2)] word_chars [OF assms(3)] by auto
  have line: "line_chars 79 (g_stdin g) = ?l @ [10]"
    using line_chars_line [of ?l 79 rest] ch assms(4,5) by auto
  have cs: "cstr_at ((?l @ [10]) @ [0] @ drop (length ?l + 2) (buffer g)) 0 = ?l @ [10]"
    using ch by (auto simp add: cstr_at_def takeWhile_append)
  obtain a' z where a: "a = a' @ [z]" using assms(3) by (cases a rule: rev_cases) (simp_all add: is_word_def)
  obtain w' y where w: "w = y # w'" using assms(2) by (cases w) (simp_all add: is_word_def)
  have sp: "isspace 10" "\<not> isspace z" "\<not> isspace y" using assms(2,3) by (simp_all add: a w is_word_def isspace_def)
  then have tr: "rev (dropWhile isspace (rev (?l @ [10]))) = ?l" and ld: "takeWhile isspace (w @ ys) = []" for ys
    by (simp_all add: a w)
  have "((?l @ [10]) @ [0] @ drop (length ?l + 2) (buffer g)) [length ?l := 0] = w @ 32 # a @ 0 # post"
    by (simp add: post_def list_update_append)
  with sp line cs tr ld [of "32 # a @ 0 # post"] assms(1,5) have "GetLine g = Inr (Some 0, g\<lparr>buffer := w @ 32 # a @ 0 # post, g_stdin := rest\<rparr>)"
    by (simp add: GetLine_def BUFFER_SIZE_def Let_def w)
  moreover have "length (w @ 32 # a @ 0 # post) = BUFFER_SIZE" using assms(1,4) by (simp add: post_def dbg_ok_def BUFFER_SIZE_def)
  ultimately show thesis using that by (simp add: post_def)
qed

text \<open>The empty line, which is to repeat a single step, is such a line.\<close>

theorem empty_line_underruns:
  assumes "g_stdin g = 10 # rest"
  shows "Step_loop H g = Inl OutOfBounds"
proof -
  have "GetLine (say (Prompt (g_ticks g)) g) = Inl OutOfBounds"
    using assms line_chars_line [of "[]" 79 rest] by (simp add: GetLine_def say_def BUFFER_SIZE_def Let_def cstr_at_def isspace_def)
  then show ?thesis by (subst Step_loop.simps) simp
qed

text \<open>What the loop of \<open>Step\<close> does with the outcome of a command.\<close>

definition proceed :: "dbg_host \<Rightarrow> dbg_outcome \<Rightarrow> (bool option \<times> debugger) res" where
  "proceed H out = (case out of Inl e \<Rightarrow> Inl e
     | Inr (r, g) \<Rightarrow> (case r of None \<Rightarrow> Inr (None, g)
       | Some res \<Rightarrow> (case res of RUN_RESULT_STAY \<Rightarrow> Step_loop H g | RUN_RESULT_STEP \<Rightarrow> Inr (Some True, g) | RUN_RESULT_NORMALIZE \<Rightarrow> Inr (Some False, g))))"

lemma Step_command:
  assumes "dbg_ok g" and "is_word w" and "is_word a" and "length w + length a \<le> 77" and "g_stdin g = w @ 32 # a @ 10 # rest"
    and "find (\<lambda>c. c_name c = w) (map table_entry command_list) = Some \<lparr>c_name = w, c_func = f, c_extra = extra\<rparr>"
  obtains b where "Step_loop H g = proceed H (call_command H f (length w + 1) extra ((say (Prompt (g_ticks g)) g)\<lparr>g_stdin := rest, buffer := b\<rparr>))"
    and "strtok_r 32 b (length w + 1) = (Some (length w + 1), b, length w + 1 + length a)" and "cstr_at b (length w + 1) = a"
    and "strtok_r 32 b (length w + 1 + length a) = (None, b, length w + 1 + length a)" and "length b = BUFFER_SIZE"
proof -
  let ?g = "say (Prompt (g_ticks g)) g"
  have g0: "dbg_ok ?g" "g_stdin ?g = w @ 32 # a @ 10 # rest" using assms(1,5) by (simp_all add: dbg_ok_def say_def)
  obtain post where l: "GetLine ?g = Inr (Some 0, ?g\<lparr>buffer := w @ 32 # a @ 0 # post, g_stdin := rest\<rparr>)"
    and len: "length (w @ 32 # a @ 0 # post) = BUFFER_SIZE" using GetLine_words [OF g0(1) assms(2-4) g0(2)] .
  define b where "b = w @ 0 # a @ 0 # post"
  have t1: "strtok_r 32 (w @ 32 # a @ 0 # post) 0 = (Some 0, b, length w + 1)" using strtok_word [OF assms(2), of 32 "[]" "a @ 0 # post"] by (simp add: b_def)
  have "commands_loop (commands (manager g)) (count (manager g)) w = Inr (Some \<lparr>c_name = w, c_func = f, c_extra = extra\<rparr>)"
    using assms(1,6) commands_loop_ok by (simp add: dbg_ok_def)
  moreover have "cstr_at b 0 = w" using cstr_at_word [OF assms(2), of "[]"] by (simp add: b_def)
  ultimately have r: "DCM_Run H 0 (?g\<lparr>buffer := w @ 32 # a @ 0 # post, g_stdin := rest\<rparr>) =
      call_command H f (length w + 1) extra (?g\<lparr>g_stdin := rest, buffer := b\<rparr>)"
    by (simp add: DCM_Run_def t1 say_def)
  show thesis
  proof (rule that [of b])
    show "strtok_r 32 b (length w + 1) = (Some (length w + 1), b, length w + 1 + length a)"
      using strtok_word [OF assms(3), of 0 "w @ [0]" post] by (simp add: b_def)
    show "cstr_at b (length w + 1) = a" using cstr_at_word [OF assms(3), of "w @ [0]" post] by (simp add: b_def)
    show "strtok_r 32 b (length w + 1 + length a) = (None, b, length w + 1 + length a)"
      by (rule strtok_none) (simp_all add: b_def nth_append)
    show "length b = BUFFER_SIZE" using len by (simp add: b_def)
  qed (subst Step_loop.simps, simp add: l r proceed_def)
qed

lemma find_entry:
  "find (\<lambda>c. c_name c = ascii_str ''tick'') (map table_entry command_list) = Some \<lparr>c_name = ascii_str ''tick'', c_func = CommandTick, c_extra = True\<rparr>"
  "find (\<lambda>c. c_name c = ascii_str ''print'') (map table_entry command_list) = Some \<lparr>c_name = ascii_str ''print'', c_func = CommandPrint, c_extra = False\<rparr>"
  by (simp_all add: command_list_def table_entry_def ascii_str_def)

lemma is_word_names: "is_word (ascii_str ''tick'')" "is_word (ascii_str ''print'')"
  by (simp_all add: ascii_str_def is_word_def isspace_def)

lemma length_decimal: "n < 10 ^ k \<Longrightarrow> 0 < k \<Longrightarrow> length (decimal n) \<le> k"
proof (induction n arbitrary: k rule: decimal.induct)
  case (1 n)
  show ?case
  proof (cases "n < 10")
    case True
    then show ?thesis using 1(3) by (subst decimal.simps) simp
  next
    case False
    then obtain j where k: "k = Suc j" "0 < j" using 1(2,3) by (cases k; cases "k - 1") auto
    then have "length (decimal (n div 10)) \<le> j" using 1(1) [OF False, of j] 1(2) by auto
    then show ?thesis using False k by (subst decimal.simps) simp
  qed
qed

lemma ucast_low: "unat x < 4294967296 \<Longrightarrow> (ucast (ucast (x :: u64) :: u32) :: u64) = x"
  by (simp add: word_unat_eq_iff unsigned_ucast_eq unsigned_take_bit_eq take_bit_nat_eq_self)

text \<open>The command \<open>tick\<close> with a decimal number lets the program run until the clock has reached that many ticks more, without another
  prompt.\<close>

theorem tick_runs:
  assumes "dbg_ok g" and "ucast (runUntilTime g) \<le> g_ticks g" and "n < 4294967296" and "g_ticks g + of_nat n < 4294967296"
    and "g_stdin g = ascii_str ''tick '' @ decimal n @ 10 # rest"
  shows "\<exists>g'. Debugger_Step H g = Inr (Some True, g') \<and> g_stdin g' = rest \<and>
    (\<forall>later. runUntilTime later = runUntilTime g' \<and> g_ticks later < g_ticks g + of_nat n \<longrightarrow> Debugger_Step H later = Inr (Some True, later)) \<and>
    ucast (runUntilTime g') = g_ticks g + of_nat n"
proof -
  let ?g = "DumpMachineState (say DumpState (g\<lparr>runUntilTime := 0\<rparr>))" and ?w = "ascii_str ''tick''"
  have "length (decimal n) \<le> 10" using length_decimal [of n 10] assms(3) by simp
  then have len: "length ?w + length (decimal n) \<le> 77" by (simp add: ascii_str_def)
  have g0: "dbg_ok ?g" "g_ticks ?g = g_ticks g" and inp: "g_stdin ?g = ?w @ 32 # decimal n @ 10 # rest"
    using assms(1,5) by (simp_all add: dbg_ok_def DumpMachineState_def say_def Let_def ascii_str_def)
  obtain b where b: "strtok_r 32 b (length ?w + 1) = (Some (length ?w + 1), b, length ?w + 1 + length (decimal n))" "cstr_at b (length ?w + 1) = decimal n"
    and s: "Step_loop H ?g = proceed H (call_command H CommandTick (length ?w + 1) True ((say (Prompt (g_ticks ?g)) ?g)\<lparr>g_stdin := rest, buffer := b\<rparr>))"
    using Step_command [OF g0(1) is_word_names(1) is_word_decimal len inp find_entry(1)] by blast
  let ?g1 = "(say (Prompt (g_ticks g)) ?g)\<lparr>g_stdin := rest, buffer := b\<rparr>" and ?t = "ucast (g_ticks g + of_nat n) :: u32"
  have n: "n < ULONG_RANGE" using assms(3) by (simp add: ULONG_RANGE_def)
  have u: "(ucast (ucast (of_nat n :: u64) :: u32) :: u64) = of_nat n"
    by (rule ucast_low) (use assms(3) in \<open>simp add: unat_of_nat take_bit_nat_eq_self\<close>)
  have "call_command H CommandTick (length ?w + 1) True ?g1 = Inr (Some RUN_RESULT_STEP, ?g1\<lparr>runUntilTime := ?t\<rparr>)"
    using b strtoul_decimal(1) [OF n] u by (simp add: do_tick_def FetchArg_def DumpMachineState_def say_def Let_def)
  with s g0 assms(2) have "Debugger_Step H g = Inr (Some True, ?g1\<lparr>runUntilTime := ?t\<rparr>)"
    by (simp add: Debugger_Step_def proceed_def not_less [symmetric])
  moreover have "(ucast ?t :: u64) = g_ticks g + of_nat n"
    by (rule ucast_low) (use assms(4) in \<open>simp add: word_less_nat_alt\<close>)
  ultimately show ?thesis by (auto simp add: Debugger_Step_def)
qed

lemma print_arg_decimal:
  assumes "mmu_ok (g_mmu g)" and "n < 4294967296" and "vmem (g_mmu g) (of_nat n) = Some c"
  obtains mu where "print_arg H (decimal n) g = Inr (True, PrintChar c (g\<lparr>g_mmu := mu\<rparr>))"
proof -
  have a: "ucast (of_nat n :: u64) = (of_nat n :: u32)" using assms(2) by (simp add: word_unat_eq_iff unsigned_ucast_eq unsigned_take_bit_eq unat_of_nat take_bit_nat_eq_self)
  have "n < ULONG_RANGE" using assms(2) by (simp add: ULONG_RANGE_def)
  note st = strtoul_decimal(2) [OF this]
  have "phys (g_mmu g) (of_nat n) \<noteq> None" using assms(3) by (auto simp add: vmem_def)
  then have ex: "translate_exception (g_mmu g) (of_nat n) 1 False = NO_EXCEPTION" by (simp add: translate_exception_no aligned_def)
  have v: "load_value 1 (vbytes (g_mmu g) (of_nat n) 1) = scast c" using assms(3) by (simp add: load_value_def vbytes_def)
  have c: "ucast (scast c :: u32) = c"
  proof (rule bit_word_eqI)
    fix n assume "n < LENGTH(8)"
    then have "n < 7 \<or> n = 7" by auto
    then show "bit (ucast (scast c :: u32) :: u8) n \<longleftrightarrow> bit c n" by (auto simp add: bit_unsigned_iff bit_signed_iff min_def)
  qed
  obtain mu where "ReadMem (h_big H) (g_mmu g) (of_nat n) 1 = Inr (NO_EXCEPTION, Some (scast c), mu)"
    using ReadMem_ok [OF assms(1) _ ex, of "h_big H"] unfolding v by blast
  then have "print_arg H (decimal n) g = Inr (True, PrintChar c (g\<lparr>g_mmu := mu\<rparr>))" by (simp add: print_arg_def st a c Let_def need_def)
  then show thesis by (rule that)
qed

text \<open>The command \<open>print\<close> with the decimal numeral of a virtual address prints the byte that the program has there, as a number and as a
  character when it is printable, and asks for the next command.\<close>

theorem print_shows_memory:
  assumes "dbg_ok g" and "n < 4294967296" and "vmem (g_mmu g) (of_nat n) = Some c"
    and "g_stdin g = ascii_str ''print '' @ decimal n @ 10 # rest"
  shows "\<exists>g'. Step_loop H g = Step_loop H g' \<and> g_stdin g' = rest \<and> dbg_ok g' \<and>
    g_out g' = g_out g @ [Prompt (g_ticks g), if isprint c then NumberChar c else Number c]"
proof -
  let ?w = "ascii_str ''print''"
  have "length (decimal n) \<le> 10" using length_decimal [of n 10] assms(2) by simp
  then have len: "length ?w + length (decimal n) \<le> 77" by (simp add: ascii_str_def)
  have inp: "g_stdin g = ?w @ 32 # decimal n @ 10 # rest" using assms(4) by (simp add: ascii_str_def)
  obtain b where b: "strtok_r 32 b (length ?w + 1) = (Some (length ?w + 1), b, length ?w + 1 + length (decimal n))" "cstr_at b (length ?w + 1) = decimal n"
      "strtok_r 32 b (length ?w + 1 + length (decimal n)) = (None, b, length ?w + 1 + length (decimal n))" and len: "length b = BUFFER_SIZE"
    and s: "Step_loop H g = proceed H (call_command H CommandPrint (length ?w + 1) False ((say (Prompt (g_ticks g)) g)\<lparr>g_stdin := rest, buffer := b\<rparr>))"
    using Step_command [OF assms(1) is_word_names(2) is_word_decimal len inp find_entry(2)] by blast
  let ?g1 = "(say (Prompt (g_ticks g)) g)\<lparr>g_stdin := rest, buffer := b\<rparr>"
  have g1: "dbg_ok ?g1" "mmu_ok (g_mmu ?g1)" "vmem (g_mmu ?g1) (of_nat n) = Some c" using assms(1,3) len by (simp_all add: dbg_ok_def say_def)
  obtain mu where pa: "print_arg H (decimal n) ?g1 = Inr (True, PrintChar c (?g1\<lparr>g_mmu := mu\<rparr>))" using print_arg_decimal [OF g1(2) assms(2) g1(3)] .
  let ?g2 = "PrintChar c (?g1\<lparr>g_mmu := mu\<rparr>)"
  have f1: "FetchArg (length ?w + 1) ?g1 = (Some (length ?w + 1), length ?w + 1 + length (decimal n), ?g1)"
    using b(1) by (simp add: FetchArg_def say_def)
  have f2: "FetchArg (length ?w + 1 + length (decimal n)) ?g2 = (None, length ?w + 1 + length (decimal n), ?g2)"
    using b(3) by (simp add: FetchArg_def PrintChar_def say_def)
  have "do_print H (length ?w + 1) ?g1 = do_print H (length ?w + 1 + length (decimal n)) ?g2"
    using do_print_some [OF f1, of H] b(2) pa by simp
  then have "do_print H (length ?w + 1) ?g1 = Inr (Some RUN_RESULT_STAY, ?g2)" using do_print_none [OF f2, of H] by simp
  with s have "Step_loop H g = Step_loop H ?g2" by (simp add: proceed_def)
  moreover have "dbg_ok ?g2" using harmless_same_program [OF harmless_print_arg [OF pa] g1(1)] by blast
  ultimately show ?thesis by (intro exI [of _ ?g2]) (simp add: PrintChar_def say_def)
qed

text \<open>The constructor does not set \<open>count\<close>: unless the memory of the object happened to be zero, the first entries of the table of commands are never written, and every line with a
  word in it makes the debugger compare with a name that does not exist.\<close>

theorem count_uninitialised:
  assumes "commands (manager junk) = replicate CAPACITY None" and "0 < count (manager junk)"
    and "manager g = manager (Debugger_new junk)" and "strtok_r 32 (buffer g) line = (Some p, b, saved)"
  shows "DCM_Run H line g = Inl DanglingPtr"
proof -
  let ?add = "\<lambda>(name, f, extra) m. snd (AddCommand (ascii_str name) f extra m)"
  have k: "0 < count (fold ?add xs m) \<and> (\<exists>cs. commands (fold ?add xs m) = None # cs)" if "0 < count m" "\<exists>cs. commands m = None # cs" for xs m
    using that by (induction xs arbitrary: m) (auto simp add: AddCommand_def gr0_conv_Suc)
  have "\<exists>cs. commands (manager junk) = None # cs" using assms(1) by (simp add: CAPACITY_def numeral_nat)
  then have "0 < count (manager g) \<and> (\<exists>cs. commands (manager g) = None # cs)"
    using assms(3) k [OF assms(2), of command_list] by (simp add: Debugger_new_def Let_def say_def SetUnknown_def SetEmpty_def CAPACITY_def)
  then show ?thesis using assms(4) by (auto simp add: DCM_Run_def gr0_conv_Suc)
qed

lemma demo_dbg_ok: "dbg_ok (demo_dbg inp)"
  unfolding dbg_ok_def
proof (intro conjI)
  show "dcm_ok (manager (demo_dbg inp))" unfolding demo_dbg_def by (rule Debugger_new_dcm) (simp_all add: CAPACITY_def)
qed (simp_all add: demo_dbg_def Debugger_new_def say_def Let_def BUFFER_SIZE_def Debug_new_def)

lemma demo_dbg_sel: "g_stdin (demo_dbg inp) = inp" "g_ticks (demo_dbg inp) = 50" "runUntilTime (demo_dbg inp) = 0" "g_mmu (demo_dbg inp) = demo_mmu" "g_regs (demo_dbg inp) = replicate 40 0"
  by (simp_all add: demo_dbg_def Debugger_new_def say_def Let_def)

theorem Step_transparent_witness:
  "\<exists>r g'. Debugger_Step demo_dbg_host (demo_dbg (ascii_str ''print 0 300'' @ [10])) = Inr (r, g') \<and> g_regs g' = replicate 40 0"
proof -
  have "typed_lines (ascii_str ''print 0 300'' @ [10]) = [ascii_str ''print 0 300'' @ [10]]"
    using line_chars_line [of "ascii_str ''print 0 300''" 79 "[]"]
    by (subst typed_lines.simps) (simp add: typed_lines.simps [of "[]"] ascii_str_def BUFFER_SIZE_def Let_def)
  moreover have "\<not> blank (ascii_str ''print 0 300'' @ [10])" by (simp add: blank_def cstr_at_def ascii_str_def isspace_def)
  ultimately show ?thesis
    using Step_transparent [OF demo_dbg_ok, of demo_dbg_host "ascii_str ''print 0 300'' @ [10]"] by (auto simp add: demo_dbg_sel)
qed

theorem empty_line_underruns_witness: "Step_loop demo_dbg_host (demo_dbg [10]) = Inl OutOfBounds"
  by (rule empty_line_underruns) (simp add: demo_dbg_sel)

theorem tick_runs_witness:
  "\<exists>g'. Debugger_Step demo_dbg_host (demo_dbg (ascii_str ''tick '' @ decimal 3 @ [10])) = Inr (Some True, g') \<and> ucast (runUntilTime g') = (53 :: u64)"
proof -
  have "(ucast (0 :: u32) :: u64) \<le> 50" "(50 + of_nat 3 :: u64) < 4294967296" by simp_all
  then show ?thesis using tick_runs [OF demo_dbg_ok, of "ascii_str ''tick '' @ decimal 3 @ [10]" 3 "[]"] by (auto simp add: demo_dbg_sel)
qed

theorem print_shows_memory_witness:
  "\<exists>g'. Step_loop demo_dbg_host (demo_dbg (ascii_str ''print '' @ decimal 8 @ [10])) = Step_loop demo_dbg_host g' \<and> g_stdin g' = []"
proof -
  have "\<exists>c. vmem demo_mmu (of_nat 8) = Some c" by (simp add: vmem_def demo_phys)
  then show ?thesis using print_shows_memory [OF demo_dbg_ok, of 8 "ascii_str ''print '' @ decimal 8 @ [10]" _ "[]"] by (auto simp add: demo_dbg_sel)
qed

theorem count_uninitialised_witness:
  "\<exists>junk g. count (manager junk) = 3 \<and> manager g = manager (Debugger_new junk) \<and> DCM_Run demo_dbg_host 0 g = Inl DanglingPtr"
proof -
  define junk where "junk = (demo_dbg [])\<lparr>manager := \<lparr>commands = replicate CAPACITY None, count = 3, on_empty = None, on_unknown = None\<rparr>\<rparr>"
  define g where "g = (Debugger_new junk)\<lparr>buffer := ascii_str ''help'' @ 0 # replicate 75 7\<rparr>"
  have w: "is_word (ascii_str ''help'')" by (simp add: ascii_str_def is_word_def isspace_def)
  have "strtok_r 32 (buffer g) 0 = (Some 0, ascii_str ''help'' @ 0 # replicate 75 7, 4)"
    using strtok_word [OF w, of 0 "[]" "replicate 75 7"] by (simp add: g_def ascii_str_def)
  then have "DCM_Run demo_dbg_host 0 g = Inl DanglingPtr"
    by (intro count_uninitialised [of junk]) (simp_all add: junk_def g_def)
  then show ?thesis by (intro exI [of _ junk] exI [of _ g]) (simp add: junk_def g_def)
qed

text \<open>After \<open>setflags mt\<close> the debug flags are the place of the buffer that held the word, and the next line replaces them.\<close>

lemma flags_alias:
  "do_setflags 5 (g\<lparr>buffer := ascii_str ''setf'' @ [0] @ ascii_str ''mt'' @ replicate 73 0\<rparr>) = Inr (Some RUN_RESULT_STAY, g1) \<Longrightarrow>
     IsEnabled (buffer g1) (g_debug g1) 116 \<and> IsEnabled (ascii_str ''print s+'' @ replicate 72 0) (g_debug g1) 100"
  by (auto simp add: do_setflags_def FetchArg_def strtok_r_def cstr_at_def ascii_str_def Let_def IsEnabled_def SetFlags_def say_def strchr_def)

end
