(* ===== verification/Userprog_Start.thy ===== *)
theory Userprog_Start
  imports Filesys_FileSystem Userprog_AddressSpace
begin

text \<open>
  Running a program from the file system: \<open>StartProcess\<close> of \<open>userprog/prog_test.cc\<close>, the command \<open>-x\<close> of the
  kernel. It brings together the file system, the loader, the memory management unit and the processor.

  \<open>Run\<close> of the machine does not return; \<open>Running\<close> is the state in which it starts. \<open>raw\<close> is the memory of the header
  before it is read.
\<close>

section \<open>StartProcess\<close>

datatype ('h, 'k) started =
    UnableToOpen disk
  | Running "('h, 'k) machine" AddressSpace disk bitmap

definition StartProcess ::
  "bool \<Rightarrow> heap_junk \<Rightarrow> u8 list \<Rightarrow> filesystem \<Rightarrow> disk \<Rightarrow> bitmap \<Rightarrow> u8 list \<Rightarrow> ('h, 'k) machine \<Rightarrow> ('h, 'k) started res" where
  "StartProcess be junk raw fs d b filename m =
     bindR (FileSystem_Open be junk fs d filename) (\<lambda>(executable, d).
     case executable of
       None \<Rightarrow> Inr (UnableToOpen d)
     | Some f \<Rightarrow>
         bindR (AddressSpace_new (OpenFile_ReadAt f) be raw d b (mainMemory (m_mmu m))) (\<lambda>(space, d, b, mem).
         bindR (InitRegisters space (m\<lparr>m_mmu := (m_mmu m)\<lparr>mainMemory := mem\<rparr>\<rparr>)) (\<lambda>m.
         Inr (Running (RestoreState space m) space d b))))"

section \<open>The registers of a new program\<close>

lemma zero_registers_ok:
  assumes "length (registers m) = NUM_TOTAL_REGS" and "\<forall>i\<in>set is. i < NUM_TOTAL_REGS"
  shows "\<exists>rs. zero_registers is m = Inr (m\<lparr>registers := rs\<rparr>) \<and> length rs = NUM_TOTAL_REGS \<and>
     (\<forall>j<NUM_TOTAL_REGS. rs ! j = (if j \<in> set is \<and> j \<noteq> 0 then 0 else registers m ! j))"
  using assms
proof (induction "is" arbitrary: m)
  case (Cons i "is")
  define rs1 where "rs1 = (if i \<noteq> 0 then (registers m)[i := 0] else registers m)"
  have w: "WriteRegister m i 0 = Inr (m\<lparr>registers := rs1\<rparr>)" "length rs1 = NUM_TOTAL_REGS"
    using Cons.prems by (simp_all add: WriteRegister_def rs1_def)
  obtain rs where rs: "zero_registers is (m\<lparr>registers := rs1\<rparr>) = Inr (m\<lparr>registers := rs\<rparr>)" "length rs = NUM_TOTAL_REGS"
    "\<forall>j<NUM_TOTAL_REGS. rs ! j = (if j \<in> set is \<and> j \<noteq> 0 then 0 else rs1 ! j)"
    using Cons.IH [of "m\<lparr>registers := rs1\<rparr>"] Cons.prems(2) w(2) by auto
  have "rs1 ! j = (if j = i \<and> i \<noteq> 0 then 0 else registers m ! j)" if "j < NUM_TOTAL_REGS" for j
    using that Cons.prems(1) by (simp add: rs1_def nth_list_update)
  with rs w(1) show ?case by (intro exI [of _ rs]) auto
next
  case Nil
  then show ?case by (intro exI [of _ "registers m"]) simp
qed

definition start_registers :: "AddressSpace \<Rightarrow> u32 list" where
  "start_registers s = (replicate NUM_TOTAL_REGS 0)[PC_REG := 0, NEXT_PC_REG := 4, STACK_REG := numPages s * PAGE_SIZE - 16]"

lemma InitRegisters_ok:
  assumes "length (registers m) = NUM_TOTAL_REGS" and "registers m ! 0 = 0"
  shows "InitRegisters s m = Inr (m\<lparr>registers := start_registers s\<rparr>)"
proof -
  obtain rs where rs: "zero_registers [0..<NUM_TOTAL_REGS] m = Inr (m\<lparr>registers := rs\<rparr>)" "length rs = NUM_TOTAL_REGS"
    "\<forall>j<NUM_TOTAL_REGS. rs ! j = (if j \<in> set [0..<NUM_TOTAL_REGS] \<and> j \<noteq> 0 then 0 else registers m ! j)"
    using zero_registers_ok [OF assms(1), of "[0..<NUM_TOTAL_REGS]"] by auto
  have "rs = replicate NUM_TOTAL_REGS 0"
    using rs(2,3) assms(2) by (intro nth_equalityI) (auto simp add: reg_nums)
  with rs(1) show ?thesis
    by (simp add: InitRegisters_def WriteRegister_def start_registers_def reg_nums del: upt_Suc)
qed

section \<open>Fetching the first instruction\<close>

lemma Fetch_ok:
  assumes "cpu_ok m" and "aligned (registers m ! PC_REG) 4"
    and "\<forall>i<4. vmem (m_mmu m) (registers m ! PC_REG + of_nat i) = Some (bs ! i)" and "length bs = 4"
  shows "\<exists>m'. FetchInstruction run be m = Inr (Some (Instruction_Decode (word_of_bytes bs)), m')"
proof -
  let ?pc = "registers m ! PC_REG"
  have ok: "mmu_ok (m_mmu m)" "PC_REG < length (registers m)" using assms(1) by (simp_all add: cpu_ok_def machine_ok_def reg_nums)
  have "vmem (m_mmu m) ?pc \<noteq> None" using spec [OF assms(3), of 0] by simp
  then have "translate_exception (m_mmu m) ?pc 4 False = NO_EXCEPTION"
    using assms(2) by (simp add: translate_exception_no vmem_def)
  then obtain mu where "ReadMem be (m_mmu m) ?pc 4 = Inr (NO_EXCEPTION, Some (load_value 4 (vbytes (m_mmu m) ?pc 4)), mu)"
    using ReadMem_ok [OF ok(1)] by (metis insertCI)
  moreover have "vbytes (m_mmu m) ?pc 4 = bs"
    using assms(3,4) by (intro nth_equalityI) (auto simp add: vbytes_def)
  ultimately show ?thesis using ok(2) by (simp add: FetchInstruction_def Machine_ReadMem_def load_value_def)
qed

section \<open>A program from the file system\<close>

lemma StartProcess_spec:
  assumes "fs_ok be fs d" and "fs_files be fs d (cstr 9 name) = Some bs" and "program_ok be bs h"
    and "bitmap_inv b" and "numBits b = 128" and "space_pages h + card (marked b) \<le> 128" and "length raw = 40"
    and "length (mainMemory (m_mmu m)) = 16384" and "tlb (m_mmu m) = None"
    and "length (registers m) = NUM_TOTAL_REGS" and "registers m ! 0 = 0"
    and "length (handlers m) = NUM_EXCEPTION_TYPES" and "None \<notin> set (handlers m)"
    and "virtualAddr (code h) = 0" and "4 \<le> unat (seg_size (code h))" and "4 \<le> unat (virtualAddr (initData h))"
  shows "\<exists>m' s d' b'. StartProcess be junk raw fs d b name m = Inr (Running m' s d' b') \<and> cpu_ok m' \<and>
     registers m' = start_registers s \<and> unat (numPages s) = space_pages h \<and>
     (\<forall>i<unat (seg_size (initData h)). vmem (m_mmu m') (virtualAddr (initData h) + of_nat i) = Some (bs ! (unat (inFileAddr (initData h)) + i))) \<and>
     (\<exists>m''. FetchInstruction run be m' = Inr (Some (Instruction_Decode (word_of_bytes (slice (unat (inFileAddr (code h))) 4 bs))), m''))"
proof -
  obtain d1 f where f: "FileSystem_Open be junk fs d name = Inr (Some f, d1)" "hdr_ok (hdr f)" "file_bytes d1 (hdr f) = bs" "disk_ok d1"
    using Open_spec [OF assms(1), where name = name and junk = junk] assms(2) fs_okD(1) by fastforce
  have p: "program_ok be (file_bytes d1 (hdr f)) h" using assms(3) f(3) by simp
  obtain s d2 b' mem where r: "AddressSpace_new (OpenFile_ReadAt f) be raw d1 b (mainMemory (m_mmu m)) = Inr (s, d2, b', mem)"
    "unat (numPages s) = space_pages h" "mmu_ok (space_mmu s mem)"
    "\<forall>i<unat (seg_size (initData h)). vmem (space_mmu s mem) (virtualAddr (initData h) + of_nat i) = Some (bs ! (unat (inFileAddr (initData h)) + i))"
    "\<forall>i<unat (seg_size (code h)). \<not> (unat (virtualAddr (initData h)) \<le> unat (virtualAddr (code h)) + i \<and>
          unat (virtualAddr (code h)) + i < unat (virtualAddr (initData h)) + unat (seg_size (initData h))) \<longrightarrow>
        vmem (space_mmu s mem) (virtualAddr (code h) + of_nat i) = Some (bs ! (unat (inFileAddr (code h)) + i))"
    using AddressSpace_spec [OF f(2,4) p assms(4,5,8,7,6)] unfolding f(3) by blast
  define m1 where "m1 = m\<lparr>m_mmu := (m_mmu m)\<lparr>mainMemory := mem\<rparr>, registers := start_registers s\<rparr>"
  define m' where "m' = RestoreState s m1"
  have mm: "m_mmu m' = space_mmu s mem"
    using assms(9) by (simp add: m'_def m1_def RestoreState_def space_mmu_def)
  have rg: "registers m' = start_registers s" by (simp add: m'_def m1_def RestoreState_def)
  have "StartProcess be junk raw fs d b name m = Inr (Running m' s d2 b')"
    using f(1) r(1) InitRegisters_ok [of "m\<lparr>m_mmu := (m_mmu m)\<lparr>mainMemory := mem\<rparr>\<rparr>" s] assms(10,11)
    by (simp add: StartProcess_def m'_def m1_def)
  moreover have c: "cpu_ok m'"
    using assms(12,13) r(3) unfolding cpu_ok_def machine_ok_def mm rg
    by (simp add: m'_def m1_def RestoreState_def start_registers_def reg_nums)
  moreover have "\<exists>m''. FetchInstruction run be m' = Inr (Some (Instruction_Decode (word_of_bytes (slice (unat (inFileAddr (code h))) 4 bs))), m'')"
  proof (rule Fetch_ok [OF c])
    have pc: "registers m' ! PC_REG = 0" by (simp add: rg start_registers_def reg_nums)
    then show "aligned (registers m' ! PC_REG) 4" by (simp add: aligned_def)
    have l: "unat (inFileAddr (code h)) + 4 \<le> length bs" using assms(3,15) by (simp add: program_ok_def segment_ok_def)
    show "\<forall>i<4. vmem (m_mmu m') (registers m' ! PC_REG + of_nat i) = Some (slice (unat (inFileAddr (code h))) 4 bs ! i)"
      using r(5) assms(14-16) l unfolding pc mm by simp
    show "length (slice (unat (inFileAddr (code h))) 4 bs) = 4" using l by simp
  qed
  ultimately show ?thesis using rg r(2,4) mm by metis
qed

text \<open>C18: \<open>nachos -x name\<close>. When the file of that name is a well-formed program and there are enough free pages, the
  machine starts in a well-formed state with the initial registers, its data segment is in memory at its address, and
  the first instruction it fetches is the one at the beginning of the file's code segment.\<close>

theorem StartProcess_runs:
  assumes "fs_ok be fs d" and "fs_files be fs d (cstr 9 name) = Some bs" and "program_ok be bs h"
    and "bitmap_inv b" and "numBits b = 128" and "space_pages h + card (marked b) \<le> 128" and "length raw = 40"
    and "length (mainMemory (m_mmu m)) = 16384" and "tlb (m_mmu m) = None"
    and "length (registers m) = NUM_TOTAL_REGS" and "registers m ! 0 = 0"
    and "length (handlers m) = NUM_EXCEPTION_TYPES" and "None \<notin> set (handlers m)"
    and "virtualAddr (code h) = 0" and "4 \<le> unat (seg_size (code h))" and "4 \<le> unat (virtualAddr (initData h))"
  shows "\<exists>m' s d' b'. StartProcess be junk raw fs d b name m = Inr (Running m' s d' b') \<and> cpu_ok m' \<and>
     registers m' = start_registers s \<and> unat (numPages s) = space_pages h \<and>
     (\<forall>i<unat (seg_size (initData h)). vmem (m_mmu m') (virtualAddr (initData h) + of_nat i) = Some (bs ! (unat (inFileAddr (initData h)) + i))) \<and>
     (\<exists>m''. FetchInstruction run be m' = Inr (Some (Instruction_Decode (word_of_bytes (slice (unat (inFileAddr (code h))) 4 bs))), m''))"
  by (rule StartProcess_spec [OF assms])

subsection \<open>A concrete program\<close>

definition prog_words :: "u32 list" where
  "prog_words = [NOFF_MAGIC, 0, 40, 4, 128, 44, 1, 129, 0, 5]"

definition prog_head :: noffHeader where
  "prog_head = header_of prog_words"

definition prog_image :: "u8 list" where
  "prog_image = bytes_of_words False prog_words @ [0x20, 0x18, 0x22, 0x00, 51] @ replicate 55 0"

lemma prog_words_bytes: "bytes_of_words False prog_words =
    [173, 223, 186, 0, 0, 0, 0, 0, 40, 0, 0, 0, 4, 0, 0, 0, 128, 0, 0, 0, 44, 0, 0, 0, 1, 0, 0, 0, 129, 0, 0, 0, 0, 0, 0, 0, 5, 0, 0, 0]"
  by code_simp

lemma prog_ok: "program_ok False prog_image prog_head" "space_pages prog_head = 9" "length prog_image = 100"
proof -
  show l: "length prog_image = 100" by (simp add: prog_image_def prog_words_bytes)
  have t: "take 40 prog_image = bytes_of_words False prog_words" by (simp add: prog_image_def prog_words_bytes)
  have "CheckMagic False prog_head = (True, prog_head)" by code_simp
  moreover show "space_pages prog_head = 9" by code_simp
  ultimately show "program_ok False prog_image prog_head" using l
    by (simp add: program_ok_def t) (simp add: prog_head_def header_of_def segment_ok_def segment_of_def prog_words_def)
qed

definition prog_machine :: "(unit, unit) machine" where
  "prog_machine = \<lparr>registers = replicate NUM_TOTAL_REGS 0,
     m_mmu = \<lparr>mainMemory = replicate 16384 0, tlb = None, pageTable = None, pageTableSize = 0\<rparr>,
     handlers = replicate NUM_EXCEPTION_TYPES (Some ()), status = SYSTEM_MODE, kernel = ()\<rparr>"

lemma prog_disk: "\<exists>fs d. fs_ok False fs d \<and> fs_files False fs d [65] = Some prog_image"
proof -
  obtain fs d bs where d: "fs_ok False fs d" "fs_files False fs d [65] = Some bs" "length bs = 100"
    using demo_created by blast
  obtain i where i: "named (entries False fs d) [65] i" "bs = contents False d (entries False fs d ! i)"
    using fs_files_SomeD [OF d(1,2)] by blast
  let ?f = "\<lparr>hdr = hdr_at False d (e_sector (entries False fs d ! i)), seekPosition = 0\<rparr>"
  have n: "unat (numBytes (hdr ?f)) = 100" using i(2) d(3) by (simp add: contents_def file_bytes_def)
  obtain d' where "fs_ok False fs d'" "fs_files False fs d' = (fs_files False fs d)([65] \<mapsto> blit bs 0 prog_image)"
    using write_file [OF d(1) i(1), of ?f 100 0 prog_image "\<lambda>_. 0"] n prog_ok(3) i(2) by auto
  moreover have "blit bs 0 prog_image = prog_image" using d(3) prog_ok(3) by (simp add: blit_def)
  ultimately have "fs_ok False fs d' \<and> fs_files False fs d' [65] = Some prog_image" by simp
  then show ?thesis by blast
qed

theorem StartProcess_runs_witness:
  "\<exists>fs d m' s d' b' m''. StartProcess False (\<lambda>_ _. 7) (replicate 40 0) fs d demo_pages [65] prog_machine = Inr (Running m' s d' b') \<and>
     FetchInstruction (\<lambda>_ _ m. Inr m) False m' = Inr (Some add_123, m'')"
proof -
  obtain fs d where d: "fs_ok False fs d" "fs_files False fs d (cstr 9 [65]) = Some prog_image"
    using prog_disk by (auto simp add: demo_cstr)
  have a: "virtualAddr (code prog_head) = 0" "4 \<le> unat (seg_size (code prog_head))" "4 \<le> unat (virtualAddr (initData prog_head))"
    "unat (inFileAddr (code prog_head)) = 40"
    by (simp_all add: prog_head_def header_of_def segment_of_def prog_words_def)
  have room: "space_pages prog_head + card (marked demo_pages) \<le> 128" by (simp add: prog_ok demo_pages_ok)
  have w: "word_of_bytes (slice 40 4 prog_image) = (0x00221820 :: u32)"
  proof -
    have "slice 40 4 prog_image = [0x20, 0x18, 0x22, 0]" by (simp add: prog_image_def prog_words_bytes slice_def)
    then show ?thesis by (simp only:) code_simp
  qed
  have m: "length (mainMemory (m_mmu prog_machine)) = 16384" "tlb (m_mmu prog_machine) = None"
    "length (registers prog_machine) = NUM_TOTAL_REGS" "registers prog_machine ! 0 = 0"
    "length (handlers prog_machine) = NUM_EXCEPTION_TYPES" "None \<notin> set (handlers prog_machine)"
    by (simp_all add: prog_machine_def reg_nums)
  from StartProcess_runs [OF d prog_ok(1) demo_pages_ok(1,2) room length_replicate m a(1-3)] show ?thesis
    unfolding a(4) w Decode_add_123 by blast
qed

end
