(* ===== verification/Network_Post.thy ===== *)
theory Network_Post
  imports Complex_Main Machine_Driver Filesys_OpenFile
begin

text \<open>
  The network device and the post office: \<open>machine/network.cc\<close>, \<open>machine/network.hh\<close>,
  \<open>network/post.cc\<close> and \<open>network/post.hh\<close>.

  The UNIX sockets behind the device are lists of datagrams: \<open>socket\<close> holds the ones that have arrived
  and were not read, \<open>wire\<close> the ones handed to the host with the address they go to. \<open>reachable\<close> tells
  for which addresses a socket exists, \<open>randoms\<close> are the coming values of \<open>SystemDep::Random\<close>,
  \<open>times100\<close> is the product \<open>chanceToWork * 100\<close> in the host's floating point. The lists of the mail boxes
  are synchronised lists; their operations are single steps, and a thread waits at an empty one.
\<close>

section \<open>Headers\<close>

record PacketHeader =
  pk_to :: u32
  pk_from :: u32
  pk_length :: u32

record MailHeader =
  ml_to :: u32
  ml_from :: u32
  ml_length :: u32

definition HEADER_BYTES :: nat where "HEADER_BYTES = 12"
definition MAX_WIRE_SIZE :: nat where "MAX_WIRE_SIZE = 64"
definition MAX_PACKET_SIZE :: nat where "MAX_PACKET_SIZE = MAX_WIRE_SIZE - HEADER_BYTES"
definition MAX_MAIL_SIZE :: nat where "MAX_MAIL_SIZE = MAX_PACKET_SIZE - HEADER_BYTES"

text \<open>A header in memory: its three words in the host's byte order.\<close>

definition packet_bytes :: "bool \<Rightarrow> PacketHeader \<Rightarrow> u8 list" where
  "packet_bytes be h = bytes_of_words be [pk_to h, pk_from h, pk_length h]"

definition packet_of_bytes :: "bool \<Rightarrow> u8 list \<Rightarrow> PacketHeader" where
  "packet_of_bytes be bs = (let ws = words_of_bytes be (take HEADER_BYTES bs) in \<lparr>pk_to = ws ! 0, pk_from = ws ! 1, pk_length = ws ! 2\<rparr>)"

definition mail_bytes :: "bool \<Rightarrow> MailHeader \<Rightarrow> u8 list" where
  "mail_bytes be h = bytes_of_words be [ml_to h, ml_from h, ml_length h]"

definition mail_of_bytes :: "bool \<Rightarrow> u8 list \<Rightarrow> MailHeader" where
  "mail_of_bytes be bs = (let ws = words_of_bytes be (take HEADER_BYTES bs) in \<lparr>ml_to = ws ! 0, ml_from = ws ! 1, ml_length = ws ! 2\<rparr>)"

lemma header_bytes [simp]: "length (packet_bytes be h) = 12" "length (mail_bytes be m) = 12"
  by (simp_all add: packet_bytes_def mail_bytes_def)

lemma packet_roundtrip [simp]: "packet_of_bytes be (packet_bytes be h @ bs) = h"
  by (simp add: packet_of_bytes_def HEADER_BYTES_def) (simp add: packet_bytes_def)

lemma mail_roundtrip [simp]: "mail_of_bytes be (mail_bytes be h @ bs) = h"
  by (simp add: mail_of_bytes_def HEADER_BYTES_def) (simp add: mail_bytes_def)

section \<open>Mail\<close>

text \<open>The payload is the part of the array that the constructor copies; the rest of the array stays
  uninitialised and is never read.\<close>

record Mail =
  m_pktHdr :: PacketHeader
  m_mailHdr :: MailHeader
  m_data :: "u8 list"

text \<open>\<open>memmove\<close> out of an array of bytes.\<close>

definition bytes_from :: "u8 list \<Rightarrow> nat \<Rightarrow> nat \<Rightarrow> u8 list res" where
  "bytes_from bs i n = (if i + n \<le> length bs then Inr (slice i n bs) else Inl OutOfBounds)"

definition Mail_new :: "PacketHeader \<Rightarrow> MailHeader \<Rightarrow> u8 list \<Rightarrow> Mail res" where
  "Mail_new pktH mailH msgData = ASSERT (unat (ml_length mailH) \<le> MAX_MAIL_SIZE)
     (bindR (bytes_from msgData 0 (unat (ml_length mailH))) (\<lambda>d. Inr \<lparr>m_pktHdr = pktH, m_mailHdr = mailH, m_data = d\<rparr>))"

section \<open>The device\<close>

record network =
  ident :: u32
  chanceToWork :: rat
  sendBusy :: bool
  inHdr :: PacketHeader
  inbox :: "u8 list"
  socket :: "u8 list list"
  wire :: "(u32 \<times> u8 list) list"
  reachable :: "u32 \<Rightarrow> bool"
  randoms :: "nat \<Rightarrow> u32"
  boxes :: "Mail list list"
  wk_hdr :: PacketHeader      \<comment> \<open>\<open>pktHdr\<close> and \<open>buffer\<close>, the locals of \<open>PostalDelivery\<close>\<close>
  wk_buffer :: "u8 list"
  arrived :: "u8 list list"   \<comment> \<open>every datagram that has reached the socket\<close>

datatype net_handler = NetworkReadPoll | NetworkSendDone

type_synonym net_state = "(net_handler, network, Mail) dstate"
type_synonym net_act = "net_state \<Rightarrow> net_state res"

definition Network_new :: "bool \<Rightarrow> u32 \<Rightarrow> rat \<Rightarrow> net_act" where
  "Network_new fx addr reliability s =
     Schedule fx NetworkReadPoll NETWORK_TIME NETWORK_RECV_INT
       (upd_dev (\<lambda>d. d\<lparr>ident := addr,
          chanceToWork := (if reliability < 0 then 0 else if reliability > 1 then 1 else reliability),
          sendBusy := False, inHdr := (inHdr d)\<lparr>pk_length := 0\<rparr>\<rparr>) s)"

definition CheckPktAvail :: "bool \<Rightarrow> bool \<Rightarrow> net_act \<Rightarrow> net_act" where
  "CheckPktAvail fx be readHandler s =
     bindR (Schedule fx NetworkReadPoll NETWORK_TIME NETWORK_RECV_INT s) (\<lambda>s.
     if pk_length (inHdr (dev (sys s))) \<noteq> 0 then Inr s
     else case socket (dev (sys s)) of [] \<Rightarrow> Inr s
     | buffer # rest \<Rightarrow>
       ASSERT (length buffer = MAX_WIRE_SIZE)
       (let pkt = packet_of_bytes be buffer; n = unat (pk_length pkt) in
        ASSERT (pk_to pkt = ident (dev (sys s)) \<and> n \<le> MAX_PACKET_SIZE)
        (bindR (bytes_from buffer HEADER_BYTES n) (\<lambda>bs.
         let s = upd_dev (\<lambda>d. d\<lparr>socket := rest, inHdr := pkt, inbox := blit (inbox d) 0 bs\<rparr>) s;
             s = s\<lparr>stats := (stats s)\<lparr>numPacketsRecvd := numPacketsRecvd (stats s) + 1\<rparr>\<rparr> in
         readHandler s))))"

definition SendDone :: "net_act \<Rightarrow> net_act" where
  "SendDone writeHandler s =
     (let s = upd_dev (\<lambda>d. d\<lparr>sendBusy := False\<rparr>) s;
          s = s\<lparr>stats := (stats s)\<lparr>numPacketsSent := numPacketsSent (stats s) + 1\<rparr>\<rparr> in
      writeHandler s)"

text \<open>\<open>junk\<close> is the content of the fresh buffer.\<close>

definition Network_Send :: "bool \<Rightarrow> bool \<Rightarrow> (rat \<Rightarrow> rat) \<Rightarrow> u8 list \<Rightarrow> PacketHeader \<Rightarrow> u8 list \<Rightarrow> net_act" where
  "Network_Send fx be times100 junk pkt data s =
     ASSERT (\<not> sendBusy (dev (sys s)) \<and> pk_length pkt > 0 \<and> unat (pk_length pkt) \<le> MAX_PACKET_SIZE \<and> pk_from pkt = ident (dev (sys s)))
     (bindR (Schedule fx NetworkSendDone NETWORK_TIME NETWORK_SEND_INT s) (\<lambda>s.
      let r = randoms (dev (sys s)) 0; s = upd_dev (\<lambda>d. d\<lparr>randoms := (\<lambda>i. randoms d (Suc i))\<rparr>) s in
      if of_nat (unat (r mod 100)) \<ge> times100 (chanceToWork (dev (sys s))) then Inr s
      else
        bindR (bytes_from data 0 (unat (pk_length pkt))) (\<lambda>bs.
        let buffer = blit (blit (take MAX_WIRE_SIZE junk) 0 (packet_bytes be pkt)) HEADER_BYTES bs in
        ASSERT (reachable (dev (sys s)) (pk_to pkt))
        (Inr (upd_dev (\<lambda>d. d\<lparr>wire := wire d @ [(pk_to pkt, buffer)]\<rparr>) s)))))"

text \<open>\<open>Receive\<close> copies into the caller's buffer, an array of \<open>MAX_PACKET_SIZE\<close> bytes.\<close>

definition Network_Receive :: "u8 list \<Rightarrow> net_state \<Rightarrow> (PacketHeader \<times> u8 list \<times> net_state) res" where
  "Network_Receive data s =
     (let pkt = inHdr (dev (sys s)); s = upd_dev (\<lambda>d. d\<lparr>inHdr := (inHdr d)\<lparr>pk_length := 0\<rparr>\<rparr>) s in
      if pk_length pkt \<noteq> 0
      then bindR (bytes_from (inbox (dev (sys s))) 0 (unat (pk_length pkt))) (\<lambda>bs. Inr (pkt, blit data 0 bs, s))
      else Inr (pkt, data, s))"

section \<open>The post office\<close>

definition messageAvailable :: nat where "messageAvailable = 0"
definition messageSent :: nat where "messageSent = 1"
definition sendLock :: nat where "sendLock = 0"

definition IncomingPacket :: net_act where "IncomingPacket = sem_V messageAvailable"
definition PacketSent :: net_act where "PacketSent = sem_V messageSent"

fun net_run :: "bool \<Rightarrow> bool \<Rightarrow> net_handler \<Rightarrow> net_act" where
  "net_run fx be NetworkReadPoll = CheckPktAvail fx be IncomingPacket"
| "net_run fx be NetworkSendDone = SendDone PacketSent"

definition MailBox_Put :: "nat \<Rightarrow> PacketHeader \<Rightarrow> MailHeader \<Rightarrow> u8 list \<Rightarrow> net_act" where
  "MailBox_Put b pktHdr mailHdr data s =
     bindR (Mail_new pktHdr mailHdr data) (\<lambda>mail.
     bindR (aget (boxes (dev (sys s))) b) (\<lambda>messages.
     Inr (upd_dev (\<lambda>d. d\<lparr>boxes := (boxes d)[b := messages @ [mail]]\<rparr>) s)))"

definition MailBox_Get :: "nat \<Rightarrow> net_state \<Rightarrow> (Mail \<times> net_state) res option" where
  "MailBox_Get b s =
     (case aget (boxes (dev (sys s))) b of Inl e \<Rightarrow> Some (Inl e)
      | Inr [] \<Rightarrow> None
      | Inr (mail # messages) \<Rightarrow> Some (Inr (mail, upd_dev (\<lambda>d. d\<lparr>boxes := (boxes d)[b := messages]\<rparr>) s)))"

datatype post_op = NetSend PacketHeader "u8 list" | NetReceive | Deliver | BoxGet nat

text \<open>The operations of the post office: the code each runs, after the assertions at its start.\<close>

definition PostOffice_Send :: "bool \<Rightarrow> u32 \<Rightarrow> nat \<Rightarrow> u8 list \<Rightarrow> PacketHeader \<Rightarrow> MailHeader \<Rightarrow> u8 list \<Rightarrow> post_op stmt list res" where
  "PostOffice_Send be netAddr numBoxes junk pktHdr mailHdr data =
     ASSERT (unat (ml_length mailHdr) \<le> MAX_MAIL_SIZE) (ASSERT (0 \<le> sint (ml_to mailHdr) \<and> sint (ml_to mailHdr) < int numBoxes)
     (bindR (bytes_from data 0 (unat (ml_length mailHdr))) (\<lambda>bs.
      let pktHdr = pktHdr\<lparr>pk_from := netAddr, pk_length := ml_length mailHdr + of_nat HEADER_BYTES\<rparr>;
          buffer = blit (blit (take MAX_PACKET_SIZE junk) 0 (mail_bytes be mailHdr)) HEADER_BYTES bs in
      Inr [Acquire sendLock, Do (NetSend pktHdr buffer), P messageSent, Release sendLock])))"

definition PostOffice_Receive :: "nat \<Rightarrow> int \<Rightarrow> post_op stmt list res" where
  "PostOffice_Receive numBoxes box = ASSERT (box \<ge> 0 \<and> box < int numBoxes) (Inr [Do (BoxGet (nat box))])"

text \<open>The loop of \<open>PostalDelivery\<close> never ends; a run sees some number of its rounds.\<close>

definition PostalDelivery :: "nat \<Rightarrow> post_op stmt list" where
  "PostalDelivery rounds = concat (replicate rounds [P messageAvailable, Do NetReceive, Do Deliver])"

record host =
  h_be :: bool
  h_fix :: bool
  h_times100 :: "rat \<Rightarrow> rat"
  h_junk :: "u8 list"

fun post_exec :: "host \<Rightarrow> post_op \<Rightarrow> nat \<Rightarrow> net_state \<Rightarrow> net_state res option" where
  "post_exec h (NetSend pkt buffer) t s = Some (Network_Send (h_fix h) (h_be h) (h_times100 h) (h_junk h) pkt buffer s)"
| "post_exec h NetReceive t s =
     Some (bindR (Network_Receive (wk_buffer (dev (sys s))) s) (\<lambda>(pkt, buffer, s).
       Inr (upd_dev (\<lambda>d. d\<lparr>wk_hdr := pkt, wk_buffer := buffer\<rparr>) s)))"
| "post_exec h Deliver t s =
     Some (let buffer = wk_buffer (dev (sys s)); mailHdr = mail_of_bytes (h_be h) buffer in
       ASSERT (0 \<le> sint (ml_to mailHdr) \<and> sint (ml_to mailHdr) < int (length (boxes (dev (sys s)))))
       (ASSERT (unat (ml_length mailHdr) \<le> MAX_MAIL_SIZE)
       (MailBox_Put (unat (ml_to mailHdr)) (wk_hdr (dev (sys s))) mailHdr (drop HEADER_BYTES buffer) s)))"
| "post_exec h (BoxGet b) t s =
     map_option (\<lambda>r. bindR r (\<lambda>(mail, s). ASSERT (unat (ml_length (m_mailHdr mail)) \<le> MAX_MAIL_SIZE)
       (Inr (upd_sys (\<lambda>x. x\<lparr>returned := returned x @ [(t, mail)]\<rparr>) s)))) (MailBox_Get b s)"

text \<open>A new post office: \<open>net_init\<close> is the memory before its constructor, with the host's network.\<close>

definition net_init :: "host \<Rightarrow> (u32 \<Rightarrow> bool) \<Rightarrow> (nat \<Rightarrow> u32) \<Rightarrow> PacketHeader \<Rightarrow> net_state" where
  "net_init h peers rnd junkHdr = (Interrupt_new Statistics_new
     \<lparr>owner = (\<lambda>_. None), val = (\<lambda>_. 0),
      dev = \<lparr>ident = 0, chanceToWork = 0, sendBusy = False, inHdr = junkHdr, inbox = take MAX_PACKET_SIZE (h_junk h), socket = [],
        wire = [], reachable = peers, randoms = rnd, boxes = [],
        wk_hdr = junkHdr, wk_buffer = take MAX_PACKET_SIZE (h_junk h), arrived = []\<rparr>,
      returned = []\<rparr>)\<lparr>level := INT_ON\<rparr>"

definition PostOffice_new :: "host \<Rightarrow> u32 \<Rightarrow> rat \<Rightarrow> int \<Rightarrow> net_act" where
  "PostOffice_new h addr reliability nBoxes s =
     ASSERT (nBoxes > 0)
     (Network_new (h_fix h) addr reliability
       (upd_sys (\<lambda>x. x\<lparr>val := (val x)(messageAvailable := 0, messageSent := 0), owner := (owner x)(sendLock := None),
          dev := (dev x)\<lparr>boxes := replicate (nat nBoxes) []\<rparr>\<rparr>) s))"

section \<open>Datagrams\<close>

text \<open>The message a datagram carries, and the datagrams a post office with address \<open>addr\<close> and \<open>n\<close> boxes
  can take.\<close>

definition payload :: "bool \<Rightarrow> u8 list \<Rightarrow> u8 list" where
  "payload be d = slice HEADER_BYTES (unat (pk_length (packet_of_bytes be d))) d"

definition mail_of :: "bool \<Rightarrow> u8 list \<Rightarrow> Mail" where
  "mail_of be d = (let m = mail_of_bytes be (payload be d) in
     \<lparr>m_pktHdr = packet_of_bytes be d, m_mailHdr = m, m_data = slice HEADER_BYTES (unat (ml_length m)) (payload be d)\<rparr>)"

definition box_of :: "Mail \<Rightarrow> nat" where
  "box_of m = unat (ml_to (m_mailHdr m))"

definition legal :: "bool \<Rightarrow> u32 \<Rightarrow> nat \<Rightarrow> u8 list \<Rightarrow> bool" where
  "legal be addr n d \<longleftrightarrow> length d = MAX_WIRE_SIZE \<and> pk_to (packet_of_bytes be d) = addr \<and>
     unat (pk_length (packet_of_bytes be d)) \<le> MAX_PACKET_SIZE \<and>
     unat (ml_length (mail_of_bytes be (payload be d))) + HEADER_BYTES \<le> unat (pk_length (packet_of_bytes be d)) \<and>
     0 \<le> sint (ml_to (mail_of_bytes be (payload be d))) \<and> sint (ml_to (mail_of_bytes be (payload be d))) < int n"

lemmas post_sizes = HEADER_BYTES_def MAX_WIRE_SIZE_def MAX_PACKET_SIZE_def MAX_MAIL_SIZE_def

lemma length_slice_le: "i + n \<le> length xs \<Longrightarrow> length (slice i n xs) = n"
  by (simp add: slice_def)

lemma sint_index:
  assumes "0 \<le> sint (w :: u32)" and "sint w < int n"
  shows "unat w < n"
proof -
  have "unat w < 2147483648" using assms(1) unat_less32 [of w] sint_cases32 [of w] by (simp split: if_splits)
  then have "sint w = int (unat w)" using sint_cases32 [of w] by simp
  with assms(2) show ?thesis by (simp only: of_nat_less_iff)
qed

lemma legal_simps:
  assumes "legal be addr n d"
  shows "length (payload be d) = unat (pk_length (packet_of_bytes be d))" and "12 \<le> length (payload be d)" and "length (payload be d) \<le> 52"
    and "pk_length (packet_of_bytes be d) \<noteq> 0" and "box_of (mail_of be d) < n"
    and "unat (ml_length (m_mailHdr (mail_of be d))) \<le> 40"
proof -
  let ?p = "packet_of_bytes be d"
  have l: "length d = 64" "unat (pk_length ?p) \<le> 52" "unat (ml_length (m_mailHdr (mail_of be d))) + 12 \<le> unat (pk_length ?p)"
    "0 \<le> sint (ml_to (m_mailHdr (mail_of be d)))" "sint (ml_to (m_mailHdr (mail_of be d))) < int n"
    using assms by (simp_all add: legal_def post_sizes mail_of_def Let_def)
  then show a: "length (payload be d) = unat (pk_length ?p)" by (simp add: payload_def length_slice_le post_sizes)
  show "12 \<le> length (payload be d)" "length (payload be d) \<le> 52" "unat (ml_length (m_mailHdr (mail_of be d))) \<le> 40"
    using l a by simp_all
  show "pk_length ?p \<noteq> 0" using l(3) by auto
  show "box_of (mail_of be d) < n" unfolding box_of_def by (rule sint_index [OF l(4,5)])
qed

text \<open>The buffer of the postal worker after it has received the payload: parsing it gives the mail.\<close>

lemma mail_of_buffer:
  assumes "legal be addr n d" and "take (length (payload be d)) buf = payload be d"
  shows "mail_of_bytes be buf = m_mailHdr (mail_of be d)"
    and "Mail_new (packet_of_bytes be d) (m_mailHdr (mail_of be d)) (drop HEADER_BYTES buf) = Inr (mail_of be d)"
proof -
  let ?p = "payload be d" and ?m = "unat (ml_length (m_mailHdr (mail_of be d)))"
  obtain rest where b: "buf = ?p @ rest" using assms(2) by (metis append_take_drop_id)
  note l = legal_simps [OF assms(1)]
  have "take 12 buf = take 12 ?p" using b l(2) by simp
  then show "mail_of_bytes be buf = m_mailHdr (mail_of be d)"
    by (simp add: mail_of_bytes_def mail_of_def HEADER_BYTES_def Let_def)
  have m: "?m + 12 \<le> length ?p" using assms(1) l(1) by (simp add: legal_def HEADER_BYTES_def mail_of_def Let_def)
  have "slice 0 ?m (drop 12 buf) = slice 12 ?m ?p" using b m by (simp add: slice_def)
  then show "Mail_new (packet_of_bytes be d) (m_mailHdr (mail_of be d)) (drop HEADER_BYTES buf) = Inr (mail_of be d)"
    using l(6) b m by (simp add: Mail_new_def bytes_from_def post_sizes mail_of_def Let_def)
qed

text \<open>The datagram that a sending post office puts on the wire is legal at the receiver, and carries the message.\<close>

lemma blit_prefix: "length ys \<le> length xs \<Longrightarrow> take (length ys) (blit xs 0 ys) = ys"
  by (simp add: blit_def)

lemma blit_header:
  assumes "length h = 12" and "12 + length bs \<le> length xs"
  shows "\<exists>rest. blit (blit xs 0 h) 12 bs = h @ bs @ rest" and "length (blit (blit xs 0 h) 12 bs) = length xs"
  using assms by (simp_all add: blit_def)

lemma wire_mail:
  assumes "length mail = 12 + length bs" and "mail = mail_bytes be mh @ bs" and "unat (pk_length ph) = length mail"
    and "12 + length mail \<le> 64" and "length xs = 64" and "unat (ml_length mh) = length bs"
    and d: "d = blit (blit xs 0 (packet_bytes be ph)) 12 mail"
  shows "packet_of_bytes be d = ph" and "payload be d = mail" and "mail_of be d = \<lparr>m_pktHdr = ph, m_mailHdr = mh, m_data = bs\<rparr>"
proof -
  obtain rest where r: "d = packet_bytes be ph @ mail @ rest"
    using blit_header(1) [of "packet_bytes be ph" mail xs] assms(4,5) unfolding d by auto
  then show p: "packet_of_bytes be d = ph" by simp
  show y: "payload be d = mail" using p assms(3) r by (simp add: payload_def slice_def HEADER_BYTES_def)
  show "mail_of be d = \<lparr>m_pktHdr = ph, m_mailHdr = mh, m_data = bs\<rparr>"
    using y p assms(2,6) by (simp add: mail_of_def slice_def HEADER_BYTES_def Let_def)
qed

section \<open>The invariant\<close>

datatype post_stage = Away | SHeld | SBusy | SDone | WGot | WRecv

fun post_stage_of :: "post_op stmt list \<Rightarrow> post_stage option" where
  "post_stage_of [] = Some Away"
| "post_stage_of (Acquire l # as) = (if l = sendLock then after Away SHeld (post_stage_of as) else None)"
| "post_stage_of (Release l # as) = (if l = sendLock then after SDone Away (post_stage_of as) else None)"
| "post_stage_of (P i # as) =
     (if i = messageSent then after SBusy SDone (post_stage_of as)
      else if i = messageAvailable then after Away WGot (post_stage_of as) else None)"
| "post_stage_of (Do (NetSend pkt buf) # as) = after SHeld SBusy (post_stage_of as)"
| "post_stage_of (Do NetReceive # as) = after WGot WRecv (post_stage_of as)"
| "post_stage_of (Do Deliver # as) = after WRecv Away (post_stage_of as)"
| "post_stage_of (Do (BoxGet b) # as) = after Away Away (post_stage_of as)"

text \<open>What the code of a thread may ask for, at a post office with address \<open>addr\<close>, \<open>n\<close> boxes and the postal
  worker \<open>w\<close>.\<close>

definition stmt_wf :: "u32 \<Rightarrow> nat \<Rightarrow> (u32 \<Rightarrow> bool) \<Rightarrow> bool \<Rightarrow> post_op stmt \<Rightarrow> bool" where
  "stmt_wf addr n peers wk a \<longleftrightarrow>
     (case a of Do (NetSend pkt buf) \<Rightarrow> 0 < pk_length pkt \<and> unat (pk_length pkt) \<le> MAX_PACKET_SIZE \<and>
         unat (pk_length pkt) \<le> length buf \<and> pk_from pkt = addr \<and> peers (pk_to pkt)
      | Do (BoxGet b) \<Rightarrow> b < n
      | Do _ \<Rightarrow> wk
      | P i \<Rightarrow> i = messageAvailable \<longrightarrow> wk
      | _ \<Rightarrow> True)"

abbreviation "sending \<equiv> {SHeld, SBusy, SDone}"
abbreviation "sorting \<equiv> {WGot, WRecv}"

definition post_core :: "nat \<Rightarrow> (nat \<Rightarrow> post_stage option) \<Rightarrow> net_handler multiset \<Rightarrow> (network, Mail) sync \<Rightarrow> bool" where
  "post_core w S M x \<longleftrightarrow>
     (\<forall>t. S t \<noteq> None) \<and> lock_at S (owner x sendLock) sending \<and>
     (\<forall>t. t \<noteq> w \<longrightarrow> S t \<notin> {Some WGot, Some WRecv}) \<and>
     M = add_mset NetworkReadPoll (replicate_mset (of_bool (held SBusy S) - val x messageSent) NetworkSendDone) \<and>
     val x messageSent \<le> of_bool (held SBusy S) \<and>
     val x messageAvailable + of_bool (S w = Some WGot) = of_bool (pk_length (inHdr (dev x)) \<noteq> 0)"

definition post_static :: "u32 \<Rightarrow> nat \<Rightarrow> (u32 \<Rightarrow> bool) \<Rightarrow> network \<Rightarrow> bool" where
  "post_static addr n peers d \<longleftrightarrow> ident d = addr \<and> length (boxes d) = n \<and> length (inbox d) = 52 \<and> length (wk_buffer d) = 52 \<and>
     \<not> sendBusy d \<and> reachable d = peers"

text \<open>\<open>carries\<close> says that a header and a buffer hold a received datagram; \<open>slot\<close> that a place holds the
  datagrams of the list, one or none.\<close>

definition carries :: "bool \<Rightarrow> PacketHeader \<Rightarrow> u8 list \<Rightarrow> u8 list \<Rightarrow> bool" where
  "carries be pkt buf g \<longleftrightarrow> pkt = packet_of_bytes be g \<and> take (length (payload be g)) buf = payload be g"

definition slot :: "bool \<Rightarrow> bool \<Rightarrow> PacketHeader \<Rightarrow> u8 list \<Rightarrow> u8 list list \<Rightarrow> bool" where
  "slot be full pkt buf gs \<longleftrightarrow> (if full then \<exists>g. gs = [g] \<and> carries be pkt buf g else gs = [])"

definition sorted_mail :: "nat \<Rightarrow> Mail list \<Rightarrow> Mail list \<Rightarrow> Mail list list \<Rightarrow> bool" where
  "sorted_mail n all got bs \<longleftrightarrow> (\<forall>b<n. filter (\<lambda>m. box_of m = b) got @ bs ! b = filter (\<lambda>m. box_of m = b) all)"

definition flow_at :: "bool \<Rightarrow> nat \<Rightarrow> bool \<Rightarrow> Mail list \<Rightarrow> network \<Rightarrow> u8 list list \<Rightarrow> u8 list list \<Rightarrow> u8 list list \<Rightarrow> bool" where
  "flow_at be n recv got d old wk dv \<longleftrightarrow> arrived d = old @ wk @ dv @ socket d \<and>
     slot be recv (wk_hdr d) (wk_buffer d) wk \<and> slot be (pk_length (inHdr d) \<noteq> 0) (inHdr d) (inbox d) dv \<and>
     sorted_mail n (map (mail_of be) old) got (boxes d)"

definition post_flow :: "bool \<Rightarrow> u32 \<Rightarrow> nat \<Rightarrow> bool \<Rightarrow> Mail list \<Rightarrow> network \<Rightarrow> bool" where
  "post_flow be addr n recv got d \<longleftrightarrow> (\<forall>g\<in>set (arrived d). legal be addr n g) \<and> (\<exists>old wk dv. flow_at be n recv got d old wk dv)"

text \<open>The moves of a message: it arrives at the socket, the device reads it, the worker takes it from the
  device and puts it into a box, and a thread takes it out.\<close>

lemma flow_arrive:
  assumes "post_flow be addr n r got d" and "legal be addr n g"
  shows "post_flow be addr n r got (d\<lparr>socket := socket d @ [g], arrived := arrived d @ [g]\<rparr>)"
  using assms by (auto simp add: post_flow_def flow_at_def)

lemma flow_read:
  assumes "post_flow be addr n r got d" and "pk_length (inHdr d) = 0" and "socket d = g # gs" and "length (inbox d) = 52"
  shows "post_flow be addr n r got (d\<lparr>socket := gs, inHdr := packet_of_bytes be g, inbox := blit (inbox d) 0 (payload be g)\<rparr>)"
    and "legal be addr n g"
proof -
  from assms(1,2) obtain old wk where f: "flow_at be n r got d old wk []" by (auto simp add: post_flow_def flow_at_def slot_def)
  have g: "legal be addr n g" using assms(1,3) f by (auto simp add: post_flow_def flow_at_def)
  have "carries be (packet_of_bytes be g) (blit (inbox d) 0 (payload be g)) g"
    using legal_simps(3) [OF g] assms(4) by (simp add: carries_def blit_prefix)
  then have "flow_at be n r got (d\<lparr>socket := gs, inHdr := packet_of_bytes be g, inbox := blit (inbox d) 0 (payload be g)\<rparr>) old wk [g]"
    using f assms(3) legal_simps(4) [OF g] by (simp add: flow_at_def slot_def)
  with assms(1) g show "post_flow be addr n r got (d\<lparr>socket := gs, inHdr := packet_of_bytes be g, inbox := blit (inbox d) 0 (payload be g)\<rparr>)"
    "legal be addr n g" by (auto simp add: post_flow_def)
qed

lemma flow_take:
  assumes "post_flow be addr n False got d" and "pk_length (inHdr d) \<noteq> 0" and "length (inbox d) = 52" and "length (wk_buffer d) = 52"
  defines "k \<equiv> unat (pk_length (inHdr d))"
  shows "k \<le> 52" and "post_flow be addr n True got (d\<lparr>inHdr := (inHdr d)\<lparr>pk_length := 0\<rparr>, wk_hdr := inHdr d,
     wk_buffer := blit (wk_buffer d) 0 (slice 0 k (inbox d))\<rparr>)"
proof -
  from assms(1,2) obtain old g where f: "flow_at be n False got d old [] [g]" and c: "carries be (inHdr d) (inbox d) g"
    by (auto simp add: post_flow_def flow_at_def slot_def)
  have g: "legal be addr n g" using assms(1) f by (auto simp add: post_flow_def flow_at_def)
  have k: "k = length (payload be g)" using c legal_simps(1) [OF g] by (simp add: k_def carries_def)
  then show k52: "k \<le> 52" using legal_simps(3) [OF g] by simp
  have sl: "slice 0 k (inbox d) = payload be g" using c k by (simp add: slice_def carries_def)
  have "carries be (inHdr d) (blit (wk_buffer d) 0 (payload be g)) g"
    using c k52 k assms(4) by (simp add: carries_def blit_prefix)
  then have "flow_at be n True got (d\<lparr>inHdr := (inHdr d)\<lparr>pk_length := 0\<rparr>, wk_hdr := inHdr d,
     wk_buffer := blit (wk_buffer d) 0 (slice 0 k (inbox d))\<rparr>) old [g] []"
    unfolding sl using f by (simp add: flow_at_def slot_def)
  with assms(1) show "post_flow be addr n True got (d\<lparr>inHdr := (inHdr d)\<lparr>pk_length := 0\<rparr>, wk_hdr := inHdr d,
     wk_buffer := blit (wk_buffer d) 0 (slice 0 k (inbox d))\<rparr>)" by (auto simp add: post_flow_def)
qed

lemma sorted_mail_put:
  assumes "sorted_mail n all got bs" and "box_of m < n" and "length bs = n"
  shows "sorted_mail n (all @ [m]) got (bs[box_of m := bs ! box_of m @ [m]])"
  unfolding sorted_mail_def
proof (intro allI impI)
  fix b assume "b < n"
  with assms(1) have "filter (\<lambda>m. box_of m = b) got @ bs ! b = filter (\<lambda>m. box_of m = b) all" by (simp add: sorted_mail_def)
  then show "filter (\<lambda>m. box_of m = b) got @ bs[box_of m := bs ! box_of m @ [m]] ! b = filter (\<lambda>m. box_of m = b) (all @ [m])"
    using assms(2,3) by (cases "box_of m = b") simp_all
qed

lemma flow_put:
  assumes "post_flow be addr n True got d" and "length (boxes d) = n"
  obtains g where "legal be addr n g" and "carries be (wk_hdr d) (wk_buffer d) g"
    and "post_flow be addr n False got (d\<lparr>boxes := (boxes d)[box_of (mail_of be g) := boxes d ! box_of (mail_of be g) @ [mail_of be g]]\<rparr>)"
proof -
  from assms(1) obtain old g dv where f: "flow_at be n True got d old [g] dv" and c: "carries be (wk_hdr d) (wk_buffer d) g"
    by (auto simp add: post_flow_def flow_at_def slot_def)
  have g: "legal be addr n g" using assms(1) f by (auto simp add: post_flow_def flow_at_def)
  let ?m = "mail_of be g"
  have "flow_at be n False got (d\<lparr>boxes := (boxes d)[box_of ?m := boxes d ! box_of ?m @ [?m]]\<rparr>) (old @ [g]) [] dv"
    using f sorted_mail_put [OF _ legal_simps(5) [OF g] assms(2)] by (simp add: flow_at_def slot_def)
  with assms(1) have "post_flow be addr n False got (d\<lparr>boxes := (boxes d)[box_of ?m := boxes d ! box_of ?m @ [?m]]\<rparr>)"
    by (auto simp add: post_flow_def)
  with g c show thesis by (rule that)
qed

lemma flow_get:
  assumes "post_flow be addr n r got d" and "b < n" and "length (boxes d) = n" and "boxes d ! b = m # ms"
  shows "post_flow be addr n r (got @ [m]) (d\<lparr>boxes := (boxes d)[b := ms]\<rparr>)" and "unat (ml_length (m_mailHdr m)) \<le> 40"
proof -
  from assms(1) obtain old wk dv where f: "flow_at be n r got d old wk dv" by (auto simp add: post_flow_def)
  then have s: "filter (\<lambda>m. box_of m = c) got @ boxes d ! c = filter (\<lambda>m. box_of m = c) (map (mail_of be) old)" if "c < n" for c
    using that by (simp add: flow_at_def sorted_mail_def)
  have "m \<in> set (filter (\<lambda>m. box_of m = b) (map (mail_of be) old))"
    unfolding s [OF assms(2), symmetric] using assms(4) by simp
  then obtain g where g: "g \<in> set old" "m = mail_of be g" and b: "box_of m = b" by auto
  have "legal be addr n g" using assms(1) f g(1) by (auto simp add: post_flow_def flow_at_def)
  then show "unat (ml_length (m_mailHdr m)) \<le> 40" using legal_simps(6) g(2) by blast
  have "sorted_mail n (map (mail_of be) old) (got @ [m]) ((boxes d)[b := ms])"
    unfolding sorted_mail_def
  proof (intro allI impI)
    fix c assume "c < n"
    then show "filter (\<lambda>m. box_of m = c) (got @ [m]) @ (boxes d)[b := ms] ! c = filter (\<lambda>m. box_of m = c) (map (mail_of be) old)"
      using s [of c] assms(3,4) b by (cases "b = c") simp_all
  qed
  then have "flow_at be n r (got @ [m]) (d\<lparr>boxes := (boxes d)[b := ms]\<rparr>) old wk dv" using f by (simp add: flow_at_def)
  with assms(1) show "post_flow be addr n r (got @ [m]) (d\<lparr>boxes := (boxes d)[b := ms]\<rparr>)" by (auto simp add: post_flow_def)
qed

subsection \<open>Locks, semaphores and interrupts\<close>

lemmas post_locks = messageAvailable_def messageSent_def sendLock_def

lemma core_send_lock: "post_core w S M x \<Longrightarrow> lock_at S (owner x sendLock) sending"
  by (simp add: post_core_def)

lemma post_acquire:
  assumes "post_core w S M x" and "S t = Some Away"
  shows "owner x sendLock \<noteq> Some t"
    and "owner x sendLock = None \<Longrightarrow> post_core w (S(t := Some SHeld)) M (x\<lparr>owner := (owner x)(sendLock := Some t)\<rparr>)"
proof -
  show "owner x sendLock \<noteq> Some t"
  proof
    assume "owner x sendLock = Some t"
    with core_send_lock [OF assms(1)] have "\<exists>q\<in>sending. S t = Some q" unfolding lock_at_def by blast
    with assms(2) show False by simp
  qed
  show "post_core w (S(t := Some SHeld)) M (x\<lparr>owner := (owner x)(sendLock := Some t)\<rparr>)" if "owner x sendLock = None"
    using assms that unfolding post_core_def by (auto simp add: held_upd(2) [of S t Away] lock_at_upd(2))
qed

lemma post_release:
  assumes "post_core w S M x" and "S t = Some SDone"
  shows "owner x sendLock = Some t" and "post_core w (S(t := Some Away)) M (x\<lparr>owner := (owner x)(sendLock := None)\<rparr>)"
  using assms lock_at_holder [OF core_send_lock [OF assms(1)] assms(2)] unfolding post_core_def
  by (auto simp add: held_upd(2) [of S t SDone] lock_at_upd(3))

lemma post_send:
  assumes "post_core w S M x" and "S t = Some SHeld" and "inHdr d = inHdr (dev x)"
  shows "post_core w (S(t := Some SBusy)) (add_mset NetworkSendDone M) (x\<lparr>dev := d\<rparr>)"
proof -
  have "\<not> held SBusy S" using held_one(1) [OF core_send_lock [OF assms(1)] assms(2)] by simp
  with assms show ?thesis unfolding post_core_def
    by (auto simp add: held_upd(1) lock_at_upd(1) [of S _ _ t SHeld] add_mset_commute)
qed

lemma post_wait_sent:
  assumes "post_core w S M x" and "S t = Some SBusy" and "0 < val x messageSent"
  shows "post_core w (S(t := Some SDone)) M (x\<lparr>val := (val x)(messageSent := val x messageSent - 1)\<rparr>)"
proof -
  have "\<not> held SBusy (S(t := Some SDone))" "held SBusy S"
    using held_one [OF core_send_lock [OF assms(1)] assms(2), of SBusy] by simp_all
  with assms show ?thesis unfolding post_core_def post_locks
    by (auto simp add: lock_at_upd(1) [of S _ _ t SBusy])
qed

lemma post_wait_mail:
  assumes "post_core w S M x" and "S w = Some Away" and "0 < val x messageAvailable"
  shows "post_core w (S(w := Some WGot)) M (x\<lparr>val := (val x)(messageAvailable := val x messageAvailable - 1)\<rparr>)"
  using assms unfolding post_core_def post_locks
  by (auto simp add: held_upd(2) [of S w Away] lock_at_upd(1) [of S _ _ w Away])

lemma post_receive:
  assumes "post_core w S M x" and "S w = Some WGot"
  shows "pk_length (inHdr (dev x)) \<noteq> 0"
    and "pk_length (inHdr d) = 0 \<Longrightarrow> post_core w (S(w := Some WRecv)) M (x\<lparr>dev := d\<rparr>)"
proof -
  show l: "pk_length (inHdr (dev x)) \<noteq> 0"
    using assms unfolding post_core_def by (cases "pk_length (inHdr (dev x)) = 0") simp_all
  show "post_core w (S(w := Some WRecv)) M (x\<lparr>dev := d\<rparr>)" if "pk_length (inHdr d) = 0"
    using assms that l unfolding post_core_def
    by (auto simp add: held_upd(2) [of S w WGot] lock_at_upd(1) [of S _ _ w WGot])
qed

lemma post_deliver:
  assumes "post_core w S M x" and "S w = Some WRecv" and "inHdr d = inHdr (dev x)"
  shows "post_core w (S(w := Some Away)) M (x\<lparr>dev := d\<rparr>)"
  using assms unfolding post_core_def
  by (auto simp add: held_upd(2) [of S w WRecv] lock_at_upd(1) [of S _ _ w WRecv])

lemma post_poll:
  assumes "post_core w S M x" and "pk_length (inHdr (dev x)) = 0" and "pk_length (inHdr d) \<noteq> 0"
  shows "post_core w S M (x\<lparr>dev := d, val := (val x)(messageAvailable := val x messageAvailable + 1)\<rparr>)"
  using assms unfolding post_core_def post_locks by auto

lemma post_done:
  assumes "post_core w S (add_mset NetworkSendDone M) x" and "inHdr d = inHdr (dev x)"
  shows "post_core w S M (x\<lparr>dev := d, val := (val x)(messageSent := val x messageSent + 1)\<rparr>)"
proof -
  let ?k = "of_bool (held SBusy S) - val x messageSent"
  have m: "add_mset NetworkSendDone M = add_mset NetworkReadPoll (replicate_mset ?k NetworkSendDone)"
    using assms(1) by (simp add: post_core_def)
  then have "NetworkSendDone \<in># add_mset NetworkReadPoll (replicate_mset ?k NetworkSendDone)" by (metis union_single_eq_member)
  then have k: "0 < ?k" by (cases ?k) simp_all
  then have h: "held SBusy S" "val x messageSent = 0" by (cases "held SBusy S"; simp)+
  with m have "M = {#NetworkReadPoll#}" by (simp add: add_mset_commute)
  with assms h show ?thesis unfolding post_core_def post_locks by auto
qed

subsection \<open>The handlers and the code\<close>

definition post_inv :: "bool \<Rightarrow> u32 \<Rightarrow> nat \<Rightarrow> (u32 \<Rightarrow> bool) \<Rightarrow> nat \<Rightarrow> (nat \<Rightarrow> post_op stmt list) \<Rightarrow> net_handler multiset \<Rightarrow> (network, Mail) sync \<Rightarrow> bool" where
  "post_inv be addr n peers w c M x \<longleftrightarrow> post_core w (post_stage_of \<circ> c) M x \<and> post_static addr n peers (dev x) \<and>
     (\<forall>t. \<forall>a\<in>set (c t). stmt_wf addr n peers (t = w) a) \<and>
     post_flow be addr n ((post_stage_of \<circ> c) w = Some WRecv) (map snd (returned x)) (dev x)"

lemma post_inv_upd:
  assumes "post_inv be addr n peers w c M0 x0" and "c t = a # as" and "post_stage_of as = Some q"
    and "post_core w ((post_stage_of \<circ> c)(t := Some q)) M x" and "post_static addr n peers (dev x)"
    and "post_flow be addr n (((post_stage_of \<circ> c)(t := Some q)) w = Some WRecv) (map snd (returned x)) (dev x)"
  shows "post_inv be addr n peers w (c(t := as)) M x"
proof -
  have "\<forall>u. \<forall>b\<in>set ((c(t := as)) u). stmt_wf addr n peers (u = w) b"
    using assms(1,2) unfolding post_inv_def by (metis fun_upd_apply list.set_intros(2))
  with assms show ?thesis by (simp add: post_inv_def fun_upd_comp)
qed

lemma post_handler_ok:
  assumes "post_inv be addr n peers w c (add_mset h (pending_ms s)) (sys s)" and "clock_room fx s"
  shows "\<exists>s'. net_run fx be h s = Inr s' \<and> post_inv be addr n peers w c (pending_ms s') (sys s') \<and> clock_room fx s'"
proof -
  have i: "post_core w (post_stage_of \<circ> c) (add_mset h (pending_ms s)) (sys s)" "post_static addr n peers (dev (sys s))"
    "post_flow be addr n ((post_stage_of \<circ> c) w = Some WRecv) (map snd (returned (sys s))) (dev (sys s))"
    using assms(1) by (simp_all add: post_inv_def)
  show ?thesis
  proof (cases h)
    case NetworkReadPoll
    obtain s1 where s1: "Schedule fx NetworkReadPoll NETWORK_TIME NETWORK_RECV_INT s = Inr s1"
      "pending_ms s1 = add_mset h (pending_ms s)" "sys s1 = sys s" "clock_room fx s1"
      by (rule Schedule_device [OF assms(2), where d = NETWORK_TIME and h = NetworkReadPoll and k = NETWORK_RECV_INT]) (auto simp add: NETWORK_TIME_def NetworkReadPoll)
    show ?thesis
    proof (cases "pk_length (inHdr (dev (sys s))) \<noteq> 0 \<or> socket (dev (sys s)) = []")
      case True
      with s1 assms(1) show ?thesis
        by (intro exI [of _ s1]) (auto simp add: NetworkReadPoll CheckPktAvail_def split: list.split)
    next
      case False
      then obtain g gs where k: "pk_length (inHdr (dev (sys s))) = 0" "socket (dev (sys s)) = g # gs"
        by (cases "socket (dev (sys s))") auto
      have ib: "length (inbox (dev (sys s))) = 52" "ident (dev (sys s)) = addr" using i(2) by (simp_all add: post_static_def)
      note fr = flow_read [OF i(3) k ib(1)]
      note g = legal_simps [OF fr(2)]
      let ?p = "packet_of_bytes be g"
      let ?d = "(dev (sys s))\<lparr>socket := gs, inHdr := ?p, inbox := blit (inbox (dev (sys s))) 0 (payload be g)\<rparr>"
      let ?x = "(sys s)\<lparr>dev := ?d, val := (val (sys s))(messageAvailable := val (sys s) messageAvailable + 1)\<rparr>"
      define s2 where "s2 = s1\<lparr>sys := ?x, stats := (stats s1)\<lparr>numPacketsRecvd := numPacketsRecvd (stats s1) + 1\<rparr>\<rparr>"
      have l: "length g = 64" "pk_to ?p = addr" "unat (pk_length ?p) \<le> 52" using fr(2) by (simp_all add: legal_def post_sizes)
      have "bytes_from g HEADER_BYTES (unat (pk_length ?p)) = Inr (payload be g)"
        using l by (simp add: bytes_from_def payload_def HEADER_BYTES_def)
      then have "net_run fx be h s = Inr s2"
        using s1(1,3) k l ib(2) by (simp add: NetworkReadPoll CheckPktAvail_def upd_dev_def upd_sys_def IncomingPacket_def sem_V_def s2_def Let_def post_sizes)
      moreover have "post_static addr n peers ?d" using i(2) g(3) by (simp add: post_static_def blit_def)
      then have "post_inv be addr n peers w c (pending_ms s2) (sys s2)"
        using assms(1) fr(1) post_poll [OF i(1) k(1), of ?d] g(4) s1(2) by (simp add: s2_def post_inv_def)
      moreover have "clock_room fx s2" using s1(4) by (simp add: s2_def clock_room_def)
      ultimately show ?thesis by blast
    qed
  next
    case NetworkSendDone
    let ?d = "(dev (sys s))\<lparr>sendBusy := False\<rparr>"
    let ?x = "(sys s)\<lparr>dev := ?d, val := (val (sys s))(messageSent := val (sys s) messageSent + 1)\<rparr>"
    define s2 where "s2 = s\<lparr>sys := ?x, stats := (stats s)\<lparr>numPacketsSent := numPacketsSent (stats s) + 1\<rparr>\<rparr>"
    have "net_run fx be h s = Inr s2"
      by (simp add: NetworkSendDone SendDone_def upd_dev_def upd_sys_def PacketSent_def sem_V_def s2_def Let_def)
    moreover have "?d = dev (sys s)" using i(2) by (simp add: post_static_def)
    then have "post_inv be addr n peers w c (pending_ms s2) (sys s2)"
      using assms(1) post_done [OF i(1) [unfolded NetworkSendDone], of ?d] by (simp add: s2_def post_inv_def)
    moreover have "clock_room fx s2" using assms(2) by (simp add: s2_def clock_room_def)
    ultimately show ?thesis by blast
  qed
qed

lemma post_stage_cases:
  assumes "post_stage_of (a # as) = Some p"
  obtains (lock) "a = Acquire sendLock" "p = Away" "post_stage_of as = Some SHeld"
  | (unlock) "a = Release sendLock" "p = SDone" "post_stage_of as = Some Away"
  | (waits) "a = P messageSent" "p = SBusy" "post_stage_of as = Some SDone"
  | (waitm) "a = P messageAvailable" "p = Away" "post_stage_of as = Some WGot"
  | (send) pkt buf where "a = Do (NetSend pkt buf)" "p = SHeld" "post_stage_of as = Some SBusy"
  | (recv) "a = Do NetReceive" "p = WGot" "post_stage_of as = Some WRecv"
  | (deliver) "a = Do Deliver" "p = WRecv" "post_stage_of as = Some Away"
  | (got) b where "a = Do (BoxGet b)" "p = Away" "post_stage_of as = Some Away"
proof (cases a)
  case (Acquire l)
  with assms show thesis by (intro lock) (simp_all add: after_def split: if_splits)
next
  case (Release l)
  with assms show thesis by (intro unlock) (simp_all add: after_def split: if_splits)
next
  case (P i)
  with assms show thesis by (cases "i = messageSent") (simp_all add: waits waitm after_def split: if_splits)
next
  case (Do x)
  with assms show thesis by (cases x) (simp_all add: send recv deliver got after_def split: if_splits)
qed

lemma post_outgoing [simp]:
  "post_flow be addr n r got (d\<lparr>randoms := f\<rparr>) = post_flow be addr n r got d" "post_flow be addr n r got (d\<lparr>wire := l\<rparr>) = post_flow be addr n r got d"
  "post_static addr n peers (d\<lparr>randoms := f\<rparr>) = post_static addr n peers d" "post_static addr n peers (d\<lparr>wire := l\<rparr>) = post_static addr n peers d"
  by (simp_all add: post_flow_def flow_at_def post_static_def)

lemma stmt_send:
  assumes "post_inv be addr n peers w c (pending_ms s) (sys s)" and "clock_room fx s" and "c t = Do (NetSend pkt buf) # as"
    and "post_stage_of as = Some SBusy"
  shows "\<exists>s'. Network_Send fx be times100 junk pkt buf s = Inr s' \<and> post_inv be addr n peers w (c(t := as)) (pending_ms s') (sys s') \<and> clock_room fx s'"
proof -
  let ?S = "post_stage_of \<circ> c" and ?d = "dev (sys s)"
  have i: "post_core w ?S (pending_ms s) (sys s)" "post_static addr n peers ?d"
    "post_flow be addr n (?S w = Some WRecv) (map snd (returned (sys s))) ?d" "stmt_wf addr n peers (t = w) (Do (NetSend pkt buf))"
    using assms(1,3) by (auto simp add: post_inv_def)
  have st: "?S t = Some SHeld" using assms(3,4) by (simp add: after_def)
  obtain s1 where s1: "Schedule fx NetworkSendDone NETWORK_TIME NETWORK_SEND_INT s = Inr s1"
    "pending_ms s1 = add_mset NetworkSendDone (pending_ms s)" "sys s1 = sys s" "clock_room fx s1"
    by (rule Schedule_device [OF assms(2), where d = NETWORK_TIME and h = NetworkSendDone and k = NETWORK_SEND_INT]) (auto simp add: NETWORK_TIME_def)
  have ok: "post_inv be addr n peers w (c(t := as)) (pending_ms s1) ((sys s)\<lparr>dev := d\<rparr>)"
    if "inHdr d = inHdr ?d" "post_static addr n peers d" "post_flow be addr n (?S w = Some WRecv) (map snd (returned (sys s))) d" for d
    using post_inv_upd [OF assms(1,3,4) post_send [OF i(1) st that(1)]] that(2,3) s1(2) st by (cases "t = w") simp_all
  let ?d1 = "?d\<lparr>randoms := (\<lambda>k. randoms ?d (Suc k))\<rparr>"
  let ?b = "blit (blit (take MAX_WIRE_SIZE junk) 0 (packet_bytes be pkt)) HEADER_BYTES (slice 0 (unat (pk_length pkt)) buf)"
  let ?d2 = "?d1\<lparr>wire := wire ?d @ [(pk_to pkt, ?b)]\<rparr>"
  have r: "Network_Send fx be times100 junk pkt buf s =
      Inr (s1\<lparr>sys := (sys s)\<lparr>dev := (if of_nat (unat (randoms ?d 0 mod 100)) \<ge> times100 (chanceToWork ?d) then ?d1 else ?d2)\<rparr>\<rparr>)"
    using i(2,4) s1(1,3) by (simp add: Network_Send_def stmt_wf_def post_static_def upd_dev_def upd_sys_def Let_def bytes_from_def)
  show ?thesis unfolding r using ok [of ?d1] ok [of ?d2] i(2,3) s1(4) by simp
qed

lemma stmt_receive:
  assumes "post_inv be addr n peers w c (pending_ms s) (sys s)" and "clock_room fx s" and "c w = Do NetReceive # as"
    and "post_stage_of as = Some WRecv"
  shows "\<exists>s'. bindR (Network_Receive (wk_buffer (dev (sys s))) s) (\<lambda>(pkt, buffer, s). Inr (upd_dev (\<lambda>d. d\<lparr>wk_hdr := pkt, wk_buffer := buffer\<rparr>) s)) = Inr s' \<and>
     post_inv be addr n peers w (c(w := as)) (pending_ms s') (sys s') \<and> clock_room fx s'"
proof -
  let ?S = "post_stage_of \<circ> c" and ?d = "dev (sys s)"
  have st: "?S w = Some WGot" using assms(3,4) by (simp add: after_def)
  have i: "post_core w ?S (pending_ms s) (sys s)" "post_static addr n peers ?d" "post_flow be addr n False (map snd (returned (sys s))) ?d"
    using assms(1) st by (simp_all add: post_inv_def)
  have l: "length (inbox ?d) = 52" "length (wk_buffer ?d) = 52" using i(2) by (simp_all add: post_static_def)
  note full = post_receive(1) [OF i(1) st]
  note f = flow_take [OF i(3) full l]
  let ?k = "unat (pk_length (inHdr ?d))"
  let ?d' = "?d\<lparr>inHdr := (inHdr ?d)\<lparr>pk_length := 0\<rparr>, wk_hdr := inHdr ?d, wk_buffer := blit (wk_buffer ?d) 0 (slice 0 ?k (inbox ?d))\<rparr>"
  have s: "post_static addr n peers ?d'" using i(2) f(1) l by (simp add: post_static_def blit_def slice_def)
  have "post_inv be addr n peers w (c(w := as)) (pending_ms s) ((sys s)\<lparr>dev := ?d'\<rparr>)"
    using post_inv_upd [OF assms(1,3,4) post_receive(2) [OF i(1) st, of ?d']] s f(2) by simp
  moreover have "bindR (Network_Receive (wk_buffer ?d) s) (\<lambda>(pkt, buffer, s). Inr (upd_dev (\<lambda>d. d\<lparr>wk_hdr := pkt, wk_buffer := buffer\<rparr>) s)) =
      Inr (s\<lparr>sys := (sys s)\<lparr>dev := ?d'\<rparr>\<rparr>)"
    using full f(1) l by (simp add: Network_Receive_def bytes_from_def upd_dev_def upd_sys_def Let_def)
  ultimately show ?thesis using assms(2) by simp
qed

lemma stmt_deliver:
  assumes "post_inv be addr n peers w c (pending_ms s) (sys s)" and "c w = Do Deliver # as" and "post_stage_of as = Some Away"
  defines "m \<equiv> mail_of_bytes be (wk_buffer (dev (sys s)))"
  shows "0 \<le> sint (ml_to m) \<and> sint (ml_to m) < int (length (boxes (dev (sys s))))" and "unat (ml_length m) \<le> MAX_MAIL_SIZE"
    and "\<exists>s'. MailBox_Put (unat (ml_to m)) (wk_hdr (dev (sys s))) m (drop HEADER_BYTES (wk_buffer (dev (sys s)))) s = Inr s' \<and>
     post_inv be addr n peers w (c(w := as)) (pending_ms s') (sys s') \<and> clock_room fx s' = clock_room fx s"
proof -
  let ?S = "post_stage_of \<circ> c" and ?d = "dev (sys s)"
  have st: "?S w = Some WRecv" using assms(2,3) by (simp add: after_def)
  have i: "post_core w ?S (pending_ms s) (sys s)" "post_static addr n peers ?d" "post_flow be addr n True (map snd (returned (sys s))) ?d"
    using assms(1) st by (simp_all add: post_inv_def)
  have l: "length (boxes ?d) = n" using i(2) by (simp add: post_static_def)
  obtain g where g: "legal be addr n g" "carries be (wk_hdr ?d) (wk_buffer ?d) g"
    and f: "post_flow be addr n False (map snd (returned (sys s))) (?d\<lparr>boxes := (boxes ?d)[box_of (mail_of be g) := boxes ?d ! box_of (mail_of be g) @ [mail_of be g]]\<rparr>)"
    by (rule flow_put [OF i(3) l])
  have b: "wk_hdr ?d = packet_of_bytes be g" "take (length (payload be g)) (wk_buffer ?d) = payload be g" using g(2) by (simp_all add: carries_def)
  have m: "m = m_mailHdr (mail_of be g)" unfolding m_def by (rule mail_of_buffer(1) [OF g(1) b(2)])
  show "0 \<le> sint (ml_to m) \<and> sint (ml_to m) < int (length (boxes ?d))" using g(1) l unfolding m by (simp add: legal_def mail_of_def Let_def)
  show "unat (ml_length m) \<le> MAX_MAIL_SIZE" using legal_simps(6) [OF g(1)] unfolding m by (simp add: post_sizes)
  let ?d' = "?d\<lparr>boxes := (boxes ?d)[box_of (mail_of be g) := boxes ?d ! box_of (mail_of be g) @ [mail_of be g]]\<rparr>"
  have "MailBox_Put (unat (ml_to m)) (wk_hdr ?d) m (drop HEADER_BYTES (wk_buffer ?d)) s = Inr (s\<lparr>sys := (sys s)\<lparr>dev := ?d'\<rparr>\<rparr>)"
    using mail_of_buffer(2) [OF g(1) b(2)] legal_simps(5) [OF g(1)] l b(1) unfolding m
    by (simp add: MailBox_Put_def box_of_def upd_dev_def upd_sys_def)
  moreover have "post_inv be addr n peers w (c(w := as)) (pending_ms s) ((sys s)\<lparr>dev := ?d'\<rparr>)"
    using post_inv_upd [OF assms(1-3) post_deliver [OF i(1) st, of ?d']] i(2) f by (simp add: post_static_def)
  ultimately show "\<exists>s'. MailBox_Put (unat (ml_to m)) (wk_hdr ?d) m (drop HEADER_BYTES (wk_buffer ?d)) s = Inr s' \<and>
     post_inv be addr n peers w (c(w := as)) (pending_ms s') (sys s') \<and> clock_room fx s' = clock_room fx s" by simp
qed

lemma post_stmt_ok:
  assumes "post_inv (h_be h) addr n peers w c (pending_ms s) (sys s)" and "clock_room (h_fix h) s" and "c t = a # as"
  shows "exec_stmt (post_exec h) a t s = None \<or>
    (\<exists>s'. exec_stmt (post_exec h) a t s = Some (Inr s') \<and> post_inv (h_be h) addr n peers w (c(t := as)) (pending_ms s') (sys s') \<and>
       clock_room (h_fix h) s')"
proof -
  let ?S = "post_stage_of \<circ> c" and ?x = "sys s"
  have i: "post_core w ?S (pending_ms s) ?x" "post_static addr n peers (dev ?x)"
    "post_flow (h_be h) addr n (?S w = Some WRecv) (map snd (returned ?x)) (dev ?x)"
    using assms(1) by (simp_all add: post_inv_def)
  have wf: "stmt_wf addr n peers (t = w) a" using assms(1,3) by (auto simp add: post_inv_def)
  obtain p where p: "post_stage_of (a # as) = Some p" using i(1) assms(3) unfolding post_core_def comp_def by (metis not_Some_eq)
  then have st: "?S t = Some p" using assms(3) by simp
  note up = post_inv_upd [OF assms(1,3)]
  have same: "(?S(t := Some q)) w = Some WRecv \<longleftrightarrow> ?S w = Some WRecv" if "p \<noteq> WRecv" "q \<noteq> WRecv" for q
    using st that by auto
  show ?thesis
  proof (cases rule: post_stage_cases [OF p])
    case 1
    then show ?thesis using i up [OF _ post_acquire(2) [OF i(1), of t]] post_acquire(1) [OF i(1), of t] st same assms(2)
      by (cases "owner ?x sendLock") simp_all
  next
    case 2
    then show ?thesis using i up [OF _ post_release(2) [OF i(1), of t]] post_release(1) [OF i(1), of t] st same assms(2) by simp
  next
    case 3
    then show ?thesis using i up [OF _ post_wait_sent [OF i(1), of t]] st same assms(2) by (cases "0 < val ?x messageSent") simp_all
  next
    case 4
    then have t: "t = w" using wf by (simp add: stmt_wf_def)
    show ?thesis using 4 i post_inv_upd [OF assms(1) assms(3) [unfolded t] _ post_wait_mail [OF i(1)]] st same assms(2) t
      by (cases "0 < val ?x messageAvailable") simp_all
  next
    case (5 pkt buf)
    with stmt_send [OF assms(1,2)] assms(3) show ?thesis by simp
  next
    case 6
    then have "t = w" using wf by (simp add: stmt_wf_def)
    with 6 stmt_receive [OF assms(1,2)] assms(3) show ?thesis by simp
  next
    case 7
    then have "t = w" using wf by (simp add: stmt_wf_def)
    with 7 stmt_deliver(1,2) [OF assms(1)] stmt_deliver(3) [OF assms(1), where fx = "h_fix h" and as = as] assms(2,3)
    show ?thesis by (simp add: Let_def)
  next
    case (8 b)
    have b: "b < n" "length (boxes (dev ?x)) = n" using wf 8(1) i(2) by (simp_all add: stmt_wf_def post_static_def)
    show ?thesis
    proof (cases "boxes (dev ?x) ! b")
      case Nil
      with b 8(1) show ?thesis by (simp add: MailBox_Get_def)
    next
      case (Cons m ms)
      let ?y = "?x\<lparr>dev := (dev ?x)\<lparr>boxes := (boxes (dev ?x))[b := ms]\<rparr>, returned := returned ?x @ [(t, m)]\<rparr>"
      note f = flow_get [OF i(3) b Cons]
      have "post_core w (?S(t := Some Away)) (pending_ms s) ?y" using i(1) st 8(2) by (simp add: post_core_def fun_upd_idem)
      then have "post_inv (h_be h) addr n peers w (c(t := as)) (pending_ms s) ?y"
        using up [OF 8(3)] i(2) f(1) same [of Away] 8(2) by (simp add: post_static_def)
      with b 8(1) Cons f(2) assms(2) show ?thesis
        by (simp add: MailBox_Get_def post_sizes upd_dev_def upd_sys_def)
    qed
  qed
qed

section \<open>Runs of a post office\<close>

text \<open>The other machines of the network send legal datagrams.\<close>

inductive arrives :: "bool \<Rightarrow> u32 \<Rightarrow> nat \<Rightarrow> (network, Mail) sync \<Rightarrow> (network, Mail) sync \<Rightarrow> bool" for be addr n where
  "legal be addr n g \<Longrightarrow> arrives be addr n x (x\<lparr>dev := (dev x)\<lparr>socket := socket (dev x) @ [g], arrived := arrived (dev x) @ [g]\<rparr>\<rparr>)"

interpretation post_office: device_driver "h_fix h" "net_run (h_fix h) (h_be h)" "exec_stmt (post_exec h)" "arrives (h_be h) addr n"
    "post_inv (h_be h) addr n peers w" for h addr n peers w
proof
  show "post_inv (h_be h) addr n peers w c M y" if "post_inv (h_be h) addr n peers w c M x" "arrives (h_be h) addr n x y" for c M x y
    using that(2,1) by cases (auto simp add: post_inv_def post_core_def post_static_def intro: flow_arrive)
qed (rule post_handler_ok post_stmt_ok; assumption)+

text \<open>The network's handlers keep the contract of the interrupt controller.\<close>

lemma network_handlers_ok:
  fixes h :: host
  shows "handlers_ok (net_run (h_fix h) (h_be h)) Inr
     (\<lambda>s. pending_wf s \<and> ticks_room s \<and> clock_room (h_fix h) s \<and> post_inv (h_be h) addr n peers w c (pending_ms s) (sys s))"
proof (rule post_office.driver_handlers_ok)
  show "pending_wf s' \<and> now s' = now s \<and> level s' = level s \<and> due s' = due s"
    if s: "pending_wf s" "ticks_room s" "net_run (h_fix h) (h_be h) i s = Inr s'" for i s s'
  proof (cases i)
    case NetworkReadPoll
    obtain s1 where s1: "Schedule (h_fix h) NetworkReadPoll NETWORK_TIME NETWORK_RECV_INT s = Inr s1"
      using s(3) by (auto simp add: NetworkReadPoll CheckPktAvail_def res_simps)
    note l = Schedule_leaves [OF s1 s(1,2)]
    show ?thesis using s(3) s1 l
      by (auto simp add: NetworkReadPoll CheckPktAvail_def NETWORK_TIME_def IncomingPacket_def sem_V_def count_leaves Let_def res_simps ASSERT_def
          split: if_splits list.splits)
  next
    case NetworkSendDone
    then show ?thesis using s by (auto simp add: SendDone_def PacketSent_def sem_V_def count_leaves Let_def)
  qed
qed

type_synonym post_driver = "(post_op stmt, (network, Mail) sync, net_handler) driver"

definition post_step :: "host \<Rightarrow> u32 \<Rightarrow> nat \<Rightarrow> post_driver \<Rightarrow> post_driver \<Rightarrow> bool" where
  "post_step h addr n = driver_step (h_fix h) (net_run (h_fix h) (h_be h)) (exec_stmt (post_exec h)) (arrives (h_be h) addr n)"

text \<open>The threads of a run: the postal worker, and threads that make calls whose own assertions hold and that
  write to machines that exist.\<close>

datatype post_call = CSend PacketHeader MailHeader "u8 list" | CReceive int

fun post_code :: "host \<Rightarrow> u32 \<Rightarrow> nat \<Rightarrow> post_call list \<Rightarrow> post_op stmt list res" where
  "post_code h addr n [] = Inr []"
| "post_code h addr n (CSend pkt mh data # cs) = bindR (PostOffice_Send (h_be h) addr n (h_junk h) pkt mh data) (\<lambda>as.
     bindR (post_code h addr n cs) (\<lambda>bs. Inr (as @ bs)))"
| "post_code h addr n (CReceive b # cs) = bindR (PostOffice_Receive n b) (\<lambda>as. bindR (post_code h addr n cs) (\<lambda>bs. Inr (as @ bs)))"

definition peers_ok :: "(u32 \<Rightarrow> bool) \<Rightarrow> post_call list \<Rightarrow> bool" where
  "peers_ok peers cs \<longleftrightarrow> (\<forall>c\<in>set cs. case c of CSend pkt mh data \<Rightarrow> peers (pk_to pkt) | _ \<Rightarrow> True)"

definition post_start :: "host \<Rightarrow> u32 \<Rightarrow> rat \<Rightarrow> nat \<Rightarrow> (u32 \<Rightarrow> bool) \<Rightarrow> (nat \<Rightarrow> u32) \<Rightarrow> PacketHeader \<Rightarrow> nat \<Rightarrow> nat \<Rightarrow> (nat \<Rightarrow> post_call list) \<Rightarrow> post_driver \<Rightarrow> bool" where
  "post_start h addr reliability n peers rnd junkHdr w rounds calls c \<longleftrightarrow>
     64 \<le> length (h_junk h) \<and>
     PostOffice_new h addr reliability (int n) (net_init h peers rnd junkHdr) = Inr (ist c) \<and> todo c w = PostalDelivery rounds \<and>
     (\<forall>t. t \<noteq> w \<longrightarrow> peers_ok peers (calls t) \<and> post_code h addr n (calls t) = Inr (todo c t))"

lemma Send_code:
  assumes "PostOffice_Send be addr n junk pkt mh data = Inr as" and "52 \<le> length junk"
  obtains rest where "as = [Acquire sendLock, Do (NetSend (pkt\<lparr>pk_from := addr, pk_length := ml_length mh + 12\<rparr>)
      (mail_bytes be mh @ take (unat (ml_length mh)) data @ rest)), P messageSent, Release sendLock]"
    and "unat (ml_length mh) \<le> 40" and "unat (ml_length mh + 12) = unat (ml_length mh) + 12" and "unat (ml_length mh) \<le> length data"
    and "0 \<le> sint (ml_to mh)" and "sint (ml_to mh) < int n"
proof -
  let ?k = "unat (ml_length mh)"
  have c: "?k \<le> 40" "?k \<le> length data" "0 \<le> sint (ml_to mh)" "sint (ml_to mh) < int n"
    and as: "as = [Acquire sendLock, Do (NetSend (pkt\<lparr>pk_from := addr, pk_length := ml_length mh + 12\<rparr>)
      (blit (blit (take 52 junk) 0 (mail_bytes be mh)) 12 (slice 0 ?k data))), P messageSent, Release sendLock]"
    using assms(1) by (auto simp add: PostOffice_Send_def res_simps bytes_from_def post_sizes Let_def split: if_splits)
  have u: "unat (ml_length mh + 12) = ?k + 12" using c(1) by (simp add: unat_word_ariths)
  have "slice 0 ?k data = take ?k data" by (simp add: slice_def)
  moreover obtain rest where "blit (blit (take 52 junk) 0 (mail_bytes be mh)) 12 (take ?k data) = mail_bytes be mh @ take ?k data @ rest"
    using blit_header(1) [of "mail_bytes be mh" "take ?k data" "take 52 junk"] c assms(2) by auto
  ultimately show thesis using that as c u by metis
qed

lemma post_code_ok:
  assumes "post_code h addr n cs = Inr as" and "52 \<le> length (h_junk h)" and "peers_ok peers cs"
  shows "post_stage_of as = Some Away \<and> (\<forall>a\<in>set as. stmt_wf addr n peers False a)"
  using assms
proof (induction h addr n cs arbitrary: as rule: post_code.induct)
  case (2 h addr n pkt mh data cs)
  then obtain bs cs' where b: "PostOffice_Send (h_be h) addr n (h_junk h) pkt mh data = Inr bs" "post_code h addr n cs = Inr cs'" "as = bs @ cs'"
    by (auto simp add: res_simps)
  have c: "post_stage_of cs' = Some Away" "\<forall>a\<in>set cs'. stmt_wf addr n peers False a" "peers (pk_to pkt)"
    using 2(1) [OF b(2)] 2(3,4) by (simp_all add: peers_ok_def)
  show ?case
    by (rule Send_code [OF b(1) 2(3)])
      (use c b(3) in \<open>auto simp add: post_locks after_def stmt_wf_def post_sizes word_gt_0 unat_0_iff [symmetric]\<close>)
next
  case (3 h addr n b cs)
  then show ?case
    by (auto simp add: res_simps PostOffice_Receive_def peers_ok_def after_def stmt_wf_def)
qed simp

lemma PostalDelivery_ok: "post_stage_of (PostalDelivery k) = Some Away" "\<forall>a\<in>set (PostalDelivery k). stmt_wf addr n peers True a"
  by (induction k) (simp_all add: PostalDelivery_def post_locks after_def stmt_wf_def)

lemma PostOffice_new_ok:
  assumes "0 < n" and "64 \<le> length (h_junk h)"
  obtains s where "PostOffice_new h addr reliability (int n) (net_init h peers rnd junkHdr) = Inr s"
    and "pending_ms s = {#NetworkReadPoll#}" and "clock_room (h_fix h) s" and "owner (sys s) sendLock = None"
    and "val (sys s) messageSent = 0" and "val (sys s) messageAvailable = 0" and "returned (sys s) = []"
    and "post_static addr n peers (dev (sys s))" and "inHdr (dev (sys s)) = junkHdr\<lparr>pk_length := 0\<rparr>"
    and "arrived (dev (sys s)) = []" and "socket (dev (sys s)) = []" and "boxes (dev (sys s)) = replicate n []" and "wire (dev (sys s)) = []"
proof -
  let ?s0 = "upd_sys (\<lambda>x. x\<lparr>val := (val x)(messageAvailable := 0, messageSent := 0), owner := (owner x)(sendLock := None),
          dev := (dev x)\<lparr>boxes := replicate n []\<rparr>\<rparr>) (net_init h peers rnd junkHdr)"
  let ?s = "upd_dev (\<lambda>d. d\<lparr>ident := addr,
          chanceToWork := (if reliability < 0 then 0 else if reliability > 1 then 1 else reliability),
          sendBusy := False, inHdr := (inHdr d)\<lparr>pk_length := 0\<rparr>\<rparr>) ?s0"
  have y: "clock_room (h_fix h) ?s" "pending_ms ?s = {#}" "post_static addr n peers (dev (sys ?s))"
    using assms(2) by (simp_all add: upd_dev_def upd_sys_def net_init_def Interrupt_new_def Statistics_new_def clock_room_def
        pending_ms_def post_static_def post_sizes)
  obtain s1 where s1: "Schedule (h_fix h) NetworkReadPoll NETWORK_TIME NETWORK_RECV_INT ?s = Inr s1"
    "pending_ms s1 = {#NetworkReadPoll#}" "sys s1 = sys ?s" "clock_room (h_fix h) s1"
    by (rule Schedule_device [OF y(1), where d = NETWORK_TIME and h = NetworkReadPoll and k = NETWORK_RECV_INT])
      (simp_all add: NETWORK_TIME_def y(2))
  have "PostOffice_new h addr reliability (int n) (net_init h peers rnd junkHdr) = Inr s1"
    using s1(1) assms(1) by (simp add: PostOffice_new_def Network_new_def)
  then show thesis
    by (rule that) (use s1 y(3) in \<open>simp_all add: upd_dev_def net_init_def Interrupt_new_def post_locks\<close>)
qed

lemma post_start_inv:
  assumes "post_start h addr reliability n peers rnd junkHdr w rounds calls c" and "0 < n"
  shows "driver_inv (h_fix h) (post_inv (h_be h) addr n peers w) c"
proof -
  have j: "64 \<le> length (h_junk h)" using assms(1) by (simp add: post_start_def)
  obtain s where s: "PostOffice_new h addr reliability (int n) (net_init h peers rnd junkHdr) = Inr s"
    "pending_ms s = {#NetworkReadPoll#}" "clock_room (h_fix h) s" "owner (sys s) sendLock = None"
    "val (sys s) messageSent = 0" "val (sys s) messageAvailable = 0" "returned (sys s) = []"
    "post_static addr n peers (dev (sys s))" "inHdr (dev (sys s)) = junkHdr\<lparr>pk_length := 0\<rparr>"
    "arrived (dev (sys s)) = []" "socket (dev (sys s)) = []" "boxes (dev (sys s)) = replicate n []"
    by (rule PostOffice_new_ok [OF assms(2) j, of addr reliability peers rnd junkHdr])
  have ist: "ist c = s" using assms(1) s(1) by (simp add: post_start_def)
  have code: "post_stage_of (todo c t) = Some Away \<and> (\<forall>a\<in>set (todo c t). stmt_wf addr n peers (t = w) a)" for t
    using assms(1) j PostalDelivery_ok [of rounds] post_code_ok [of h addr n "calls t" "todo c t" peers]
    by (cases "t = w") (auto simp add: post_start_def)
  then have "post_core w (post_stage_of \<circ> todo c) (pending_ms s) (sys s)"
    using s by (simp add: post_core_def lock_at_def held_def)
  moreover have "flow_at (h_be h) n False [] (dev (sys s)) [] [] []"
    using s by (simp add: flow_at_def slot_def sorted_mail_def)
  then have "post_flow (h_be h) addr n False (map snd (returned (sys s))) (dev (sys s))" using s by (auto simp add: post_flow_def)
  ultimately show ?thesis using s(3,8) code by (simp add: driver_inv_def post_inv_def ist)
qed

section \<open>Properties\<close>

text \<open>C30: A message crosses the network unchanged or not at all. The datagram that the code of a call of \<open>Send\<close>
  puts on the wire is addressed to the machine asked for, a post office with at least as many boxes
  accepts it, and what it reads from it is the message that was sent: the packet header with
  the sender's address and the length filled in, the mail header, and the bytes of the data.\<close>

theorem Send_mail_roundtrip:
  assumes "PostOffice_Send (h_be h) addr n (h_junk h) pkt mh data = Inr as" and "64 \<le> length (h_junk h)" and "n \<le> n'"
    and "Do (NetSend pkt' buf) \<in> set as" and "Network_Send fx (h_be h) times100 (h_junk h) pkt' buf s = Inr s'"
  shows "wire (dev (sys s')) = wire (dev (sys s)) \<or>
     (\<exists>d. wire (dev (sys s')) = wire (dev (sys s)) @ [(pk_to pkt, d)] \<and> legal (h_be h) (pk_to pkt) n' d \<and>
        mail_of (h_be h) d = \<lparr>m_pktHdr = pkt\<lparr>pk_from := addr, pk_length := ml_length mh + 12\<rparr>, m_mailHdr = mh,
          m_data = take (unat (ml_length mh)) data\<rparr>)"
proof -
  let ?k = "unat (ml_length mh)" and ?be = "h_be h" and ?p = "pkt\<lparr>pk_from := addr, pk_length := ml_length mh + 12\<rparr>"
  obtain rest where a: "as = [Acquire sendLock, Do (NetSend ?p (mail_bytes ?be mh @ take ?k data @ rest)), P messageSent, Release sendLock]"
    and k: "?k \<le> 40" "unat (ml_length mh + 12) = ?k + 12" "?k \<le> length data" "0 \<le> sint (ml_to mh)" "sint (ml_to mh) < int n"
    by (rule Send_code [OF assms(1)]) (use assms(2) in auto)
  have b: "pkt' = ?p" "buf = mail_bytes ?be mh @ take ?k data @ rest" using assms(4) a by auto
  let ?mail = "mail_bytes ?be mh @ take ?k data"
  define d where "d = blit (blit (take 64 (h_junk h)) 0 (packet_bytes ?be ?p)) 12 ?mail"
  have sl: "slice 0 (unat (pk_length ?p)) buf = ?mail" using b k by (simp add: slice_def)
  obtain s1 where s1: "sys s1 = sys s" and r: "s' = (let s2 = upd_dev (\<lambda>d. d\<lparr>randoms := (\<lambda>i. randoms d (Suc i))\<rparr>) s1 in
      if of_nat (unat (randoms (dev (sys s1)) 0 mod 100)) \<ge> times100 (chanceToWork (dev (sys s2))) then s2
      else upd_dev (\<lambda>e. e\<lparr>wire := wire e @ [(pk_to pkt, d)]\<rparr>) s2)"
    using assms(5) sl unfolding b(1) Network_Send_def d_def
    by (auto simp add: res_simps bytes_from_def post_sizes Let_def dest!: Schedule_sys split: if_splits)
  then have w: "wire (dev (sys s')) = wire (dev (sys s)) \<or> wire (dev (sys s')) = wire (dev (sys s)) @ [(pk_to pkt, d)]"
    by (simp add: upd_dev_def Let_def)
  have m: "packet_of_bytes ?be d = ?p" "payload ?be d = ?mail" "mail_of ?be d = \<lparr>m_pktHdr = ?p, m_mailHdr = mh, m_data = take ?k data\<rparr>"
    using wire_mail [of ?mail "take ?k data" ?be mh ?p "take 64 (h_junk h)" d] k assms(2) by (simp_all add: d_def)
  have "length d = 64" using blit_header(2) [of "packet_bytes ?be ?p" ?mail "take 64 (h_junk h)"] k assms(2) by (simp add: d_def)
  then have "legal ?be (pk_to pkt) n' d" using m(1,2) k assms(3) by (simp add: legal_def post_sizes)
  with w m(3) show ?thesis by blast
qed

text \<open>C23: A post office is safe. However the calls of its users, the postal worker, the interrupts of the device
  and arriving datagrams interleave, no assertion of the device, of the post office or of the lists fails, and
  no byte outside a buffer is touched, as long as the other machines send legal datagrams.\<close>

theorem PostOffice_safe:
  assumes "post_start h addr reliability n peers rnd junkHdr w rounds calls c" and "0 < n" and "(post_step h addr n)\<^sup>*\<^sup>* c c'"
  shows "driver_safe (net_run (h_fix h) (h_be h)) (exec_stmt (post_exec h)) c'"
  by (rule post_office.driver_inv_safe)
    (rule post_office.runs.run_inv [OF assms(3) [unfolded post_step_def] post_start_inv [OF assms(1,2)]])

text \<open>C13: Mail is sorted and in order. At every moment of such a run, the messages taken out of a box, followed
  by the messages in it, are exactly the ones addressed to it among the datagrams handled so far, in the order
  in which they arrived; what has arrived and is not handled waits in the socket, the device or the
  worker's buffer.\<close>

theorem PostOffice_in_order:
  assumes "post_start h addr reliability n peers rnd junkHdr w rounds calls c" and "0 < n" and "(post_step h addr n)\<^sup>*\<^sup>* c c'"
  shows "\<exists>old rest. arrived (dev (sys (ist c'))) = old @ rest \<and> length rest \<le> length (socket (dev (sys (ist c')))) + 2 \<and>
     (\<forall>b<n. filter (\<lambda>m. box_of m = b) (map snd (returned (sys (ist c')))) @ boxes (dev (sys (ist c'))) ! b =
        filter (\<lambda>m. box_of m = b) (map (mail_of (h_be h)) old))"
proof -
  have "driver_inv (h_fix h) (post_inv (h_be h) addr n peers w) c'"
    by (rule post_office.runs.run_inv [OF assms(3) [unfolded post_step_def] post_start_inv [OF assms(1,2)]])
  then obtain r old wk dv where f: "flow_at (h_be h) n r (map snd (returned (sys (ist c')))) (dev (sys (ist c'))) old wk dv"
    by (auto simp add: driver_inv_def post_inv_def post_flow_def)
  have "length wk \<le> 1" "length dv \<le> 1" using f by (auto simp add: flow_at_def slot_def split: if_splits)
  with f show ?thesis
    by (intro exI [of _ old] exI [of _ "wk @ dv @ socket (dev (sys (ist c')))"]) (simp add: flow_at_def sorted_mail_def)
qed

subsection \<open>A concrete post office\<close>

definition demo_host :: host where
  "demo_host = \<lparr>h_be = False, h_fix = False, h_times100 = (\<lambda>x. x * 100), h_junk = replicate 64 0\<rparr>"

definition demo_pkt :: PacketHeader where "demo_pkt = \<lparr>pk_to = 1, pk_from = 0, pk_length = 0\<rparr>"
definition demo_mail :: MailHeader where "demo_mail = \<lparr>ml_to = 1, ml_from = 0, ml_length = 3\<rparr>"

lemma demo_send:
  obtains as buf s s' where "PostOffice_Send (h_be demo_host) 0 2 (h_junk demo_host) demo_pkt demo_mail [7, 8, 9] = Inr as"
    and "Do (NetSend (demo_pkt\<lparr>pk_length := 15\<rparr>) buf) \<in> set as"
    and "Network_Send False (h_be demo_host) (h_times100 demo_host) (h_junk demo_host) (demo_pkt\<lparr>pk_length := 15\<rparr>) buf s = Inr s'"
    and "wire (dev (sys s)) = []" and "wire (dev (sys s')) \<noteq> []"
proof -
  obtain as where as: "PostOffice_Send (h_be demo_host) 0 2 (h_junk demo_host) demo_pkt demo_mail [7, 8, 9] = Inr as"
    by (simp add: PostOffice_Send_def demo_mail_def demo_pkt_def bytes_from_def post_sizes Let_def)
  obtain rest where r: "Do (NetSend (demo_pkt\<lparr>pk_length := 15\<rparr>) (mail_bytes False demo_mail @ [7, 8, 9] @ rest)) \<in> set as"
    by (rule Send_code [OF as]) (simp_all add: demo_host_def demo_pkt_def demo_mail_def)
  let ?buf = "mail_bytes False demo_mail @ [7, 8, 9] @ rest"
  have j: "64 \<le> length (h_junk demo_host)" by (simp add: demo_host_def)
  obtain s :: net_state where s: "post_static 0 2 (\<lambda>_. True) (dev (sys s))" "clock_room False s" "wire (dev (sys s)) = []"
    by (rule PostOffice_new_ok [OF _ j, of 2 0 1 "\<lambda>_. True" "\<lambda>_. 0" demo_pkt]) (auto simp add: demo_host_def)
  define t where "t = upd_dev (\<lambda>d. d\<lparr>randoms := (\<lambda>_. 0), chanceToWork := 1\<rparr>) s"
  have t: "clock_room False t" "wire (dev (sys t)) = []" using s by (simp_all add: t_def upd_dev_def)
  obtain s1 where s1: "Schedule False NetworkSendDone NETWORK_TIME NETWORK_SEND_INT t = Inr s1" "sys s1 = sys t"
    by (rule Schedule_device [OF t(1), where d = NETWORK_TIME and h = NetworkSendDone and k = NETWORK_SEND_INT]) (simp_all add: NETWORK_TIME_def)
  have d: "randoms (dev (sys t)) = (\<lambda>_. 0)" "chanceToWork (dev (sys t)) = 1" "ident (dev (sys t)) = 0" "\<not> sendBusy (dev (sys t))"
    "reachable (dev (sys t)) = (\<lambda>_. True)" using s(1) by (simp_all add: t_def upd_dev_def post_static_def)
  have "\<exists>s'. Network_Send False (h_be demo_host) (h_times100 demo_host) (h_junk demo_host) (demo_pkt\<lparr>pk_length := 15\<rparr>) ?buf t = Inr s' \<and>
      wire (dev (sys s')) \<noteq> []"
    using s1 d by (simp add: Network_Send_def demo_pkt_def post_sizes bytes_from_def upd_dev_def demo_host_def Let_def)
  with as r t(2) that show thesis by blast
qed

theorem Send_mail_roundtrip_witness:
  "\<exists>d. legal False 1 2 d \<and> mail_of False d = \<lparr>m_pktHdr = \<lparr>pk_to = 1, pk_from = 0, pk_length = 15\<rparr>, m_mailHdr = demo_mail, m_data = [7, 8, 9]\<rparr>"
proof -
  obtain as buf s s' where a: "PostOffice_Send (h_be demo_host) 0 2 (h_junk demo_host) demo_pkt demo_mail [7, 8, 9] = Inr as"
    "Do (NetSend (demo_pkt\<lparr>pk_length := 15\<rparr>) buf) \<in> set as"
    "Network_Send False (h_be demo_host) (h_times100 demo_host) (h_junk demo_host) (demo_pkt\<lparr>pk_length := 15\<rparr>) buf s = Inr s'"
    "wire (dev (sys s)) = []" "wire (dev (sys s')) \<noteq> []" by (rule demo_send)
  have j: "64 \<le> length (h_junk demo_host)" by (simp add: demo_host_def)
  from Send_mail_roundtrip [OF a(1) j _ a(2,3), of 2] a(4,5) show ?thesis
    by (auto simp add: demo_host_def demo_pkt_def demo_mail_def)
qed

lemma demo_post_run:
  obtains c c' where "post_start demo_host 1 1 2 (\<lambda>_. True) (\<lambda>_. 0) demo_pkt 0 1 (\<lambda>_. []) c" and "(post_step demo_host 1 2)\<^sup>*\<^sup>* c c'"
    and "arrived (dev (sys (ist c'))) \<noteq> []"
proof -
  have j: "64 \<le> length (h_junk demo_host)" by (simp add: demo_host_def)
  obtain s where s: "PostOffice_new demo_host 1 1 (int 2) (net_init demo_host (\<lambda>_. True) (\<lambda>_. 0) demo_pkt) = Inr s"
    by (rule PostOffice_new_ok [OF _ j, of 2 1 1 "\<lambda>_. True" "\<lambda>_. 0" demo_pkt]) auto
  let ?c = "\<lparr>todo = (\<lambda>t. if t = 0 then PostalDelivery 1 else []), ist = s\<rparr>"
  have c: "post_start demo_host 1 1 2 (\<lambda>_. True) (\<lambda>_. 0) demo_pkt 0 1 (\<lambda>_. []) ?c"
    using s j by (simp add: post_start_def peers_ok_def)
  let ?m = "mail_bytes False demo_mail @ [7, 8, 9]" and ?p = "demo_pkt\<lparr>pk_length := 15\<rparr>"
  define d where "d = blit (blit (replicate 64 0) 0 (packet_bytes False ?p)) 12 ?m"
  have m: "packet_of_bytes False d = ?p" "payload False d = ?m"
    using wire_mail [of ?m "[7, 8, 9]" False demo_mail ?p "replicate 64 0" d] by (simp_all add: d_def demo_pkt_def demo_mail_def)
  have "length d = 64" using blit_header(2) [of "packet_bytes False ?p" ?m "replicate 64 0"] by (simp add: d_def)
  then have l: "legal (h_be demo_host) 1 2 d" using m by (simp add: legal_def post_sizes demo_pkt_def demo_mail_def demo_host_def)
  let ?x = "(sys s)\<lparr>dev := (dev (sys s))\<lparr>socket := socket (dev (sys s)) @ [d], arrived := arrived (dev (sys s)) @ [d]\<rparr>\<rparr>"
  let ?c' = "\<lparr>todo = todo ?c, ist = s\<lparr>sys := ?x\<rparr>\<rparr>"
  have "post_step demo_host 1 2 ?c ?c'" unfolding post_step_def
    using driver_step.world [of "arrives (h_be demo_host) 1 2" ?c ?x] arrives.intros [OF l, of "sys s"] by simp
  then have "(post_step demo_host 1 2)\<^sup>*\<^sup>* ?c ?c'" by blast
  with c show thesis by (rule that) simp
qed

theorem PostOffice_safe_witness:
  "\<exists>c. arrived (dev (sys (ist c))) \<noteq> [] \<and> driver_safe (net_run False False) (exec_stmt (post_exec demo_host)) c"
proof -
  obtain c c' where c: "post_start demo_host 1 1 2 (\<lambda>_. True) (\<lambda>_. 0) demo_pkt 0 1 (\<lambda>_. []) c" "(post_step demo_host 1 2)\<^sup>*\<^sup>* c c'"
    "arrived (dev (sys (ist c'))) \<noteq> []" by (rule demo_post_run)
  from PostOffice_safe [OF c(1) _ c(2)] c(3) show ?thesis by (auto simp add: demo_host_def)
qed

theorem PostOffice_in_order_witness:
  "\<exists>(c :: post_driver) old rest. arrived (dev (sys (ist c))) \<noteq> [] \<and> arrived (dev (sys (ist c))) = old @ rest \<and>
     (\<forall>b<2. filter (\<lambda>m. box_of m = b) (map snd (returned (sys (ist c)))) @ boxes (dev (sys (ist c))) ! b =
        filter (\<lambda>m. box_of m = b) (map (mail_of False) old))"
proof -
  obtain c c' where c: "post_start demo_host 1 1 2 (\<lambda>_. True) (\<lambda>_. 0) demo_pkt 0 1 (\<lambda>_. []) c" "(post_step demo_host 1 2)\<^sup>*\<^sup>* c c'"
    "arrived (dev (sys (ist c'))) \<noteq> []" by (rule demo_post_run)
  have b: "h_be demo_host = False" by (simp add: demo_host_def)
  from PostOffice_in_order [OF c(1) _ c(2), unfolded b] c(3) show ?thesis by auto
qed

end
