(* ===== verification/Bin_Coff.thy ===== *)
theory Bin_Coff
  imports Userprog_AddressSpace
begin

text \<open>
  The tools that make programs for the kernel: \<open>bin/coff.h\<close>, \<open>bin/coff_reader.c\<close>, \<open>bin/coff_section.c\<close>,
  \<open>bin/coff2noff.c\<close> and \<open>bin/coff2flat.c\<close>.

  A tool reads an object file, the list \<open>inp\<close> of its bytes, and produces the bytes of another file; it dies with a
  message when the object file is not what it expects. Allocation and writing to the host's files do not fail here.
  \<open>be\<close> is the byte order of the host; a structure that is read or written as a whole has the
  host's order in memory.
\<close>

section \<open>Object files\<close>

datatype die = TooShort | NotMipsel | NotOmagic | BothData | BothBss | AssertFailed

type_synonym 'a tool = "die + 'a"

definition bindT :: "'a tool \<Rightarrow> ('a \<Rightarrow> 'b tool) \<Rightarrow> 'b tool" where
  "bindT r f = (case r of Inl e \<Rightarrow> Inl e | Inr x \<Rightarrow> f x)"

text \<open>\<open>fread(buffer, n, 1, f) == 1\<close> at position \<open>pos\<close>: an item of size 0 is never read.\<close>

definition fread :: "u8 list \<Rightarrow> nat \<Rightarrow> nat \<Rightarrow> u8 list tool" where
  "fread inp pos n = (if 0 < n \<and> pos + n \<le> length inp then Inr (slice pos n inp) else Inl TooShort)"

definition half_at :: "bool \<Rightarrow> u8 list \<Rightarrow> nat \<Rightarrow> u16" where
  "half_at be bs i = word_of_bytes (host_order be (slice i 2 bs))"

definition word_at :: "bool \<Rightarrow> u8 list \<Rightarrow> nat \<Rightarrow> u32" where
  "word_at be bs i = word_of_bytes (host_order be (slice i 4 bs))"

definition COFF_MIPSELMAGIC :: u16 where "COFF_MIPSELMAGIC = 0x0162"
definition COFF_OMAGIC :: u16 where "COFF_OMAGIC = 0x0107"

record coffFileHeader =
  fh_magic :: u16
  nSections :: u16
  timeDate :: u32
  symbolPtr :: u32
  nSymbols :: u32
  optHeader :: u16
  fh_flags :: u16

record coffOptHeader =
  oh_magic :: u16
  vStamp :: u16
  textSize :: u32
  dataSize :: u32
  bssSize :: u32
  oh_entry :: u32
  textStart :: u32
  dataStart :: u32
  bssStart :: u32
  gprMask :: u32
  cprMask :: "u32 list"
  gpValue :: u32

record coffSectionHeader =
  sh_name :: "u8 list"
  physAddr :: u32
  virtAddr :: u32
  sh_size :: u32
  sectionPtr :: u32
  relocPtr :: u32
  lnnoPtr :: u32
  nReloc :: u16
  nLnno :: u16
  sh_flags :: u32

definition file_header :: "bool \<Rightarrow> u8 list \<Rightarrow> coffFileHeader" where
  "file_header be bs = \<lparr>fh_magic = half_at be bs 0, nSections = half_at be bs 2, timeDate = word_at be bs 4, symbolPtr = word_at be bs 8,
     nSymbols = word_at be bs 12, optHeader = half_at be bs 16, fh_flags = half_at be bs 18\<rparr>"

definition opt_header :: "bool \<Rightarrow> u8 list \<Rightarrow> coffOptHeader" where
  "opt_header be bs = \<lparr>oh_magic = half_at be bs 0, vStamp = half_at be bs 2, textSize = word_at be bs 4, dataSize = word_at be bs 8,
     bssSize = word_at be bs 12, oh_entry = word_at be bs 16, textStart = word_at be bs 20, dataStart = word_at be bs 24,
     bssStart = word_at be bs 28, gprMask = word_at be bs 32, cprMask = map (word_at be bs) [36, 40, 44, 48], gpValue = word_at be bs 52\<rparr>"

definition section_header :: "bool \<Rightarrow> u8 list \<Rightarrow> coffSectionHeader" where
  "section_header be bs = \<lparr>sh_name = take 8 bs, physAddr = word_at be bs 8, virtAddr = word_at be bs 12, sh_size = word_at be bs 16,
     sectionPtr = word_at be bs 20, relocPtr = word_at be bs 24, lnnoPtr = word_at be bs 28, nReloc = half_at be bs 32,
     nLnno = half_at be bs 34, sh_flags = word_at be bs 36\<rparr>"

section \<open>The reader\<close>

record coffReaderData =
  fileH :: coffFileHeader
  optH :: coffOptHeader
  sections :: "coffSectionHeader list"
  r_current :: nat

definition swap_section :: "bool \<Rightarrow> coffSectionHeader \<Rightarrow> coffSectionHeader" where
  "swap_section be sh = sh\<lparr>physAddr := WordToHost be (physAddr sh), sh_size := WordToHost be (sh_size sh), sectionPtr := WordToHost be (sectionPtr sh)\<rparr>"

definition CoffReaderLoad :: "bool \<Rightarrow> u8 list \<Rightarrow> coffReaderData tool" where
  "CoffReaderLoad be inp =
     bindT (fread inp 0 20) (\<lambda>bs.
     let fh = file_header be bs; fh = fh\<lparr>fh_magic := ShortToHost be (fh_magic fh), nSections := ShortToHost be (nSections fh)\<rparr> in
     if fh_magic fh \<noteq> COFF_MIPSELMAGIC then Inl NotMipsel
     else bindT (fread inp 20 56) (\<lambda>bs.
     let oh = opt_header be bs; oh = oh\<lparr>oh_magic := ShortToHost be (oh_magic oh)\<rparr> in
     if oh_magic oh \<noteq> COFF_OMAGIC then Inl NotOmagic
     else let nsh = unat (nSections fh) in
     bindT (fread inp 76 (nsh * 40)) (\<lambda>bs.
     Inr \<lparr>fileH = fh, optH = oh, sections = map (\<lambda>i. swap_section be (section_header be (slice (40 * i) 40 bs))) [0..<nsh], r_current = 0\<rparr>)))"

definition CoffReaderNextSection :: "coffReaderData \<Rightarrow> (coffSectionHeader option \<times> coffReaderData) tool" where
  "CoffReaderNextSection d =
    (if r_current d \<le> unat (nSections (fileH d)) then
       if r_current d = unat (nSections (fileH d)) then Inr (None, d\<lparr>r_current := 0\<rparr>)
       else Inr (Some (sections d ! r_current d), d\<lparr>r_current := r_current d + 1\<rparr>)
     else Inl AssertFailed)"

text \<open>The loop of both tools: \<open>while ((sc = CoffReaderNextSection(&d)) != NULL)\<close>, with the body as an argument.\<close>

function sections_loop :: "(coffSectionHeader \<Rightarrow> 's \<Rightarrow> 's tool) \<Rightarrow> coffReaderData \<Rightarrow> 's \<Rightarrow> 's tool" where
  "sections_loop f d st = (case CoffReaderNextSection d of
     Inl e \<Rightarrow> Inl e
   | Inr (None, d) \<Rightarrow> Inr st
   | Inr (Some sc, d) \<Rightarrow> (case f sc st of Inl e \<Rightarrow> Inl e | Inr st \<Rightarrow> sections_loop f d st))"
  by pat_completeness auto
termination
  by (relation "measure (\<lambda>(f, d, st). unat (nSections (fileH d)) - r_current d)")
    (auto simp add: CoffReaderNextSection_def split: if_splits)

definition CoffSectionAddr :: "coffSectionHeader \<Rightarrow> u32" where "CoffSectionAddr sh = physAddr sh"
definition CoffSectionSize :: "coffSectionHeader \<Rightarrow> u32" where "CoffSectionSize sh = sh_size sh"
definition CoffSectionEmpty :: "coffSectionHeader \<Rightarrow> bool" where "CoffSectionEmpty sh \<longleftrightarrow> CoffSectionSize sh = 0"

text \<open>The name as a string: the eight characters up to the first null, or all of them.\<close>

definition CoffSectionName :: "coffSectionHeader \<Rightarrow> u8 list" where
  "CoffSectionName sh = takeWhile (\<lambda>c. c \<noteq> 0) (sh_name sh @ [0])"

definition CoffSectionRead :: "coffSectionHeader \<Rightarrow> u8 list \<Rightarrow> u8 list tool" where
  "CoffSectionRead sh inp = fread inp (unat (sectionPtr sh)) (unat (sh_size sh))"

definition ascii :: "string \<Rightarrow> u8 list" where
  "ascii = map of_char"

section \<open>Translation to NOFF\<close>

text \<open>The header under construction, the position in the output file and what has been written behind the header.\<close>

type_synonym noff_state = "noffHeader \<times> u32 \<times> u8 list"

definition noff_section :: "u8 list \<Rightarrow> coffSectionHeader \<Rightarrow> noff_state \<Rightarrow> noff_state tool" where
  "noff_section inp sc st =
    (case st of (noffH, inNoffFile, out) \<Rightarrow>
     if CoffSectionEmpty sc then Inr st
     else
       let addr = CoffSectionAddr sc; name = CoffSectionName sc; n = CoffSectionSize sc in
       if name = ascii ''.text'' then
         let noffH = noffH\<lparr>code := (code noffH)\<lparr>virtualAddr := addr, inFileAddr := inNoffFile, seg_size := n\<rparr>\<rparr> in
         bindT (CoffSectionRead sc inp) (\<lambda>buffer. Inr (noffH, inNoffFile + n, out @ buffer))
       else if name = ascii ''.data'' \<or> name = ascii ''.rdata'' then
         if seg_size (initData noffH) \<noteq> 0 then Inl BothData
         else
           let noffH = noffH\<lparr>initData := (initData noffH)\<lparr>virtualAddr := addr, inFileAddr := inNoffFile, seg_size := n\<rparr>\<rparr> in
           bindT (CoffSectionRead sc inp) (\<lambda>buffer. Inr (noffH, inNoffFile + n, out @ buffer))
       else if name = ascii ''.bss'' \<or> name = ascii ''.sbss'' then
         let u = uninitData noffH in
         if seg_size u \<noteq> 0 then
           if addr = virtualAddr u + seg_size u then Inl BothBss
           else Inr (noffH\<lparr>uninitData := u\<lparr>seg_size := seg_size u + n\<rparr>\<rparr>, inNoffFile, out)
         else Inr (noffH\<lparr>uninitData := u\<lparr>virtualAddr := addr, seg_size := n\<rparr>\<rparr>, inNoffFile, out)
       else Inr st)"

definition header_words :: "noffHeader \<Rightarrow> u32 list" where
  "header_words h = [noffMagic h, virtualAddr (code h), inFileAddr (code h), seg_size (code h),
     virtualAddr (initData h), inFileAddr (initData h), seg_size (initData h),
     virtualAddr (uninitData h), inFileAddr (uninitData h), seg_size (uninitData h)]"

text \<open>\<open>junk\<close> is the memory of the header before it is initialised.\<close>

definition coff2noff :: "bool \<Rightarrow> noffHeader \<Rightarrow> u8 list \<Rightarrow> u8 list tool" where
  "coff2noff be junk inp =
     bindT (CoffReaderLoad be inp) (\<lambda>d.
     let noffH = junk\<lparr>noffMagic := NOFF_MAGIC, code := (code junk)\<lparr>seg_size := 0\<rparr>, initData := (initData junk)\<lparr>seg_size := 0\<rparr>,
           uninitData := (uninitData junk)\<lparr>seg_size := 0\<rparr>\<rparr> in
     bindT (sections_loop (noff_section inp) d (noffH, of_nat HEADER_SIZE, [])) (\<lambda>(noffH, _, out).
     Inr (bytes_of_words be (header_words noffH) @ out)))"

section \<open>Translation to a flat file\<close>

definition FLAT_STACK_SIZE :: u32 where "FLAT_STACK_SIZE = 1024"

definition flat_section :: "u8 list \<Rightarrow> coffSectionHeader \<Rightarrow> u32 \<times> u8 list \<Rightarrow> (u32 \<times> u8 list) tool" where
  "flat_section inp sc st =
    (case st of (ftop, out) \<Rightarrow>
     let addr = CoffSectionAddr sc; name = CoffSectionName sc; n = CoffSectionSize sc;
         fin = ucast addr + ucast n :: u64;
         ftop = (if fin > scast ftop then ucast fin else ftop) in
     if name \<noteq> ascii ''.bss'' \<and> name \<noteq> ascii ''.sbss'' then
       bindT (CoffSectionRead sc inp) (\<lambda>buffer. Inr (ftop, out @ buffer))
     else Inr (ftop, out))"

text \<open>Four bytes written at position \<open>pos\<close> of the output; a gap reads as zeros. A negative position makes \<open>fseek\<close> fail, and the
  bytes go to the end.\<close>

definition write_at :: "u8 list \<Rightarrow> int \<Rightarrow> u8 list \<Rightarrow> u8 list" where
  "write_at out pos bs =
    (if pos < 0 then out @ bs
     else let p = nat pos; out = out @ replicate (p - length out) 0 in take p out @ bs @ drop (p + length bs) out)"

definition coff2flat :: "bool \<Rightarrow> u8 list \<Rightarrow> u8 list tool" where
  "coff2flat be inp =
     bindT (CoffReaderLoad be inp) (\<lambda>d.
     bindT (sections_loop (flat_section inp) d (0, [])) (\<lambda>(ftop, out).
     Inr (write_at out (sint (ftop + FLAT_STACK_SIZE - 4)) [0, 0, 0, 0])))"

section \<open>The loop over the sections\<close>

lemma bindT_simps [simp]: "bindT (Inl e) f = Inl e" "bindT (Inr x) f = f x"
  by (simp_all add: bindT_def)

lemma bindT_Inr: "bindT r f = Inr y \<longleftrightarrow> (\<exists>x. r = Inr x \<and> f x = Inr y)"
  by (cases r) simp_all

fun each :: "('a \<Rightarrow> 's \<Rightarrow> 's tool) \<Rightarrow> 'a list \<Rightarrow> 's \<Rightarrow> 's tool" where
  "each f [] st = Inr st"
| "each f (x # xs) st = bindT (f x st) (each f xs)"

lemma each_append: "each f (xs @ ys) st = bindT (each f xs st) (each f ys)"
  by (induction xs arbitrary: st) (simp_all add: bindT_def split: sum.splits)

lemma sections_loop_each:
  assumes "length (sections d) = unat (nSections (fileH d))" and "r_current d \<le> length (sections d)"
  shows "sections_loop f d st = each f (drop (r_current d) (sections d)) st"
  using assms
proof (induction f d st rule: sections_loop.induct)
  case (1 f d st)
  show ?case
  proof (cases "r_current d = length (sections d)")
    case True
    with 1 show ?thesis by (subst sections_loop.simps) (simp add: CoffReaderNextSection_def)
  next
    case False
    let ?d = "d\<lparr>r_current := r_current d + 1\<rparr>" and ?sc = "sections d ! r_current d"
    have n: "CoffReaderNextSection d = Inr (Some ?sc, ?d)" using False 1 by (simp add: CoffReaderNextSection_def)
    have "drop (r_current d) (sections d) = ?sc # drop (Suc (r_current d)) (sections d)" using False 1 by (simp add: Cons_nth_drop_Suc)
    with 1(1) [OF n refl refl] 1(2,3) False n show ?thesis
      by (subst sections_loop.simps) (simp add: bindT_def split: sum.splits)
  qed
qed

lemma CoffReaderLoad_sections:
  "CoffReaderLoad be inp = Inr d \<Longrightarrow> length (sections d) = unat (nSections (fileH d)) \<and> r_current d = 0"
  by (auto simp add: CoffReaderLoad_def Let_def bindT_Inr split: if_splits)

lemma tool_loop: "CoffReaderLoad be inp = Inr d \<Longrightarrow> sections_loop f d st = each f (sections d) st"
  using CoffReaderLoad_sections [of be inp d] sections_loop_each [of d f st] by simp

section \<open>What the NOFF file holds\<close>

definition is_text :: "coffSectionHeader \<Rightarrow> bool" where
  "is_text sc \<longleftrightarrow> \<not> CoffSectionEmpty sc \<and> CoffSectionName sc = ascii ''.text''"

definition is_data :: "coffSectionHeader \<Rightarrow> bool" where
  "is_data sc \<longleftrightarrow> \<not> CoffSectionEmpty sc \<and> CoffSectionName sc \<in> {ascii ''.data'', ascii ''.rdata''}"

definition is_bss :: "coffSectionHeader \<Rightarrow> bool" where
  "is_bss sc \<longleftrightarrow> \<not> CoffSectionEmpty sc \<and> CoffSectionName sc \<in> {ascii ''.bss'', ascii ''.sbss''}"

text \<open>The segment \<open>g\<close> of the header stands for the section \<open>sc\<close>: it has its address and size, and the place it names in the
  output holds the section's bytes.\<close>

definition stands_for :: "u8 list \<Rightarrow> u8 list \<Rightarrow> noffSegment \<Rightarrow> coffSectionHeader \<Rightarrow> bool" where
  "stands_for inp out g sc \<longleftrightarrow> virtualAddr g = physAddr sc \<and> seg_size g = sh_size sc \<and>
     unat (sectionPtr sc) + unat (sh_size sc) \<le> length inp \<and> 40 \<le> unat (inFileAddr g) \<and> unat (inFileAddr g) + unat (sh_size sc) \<le> 40 + length out \<and>
     slice (unat (inFileAddr g) - 40) (unat (sh_size sc)) out = slice (unat (sectionPtr sc)) (unat (sh_size sc)) inp"

definition segment_for :: "u8 list \<Rightarrow> u8 list \<Rightarrow> noffSegment \<Rightarrow> coffSectionHeader list \<Rightarrow> bool" where
  "segment_for inp out g scs \<longleftrightarrow> (if scs = [] then seg_size g = 0 else stands_for inp out g (last scs))"

definition noff_inv :: "u8 list \<Rightarrow> coffSectionHeader list \<Rightarrow> noff_state \<Rightarrow> bool" where
  "noff_inv inp scs st \<longleftrightarrow> (case st of (h, pos, out) \<Rightarrow> noffMagic h = NOFF_MAGIC \<and> pos = of_nat (40 + length out) \<and>
     segment_for inp out (code h) (filter is_text scs) \<and> segment_for inp out (initData h) (filter is_data scs) \<and>
     length (filter is_data scs) \<le> 1)"

lemma ascii_names: "ascii ''.text'' = [46, 116, 101, 120, 116]" "ascii ''.data'' = [46, 100, 97, 116, 97]" "ascii ''.rdata'' = [46, 114, 100, 97, 116, 97]"
  "ascii ''.bss'' = [46, 98, 115, 115]" "ascii ''.sbss'' = [46, 115, 98, 115, 115]"
  by (simp_all add: ascii_def)

lemma stands_for_append: "stands_for inp out g sc \<Longrightarrow> stands_for inp (out @ bs) g sc"
  by (auto simp add: stands_for_def slice_def)

lemma segment_for_append: "segment_for inp out g scs \<Longrightarrow> segment_for inp (out @ bs) g scs"
  by (simp add: segment_for_def stands_for_append)

lemma CoffSectionRead_ok:
  assumes "CoffSectionRead sc inp = Inr bs"
  shows "bs = slice (unat (sectionPtr sc)) (unat (sh_size sc)) inp" and "length bs = unat (sh_size sc)"
    and "unat (sectionPtr sc) + unat (sh_size sc) \<le> length inp"
  using assms by (auto simp add: CoffSectionRead_def fread_def split: if_splits)

lemma stands_for_new:
  assumes "CoffSectionRead sc inp = Inr bs" and "40 + length (out @ bs) < 4294967296"
  shows "stands_for inp (out @ bs) (g\<lparr>virtualAddr := physAddr sc, inFileAddr := of_nat (40 + length out), seg_size := sh_size sc\<rparr>) sc"
proof -
  note r = CoffSectionRead_ok [OF assms(1)]
  have u: "unat (of_nat (40 + length out) :: u32) = 40 + length out" using assms(2) by (simp only: unat_of_nat) simp
  show ?thesis unfolding stands_for_def using r u by (simp add: slice_def)
qed

lemma noff_pos: "length bs = unat n \<Longrightarrow> (of_nat (40 + length out) :: u32) + n = of_nat (40 + length (out @ bs))"
  by simp

lemma noff_kinds: "\<not> (is_text sc \<and> is_data sc)" "\<not> (is_text sc \<and> is_bss sc)" "\<not> (is_data sc \<and> is_bss sc)"
  by (auto simp add: is_text_def is_data_def is_bss_def ascii_names)

lemmas coff_fields = CoffSectionAddr_def CoffSectionSize_def

lemma noff_section_cases:
  assumes "noff_section inp sc (h, pos, out) = Inr st"
  obtains (istext) bs where "is_text sc" and "CoffSectionRead sc inp = Inr bs"
      and "st = (h\<lparr>code := (code h)\<lparr>virtualAddr := physAddr sc, inFileAddr := pos, seg_size := sh_size sc\<rparr>\<rparr>, pos + sh_size sc, out @ bs)"
  | (init) bs where "is_data sc" and "seg_size (initData h) = 0" and "CoffSectionRead sc inp = Inr bs"
      and "st = (h\<lparr>initData := (initData h)\<lparr>virtualAddr := physAddr sc, inFileAddr := pos, seg_size := sh_size sc\<rparr>\<rparr>, pos + sh_size sc, out @ bs)"
  | (other) g where "\<not> is_text sc" and "\<not> is_data sc" and "st = (h\<lparr>uninitData := g\<rparr>, pos, out)"
proof -
  consider "is_text sc" | "is_data sc" | "is_bss sc" | "\<not> is_text sc" "\<not> is_data sc" "\<not> is_bss sc" by blast
  then show thesis
  proof cases
    case 1
    with assms obtain bs where "CoffSectionRead sc inp = Inr bs"
      "st = (h\<lparr>code := (code h)\<lparr>virtualAddr := physAddr sc, inFileAddr := pos, seg_size := sh_size sc\<rparr>\<rparr>, pos + sh_size sc, out @ bs)"
      by (auto simp add: noff_section_def is_text_def coff_fields Let_def bindT_Inr)
    from istext [OF 1 this] show thesis .
  next
    case 2
    then have "CoffSectionName sc \<noteq> ascii ''.text''" by (auto simp add: is_data_def ascii_names)
    with 2 assms obtain bs where "seg_size (initData h) = 0" "CoffSectionRead sc inp = Inr bs"
      "st = (h\<lparr>initData := (initData h)\<lparr>virtualAddr := physAddr sc, inFileAddr := pos, seg_size := sh_size sc\<rparr>\<rparr>, pos + sh_size sc, out @ bs)"
      by (auto simp add: noff_section_def is_data_def coff_fields Let_def bindT_Inr split: if_splits)
    from init [OF 2 this] show thesis .
  next
    case 3
    then have n: "CoffSectionName sc \<noteq> ascii ''.text''" "CoffSectionName sc \<noteq> ascii ''.data''" "CoffSectionName sc \<noteq> ascii ''.rdata''"
      by (auto simp add: is_bss_def ascii_names)
    then have "\<not> is_text sc" "\<not> is_data sc" by (simp_all add: is_text_def is_data_def)
    moreover have "\<exists>g. st = (h\<lparr>uninitData := g\<rparr>, pos, out)"
      using 3 n assms by (auto simp add: noff_section_def is_bss_def coff_fields Let_def split: if_splits)
    ultimately show thesis using other by blast
  next
    case 4
    then have "noff_section inp sc (h, pos, out) = Inr (h, pos, out)"
      by (auto simp add: noff_section_def is_text_def is_data_def is_bss_def coff_fields Let_def)
    with assms 4 show thesis by (intro other [of "uninitData h"]) simp_all
  qed
qed

lemma noff_section_inv:
  assumes "noff_inv inp scs (h, pos, out)" and "noff_section inp sc (h, pos, out) = Inr (h', pos', out')" and "40 + length out' < 4294967296"
  shows "noff_inv inp (scs @ [sc]) (h', pos', out')"
  using assms(2)
proof (cases rule: noff_section_cases)
  case (istext bs)
  then have nd: "\<not> is_data sc" using noff_kinds(1) by blast
  from istext nd assms(1,3) stands_for_new [of sc inp bs out "code h"] CoffSectionRead_ok(2) [OF istext(2)] noff_pos [of bs "sh_size sc" out]
    segment_for_append [of inp out "initData h" _ bs]
  show ?thesis by (simp add: noff_inv_def segment_for_def)
next
  case (init bs)
  then have "\<not> is_text sc" using noff_kinds(1) by blast
  moreover have "filter is_data scs = []"
  proof (rule ccontr)
    assume "filter is_data scs \<noteq> []"
    moreover from this have "\<not> CoffSectionEmpty (last (filter is_data scs))"
      using last_in_set [of "filter is_data scs"] by (simp add: is_data_def)
    ultimately show False using assms(1) init(2) by (simp add: noff_inv_def segment_for_def stands_for_def CoffSectionEmpty_def coff_fields)
  qed
  ultimately show ?thesis using init assms(1,3) stands_for_new [of sc inp bs out "initData h"] CoffSectionRead_ok(2) [OF init(3)] noff_pos [of bs "sh_size sc" out]
    segment_for_append [of inp out "code h" _ bs]
    by (simp add: noff_inv_def segment_for_def)
next
  case (other g)
  with assms(1) show ?thesis by (simp add: noff_inv_def)
qed

lemma noff_section_grows: "noff_section inp sc (h, pos, out) = Inr (h', pos', out') \<Longrightarrow> length out \<le> length out'"
  by (erule noff_section_cases) simp_all

lemma noff_each_inv:
  assumes "each (noff_section inp) scs st0 = Inr (h, pos, out)" and "noff_inv inp [] st0" and "40 + length out < 4294967296"
  shows "noff_inv inp scs (h, pos, out)"
  using assms(1,3)
proof (induction scs arbitrary: h pos out rule: rev_induct)
  case Nil
  with assms(2) show ?case by simp
next
  case (snoc sc scs)
  then obtain st where st: "each (noff_section inp) scs st0 = Inr st" "noff_section inp sc st = Inr (h, pos, out)"
    by (auto simp add: each_append bindT_Inr)
  obtain h1 p1 o1 where s: "st = (h1, p1, o1)" by (cases st)
  from snoc.IH [OF st(1) [unfolded s]] noff_section_grows [OF st(2) [unfolded s]] snoc.prems(2)
  have "noff_inv inp scs (h1, p1, o1)" by simp
  from noff_section_inv [OF this st(2) [unfolded s] snoc.prems(2)] show ?case .
qed

lemma header_words_of: "header_of (header_words h) = h"
  by (simp add: header_of_def header_words_def segment_of_def)

lemma coff2noff_result:
  assumes "coff2noff be junk inp = Inr img" and "length img < 4294967296" and "CoffReaderLoad be inp = Inr d"
  obtains h out where "img = bytes_of_words be (header_words h) @ out" and "noffMagic h = NOFF_MAGIC"
    and "segment_for inp out (code h) (filter is_text (sections d))" and "segment_for inp out (initData h) (filter is_data (sections d))"
    and "length (filter is_data (sections d)) \<le> 1" and "header_of (words_of_bytes be (take 40 img)) = h"
proof -
  let ?h0 = "junk\<lparr>noffMagic := NOFF_MAGIC, code := (code junk)\<lparr>seg_size := 0\<rparr>, initData := (initData junk)\<lparr>seg_size := 0\<rparr>, uninitData := (uninitData junk)\<lparr>seg_size := 0\<rparr>\<rparr>"
  from assms(1,3) obtain h pos out where e: "each (noff_section inp) (sections d) (?h0, of_nat HEADER_SIZE, []) = Inr (h, pos, out)"
    and img: "img = bytes_of_words be (header_words h) @ out"
    by (auto simp add: coff2noff_def bindT_Inr tool_loop [OF assms(3)] simp del: sections_loop.simps)
  have l: "length (header_words h) = 10" by (simp add: header_words_def)
  have "noff_inv inp [] (?h0, of_nat HEADER_SIZE, [])" by (simp add: noff_inv_def segment_for_def HEADER_SIZE_def)
  from noff_each_inv [OF e this] assms(2) have "noff_inv inp (sections d) (h, pos, out)" by (simp add: img l)
  moreover have "header_of (words_of_bytes be (take 40 img)) = h" by (simp add: img l header_words_of)
  ultimately show thesis using img by (intro that [of h out]) (simp_all add: noff_inv_def)
qed

section \<open>Programs from object files\<close>

lemma slice_nth: "i < n \<Longrightarrow> j + n \<le> length xs \<Longrightarrow> slice j n xs ! i = xs ! (j + i)"
  by (simp add: slice_def)

lemma stands_for_image:
  assumes "stands_for inp out g sc" and "img = hd40 @ out" and "length hd40 = 40" and "i < unat (sh_size sc)"
  shows "img ! (unat (inFileAddr g) + i) = inp ! (unat (sectionPtr sc) + i)"
proof -
  have s: "slice (unat (inFileAddr g) - 40) (unat (sh_size sc)) out ! i = slice (unat (sectionPtr sc)) (unat (sh_size sc)) inp ! i"
    "40 \<le> unat (inFileAddr g)" "unat (inFileAddr g) + unat (sh_size sc) \<le> 40 + length out" "unat (sectionPtr sc) + unat (sh_size sc) \<le> length inp"
    using assms(1) by (simp_all add: stands_for_def)
  have "out ! (unat (inFileAddr g) - 40 + i) = inp ! (unat (sectionPtr sc) + i)"
    using s assms(4) by (simp add: slice_nth)
  with assms(2,3) s(2) show ?thesis by (simp add: nth_append)
qed

lemma stands_for_segment:
  "stands_for inp out g sc \<Longrightarrow> unat (physAddr sc) + unat (sh_size sc) \<le> n * 128 \<Longrightarrow> segment_ok (40 + length out) n g"
  by (simp add: stands_for_def segment_ok_def)

lemma CheckMagic_ok: "noffMagic h = NOFF_MAGIC \<Longrightarrow> CheckMagic be h = (True, h)"
  by (simp add: CheckMagic_def)

text \<open>C17: A program that the tool translated and the kernel loads is the program of the object file. When a file of the
  file system holds the output of \<open>coff2noff\<close> for an object file with one code section and one data section behind it that
  fit into the address space, the kernel loads it, and the machine sees the bytes of both sections of the object file
  at their addresses; on hosts of either byte order.\<close>

theorem coff2noff_loads:
  assumes "CoffReaderLoad be inp = Inr cd" and "coff2noff be junk inp = Inr (file_bytes d (hdr f))"
    and "filter is_text (sections cd) = [t]" and "filter is_data (sections cd) = [s]"
    and "h = header_of (words_of_bytes be (take 40 (file_bytes d (hdr f))))"
    and "unat (physAddr t) + unat (sh_size t) \<le> unat (physAddr s)" and "unat (physAddr s) + unat (sh_size s) \<le> space_pages h * 128"
    and "hdr_ok (hdr f)" and "disk_ok d" and "bitmap_inv b" and "numBits b = 128" and "length mem = 16384" and "length raw = 40"
    and "space_pages h + card (marked b) \<le> 128"
  shows "\<exists>sp d' b' mem'. AddressSpace_new (OpenFile_ReadAt f) be raw d b mem = Inr (sp, d', b', mem') \<and> mmu_ok (space_mmu sp mem') \<and>
     (\<forall>i<unat (sh_size t). vmem (space_mmu sp mem') (physAddr t + of_nat i) = Some (inp ! (unat (sectionPtr t) + i))) \<and>
     (\<forall>i<unat (sh_size s). vmem (space_mmu sp mem') (physAddr s + of_nat i) = Some (inp ! (unat (sectionPtr s) + i)))"
proof -
  let ?c = "file_bytes d (hdr f)"
  have len: "length ?c < 4294967296" using unat_less32 [of "numBytes (hdr f)"] by (simp add: file_bytes_def)
  obtain h' out where c: "?c = bytes_of_words be (header_words h') @ out" "noffMagic h' = NOFF_MAGIC" "header_of (words_of_bytes be (take 40 ?c)) = h'"
    and g: "segment_for inp out (code h') (filter is_text (sections cd))" "segment_for inp out (initData h') (filter is_data (sections cd))"
    by (rule coff2noff_result [OF assms(2) len assms(1)])
  have h: "h' = h" using c(3) assms(5) by simp
  have sf: "stands_for inp out (code h) t" "stands_for inp out (initData h) s" using g assms(3,4) h by (simp_all add: segment_for_def)
  have l40: "length (bytes_of_words be (header_words h)) = 40" by (simp add: header_words_def)
  with c(1) h have lc: "length ?c = 40 + length out" by simp
  have seg: "segment_ok (length ?c) (space_pages h) (code h)" "segment_ok (length ?c) (space_pages h) (initData h)"
    using stands_for_segment [OF sf(1)] stands_for_segment [OF sf(2)] assms(6,7) lc by simp_all
  have "program_ok be ?c h" using seg len lc c(2,3) h by (simp add: program_ok_def CheckMagic_ok)
  from AddressSpace_spec [OF assms(8,9) this assms(10-14)] obtain sp d' b' mem' where
    r: "AddressSpace_new (OpenFile_ReadAt f) be raw d b mem = Inr (sp, d', b', mem')" "mmu_ok (space_mmu sp mem')"
    and dt: "\<And>i. i < unat (seg_size (initData h)) \<Longrightarrow> vmem (space_mmu sp mem') (virtualAddr (initData h) + of_nat i) = Some (?c ! (unat (inFileAddr (initData h)) + i))"
    and cd: "\<And>i. i < unat (seg_size (code h)) \<Longrightarrow> \<not> (unat (virtualAddr (initData h)) \<le> unat (virtualAddr (code h)) + i \<and>
          unat (virtualAddr (code h)) + i < unat (virtualAddr (initData h)) + unat (seg_size (initData h))) \<Longrightarrow>
        vmem (space_mmu sp mem') (virtualAddr (code h) + of_nat i) = Some (?c ! (unat (inFileAddr (code h)) + i))" by blast
  have va: "virtualAddr (code h) = physAddr t" "seg_size (code h) = sh_size t" "virtualAddr (initData h) = physAddr s" "seg_size (initData h) = sh_size s"
    using sf by (simp_all add: stands_for_def)
  note im = stands_for_image [OF sf(1) c(1) [unfolded h] l40] stands_for_image [OF sf(2) c(1) [unfolded h] l40]
  have "vmem (space_mmu sp mem') (physAddr t + of_nat i) = Some (inp ! (unat (sectionPtr t) + i))" if "i < unat (sh_size t)" for i
    using cd [of i] im(1) [OF that] that assms(6) by (simp add: va)
  moreover have "vmem (space_mmu sp mem') (physAddr s + of_nat i) = Some (inp ! (unat (sectionPtr s) + i))" if "i < unat (sh_size s)" for i
    using dt [of i] im(2) [OF that] that by (simp add: va)
  ultimately show ?thesis using r by blast
qed

text \<open>The comment in the tool says that \<open>.bss\<close> and \<open>.sbss\<close> must be contiguous. The code dies exactly when they are, and takes two
  that are not, as one segment of the total size at the address of the first.\<close>

lemma bss_check_inverted:
  assumes "is_bss sc" and "seg_size (uninitData h) \<noteq> 0"
  shows "noff_section inp sc (h, pos, out) =
    (if physAddr sc = virtualAddr (uninitData h) + seg_size (uninitData h) then Inl BothBss
     else Inr (h\<lparr>uninitData := (uninitData h)\<lparr>seg_size := seg_size (uninitData h) + sh_size sc\<rparr>\<rparr>, pos, out))"
  using assms by (auto simp add: noff_section_def is_bss_def coff_fields Let_def ascii_names)

section \<open>Flat files\<close>

definition in_flat :: "coffSectionHeader \<Rightarrow> bool" where
  "in_flat sc \<longleftrightarrow> CoffSectionName sc \<notin> {ascii ''.bss'', ascii ''.sbss''}"

definition sizes :: "coffSectionHeader list \<Rightarrow> nat" where
  "sizes scs = sum_list (map (unat \<circ> sh_size) (filter in_flat scs))"

lemma flat_section_out:
  assumes "flat_section inp sc (ftop, out) = Inr (ftop', out')"
  shows "out' = out @ (if in_flat sc then slice (unat (sectionPtr sc)) (unat (sh_size sc)) inp else [])"
    and "length out' = length out + sizes [sc]"
  using assms by (auto simp add: flat_section_def in_flat_def sizes_def Let_def bindT_Inr CoffSectionRead_ok(1,2) split: if_splits)

lemma flat_each_out:
  assumes "each (flat_section inp) scs (ftop, out) = Inr (ftop', out')"
  shows "\<exists>bs. out' = out @ bs \<and> length bs = sizes scs"
  using assms
proof (induction scs arbitrary: ftop out)
  case (Cons sc scs)
  then obtain f1 o1 where s: "flat_section inp sc (ftop, out) = Inr (f1, o1)" "each (flat_section inp) scs (f1, o1) = Inr (ftop', out')"
    by (auto simp add: bindT_Inr)
  from Cons.IH [OF s(2)] flat_section_out [OF s(1)] show ?case by (auto simp add: sizes_def)
qed (simp add: sizes_def)

lemma write_at_keeps: "int (length out) \<le> pos \<Longrightarrow> take (length out) (write_at out pos bs) = out"
  by (simp add: write_at_def Let_def)

definition flat_inv :: "coffSectionHeader list \<Rightarrow> u32 \<times> u8 list \<Rightarrow> bool" where
  "flat_inv scs st \<longleftrightarrow> (case st of (ftop, out) \<Rightarrow> length out = sizes scs \<and> sizes scs \<le> unat ftop \<and> unat ftop < 2147482624)"

lemma flat_section_top:
  assumes "flat_section inp sc (ftop, out) = Inr (ftop', out')" and "unat ftop < 2147482624" and "unat (physAddr sc) + unat (sh_size sc) < 2147482624"
  shows "unat ftop' = max (unat ftop) (unat (physAddr sc) + unat (sh_size sc))"
proof -
  let ?fin = "ucast (physAddr sc) + ucast (sh_size sc) :: u64"
  have f: "unat ?fin = unat (physAddr sc) + unat (sh_size sc)"
    using assms(3) by (simp add: unat_word_ariths)
  have "scast ftop = (ucast ftop :: u64)" using assms(2) by (intro scast_small) simp
  then have "?fin > scast ftop \<longleftrightarrow> unat (physAddr sc) + unat (sh_size sc) > unat ftop" by (simp add: word_less_nat_alt f)
  moreover have "unat (ucast ?fin :: u32) = unat (physAddr sc) + unat (sh_size sc)"
    using assms(3) f by (simp add: unat_ucast32)
  moreover have "ftop' = (if ?fin > scast ftop then ucast ?fin else ftop)"
    using assms(1) by (auto simp add: flat_section_def coff_fields Let_def bindT_Inr split: if_splits)
  ultimately show ?thesis by (simp add: max_def)
qed

lemma flat_each_inv:
  assumes "each (flat_section inp) scs (0, []) = Inr (ftop, out)"
    and "\<And>pre sc post. scs = pre @ sc # post \<Longrightarrow> in_flat sc \<Longrightarrow> unat (physAddr sc) = sizes pre"
    and "\<forall>sc\<in>set scs. unat (physAddr sc) + unat (sh_size sc) < 2147482624"
  shows "flat_inv scs (ftop, out)"
  using assms
proof (induction scs arbitrary: ftop out rule: rev_induct)
  case Nil
  then show ?case by (simp add: flat_inv_def sizes_def)
next
  case (snoc sc scs)
  then obtain f1 o1 where s: "each (flat_section inp) scs (0, []) = Inr (f1, o1)" "flat_section inp sc (f1, o1) = Inr (ftop, out)"
    by (auto simp add: each_append bindT_Inr)
  have "flat_inv scs (f1, o1)"
  proof (rule snoc.IH [OF s(1)])
    fix pre sc' post assume "scs = pre @ sc' # post" "in_flat sc'"
    then show "unat (physAddr sc') = sizes pre" using snoc.prems(2) [of pre sc' "post @ [sc]"] by simp
  qed (use snoc.prems(3) in simp)
  moreover have "unat ftop = max (unat f1) (unat (physAddr sc) + unat (sh_size sc))"
    using flat_section_top [OF s(2)] \<open>flat_inv scs (f1, o1)\<close> snoc.prems(3) by (simp add: flat_inv_def)
  moreover have "in_flat sc \<Longrightarrow> unat (physAddr sc) = sizes scs" using snoc.prems(2) [of scs sc "[]"] by simp
  ultimately show ?case using flat_section_out(2) [OF s(2)] snoc.prems(3) by (auto simp add: flat_inv_def sizes_def)
qed

text \<open>A flat file can be copied to memory and executed, when the sections are contiguous. If every section that is not
  \<open>.bss\<close> or \<open>.sbss\<close> is linked behind the ones before it, starting at 0, its bytes stand in the output of \<open>coff2flat\<close> at its
  address. (The tool writes the sections one after the other, and does not look at their addresses.)\<close>

theorem coff2flat_places:
  assumes "CoffReaderLoad be inp = Inr cd" and "coff2flat be inp = Inr img"
    and "\<And>pre sc post. sections cd = pre @ sc # post \<Longrightarrow> in_flat sc \<Longrightarrow> unat (physAddr sc) = sizes pre"
    and "\<forall>sc\<in>set (sections cd). unat (physAddr sc) + unat (sh_size sc) < 2147482624"
    and "sections cd = pre @ sc # post" and "in_flat sc"
  shows "slice (unat (physAddr sc)) (unat (sh_size sc)) img = slice (unat (sectionPtr sc)) (unat (sh_size sc)) inp"
proof -
  obtain ftop out where e: "each (flat_section inp) (sections cd) (0, []) = Inr (ftop, out)"
    and img: "img = write_at out (sint (ftop + FLAT_STACK_SIZE - 4)) [0, 0, 0, 0]"
    using assms(1,2) by (auto simp add: coff2flat_def bindT_Inr tool_loop [OF assms(1)] simp del: sections_loop.simps)
  have inv: "flat_inv (sections cd) (ftop, out)" by (rule flat_each_inv [OF e assms(3,4)])
  then have t: "length out \<le> unat ftop" "unat ftop < 2147482624" by (simp_all add: flat_inv_def)
  have "unat (ftop + 1020) = unat ftop + 1020" using t(2) by (simp add: unat_add32)
  then have u: "sint (ftop + FLAT_STACK_SIZE - 4) = int (unat ftop) + 1020"
    using t(2) sint_cases32 [of "ftop + 1020"] by (simp add: FLAT_STACK_SIZE_def add.commute)
  have "int (length out) \<le> sint (ftop + FLAT_STACK_SIZE - 4)" unfolding u using t(1) by linarith
  then have k: "take (length out) img = out" unfolding img by (rule write_at_keeps)
  from e assms(5) obtain f1 o1 f2 o2 where s: "each (flat_section inp) pre (0, []) = Inr (f1, o1)" "flat_section inp sc (f1, o1) = Inr (f2, o2)"
    "each (flat_section inp) post (f2, o2) = Inr (ftop, out)" by (auto simp add: each_append bindT_Inr)
  obtain bs1 where o1: "o1 = bs1" "length bs1 = sizes pre" using flat_each_out [OF s(1)] by auto
  obtain bs2 where out: "out = o2 @ bs2" using flat_each_out [OF s(3)] by auto
  let ?bs = "slice (unat (sectionPtr sc)) (unat (sh_size sc)) inp"
  have o2: "o2 = bs1 @ ?bs" "length ?bs = unat (sh_size sc)" using flat_section_out [OF s(2)] assms(6) o1 by (simp_all add: sizes_def)
  have a: "unat (physAddr sc) = sizes pre" by (rule assms(3) [OF assms(5,6)])
  have "slice (sizes pre) (unat (sh_size sc)) img = slice (sizes pre) (unat (sh_size sc)) (take (length out) img)"
    using o1(2) o2 out by (simp add: slice_def drop_take min_def)
  also have "\<dots> = ?bs" using o1(2) o2 out unfolding k by (simp add: slice_def)
  finally show ?thesis by (simp add: a)
qed

subsection \<open>A concrete object file\<close>

definition demo_section :: "string \<Rightarrow> u32 \<Rightarrow> u32 \<Rightarrow> u32 \<Rightarrow> u8 list" where
  "demo_section name addr n ptr = take 8 (ascii name @ replicate 8 0) @ bytes32 addr @ bytes32 addr @ bytes32 n @ bytes32 ptr @ replicate 16 0"

text \<open>Two bytes of code at 0 and one of data at 2.\<close>

definition demo_coff :: "u8 list" where
  "demo_coff = bytes16 COFF_MIPSELMAGIC @ bytes16 2 @ replicate 16 0 @ bytes16 COFF_OMAGIC @ replicate 54 0 @
     demo_section ''.text'' 0 2 156 @ demo_section ''.data'' 2 1 158 @ [17, 34, 51]"

lemma demo_coff_load: "(case CoffReaderLoad False demo_coff of Inr d \<Rightarrow> map (\<lambda>sc. (CoffSectionName sc, physAddr sc, sh_size sc, sectionPtr sc)) (sections d) | Inl _ \<Rightarrow> []) =
    [([46, 116, 101, 120, 116], 0, 2, 156), ([46, 100, 97, 116, 97], 2, 1, 158)]"
  by code_simp

lemma demo_noff: "coff2noff False demo_head demo_coff = Inr (bytes_of_words False [NOFF_MAGIC, 0, 40, 2, 2, 42, 1, 129, 0, 0] @ [17, 34, 51])"
  by code_simp

lemma demo_flat: "(case coff2flat False demo_coff of Inr img \<Rightarrow> length img = 1027 \<and> take 4 img = [17, 34, 51, 0] | Inl _ \<Rightarrow> False)"
  by code_simp

lemma demo_sections:
  obtains cd t s where "CoffReaderLoad False demo_coff = Inr cd" and "sections cd = [t, s]"
    and "CoffSectionName t = [46, 116, 101, 120, 116]" "physAddr t = 0" "sh_size t = 2" "sectionPtr t = 156"
    and "CoffSectionName s = [46, 100, 97, 116, 97]" "physAddr s = 2" "sh_size s = 1" "sectionPtr s = 158"
proof (cases "CoffReaderLoad False demo_coff")
  case (Inr cd)
  with demo_coff_load that show thesis by (auto simp add: map_eq_Cons_conv)
qed (use demo_coff_load in simp)

definition demo_prog :: OpenFile where
  "demo_prog = \<lparr>hdr = \<lparr>numBytes = 43, numSectors = 1, dataSectors = 5 # replicate 29 0\<rparr>, seekPosition = 0\<rparr>"

lemma demo_prog_ok: "hdr_ok (hdr demo_prog)"
  by (simp add: hdr_ok_def demo_prog_def file_sizes DivRoundUp_def)

lemma demo_prog_file:
  assumes "length img = 43"
  obtains d where "disk_ok d" and "file_bytes d (hdr demo_prog) = img"
proof -
  have l: "length (file_bytes demo_disk (hdr demo_prog)) = 43" by (simp add: file_bytes_def demo_prog_def)
  obtain d where "disk_ok d" "file_bytes d (hdr demo_prog) = blit (file_bytes demo_disk (hdr demo_prog)) 0 img"
    using WriteAt_ok [of demo_prog demo_disk 43 0 img "\<lambda>_. 0"] demo_disk_ok demo_prog_ok assms by (auto simp add: demo_prog_def)
  moreover have "blit (file_bytes demo_disk (hdr demo_prog)) 0 img = img" using l assms by (simp add: blit_def)
  ultimately show thesis using that by simp
qed

theorem coff2noff_loads_witness:
  "\<exists>d sp d' b' mem'. coff2noff False demo_head demo_coff = Inr (file_bytes d (hdr demo_prog)) \<and>
     AddressSpace_new (OpenFile_ReadAt demo_prog) False (replicate 40 0) d demo_pages (replicate 16384 0) = Inr (sp, d', b', mem') \<and>
     vmem (space_mmu sp mem') 1 = Some 34"
proof -
  obtain cd t s where r: "CoffReaderLoad False demo_coff = Inr cd" "sections cd = [t, s]"
    and t: "CoffSectionName t = [46, 116, 101, 120, 116]" "physAddr t = 0" "sh_size t = 2" "sectionPtr t = 156"
    and s: "CoffSectionName s = [46, 100, 97, 116, 97]" "physAddr s = 2" "sh_size s = 1" "sectionPtr s = 158"
    by (rule demo_sections)
  define img where "img = bytes_of_words False [NOFF_MAGIC, 0, 40, 2, 2, 42, 1, 129, 0, 0] @ [17, 34, 51]"
  have "length img = 43" by (simp add: img_def)
  then obtain d where d: "disk_ok d" "file_bytes d (hdr demo_prog) = img" by (rule demo_prog_file)
  have f: "filter is_text (sections cd) = [t]" "filter is_data (sections cd) = [s]"
    using r(2) t s by (auto simp add: is_text_def is_data_def CoffSectionEmpty_def coff_fields ascii_names)
  have h: "space_pages (header_of (words_of_bytes False (take 40 img))) = 9" unfolding img_def by code_simp
  have "demo_coff ! 157 = 34" by code_simp
  have "coff2noff False demo_head demo_coff = Inr (file_bytes d (hdr demo_prog))" using demo_noff d(2) img_def by simp
  from coff2noff_loads [OF r(1) this f refl _ _ demo_prog_ok d(1) demo_pages_ok(1,2), of "replicate 16384 0" "replicate 40 0"]
    t s h d(2) \<open>demo_coff ! 157 = 34\<close> demo_pages_ok(3) \<open>coff2noff False demo_head demo_coff = _\<close>
  show ?thesis by (fastforce dest: spec [of _ 1])
qed

theorem coff2flat_places_witness:
  "\<exists>cd sc img. CoffReaderLoad False demo_coff = Inr cd \<and> sc \<in> set (sections cd) \<and> coff2flat False demo_coff = Inr img \<and> slice 2 1 img = [51]"
proof -
  obtain cd t s where r: "CoffReaderLoad False demo_coff = Inr cd" "sections cd = [t, s]"
    and t: "CoffSectionName t = [46, 116, 101, 120, 116]" "physAddr t = 0" "sh_size t = 2" "sectionPtr t = 156"
    and s: "CoffSectionName s = [46, 100, 97, 116, 97]" "physAddr s = 2" "sh_size s = 1" "sectionPtr s = 158"
    by (rule demo_sections)
  obtain img where img: "coff2flat False demo_coff = Inr img" using demo_flat by (auto split: sum.splits)
  have i: "in_flat t" "in_flat s" using t s by (simp_all add: in_flat_def ascii_names)
  have "unat (physAddr sc) = sizes pre" if "sections cd = pre @ sc # post" for pre sc post
    using that r(2) t s i by (cases pre; cases "tl pre") (auto simp add: sizes_def Cons_eq_append_conv)
  moreover have "\<forall>sc\<in>set (sections cd). unat (physAddr sc) + unat (sh_size sc) < 2147482624" using r(2) t s by simp
  ultimately have "slice (unat (physAddr s)) (unat (sh_size s)) img = slice (unat (sectionPtr s)) (unat (sh_size s)) demo_coff"
    using coff2flat_places [OF r(1) img, of "[t]" s "[]"] r(2) i(2) by simp
  moreover have "slice 158 1 demo_coff = [51]" by code_simp
  ultimately have "slice 2 1 img = [51]" using s by simp
  with r img show ?thesis by (intro exI [of _ cd] exI [of _ s] exI [of _ img]) simp
qed

end
