(* ===== verification/Bin_Disasm.thy ===== *)
theory Bin_Disasm
  imports Machine_Cpu Bin_Coff
begin

text \<open>
  The disassembler that \<open>bin/out.c\<close> uses to show an object file: \<open>bin/encode.h\<close>, \<open>instr.h\<close>, \<open>opstrings.c\<close>, \<open>d.c\<close>
  and the printing part of \<open>out.c\<close>.

  \<open>DumpAscii\<close> gives the texts of its calls of \<open>printf\<close> in order; \<open>out.c\<close> replaces this \<open>printf\<close> by \<open>MyPrintf\<close>, which
  keeps the column of the output. The symbol table of the object file has third-party types and is
  an argument: the names of the external symbols.
\<close>

section \<open>Operation codes\<close>

datatype normal_op =
    I_SPECIAL | I_BCOND | I_J | I_JAL | I_BEQ | I_BNE | I_BLEZ | I_BGTZ | I_ADDI | I_ADDIU | I_SLTI | I_SLTIU
    | I_ANDI | I_ORI | I_XORI | I_LUI | I_COP0 | I_COP1 | I_COP2 | I_COP3 | I_LB | I_LH | I_LWL | I_LW
    | I_LBU | I_LHU | I_LWR | I_SB | I_SH | I_SWL | I_SW | I_SWR | I_LWC0 | I_LWC1 | I_LWC2 | I_LWC3 | I_SWC0
    | I_SWC1 | I_SWC2 | I_SWC3

datatype special_op =
    I_SLL | I_SRL | I_SRA | I_SLLV | I_SRLV | I_SRAV | I_JR | I_JALR | I_SYSCALL | I_BREAK | I_MFHI | I_MTHI
    | I_MFLO | I_MTLO | I_MULT | I_MULTU | I_DIV | I_DIVU | I_ADD | I_ADDU | I_SUB | I_SUBU | I_AND | I_OR
    | I_XOR | I_NOR | I_SLT | I_SLTU

datatype bcond_op =
    I_BLTZ | I_BGEZ | I_BLTZAL | I_BGEZAL

text \<open>The numbers that the macros give them.\<close>

fun normal_num :: "normal_op \<Rightarrow> nat" where
  "normal_num I_SPECIAL = 0"
| "normal_num I_BCOND = 1"
| "normal_num I_J = 2"
| "normal_num I_JAL = 3"
| "normal_num I_BEQ = 4"
| "normal_num I_BNE = 5"
| "normal_num I_BLEZ = 6"
| "normal_num I_BGTZ = 7"
| "normal_num I_ADDI = 8"
| "normal_num I_ADDIU = 9"
| "normal_num I_SLTI = 10"
| "normal_num I_SLTIU = 11"
| "normal_num I_ANDI = 12"
| "normal_num I_ORI = 13"
| "normal_num I_XORI = 14"
| "normal_num I_LUI = 15"
| "normal_num I_COP0 = 16"
| "normal_num I_COP1 = 17"
| "normal_num I_COP2 = 18"
| "normal_num I_COP3 = 19"
| "normal_num I_LB = 32"
| "normal_num I_LH = 33"
| "normal_num I_LWL = 34"
| "normal_num I_LW = 35"
| "normal_num I_LBU = 36"
| "normal_num I_LHU = 37"
| "normal_num I_LWR = 38"
| "normal_num I_SB = 40"
| "normal_num I_SH = 41"
| "normal_num I_SWL = 42"
| "normal_num I_SW = 43"
| "normal_num I_SWR = 46"
| "normal_num I_LWC0 = 48"
| "normal_num I_LWC1 = 49"
| "normal_num I_LWC2 = 50"
| "normal_num I_LWC3 = 51"
| "normal_num I_SWC0 = 56"
| "normal_num I_SWC1 = 57"
| "normal_num I_SWC2 = 58"
| "normal_num I_SWC3 = 59"

fun special_num :: "special_op \<Rightarrow> nat" where
  "special_num I_SLL = 0"
| "special_num I_SRL = 2"
| "special_num I_SRA = 3"
| "special_num I_SLLV = 4"
| "special_num I_SRLV = 6"
| "special_num I_SRAV = 7"
| "special_num I_JR = 8"
| "special_num I_JALR = 9"
| "special_num I_SYSCALL = 12"
| "special_num I_BREAK = 13"
| "special_num I_MFHI = 16"
| "special_num I_MTHI = 17"
| "special_num I_MFLO = 18"
| "special_num I_MTLO = 19"
| "special_num I_MULT = 24"
| "special_num I_MULTU = 25"
| "special_num I_DIV = 26"
| "special_num I_DIVU = 27"
| "special_num I_ADD = 32"
| "special_num I_ADDU = 33"
| "special_num I_SUB = 34"
| "special_num I_SUBU = 35"
| "special_num I_AND = 36"
| "special_num I_OR = 37"
| "special_num I_XOR = 38"
| "special_num I_NOR = 39"
| "special_num I_SLT = 42"
| "special_num I_SLTU = 43"

fun bcond_num :: "bcond_op \<Rightarrow> nat" where
  "bcond_num I_BLTZ = 0"
| "bcond_num I_BGEZ = 1"
| "bcond_num I_BLTZAL = 16"
| "bcond_num I_BGEZAL = 17"

text \<open>The labels of the \<open>switch\<close> statements.\<close>

definition all_normal :: "normal_op list" where
  "all_normal = [
    I_SPECIAL, I_BCOND, I_J, I_JAL, I_BEQ, I_BNE, I_BLEZ, I_BGTZ, I_ADDI, I_ADDIU, I_SLTI, I_SLTIU, I_ANDI, 
    I_ORI, I_XORI, I_LUI, I_COP0, I_COP1, I_COP2, I_COP3, I_LB, I_LH, I_LWL, I_LW, I_LBU, I_LHU, I_LWR, 
    I_SB, I_SH, I_SWL, I_SW, I_SWR, I_LWC0, I_LWC1, I_LWC2, I_LWC3, I_SWC0, I_SWC1, I_SWC2, I_SWC3]"

definition all_special :: "special_op list" where
  "all_special = [
    I_SLL, I_SRL, I_SRA, I_SLLV, I_SRLV, I_SRAV, I_JR, I_JALR, I_SYSCALL, I_BREAK, I_MFHI, I_MTHI, I_MFLO, 
    I_MTLO, I_MULT, I_MULTU, I_DIV, I_DIVU, I_ADD, I_ADDU, I_SUB, I_SUBU, I_AND, I_OR, I_XOR, I_NOR, 
    I_SLT, I_SLTU]"

definition all_bcond :: "bcond_op list" where
  "all_bcond = [
    I_BLTZ, I_BGEZ, I_BLTZAL, I_BGEZAL]"

definition NORMAL_OPS :: "string list" where
  "NORMAL_OPS = [
     ''special'', ''bcond'', ''j'', ''jal'', ''beq'', ''bne'', ''blez'', ''bgtz'',
     ''addi'', ''addiu'', ''slti'', ''sltiu'', ''andi'', ''ori'', ''xori'', ''lui'',
     ''cop0'', ''cop1'', ''cop2'', ''cop3'', ''024'', ''025'', ''026'', ''027'',
     ''030'', ''031'', ''032'', ''033'', ''034'', ''035'', ''036'', ''037'',
     ''lb'', ''lh'', ''lwl'', ''lw'', ''lbu'', ''lhu'', ''lwr'', ''047'',
     ''sb'', ''sh'', ''swl'', ''sw'', ''054'', ''055'', ''swr'', ''057'',
     ''lwc0'', ''lwc1'', ''lwc2'', ''lwc3'', ''064'', ''065'', ''066'', ''067'',
     ''swc0'', ''swc1'', ''swc2'', ''swc3'', ''074'', ''075'', ''076'', ''077'']"

definition SPECIAL_OPS :: "string list" where
  "SPECIAL_OPS = [
     ''sll'', ''001'', ''srl'', ''sra'', ''sllv'', ''005'', ''srlv'', ''srav'',
     ''jr'', ''jalr'', ''012'', ''013'', ''syscall'', ''break'', ''016'', ''017'',
     ''mfhi'', ''mthi'', ''mflo'', ''mtlo'', ''024'', ''025'', ''026'', ''027'',
     ''mult'', ''multu'', ''div'', ''divu'', ''034'', ''035'', ''036'', ''037'',
     ''add'', ''addu'', ''sub'', ''subu'', ''and'', ''or'', ''xor'', ''nor'',
     ''050'', ''051'', ''slt'', ''sltu'', ''054'', ''055'', ''056'', ''057'',
     ''060'', ''061'', ''062'', ''063'', ''064'', ''065'', ''066'', ''067'',
     ''070'', ''071'', ''072'', ''073'', ''074'', ''075'', ''076'', ''077'']"

definition REG_STRINGS :: "string list" where
  "REG_STRINGS = [
     ''0'', ''r1'', ''r2'', ''r3'', ''r4'', ''r5'', ''r6'', ''r7'',
     ''r8'', ''r9'', ''r10'', ''r11'', ''r12'', ''r13'', ''r14'', ''r15'',
     ''r16'', ''r17'', ''r18'', ''r19'', ''r20'', ''r21'', ''r22'', ''r23'',
     ''r24'', ''r25'', ''r26'', ''r27'', ''gp'', ''sp'', ''r30'', ''r31'']"

section \<open>Texts\<close>

text \<open>The digits of a number to the base of \<open>length ds\<close>: \<open>%u\<close>, \<open>%d\<close>, \<open>%x\<close> and \<open>%X\<close>.\<close>

fun numeral_text :: "string \<Rightarrow> nat \<Rightarrow> string" where
  "numeral_text ds n =
     (if n < length ds \<or> length ds < 2 then [] else numeral_text ds (n div length ds)) @ [ds ! (n mod length ds)]"

declare numeral_text.simps [simp del]

definition dec :: "u32 \<Rightarrow> string" where "dec v = numeral_text ''0123456789'' (unat v)"
definition hexX :: "u32 \<Rightarrow> string" where "hexX v = numeral_text ''0123456789ABCDEF'' (unat v)"
definition hexx :: "u32 \<Rightarrow> string" where "hexx v = numeral_text ''0123456789abcdef'' (unat v)"
definition pad8 :: "string \<Rightarrow> string" where "pad8 s = replicate (8 - length s) CHR 0x30 @ s"

definition signed_dec :: "u32 \<Rightarrow> string" where
  "signed_dec v = (if sint v < 0 then CHR 0x2D # dec (- v) else dec v)"

definition tab :: string where "tab = [CHR 0x09]"
definition newline :: string where "newline = [CHR 0x0A]"

fun commas :: "string list \<Rightarrow> string" where
  "commas [] = []"
| "commas [a] = a"
| "commas (a # b # as) = a @ '', '' @ commas (b # as)"

section \<open>The fields of an instruction\<close>

definition d_rd :: "u32 \<Rightarrow> nat" where "d_rd i = unat (drop_bit 11 i AND 0x1F)"
definition d_rt :: "u32 \<Rightarrow> nat" where "d_rt i = unat (drop_bit 16 i AND 0x1F)"
definition d_rs :: "u32 \<Rightarrow> nat" where "d_rs i = unat (drop_bit 21 i AND 0x1F)"
definition shamt :: "u32 \<Rightarrow> u32" where "shamt i = drop_bit 6 i AND 0x1F"

definition immed :: "u32 \<Rightarrow> u32" where
  "immed i = (if i AND 0x8000 \<noteq> 0 then i OR (- 0x8000) else i AND 0x7FFF)"

definition off26 :: "u32 \<Rightarrow> u32" where "off26 i = push_bit 2 (i AND (push_bit 26 1 - 1))"
definition top4 :: "u32 \<Rightarrow> u32" where "top4 i = i AND NOT (push_bit 28 1 - 1)"
definition off16 :: "u32 \<Rightarrow> u32" where "off16 i = push_bit 2 (immed i)"

text \<open>The name of a register; the fields have five bits.\<close>

definition R :: "nat \<Rightarrow> string" where "R i = REG_STRINGS ! i"

section \<open>The disassembler\<close>

text \<open>The operands that the two \<open>switch\<close> statements print, separated by commas.\<close>

fun special_args :: "special_op \<Rightarrow> u32 \<Rightarrow> string list" where
  "special_args I_SLL i = [R (d_rd i), R (d_rt i), ''0x'' @ hexX (shamt i)]"
| "special_args I_SRL i = [R (d_rd i), R (d_rt i), ''0x'' @ hexX (shamt i)]"
| "special_args I_SRA i = [R (d_rd i), R (d_rt i), ''0x'' @ hexX (shamt i)]"
| "special_args I_SLLV i = [R (d_rd i), R (d_rt i), R (d_rs i)]"
| "special_args I_SRLV i = [R (d_rd i), R (d_rt i), R (d_rs i)]"
| "special_args I_SRAV i = [R (d_rd i), R (d_rt i), R (d_rs i)]"
| "special_args I_JR i = [R (d_rs i)]"
| "special_args I_JALR i = [R (d_rs i)]"
| "special_args I_MFLO i = [R (d_rs i)]"
| "special_args I_MTLO i = [R (d_rs i)]"
| "special_args I_SYSCALL i = []"
| "special_args I_BREAK i = []"
| "special_args I_MFHI i = [R (d_rd i)]"
| "special_args I_MTHI i = [R (d_rd i)]"
| "special_args I_MULT i = [R (d_rs i), R (d_rt i)]"
| "special_args I_MULTU i = [R (d_rs i), R (d_rt i)]"
| "special_args I_DIV i = [R (d_rs i), R (d_rt i)]"
| "special_args I_DIVU i = [R (d_rs i), R (d_rt i)]"
| "special_args I_ADD i = [R (d_rd i), R (d_rs i), R (d_rt i)]"
| "special_args I_ADDU i = [R (d_rd i), R (d_rs i), R (d_rt i)]"
| "special_args I_SUB i = [R (d_rd i), R (d_rs i), R (d_rt i)]"
| "special_args I_SUBU i = [R (d_rd i), R (d_rs i), R (d_rt i)]"
| "special_args I_AND i = [R (d_rd i), R (d_rs i), R (d_rt i)]"
| "special_args I_OR i = [R (d_rd i), R (d_rs i), R (d_rt i)]"
| "special_args I_XOR i = [R (d_rd i), R (d_rs i), R (d_rt i)]"
| "special_args I_NOR i = [R (d_rd i), R (d_rs i), R (d_rt i)]"
| "special_args I_SLT i = [R (d_rd i), R (d_rs i), R (d_rt i)]"
| "special_args I_SLTU i = [R (d_rd i), R (d_rs i), R (d_rt i)]"

definition target_arg :: "u32 \<Rightarrow> u32 \<Rightarrow> string list" where
  "target_arg i pc = [pad8 (hexX (top4 pc OR off26 i))]"

definition branch_args :: "u32 \<Rightarrow> u32 \<Rightarrow> string list" where
  "branch_args i pc = [R (d_rt i), R (d_rs i), pad8 (hexX (off16 i + pc + 4))]"

definition imm_args :: "u32 \<Rightarrow> string list" where
  "imm_args i = [R (d_rt i), R (d_rs i), ''0x'' @ hexX (immed i)]"

definition mem_args :: "u32 \<Rightarrow> string list" where
  "mem_args i = [R (d_rt i), ''0x'' @ hexX (immed i) @ ''('' @ R (d_rs i) @ '')'']"

definition normal_args :: "normal_op \<Rightarrow> u32 \<Rightarrow> u32 \<Rightarrow> string list" where
  "normal_args n i pc =
    (if n \<in> {I_J, I_JAL} then target_arg i pc
     else if n \<in> {I_BEQ, I_BNE} then branch_args i pc
     else if n \<in> {I_ADDI, I_ADDIU, I_SLTI, I_SLTIU, I_ANDI, I_ORI, I_XORI} then imm_args i
     else if n = I_LUI then [R (d_rt i), ''0x'' @ hexX (immed i)]
     else if n \<in> {I_COP0, I_COP1, I_COP2, I_COP3} then []
     else if n \<in> {I_LB, I_LH, I_LWL, I_LW, I_LBU, I_LHU, I_LWR, I_SB, I_SH, I_SWL, I_SW, I_SWR,
                  I_LWC0, I_LWC1, I_LWC2, I_LWC3, I_SWC0, I_SWC1, I_SWC2, I_SWC3} then mem_args i
     else [])"

definition bcond_name :: "u32 \<Rightarrow> string" where
  "bcond_name i = (case List.find (\<lambda>b. bcond_num b = d_rt i) all_bcond of
      Some I_BLTZ \<Rightarrow> ''bltz'' | Some I_BGEZ \<Rightarrow> ''bgez'' | Some I_BLTZAL \<Rightarrow> ''bltzal'' | Some I_BGEZAL \<Rightarrow> ''bgezal''
    | None \<Rightarrow> ''BCOND'')"

definition prints :: "string list \<Rightarrow> string list" where
  "prints args = (if args = [] then [] else [commas args])"

definition DumpAscii :: "u32 \<Rightarrow> u32 \<Rightarrow> string list" where
  "DumpAscii i pc =
    [pad8 (hexX pc) @ '': '' @ pad8 (hexX i) @ ''  '', tab] @
    (let opcode = unat (drop_bit 26 i) in
     if i = 0 then [''nop'']
     else if opcode = normal_num I_SPECIAL then
       (let opcode = unat (i AND 0x3F) in
        (SPECIAL_OPS ! opcode @ tab) #
        (case List.find (\<lambda>s. special_num s = opcode) all_special of None \<Rightarrow> [] | Some s \<Rightarrow> prints (special_args s i)))
     else if opcode = normal_num I_BCOND then
       [bcond_name i, tab @ R (d_rs i) @ '', '' @ pad8 (hexx (off16 i + pc + 4))]
     else
       (NORMAL_OPS ! opcode @ tab) #
       (case List.find (\<lambda>n. normal_num n = opcode) all_normal of None \<Rightarrow> [] | Some n \<Rightarrow> prints (normal_args n i pc)))"

section \<open>Printing of sections\<close>

text \<open>The output: the column, an unsigned counter, and the text so far.\<close>

type_synonym screen = "u32 \<times> string"

definition advance :: "u32 \<Rightarrow> char \<Rightarrow> u32" where
  "advance col c = (if c = CHR 0x0A then 1 else if c = CHR 0x09 then ((col + 7) AND NOT 7) + 1 else col + 1)"

definition MyPrintf :: "string \<Rightarrow> screen \<Rightarrow> screen" where
  "MyPrintf s ct = (let buffer = take 99 s in (foldl advance (fst ct) buffer, snd ct @ buffer))"

function MyTab :: "u32 \<Rightarrow> screen \<Rightarrow> screen" where
  "MyTab n ct = (if fst ct < n then MyTab n (fst ct + 1, snd ct @ '' '') else ct)"
  by pat_completeness auto
termination
proof (relation "measure (\<lambda>(n, ct). unat n - unat (fst ct))")
  fix n :: u32 and ct :: screen
  assume "fst ct < n"
  moreover have "unat n < 2 ^ LENGTH(32)" by (rule unsigned_less)
  ultimately have "unat (fst ct) < unat n" "unat (fst ct) + 1 < 2 ^ 32" by (simp_all add: word_less_nat_alt)
  then have "unat (fst ct) < unat n" "unat (fst ct + 1) = unat (fst ct) + 1" by (simp_all add: unat_word_ariths)
  then show "((n, fst ct + 1, snd ct @ '' ''), n, ct) \<in> measure (\<lambda>(n, ct). unat n - unat (fst ct))" by simp
qed simp

declare MyTab.simps [simp del]

record coffReloc =
  re_virtAddr :: u32
  re_symbolIndex :: u32
  re_type :: u16
  re_extern :: bool

record section_data =
  sd_data :: "u32 list"
  sd_reloc :: "coffReloc list"

definition MAX_SYMBOLS :: u32 where "MAX_SYMBOLS = 300"

definition SECTION_NAME :: "string list" where
  "SECTION_NAME = [''(null)'', ''.text'', ''.rdata'', ''.data'', ''.sdata'', ''.sbss'', ''.bss'', ''.init'', ''.lit8'', ''.lit4'']"

definition RELOC_TYPE :: "string list" where
  "RELOC_TYPE = [''abs'', ''16'', ''32'', ''26'', ''hi16'', ''lo16'', ''gpdata'', ''gplit'']"

text \<open>\<open>PrintReloc\<close> stands before \<open>printf\<close> is replaced: apart from \<open>MyTab\<close> it does not move the column.\<close>

definition PrintReloc :: "(u32 \<Rightarrow> string) \<Rightarrow> u32 \<Rightarrow> coffReloc list \<Rightarrow> screen \<Rightarrow> screen res" where
  "PrintReloc symbol vaddr relocs ct =
    (case List.find (\<lambda>rp. vaddr = re_virtAddr rp) relocs of
       None \<Rightarrow> Inr (fst ct, snd ct @ newline)
     | Some rp \<Rightarrow>
        (let ct = MyTab 57 ct in
         bindR (if re_extern rp then
                  (if re_symbolIndex rp \<ge> MAX_SYMBOLS then Inr (''sym $'' @ dec (re_symbolIndex rp))
                   else Inr (CHR 0x22 # symbol (re_symbolIndex rp) @ [CHR 0x22]))
                else aget SECTION_NAME (unat (re_symbolIndex rp))) (\<lambda>name.
         bindR (aget RELOC_TYPE (unat (re_type rp))) (\<lambda>ty.
         Inr (fst ct, snd ct @ name @ '' '' @ ty @ newline)))))"

definition printable :: "u8 \<Rightarrow> string" where
  "printable c = (if 32 \<le> c \<and> c \<le> 126 then [char_of (unat c)] else ''.'')"

definition dump_word :: "bool \<Rightarrow> bool \<Rightarrow> u32 \<Rightarrow> u32 \<Rightarrow> string list" where
  "dump_word be text_section word pc =
    (if text_section then DumpAscii word pc
     else [pad8 (hexx pc) @ '': '' @ pad8 (hexx word) @ ''  ''] @
       map printable (if be then [0, 0, 0, 0] else bytes32 word) @ [tab @ signed_dec word])"

fun PrintSection_loop ::
  "bool \<Rightarrow> (u32 \<Rightarrow> string) \<Rightarrow> bool \<Rightarrow> coffReloc list \<Rightarrow> u32 list \<Rightarrow> u32 \<Rightarrow> screen \<Rightarrow> screen res" where
  "PrintSection_loop be symbol text_section relocs [] pc ct = Inr ct"
| "PrintSection_loop be symbol text_section relocs (word # ws) pc ct =
     bindR (PrintReloc symbol pc relocs (fold MyPrintf (dump_word be text_section word pc) ct)) (\<lambda>ct.
     PrintSection_loop be symbol text_section relocs ws (pc + 4) ct)"

definition PrintSection :: "bool \<Rightarrow> (u32 \<Rightarrow> string) \<Rightarrow> coffSectionHeader \<Rightarrow> section_data \<Rightarrow> screen \<Rightarrow> screen res" where
  "PrintSection be symbol sh sec ct =
    (let name = CoffSectionName sh in
     PrintSection_loop be symbol (take 5 name = ascii ''.text'') (sd_reloc sec) (sd_data sec) (virtAddr sh)
       (MyPrintf (''Section '' @ map (\<lambda>c. char_of (unat c)) name @ '' (size '' @ dec (sh_size sh) @ '', relocs '' @
          dec (of_nat (length (sd_reloc sec))) @ ''):'' @ newline) ct))"

section \<open>The decoder of the simulator\<close>

text \<open>An instruction as the table of names of \<open>machine/encoding.cc\<close> describes it: the name in lower case and the
  operands in the table's order, an address as offset and register.\<close>

definition lower :: "char \<Rightarrow> char" where
  "lower c = (if of_char c \<ge> (65 :: nat) \<and> of_char c \<le> (90 :: nat) then char_of (of_char c + 32 :: nat) else c)"

definition op_name :: "opcode \<Rightarrow> string" where
  "op_name op = map lower (takeWhile (\<lambda>c. c \<noteq> CHR 0x20) (fst (OP_STRINGS ! opcode_num op)))"

definition field_text :: "Instruction \<Rightarrow> RegType \<Rightarrow> string" where
  "field_text i t = (case t of RS \<Rightarrow> R (i_rs i) | RT \<Rightarrow> R (i_rt i) | RD \<Rightarrow> R (i_rd i) | EXTRA \<Rightarrow> ''0x'' @ hexX (i_extra i) | NONE \<Rightarrow> [])"

definition op_args :: "Instruction \<Rightarrow> string list" where
  "op_args i = (let ks = snd (OP_STRINGS ! opcode_num (i_opCode i)) in
     if ks = [RT, EXTRA, RS] then [field_text i RT, field_text i EXTRA @ ''('' @ field_text i RS @ '')'']
     else map (field_text i) (filter (\<lambda>t. t \<noteq> NONE) ks))"

text \<open>The operations whose operands both programs write in the same way: all but jumps and branches and the two with
  which the disassembler confuses registers.\<close>

definition same_syntax :: "opcode \<Rightarrow> bool" where
  "same_syntax op \<longleftrightarrow> op \<notin> {OP_J, OP_JAL, OP_JALR, OP_JR, OP_BEQ, OP_BNE, OP_BLEZ, OP_BGTZ, OP_BLTZ, OP_BGEZ, OP_BLTZAL,
     OP_BGEZAL, OP_MFLO, OP_MTHI, OP_RFE, OP_UNIMP, OP_RES, SPECIAL, BCOND}"

lemma drop_26: "drop_bit 26 (v :: u32) AND 0x3F = drop_bit 26 v" "unat (drop_bit 26 v) < 64"
proof -
  have m: "0x3F = (mask 6 :: u32)" by (simp add: mask_eq_exp_minus_1)
  show e: "drop_bit 26 v AND 0x3F = drop_bit 26 v"
    unfolding m by (rule bit_word_eqI) (auto simp add: bit_simps dest: bit_imp_le_length)
  show "unat (drop_bit 26 v) < 64" using and_mask_less(2) [of "drop_bit 26 v"] by (simp only: e)
qed

lemma fields [simp]:
  "d_rd v = i_rd (Instruction_Decode v)" "d_rt v = i_rt (Instruction_Decode v)" "d_rs v = i_rs (Instruction_Decode v)"
  by (simp_all add: d_rd_def d_rt_def d_rs_def Instruction_Decode_def field5_def Let_def case_prod_beta)

lemma immed_sign_extends: "immed v = scast (ucast v :: u16)"
proof -
  have h: "0x7FFF = (mask 15 :: u32)" "- 0x8000 = (NOT (mask 15) :: u32)" "0x8000 = (push_bit 15 1 :: u32)"
    by (simp_all add: mask_eq_exp_minus_1)
  have b: "v AND 0x8000 \<noteq> 0 \<longleftrightarrow> bit v 15"
    using bit15 [of v] by (simp add: and.assoc)
  have n: "15 \<le> n \<Longrightarrow> n < 16 \<Longrightarrow> n = 15" for n :: nat by simp
  show ?thesis unfolding immed_def b h(1,2)
    by (rule bit_word_eqI) (auto simp add: bit_simps min_def not_less not_le dest: n)
qed

lemma extra_fields:
  "snd (OP_TABLE ! unat (drop_bit 26 v)) = IFMT \<Longrightarrow> immed v = i_extra (Instruction_Decode v)"
  "snd (OP_TABLE ! unat (drop_bit 26 v)) = RFMT \<Longrightarrow> shamt v = i_extra (Instruction_Decode v)"
  unfolding immed_sign_extends
  by (simp_all only: Instruction_Decode_def Let_def case_prod_beta Instruction.select_convs drop_26(1)
      sign_extended [unfolded Let_def] format.case shamt_def)

lemma op_special:
  "unat (drop_bit 26 v) = 0 \<Longrightarrow> i_opCode (Instruction_Decode v) = SPECIAL_TABLE ! unat (v AND 0x3F)"
  by (simp add: Instruction_Decode_def Let_def case_prod_beta drop_26(1)) (simp add: OP_TABLE_def)

lemma op_normal:
  assumes "n = unat (drop_bit 26 v)" and "fst (OP_TABLE ! n) \<noteq> SPECIAL" and "fst (OP_TABLE ! n) \<noteq> BCOND"
  shows "i_opCode (Instruction_Decode v) = fst (OP_TABLE ! n)"
  using assms by (simp add: Instruction_Decode_def Let_def case_prod_beta drop_26(1))

text \<open>The tables agree.\<close>

lemma special_table:
  "\<forall>k \<in> set [0..<64]. same_syntax (SPECIAL_TABLE ! k) \<longrightarrow>
     (case List.find (\<lambda>s. special_num s = k) all_special of None \<Rightarrow> False | Some s \<Rightarrow> SPECIAL_OPS ! k = op_name (SPECIAL_TABLE ! k))"
  by code_simp

lemma normal_table:
  "\<forall>k \<in> set [0..<64]. same_syntax (fst (OP_TABLE ! k)) \<longrightarrow> snd (OP_TABLE ! k) = IFMT \<and>
     (case List.find (\<lambda>s. normal_num s = k) all_normal of None \<Rightarrow> False | Some s \<Rightarrow> NORMAL_OPS ! k = op_name (fst (OP_TABLE ! k)))"
  by code_simp

lemma special_operands:
  assumes "i_opCode i = SPECIAL_TABLE ! special_num s" and "same_syntax (i_opCode i)" and "i = Instruction_Decode v"
    and "shamt v = i_extra i"
  shows "special_args s v = op_args i"
  using assms(1,2,4) by (cases s) (simp_all add: op_args_def field_text_def SPECIAL_TABLE_def OP_STRINGS_def same_syntax_def assms(3))

lemma normal_operands:
  assumes "i_opCode i = fst (OP_TABLE ! normal_num s)" and "same_syntax (i_opCode i)" and "i = Instruction_Decode v"
    and "immed v = i_extra i"
  shows "normal_args s v pc = op_args i"
  using assms(1,2,4) by (cases s) (simp_all add: op_args_def field_text_def OP_TABLE_def OP_STRINGS_def same_syntax_def
      normal_args_def imm_args_def mem_args_def assms(3))

lemma normal_ops: "\<forall>n \<in> set [0..<64]. n \<noteq> 0 \<longrightarrow> n \<noteq> 1 \<longrightarrow> fst (OP_TABLE ! n) \<noteq> SPECIAL \<and> fst (OP_TABLE ! n) \<noteq> BCOND"
  by code_simp

lemma rfmt_special: "unat (drop_bit 26 v) = 0 \<Longrightarrow> snd (OP_TABLE ! unat (drop_bit 26 v)) = RFMT"
  by (simp add: OP_TABLE_def)

lemma op_bcond:
  "unat (drop_bit 26 v) = 1 \<Longrightarrow> i_opCode (Instruction_Decode v) \<in> {OP_BLTZ, OP_BGEZ, OP_BLTZAL, OP_BGEZAL, OP_UNIMP}"
  by (simp add: Instruction_Decode_def Let_def case_prod_beta drop_26(1)) (simp add: OP_TABLE_def)

lemma shown_as_decoded:
  assumes "v \<noteq> 0" and "same_syntax (i_opCode (Instruction_Decode v))"
  shows "DumpAscii v pc = [pad8 (hexX pc) @ '': '' @ pad8 (hexX v) @ ''  '', tab] @
     (op_name (i_opCode (Instruction_Decode v)) @ tab) # prints (op_args (Instruction_Decode v))"
proof (cases "unat (drop_bit 26 v) = 0")
  case True
  let ?k = "unat (v AND 0x3F)"
  note op = op_special [OF True]
  have "?k \<in> set [0..<64]" using and_mask_less(2) [of v] by simp
  with special_table assms(2) op obtain s where
    s: "List.find (\<lambda>s. special_num s = ?k) all_special = Some s" "SPECIAL_OPS ! ?k = op_name (SPECIAL_TABLE ! ?k)"
    by (fastforce split: option.splits)
  have "special_num s = ?k" using s(1) by (auto simp add: find_Some_iff)
  then have "special_args s v = op_args (Instruction_Decode v)"
    using op assms(2) extra_fields(2) [OF rfmt_special [OF True]] by (intro special_operands) simp_all
  with True s op assms(1) show ?thesis by (simp add: DumpAscii_def Let_def)
next
  case False
  let ?n = "unat (drop_bit 26 v)"
  have n1: "?n \<noteq> 1" using op_bcond [of v] assms(2) by (auto simp add: same_syntax_def)
  have n: "?n \<in> set [0..<64]" using drop_26(2) by simp
  have op: "i_opCode (Instruction_Decode v) = fst (OP_TABLE ! ?n)"
    using normal_ops n False n1 by (intro op_normal [OF refl]) blast+
  with normal_table n assms(2) obtain s where
    s: "List.find (\<lambda>s. normal_num s = ?n) all_normal = Some s" "NORMAL_OPS ! ?n = op_name (fst (OP_TABLE ! ?n))"
      "snd (OP_TABLE ! ?n) = IFMT" by (fastforce split: option.splits)
  have "normal_num s = ?n" using s(1) by (auto simp add: find_Some_iff)
  then have "normal_args s v pc = op_args (Instruction_Decode v)"
    using op assms(2) extra_fields(1) [OF s(3)] by (intro normal_operands) simp_all
  with False n1 s op assms(1) show ?thesis by (simp add: DumpAscii_def Let_def)
qed

text \<open>C36: The disassembler and the simulator's decoder agree: for every word but the null instruction and every operation
  of the simulator apart from jumps, branches, mflo and mthi, the disassembler prints the operation's name and operands
  as the decoder's tables and fields give them.\<close>

theorem disassembler_agrees:
  assumes "v \<noteq> 0" and "same_syntax (i_opCode (Instruction_Decode v))"
  shows "DumpAscii v pc = [pad8 (hexX pc) @ '': '' @ pad8 (hexX v) @ ''  '', tab] @
     (op_name (i_opCode (Instruction_Decode v)) @ tab) # prints (op_args (Instruction_Decode v))"
  by (rule shown_as_decoded [OF assms])

theorem disassembler_agrees_witness:
  "DumpAscii 0x00221820 4 = [''00000004: 00221820  '', tab, ''add'' @ tab, ''r3, r1, r2'']"
proof -
  have d: "i_opCode (Instruction_Decode 0x00221820) = OP_ADD" "op_args (Instruction_Decode 0x00221820) = [''r3'', ''r1'', ''r2'']"
    unfolding Decode_add_123 by (simp_all add: add_123_def op_args_def field_text_def OP_STRINGS_def R_def REG_STRINGS_def)
  have "hexX 4 = ''4''" "hexX 0x00221820 = ''221820''" by (simp_all add: hexX_def numeral_text.simps)
  then have "pad8 (hexX 4) = ''00000004''" "pad8 (hexX 0x00221820) = ''00221820''" by (simp_all add: pad8_def numeral_eq_Suc)
  moreover have "op_name OP_ADD = ''add''" by code_simp
  ultimately show ?thesis
    using disassembler_agrees [of "0x00221820" 4] d by (simp add: same_syntax_def prints_def)
qed

text \<open>The registers of mflo and mthi are the wrong ones.\<close>

lemma mflo_mthi_confused:
  "i_rd (Instruction_Decode 0x1012) = 2" "special_args I_MFLO 0x1012 = [''0'']"
  "i_rs (Instruction_Decode 0x400011) = 2" "special_args I_MTHI 0x400011 = [''0'']"
  by code_simp+

section \<open>Targets of branches and jumps\<close>

lemma off16_extra: "snd (OP_TABLE ! unat (drop_bit 26 v)) = IFMT \<Longrightarrow> off16 v = IndexToAddr (i_extra (Instruction_Decode v))"
  using extra_fields(1) [of v] by (simp add: off16_def IndexToAddr_def)

lemma branch_tables:
  "\<forall>k \<in> set [0..<64]. SPECIAL_TABLE ! k \<notin> {OP_BEQ, OP_BNE, OP_BLTZ, OP_BGEZ, OP_BLTZAL, OP_BGEZAL}"
  "\<forall>n \<in> set [0..<64]. fst (OP_TABLE ! n) \<in> {OP_BEQ, OP_BNE, OP_BLTZ, OP_BGEZ, OP_BLTZAL, OP_BGEZAL} \<longrightarrow>
     (n = 4 \<or> n = 5) \<and> fst (OP_TABLE ! n) \<in> {OP_BEQ, OP_BNE}"
  by code_simp+

lemma branch_code:
  assumes "i_opCode (Instruction_Decode v) \<in> {OP_BEQ, OP_BNE, OP_BLTZ, OP_BGEZ, OP_BLTZAL, OP_BGEZAL}"
  shows "(unat (drop_bit 26 v) = 1 \<and> i_opCode (Instruction_Decode v) \<notin> {OP_BEQ, OP_BNE}) \<or>
     (unat (drop_bit 26 v) \<in> {4, 5} \<and> i_opCode (Instruction_Decode v) \<in> {OP_BEQ, OP_BNE})"
proof -
  let ?n = "unat (drop_bit 26 v)"
  have n: "?n \<in> set [0..<64]" and k: "unat (v AND 0x3F) \<in> set [0..<64]" using drop_26(2) and_mask_less(2) [of v] by simp_all
  show ?thesis
  proof (cases "?n = 0 \<or> ?n = 1")
    case True
    have "?n \<noteq> 0" using op_special [of v] bspec [OF branch_tables(1) k] assms by metis
    with True op_bcond [of v] assms show ?thesis by auto
  next
    case False
    then have "i_opCode (Instruction_Decode v) = fst (OP_TABLE ! ?n)"
      using normal_ops n by (intro op_normal [OF refl]) blast+
    moreover from this have "(?n = 4 \<or> ?n = 5) \<and> fst (OP_TABLE ! ?n) \<in> {OP_BEQ, OP_BNE}"
      using bspec [OF branch_tables(2) n] assms by (simp only:)
    ultimately show ?thesis by (simp only:) blast
  qed
qed

lemma branch_exec:
  assumes "i_opCode i \<in> {OP_BEQ, OP_BNE, OP_BLTZ, OP_BGEZ, OP_BLTZAL, OP_BGEZAL}"
  shows "\<exists>m' taken. exec_switch run be i m = Inr (Break m' 0 0
     (if taken then registers m ! NEXT_PC_REG + IndexToAddr (i_extra i) else registers m ! NEXT_PC_REG + 4))"
  using assms by (elim insertE emptyE; simp only: exec_switch_def Let_def opcode.case; blast)

text \<open>A conditional branch that is taken goes to the address that the disassembler prints.\<close>

theorem branch_target_shown:
  assumes "i_opCode (Instruction_Decode v) \<in> {OP_BEQ, OP_BNE, OP_BLTZ, OP_BGEZ, OP_BLTZAL, OP_BGEZAL}"
    and "registers m ! NEXT_PC_REG = pc + 4"
  shows "\<exists>m' taken args t. exec_switch run be (Instruction_Decode v) m = Inr (Break m' 0 0 (if taken then t else pc + 8)) \<and>
     (last (DumpAscii v pc) = args @ pad8 (hexX t) \<or> last (DumpAscii v pc) = args @ pad8 (hexx t))"
proof -
  let ?t = "off16 v + pc + 4" and ?n = "unat (drop_bit 26 v)"
  note c = branch_code [OF assms(1)]
  have "snd (OP_TABLE ! ?n) = IFMT" using c by (auto simp add: OP_TABLE_def)
  note o16 = off16_extra [OF this]
  have "pc + 4 + IndexToAddr (i_extra (Instruction_Decode v)) = ?t" by (simp add: o16 add.commute add.left_commute)
  moreover have "pc + 4 + 4 = pc + 8" by simp
  ultimately have "\<exists>m' taken. exec_switch run be (Instruction_Decode v) m = Inr (Break m' 0 0 (if taken then ?t else pc + 8))"
    using branch_exec [OF assms(1), of run be m] unfolding assms(2) by (simp only:)
  moreover have v: "v \<noteq> 0" using c by auto
  have "\<exists>args. last (DumpAscii v pc) = args @ pad8 (hexX ?t) \<or> last (DumpAscii v pc) = args @ pad8 (hexx ?t)"
  proof (cases "?n = 1")
    case True
    with v show ?thesis by (auto simp add: DumpAscii_def Let_def intro!: exI [of _ "tab @ R (d_rs v) @ '', ''"])
  next
    case False
    with c have n: "?n = 4 \<or> ?n = 5" by auto
    have f: "List.find (\<lambda>n. normal_num n = 4) all_normal = Some I_BEQ" "List.find (\<lambda>n. normal_num n = 5) all_normal = Some I_BNE"
      by code_simp+
    from n have "last (DumpAscii v pc) = R (d_rt v) @ '', '' @ R (d_rs v) @ '', '' @ pad8 (hexX ?t)"
      by (elim disjE; simp only: DumpAscii_def Let_def f option.case)
         (simp_all add: v prints_def normal_args_def branch_args_def)
    then show ?thesis by (auto intro!: exI [of _ "R (d_rt v) @ '', '' @ R (d_rs v) @ '', ''"])
  qed
  ultimately show ?thesis by blast
qed

text \<open>Jumps keep the upper bits of the address behind the delay slot, the disassembler those of the jump itself.\<close>

lemma top4_mask: "x AND 0xF0000000 = top4 x"
proof -
  have "NOT (push_bit 28 1 - 1) = (0xF0000000 :: u32)" by simp
  then show ?thesis by (simp only: top4_def)
qed

lemma jump_target:
  assumes "i_opCode (Instruction_Decode v) = OP_J" and "registers m ! NEXT_PC_REG = pc + 4"
  shows "exec_switch run be (Instruction_Decode v) m = Inr (Break m 0 0 (top4 (pc + 8) OR IndexToAddr (i_extra (Instruction_Decode v))))"
  using assms by (simp only: exec_switch_def Let_def opcode.case top4_mask add.assoc) simp

lemma jump_shown_elsewhere: "top4 0x0FFFFFF8 \<noteq> top4 (0x0FFFFFF8 + 8)"
  by (simp add: top4_def)

section \<open>Columns\<close>

lemma MyTab_column: "MyTab n (c, t) = (if c < n then (n, t @ replicate (unat n - unat c) CHR 0x20) else (c, t))"
proof (induction "unat n - unat c" arbitrary: c t)
  case 0
  then show ?case by (subst MyTab.simps) (simp add: word_less_nat_alt)
next
  case (Suc k)
  then have l: "c < n" "unat c < unat n" by (simp_all add: word_less_nat_alt)
  have "unat n < 2 ^ LENGTH(32)" by (rule unsigned_less)
  with l have c': "unat (c + 1) = unat c + 1" by (simp add: unat_word_ariths)
  have k: "unat n - unat c = Suc (unat n - unat (c + 1))" using l(2) c' by simp
  have "MyTab n (c + 1, t @ '' '') = (n, (t @ '' '') @ replicate (unat n - unat (c + 1)) CHR 0x20)"
  proof (cases "c + 1 < n")
    case False
    then have "unat n = unat (c + 1)" using l c' by (simp add: word_less_nat_alt)
    then have "n = c + 1" by (simp only: word_unat_eq_iff)
    then show ?thesis by (subst MyTab.simps) simp
  qed (use Suc.hyps(1) [of "c + 1" "t @ '' ''"] Suc.hyps(2) k in simp)
  with l(1) show ?case unfolding k by (subst MyTab.simps) simp
qed

text \<open>\<open>PrintReloc\<close> ends the line without setting the column back: on the third line of a section of code the
  column has passed 57, and the relocation follows the instruction without a space.\<close>

lemma column_not_reset:
  "PrintReloc symbol 8 [\<lparr>re_virtAddr = 8, re_symbolIndex = 1, re_type = 1, re_extern = False\<rparr>] (76, t) = Inr (76, t @ ''.text 16'' @ newline)"
  "PrintReloc symbol 4 [] (c, t) = Inr (c, t @ newline)"
  by (simp_all add: PrintReloc_def MyTab_column SECTION_NAME_def RELOC_TYPE_def)

lemma third_line_column:
  "map_sum id fst (PrintSection_loop False (\<lambda>_. []) True [] [0, 0, 0] 0 (1, [])) = Inr 76"
  by code_simp

text \<open>A relocation against a section beyond \<open>.lit4\<close> reads past the table of names.\<close>

lemma section_name_overrun:
  "10 \<le> unat s \<Longrightarrow> PrintReloc symbol a [\<lparr>re_virtAddr = a, re_symbolIndex = s, re_type = ty, re_extern = False\<rparr>] ct = Inl OutOfBounds"
  by (simp add: PrintReloc_def SECTION_NAME_def aget_def)

end
