(* ===== verification/Userland_Programs.thy ===== *)
theory Userland_Programs
  imports Lib_Debug Threads_System
begin

text \<open>
  Programs for the simulated machine (\<open>userland/\<close>): the shell's reading and splitting of a line (\<open>shell.c\<close>), the number
  formatting of \<open>lib.c\<close>, and the two computations \<open>sort.c\<close> and \<open>matmult.c\<close>.

  Arrays are lists with checked accesses and pointers into a line are positions. \<open>input\<close> are the characters that the
  system call \<open>Read\<close> delivers; a call that waits for more of them ends in \<open>None\<close>.
\<close>

section \<open>The shell\<close>

definition MAX_LINE_SIZE :: nat where "MAX_LINE_SIZE = 60"
definition MAX_ARG_COUNT_shell :: nat where "MAX_ARG_COUNT_shell = 32"
definition ARG_SEPARATOR :: u8 where "ARG_SEPARATOR = 32"

text \<open>\<open>strlen\<close> and \<open>StringLength\<close>: the position of the terminator.\<close>

fun StringLength :: "u8 list \<Rightarrow> nat res" where
  "StringLength [] = Inl OutOfBounds"
| "StringLength (c # s) = (if c \<noteq> 0 then bindR (StringLength s) (\<lambda>i. Inr (Suc i)) else Inr 0)"

text \<open>The loop of \<open>ReadLine\<close>; \<open>left\<close> is \<open>size - i\<close>. The result is the count, the buffer and the rest of the input.\<close>

fun ReadLine_loop :: "nat \<Rightarrow> nat \<Rightarrow> u8 list \<Rightarrow> u8 list \<Rightarrow> (nat \<times> u8 list \<times> u8 list) res option" where
  "ReadLine_loop 0 i buf input = Some (Inr (i, buf, input))"
| "ReadLine_loop (Suc left) i buf [] = None"
| "ReadLine_loop (Suc left) i buf (c # input) =
     (if i < length buf then
        (if c = 10 then Some (Inr (i, buf[i := 0], input))
         else ReadLine_loop left (Suc i) (buf[i := c]) input)
      else Some (Inl OutOfBounds))"

definition ReadLine :: "u8 list \<Rightarrow> nat \<Rightarrow> u8 list \<Rightarrow> (nat \<times> u8 list \<times> u8 list) res option" where
  "ReadLine buf sz input = ReadLine_loop sz 0 buf input"

text \<open>The loop over the line from position \<open>i\<close>; the first component says whether the arguments fit.\<close>

function PrepareArguments_loop ::
  "nat \<Rightarrow> u8 list \<Rightarrow> nat option list \<Rightarrow> nat \<Rightarrow> nat \<Rightarrow> (bool \<times> u8 list \<times> nat option list) res" where
  "PrepareArguments_loop argvSize line argv argCount i =
    (if i < length line then
       (if line ! i = 0 then bindR (aset argv argCount None) (\<lambda>argv. Inr (True, line, argv))
        else if line ! i = ARG_SEPARATOR then
          (if argCount = argvSize - 1 then Inr (False, line, argv)
           else
             bindR (aset argv argCount (Some (i + 1))) (\<lambda>argv.
             PrepareArguments_loop argvSize (line[i := 0]) argv (argCount + 1) (i + 1)))
        else PrepareArguments_loop argvSize line argv argCount (i + 1))
     else Inl OutOfBounds)"
  by pat_completeness auto
termination
  by (relation "measure (\<lambda>(n, line, argv, c, i). length line - i)") auto

declare PrepareArguments_loop.simps [simp del]

definition PrepareArguments :: "u8 list \<Rightarrow> nat option list \<Rightarrow> nat \<Rightarrow> (bool \<times> u8 list \<times> nat option list) res" where
  "PrepareArguments line argv argvSize =
     bindR (aset argv 0 (Some 0)) (\<lambda>argv. PrepareArguments_loop argvSize line argv 1 0)"

section \<open>Lines of words\<close>

definition arg_word :: "u8 list \<Rightarrow> bool" where
  "arg_word w \<longleftrightarrow> (\<forall>c \<in> set w. c \<noteq> 0 \<and> c \<noteq> ARG_SEPARATOR \<and> c \<noteq> 10)"

lemma ReadLine_line:
  assumes "\<forall>c \<in> set l. c \<noteq> 10" and "length l < left" and "i + left \<le> length buf"
  shows "ReadLine_loop left i buf (l @ 10 # input) =
     Some (Inr (i + length l, blit buf i (l @ [0]), input))"
  using assms
proof (induction l arbitrary: left i buf)
  case Nil
  then show ?case by (cases left) (simp_all add: blit_def upd_conv_take_nth_drop)
next
  case (Cons c l)
  then obtain m where m: "left = Suc m" by (cases left) simp_all
  have "blit (buf[i := c]) (Suc i) (l @ [0]) = blit buf i ((c # l) @ [0])"
    using Cons.prems m by (simp add: blit_def take_Suc_conv_app_nth)
  with Cons.IH [of m "Suc i" "buf[i := c]"] Cons.prems m show ?case by simp
qed

lemma skip_word:
  assumes "arg_word w"
  shows "PrepareArguments_loop n (pre @ w @ post) argv k (length pre) = PrepareArguments_loop n (pre @ w @ post) argv k (length pre + length w)"
  using assms
proof (induction w arbitrary: pre)
  case (Cons c w)
  from Cons.prems have c: "c \<noteq> 0" "c \<noteq> ARG_SEPARATOR" "arg_word w" by (simp_all add: arg_word_def)
  with Cons.IH [OF c(3), of "pre @ [c]"] show ?case by (subst PrepareArguments_loop.simps) (simp add: nth_append)
qed simp

text \<open>The positions at which the words of a line start, and the line with its separators replaced.\<close>

fun starts :: "nat \<Rightarrow> u8 list list \<Rightarrow> nat list" where
  "starts p [] = []"
| "starts p (w # ws) = p # starts (p + length w + 1) ws"

lemma length_starts [simp]: "length (starts p ws) = length ws"
  by (induction ws arbitrary: p) simp_all

lemma split_loop:
  assumes "\<forall>w \<in> set (w # ws). arg_word w" and "k + length ws < n" and "length argv = n"
  shows "\<exists>argv'. PrepareArguments_loop n (pre @ join ARG_SEPARATOR (w # ws) @ 0 # post) argv k (length pre) =
       Inr (True, pre @ join 0 (w # ws) @ 0 # post, argv') \<and> length argv' = n \<and> take k argv' = take k argv \<and>
     slice k (Suc (length ws)) argv' = map Some (starts (length pre + length w + 1) ws) @ [None]"
  using assms
proof (induction ws arbitrary: w pre argv k)
  case Nil
  then have w: "arg_word w" "k < length argv" by simp_all
  show ?case
    using w Nil.prems(3) by (simp add: skip_word [OF w(1)])
      (subst PrepareArguments_loop.simps, simp add: nth_append slice_def Cons_nth_drop_Suc [symmetric])
next
  case (Cons v ws)
  then have w: "arg_word w" "k < length argv" "k \<noteq> n - 1" "k < n" by simp_all
  let ?rest = "join ARG_SEPARATOR (v # ws) @ 0 # post" and ?p = "length pre + length w"
  let ?pre = "pre @ w @ [0]"
  obtain argv' where a: "PrepareArguments_loop n (?pre @ ?rest) (argv[k := Some (?p + 1)]) (k + 1) (length ?pre) =
       Inr (True, ?pre @ join 0 (v # ws) @ 0 # post, argv')" "length argv' = n" "take (k + 1) argv' = take (k + 1) (argv[k := Some (?p + 1)])"
     "slice (k + 1) (Suc (length ws)) argv' = map Some (starts (length ?pre + length v + 1) ws) @ [None]"
    using Cons.IH [of v "k + 1" "argv[k := Some (?p + 1)]" ?pre] Cons.prems by auto
  have sep: "ARG_SEPARATOR \<noteq> 0" by (simp add: ARG_SEPARATOR_def)
  have line: "(pre @ w @ ARG_SEPARATOR # ?rest)[?p := 0] = ?pre @ ?rest" "(pre @ w @ ARG_SEPARATOR # ?rest) ! ?p = ARG_SEPARATOR"
    by (simp_all add: list_update_append nth_append)
  have "PrepareArguments_loop n (pre @ w @ ARG_SEPARATOR # ?rest) argv k ?p =
      PrepareArguments_loop n (?pre @ ?rest) (argv[k := Some (?p + 1)]) (k + 1) (length ?pre)"
    using w(2,3) sep by (subst PrepareArguments_loop.simps) (simp add: line)
  then have "PrepareArguments_loop n (pre @ w @ ARG_SEPARATOR # ?rest) argv k (length pre) = Inr (True, ?pre @ join 0 (v # ws) @ 0 # post, argv')"
    using a(1) by (simp only: skip_word [OF w(1)])
  moreover have "take k argv' = take k argv" "argv' ! k = Some (?p + 1)"
  proof -
    have "take k (take (k + 1) argv') = take k argv" "take (k + 1) argv' ! k = Some (?p + 1)"
      unfolding a(3) using w(2) by (simp_all add: take_Suc_conv_app_nth nth_append)
    then show "take k argv' = take k argv" "argv' ! k = Some (?p + 1)" by simp_all
  qed
  moreover have "slice k (Suc (length (v # ws))) argv' = argv' ! k # slice (k + 1) (Suc (length ws)) argv'"
    using a(2) w(4) by (simp add: slice_def Cons_nth_drop_Suc [symmetric])
  ultimately show ?case using a(2,4) by simp
qed

lemma join_strings:
  assumes "\<forall>w \<in> set ws. arg_word w" and "ws \<noteq> []"
  shows "map (cstr_at (pre @ join 0 ws @ 0 # post)) (starts (length pre) ws) = ws"
  using assms
proof (induction ws arbitrary: pre)
  case (Cons w ws)
  have w: "takeWhile (\<lambda>c. c \<noteq> 0) (w @ 0 # r) = w" for r
    using Cons.prems(1) by (simp add: takeWhile_append arg_word_def)
  show ?case
  proof (cases "ws = []")
    case True
    then show ?thesis by (simp add: cstr_at_def w)
  next
    case False
    then have j: "join 0 (w # ws) = w @ 0 # join 0 ws" by (cases ws) simp_all
    have "map (cstr_at ((pre @ w @ [0]) @ join 0 ws @ 0 # post)) (starts (length (pre @ w @ [0])) ws) = ws"
      using Cons.IH [of "pre @ w @ [0]"] Cons.prems(1) False by simp
    moreover have "cstr_at (pre @ w @ 0 # join 0 ws @ 0 # post) (length pre) = w" by (simp add: cstr_at_def w)
    ultimately show ?thesis by (simp add: j)
  qed
qed simp

text \<open>What the shell makes of a line: the words between the spaces, each a string of its own, and a null pointer behind
  them.\<close>

theorem shell_arguments:
  assumes "\<forall>w \<in> set ws. arg_word w" and "ws \<noteq> []" and "length ws < MAX_ARG_COUNT_shell" and "length argv = MAX_ARG_COUNT_shell"
    and "length buf = MAX_LINE_SIZE" and "length (join ARG_SEPARATOR ws) < MAX_LINE_SIZE"
  shows "\<exists>line line' argv'. ReadLine buf MAX_LINE_SIZE (join ARG_SEPARATOR ws @ 10 # input) =
       Some (Inr (length (join ARG_SEPARATOR ws), line, input)) \<and>
     PrepareArguments line argv MAX_ARG_COUNT_shell = Inr (True, line', argv') \<and>
     map (map_option (cstr_at line')) (take (Suc (length ws)) argv') = map Some ws @ [None]"
proof -
  let ?l = "join ARG_SEPARATOR ws"
  have "c \<noteq> 10" if "\<forall>w \<in> set vs. arg_word w" "c \<in> set (join ARG_SEPARATOR vs)" for c vs
    using that by (induction ARG_SEPARATOR vs rule: join.induct) (auto simp add: arg_word_def ARG_SEPARATOR_def)
  then have "\<forall>c \<in> set ?l. c \<noteq> 10" using assms(1) by blast
  from ReadLine_line [OF this assms(6), of 0 buf input] assms(5)
  have r: "ReadLine buf MAX_LINE_SIZE (?l @ 10 # input) = Some (Inr (length ?l, blit buf 0 (?l @ [0]), input))"
    by (simp add: ReadLine_def)
  obtain w vs where ws: "ws = w # vs" using assms(2) by (cases ws) simp_all
  let ?post = "drop (Suc (length ?l)) buf"
  have line: "blit buf 0 (?l @ [0]) = [] @ ?l @ 0 # ?post" by (simp add: blit_def)
  obtain argv' where a: "PrepareArguments_loop MAX_ARG_COUNT_shell ([] @ ?l @ 0 # ?post) (argv[0 := Some 0]) 1 (length ([] :: u8 list)) =
      Inr (True, [] @ join 0 ws @ 0 # ?post, argv')" "length argv' = MAX_ARG_COUNT_shell" "take 1 argv' = take 1 (argv[0 := Some 0])"
      "slice 1 (Suc (length vs)) argv' = map Some (starts (length ([] :: u8 list) + length w + 1) vs) @ [None]"
    using split_loop [of w vs 1 MAX_ARG_COUNT_shell "argv[0 := Some 0]" "[]" ?post] assms(1,3,4) unfolding ws by auto
  have "take (Suc (length ws)) argv' = take 1 argv' @ slice 1 (Suc (length vs)) argv'"
    using take_add [of 1 "Suc (length vs)" argv'] by (simp add: ws slice_def)
  also have "\<dots> = map Some (starts 0 ws) @ [None]"
    unfolding a(3,4) using assms(4) by (simp add: ws MAX_ARG_COUNT_shell_def take_Suc_conv_app_nth)
  finally have "map (map_option (cstr_at (join 0 ws @ 0 # ?post))) (take (Suc (length ws)) argv') =
      map Some (map (cstr_at (join 0 ws @ 0 # ?post)) (starts 0 ws)) @ [None]" by simp
  also have "\<dots> = map Some ws @ [None]" using join_strings [OF assms(1,2), of "[]" ?post] by simp
  finally show ?thesis
    using r a(1) assms(4) unfolding line by (auto simp add: PrepareArguments_def MAX_ARG_COUNT_shell_def)
qed

theorem shell_arguments_witness:
  "\<exists>line line' argv'. ReadLine (replicate 60 7) 60 (ascii_str ''cp a b'' @ [10]) = Some (Inr (6, line, [])) \<and>
     PrepareArguments line (replicate 32 None) 32 = Inr (True, line', argv') \<and>
     map (map_option (cstr_at line')) (take 4 argv') = [Some (ascii_str ''cp''), Some (ascii_str ''a''), Some (ascii_str ''b''), None]"
proof -
  have "join ARG_SEPARATOR [ascii_str ''cp'', ascii_str ''a'', ascii_str ''b''] = ascii_str ''cp a b''"
    by (simp add: ascii_str_def ARG_SEPARATOR_def)
  moreover have "arg_word (ascii_str ''cp'')" "arg_word (ascii_str ''a'')" "arg_word (ascii_str ''b'')" "length (ascii_str ''cp a b'') = 6"
    by (simp_all add: arg_word_def ascii_str_def ARG_SEPARATOR_def)
  ultimately show ?thesis
    using shell_arguments [of "[ascii_str ''cp'', ascii_str ''a'', ascii_str ''b'']" "replicate 32 None" "replicate 60 7" "[]"]
    by (simp add: MAX_ARG_COUNT_shell_def MAX_LINE_SIZE_def numeral_eq_Suc)
qed

text \<open>A line of sixty characters or more fills the buffer and has no terminator; splitting it runs out of the buffer.\<close>

lemma full_line_overruns:
  assumes "arg_word l" and "length l = MAX_LINE_SIZE" and "length argv = MAX_ARG_COUNT_shell"
  shows "ReadLine (replicate 60 7) MAX_LINE_SIZE (l @ input) = Some (Inr (60, l, input))"
    and "PrepareArguments l argv MAX_ARG_COUNT_shell = Inl OutOfBounds"
proof -
  have "ReadLine_loop (length l) i buf (l @ input) = Some (Inr (i + length l, take i buf @ l @ drop (i + length l) buf, input))"
    if "\<forall>c \<in> set l. c \<noteq> 10" "i + length l \<le> length buf" for i buf and l :: "u8 list"
    using that
  proof (induction l arbitrary: i buf)
    case (Cons c l)
    with Cons.IH [of "Suc i" "buf[i := c]"] show ?case by (simp add: take_Suc_conv_app_nth)
  qed simp
  from this [of l 0 "replicate 60 7"] assms(1,2)
  show "ReadLine (replicate 60 7) MAX_LINE_SIZE (l @ input) = Some (Inr (60, l, input))"
    by (simp add: ReadLine_def arg_word_def MAX_LINE_SIZE_def)
  show "PrepareArguments l argv MAX_ARG_COUNT_shell = Inl OutOfBounds"
    using skip_word [OF assms(1), of MAX_ARG_COUNT_shell "[]" "[]" "argv[0 := Some 0]" 1] assms(3)
    by (simp add: PrepareArguments_def MAX_ARG_COUNT_shell_def) (subst PrepareArguments_loop.simps, simp)
qed

section \<open>Numbers\<close>

definition digitToChar :: "nat \<Rightarrow> u8" where
  "digitToChar n = of_int (65 + (int n - 10))"

text \<open>\<open>itoa\<close> on numbers that are not negative: the characters from position \<open>pos\<close>.\<close>

fun itoa_chars :: "nat \<Rightarrow> u8 list" where
  "itoa_chars n = (if n \<ge> 10 then digitToChar (n mod 10) # itoa_chars ((n - n mod 10) div 10) else [of_nat n])"

definition itoa :: "nat \<Rightarrow> u8 list \<Rightarrow> u8 list res" where
  "itoa n s = (let cs = itoa_chars n @ [0] in if length cs \<le> length s then Inr (blit s 0 cs) else Inl OutOfBounds)"

text \<open>The characters of the digits are not digits, the last one is not converted, and their order is reversed.\<close>

lemma itoa_not_decimal: "digitToChar 5 = 60" "itoa 27 (replicate 4 1) = Inr [62, 2, 0, 1]"
  by (simp_all add: digitToChar_def itoa_def blit_def)

section \<open>Sorting and matrices\<close>

definition compare_swap :: "nat \<Rightarrow> int list \<Rightarrow> int list" where
  "compare_swap j A = (if A ! j > A ! (j + 1) then A[j := A ! (j + 1), j + 1 := A ! j] else A)"

definition sort_main :: "nat \<Rightarrow> int list" where
  "sort_main DIM =
    (let A = map (\<lambda>i. int DIM - int i) [0..<DIM] in
     fold (\<lambda>i A. fold compare_swap [i..<DIM - 1 - i] A) [0..<DIM - 1] A)"

text \<open>The program sorts its two numbers, whose smaller one is 1 and not the 0 of its comment; three numbers it would not
  sort, since the inner loop starts at \<open>i\<close>.\<close>

lemma sort_results: "sort_main 2 = [1, 2]" "sort_main 3 = [2, 1, 3]"
  by code_simp+

definition matmult_main :: "nat \<Rightarrow> nat \<Rightarrow> nat \<Rightarrow> int" where
  "matmult_main DIM i j = foldl (\<lambda>c k. c + int i * int j) 0 [0..<DIM]"

lemma matmult_result: "matmult_main DIM i j = int DIM * int i * int j"
  by (induction DIM) (simp_all add: matmult_main_def algebra_simps)

end
