(* ===== verification/Spec2Isabelle.thy ===== *)
theory Spec2Isabelle
  imports Lib_ListHeap Machine_Cpu Threads_Locks Threads_System Filesys_SynchDisk Filesys_Test Userprog_SynchConsole Userprog_Exception
    Userprog_Debugger Userprog_Start Network_Post Bin_Coff Bin_Disasm Userland_Programs
begin

text \<open>
  A verification development for the Nachos operating system of \<open>src/nachos-unr22a/code\<close>.

  All file names below are relative to that directory.

  \<^bold>\<open>The program.\<close>  Nachos is a teaching kernel that runs inside one UNIX process together with the
  simulator of the machine it runs on. The simulated machine (\<open>machine/\<close>) has a MIPS processor with a memory
  management unit, an interrupt controller driven by a simulated clock, and devices: timer, disk, console and
  network. On it stand the kernel's threads and their synchronisation (\<open>threads/\<close>), the file system
  (\<open>filesys/\<close>), user programs with their system calls and a debugger (\<open>userprog/\<close>), and a post office on the
  network (\<open>network/\<close>). Containers and helpers are in \<open>lib/\<close>, the translators that make the kernel's executables
  from object files in \<open>bin/\<close>. The parts interact in three ways: by calls down this stack; by interrupts, whose
  handlers the controller runs when the clock advances and which mostly do a \<open>V\<close> on a semaphore; and by the
  scheduler, which switches between threads wherever the kernel advances the clock.

  \<^bold>\<open>How code becomes definitions.\<close>  Operations are functions from the state to an outcome \<open>error + 'a\<close> (type
  \<open>res\<close> of \<open>Nachos_Prelude\<close>): a failed \<open>ASSERT\<close>, an access out of an array's bounds, a null dereference and a
  trap of the host are errors, as in the C++ each ends the process or is undefined. Classes are records with the
  source's fields, enumerations are datatypes, and \<open>unsigned\<close>, \<open>int\<close> and \<open>char\<close> are words of 32 and 8 bits, so that
  wrap-around is the code's. Arrays are lists accessed by \<open>aget\<close> and \<open>aset\<close>, which fail outside the array. Memory
  that C++ leaves uninitialised, the host's random numbers and its byte order are arguments of the definitions
  (\<open>junk\<close>, \<open>r\<close>, \<open>be\<close>), over which every theorem is quantified. Code in which threads interleave is a step
  relation on the statements that each thread has still to run.

  \<^bold>\<open>The theories.\<close>

  \<^item> \<open>Nachos_Prelude\<close>: the types, outcomes and their rewriting rules (collection \<open>res_simps\<close>), words as bytes of
    either byte order, the rounding division of \<open>lib/utility.hh\<close>, and the locale \<open>step_invariant\<close> of invariants of
    step relations.
  \<^item> \<open>Lib_Bitmap\<close>: \<open>lib/bitmap.cc\<close>. The array of words refines the set of marked bits; the locale
    \<open>allocator\<close> (find, clear, count) says what clients rely on, and the bitmap is its interpretation.
  \<^item> \<open>Lib_List\<close>, \<open>Lib_ListHeap\<close>: \<open>lib/list.hh\<close> twice, as the sequence of keys and items with the size
    field, and as the pointer code on a store of nodes; the second implements the first. The loops over nodes carry
    fuel, for which the number of nodes of the list is enough.
  \<^item> \<open>Lib_Table\<close>: \<open>lib/table.hh\<close>, the table that numbers threads and open files.
  \<^item> \<open>Lib_Debug\<close>: strings in buffers with the functions of the C library that the kernel uses on them, and
    \<open>lib/debug.cc\<close>.
  \<^item> \<open>Machine_Encoding\<close>: \<open>machine/encoding.cc\<close> and \<open>instruction.cc\<close>, the tables and the decoder.
  \<^item> \<open>Machine_Mmu\<close>: \<open>machine/mmu.cc\<close>, \<open>endianness.cc\<close>: translation by page table or TLB, reads and writes.
    Abstraction: the virtual memory that a page table presents.
  \<^item> \<open>Machine_Mult\<close>, \<open>Machine_Cpu\<close>: \<open>machine/mips_sim.cc\<close> and \<open>machine.cc\<close>: registers, exceptions, the
    delayed load, and every instruction; the invariant \<open>cpu_ok\<close>.
  \<^item> \<open>Machine_Interrupt\<close>: \<open>machine/interrupt.cc\<close>, \<open>timer.cc\<close>, \<open>statistics.cc\<close>: the clock, the pending interrupts
    and the loop that runs what is due. \<open>handlers_ok\<close> is the contract between the controller and the handlers of devices
    (locale \<open>due_handlers\<close>); the timer keeps it, here and in \<open>Threads_System\<close> (locale \<open>device_handlers\<close>), and so do the handlers of the
    drivers below.
  \<^item> \<open>Machine_Disk\<close>: \<open>machine/disk.cc\<close>: requests, latency with the track buffer, and the locale \<open>sector_device\<close>
    (read back what was written), interpreted on the blocking read and write that the file system calls.
  \<^item> \<open>Machine_Driver\<close>: the frame for code around an interrupt-driven device: threads with the statements
    \<open>Acquire\<close>, \<open>Release\<close>, \<open>P\<close> and device operations, interleaved with due interrupts and the outside world; the
    locale \<open>device_driver\<close> turns local obligations on statements and handlers into invariants of all runs and gives the handlers'
    side of \<open>handlers_ok\<close>. Its interpretations are \<open>synch_disk\<close>, \<open>synch_console\<close> and \<open>post_office\<close>.
  \<^item> \<open>Filesys_OpenFile\<close>: \<open>filesys/file_header.cc\<close>, \<open>open_file.cc\<close>. Abstraction: the bytes of a file on the disk.
  \<^item> \<open>Filesys_Directory\<close>: \<open>filesys/directory.cc\<close> with the exact layout of the entries on disk, and the transfers
    of directory and free map.
  \<^item> \<open>Filesys_FileSystem\<close>: \<open>filesys/file_system.cc\<close>. The invariant \<open>fs_ok\<close> of a disk (no sector in two files, the
    free map exact, names distinct) and the abstraction \<open>fs_files\<close>, a finite map from names to contents.
  \<^item> \<open>Filesys_Test\<close>: \<open>filesys/fs_test.cc\<close> and \<open>threads/main.cc\<close>: the commands that copy a file in, print a file
    and measure, and the command line that runs them.
  \<^item> \<open>Filesys_SynchDisk\<close>: \<open>filesys/synch_disk.cc\<close> on the asynchronous device. A call's result is logged when the call returns, after its
    \<open>P\<close> and \<open>Release\<close>; the specification \<open>linearised\<close> is a sequence of single operations that explains these results.
  \<^item> \<open>Threads_Kernel\<close>: \<open>threads/thread.cc\<close>, \<open>scheduler.cc\<close>, \<open>semaphore.cc\<close>, \<open>lock.cc\<close>, \<open>condition.cc\<close>,
    \<open>channel.cc\<close>, \<open>synch_list.hh\<close>: each call unfolds into the statements of its body, and \<open>kernel_step\<close> lets the
    current thread run its next statement, a time slice end, or the handler of a device signal a semaphore. \<open>kernel_history\<close> is a run
    with the lists of the threads that it has forked and finished.
  \<^item> \<open>Threads_Locks\<close>: mutual exclusion, a simulation onto an abstract lock, and wake-ups, over \<open>Threads_Kernel\<close>.
  \<^item> \<open>Threads_System\<close>: \<open>threads/system.cc\<close>: the command line and \<open>Initialize\<close> of the threads build, with the split of the
    process by \<open>threads/preemptive.cc\<close>.
  \<^item> \<open>Userprog_Transfer\<close>: \<open>userprog/transfer.cc\<close> and \<open>args.cc\<close>.
  \<^item> \<open>Userprog_AddressSpace\<close>: \<open>userprog/executable.cc\<close>, \<open>address_space.cc\<close>, \<open>bin/noff.h\<close>; the locale
    \<open>program_file\<close> is what loading needs of a file, interpreted on \<open>OpenFile\<close>.
  \<^item> \<open>Userprog_Start\<close>: \<open>StartProcess\<close> of \<open>userprog/prog_test.cc\<close>, which runs a program by its name.
  \<^item> \<open>Userprog_SynchConsole\<close>: \<open>machine/console.cc\<close> and \<open>userprog/SynchConsole.cc\<close>.
  \<^item> \<open>Userprog_Exception\<close>: \<open>userprog/exception.cc\<close>: the dispatch of system calls over the machine, the table of
    open files, address spaces and the file system.
  \<^item> \<open>Userprog_Debugger\<close>: \<open>userprog/debugger.cc\<close>, \<open>debugger_command_manager.cc\<close>, \<open>machine/single_stepper.hh\<close>.
  \<^item> \<open>Network_Post\<close>: \<open>machine/network.cc\<close> and \<open>network/post.cc\<close>.
  \<^item> \<open>Bin_Coff\<close>: \<open>bin/coff_reader.c\<close>, \<open>coff_section.c\<close>, \<open>coff2noff.c\<close>, \<open>coff2flat.c\<close>.
  \<^item> \<open>Bin_Disasm\<close>: \<open>bin/d.c\<close>, \<open>opstrings.c\<close>, \<open>encode.h\<close>, \<open>instr.h\<close>, and the printing of \<open>out.c\<close>: what the
    disassembler shows for a word, against the decoder of \<open>Machine_Encoding\<close>.
  \<^item> \<open>Userland_Programs\<close>: \<open>userland/shell.c\<close>, \<open>lib.c\<close>, \<open>sort.c\<close>, \<open>matmult.c\<close>.

  \<^bold>\<open>What is shown.\<close>

  \<^item> File system: on every disk that satisfies \<open>fs_ok\<close>, creating, opening, writing, reading, removing, mounting and
    checking do to the map \<open>fs_files\<close> what their names say and keep \<open>fs_ok\<close>; formatting establishes it. A read after
    a write returns the written bytes for every alignment and length. The system calls on files are connected to
    these facts through the user's memory, and so are the commands that copy a file in, print it and run it.
  \<^item> Threads: in every run each thread that has not finished is in exactly one place, a lock has one owner at most, the assertions of locks and
    conditions hold when threads release what they acquired, and no waiter is forgotten while its semaphore is
    available.
  \<^item> Machine: user instructions keep the machine's state well formed, and the only ways in which a program ends the
    simulator are listed; translation gives the exception that the tables call for; a write through one page table
    leaves address spaces with other frames alone; multiplication is exact; the interrupt loop terminates and runs
    what is due once, earliest first, for all handlers that keep the contract; the disk's latency is bounded.
  \<^item> Devices: for all interleavings the synchronous disk is linearisable, the console neither loses, duplicates nor
    reorders characters (but the byte 0xFF, which it takes for its mark of an empty buffer, may come late), the post office delivers to each box the prefix of what arrived, and no assertion of the drivers or
    devices fails.
  \<^item> User programs: a loaded program is in memory as its object file says, programs share no frame, system calls
    advance the program by one instruction and deliver their results in register 2, and the debugger changes nothing, except that a blank line
    makes it read below its buffer.

  Where the code deviates from its intention or from its comments, a lemma beside the properties shows what it does (for example
  \<open>Write_overruns_buffer\<close>, and \<open>Create_exact\<close>, \<open>Open_exact\<close> and \<open>Read_exact\<close> with the results of the calls, in
  \<open>Userprog_Exception\<close>, \<open>empty_line_underruns\<close> in \<open>Userprog_Debugger\<close>, \<open>MonitorProcess_zero\<close> in \<open>Threads_System\<close>).

  \<^bold>\<open>Bounds and fuel.\<close>  The interrupt loop (\<open>due_loop\<close>) takes as fuel the number of handlers it may run; one more than
  the number of pending interrupts that are due is enough, because a handler schedules its successors at least one tick later
  (\<open>OneTick_runs_due\<close>). \<open>Print\<close> has 385 rounds of ten bytes, enough for the 3840 bytes of the longest file. A build
  without \<open>DFS_TICKS_FIX\<close> asserts that the clock does not wrap around: theorems about runs ask for room on the
  clock (\<open>ticks_room\<close>, \<open>clock_room\<close>). The loops of \<open>Lib_ListHeap\<close> need as many rounds as the list has nodes.
  All other loops are total
  functions, with termination proofs where the recursion is not structural.
  The sizes are the code's: 128 bytes a sector and a page, 1024 sectors, 30 sectors a file, 128 pages of memory,
  five priorities, ten names in the directory.

  \<^bold>\<open>Hypotheses about code outside the sources.\<close>  The host appears as functions: the answers of its random number
  generator, the numerals that \<open>atof\<close> reads, what \<open>fork\<close> returns, the bytes typed, the packets on the sockets. Where a theorem needs
  one of them to behave, its hypothesis says so and a witness instantiates it.

  \<^bold>\<open>Not modelled.\<close>  The wrappers of UNIX calls and the host's context switch (\<open>machine/system_dep.cc\<close>,
  \<open>threads/switch*.s\<close>), whose effect is part of the models that use them; of \<open>threads/preemptive.cc\<close> the manipulation of the child's registers and stack
  and a forced switch in the middle of a statement;
  the test drivers of \<open>threads/\<close>; those programs of \<open>userland/\<close> that are only a few system calls; the
  text of \<open>sys_info.cc\<close>; printing for debugging and destructors that only free memory; of \<open>bin/\<close> the stand-alone
  interpreter (\<open>execute.c\<close>, \<open>main.c\<close>, \<open>system.c\<close>) and the second disassembler \<open>disasm.c\<close>, which do not compile
  (the condition codes are undeclared and system headers are missing), the symbol headers of \<open>extern/\<close> and the part of
  \<open>out.c\<close> that reads them, which are third-party, and \<open>readnoff.c\<close>, which prints a header; course material outside the
  tree. Pages are not swapped and the file system has one directory in this version of the code.
\<close>

end
